(* ===== verification/Blocx_Prelude.thy ===== *)
theory Blocx_Prelude
  imports Main "HOL-Library.Word" "HOL-Library.Signed_Division"
begin

unbundle bit_operations_syntax

text \<open>
  Shared vocabulary of the development: names for the machine integers of the C++ sources,
  and the little-endian limb lists that carry every multi-word number of the code base.
  A \<^verbatim>\<open>uint256\<close> is 32 bytes, an \<^verbatim>\<open>arith_uint256\<close> is eight 32-bit
  limbs, a script number is up to nine bytes and a serialized integer is one to eight bytes;
  all of them are lists of words of one width, least significant first.  The value of such a
  list, its inverse and its bits are defined once, for every width, and the components use
  the instances at 8 and at 32 bits.
\<close>

type_synonym u8 = "8 word"
type_synonym u16 = "16 word"
type_synonym u32 = "32 word"
type_synonym u64 = "64 word"
type_synonym bytes = "8 word list"

named_theorems limb_simps \<open>evaluation of limb lists\<close>


lemma unat_bound: "unat (w :: 'a::len word) < 2 ^ LENGTH('a)"
  by (rule unsigned_less)

section \<open>Signed integers\<close>

lemma sint_u32_small: "- (2 ^ 31) \<le> k \<Longrightarrow> k < 2 ^ 31 \<Longrightarrow> sint (word_of_int k :: u32) = k"
  unfolding sint_sbintrunc' by (rule signed_take_bit_int_eq_self) simp_all

lemma sint_size: "n < 2 ^ 31 \<Longrightarrow> sint (word_of_nat n :: u32) = int n"
  using sint_u32_small [of "int n"] by (simp only: of_int_of_nat_eq) simp

lemma sint_u32_nonneg: "unat w < 2 ^ 31 \<Longrightarrow> sint w = int (unat w)" for w :: u32
  using sint_size [of "unat w"] by simp

lemma int_sdiv_pos: "0 \<le> a \<Longrightarrow> 0 < b \<Longrightarrow> a sdiv b = a div b" "0 \<le> a \<Longrightarrow> 0 < b \<Longrightarrow> a smod b = a mod b" for a b :: int
  by (simp_all add: signed_divide_int_def signed_modulo_int_def sgn_if minus_div_mult_eq_mod)

section \<open>Little-endian limb lists\<close>

primrec limbs_val :: "'a::len word list \<Rightarrow> nat" where
  "limbs_val [] = 0"
| "limbs_val (w # ws) = unat w + 2 ^ LENGTH('a) * limbs_val ws"

primrec limbs_of :: "nat \<Rightarrow> nat \<Rightarrow> 'a::len word list" where
  "limbs_of 0 v = []"
| "limbs_of (Suc k) v = word_of_nat v # limbs_of k (v div 2 ^ LENGTH('a))"

lemma length_limbs_of [simp]: "length (limbs_of k v) = k"
  by (induction k arbitrary: v) auto

lemma limbs_val_append:
  "limbs_val (xs @ ys) =
     limbs_val xs + 2 ^ (LENGTH('a) * length xs) * limbs_val (ys :: 'a::len word list)"
  by (induction xs) (auto simp: algebra_simps power_add)

lemma limbs_val_bound: "limbs_val ws < 2 ^ (LENGTH('a) * length (ws :: 'a::len word list))"
proof (induction ws)
  case Nil
  then show ?case by simp
next
  case (Cons w ws)
  let ?B = "2 ^ LENGTH('a) :: nat"
  let ?M = "2 ^ (LENGTH('a) * length ws) :: nat"
  have "limbs_val ws + 1 \<le> ?M" using Cons.IH by simp
  then have "?B * (limbs_val ws + 1) \<le> ?B * ?M" by (rule mult_le_mono2)
  moreover have "unat w < ?B" by (rule unsigned_less)
  ultimately have "unat w + ?B * limbs_val ws < ?B * ?M" by (simp only: distrib_left mult_1_right)
  then show ?case by (simp add: power_add algebra_simps)
qed

lemma limbs_val_limbs_of:
  "limbs_val (limbs_of k v :: 'a::len word list) = v mod 2 ^ (LENGTH('a) * k)"
proof (induction k arbitrary: v)
  case 0
  then show ?case by simp
next
  case (Suc k)
  have "limbs_val (limbs_of (Suc k) v :: 'a word list) =
      v mod 2 ^ LENGTH('a) + 2 ^ LENGTH('a) * (v div 2 ^ LENGTH('a) mod 2 ^ (LENGTH('a) * k))"
    by (simp add: Suc.IH unat_of_nat)
  also have "\<dots> = v mod (2 ^ LENGTH('a) * 2 ^ (LENGTH('a) * k))"
    by (simp add: mod_mult2_eq algebra_simps)
  finally show ?case by (simp add: power_add algebra_simps)
qed

lemma limbs_of_limbs_val: "limbs_of (length ws) (limbs_val ws) = (ws :: 'a::len word list)"
proof (induction ws)
  case Nil
  then show ?case by simp
next
  case (Cons w ws)
  have "unat w div 2 ^ LENGTH('a) = 0" by (simp add: unsigned_less)
  then have "(unat w + 2 ^ LENGTH('a) * limbs_val ws) div 2 ^ LENGTH('a) = limbs_val ws"
    by simp
  moreover have "word_of_nat (unat w + 2 ^ LENGTH('a) * limbs_val ws) = w"
    by simp
  ultimately show ?case using Cons.IH by simp
qed

lemma limbs_val_inj:
  "length xs = length ys \<Longrightarrow> limbs_val xs = limbs_val ys \<Longrightarrow> xs = (ys :: 'a::len word list)"
  by (metis limbs_of_limbs_val)

lemma limbs_val_replicate_0 [simp]: "limbs_val (replicate n 0 :: 'a::len word list) = 0"
  by (induction n) auto

lemma limbs_val_eq_0_iff: "limbs_val ws = 0 \<longleftrightarrow> (\<forall>w \<in> set ws. w = (0 :: 'a::len word))"
  by (induction ws) (auto simp: unat_eq_zero)

lemma limbs_val_div_mod:
  "limbs_val (w # ws) mod 2 ^ LENGTH('a) = unat w"
  "limbs_val (w # ws) div 2 ^ LENGTH('a) = limbs_val (ws :: 'a::len word list)"
proof -
  have "unat w < 2 ^ LENGTH('a)" by (rule unsigned_less)
  then show "limbs_val (w # ws) mod 2 ^ LENGTH('a) = unat w"
    and "limbs_val (w # ws) div 2 ^ LENGTH('a) = limbs_val ws"
    by simp_all
qed

lemma bit_limbs_val:
  "bit (limbs_val ws) j \<longleftrightarrow>
     j < LENGTH('a) * length ws \<and> bit (ws ! (j div LENGTH('a)) :: 'a::len word) (j mod LENGTH('a))"
proof (induction ws arbitrary: j)
  case Nil
  then show ?case by simp
next
  case (Cons w ws)
  show ?case
  proof (cases "j < LENGTH('a)")
    case True
    have "bit (limbs_val (w # ws)) j = bit (take_bit LENGTH('a) (limbs_val (w # ws))) j"
      using True by (simp add: bit_take_bit_iff)
    also have "\<dots> = bit (unat w) j"
      by (simp only: take_bit_eq_mod limbs_val_div_mod)
    also have "\<dots> = bit w j" using True by (simp add: bit_unsigned_iff)
    finally show ?thesis using True by simp
  next
    case False
    then obtain i where j: "j = LENGTH('a) + i" by (metis le_add_diff_inverse not_less)
    have "bit (limbs_val (w # ws)) j = bit (drop_bit LENGTH('a) (limbs_val (w # ws))) i"
      by (simp add: bit_drop_bit_eq j)
    also have "\<dots> = bit (limbs_val ws) i"
      by (simp only: drop_bit_eq_div limbs_val_div_mod)
    finally have "bit (limbs_val (w # ws)) j = bit (limbs_val ws) i" .
    moreover have "(LENGTH('a) + i) div LENGTH('a) = Suc (i div LENGTH('a))"
      using div_add_self1 [of "LENGTH('a)" i] by simp
    ultimately show ?thesis by (simp add: Cons.IH j)
  qed
qed

end
