(* ===== verification/Byte_Order.thy ===== *)
theory Byte_Order
  imports Blocx_Prelude
begin

text \<open>
  The fixed-width little-endian readers and writers of \<^verbatim>\<open>crypto/common.h\<close>, on
  which the script encoder, the serializer and the 256-bit integers rest.  A reader takes the
  bytes from its pointer on and looks at the first two, four or eight of them; a writer yields
  the bytes it stores.
\<close>

definition ReadLE16 :: "bytes \<Rightarrow> u16" where
  "ReadLE16 ptr = word_of_nat (limbs_val (take 2 ptr))"

definition ReadLE32 :: "bytes \<Rightarrow> u32" where
  "ReadLE32 ptr = word_of_nat (limbs_val (take 4 ptr))"

definition ReadLE64 :: "bytes \<Rightarrow> u64" where
  "ReadLE64 ptr = word_of_nat (limbs_val (take 8 ptr))"

definition WriteLE16 :: "u16 \<Rightarrow> bytes" where
  "WriteLE16 x = limbs_of 2 (unat x)"

definition WriteLE32 :: "u32 \<Rightarrow> bytes" where
  "WriteLE32 x = limbs_of 4 (unat x)"

definition WriteLE64 :: "u64 \<Rightarrow> bytes" where
  "WriteLE64 x = limbs_of 8 (unat x)"

lemma length_WriteLE [simp]:
  "length (WriteLE16 x) = 2" "length (WriteLE32 y) = 4" "length (WriteLE64 z) = 8"
  by (simp_all add: WriteLE16_def WriteLE32_def WriteLE64_def)

lemma limbs_val_WriteLE [simp]:
  "limbs_val (WriteLE16 x) = unat x" "limbs_val (WriteLE32 y) = unat y"
  "limbs_val (WriteLE64 z) = unat z"
  using unat_bound [of x] unat_bound [of y] unat_bound [of z]
  by (simp_all add: WriteLE16_def WriteLE32_def WriteLE64_def limbs_val_limbs_of)

lemma ReadLE_WriteLE [simp]:
  "ReadLE16 (WriteLE16 x @ r) = x" "ReadLE32 (WriteLE32 y @ r) = y" "ReadLE64 (WriteLE64 z @ r) = z"
  by (simp_all add: ReadLE16_def ReadLE32_def ReadLE64_def)

lemma limbs_val_take_bound: "limbs_val (take n p :: bytes) < 2 ^ (8 * n)"
proof -
  have "limbs_val (take n p) < 2 ^ (8 * length (take n p))"
    using limbs_val_bound [of "take n p"] by simp
  also have "\<dots> \<le> (2::nat) ^ (8 * n)" by (rule power_increasing) simp_all
  finally show ?thesis .
qed

lemma unat_ReadLE:
  "unat (ReadLE16 p) = limbs_val (take 2 p)"
  "unat (ReadLE32 p) = limbs_val (take 4 p)"
  "unat (ReadLE64 p) = limbs_val (take 8 p)"
  using limbs_val_take_bound [of 2 p] limbs_val_take_bound [of 4 p] limbs_val_take_bound [of 8 p]
  by (simp_all add: ReadLE16_def ReadLE32_def ReadLE64_def unat_of_nat)

lemma WriteLE_ReadLE:
  "2 \<le> length p \<Longrightarrow> WriteLE16 (ReadLE16 p) = take 2 p"
  "4 \<le> length p \<Longrightarrow> WriteLE32 (ReadLE32 p) = take 4 p"
  "8 \<le> length p \<Longrightarrow> WriteLE64 (ReadLE64 p) = take 8 p"
  using limbs_of_limbs_val [of "take 2 p"] limbs_of_limbs_val [of "take 4 p"]
    limbs_of_limbs_val [of "take 8 p"]
  by (simp_all add: WriteLE16_def WriteLE32_def WriteLE64_def unat_ReadLE)

section \<open>Single bytes\<close>

lemma limbs_of_nth: "j < k \<Longrightarrow> (limbs_of k v :: bytes) ! j = word_of_nat (v div 256 ^ j)"
  by (induction k arbitrary: j v) (auto simp: less_Suc_eq_0_disj div_mult2_eq)

lemma limbs_of_word_nth: "j < k \<Longrightarrow> (limbs_of k (unat x) :: bytes) ! j = ucast (drop_bit (8 * j) x)"
proof -
  assume "j < k"
  have "unat (drop_bit (8 * j) x) = unat x div 256 ^ j" unfolding unat_drop_bit_eq by (simp add: drop_bit_eq_div power_mult)
  then have "(word_of_nat (unat x div 256 ^ j) :: u8) = word_of_nat (unat (drop_bit (8 * j) x))" by (simp only:)
  also have "\<dots> = ucast (drop_bit (8 * j) x)" by (rule of_nat_unat)
  finally show ?thesis using limbs_of_nth [OF \<open>j < k\<close>] by (simp only:)
qed

lemma ucast_and_FF: "8 \<le> LENGTH('a) \<Longrightarrow> ucast (and w 0xFF) = (ucast w :: u8)" for w :: "'a::len word"
proof -
  assume "8 \<le> LENGTH('a)"
  then have n: "i < 8 \<Longrightarrow> i < LENGTH('a)" for i by simp
  have m: "(0xFF :: 'a word) = mask 8" by (simp add: mask_eq_exp_minus_1)
  show ?thesis unfolding m by (rule bit_word_eqI) (use n in \<open>auto simp: bit_simps\<close>)
qed

end
