(* ===== verification/Arith_U256.thy ===== *)
theory Arith_U256
  imports Byte_Order
begin

unbundle bit_operations_syntax

text \<open>
  The 256-bit unsigned integer of \<^verbatim>\<open>arith_uint256.{h,cpp}\<close>, the type of every
  difficulty target and of the accumulated chain work.  \<^verbatim>\<open>base_uint<256>\<close> keeps
  eight 32-bit limbs \<^verbatim>\<open>pn[0..7]\<close>, least significant first; the model keeps the
  same array as a list of eight 32-bit words and transcribes each operator with its loops
  and its 64-bit carries.  The lemmas relate every operator to arithmetic on the natural
  number \<open>limbs_val\<close> reads from the limbs.
\<close>

type_synonym u256 = "32 word list"

abbreviation (input) WIDTH :: nat where "WIDTH \<equiv> 8"

definition wf_u256 :: "u256 \<Rightarrow> bool" where
  "wf_u256 a \<longleftrightarrow> length a = WIDTH"


section \<open>Constructors and bitwise operators\<close>

definition bu_zero :: u256 where
  "bu_zero = replicate WIDTH 0"

definition bu_of_u64 :: "u64 \<Rightarrow> u256" where
  "bu_of_u64 b = ucast b # ucast (drop_bit 32 b) # replicate (WIDTH - 2) 0"

definition bu_not :: "u256 \<Rightarrow> u256" where
  "bu_not a = map NOT a"

definition bu_xor :: "u256 \<Rightarrow> u256 \<Rightarrow> u256" where
  "bu_xor a b = map2 (XOR) a b"

definition bu_and :: "u256 \<Rightarrow> u256 \<Rightarrow> u256" where
  "bu_and a b = map2 (AND) a b"

definition bu_or :: "u256 \<Rightarrow> u256 \<Rightarrow> u256" where
  "bu_or a b = map2 (OR) a b"


section \<open>Increment, decrement, negation, addition, subtraction\<close>

primrec bu_inc :: "u256 \<Rightarrow> u256" where
  "bu_inc [] = []"
| "bu_inc (w # ws) = (if w + 1 = 0 then (w + 1) # bu_inc ws else (w + 1) # ws)"

primrec bu_dec :: "u256 \<Rightarrow> u256" where
  "bu_dec [] = []"
| "bu_dec (w # ws) = (if w - 1 = - 1 then (w - 1) # bu_dec ws else (w - 1) # ws)"

definition bu_neg :: "u256 \<Rightarrow> u256" where
  "bu_neg a = bu_inc (map NOT a)"

fun bu_add_loop :: "u64 \<Rightarrow> u256 \<Rightarrow> u256 \<Rightarrow> u256" where
  "bu_add_loop carry (x # xs) (y # ys) =
     (let n = carry + ucast x + ucast y
      in ucast (n AND 0xffffffff) # bu_add_loop (drop_bit 32 n) xs ys)"
| "bu_add_loop carry _ _ = []"

definition bu_add :: "u256 \<Rightarrow> u256 \<Rightarrow> u256" where
  "bu_add a b = bu_add_loop 0 a b"

definition bu_sub :: "u256 \<Rightarrow> u256 \<Rightarrow> u256" where
  "bu_sub a b = bu_add a (bu_neg b)"

definition bu_add_u64 :: "u256 \<Rightarrow> u64 \<Rightarrow> u256" where
  "bu_add_u64 a b64 = bu_add a (bu_of_u64 b64)"

definition bu_sub_u64 :: "u256 \<Rightarrow> u64 \<Rightarrow> u256" where
  "bu_sub_u64 a b64 = bu_add a (bu_neg (bu_of_u64 b64))"


section \<open>Multiplication\<close>

primrec bu_mul32_loop :: "u64 \<Rightarrow> u32 \<Rightarrow> u256 \<Rightarrow> u256" where
  "bu_mul32_loop carry b32 [] = []"
| "bu_mul32_loop carry b32 (x # xs) =
     (let n = carry + ucast b32 * ucast x
      in ucast (n AND 0xffffffff) # bu_mul32_loop (drop_bit 32 n) b32 xs)"

definition bu_mul32 :: "u256 \<Rightarrow> u32 \<Rightarrow> u256" where
  "bu_mul32 a b32 = bu_mul32_loop 0 b32 a"

text \<open>
  The inner loop of \<^verbatim>\<open>operator*=(const base_uint&)\<close> runs over the limbs
  \<^verbatim>\<open>a.pn[j..]\<close> of the accumulator and the limbs of \<^verbatim>\<open>b\<close> in step; it
  stops when the accumulator is exhausted (\<^verbatim>\<open>i + j < WIDTH\<close>).
\<close>

fun bu_mul_row :: "u64 \<Rightarrow> u32 \<Rightarrow> u256 \<Rightarrow> u256 \<Rightarrow> u256" where
  "bu_mul_row carry x (a # as) (b # bs) =
     (let n = carry + ucast a + ucast x * ucast b
      in ucast (n AND 0xffffffff) # bu_mul_row (drop_bit 32 n) x as bs)"
| "bu_mul_row carry x _ _ = []"

definition bu_mul :: "u256 \<Rightarrow> u256 \<Rightarrow> u256" where
  "bu_mul pn b =
     fold (\<lambda>j a. take j a @ bu_mul_row 0 (pn ! j) (drop j a) b) [0..<WIDTH] bu_zero"


section \<open>Shifts\<close>

definition bu_shl_step :: "u256 \<Rightarrow> nat \<Rightarrow> nat \<Rightarrow> nat \<Rightarrow> u256 \<Rightarrow> u256" where
  "bu_shl_step a k s i pn =
     (let pn = (if i + k + 1 < WIDTH \<and> s \<noteq> 0
                then pn[i + k + 1 := pn ! (i + k + 1) OR drop_bit (32 - s) (a ! i)] else pn)
      in if i + k < WIDTH then pn[i + k := pn ! (i + k) OR push_bit s (a ! i)] else pn)"

definition bu_shl :: "u256 \<Rightarrow> nat \<Rightarrow> u256" where
  "bu_shl a shift = fold (bu_shl_step a (shift div 32) (shift mod 32)) [0..<WIDTH] bu_zero"

definition bu_shr_step :: "u256 \<Rightarrow> nat \<Rightarrow> nat \<Rightarrow> nat \<Rightarrow> u256 \<Rightarrow> u256" where
  "bu_shr_step a k s i pn =
     (let pn = (if k + 1 \<le> i \<and> s \<noteq> 0
                then pn[i - k - 1 := pn ! (i - k - 1) OR push_bit (32 - s) (a ! i)] else pn)
      in if k \<le> i then pn[i - k := pn ! (i - k) OR drop_bit s (a ! i)] else pn)"

definition bu_shr :: "u256 \<Rightarrow> nat \<Rightarrow> u256" where
  "bu_shr a shift = fold (bu_shr_step a (shift div 32) (shift mod 32)) [0..<WIDTH] bu_zero"


section \<open>Comparison and bit length\<close>

fun bu_compare_loop :: "u256 \<Rightarrow> u256 \<Rightarrow> int" where
  "bu_compare_loop (x # xs) (y # ys) =
     (if x < y then - 1 else if x > y then 1 else bu_compare_loop xs ys)"
| "bu_compare_loop _ _ = 0"

definition CompareTo :: "u256 \<Rightarrow> u256 \<Rightarrow> int" where
  "CompareTo a b = bu_compare_loop (rev a) (rev b)"

definition EqualTo :: "u256 \<Rightarrow> u64 \<Rightarrow> bool" where
  "EqualTo a b =
     (if list_ex (\<lambda>i. a ! i \<noteq> 0) (rev [2..<WIDTH]) then False
      else if ucast (a ! 1) \<noteq> drop_bit 32 b then False
      else if ucast (a ! 0) \<noteq> b AND 0xffffffff then False
      else True)"

primrec top_bit :: "nat \<Rightarrow> u32 \<Rightarrow> nat" where
  "top_bit 0 w = 1"
| "top_bit (Suc n) w = (if w AND push_bit (Suc n) 1 \<noteq> 0 then Suc n + 1 else top_bit n w)"

primrec bu_bits_loop :: "nat \<Rightarrow> u256 \<Rightarrow> nat" where
  "bu_bits_loop 0 pn = 0"
| "bu_bits_loop (Suc pos) pn =
     (if pn ! pos \<noteq> 0 then 32 * pos + top_bit 31 (pn ! pos) else bu_bits_loop pos pn)"

definition bu_bits :: "u256 \<Rightarrow> nat" where
  "bu_bits pn = bu_bits_loop WIDTH pn"

definition GetLow64 :: "u256 \<Rightarrow> u64" where
  "GetLow64 pn = ucast (pn ! 0) OR push_bit 32 (ucast (pn ! 1))"


section \<open>Division\<close>

datatype uint_error = DivisionByZero

primrec bu_div_loop :: "nat \<Rightarrow> u256 \<Rightarrow> u256 \<Rightarrow> u256 \<Rightarrow> u256 \<times> u256" where
  "bu_div_loop 0 num dv pn =
     (if CompareTo num dv \<ge> 0
      then (bu_sub num dv, pn[0 := pn ! 0 OR push_bit 0 1]) else (num, pn))"
| "bu_div_loop (Suc s) num dv pn =
     (let (num, pn) =
        (if CompareTo num dv \<ge> 0
         then (bu_sub num dv,
               pn[Suc s div 32 := pn ! (Suc s div 32) OR push_bit (Suc s mod 32) 1])
         else (num, pn))
      in bu_div_loop s num (bu_shr dv 1) pn)"

definition bu_div :: "u256 \<Rightarrow> u256 \<Rightarrow> uint_error + u256" where
  "bu_div a b =
     (let num_bits = bu_bits a; div_bits = bu_bits b
      in if div_bits = 0 then Inl DivisionByZero
         else if div_bits > num_bits then Inr bu_zero
         else let shift = num_bits - div_bits
              in Inr (snd (bu_div_loop shift a (bu_shl b shift) bu_zero)))"


section \<open>Conversion to and from the 32-byte \<^verbatim>\<open>uint256\<close>\<close>

definition ArithToUint256 :: "u256 \<Rightarrow> bytes" where
  "ArithToUint256 a = concat (map (\<lambda>x. WriteLE32 (a ! x)) [0..<WIDTH])"

definition UintToArith256 :: "bytes \<Rightarrow> u256" where
  "UintToArith256 a = map (\<lambda>x. ReadLE32 (drop (x * 4) a)) [0..<WIDTH]"


section \<open>Carries\<close>

lemma low_limb: "unat (ucast (n AND 0xffffffff :: u64) :: u32) = unat n mod 2 ^ 32"
proof -
  have "(0xffffffff :: u64) = mask 32" by (simp add: mask_eq_exp_minus_1)
  then show ?thesis
    by (simp only: take_bit_eq_mask [symmetric] unsigned_ucast_eq unsigned_take_bit_eq)
      (simp add: take_bit_eq_mod)
qed

lemma high_limb: "unat (drop_bit 32 n :: u64) = unat n div 2 ^ 32"
proof -
  have "take_bit 64 (unat n) = unat n"
    using unat_bound [of n] by (simp add: take_bit_nat_eq_self_iff)
  then show ?thesis
    unfolding unsigned_drop_bit_eq by (simp add: drop_bit_eq_div)
qed

lemma unat_ucast_64 [simp]: "unat (ucast (x :: u32) :: u64) = unat x"
  by (simp add: unsigned_ucast_eq take_bit_nat_eq_self_iff unsigned_less
      less_trans [OF unsigned_less])

lemma carry_step:
  assumes "unat (n :: u64) = S"
  shows "unat (ucast (n AND 0xffffffff) :: u32) + 2 ^ 32 * ((unat (drop_bit 32 n) + T) mod M) =
    (S + 2 ^ 32 * T) mod (2 ^ 32 * M)"
proof -
  have "(S + 2 ^ 32 * T) mod (2 ^ 32 * M) =
      2 ^ 32 * ((S + 2 ^ 32 * T) div 2 ^ 32 mod M) + (S + 2 ^ 32 * T) mod 2 ^ 32"
    by (rule mod_mult2_eq)
  then show ?thesis by (simp add: assms low_limb high_limb add.commute)
qed


section \<open>Addition, subtraction and negation are arithmetic modulo a power of two\<close>

definition modulus :: "nat \<Rightarrow> nat" where
  "modulus n = 2 ^ (32 * n)"

lemma modulus_0 [simp]: "modulus 0 = 1"
  by (simp add: modulus_def)

lemma modulus_Suc: "modulus (Suc n) = 2 ^ 32 * modulus n"
  unfolding modulus_def mult_Suc_right power_add by (rule refl)

lemma modulus_pos [simp]: "0 < modulus n"
  by (simp add: modulus_def)

lemma limbs_val_modulus: "limbs_val (ws :: u256) < modulus (length ws)"
  using limbs_val_bound [of ws] by (simp add: modulus_def)

lemma limbs_val_Cons32: "limbs_val ((w :: u32) # ws) = unat w + 2 ^ 32 * limbs_val ws"
  by simp

lemma length_bu_add_loop [simp]:
  "length (bu_add_loop c xs ys) = min (length xs) (length ys)"
  by (induction c xs ys rule: bu_add_loop.induct) (auto simp: Let_def)

lemma bu_add_loop_val:
  "length xs = length ys \<Longrightarrow> unat c \<le> 1 \<Longrightarrow>
     limbs_val (bu_add_loop c xs ys) = (unat c + limbs_val xs + limbs_val ys) mod modulus (length xs)"
proof (induction c xs ys rule: bu_add_loop.induct)
  case (1 c x xs y ys)
  define n where "n = c + ucast x + ucast y"
  have x: "unat x < 2 ^ 32" and y: "unat y < 2 ^ 32" using unat_bound [of x] unat_bound [of y] by auto
  have n: "unat n = unat c + unat x + unat y"
    using x y 1(3) by (simp add: n_def unat_word_ariths)
  have "unat (drop_bit 32 n) \<le> 1" using x y 1(3) by (simp add: high_limb n)
  then have IH: "limbs_val (bu_add_loop (drop_bit 32 n) xs ys) =
      (unat (drop_bit 32 n) + (limbs_val xs + limbs_val ys)) mod modulus (length xs)"
    using "1.IH" [OF n_def] "1.prems" by (simp add: add.assoc)
  have "limbs_val (bu_add_loop c (x # xs) (y # ys)) =
      unat (ucast (n AND 0xffffffff) :: u32) + 2 ^ 32 * limbs_val (bu_add_loop (drop_bit 32 n) xs ys)"
    by (simp add: n_def [symmetric] Let_def)
  also have "\<dots> = (unat c + unat x + unat y + 2 ^ 32 * (limbs_val xs + limbs_val ys)) mod
      (2 ^ 32 * modulus (length xs))"
    by (simp only: IH carry_step [OF n])
  also have "unat c + unat x + unat y + 2 ^ 32 * (limbs_val xs + limbs_val ys) =
      unat c + limbs_val (x # xs) + limbs_val (y # ys)"
    by (simp only: limbs_val_Cons32 distrib_left)
  finally show ?case by (simp only: list.size(4) modulus_Suc add_Suc_right add_0_right)
qed auto

lemma unat_minus_1: "unat (- 1 :: u32) = 2 ^ 32 - 1"
  by (simp add: unsigned_minus_1_eq_mask mask_eq_exp_minus_1)

lemma unat_inc:
  "unat ((w :: u32) + 1) = (if w + 1 = 0 then 0 else unat w + 1)"
proof -
  have e: "unat (w + 1) = (unat w + 1) mod 2 ^ 32" by (simp add: unat_word_ariths)
  show ?thesis
  proof (cases "w + 1 = 0")
    case False
    then have "unat (w + 1) \<noteq> 0" by (simp add: unat_eq_zero)
    with e have "unat w + 1 \<noteq> 2 ^ 32" by auto
    with unat_bound [of w] have "unat w + 1 < 2 ^ 32" by simp
    with e False show ?thesis by simp
  qed simp
qed

lemma length_bu_inc [simp]: "length (bu_inc ws) = length ws"
  by (induction ws) auto

lemma bu_inc_val: "limbs_val (bu_inc ws) = (limbs_val ws + 1) mod modulus (length ws)"
proof (induction ws)
  case Nil
  then show ?case by simp
next
  case (Cons w ws)
  have m: "modulus (length (w # ws)) = 2 ^ 32 * modulus (length ws)"
    by (simp only: list.size(4) modulus_Suc add_Suc_right add_0_right)
  show ?case
  proof (cases "w + 1 = 0")
    case True
    then have "w = - 1" by (simp add: eq_neg_iff_add_eq_0)
    then have w: "unat w = 2 ^ 32 - 1" by (simp add: unat_minus_1)
    have "limbs_val (bu_inc (w # ws)) = 2 ^ 32 * ((limbs_val ws + 1) mod modulus (length ws))"
      using True Cons.IH by simp
    also have "\<dots> = (2 ^ 32 * (limbs_val ws + 1)) mod (2 ^ 32 * modulus (length ws))"
      by (rule mult_mod_right)
    also have "2 ^ 32 * (limbs_val ws + 1) = limbs_val (w # ws) + 1" using w by simp
    finally show ?thesis by (simp only: m)
  next
    case False
    then have "limbs_val (bu_inc (w # ws)) = limbs_val (w # ws) + 1" by (simp add: unat_inc)
    moreover have "limbs_val (bu_inc (w # ws)) < modulus (length (w # ws))"
      using limbs_val_modulus [of "bu_inc (w # ws)"] by (simp only: length_bu_inc)
    ultimately show ?thesis by simp
  qed
qed

lemma unat_NOT: "unat (NOT w :: u32) = 2 ^ 32 - 1 - unat w"
proof -
  have "NOT w = (- 1) - w" by (simp add: not_eq_complement)
  moreover have "unat w \<le> unat (- 1 :: u32)"
    using unat_bound [of w] by (simp add: unat_minus_1)
  ultimately show ?thesis by (simp add: unat_sub_if' unat_minus_1)
qed

lemma limbs_val_NOT:
  "limbs_val (map NOT ws :: u256) + limbs_val ws + 1 = modulus (length ws)"
proof (induction ws)
  case Nil
  then show ?case by simp
next
  case (Cons w ws)
  have "modulus (length (w # ws)) = 2 ^ 32 * modulus (length ws)"
    by (simp only: list.size(4) modulus_Suc add_Suc_right add_0_right)
  moreover have "unat (NOT w) + unat w = 2 ^ 32 - 1" using unat_bound [of w] by (simp add: unat_NOT)
  ultimately show ?case using Cons.IH by (simp add: distrib_left flip: Cons.IH)
qed

lemma length_bu_neg [simp]: "length (bu_neg a) = length a"
  by (simp add: bu_neg_def)

lemma bu_neg_val: "limbs_val (bu_neg a) = (modulus (length a) - limbs_val a) mod modulus (length a)"
proof -
  have "limbs_val (map NOT a) + 1 = modulus (length a) - limbs_val a"
    using limbs_val_NOT [of a] by linarith
  then show ?thesis by (simp only: bu_neg_def bu_inc_val length_map)
qed

lemma length_bu_add [simp]: "length a = length b \<Longrightarrow> length (bu_add a b) = length b"
  by (simp add: bu_add_def)

lemma bu_add_val:
  "length a = length b \<Longrightarrow>
     limbs_val (bu_add a b) = (limbs_val a + limbs_val b) mod modulus (length b)"
  by (simp add: bu_add_def bu_add_loop_val)

lemma length_bu_sub [simp]: "length a = length b \<Longrightarrow> length (bu_sub a b) = length b"
  by (simp add: bu_sub_def)

lemma bu_sub_val:
  assumes "length a = length b"
  shows "limbs_val (bu_sub a b) =
    (limbs_val a + (modulus (length b) - limbs_val b)) mod modulus (length b)"
  by (simp add: bu_sub_def bu_add_val assms bu_neg_val mod_add_right_eq)

lemma bu_sub_val_le:
  assumes len: "length a = length b" and le: "limbs_val b \<le> limbs_val a"
  shows "limbs_val (bu_sub a b) = limbs_val a - limbs_val b"
proof -
  let ?M = "modulus (length b)"
  have a: "limbs_val a < ?M" using limbs_val_modulus [of a] len by simp
  have b: "limbs_val b < ?M" by (rule limbs_val_modulus)
  have "limbs_val a + (?M - limbs_val b) = (limbs_val a - limbs_val b) + ?M"
    using le b by linarith
  then have "limbs_val (bu_sub a b) = ((limbs_val a - limbs_val b) + ?M) mod ?M"
    by (simp only: bu_sub_val [OF len])
  also have "\<dots> = limbs_val a - limbs_val b" using a by simp
  finally show ?thesis .
qed


section \<open>Multiplication\<close>

lemma mul_no_overflow:
  fixes x y :: u32
  assumes c: "unat (c :: u64) < 2 ^ 32" and a: "unat (a :: u64) < 2 ^ 32"
  shows "unat (c + a + ucast x * ucast y) = unat c + unat a + unat x * unat y"
    and "(unat c + unat a + unat x * unat y) div 2 ^ 32 < 2 ^ 32"
proof -
  have "unat x \<le> 2 ^ 32 - 1" "unat y \<le> 2 ^ 32 - 1"
    using unat_bound [of x] unat_bound [of y] by simp_all
  then have "unat x * unat y \<le> (2 ^ 32 - 1) * (2 ^ 32 - 1)" by (rule mult_le_mono)
  with c a have b: "unat c + unat a + unat x * unat y < 2 ^ 64" by simp
  then show "unat (c + a + ucast x * ucast y) = unat c + unat a + unat x * unat y"
    by (simp add: unat_word_ariths mod_add_left_eq)
  show "(unat c + unat a + unat x * unat y) div 2 ^ 32 < 2 ^ 32"
    using b by (intro less_mult_imp_div_less) simp
qed

lemma length_bu_mul_row [simp]: "length (bu_mul_row c x as bs) = min (length as) (length bs)"
  by (induction c x as bs rule: bu_mul_row.induct) (auto simp: Let_def)

lemma bu_mul_row_val:
  "length as \<le> length bs \<Longrightarrow> unat c < 2 ^ 32 \<Longrightarrow>
     limbs_val (bu_mul_row c x as bs) =
       (unat c + limbs_val as + unat x * limbs_val bs) mod modulus (length as)"
proof (induction c x as bs rule: bu_mul_row.induct)
  case (1 c x a as b bs)
  define n where "n = c + ucast a + ucast x * ucast b"
  have a: "unat (ucast a :: u64) < 2 ^ 32" using unat_bound [of a] by simp
  have n: "unat n = unat c + unat a + unat x * unat b"
    unfolding n_def using mul_no_overflow(1) [OF "1.prems"(2) a] by simp
  have "unat (drop_bit 32 n) < 2 ^ 32"
    using mul_no_overflow(2) [OF "1.prems"(2) a, of x b] by (simp add: high_limb n)
  then have IH: "limbs_val (bu_mul_row (drop_bit 32 n) x as bs) =
      (unat (drop_bit 32 n) + (limbs_val as + unat x * limbs_val bs)) mod modulus (length as)"
    using "1.IH" [OF n_def] "1.prems" by (simp add: add.assoc)
  have "limbs_val (bu_mul_row c x (a # as) (b # bs)) =
      unat (ucast (n AND 0xffffffff) :: u32) + 2 ^ 32 * limbs_val (bu_mul_row (drop_bit 32 n) x as bs)"
    by (simp add: n_def [symmetric] Let_def)
  also have "\<dots> = (unat c + unat a + unat x * unat b + 2 ^ 32 * (limbs_val as + unat x * limbs_val bs))
      mod (2 ^ 32 * modulus (length as))"
    by (simp only: IH carry_step [OF n])
  also have "unat c + unat a + unat x * unat b + 2 ^ 32 * (limbs_val as + unat x * limbs_val bs) =
      unat c + limbs_val (a # as) + unat x * limbs_val (b # bs)"
    by (simp only: limbs_val_Cons32 distrib_left mult.left_commute)
  finally show ?case by (simp only: list.size(4) modulus_Suc add_Suc_right add_0_right)
qed auto

lemma mod_split:
  "(lo :: nat) < B \<Longrightarrow> lo + B * (q mod m) = (lo + B * q) mod (B * m)"
  by (simp add: mod_mult2_eq)

lemma modulus_add: "modulus (i + j) = modulus i * modulus j"
  by (simp add: modulus_def distrib_left power_add)

lemma limbs_val_append32:
  "limbs_val (xs @ (ys :: u256)) = limbs_val xs + modulus (length xs) * limbs_val ys"
  using limbs_val_append [of xs ys] by (simp add: modulus_def)

lemma bu_mul_step_val:
  assumes len: "length acc = n" "length b = n" and j: "j \<le> n"
  shows "limbs_val (take j acc @ bu_mul_row 0 x (drop j acc) b) =
    (limbs_val acc + modulus j * unat x * limbs_val b) mod modulus n"
proof -
  have "limbs_val (take j acc) < modulus j"
    using limbs_val_modulus [of "take j acc"] len j by simp
  moreover have "limbs_val (bu_mul_row 0 x (drop j acc) b) =
      (limbs_val (drop j acc) + unat x * limbs_val b) mod modulus (n - j)"
    using len by (simp add: bu_mul_row_val)
  ultimately have "limbs_val (take j acc @ bu_mul_row 0 x (drop j acc) b) =
      (limbs_val (take j acc) + modulus j * (limbs_val (drop j acc) + unat x * limbs_val b))
      mod (modulus j * modulus (n - j))"
    using len j by (simp add: limbs_val_append32 mod_split)
  also have "limbs_val (take j acc) + modulus j * (limbs_val (drop j acc) + unat x * limbs_val b) =
      limbs_val acc + modulus j * unat x * limbs_val b"
    using limbs_val_append32 [of "take j acc" "drop j acc"] len j
    by (simp add: distrib_left)
  also have "modulus j * modulus (n - j) = modulus n"
    using j by (simp flip: modulus_add)
  finally show ?thesis .
qed

lemma bu_mul_loop_val:
  assumes "wf_u256 pn" "wf_u256 b" "j \<le> WIDTH"
  shows "let r = fold (\<lambda>j a. take j a @ bu_mul_row 0 (pn ! j) (drop j a) b) [0..<j] bu_zero
    in length r = WIDTH \<and> limbs_val r = limbs_val (take j pn) * limbs_val b mod modulus WIDTH"
  using assms(3)
proof (induction j)
  case 0
  then show ?case by (simp add: bu_zero_def)
next
  case (Suc j)
  define r where "r = fold (\<lambda>j a. take j a @ bu_mul_row 0 (pn ! j) (drop j a) b) [0..<j] bu_zero"
  have r: "length r = WIDTH" "limbs_val r = limbs_val (take j pn) * limbs_val b mod modulus WIDTH"
    using Suc by (simp_all add: r_def Let_def)
  have "limbs_val (take (Suc j) pn) = limbs_val (take j pn) + modulus j * unat (pn ! j)"
    using Suc.prems assms(1)
    by (simp add: take_Suc_conv_app_nth wf_u256_def limbs_val_append32)
  moreover have "limbs_val (take j r @ bu_mul_row 0 (pn ! j) (drop j r) b) =
      (limbs_val r + modulus j * unat (pn ! j) * limbs_val b) mod modulus WIDTH"
    using bu_mul_step_val [of r WIDTH b j] r(1) assms(2) Suc.prems by (simp add: wf_u256_def)
  ultimately have "limbs_val (take j r @ bu_mul_row 0 (pn ! j) (drop j r) b) =
      limbs_val (take (Suc j) pn) * limbs_val b mod modulus WIDTH"
    by (simp add: r(2) mod_add_left_eq distrib_right)
  then show ?case
    using r(1) assms(2) Suc.prems by (simp add: r_def [symmetric] Let_def wf_u256_def)
qed

lemma wf_bu_mul: "wf_u256 a \<Longrightarrow> wf_u256 b \<Longrightarrow> wf_u256 (bu_mul a b)"
  using bu_mul_loop_val [of a b WIDTH] by (simp add: bu_mul_def wf_u256_def Let_def)

lemma bu_mul_val:
  "wf_u256 a \<Longrightarrow> wf_u256 b \<Longrightarrow> limbs_val (bu_mul a b) = limbs_val a * limbs_val b mod modulus WIDTH"
  using bu_mul_loop_val [of a b WIDTH] by (simp add: bu_mul_def wf_u256_def Let_def)

lemma length_bu_mul32_loop [simp]: "length (bu_mul32_loop c b xs) = length xs"
  by (induction xs arbitrary: c) (auto simp: Let_def)

lemma bu_mul32_loop_row: "bu_mul32_loop c b xs = bu_mul_row c b (replicate (length xs) 0) xs"
  by (induction xs arbitrary: c) (simp_all add: Let_def)

lemma bu_mul32_val: "limbs_val (bu_mul32 a b) = limbs_val a * unat b mod modulus (length a)"
  by (simp add: bu_mul32_def bu_mul32_loop_row bu_mul_row_val mult.commute)

lemma length_bu_mul32 [simp]: "length (bu_mul32 a b) = length a"
  by (simp add: bu_mul32_def)


section \<open>Shifts\<close>

lemma length_bu_shl_step [simp]: "length (bu_shl_step a k s i pn) = length pn"
  by (simp add: bu_shl_step_def Let_def)

lemma bu_shl_step_nth:
  "length pn = WIDTH \<Longrightarrow> p < WIDTH \<Longrightarrow> bu_shl_step a k s i pn ! p =
     pn ! p OR (if p = i + k then push_bit s (a ! i) else 0)
            OR (if p = i + k + 1 \<and> s \<noteq> 0 then drop_bit (32 - s) (a ! i) else 0)"
  by (simp add: bu_shl_step_def Let_def nth_list_update)

lemma bu_shl_loop_nth:
  assumes "p < WIDTH"
  shows "length (fold (bu_shl_step a k s) [0..<m] bu_zero) = WIDTH"
    and "fold (bu_shl_step a k s) [0..<m] bu_zero ! p =
      (if k \<le> p \<and> p - k < m then push_bit s (a ! (p - k)) else 0) OR
      (if k < p \<and> p - k - 1 < m \<and> s \<noteq> 0 then drop_bit (32 - s) (a ! (p - k - 1)) else 0)"
proof (induction m)
  case 0
  show "length (fold (bu_shl_step a k s) [0..<0] bu_zero) = WIDTH"
    by (simp add: bu_zero_def)
  show "fold (bu_shl_step a k s) [0..<0] bu_zero ! p =
      (if k \<le> p \<and> p - k < 0 then push_bit s (a ! (p - k)) else 0) OR
      (if k < p \<and> p - k - 1 < 0 \<and> s \<noteq> 0 then drop_bit (32 - s) (a ! (p - k - 1)) else 0)"
    using assms by (simp add: bu_zero_def)
next
  case (Suc m)
  then show "length (fold (bu_shl_step a k s) [0..<Suc m] bu_zero) = WIDTH" by simp
  consider "p = m + k" | "p = m + k + 1" | "p < m + k" | "p > m + k + 1" by linarith
  then show "fold (bu_shl_step a k s) [0..<Suc m] bu_zero ! p =
      (if k \<le> p \<and> p - k < Suc m then push_bit s (a ! (p - k)) else 0) OR
      (if k < p \<and> p - k - 1 < Suc m \<and> s \<noteq> 0 then drop_bit (32 - s) (a ! (p - k - 1)) else 0)"
    using Suc assms by cases (auto simp: bu_shl_step_nth or.commute)
qed

lemma length_bu_shl [simp]: "length (bu_shl a n) = WIDTH"
  using bu_shl_loop_nth(1) [of 0 a "n div 32" "n mod 32" WIDTH] by (simp add: bu_shl_def)

lemma bu_shl_nth:
  "p < WIDTH \<Longrightarrow> bu_shl a n ! p =
     (if n div 32 \<le> p then push_bit (n mod 32) (a ! (p - n div 32)) else 0) OR
     (if n div 32 < p \<and> n mod 32 \<noteq> 0 then drop_bit (32 - n mod 32) (a ! (p - n div 32 - 1)) else 0)"
  using bu_shl_loop_nth(2) [of p a "n div 32" "n mod 32" WIDTH]
  by (simp add: bu_shl_def less_imp_diff_less)

lemma length_bu_shr_step [simp]: "length (bu_shr_step a k s i pn) = length pn"
  by (simp add: bu_shr_step_def Let_def)

lemma bu_shr_step_nth:
  "length pn = WIDTH \<Longrightarrow> p < WIDTH \<Longrightarrow> bu_shr_step a k s i pn ! p =
     pn ! p OR (if i = p + k then drop_bit s (a ! i) else 0)
            OR (if i = p + k + 1 \<and> s \<noteq> 0 then push_bit (32 - s) (a ! i) else 0)"
  by (auto simp: bu_shr_step_def Let_def nth_list_update)

lemma bu_shr_loop_nth:
  assumes "p < WIDTH"
  shows "length (fold (bu_shr_step a k s) [0..<m] bu_zero) = WIDTH"
    and "fold (bu_shr_step a k s) [0..<m] bu_zero ! p =
      (if p + k < m then drop_bit s (a ! (p + k)) else 0) OR
      (if p + k + 1 < m \<and> s \<noteq> 0 then push_bit (32 - s) (a ! (p + k + 1)) else 0)"
proof (induction m)
  case 0
  show "length (fold (bu_shr_step a k s) [0..<0] bu_zero) = WIDTH"
    by (simp add: bu_zero_def)
  show "fold (bu_shr_step a k s) [0..<0] bu_zero ! p =
      (if p + k < 0 then drop_bit s (a ! (p + k)) else 0) OR
      (if p + k + 1 < 0 \<and> s \<noteq> 0 then push_bit (32 - s) (a ! (p + k + 1)) else 0)"
    using assms by (simp add: bu_zero_def)
next
  case (Suc m)
  then show "length (fold (bu_shr_step a k s) [0..<Suc m] bu_zero) = WIDTH" by simp
  consider "m = p + k" | "m = p + k + 1" | "m < p + k" | "m > p + k + 1" by linarith
  then show "fold (bu_shr_step a k s) [0..<Suc m] bu_zero ! p =
      (if p + k < Suc m then drop_bit s (a ! (p + k)) else 0) OR
      (if p + k + 1 < Suc m \<and> s \<noteq> 0 then push_bit (32 - s) (a ! (p + k + 1)) else 0)"
    using Suc assms by cases (auto simp: bu_shr_step_nth)
qed

lemma length_bu_shr [simp]: "length (bu_shr a n) = WIDTH"
  using bu_shr_loop_nth(1) [of 0 a "n div 32" "n mod 32" WIDTH] by (simp add: bu_shr_def)

lemma bu_shr_nth:
  "p < WIDTH \<Longrightarrow> bu_shr a n ! p =
     (if p + n div 32 < WIDTH then drop_bit (n mod 32) (a ! (p + n div 32)) else 0) OR
     (if p + n div 32 + 1 < WIDTH \<and> n mod 32 \<noteq> 0
      then push_bit (32 - n mod 32) (a ! (p + n div 32 + 1)) else 0)"
  using bu_shr_loop_nth(2) [of p a "n div 32" "n mod 32" WIDTH]
  by (simp add: bu_shr_def)

lemma bit_u32_high [simp]: "32 \<le> n \<Longrightarrow> \<not> bit (w :: u32) n"
  using bit_imp_le_length [of w n] by auto

lemma div_mod_32:
  "q < 32 \<Longrightarrow> (32 * p + q) div 32 = (p :: nat)" "q < 32 \<Longrightarrow> (32 * p + q) mod 32 = (q :: nat)"
  by simp_all

lemma bit_u256:
  assumes "length a = WIDTH" "q < 32"
  shows "bit (limbs_val (a :: u256)) (32 * p + q) \<longleftrightarrow> p < WIDTH \<and> bit (a ! p) q"
proof -
  have "32 * p + q < 256 \<longleftrightarrow> p < WIDTH" using assms(2) by auto
  then show ?thesis
    using bit_limbs_val [of a "32 * p + q"] assms by (simp add: div_mod_32)
qed

lemma bit_index_split:
  obtains p q :: nat where "j = 32 * p + q" "q < 32"
proof
  show "j = 32 * (j div 32) + j mod 32" by simp
  show "j mod 32 < 32" by simp
qed

lemma bu_shl_bit:
  assumes a: "wf_u256 a" and q: "q < 32" and s: "s < 32" and p: "p < WIDTH"
  shows "bit (bu_shl a (32 * k + s) ! p) q \<longleftrightarrow>
    32 * k + s \<le> 32 * p + q \<and> bit (limbs_val a) (32 * p + q - (32 * k + s))"
proof -
  have nth: "bu_shl a (32 * k + s) ! p =
     (if k \<le> p then push_bit s (a ! (p - k)) else 0) OR
     (if k < p \<and> s \<noteq> 0 then drop_bit (32 - s) (a ! (p - k - 1)) else 0)"
    using bu_shl_nth [OF p, of a "32 * k + s"] s by (simp add: div_mod_32)
  consider "p < k" | "k \<le> p" "s \<le> q" | "k = p" "q < s" | "k < p" "q < s" by linarith
  then show ?thesis
  proof cases
    case 1
    then show ?thesis using q s by (simp add: nth)
  next
    case 2
    then have e: "32 * p + q - (32 * k + s) = 32 * (p - k) + (q - s)" by (simp add: diff_mult_distrib2)
    have b: "bit (limbs_val a) (32 * (p - k) + (q - s)) = bit (a ! (p - k)) (q - s)"
      using bit_u256 [of a "q - s" "p - k"] a p q 2 by (simp add: wf_u256_def less_imp_diff_less)
    show ?thesis unfolding e b using 2 q
      by (simp add: nth bit_or_iff bit_push_bit_iff bit_drop_bit_eq)
  next
    case 3
    then show ?thesis using q unfolding nth by (simp add: bit_push_bit_iff)
  next
    case 4
    then have e: "32 * p + q - (32 * k + s) = 32 * (p - k - 1) + (32 + q - s)" using s by linarith
    have b: "bit (limbs_val a) (32 * (p - k - 1) + (32 + q - s)) = bit (a ! (p - k - 1)) (32 + q - s)"
      using bit_u256 [of a "32 + q - s" "p - k - 1"] a p q s 4
      by (simp add: wf_u256_def less_imp_diff_less)
    show ?thesis unfolding e b using 4 q s
      by (simp add: nth bit_or_iff bit_push_bit_iff bit_drop_bit_eq)
  qed
qed

lemma bu_shl_val:
  assumes "wf_u256 a"
  shows "limbs_val (bu_shl a n) = limbs_val a * 2 ^ n mod modulus WIDTH"
proof -
  have "limbs_val (bu_shl a n) = take_bit 256 (push_bit n (limbs_val a))"
  proof (rule bit_eqI)
    fix j :: nat
    obtain p q where j: "j = 32 * p + (q :: nat)" "q < 32" by (rule bit_index_split [of j])
    obtain k s where n: "n = 32 * k + (s :: nat)" "s < 32" by (rule bit_index_split [of n])
    have p: "p < WIDTH \<longleftrightarrow> j < 256" using j by auto
    have "bit (limbs_val (bu_shl a n)) j \<longleftrightarrow> j < 256 \<and> bit (bu_shl a n ! p) q"
      using bit_u256 [of "bu_shl a n" q p] j p by simp
    also have "\<dots> \<longleftrightarrow> j < 256 \<and> n \<le> j \<and> bit (limbs_val a) (j - n)"
      using bu_shl_bit [OF assms j(2) n(2), of p k] j n p by auto
    finally show "bit (limbs_val (bu_shl a n)) j \<longleftrightarrow> bit (take_bit 256 (push_bit n (limbs_val a))) j"
      by (auto simp: bit_take_bit_iff bit_push_bit_iff)
  qed
  then show ?thesis by (simp add: take_bit_eq_mod push_bit_eq_mult modulus_def)
qed

lemma bu_shr_bit:
  assumes a: "wf_u256 a" and q: "q < 32" and s: "s < 32" and p: "p < WIDTH"
  shows "bit (bu_shr a (32 * k + s) ! p) q \<longleftrightarrow> bit (limbs_val a) (32 * p + q + (32 * k + s))"
proof -
  have nth: "bu_shr a (32 * k + s) ! p =
     (if p + k < WIDTH then drop_bit s (a ! (p + k)) else 0) OR
     (if p + k + 1 < WIDTH \<and> s \<noteq> 0 then push_bit (32 - s) (a ! (p + k + 1)) else 0)"
    using bu_shr_nth [OF p, of a "32 * k + s"] s by (simp add: div_mod_32)
  show ?thesis
  proof (cases "q + s < 32")
    case True
    have e: "32 * p + q + (32 * k + s) = 32 * (p + k) + (q + s)" by simp
    have b: "bit (limbs_val a) (32 * (p + k) + (q + s)) \<longleftrightarrow> p + k < WIDTH \<and> bit (a ! (p + k)) (q + s)"
      using a True by (intro bit_u256) (simp_all add: wf_u256_def)
    have "\<not> 32 - s \<le> q" using True by simp
    then show ?thesis unfolding e b nth
      by (simp add: bit_or_iff bit_push_bit_iff bit_drop_bit_eq add.commute)
  next
    case False
    have e: "32 * p + q + (32 * k + s) = 32 * (p + k + 1) + (q + s - 32)" using False by simp
    have b: "bit (limbs_val a) (32 * (p + k + 1) + (q + s - 32)) \<longleftrightarrow>
        p + k + 1 < WIDTH \<and> bit (a ! (p + k + 1)) (q + s - 32)"
      using a False q s by (intro bit_u256) (simp_all add: wf_u256_def)
    have "q - (32 - s) = q + s - 32" "s \<noteq> 0" "32 - s \<le> q" using s q False by simp_all
    then show ?thesis unfolding e b using False q s
      by (simp add: nth bit_or_iff bit_push_bit_iff bit_drop_bit_eq)
  qed
qed

lemma bu_shr_val:
  assumes "wf_u256 a"
  shows "limbs_val (bu_shr a n) = limbs_val a div 2 ^ n"
proof -
  have "limbs_val (bu_shr a n) = drop_bit n (limbs_val a)"
  proof (rule bit_eqI)
    fix j :: nat
    obtain p q where j: "j = 32 * p + (q :: nat)" "q < 32" by (rule bit_index_split [of j])
    obtain k s where n: "n = 32 * k + (s :: nat)" "s < 32" by (rule bit_index_split [of n])
    have p: "p < WIDTH \<longleftrightarrow> j < 256" using j by auto
    have "bit (limbs_val (bu_shr a n)) j \<longleftrightarrow> j < 256 \<and> bit (bu_shr a n ! p) q"
      using bit_u256 [of "bu_shr a n" q p] j p by simp
    also have "\<dots> \<longleftrightarrow> j < 256 \<and> bit (limbs_val a) (j + n)"
      using bu_shr_bit [OF assms j(2) n(2), of p k] j n p by auto
    also have "\<dots> \<longleftrightarrow> bit (limbs_val a) (j + n)"
      using assms by (auto simp: bit_limbs_val wf_u256_def)
    finally show "bit (limbs_val (bu_shr a n)) j \<longleftrightarrow> bit (drop_bit n (limbs_val a)) j"
      by (simp add: bit_drop_bit_eq add.commute)
  qed
  then show ?thesis by (simp add: drop_bit_eq_div)
qed


section \<open>Comparison and bit length\<close>

lemma bu_compare_loop_val:
  "length xs = length ys \<Longrightarrow>
     bu_compare_loop xs ys = (if limbs_val (rev xs) < limbs_val (rev ys) then - 1
       else if limbs_val (rev xs) > limbs_val (rev ys) then 1 else 0)"
proof (induction xs ys rule: bu_compare_loop.induct)
  case (1 x xs y ys)
  let ?X = "limbs_val (rev xs)" and ?Y = "limbs_val (rev ys)" and ?M = "modulus (length xs)"
  have X: "?X < ?M" and Y: "?Y < ?M"
    using limbs_val_modulus [of "rev xs"] limbs_val_modulus [of "rev ys"] 1(2) by simp_all
  have v: "limbs_val (rev (x # xs)) = ?X + ?M * unat x" "limbs_val (rev (y # ys)) = ?Y + ?M * unat y"
    using 1(2) by (simp_all add: limbs_val_append32)
  consider "unat x < unat y" | "unat y < unat x" | "x = y"
    by (metis nat_neq_iff unsigned_word_eqI)
  then show ?case
  proof cases
    case 1
    then have "?M * (unat x + 1) \<le> ?M * unat y" by (intro mult_le_mono2) simp
    then have "?X + ?M * unat x < ?Y + ?M * unat y" using X by (simp add: distrib_left)
    then show ?thesis using 1 by (simp only: v) (simp add: word_less_nat_alt)
  next
    case 2
    then have "?M * (unat y + 1) \<le> ?M * unat x" by (intro mult_le_mono2) simp
    then have "?Y + ?M * unat y < ?X + ?M * unat x" using Y by (simp add: distrib_left)
    then show ?thesis using 2 by (simp only: v) (simp add: word_less_nat_alt)
  next
    case 3
    then show ?thesis unfolding v using "1.IH" "1.prems" by simp
  qed
qed auto

lemma CompareTo_val:
  "length a = length b \<Longrightarrow>
     CompareTo a b = (if limbs_val a < limbs_val b then - 1
       else if limbs_val a > limbs_val b then 1 else 0)"
  by (simp add: CompareTo_def bu_compare_loop_val)

lemma top_bit_Suc: "top_bit (Suc n) w = (if bit w (Suc n) then Suc n + 1 else top_bit n w)"
  unfolding bit_iff_and_push_bit_not_eq_0 by (rule top_bit.simps)

lemma top_bit_spec:
  fixes w :: u32
  shows "w \<noteq> 0 \<Longrightarrow> n < 32 \<Longrightarrow> unat w < 2 ^ (n + 1) \<Longrightarrow>
    2 ^ (top_bit n w - 1) \<le> unat w \<and> unat w < 2 ^ top_bit n w \<and> 0 < top_bit n w"
proof (induction n)
  case 0
  then have "unat w \<noteq> 0" by (simp add: unat_eq_zero)
  then show ?case using 0 by simp
next
  case (Suc n)
  have b: "top_bit (Suc n) w = (if bit (unat w) (Suc n) then Suc n + 1 else top_bit n w)"
    by (simp only: top_bit_Suc) (simp add: bit_unsigned_iff)
  show ?case
  proof (cases "bit (unat w) (Suc n)")
    case True
    then have "2 ^ Suc n \<le> unat w"
      by (metis bit_iff_odd div_less even_zero not_less)
    then show ?thesis unfolding b using True Suc.prems by simp
  next
    case False
    have "unat w < 2 ^ (n + 1)"
    proof (rule ccontr)
      assume "\<not> unat w < 2 ^ (n + 1)"
      then have "unat w div 2 ^ Suc n = 1"
        using Suc.prems by (intro div_nat_eqI) simp_all
      then show False using False by (simp add: bit_iff_odd)
    qed
    then show ?thesis unfolding b using False Suc by simp
  qed
qed

lemma bu_bits_loop_spec:
  "n \<le> length a \<Longrightarrow> bu_bits_loop n a \<le> 32 * n \<and>
     limbs_val (take n a) < 2 ^ bu_bits_loop n a \<and>
     (bu_bits_loop n a \<noteq> 0 \<longrightarrow> 2 ^ (bu_bits_loop n a - 1) \<le> limbs_val (take n a))"
proof (induction n)
  case 0
  then show ?case by simp
next
  case (Suc n)
  let ?w = "a ! n" and ?t = "top_bit 31 (a ! n)" and ?V = "limbs_val (take n a)"
  have v: "limbs_val (take (Suc n) a) = ?V + modulus n * unat ?w"
    using Suc.prems by (simp add: take_Suc_conv_app_nth limbs_val_append32)
  have V: "?V < modulus n" using limbs_val_modulus [of "take n a"] Suc.prems by simp
  show ?case
  proof (cases "?w = 0")
    case True
    then show ?thesis unfolding v using Suc by auto
  next
    case False
    have t: "2 ^ (?t - 1) \<le> unat ?w" "unat ?w < 2 ^ ?t" "0 < ?t"
      using top_bit_spec [OF False, of 31] unat_bound [of ?w] by simp_all
    have e: "bu_bits_loop (Suc n) a = 32 * n + ?t" using False by simp
    have "?t \<le> 32"
    proof (rule ccontr)
      assume "\<not> ?t \<le> 32"
      then have "(2::nat) ^ 32 \<le> 2 ^ (?t - 1)" by (intro power_increasing) simp_all
      with t(1) unat_bound [of ?w] show False by simp
    qed
    have "modulus n * (unat ?w + 1) \<le> modulus n * 2 ^ ?t" using t(2) by (intro mult_le_mono2) simp
    then have "?V + modulus n * unat ?w < modulus n * 2 ^ ?t" using V by (simp add: distrib_left)
    then have u: "?V + modulus n * unat ?w < 2 ^ (32 * n + ?t)" by (simp add: modulus_def power_add)
    have "modulus n * 2 ^ (?t - 1) \<le> modulus n * unat ?w" using t(1) by (rule mult_le_mono2)
    then have "2 ^ (32 * n + (?t - 1)) \<le> ?V + modulus n * unat ?w"
      by (simp only: modulus_def power_add)
    moreover have "32 * n + ?t - 1 = 32 * n + (?t - 1)" using t(3) by simp
    ultimately show ?thesis unfolding v e using u \<open>?t \<le> 32\<close> by simp
  qed
qed

lemma bu_bits_le: "wf_u256 a \<Longrightarrow> bu_bits a \<le> 256"
  and bu_bits_upper: "wf_u256 a \<Longrightarrow> limbs_val a < 2 ^ bu_bits a"
  and bu_bits_lower: "wf_u256 a \<Longrightarrow> bu_bits a \<noteq> 0 \<Longrightarrow> 2 ^ (bu_bits a - 1) \<le> limbs_val a"
  using bu_bits_loop_spec [of WIDTH a] by (simp_all add: bu_bits_def wf_u256_def)

lemma bu_bits_eq_0_iff: "wf_u256 a \<Longrightarrow> bu_bits a = 0 \<longleftrightarrow> limbs_val a = 0"
proof (cases "bu_bits a = 0")
  case True
  assume "wf_u256 a"
  then show ?thesis using True bu_bits_upper [of a] by simp
next
  case False
  assume "wf_u256 a"
  have "(0::nat) < 2 ^ (bu_bits a - 1)" by simp
  also have "\<dots> \<le> limbs_val a" using \<open>wf_u256 a\<close> False by (rule bu_bits_lower)
  finally show ?thesis using False by simp
qed


section \<open>Division\<close>

lemma set_bit_limb_val:
  assumes len: "length (pn :: u256) = WIDTH" and s: "s < 256" and nb: "\<not> bit (limbs_val pn) s"
  shows "limbs_val (pn[s div 32 := pn ! (s div 32) OR push_bit (s mod 32) 1]) = limbs_val pn + 2 ^ s"
proof -
  let ?r = "pn[s div 32 := pn ! (s div 32) OR push_bit (s mod 32) 1]"
  have "limbs_val ?r = limbs_val pn OR push_bit s 1"
  proof (rule bit_eqI)
    fix j :: nat
    obtain p q where j: "j = 32 * p + (q :: nat)" "q < 32" by (rule bit_index_split [of j])
    obtain k t where st: "s = 32 * k + (t :: nat)" "t < 32" by (rule bit_index_split [of s])
    have k: "s div 32 = k" "s mod 32 = t" using st by (simp_all add: div_mod_32)
    have kW: "k < WIDTH" using s st by simp
    have js: "j = s \<longleftrightarrow> p = k \<and> q = t" using j st by (metis div_mod_32)
    have "bit (limbs_val ?r) j \<longleftrightarrow> p < WIDTH \<and> bit (?r ! p) q"
      unfolding j(1) using len j(2) by (intro bit_u256) simp_all
    also have "\<dots> \<longleftrightarrow> p < WIDTH \<and> (bit (pn ! p) q \<or> p = k \<and> q = t)"
      using len kW j(2) st(2)
      by (auto simp: k nth_list_update bit_or_iff bit_exp_iff)
    also have "\<dots> \<longleftrightarrow> bit (limbs_val pn) j \<or> j = s"
      using bit_u256 [OF len j(2), of p] kW unfolding j(1) [symmetric] js by auto
    finally show "bit (limbs_val ?r) j \<longleftrightarrow> bit (limbs_val pn OR push_bit s 1) j"
      by (auto simp: bit_or_iff bit_exp_iff)
  qed
  also have "\<dots> = limbs_val pn + push_bit s 1"
    using nb by (intro disjunctive_add_eq_or [symmetric] bit_eqI) (auto simp: bit_and_iff bit_exp_iff)
  finally show ?thesis by (simp add: push_bit_eq_mult)
qed

lemma not_bit_if_dvd: "2 ^ Suc s dvd (n :: nat) \<Longrightarrow> \<not> bit n s"
  by (auto simp: bit_iff_odd elim!: dvdE)

lemma bu_div_loop_spec:
  assumes "length num = WIDTH" "length dv = WIDTH" "length pn = WIDTH" "s < 256" "0 < B"
    and "limbs_val dv = B * 2 ^ s" "limbs_val num < B * 2 ^ Suc s" "2 ^ Suc s dvd limbs_val pn"
  shows "length (snd (bu_div_loop s num dv pn)) = WIDTH \<and>
    limbs_val (snd (bu_div_loop s num dv pn)) = limbs_val pn + limbs_val num div B \<and>
    limbs_val (fst (bu_div_loop s num dv pn)) = limbs_val num mod B"
  using assms
proof (induction s arbitrary: num dv pn)
  case 0
  have nb: "\<not> bit (limbs_val pn) 0" using "0.prems"(8) by (intro not_bit_if_dvd) simp
  show ?case
  proof (cases "B \<le> limbs_val num")
    case True
    then have "CompareTo num dv \<ge> 0" using "0.prems" by (simp add: CompareTo_val)
    moreover have "limbs_val (pn[0 := pn ! 0 OR push_bit 0 1]) = limbs_val pn + 1"
      using set_bit_limb_val [of pn 0] "0.prems" nb by simp
    moreover have "limbs_val (bu_sub num dv) = limbs_val num - B"
      using bu_sub_val_le [of num dv] "0.prems" True by simp
    moreover have "limbs_val num div B = 1" "limbs_val num mod B = limbs_val num - B"
      using True "0.prems" by (simp_all add: div_nat_eqI le_mod_geq)
    ultimately show ?thesis using "0.prems" by simp
  next
    case False
    then have "\<not> CompareTo num dv \<ge> 0" using "0.prems" by (simp add: CompareTo_val)
    then show ?thesis using "0.prems" False by simp
  qed
next
  case (Suc s)
  define T where "T = Suc s"
  have T: "T = Suc s" "T < 256" using Suc.prems by (simp_all add: T_def)
  have dv: "limbs_val dv = B * 2 ^ T" and dvd: "2 ^ Suc T dvd limbs_val pn"
    using Suc.prems by (simp_all add: T_def)
  have shr: "limbs_val (bu_shr dv 1) = B * 2 ^ s"
    using Suc.prems by (simp add: bu_shr_val wf_u256_def)
  have dvd': "2 ^ T dvd limbs_val pn" by (rule dvd_trans [OF _ dvd]) simp
  show ?case
  proof (cases "B * 2 ^ T \<le> limbs_val num")
    case True
    let ?num = "bu_sub num dv" and ?pn = "pn[T div 32 := pn ! (T div 32) OR push_bit (T mod 32) 1]"
    have c: "CompareTo num dv \<ge> 0" using True Suc.prems dv by (simp add: CompareTo_val)
    have pn: "limbs_val ?pn = limbs_val pn + 2 ^ T"
      using set_bit_limb_val [OF Suc.prems(3) T(2) not_bit_if_dvd [OF dvd]] .
    have num: "limbs_val ?num = limbs_val num - B * 2 ^ T"
      using bu_sub_val_le [of num dv] Suc.prems True dv by simp
    have "limbs_val ?num < B * 2 ^ Suc s"
      using num Suc.prems(7) True by (simp add: T_def)
    then have IH: "length (snd (bu_div_loop s ?num (bu_shr dv 1) ?pn)) = WIDTH \<and>
        limbs_val (snd (bu_div_loop s ?num (bu_shr dv 1) ?pn)) = limbs_val ?pn + limbs_val ?num div B \<and>
        limbs_val (fst (bu_div_loop s ?num (bu_shr dv 1) ?pn)) = limbs_val ?num mod B"
      using Suc.prems shr dvd' pn by (intro Suc.IH) (simp_all add: T_def)
    obtain r where r: "limbs_val num = r + B * 2 ^ T" using True by (metis le_iff_add add.commute)
    have "limbs_val num div B = r div B + 2 ^ T" "limbs_val num mod B = r mod B"
      using Suc.prems(5) by (simp_all add: r)
    moreover have "bu_div_loop (Suc s) num dv pn = bu_div_loop s ?num (bu_shr dv 1) ?pn"
      using c by (simp add: T_def)
    ultimately show ?thesis using IH pn num r by simp
  next
    case False
    then have c: "\<not> CompareTo num dv \<ge> 0" using Suc.prems dv by (simp add: CompareTo_val)
    then have e: "bu_div_loop (Suc s) num dv pn = bu_div_loop s num (bu_shr dv 1) pn" by simp
    show ?thesis unfolding e
      using Suc.prems shr dvd' False by (intro Suc.IH) (simp_all add: T_def)
  qed
qed

lemma bu_div_zero: "wf_u256 b \<Longrightarrow> limbs_val b = 0 \<Longrightarrow> bu_div a b = Inl DivisionByZero"
  by (simp add: bu_div_def bu_bits_eq_0_iff)

lemma bu_div_val:
  assumes a: "wf_u256 a" and b: "wf_u256 b" and nz: "limbs_val b \<noteq> 0"
  shows "\<exists>q. bu_div a b = Inr q \<and> wf_u256 q \<and> limbs_val q = limbs_val a div limbs_val b"
proof -
  let ?nb = "bu_bits a" and ?db = "bu_bits b" and ?A = "limbs_val a" and ?B = "limbs_val b"
  have db: "?db \<noteq> 0" using b nz by (simp add: bu_bits_eq_0_iff)
  have B: "?B < 2 ^ ?db" "2 ^ (?db - 1) \<le> ?B" using bu_bits_upper [OF b] bu_bits_lower [OF b db] by simp_all
  have A: "?A < 2 ^ ?nb" by (rule bu_bits_upper [OF a])
  show ?thesis
  proof (cases "?nb < ?db")
    case True
    have "?A < 2 ^ ?nb" by (rule A)
    also have "\<dots> \<le> 2 ^ (?db - 1)" using True by (intro power_increasing) simp_all
    finally have "?A < ?B" using B by simp
    then show ?thesis using True db by (simp add: bu_div_def wf_u256_def bu_zero_def)
  next
    case False
    define s where "s = ?nb - ?db"
    have nb: "?nb = ?db + s" and s: "s < 256"
      using False db bu_bits_le [OF a] by (simp_all add: s_def)
    have "?B * 2 ^ s < 2 ^ ?db * 2 ^ s" using B by simp
    also have "\<dots> = (2::nat) ^ ?nb" by (simp add: nb power_add)
    also have "\<dots> \<le> 2 ^ 256" using bu_bits_le [OF a] by (intro power_increasing) simp_all
    finally have "?B * 2 ^ s < modulus WIDTH" by (simp add: modulus_def)
    then have dv: "limbs_val (bu_shl b s) = ?B * 2 ^ s" by (simp add: bu_shl_val b)
    have "?A < 2 ^ ?nb" by (rule A)
    also have "(2::nat) ^ ?nb = 2 ^ (?db - 1) * 2 ^ Suc s"
      using db by (cases ?db) (simp_all add: nb power_add)
    also have "\<dots> \<le> ?B * 2 ^ Suc s" using B(2) by (rule mult_le_mono1)
    finally have num: "?A < ?B * 2 ^ Suc s" .
    have "bu_div a b = Inr (snd (bu_div_loop s a (bu_shl b s) bu_zero))"
      using db False by (simp add: bu_div_def s_def Let_def)
    moreover have "length (snd (bu_div_loop s a (bu_shl b s) bu_zero)) = WIDTH \<and>
        limbs_val (snd (bu_div_loop s a (bu_shl b s) bu_zero)) = limbs_val bu_zero + ?A div ?B \<and>
        limbs_val (fst (bu_div_loop s a (bu_shl b s) bu_zero)) = ?A mod ?B"
      using a s nz dv num by (intro bu_div_loop_spec) (simp_all add: wf_u256_def bu_zero_def)
    ultimately show ?thesis by (simp add: wf_u256_def bu_zero_def)
  qed
qed


section \<open>Values of the constructors\<close>

lemma modulus_WIDTH: "modulus WIDTH = 2 ^ 256"
  by (simp add: modulus_def)

lemma u256_val_bound: "wf_u256 a \<Longrightarrow> limbs_val a < 2 ^ 256"
  using limbs_val_modulus [of a] by (simp add: modulus_def wf_u256_def)

lemma wf_bu_of_u64 [simp]: "wf_u256 (bu_of_u64 x)"
  by (simp add: wf_u256_def bu_of_u64_def)

lemma bu_of_u64_val [simp]: "limbs_val (bu_of_u64 x) = unat x"
proof -
  have "unat (ucast x :: u32) = unat x mod 2 ^ 32"
    by (simp add: unsigned_ucast_eq take_bit_eq_mod)
  moreover have "unat (ucast (drop_bit 32 x) :: u32) = unat x div 2 ^ 32"
    using unat_bound [of x]
    by (simp add: unsigned_ucast_eq high_limb take_bit_nat_eq_self_iff less_mult_imp_div_less)
  ultimately show ?thesis by (simp add: bu_of_u64_def)
qed

lemma wf_bu_shl [simp]: "wf_u256 (bu_shl a n)"
  by (simp add: wf_u256_def)

lemma wf_bu_shr [simp]: "wf_u256 (bu_shr a n)"
  by (simp add: wf_u256_def)

lemma GetLow64_val: "wf_u256 a \<Longrightarrow> unat (GetLow64 a) = limbs_val a mod 2 ^ 64"
proof -
  assume "wf_u256 a"
  then obtain w0 w1 ws where a: "a = w0 # w1 # ws"
    by (auto simp: wf_u256_def eval_nat_numeral length_Suc_conv)
  let ?h = "push_bit 32 (ucast w1 :: u64)"
  have "(ucast w0 :: u64) AND ?h = 0"
    by (rule bit_eqI) (auto simp: bit_and_iff bit_ucast_iff bit_push_bit_iff)
  then have "GetLow64 a = ucast w0 + ?h"
    by (simp add: a GetLow64_def disjunctive_add_eq_or)
  moreover have "unat ?h = 2 ^ 32 * unat w1"
    using unat_bound [of w1] by (simp add: push_bit_eq_mult unat_word_ariths)
  ultimately have "unat (GetLow64 a) = unat w0 + 2 ^ 32 * unat w1"
    using unat_bound [of w0] unat_bound [of w1] by (simp add: unat_word_ariths)
  moreover have "limbs_val a = (unat w0 + 2 ^ 32 * unat w1) + 2 ^ 64 * limbs_val ws" by (simp add: a)
  moreover have "unat w0 + 2 ^ 32 * unat w1 < 2 ^ 64"
    using unat_bound [of w0] unat_bound [of w1] by simp
  ultimately show ?thesis by simp
qed


lemma ucast_64_32: "ucast (ucast (w :: u32) :: u64) = w"
  by (simp add: bit_eq_iff bit_unsigned_iff)

lemma ucast_high_iff: "ucast (w :: u32) = (drop_bit 32 b :: u64) \<longleftrightarrow> w = ucast (drop_bit 32 b)"
proof
  assume "w = ucast (drop_bit 32 b)"
  then show "ucast w = drop_bit 32 b"
    using bit_imp_le_length [of w] bit_imp_le_length [of b]
    by (simp add: bit_eq_iff bit_unsigned_iff bit_drop_bit_eq) (metis add_less_cancel_left numeral_Bit0)
next
  assume "ucast w = (drop_bit 32 b :: u64)"
  then have "ucast (ucast w :: u64) = (ucast (drop_bit 32 b) :: u32)" by simp
  then show "w = ucast (drop_bit 32 b)" by (simp add: ucast_64_32)
qed

lemma ucast_low_iff: "ucast (w :: u32) = (b AND 0xffffffff :: u64) \<longleftrightarrow> w = ucast b"
proof -
  have m: "(0xffffffff :: u64) = mask 32" by (simp add: mask_eq_exp_minus_1)
  show ?thesis
  proof
    assume "w = ucast b"
    then show "ucast w = (b AND 0xffffffff)" unfolding m
      using bit_imp_le_length [of w]
      by (simp add: bit_eq_iff bit_unsigned_iff bit_and_iff bit_mask_iff) metis
  next
    assume "ucast w = (b AND 0xffffffff)"
    then have "ucast (ucast w :: u64) = (ucast (b AND mask 32) :: u32)" unfolding m by simp
    moreover have "(ucast (b AND mask 32) :: u32) = ucast b"
      by (simp add: bit_eq_iff bit_unsigned_iff bit_and_iff bit_mask_iff) 
    ultimately show "w = ucast b" by (simp add: ucast_64_32)
  qed
qed

lemma EqualTo_val:
  assumes "wf_u256 a"
  shows "EqualTo a b \<longleftrightarrow> limbs_val a = unat b"
proof -
  obtain w0 w1 w2 w3 w4 w5 w6 w7 where a: "a = [w0, w1, w2, w3, w4, w5, w6, w7]"
    using assms by (auto simp: wf_u256_def eval_nat_numeral length_Suc_conv)
  have r6: "replicate 6 (0 :: u32) = [0, 0, 0, 0, 0, 0]" by (simp add: eval_nat_numeral)
  have "EqualTo a b \<longleftrightarrow> a = bu_of_u64 b"
    by (auto simp: a EqualTo_def upt_rec bu_of_u64_def ucast_high_iff ucast_low_iff r6)
  also have "\<dots> \<longleftrightarrow> limbs_val a = limbs_val (bu_of_u64 b)"
    using assms limbs_val_inj [of a "bu_of_u64 b"] wf_bu_of_u64 [of b] by (auto simp: wf_u256_def)
  finally show ?thesis by simp
qed

lemma wf_bu_zero [simp]: "wf_u256 bu_zero" "limbs_val bu_zero = 0"
  by (simp_all only: wf_u256_def bu_zero_def length_replicate limbs_val_replicate_0)

lemma u256_eqI: "wf_u256 a \<Longrightarrow> wf_u256 b \<Longrightarrow> limbs_val a = limbs_val b \<Longrightarrow> a = b"
  by (simp add: wf_u256_def limbs_val_inj)

lemma limbs_of_div:
  assumes "wf_u256 a" "wf_u256 b"
  shows "bu_div a b = (if limbs_val b = 0 then Inl DivisionByZero
    else Inr (limbs_of WIDTH (limbs_val a div limbs_val b)))"
proof (cases "limbs_val b = 0")
  case True
  then show ?thesis using assms by (simp add: bu_div_zero)
next
  case False
  then obtain q where q: "bu_div a b = Inr q" "wf_u256 q" "limbs_val q = limbs_val a div limbs_val b"
    using bu_div_val [OF assms] by blast
  then have "limbs_of WIDTH (limbs_val q) = q" using limbs_of_limbs_val [of q] by (simp add: wf_u256_def)
  then show ?thesis using q False by simp
qed

section \<open>Properties\<close>

lemma bu_inc_dec: "bu_inc (bu_dec ws) = ws" "bu_dec (bu_inc ws) = ws"
  by (induction ws) (auto simp: eq_neg_iff_add_eq_0 [symmetric])

text \<open>
  C27. The 256-bit unsigned integers are the integers modulo \<open>2 ^ 256\<close>: addition,
  subtraction, negation, both multiplications and the left shift agree with the arithmetic of
  natural numbers reduced modulo \<open>2 ^ 256\<close>, the right shift is the exact quotient, the
  comparison is the order of the values, and every result again has eight limbs.
\<close>

theorem u256_arithmetic:
  assumes "wf_u256 a" "wf_u256 b"
  shows "limbs_val (bu_add a b) = (limbs_val a + limbs_val b) mod 2 ^ 256 \<and>
    limbs_val (bu_sub a b) = (limbs_val a + (2 ^ 256 - limbs_val b)) mod 2 ^ 256 \<and>
    limbs_val (bu_neg a) = (2 ^ 256 - limbs_val a) mod 2 ^ 256 \<and>
    limbs_val (bu_mul a b) = limbs_val a * limbs_val b mod 2 ^ 256 \<and>
    limbs_val (bu_mul32 a c) = limbs_val a * unat c mod 2 ^ 256 \<and>
    limbs_val (bu_shl a n) = limbs_val a * 2 ^ n mod 2 ^ 256 \<and>
    limbs_val (bu_shr a n) = limbs_val a div 2 ^ n \<and>
    CompareTo a b = (if limbs_val a < limbs_val b then - 1
      else if limbs_val a > limbs_val b then 1 else 0) \<and>
    (\<forall>r \<in> {bu_add a b, bu_sub a b, bu_neg a, bu_mul a b, bu_mul32 a c, bu_shl a n, bu_shr a n}. wf_u256 r)"
proof -
  have len: "length a = length b" "length a = WIDTH" "length b = WIDTH"
    using assms by (simp_all add: wf_u256_def)
  have "wf_u256 (bu_mul a b)" using assms by (rule wf_bu_mul)
  then have "\<forall>r \<in> {bu_add a b, bu_sub a b, bu_neg a, bu_mul a b, bu_mul32 a c, bu_shl a n, bu_shr a n}. wf_u256 r"
    using len by (simp add: wf_u256_def bu_neg_def)
  then show ?thesis
    unfolding modulus_WIDTH [symmetric] bu_add_val [OF len(1)] bu_sub_val [OF len(1)] bu_neg_val
      bu_mul_val [OF assms] bu_mul32_val bu_shl_val [OF assms(1)] bu_shr_val [OF assms(1)]
      CompareTo_val [OF len(1)] len(2,3)
    by (intro conjI refl)
qed

theorem u256_arithmetic_witness:
  "limbs_val (bu_sub (bu_of_u64 3) (bu_of_u64 5)) = 2 ^ 256 - 2 \<and>
   limbs_val (bu_mul (bu_of_u64 (2 ^ 40)) (bu_of_u64 (2 ^ 40))) = 2 ^ 80"
proof -
  have "unat (3 :: u64) = 3" "unat (5 :: u64) = 5" "unat (2 ^ 40 :: u64) = 2 ^ 40" by simp_all
  then show ?thesis
    using u256_arithmetic [of "bu_of_u64 3" "bu_of_u64 5"]
      u256_arithmetic [of "bu_of_u64 (2 ^ 40)" "bu_of_u64 (2 ^ 40)"]
    unfolding bu_of_u64_val by simp
qed

text \<open>
  Division: the shift-and-subtract loop of \<^verbatim>\<open>operator/=\<close> ends with the
  integer quotient for every divisor but zero, for which it throws.
\<close>

theorem u256_division:
  assumes "wf_u256 a" "wf_u256 b"
  shows "bu_div a b = (if limbs_val b = 0 then Inl DivisionByZero
    else Inr (limbs_of WIDTH (limbs_val a div limbs_val b)))"
  using assms by (rule limbs_of_div)

theorem u256_division_witness:
  "bu_div (bu_of_u64 1000000007) (bu_of_u64 10) = Inr (limbs_of WIDTH 100000000) \<and>
   bu_div (bu_of_u64 7) bu_zero = Inl DivisionByZero"
  using u256_division [of "bu_of_u64 1000000007" "bu_of_u64 10"] u256_division [of "bu_of_u64 7" bu_zero]
  by simp

end
