(* ===== verification/Compact_Bits.thy ===== *)
theory Compact_Bits
  imports Arith_U256
begin

unbundle bit_operations_syntax

text \<open>
  The \<^emph>\<open>compact\<close> form of a difficulty target, the \<^verbatim>\<open>nBits\<close> field of
  every block header (\<^verbatim>\<open>arith_uint256::SetCompact\<close> and
  \<^verbatim>\<open>GetCompact\<close>): an exponent byte, a sign bit and a 23-bit mantissa.  The
  specification is the documented reading \<open>mantissa * 256 ^ (exponent - 3)\<close>; decoding is
  shown to compute it with exact overflow and sign flags, encoding never to trip its
  assertions, and the two together to lose less than one part in \<open>2 ^ 15\<close>.
\<close>


section \<open>Decoding and encoding\<close>

definition SetCompact :: "u32 \<Rightarrow> u256 \<times> bool \<times> bool" where
  "SetCompact nCompact =
     (let nSize = unat (drop_bit 24 nCompact);
          nWord = nCompact AND 0x007fffff;
          nWord' = (if nSize \<le> 3 then drop_bit (8 * (3 - nSize)) nWord else nWord);
          this = (if nSize \<le> 3 then bu_of_u64 (ucast nWord')
                  else bu_shl (bu_of_u64 (ucast nWord)) (8 * (nSize - 3)));
          fNegative = (nWord' \<noteq> 0 \<and> nCompact AND 0x00800000 \<noteq> 0);
          fOverflow = (nWord' \<noteq> 0 \<and> (nSize > 34 \<or> nWord' > 0xff \<and> nSize > 33 \<or>
                                       nWord' > 0xffff \<and> nSize > 32))
      in (this, fNegative, fOverflow))"

text \<open>
  \<^verbatim>\<open>GetCompact\<close> carries two assertions; the value \<open>None\<close> stands for the abort a
  failed one causes.
\<close>

definition GetCompact :: "u256 \<Rightarrow> bool \<Rightarrow> u32 option" where
  "GetCompact a fNegative =
     (let nSize = (bu_bits a + 7) div 8;
          nCompact = (if nSize \<le> 3 then ucast (push_bit (8 * (3 - nSize)) (GetLow64 a))
                      else ucast (GetLow64 (bu_shr a (8 * (nSize - 3)))) :: u32);
          (nCompact, nSize) = (if nCompact AND 0x00800000 \<noteq> 0
                               then (drop_bit 8 nCompact, nSize + 1) else (nCompact, nSize))
      in if nCompact AND NOT 0x007fffff \<noteq> 0 then None
         else if \<not> nSize < 256 then None
         else let nCompact = nCompact OR push_bit 24 (word_of_nat nSize)
              in Some (nCompact OR
                   (if fNegative \<and> nCompact AND 0x007fffff \<noteq> 0 then 0x00800000 else 0)))"


section \<open>Decoding computes the documented value\<close>

definition compact_exponent :: "u32 \<Rightarrow> nat" where
  "compact_exponent n = unat n div 2 ^ 24"

definition compact_mantissa :: "u32 \<Rightarrow> nat" where
  "compact_mantissa n = unat n mod 2 ^ 23"

definition compact_sign :: "u32 \<Rightarrow> bool" where
  "compact_sign n \<longleftrightarrow> odd (unat n div 2 ^ 23)"

definition compact_value :: "u32 \<Rightarrow> nat" where
  "compact_value n =
     (if compact_exponent n \<le> 3 then compact_mantissa n div 256 ^ (3 - compact_exponent n)
      else compact_mantissa n * 256 ^ (compact_exponent n - 3))"

lemma compact_fields:
  "unat (n AND 0x007fffff :: u32) = unat n mod 2 ^ 23"
  "unat (drop_bit k n) = unat n div 2 ^ k"
  "n AND 0x00800000 \<noteq> 0 \<longleftrightarrow> odd (unat n div 2 ^ 23)"
proof -
  have "(0x007fffff :: u32) = mask 23" by (simp add: mask_eq_exp_minus_1)
  then show "unat (n AND 0x007fffff) = unat n mod 2 ^ 23"
    by (simp only: take_bit_eq_mask [symmetric] unsigned_take_bit_eq) (simp add: take_bit_eq_mod)
  have "take_bit 32 (unat n) = unat n" using unat_bound [of n] by (simp add: take_bit_nat_eq_self_iff)
  then show "unat (drop_bit k n) = unat n div 2 ^ k"
    unfolding unsigned_drop_bit_eq by (simp add: drop_bit_eq_div)
  have "(0x00800000 :: u32) = push_bit 23 1" by simp
  then have "n AND 0x00800000 \<noteq> 0 \<longleftrightarrow> bit n 23"
    by (simp only: bit_iff_and_push_bit_not_eq_0)
  also have "\<dots> \<longleftrightarrow> bit (unat n) 23" by (simp add: bit_unsigned_iff)
  finally show "n AND 0x00800000 \<noteq> 0 \<longleftrightarrow> odd (unat n div 2 ^ 23)" by (simp only: bit_iff_odd)
qed


lemma overflow_iff:
  assumes "m < (2::nat) ^ 23" "3 < e"
  shows "m \<noteq> 0 \<and> (34 < e \<or> 0xff < m \<and> 33 < e \<or> 0xffff < m \<and> 32 < e) \<longleftrightarrow>
    2 ^ 256 \<le> m * 256 ^ (e - 3)"
proof -
  consider "e \<le> 32" | "e = 33" | "e = 34" | "35 \<le> e" by linarith
  then show ?thesis
  proof cases
    case 1
    have "m * 256 ^ (e - 3) \<le> 2 ^ 23 * 256 ^ 29"
      using assms 1 by (intro mult_le_mono power_increasing) simp_all
    also have "\<dots> < (2::nat) ^ 256" by simp
    finally show ?thesis using 1 by simp
  next
    case 4
    have "(2::nat) ^ 256 = 256 ^ 32" by simp
    also have "\<dots> \<le> 256 ^ (e - 3)" using 4 by (intro power_increasing) simp_all
    finally have p: "(2::nat) ^ 256 \<le> 256 ^ (e - 3)" .
    show ?thesis
    proof (cases "m = 0")
      case False
      then have "256 ^ (e - 3) \<le> m * 256 ^ (e - 3)" by simp
      with p have "2 ^ 256 \<le> m * 256 ^ (e - 3)" by (rule order_trans)
      then show ?thesis using False 4 by simp
    qed simp
  qed (use assms in auto)
qed

lemma SetCompact_correct:
  fixes n :: u32
  defines "t \<equiv> fst (SetCompact n)"
  shows "wf_u256 t"
    and "limbs_val t = compact_value n mod 2 ^ 256"
    and "fst (snd (SetCompact n)) \<longleftrightarrow> compact_sign n \<and> compact_value n \<noteq> 0"
    and "snd (snd (SetCompact n)) \<longleftrightarrow> 2 ^ 256 \<le> compact_value n"
proof -
  let ?w = "n AND 0x007fffff" and ?m = "compact_mantissa n" and ?e = "compact_exponent n"
  have m: "unat ?w = ?m" "?m < 2 ^ 23" by (simp_all add: compact_fields compact_mantissa_def)
  have e: "unat (drop_bit 24 n) = ?e" by (simp only: compact_fields compact_exponent_def)
  have sh: "unat (drop_bit (8 * (3 - ?e)) ?w) = ?m div 256 ^ (3 - ?e)"
    by (simp only: compact_fields(2) m(1)) (simp add: power_mult)
  have sgn: "n AND 0x00800000 \<noteq> 0 \<longleftrightarrow> compact_sign n"
    by (simp only: compact_fields(3) compact_sign_def)
  show "wf_u256 t" by (simp add: t_def SetCompact_def Let_def)
  show "limbs_val t = compact_value n mod 2 ^ 256"
  proof (cases "?e \<le> 3")
    case True
    have "?m div 256 ^ (3 - ?e) < 2 ^ 256"
      by (rule le_less_trans [OF div_le_dividend]) (use m(2) in simp)
    then show ?thesis
      using True by (simp add: t_def SetCompact_def Let_def e sh compact_value_def del: drop_bit_and)
  next
    case False
    then show ?thesis
      by (simp add: t_def SetCompact_def Let_def e m compact_value_def bu_shl_val modulus_WIDTH
          power_mult)
  qed
  show "fst (snd (SetCompact n)) \<longleftrightarrow> compact_sign n \<and> compact_value n \<noteq> 0"
  proof (cases "?e \<le> 3")
    case True
    then show ?thesis using sh sgn
      by (auto simp: SetCompact_def Let_def e compact_value_def simp del: drop_bit_and simp flip: unat_eq_zero)
  next
    case False
    then show ?thesis using m sgn
      by (auto simp: SetCompact_def Let_def e compact_value_def simp flip: unat_eq_zero)
  qed
  show "snd (snd (SetCompact n)) \<longleftrightarrow> 2 ^ 256 \<le> compact_value n"
  proof (cases "?e \<le> 3")
    case True
    have "?m div 256 ^ (3 - ?e) < 2 ^ 256"
      by (rule le_less_trans [OF div_le_dividend]) (use m(2) in simp)
    then have "compact_value n < 2 ^ 256" using True by (simp add: compact_value_def)
    then show ?thesis using True by (simp add: SetCompact_def Let_def e)
  next
    case False
    have "snd (snd (SetCompact n)) \<longleftrightarrow>
        ?m \<noteq> 0 \<and> (34 < ?e \<or> 0xff < ?m \<and> 33 < ?e \<or> 0xffff < ?m \<and> 32 < ?e)"
      using False m(1) by (simp add: SetCompact_def Let_def e word_less_nat_alt flip: unat_eq_zero)
    also have "\<dots> \<longleftrightarrow> 2 ^ 256 \<le> compact_value n"
      using overflow_iff [OF m(2), of ?e] False by (simp add: compact_value_def)
    finally show ?thesis .
  qed
qed



section \<open>Encoding\<close>

text \<open>
  The mantissa and exponent \<^verbatim>\<open>GetCompact\<close> chooses for a value of \<open>b\<close> bits,
  on natural numbers.
\<close>

definition compact_raw :: "nat \<Rightarrow> nat \<Rightarrow> nat" where
  "compact_raw n v = (if n \<le> 3 then v * 256 ^ (3 - n) else v div 256 ^ (n - 3))"

lemma compact_raw_bounds:
  assumes "v < 256 ^ n"
  shows "compact_raw n v < 2 ^ 24"
    and "n = 0 \<or> 256 ^ (n - 1) \<le> v \<Longrightarrow> 3 < n \<Longrightarrow> 2 ^ 16 \<le> compact_raw n v"
proof -
  show "compact_raw n v < 2 ^ 24"
  proof (cases "n \<le> 3")
    case True
    have "v * 256 ^ (3 - n) < 256 ^ n * 256 ^ (3 - n)" using assms by simp
    also have "\<dots> = (256::nat) ^ 3" using True by (simp flip: power_add)
    finally show ?thesis using True by (simp add: compact_raw_def)
  next
    case False
    have "n = 3 + (n - 3)" using False by simp
    then have "256 ^ n = (256::nat) ^ 3 * 256 ^ (n - 3)" by (metis power_add)
    then have "v div 256 ^ (n - 3) < 256 ^ 3" using assms by (intro less_mult_imp_div_less) simp
    then show ?thesis using False by (simp add: compact_raw_def)
  qed
  assume lo: "n = 0 \<or> 256 ^ (n - 1) \<le> v" and n: "3 < n"
  have "n - 1 = 2 + (n - 3)" using n by simp
  then have "(256::nat) ^ (n - 1) = 256 ^ 2 * 256 ^ (n - 3)" by (metis power_add)
  then have "256 ^ 2 * 256 ^ (n - 3) \<le> v" using lo n by simp
  then have "256 ^ 2 \<le> v div 256 ^ (n - 3)" by (simp add: less_eq_div_iff_mult_less_eq)
  then show "2 ^ 16 \<le> compact_raw n v" using n by (simp add: compact_raw_def)
qed

lemma GetCompact_word:
  fixes a :: u256
  assumes a: "wf_u256 a"
  defines "n \<equiv> (bu_bits a + 7) div 8"
  shows "unat (if n \<le> 3 then ucast (push_bit (8 * (3 - n)) (GetLow64 a))
               else ucast (GetLow64 (bu_shr a (8 * (n - 3)))) :: u32) = compact_raw n (limbs_val a)"
    and "limbs_val a < 256 ^ n" and "n = 0 \<or> 256 ^ (n - 1) \<le> limbs_val a" and "n \<le> 32"
proof -
  let ?v = "limbs_val a"
  have b: "bu_bits a \<le> 8 * n" "n = 0 \<longleftrightarrow> bu_bits a = 0" "bu_bits a \<noteq> 0 \<Longrightarrow> 8 * (n - 1) \<le> bu_bits a - 1"
    by (simp_all add: n_def) linarith+
  have "?v < 2 ^ bu_bits a" by (rule bu_bits_upper [OF a])
  also have "\<dots> \<le> 2 ^ (8 * n)" using b by (intro power_increasing) simp_all
  finally show up: "?v < 256 ^ n" by (simp add: power_mult)
  show lo: "n = 0 \<or> 256 ^ (n - 1) \<le> ?v"
  proof (cases "bu_bits a = 0")
    case False
    have "(256::nat) ^ (n - 1) = 2 ^ (8 * (n - 1))" by (simp add: power_mult)
    also have "\<dots> \<le> 2 ^ (bu_bits a - 1)" using b(3) [OF False] by (intro power_increasing) simp_all
    also have "\<dots> \<le> ?v" by (rule bu_bits_lower [OF a False])
    finally show ?thesis ..
  qed (use b in simp)
  show "n \<le> 32" using bu_bits_le [OF a] by (simp add: n_def)
  have raw: "compact_raw n ?v < 2 ^ 24" by (rule compact_raw_bounds [OF up])
  show "unat (if n \<le> 3 then ucast (push_bit (8 * (3 - n)) (GetLow64 a))
               else ucast (GetLow64 (bu_shr a (8 * (n - 3)))) :: u32) = compact_raw n ?v"
  proof (cases "n \<le> 3")
    case True
    have "unat (push_bit (8 * (3 - n)) (GetLow64 a)) = ?v mod 2 ^ 64 * 2 ^ (8 * (3 - n)) mod 2 ^ 64"
      unfolding unsigned_push_bit_eq by (simp add: GetLow64_val [OF a] push_bit_eq_mult take_bit_eq_mod)
    then show ?thesis using True raw
      by (simp add: compact_raw_def unsigned_ucast_eq take_bit_eq_mod power_mult mod_mult_left_eq)
  next
    case False
    then show ?thesis using raw
      by (simp add: compact_raw_def unsigned_ucast_eq take_bit_eq_mod GetLow64_val bu_shr_val a power_mult)
  qed
qed

text \<open>The final mantissa and exponent, after the sign bit has been kept clear.\<close>

definition compact_norm :: "nat \<Rightarrow> nat \<Rightarrow> nat \<times> nat" where
  "compact_norm n v =
     (let m = compact_raw n v in if 2 ^ 23 \<le> m then (m div 256, n + 1) else (m, n))"

lemma GetCompact_norm:
  assumes a: "wf_u256 a"
  defines "n \<equiv> (bu_bits a + 7) div 8"
  shows "\<exists>c. GetCompact a False = Some c \<and>
    unat c = fst (compact_norm n (limbs_val a)) + snd (compact_norm n (limbs_val a)) * 2 ^ 24 \<and>
    fst (compact_norm n (limbs_val a)) < 2 ^ 23 \<and> snd (compact_norm n (limbs_val a)) \<le> 33"
proof -
  let ?v = "limbs_val a"
  define w :: u32 where "w = (if n \<le> 3 then ucast (push_bit (8 * (3 - n)) (GetLow64 a))
    else ucast (GetLow64 (bu_shr a (8 * (n - 3)))))"
  note gw = GetCompact_word [OF a, folded n_def]
  have w: "unat w = compact_raw n ?v" using gw(1) by (simp add: w_def)
  have raw: "compact_raw n ?v < 2 ^ 24" by (rule compact_raw_bounds [OF gw(2)])
  have sgn: "w AND 0x00800000 \<noteq> 0 \<longleftrightarrow> 2 ^ 23 \<le> compact_raw n ?v"
  proof -
    have "compact_raw n ?v div 2 ^ 23 < 2" using raw by (intro less_mult_imp_div_less) simp
    then have "odd (compact_raw n ?v div 2 ^ 23) \<longleftrightarrow> compact_raw n ?v div 2 ^ 23 \<noteq> 0"
      by (auto simp: less_2_cases_iff)
    then show ?thesis by (simp only: compact_fields(3) w) (auto simp: div_greater_zero_iff)
  qed
  define w' :: u32 where "w' = (if w AND 0x00800000 \<noteq> 0 then drop_bit 8 w else w)"
  define n' where "n' = (if w AND 0x00800000 \<noteq> 0 then n + 1 else n)"
  have w': "unat w' = fst (compact_norm n ?v)" "n' = snd (compact_norm n ?v)"
    using sgn by (simp_all add: w'_def n'_def compact_norm_def Let_def compact_fields(2) w)
  have lt: "unat w' < 2 ^ 23"
    using raw by (auto simp: w' compact_norm_def Let_def less_mult_imp_div_less)
  have n33: "n' \<le> 33" using gw(4) by (simp add: n'_def)
  have nb: "\<not> bit w' i" if "23 \<le> i" for i
  proof -
    have "(2::nat) ^ 23 \<le> 2 ^ i" using that by (intro power_increasing) simp_all
    then have "unat w' div 2 ^ i = 0" using lt by simp
    then have "\<not> bit (unat w') i" by (simp add: bit_iff_odd)
    then show ?thesis by (simp add: bit_unsigned_iff)
  qed
  have mask23: "(0x007fffff :: u32) = mask 23" by (simp add: mask_eq_exp_minus_1)
  have a1: "w' AND NOT 0x007fffff = 0"
    unfolding mask23 using nb by (intro bit_eqI) (auto simp: bit_simps not_le [symmetric])
  have "w' AND push_bit 24 (word_of_nat n') = 0"
    using nb by (intro bit_eqI) (auto simp: bit_and_iff bit_push_bit_iff)
  then have "unat (w' OR push_bit 24 (word_of_nat n')) = unat (w' + push_bit 24 (word_of_nat n'))"
    by (simp only: disjunctive_add_eq_or)
  also have "unat (push_bit 24 (word_of_nat n' :: u32)) = n' * 2 ^ 24"
    unfolding unsigned_push_bit_eq using n33
    by (simp add: unat_of_nat push_bit_eq_mult take_bit_eq_mod)
  then have "unat (w' + push_bit 24 (word_of_nat n')) = unat w' + n' * 2 ^ 24"
    using lt n33 by (simp only: unat_word_ariths) simp
  finally have c: "unat (w' OR push_bit 24 (word_of_nat n')) = unat w' + n' * 2 ^ 24" .
  have "GetCompact a False = Some (w' OR push_bit 24 (word_of_nat n'))"
    unfolding GetCompact_def Let_def n_def [symmetric] w_def [symmetric]
    using a1 n33 by (simp add: w'_def n'_def split: if_splits)
  then show ?thesis using c w' lt n33 by auto
qed


section \<open>Round trip\<close>

lemma compact_fields_of_sum:
  assumes "unat c = m + e * 2 ^ 24" "m < 2 ^ 23"
  shows "compact_exponent c = e" "compact_mantissa c = m" "\<not> compact_sign c"
proof -
  have c: "unat c = m + 2 ^ 23 * (2 * e)" using assms by simp
  show "compact_mantissa c = m"
    unfolding compact_mantissa_def c mod_mult_self2 by (rule mod_less [OF assms(2)])
  have "(m + 2 ^ 23 * (2 * e)) div 2 ^ 23 = 2 * e"
    using assms(2) by (subst div_mult_self2) simp_all
  then show "\<not> compact_sign c" unfolding compact_sign_def c by simp
  show "compact_exponent c = e" using assms by (simp add: compact_exponent_def)
qed

lemma compact_norm_value:
  fixes n v :: nat
  defines "m \<equiv> fst (compact_norm n v)" and "e \<equiv> snd (compact_norm n v)"
  shows "(if e \<le> 3 then m div 256 ^ (3 - e) else m * 256 ^ (e - 3)) =
    v div 256 ^ (e - 3) * 256 ^ (e - 3)"
    and "3 < e \<Longrightarrow> m = v div 256 ^ (e - 3)"
proof -
  have me: "m = (if 2 ^ 23 \<le> compact_raw n v then compact_raw n v div 256 else compact_raw n v)"
    "e = (if 2 ^ 23 \<le> compact_raw n v then n + 1 else n)"
    by (simp_all add: m_def e_def compact_norm_def Let_def)
  show eq: "m = v div 256 ^ (e - 3)" if "3 < e"
  proof (cases "2 ^ 23 \<le> compact_raw n v")
    case True
    then have "e - 3 = Suc (n - 3)" "n \<le> 3 \<Longrightarrow> n = 3" using that by (simp_all add: me)
    then show ?thesis using True by (auto simp: me compact_raw_def div_mult2_eq power_Suc2 simp del: power_Suc)
  next
    case False
    then show ?thesis using that by (simp add: me compact_raw_def)
  qed
  show "(if e \<le> 3 then m div 256 ^ (3 - e) else m * 256 ^ (e - 3)) =
    v div 256 ^ (e - 3) * 256 ^ (e - 3)"
  proof (cases "e \<le> 3")
    case True
    have "m div 256 ^ (3 - e) = v"
    proof (cases "2 ^ 23 \<le> compact_raw n v")
      case b: True
      then have "3 - n = Suc (3 - e)" using True by (simp add: me)
      then have "m = v * 256 ^ (3 - e)" using b True by (simp add: me compact_raw_def)
      then show ?thesis by simp
    next
      case False
      then show ?thesis using True by (simp add: me compact_raw_def)
    qed
    then show ?thesis using True by simp
  next
    case False
    then show ?thesis using eq by simp
  qed
qed

lemma compact_norm_mantissa:
  assumes "v < 256 ^ n" "n = 0 \<or> 256 ^ (n - 1) \<le> v" "3 < snd (compact_norm n v)"
  shows "2 ^ 15 \<le> fst (compact_norm n v)"
proof (cases "2 ^ 23 \<le> compact_raw n v")
  case True
  then have "2 ^ 23 div 256 \<le> compact_raw n v div 256" by (rule div_le_mono)
  then show ?thesis using True by (simp add: compact_norm_def Let_def)
next
  case False
  then show ?thesis using assms compact_raw_bounds(2) [OF assms(1,2)]
    by (simp add: compact_norm_def Let_def)
qed

lemma floor_error:
  fixes v B :: nat
  shows "v div B * B \<le> v" and "2 ^ 15 \<le> v div B \<or> B = 1 \<Longrightarrow> (v - v div B * B) * 2 ^ 15 \<le> v div B * B"
proof -
  show "v div B * B \<le> v" by simp
  have e: "v - v div B * B = v mod B" by (simp add: minus_div_mult_eq_mod)
  assume "2 ^ 15 \<le> v div B \<or> B = 1"
  then show "(v - v div B * B) * 2 ^ 15 \<le> v div B * B"
  proof
    assume q: "2 ^ 15 \<le> v div B"
    then have "B \<noteq> 0" by (metis div_by_0 not_less zero_less_numeral zero_less_power)
    then have "v mod B \<le> B" by (simp add: less_imp_le)
    then have "v mod B * 2 ^ 15 \<le> B * (v div B)" using q by (rule mult_le_mono)
    then show ?thesis unfolding e by (simp only: mult.commute [of B])
  next
    assume "B = 1"
    then show ?thesis by simp
  qed
qed

lemma SetCompact_GetCompact:
  assumes a: "wf_u256 a"
  shows "\<exists>c t. GetCompact a False = Some c \<and> SetCompact c = (t, False, False) \<and> wf_u256 t \<and>
    limbs_val t \<le> limbs_val a \<and> (limbs_val a - limbs_val t) * 2 ^ 15 \<le> limbs_val t"
proof -
  let ?v = "limbs_val a" and ?n = "(bu_bits a + 7) div 8"
  let ?m = "fst (compact_norm ?n ?v)" and ?e = "snd (compact_norm ?n ?v)"
  note gw = GetCompact_word [OF a]
  obtain c where c: "GetCompact a False = Some c" "unat c = ?m + ?e * 2 ^ 24" "?m < 2 ^ 23"
    using GetCompact_norm [OF a] by blast
  note f = compact_fields_of_sum [OF c(2,3)]
  have cv: "compact_value c = ?v div 256 ^ (?e - 3) * 256 ^ (?e - 3)"
    unfolding compact_value_def f by (rule compact_norm_value)
  have le: "compact_value c \<le> ?v" unfolding cv by (rule floor_error)
  then have lt: "compact_value c < 2 ^ 256" using u256_val_bound [OF a] by linarith
  have q: "2 ^ 15 \<le> ?v div 256 ^ (?e - 3) \<or> (256::nat) ^ (?e - 3) = 1"
    using compact_norm_mantissa [OF gw(2,3)] compact_norm_value(2) [of ?n ?v]
    by (cases "3 < ?e") auto
  have err: "(?v - compact_value c) * 2 ^ 15 \<le> compact_value c"
    unfolding cv by (rule floor_error(2) [OF q])
  obtain t where t: "SetCompact c = (t, False, False)" "wf_u256 t" "limbs_val t = compact_value c"
    using SetCompact_correct [of c] f(3) lt by (cases "SetCompact c") auto
  show ?thesis using c(1) t le err by auto
qed

section \<open>Properties\<close>

text \<open>
  Decoding the compact format: \<^verbatim>\<open>SetCompact\<close> stores the value mantissa times
  256 to the power exponent minus 3 reduced to 256 bits, raises the overflow flag exactly when
  that value does not fit 256 bits, and the negative flag exactly when the sign bit is set on a
  value other than zero.
\<close>

theorem SetCompact_decodes:
  "wf_u256 (fst (SetCompact n)) \<and>
   limbs_val (fst (SetCompact n)) = compact_value n mod 2 ^ 256 \<and>
   (fst (snd (SetCompact n)) \<longleftrightarrow> compact_sign n \<and> compact_value n \<noteq> 0) \<and>
   (snd (snd (SetCompact n)) \<longleftrightarrow> 2 ^ 256 \<le> compact_value n)"
  using SetCompact_correct [of n] by blast

text \<open>
  Encoding never fails an assertion and decoding its result raises no flag and gives back a
  target that is not larger than the original and smaller by less than one part in 32768.
\<close>

theorem GetCompact_rounds_down:
  assumes "wf_u256 a"
  shows "\<exists>c t. GetCompact a False = Some c \<and> SetCompact c = (t, False, False) \<and> wf_u256 t \<and>
    limbs_val t \<le> limbs_val a \<and> (limbs_val a - limbs_val t) * 2 ^ 15 \<le> limbs_val t"
  using assms by (rule SetCompact_GetCompact)

theorem GetCompact_rounds_down_witness:
  "\<exists>c t. GetCompact (bu_of_u64 0x1234567890) False = Some c \<and> SetCompact c = (t, False, False) \<and>
    wf_u256 t \<and> limbs_val t \<le> 0x1234567890 \<and> (0x1234567890 - limbs_val t) * 2 ^ 15 \<le> limbs_val t"
  using GetCompact_rounds_down [of "bu_of_u64 0x1234567890"] by simp

end
