(* ===== verification/Script_Num.thy ===== *)
theory Script_Num
  imports Byte_Order
begin

unbundle bit_operations_syntax

text \<open>
  Script numbers (\<^verbatim>\<open>class CScriptNum\<close> of \<^verbatim>\<open>script/script.h\<close> and
  its two out-of-line members in \<^verbatim>\<open>script/script.cpp\<close>): little-endian
  sign-and-magnitude integers of any length, the only numbers the script interpreter knows.
  The model keeps \<^verbatim>\<open>m_value\<close> as the integer an \<^verbatim>\<open>int64_t\<close> holds.
  \<open>snum_val\<close> is the specification: the value any byte vector denotes.  The lemmas show that
  \<^verbatim>\<open>serialize\<close> and \<^verbatim>\<open>set_vch\<close> are inverse to each other on minimal
  encodings, and that \<^verbatim>\<open>MinimallyEncode\<close> finds the one minimal encoding of the
  number it is given.
\<close>


section \<open>The class\<close>

fun ser_abs :: "nat \<Rightarrow> bytes" where
  "ser_abs absvalue =
     (if absvalue = 0 then [] else word_of_nat absvalue # ser_abs (absvalue div 2 ^ 8))"

declare ser_abs.simps [simp del]

definition snum_serialize :: "int \<Rightarrow> bytes" where
  "snum_serialize v =
     (if v = 0 then []
      else let neg = v < 0; result = ser_abs (nat \<bar>v\<bar>)
           in if last result AND 0x80 \<noteq> 0 then result @ [if neg then 0x80 else 0]
              else if neg then butlast result @ [last result OR 0x80]
              else result)"

text \<open>
  The accumulator of \<^verbatim>\<open>set_vch\<close> is an \<^verbatim>\<open>int64_t\<close>; it is built by
  shifts and ors, and its sign is read as two's complement.
\<close>

definition set_vch :: "bytes \<Rightarrow> int" where
  "set_vch vch =
     (if vch = [] then 0
      else let result = fold (\<lambda>i r. r OR push_bit (8 * i) (ucast (vch ! i))) [0..<length vch] (0 :: u64)
           in if last vch AND 0x80 \<noteq> 0
              then sint (- (result AND NOT (push_bit (8 * (length vch - 1)) 0x80)))
              else sint result)"

definition IsMinimallyEncoded :: "bytes \<Rightarrow> nat \<Rightarrow> bool" where
  "IsMinimallyEncoded vch nMaxNumSize =
     (if length vch > nMaxNumSize then False
      else if length vch > 0
      then if last vch AND 0x7f = 0
           then \<not> (length vch \<le> 1 \<or> vch ! (length vch - 2) AND 0x80 = 0)
           else True
      else True)"

primrec minimally_encode_loop :: "nat \<Rightarrow> bytes \<Rightarrow> u8 \<Rightarrow> bytes" where
  "minimally_encode_loop 0 data last_byte = []"
| "minimally_encode_loop (Suc i) data last_byte =
     (if data ! i \<noteq> 0
      then if data ! i AND 0x80 \<noteq> 0 then take (i + 2) (data[i + 1 := last_byte])
           else take (i + 1) (data[i := data ! i OR last_byte])
      else minimally_encode_loop i data last_byte)"

definition MinimallyEncode :: "bytes \<Rightarrow> bool \<times> bytes" where
  "MinimallyEncode data =
     (if length data = 0 then (False, data)
      else if last data AND 0x7f \<noteq> 0 then (False, data)
      else if length data = 1 then (True, [])
      else if data ! (length data - 2) AND 0x80 \<noteq> 0 then (False, data)
      else (True, minimally_encode_loop (length data - 1) data (last data)))"

text \<open>The throwing constructor; \<open>None\<close> is \<^verbatim>\<open>scriptnum_error\<close>.\<close>

definition script_num :: "bytes \<Rightarrow> bool \<Rightarrow> nat \<Rightarrow> int option" where
  "script_num vch fRequireMinimal nMaxNumSize =
     (if length vch > nMaxNumSize then None
      else if fRequireMinimal \<and> \<not> IsMinimallyEncoded vch nMaxNumSize then None
      else Some (set_vch vch))"

abbreviation (input) nDefaultMaxNumSize :: nat where "nDefaultMaxNumSize \<equiv> 4"

definition snum_getint :: "int \<Rightarrow> int" where
  "snum_getint v = (if v > 2 ^ 31 - 1 then 2 ^ 31 - 1 else if v < - (2 ^ 31) then - (2 ^ 31) else v)"

text \<open>
  The arithmetic operators.  The compound forms and negation carry an assertion that the
  result fits \<^verbatim>\<open>int64_t\<close>; \<open>None\<close> is the abort of a failed assertion.  The plain
  forms wrap like the machine does.
\<close>

definition int64_min :: int where "int64_min = - (2 ^ 63)"

definition int64_max :: int where "int64_max = 2 ^ 63 - 1"

definition wrap64 :: "int \<Rightarrow> int" where
  "wrap64 x = sint (word_of_int x :: u64)"

definition snum_add :: "int \<Rightarrow> int \<Rightarrow> int" where
  "snum_add a b = wrap64 (a + b)"

definition snum_sub :: "int \<Rightarrow> int \<Rightarrow> int" where
  "snum_sub a b = wrap64 (a - b)"

definition snum_add_assign :: "int \<Rightarrow> int \<Rightarrow> int option" where
  "snum_add_assign a b =
     (if b = 0 \<or> b > 0 \<and> a \<le> int64_max - b \<or> b < 0 \<and> a \<ge> int64_min - b then Some (a + b) else None)"

definition snum_sub_assign :: "int \<Rightarrow> int \<Rightarrow> int option" where
  "snum_sub_assign a b =
     (if b = 0 \<or> b > 0 \<and> a \<ge> int64_min + b \<or> b < 0 \<and> a \<le> int64_max + b then Some (a - b) else None)"

definition snum_neg :: "int \<Rightarrow> int option" where
  "snum_neg a = (if a \<noteq> int64_min then Some (- a) else None)"

text \<open>C++ division truncates towards zero, and the remainder takes the dividend's sign.\<close>

definition snum_div :: "int \<Rightarrow> int \<Rightarrow> int" where
  "snum_div a b = sgn a * sgn b * (\<bar>a\<bar> div \<bar>b\<bar>)"

definition snum_mod :: "int \<Rightarrow> int \<Rightarrow> int" where
  "snum_mod a b = sgn a * (\<bar>a\<bar> mod \<bar>b\<bar>)"


section \<open>The value of a byte vector\<close>

definition snum_mag :: "bytes \<Rightarrow> nat" where
  "snum_mag bs = (if bs = [] then 0 else limbs_val (butlast bs @ [last bs AND 0x7f]))"

definition snum_val :: "bytes \<Rightarrow> int" where
  "snum_val bs =
     (if bs \<noteq> [] \<and> last bs AND 0x80 \<noteq> 0 then - int (snum_mag bs) else int (snum_mag bs))"

definition minimal :: "bytes \<Rightarrow> bool" where
  "minimal bs = IsMinimallyEncoded bs (length bs)"

lemma byte_sign: "unat (b :: u8) div 128 = (if 128 \<le> unat b then 1 else 0)"
  using unat_bound [of b] by (simp add: div_nat_eqI)

lemma bit_byte_7: "bit (b :: u8) 7 \<longleftrightarrow> 128 \<le> unat b"
proof -
  have "bit b 7 \<longleftrightarrow> bit (unat b) 7" by (simp add: bit_unsigned_iff)
  also have "\<dots> \<longleftrightarrow> odd (unat b div 128)" by (simp add: bit_iff_odd)
  finally show ?thesis using byte_sign [of b] by simp
qed

lemma byte_fields:
  "unat (b AND 0x7f :: u8) = unat b mod 128"
  "b AND 0x80 \<noteq> 0 \<longleftrightarrow> 128 \<le> unat b"
  "unat b < 128 \<Longrightarrow> unat (b OR 0x80) = unat b + 128"
proof -
  have "(0x7f :: u8) = mask 7" by (simp add: mask_eq_exp_minus_1)
  then show "unat (b AND 0x7f) = unat b mod 128"
    by (simp only: take_bit_eq_mask [symmetric] unsigned_take_bit_eq) (simp add: take_bit_eq_mod)
  have e: "(0x80 :: u8) = push_bit 7 1" by simp
  then have "b AND 0x80 \<noteq> 0 \<longleftrightarrow> bit b 7" by (simp only: bit_iff_and_push_bit_not_eq_0)
  then show iff: "b AND 0x80 \<noteq> 0 \<longleftrightarrow> 128 \<le> unat b" by (simp add: bit_byte_7)
  assume "unat b < 128"
  with iff have "b AND 0x80 = 0" by auto
  then have "b OR 0x80 = b + 0x80" by (simp only: disjunctive_add_eq_or)
  then show "unat (b OR 0x80) = unat b + 128"
    using \<open>unat b < 128\<close> by (simp add: unat_word_ariths)
qed

lemma limbs_val_snoc: "limbs_val (xs @ [b :: u8]) = limbs_val xs + 256 ^ length xs * unat b"
  by (simp add: limbs_val_append power_mult)

lemma limbs_val_256: "limbs_val (xs :: bytes) < 256 ^ length xs"
  using limbs_val_bound [of xs] by (simp add: power_mult)

lemma snum_mag_snoc: "snum_mag (xs @ [b]) = limbs_val xs + 256 ^ length xs * (unat b mod 128)"
  by (simp add: snum_mag_def limbs_val_snoc byte_fields)

lemma snum_val_snoc:
  "snum_val (xs @ [b]) =
     (if 128 \<le> unat b then - int (snum_mag (xs @ [b])) else int (snum_mag (xs @ [b])))"
  using byte_fields(2) [of b] by (simp add: snum_val_def)

lemma abs_snum_val: "\<bar>snum_val bs\<bar> = int (snum_mag bs)"
  by (simp add: snum_val_def)



section \<open>Serialization\<close>

lemma ser_abs_0 [simp]: "ser_abs 0 = []"
  by (subst ser_abs.simps) simp

lemma ser_abs_pos: "0 < n \<Longrightarrow> ser_abs n = word_of_nat n # ser_abs (n div 256)"
  by (subst ser_abs.simps) simp

lemma ser_abs_eq_Nil [simp]: "ser_abs n = [] \<longleftrightarrow> n = 0"
  by (cases "n = 0") (simp_all add: ser_abs_pos)

lemma limbs_val_ser_abs [simp]: "limbs_val (ser_abs n) = n"
proof (induction n rule: ser_abs.induct)
  case (1 n)
  then show ?case by (cases "n = 0") (simp_all add: ser_abs_pos unat_of_nat)
qed

lemma last_ser_abs: "0 < n \<Longrightarrow> last (ser_abs n) \<noteq> 0"
proof (induction n rule: ser_abs.induct)
  case (1 n)
  show ?case
  proof (cases "n div 256 = 0")
    case True
    then have "n < 256" by (simp add: div_eq_0_iff)
    then have "unat (word_of_nat n :: u8) = n" by (simp add: unat_of_nat)
    then have "word_of_nat n \<noteq> (0 :: u8)" using "1.prems" by (metis unat_0 less_irrefl)
    then show ?thesis using True "1.prems" by (simp add: ser_abs_pos)
  next
    case False
    then show ?thesis using "1.IH" "1.prems" by (simp add: ser_abs_pos)
  qed
qed

lemma ser_abs_snoc:
  assumes "0 < n"
  obtains xs b where "ser_abs n = xs @ [b]" "0 < unat b" "n = limbs_val xs + 256 ^ length xs * unat b"
proof
  have e: "ser_abs n = butlast (ser_abs n) @ [last (ser_abs n)]" using assms by simp
  show "ser_abs n = butlast (ser_abs n) @ [last (ser_abs n)]" by (rule e)
  show "0 < unat (last (ser_abs n))" using last_ser_abs [OF assms] by (simp add: unat_gt_0)
  have "n = limbs_val (ser_abs n)" by simp
  also have "\<dots> = limbs_val (butlast (ser_abs n) @ [last (ser_abs n)])" using e by simp
  finally show "n = limbs_val (butlast (ser_abs n)) +
      256 ^ length (butlast (ser_abs n)) * unat (last (ser_abs n))"
    by (simp only: limbs_val_snoc)
qed

lemma minimal_snoc:
  "minimal (xs @ [b]) \<longleftrightarrow> unat b mod 128 \<noteq> 0 \<or> xs \<noteq> [] \<and> 128 \<le> unat (last xs)"
proof -
  have z: "b AND 0x7f = 0 \<longleftrightarrow> unat b mod 128 = 0" by (simp flip: byte_fields(1) unat_eq_zero)
  have l: "xs \<noteq> [] \<Longrightarrow> (xs @ [b]) ! (length (xs @ [b]) - 2) = last xs"
    by (simp add: nth_append last_conv_nth)
  show ?thesis
    using byte_fields(2) [of "last xs"] z l by (auto simp: minimal_def IsMinimallyEncoded_def)
qed

lemma minimal_single: "minimal [b] \<longleftrightarrow> unat b mod 128 \<noteq> 0"
  using minimal_snoc [of "[]" b] by simp

lemma minimal_Nil [simp]: "minimal []"
  by (simp add: minimal_def IsMinimallyEncoded_def)

lemma snum_serialize_cases:
  assumes "v \<noteq> 0"
  obtains xs b where "nat \<bar>v\<bar> = limbs_val xs + 256 ^ length xs * unat b" "0 < unat b"
    "128 \<le> unat b" "snum_serialize v = xs @ [b, if v < 0 then 0x80 else 0]"
  | xs b where "nat \<bar>v\<bar> = limbs_val xs + 256 ^ length xs * unat b" "0 < unat b"
    "unat b < 128" "snum_serialize v = xs @ [if v < 0 then b OR 0x80 else b]"
proof -
  have "0 < nat \<bar>v\<bar>" using assms by simp
  then obtain xs b where x: "ser_abs (nat \<bar>v\<bar>) = xs @ [b]" "0 < unat b"
    "nat \<bar>v\<bar> = limbs_val xs + 256 ^ length xs * unat b"
    by (rule ser_abs_snoc)
  show thesis
    using that x assms byte_fields(2) [of b]
    by (cases "128 \<le> unat b") (simp_all add: snum_serialize_def Let_def split: if_splits)
qed

lemma snum_val_serialize: "snum_val (snum_serialize v) = v"
proof (cases "v = 0")
  case True
  then show ?thesis by (simp add: snum_serialize_def snum_val_def snum_mag_def)
next
  case False
  then show ?thesis
  proof (cases rule: snum_serialize_cases)
    case (1 xs b)
    have "snum_mag ((xs @ [b]) @ [if v < 0 then 0x80 else 0]) = nat \<bar>v\<bar>"
      unfolding snum_mag_snoc by (simp add: limbs_val_snoc 1(1))
    then have "snum_val ((xs @ [b]) @ [if v < 0 then 0x80 else 0]) = v"
      by (simp only: snum_val_snoc) simp
    then show ?thesis using 1(4) by simp
  next
    case (2 xs b)
    let ?l = "if v < 0 then b OR 0x80 else b"
    have "snum_mag (xs @ [?l]) = nat \<bar>v\<bar>"
      unfolding snum_mag_snoc using 2(3) byte_fields(3) [of b] by (simp add: 2(1))
    then have "snum_val (xs @ [?l]) = v"
      using 2(3) byte_fields(3) [of b] by (simp add: snum_val_snoc)
    then show ?thesis using 2(4) by simp
  qed
qed

lemma minimal_serialize: "minimal (snum_serialize v)"
proof (cases "v = 0")
  case True
  then show ?thesis by (simp add: snum_serialize_def)
next
  case False
  then show ?thesis
  proof (cases rule: snum_serialize_cases)
    case (1 xs b)
    have "minimal ((xs @ [b]) @ [if v < 0 then 0x80 else 0])"
      unfolding minimal_snoc using 1(3) by simp
    then show ?thesis using 1(4) by simp
  next
    case (2 xs b)
    then show ?thesis using byte_fields(3) [of b] by (simp add: minimal_snoc)
  qed
qed


section \<open>Minimal encodings\<close>

lemma snum_mag_upper: "bs \<noteq> [] \<Longrightarrow> snum_mag bs < 128 * 256 ^ (length bs - 1)"
proof (cases bs rule: rev_cases)
  case (snoc xs b)
  have "limbs_val xs + 256 ^ length xs * (unat b mod 128) < 256 ^ length xs * (1 + unat b mod 128)"
    using limbs_val_256 [of xs] by simp
  also have "\<dots> \<le> 256 ^ length xs * 128"
    by (intro mult_le_mono2) (simp add: Suc_leI)
  finally show ?thesis using snoc by (simp add: snum_mag_snoc mult.commute)
qed simp

lemma minimal_snum_mag_lower:
  assumes "minimal bs" "bs \<noteq> []"
  shows "0 < snum_mag bs" "256 ^ (length bs - 1) \<le> 2 * snum_mag bs"
proof -
  obtain xs b where bs: "bs = xs @ [b]" using assms(2) by (metis rev_exhaust)
  have "256 ^ length xs \<le> 2 * snum_mag bs"
  proof (cases "unat b mod 128 = 0")
    case False
    then have "256 ^ length xs \<le> 256 ^ length xs * (unat b mod 128)" by simp
    then have "256 ^ length xs \<le> snum_mag bs" unfolding bs snum_mag_snoc by (rule trans_le_add2)
    then show ?thesis by simp
  next
    case True
    then have "xs \<noteq> []" "128 \<le> unat (last xs)" using assms(1) bs by (simp_all add: minimal_snoc)
    then obtain ys c where xs: "xs = ys @ [c]" "128 \<le> unat c" by (metis rev_exhaust last_snoc)
    have "256 ^ length xs = 2 * (256 ^ length ys * (128 :: nat))" using xs by simp
    also have "\<dots> \<le> 2 * limbs_val xs"
      unfolding xs(1) limbs_val_snoc
      using xs(2) by (intro mult_le_mono2 trans_le_add2 mult_le_mono) simp_all
    finally show ?thesis using bs True by (simp add: snum_mag_snoc)
  qed
  then show "256 ^ (length bs - 1) \<le> 2 * snum_mag bs" using bs by simp
  moreover have "0 < (256 :: nat) ^ (length bs - 1)" by simp
  ultimately show "0 < snum_mag bs" by (cases "snum_mag bs") simp_all
qed

lemma minimal_mag_length:
  assumes "minimal bs" "minimal cs" "snum_mag bs = snum_mag cs"
  shows "length bs \<le> length cs"
proof (rule ccontr)
  assume "\<not> length bs \<le> length cs"
  then have ne: "bs \<noteq> []" "length cs \<le> length bs - 1" by auto
  note lo = minimal_snum_mag_lower [OF assms(1) ne(1)]
  show False
  proof (cases "cs = []")
    case True
    then show False using lo(1) assms(3) by (simp add: snum_mag_def)
  next
    case False
    then obtain n where n: "length cs = Suc n" by (cases cs) simp_all
    have "(256 :: nat) ^ length cs \<le> 256 ^ (length bs - 1)" using ne(2) by (simp add: power_increasing)
    also have "\<dots> \<le> 2 * snum_mag cs" using lo(2) assms(3) by simp
    also have "\<dots> < 2 * (128 * 256 ^ n)" using snum_mag_upper [OF False] n by simp
    finally show False using n by simp
  qed
qed

lemma minimal_inj:
  assumes "minimal bs" "minimal cs" "snum_val bs = snum_val cs"
  shows "bs = cs"
proof -
  have mag: "snum_mag bs = snum_mag cs" using assms(3) by (metis abs_snum_val of_nat_eq_iff)
  then have len: "length bs = length cs"
    using minimal_mag_length assms by (metis le_antisym)
  show ?thesis
  proof (cases bs rule: rev_cases)
    case Nil
    then show ?thesis using len by simp
  next
    case (snoc xs b)
    then obtain ys c where cs: "cs = ys @ [c]" using len by (metis Nil_is_append_conv length_0_conv not_Cons_self2 rev_exhaust)
    then have l: "length xs = length ys" using len snoc by simp
    let ?B = "256 ^ length ys :: nat"
    have xy: "limbs_val xs < ?B" "limbs_val ys < ?B" using limbs_val_256 l by metis+
    have e: "limbs_val xs + ?B * (unat b mod 128) = limbs_val ys + ?B * (unat c mod 128)"
      using mag snoc cs l by (simp add: snum_mag_snoc)
    then have "limbs_val xs = limbs_val ys" using xy by (metis mod_less mod_mult_self2)
    then have 1: "xs = ys" "unat b mod 128 = unat c mod 128"
      using limbs_val_inj l e by (blast, simp)
    have "128 \<le> unat b \<longleftrightarrow> 128 \<le> unat c"
      using assms(3) mag minimal_snum_mag_lower(1) [OF assms(1)] snoc cs
      by (auto simp: snum_val_snoc split: if_splits)
    then have "unat b div 128 = unat c div 128"
      by (simp add: byte_sign)
    then have "unat b = unat c" using 1(2) by (metis div_mult_mod_eq)
    then show ?thesis using snoc cs 1 by (simp add: unsigned_word_eqI)
  qed
qed

lemma serialize_snum_val: "minimal bs \<Longrightarrow> snum_serialize (snum_val bs) = bs"
  by (simp add: minimal_inj minimal_serialize snum_val_serialize)


section \<open>Reading a number\<close>

lemma unat_or_byte:
  assumes "unat (r :: u64) < 256 ^ k" "k < 8"
  shows "unat (r OR push_bit (8 * k) (ucast (b :: u8))) = unat r + 256 ^ k * unat b"
proof -
  have b: "unat (push_bit (8 * k) (ucast b :: u64)) = 256 ^ k * unat b"
  proof -
    have "unat b * 256 ^ k < 256 * 256 ^ k" using unat_bound [of b] by simp
    also have "\<dots> = (256 :: nat) ^ Suc k" by simp
    also have "\<dots> \<le> 256 ^ 8" using assms(2) by (intro power_increasing) simp_all
    finally have "256 ^ k * unat b < 2 ^ 64" by (simp add: mult.commute)
    then have "take_bit 64 (push_bit (8 * k) (unat b)) = 256 ^ k * unat b"
      by (simp only: take_bit_eq_mod push_bit_eq_mult power_mult) (simp add: mult.commute)
    moreover have "unat (ucast b :: u64) = unat b"
      using unat_bound [of b] unfolding unsigned_ucast_eq by (simp add: take_bit_eq_mod)
    ultimately show ?thesis unfolding unsigned_push_bit_eq by simp
  qed
  have "r AND push_bit (8 * k) (ucast b) = 0"
  proof (rule bit_eqI)
    fix n
    have "take_bit (8 * k) (unat r) = unat r"
      using assms(1) by (intro take_bit_nat_eq_self) (simp add: power_mult)
    then have "bit (unat r) n \<Longrightarrow> n < 8 * k" by (metis bit_take_bit_iff)
    then have "bit r n \<Longrightarrow> n < 8 * k" by (auto simp: bit_unsigned_iff dest: bit_imp_le_length)
    then show "bit (r AND push_bit (8 * k) (ucast b)) n = bit 0 n"
      by (auto simp: bit_and_iff bit_push_bit_iff)
  qed
  then have "unat (r OR push_bit (8 * k) (ucast b)) = (unat r + 256 ^ k * unat b) mod 2 ^ 64"
    by (simp only: disjunctive_add_eq_or [symmetric] unat_word_ariths b) simp
  moreover have "unat r + 256 ^ k * unat b < 2 ^ 64"
  proof -
    have "unat r + 256 ^ k * unat b < 256 ^ k * (1 + unat b)" using assms(1) by simp
    also have "\<dots> \<le> 256 ^ k * 256" using unat_bound [of b] by (intro mult_le_mono2) simp
    also have "\<dots> = 256 ^ Suc k" by simp
    also have "\<dots> \<le> (256 :: nat) ^ 8" using assms(2) by (intro power_increasing) simp_all
    finally show ?thesis by simp
  qed
  ultimately show ?thesis by simp
qed


lemma unat_set_vch_acc:
  fixes vch :: bytes
  assumes "length vch \<le> 8" "n \<le> length vch"
  shows "unat (fold (\<lambda>i r. r OR push_bit (8 * i) (ucast (vch ! i))) [0..<n] (0 :: u64)) = limbs_val (take n vch)"
  using assms(2)
proof (induction n)
  case (Suc n)
  have "unat (fold (\<lambda>i r. r OR push_bit (8 * i) (ucast (vch ! i))) [0..<n] (0 :: u64)) < 256 ^ n"
    using Suc limbs_val_256 [of "take n vch"] by (simp add: min_absorb2)
  then show ?case using Suc assms(1) by (simp add: unat_or_byte take_Suc_conv_app_nth limbs_val_snoc min_absorb2)
qed simp

lemma sint_word_of_int:
  assumes "int64_min \<le> x" "x \<le> int64_max"
  shows "sint (word_of_int x :: u64) = x"
  using assms by (simp add: sint_sbintrunc' signed_take_bit_int_eq_self int64_min_def int64_max_def)

lemma wrap64_id: "int64_min \<le> x \<Longrightarrow> x \<le> int64_max \<Longrightarrow> wrap64 x = x"
  by (simp add: wrap64_def sint_word_of_int)

lemma sint_u64_small:
  assumes "unat (w :: u64) < 2 ^ 63"
  shows "sint w = int (unat w)" "sint (- w) = - int (unat w)"
proof -
  have "int (unat w) < int (2 ^ 63)" using assms by (simp only: of_nat_less_iff)
  then have "int (unat w) < 2 ^ 63" by simp
  then have r: "int64_min \<le> int (unat w)" "int (unat w) \<le> int64_max"
    "int64_min \<le> - int (unat w)" "- int (unat w) \<le> int64_max"
    using \<open>int (unat w) < 2 ^ 63\<close> of_nat_0_le_iff [of "unat w", where 'a=int]
    unfolding int64_min_def int64_max_def by linarith+
  have "w = word_of_int (int (unat w))" "- w = word_of_int (- int (unat w))" by simp_all
  then show "sint w = int (unat w)" "sint (- w) = - int (unat w)"
    using sint_word_of_int [OF r(1,2)] sint_word_of_int [OF r(3,4)] by metis+
qed

lemma snum_mag_63: "length bs \<le> 8 \<Longrightarrow> snum_mag bs < 2 ^ 63"
proof (cases "bs = []")
  case False
  assume "length bs \<le> 8"
  then have "128 * 256 ^ (length bs - 1) \<le> 128 * (256 :: nat) ^ 7"
    by (intro mult_le_mono2 power_increasing) simp_all
  then show ?thesis using snum_mag_upper [OF False] by simp
qed (simp add: snum_mag_def)

lemma set_vch_val:
  assumes "length vch \<le> 8"
  shows "set_vch vch = snum_val vch"
proof (cases vch rule: rev_cases)
  case Nil
  then show ?thesis by (simp add: set_vch_def snum_val_def snum_mag_def)
next
  case (snoc xs b)
  define r where "r = fold (\<lambda>i r. r OR push_bit (8 * i) (ucast (vch ! i))) [0..<length vch] (0 :: u64)"
  define m where "m = (push_bit (8 * length xs) 0x80 :: u64)"
  have r: "unat r = limbs_val xs + 256 ^ length xs * unat b"
    using unat_set_vch_acc [OF assms, of "length vch"] snoc by (simp add: r_def limbs_val_snoc)
  have len: "length xs < 8" using assms snoc by simp
  have sv: "set_vch vch = (if 128 \<le> unat b then sint (- (r AND NOT m)) else sint r)"
    using snoc byte_fields(2) [of b] by (simp add: set_vch_def r_def m_def Let_def)
  note mag = snum_mag_63 [OF assms, unfolded snoc snum_mag_snoc]
  show ?thesis
  proof (cases "128 \<le> unat b")
    case False
    then show ?thesis using sv r mag snoc by (simp add: sint_u64_small snum_val_snoc snum_mag_snoc)
  next
    case True
    have m: "unat m = 256 ^ length xs * 128"
      using unat_or_byte [of 0 "length xs" "0x80"] len by (simp add: m_def)
    have bm: "unat b = unat b mod 128 + 128"
      using True byte_sign [of b] div_mult_mod_eq [of "unat b" 128] by simp
    have "bit r (8 * length xs + 7)"
    proof -
      have "(8 * length xs + 7) div 8 = length xs" "(8 * length xs + 7) mod 8 = 7" by simp_all
      then have "bit (limbs_val (xs @ [b])) (8 * length xs + 7)"
        using True by (simp add: bit_limbs_val bit_byte_7)
      then have "bit (unat r) (8 * length xs + 7)" by (simp only: limbs_val_snoc r)
      then show ?thesis by (simp add: bit_unsigned_iff)
    qed
    moreover have "m = 2 ^ (8 * length xs + 7)" by (simp add: m_def push_bit_eq_mult power_add)
    ultimately have "bit m n \<Longrightarrow> bit r n" for n by (auto simp: bit_exp_iff)
    then have "r AND NOT m = r - m" by (simp only: disjunctive_diff)
    moreover have rm: "unat r = snum_mag vch + unat m"
    proof -
      have "256 ^ length xs * unat b = 256 ^ length xs * (unat b mod 128) + unat m"
        unfolding m by (metis bm distrib_left)
      then show ?thesis using r snoc by (simp only: snum_mag_snoc)
    qed
    ultimately have "unat (r AND NOT m) = snum_mag vch"
      by (simp add: unat_sub word_le_nat_alt)
    then show ?thesis using sv True mag snoc by (simp add: sint_u64_small snum_val_snoc snum_mag_snoc)
  qed
qed


lemma snum_val_range:
  assumes "length bs \<le> n" "0 < n"
  shows "\<bar>snum_val bs\<bar> < 2 ^ (8 * n - 1)"
proof -
  have "snum_mag bs < 2 ^ (8 * n - 1)"
  proof (cases "bs = []")
    case False
    have "128 * (256 :: nat) ^ (length bs - 1) = 2 ^ (7 + 8 * (length bs - 1))"
      by (simp add: power_add power_mult)
    also have "\<dots> \<le> 2 ^ (8 * n - 1)"
      using assms False by (intro power_increasing) (cases bs, simp_all)
    finally show ?thesis using snum_mag_upper [OF False] by linarith
  qed (simp add: snum_mag_def)
  then have "int (snum_mag bs) < int (2 ^ (8 * n - 1))" by (simp only: of_nat_less_iff)
  then show ?thesis by (simp add: abs_snum_val)
qed

lemma set_vch_serialize:
  assumes "length (snum_serialize v) \<le> 8"
  shows "set_vch (snum_serialize v) = v"
  using assms by (simp add: set_vch_val snum_val_serialize)

lemma serialize_set_vch:
  assumes "minimal bs" "length bs \<le> 8"
  shows "snum_serialize (set_vch bs) = bs"
  using assms by (simp add: set_vch_val serialize_snum_val)

lemma length_serialize_le:
  assumes "\<bar>v\<bar> < 2 ^ (8 * n - 1)" "0 < n"
  shows "length (snum_serialize v) \<le> n"
proof (rule ccontr)
  assume "\<not> length (snum_serialize v) \<le> n"
  then have l: "n \<le> length (snum_serialize v) - 1" "snum_serialize v \<noteq> []" by auto
  have "(2 :: nat) * 2 ^ (8 * n - 1) = 256 ^ n"
    using assms(2) by (simp add: power_mult flip: power_Suc)
  also have "\<dots> \<le> 256 ^ (length (snum_serialize v) - 1)" using l by (intro power_increasing) simp_all
  also have "\<dots> \<le> 2 * snum_mag (snum_serialize v)"
    using minimal_snum_mag_lower(2) [OF minimal_serialize l(2)] .
  finally have "2 ^ (8 * n - 1) \<le> snum_mag (snum_serialize v)" by simp
  then have "int (2 ^ (8 * n - 1)) \<le> int (snum_mag (snum_serialize v))" by (simp only: of_nat_le_iff)
  then show False using assms(1) abs_snum_val [of "snum_serialize v"] by (simp add: snum_val_serialize)
qed

lemma script_num_Some:
  "script_num vch fmin n = Some v \<longleftrightarrow> length vch \<le> n \<and> (fmin \<longrightarrow> minimal vch) \<and> v = set_vch vch"
  by (auto simp: script_num_def minimal_def IsMinimallyEncoded_def split: if_splits)


section \<open>Rewriting to the minimal encoding\<close>

lemma minimally_encode_loop_correct:
  assumes "i < length data" "l = 0 \<or> l = 0x80"
  shows "minimal (minimally_encode_loop i data l) \<and>
    snum_val (minimally_encode_loop i data l) =
      (if l = 0 then int (limbs_val (take i data)) else - int (limbs_val (take i data)))"
  using assms(1)
proof (induction i)
  case 0
  then show ?case by (simp add: snum_val_def snum_mag_def)
next
  case (Suc i)
  let ?x = "data ! i"
  have tk: "take (Suc i) data = take i data @ [?x]" using Suc.prems by (simp add: take_Suc_conv_app_nth)
  have t2: "take (i + 2) (data[i + 1 := l]) = take (Suc i) data @ [l]"
    using Suc.prems by (simp add: take_Suc_conv_app_nth take_update_swap list_update_append)
  have t1: "take (i + 1) (data[i := ?x OR l]) = take i data @ [?x OR l]"
    using Suc.prems by (simp add: take_Suc_conv_app_nth take_update_swap list_update_append)
  consider "?x = 0" | "?x \<noteq> 0" "128 \<le> unat ?x" | "?x \<noteq> 0" "unat ?x < 128" by linarith
  then show ?case
  proof cases
    case 1
    then show ?thesis using Suc tk by (simp add: limbs_val_snoc)
  next
    case 2
    have "minimal (take (Suc i) data @ [l])" unfolding minimal_snoc using 2 tk Suc.prems by auto
    moreover have "snum_val (take (Suc i) data @ [l]) =
        (if l = 0 then int (limbs_val (take (Suc i) data)) else - int (limbs_val (take (Suc i) data)))"
      unfolding snum_val_snoc snum_mag_snoc using assms(2) by auto
    ultimately show ?thesis using 2 t2 byte_fields(2) [of ?x] by simp
  next
    case 3
    have x: "unat (?x OR l) mod 128 = unat ?x" "128 \<le> unat (?x OR l) \<longleftrightarrow> l \<noteq> 0"
      using 3 assms(2) byte_fields(3) [of ?x] by auto
    have "unat ?x \<noteq> 0" using 3 by (simp add: unat_eq_zero)
    then have "minimal (take i data @ [?x OR l])" unfolding minimal_snoc using x by simp
    moreover have "snum_val (take i data @ [?x OR l]) =
        (if l = 0 then int (limbs_val (take (Suc i) data)) else - int (limbs_val (take (Suc i) data)))"
      unfolding snum_val_snoc snum_mag_snoc x tk limbs_val_snoc by simp
    ultimately show ?thesis using 3 t1 byte_fields(2) [of ?x] by simp
  qed
qed


lemma MinimallyEncode_minimal:
  "minimal (snd (MinimallyEncode data)) \<and> snum_val (snd (MinimallyEncode data)) = snum_val data"
proof (cases data rule: rev_cases)
  case Nil
  then show ?thesis by (simp add: MinimallyEncode_def)
next
  case (snoc xs l)
  have z: "l AND 0x7f = 0 \<longleftrightarrow> unat l mod 128 = 0" by (simp flip: byte_fields(1) unat_eq_zero)
  have nth: "xs \<noteq> [] \<Longrightarrow> data ! (length data - 2) = last xs"
    using snoc by (simp add: nth_append last_conv_nth)
  show ?thesis
  proof (cases "minimal data")
    case True
    then show ?thesis
      using snoc z nth byte_fields(2) [of "last xs"]
      by (cases "xs = []") (auto simp: MinimallyEncode_def minimal_snoc minimal_single)
  next
    case False
    then have m: "unat l mod 128 = 0" "xs = [] \<or> unat (last xs) < 128"
      using snoc by (auto simp: minimal_snoc)
    have "unat l = 0 \<or> unat l = unat (0x80 :: u8)"
      using m(1) byte_sign [of l] div_mult_mod_eq [of "unat l" 128] by (simp split: if_splits)
    then have l: "l = 0 \<or> l = 0x80" by (simp only: unat_eq_zero word_unat_eq_iff)
    have "snd (MinimallyEncode data) = minimally_encode_loop (length xs) data l"
      using snoc z m nth byte_fields(2) [of "last xs"] by (auto simp: MinimallyEncode_def)
    moreover have "snum_val data = (if l = 0 then int (limbs_val xs) else - int (limbs_val xs))"
      using snoc m l by (auto simp: snum_val_snoc snum_mag_snoc)
    ultimately show ?thesis
      using minimally_encode_loop_correct [of "length xs" data l] l snoc by simp
  qed
qed

lemma MinimallyEncode_changed:
  "fst (MinimallyEncode data) \<longleftrightarrow> \<not> minimal data"
proof (cases data rule: rev_cases)
  case (snoc xs l)
  have z: "l AND 0x7f = 0 \<longleftrightarrow> unat l mod 128 = 0" by (simp flip: byte_fields(1) unat_eq_zero)
  have nth: "xs \<noteq> [] \<Longrightarrow> data ! (length data - 2) = last xs"
    using snoc by (simp add: nth_append last_conv_nth)
  then show ?thesis
    using snoc z byte_fields(2) [of "last xs"]
    by (cases "xs = []") (auto simp: MinimallyEncode_def minimal_snoc minimal_single)
qed (simp add: MinimallyEncode_def)

section \<open>Properties\<close>

text \<open>
  Script numbers round-trip: \<^verbatim>\<open>serialize\<close> always writes a minimal encoding, the
  value of an \<^verbatim>\<open>n\<close>-byte range fits \<^verbatim>\<open>n\<close> bytes, and on at most eight
  bytes \<^verbatim>\<open>set_vch\<close> reads back the number written, while writing the number read
  from a minimal encoding gives back its bytes.
\<close>

theorem script_num_roundtrip:
  "minimal (snum_serialize v) \<and>
   (\<bar>v\<bar> < 2 ^ 63 \<longrightarrow> length (snum_serialize v) \<le> 8 \<and> set_vch (snum_serialize v) = v) \<and>
   (minimal bs \<and> length bs \<le> 8 \<longrightarrow> snum_serialize (set_vch bs) = bs)"
  using minimal_serialize [of v] length_serialize_le [of v 8] set_vch_serialize [of v] serialize_set_vch [of bs]
  by auto

theorem script_num_roundtrip_witness:
  "set_vch (snum_serialize (- 255)) = - 255 \<and> snum_serialize (set_vch [0xff, 0x80]) = [0xff, 0x80]"
proof -
  have "minimal [0xff, 0x80 :: u8]" by (simp add: minimal_def IsMinimallyEncoded_def)
  then show ?thesis using script_num_roundtrip [of "- 255" "[0xff, 0x80]"] by simp
qed

text \<open>
  \<^verbatim>\<open>MinimallyEncode\<close> returns a minimal encoding of the number its argument
  denotes, for a vector of any length, says whether it changed the vector, and two minimal
  encodings of one number are the same bytes.
\<close>

theorem MinimallyEncode_canonical:
  "minimal (snd (MinimallyEncode data)) \<and>
   snum_val (snd (MinimallyEncode data)) = snum_val data \<and>
   (fst (MinimallyEncode data) \<longleftrightarrow> \<not> minimal data) \<and>
   snd (MinimallyEncode data) = snum_serialize (snum_val data)"
proof -
  have "snd (MinimallyEncode data) = snum_serialize (snum_val (snd (MinimallyEncode data)))"
    using MinimallyEncode_minimal [of data] by (metis serialize_snum_val)
  then show ?thesis
    using MinimallyEncode_minimal [of data] MinimallyEncode_changed [of data] by simp
qed

end
