(* ===== verification/Script.thy ===== *)
theory Script
  imports Script_Num "HOL-Library.Monad_Syntax"
begin

unbundle bit_operations_syntax

text \<open>
  Scripts (\<^verbatim>\<open>class CScript\<close> of \<^verbatim>\<open>script/script.h\<close> and
  \<^verbatim>\<open>script/script.cpp\<close>): the opcode table, the push operators that build a script,
  the decoder \<^verbatim>\<open>GetScriptOp\<close> that reads it back, and the predicates that classify a
  script without running it.  A script is its byte list; an iterator into a script is the suffix
  that is left to read, so an iterator at the end is the empty list.  The lemmas show that the
  decoder always advances, that it reads back what the push operators write, and what the
  predicates say about the decoded operations.
\<close>


section \<open>Limits and opcodes\<close>

type_synonym script = bytes

abbreviation (input) MAX_SCRIPT_ELEMENT_SIZE :: nat where "MAX_SCRIPT_ELEMENT_SIZE \<equiv> 520"
abbreviation (input) MAX_OPS_PER_SCRIPT :: nat where "MAX_OPS_PER_SCRIPT \<equiv> 201"
abbreviation (input) MAX_PUBKEYS_PER_MULTISIG :: nat where "MAX_PUBKEYS_PER_MULTISIG \<equiv> 20"
abbreviation (input) MAX_SCRIPT_SIZE :: nat where "MAX_SCRIPT_SIZE \<equiv> 10000"
abbreviation (input) MAX_STACK_SIZE :: nat where "MAX_STACK_SIZE \<equiv> 1000"
abbreviation (input) LOCKTIME_THRESHOLD :: nat where "LOCKTIME_THRESHOLD \<equiv> 500000000"

text \<open>The opcodes are numbers; the constants of the enumeration follow as abbreviations.\<close>

type_synonym opcodetype = nat

text \<open>Push value.\<close>

abbreviation (input) OP_0 :: nat where "OP_0 \<equiv> 0x00"
abbreviation (input) OP_FALSE :: nat where "OP_FALSE \<equiv> OP_0"
abbreviation (input) OP_PUSHDATA1 :: nat where "OP_PUSHDATA1 \<equiv> 0x4c"
abbreviation (input) OP_PUSHDATA2 :: nat where "OP_PUSHDATA2 \<equiv> 0x4d"
abbreviation (input) OP_PUSHDATA4 :: nat where "OP_PUSHDATA4 \<equiv> 0x4e"
abbreviation (input) OP_1NEGATE :: nat where "OP_1NEGATE \<equiv> 0x4f"
abbreviation (input) OP_RESERVED :: nat where "OP_RESERVED \<equiv> 0x50"
abbreviation (input) OP_1 :: nat where "OP_1 \<equiv> 0x51"
abbreviation (input) OP_TRUE :: nat where "OP_TRUE \<equiv> OP_1"
abbreviation (input) OP_2 :: nat where "OP_2 \<equiv> 0x52"
abbreviation (input) OP_3 :: nat where "OP_3 \<equiv> 0x53"
abbreviation (input) OP_4 :: nat where "OP_4 \<equiv> 0x54"
abbreviation (input) OP_5 :: nat where "OP_5 \<equiv> 0x55"
abbreviation (input) OP_6 :: nat where "OP_6 \<equiv> 0x56"
abbreviation (input) OP_7 :: nat where "OP_7 \<equiv> 0x57"
abbreviation (input) OP_8 :: nat where "OP_8 \<equiv> 0x58"
abbreviation (input) OP_9 :: nat where "OP_9 \<equiv> 0x59"
abbreviation (input) OP_10 :: nat where "OP_10 \<equiv> 0x5a"
abbreviation (input) OP_11 :: nat where "OP_11 \<equiv> 0x5b"
abbreviation (input) OP_12 :: nat where "OP_12 \<equiv> 0x5c"
abbreviation (input) OP_13 :: nat where "OP_13 \<equiv> 0x5d"
abbreviation (input) OP_14 :: nat where "OP_14 \<equiv> 0x5e"
abbreviation (input) OP_15 :: nat where "OP_15 \<equiv> 0x5f"
abbreviation (input) OP_16 :: nat where "OP_16 \<equiv> 0x60"

text \<open>Control.\<close>

abbreviation (input) OP_NOP :: nat where "OP_NOP \<equiv> 0x61"
abbreviation (input) OP_VER :: nat where "OP_VER \<equiv> 0x62"
abbreviation (input) OP_IF :: nat where "OP_IF \<equiv> 0x63"
abbreviation (input) OP_NOTIF :: nat where "OP_NOTIF \<equiv> 0x64"
abbreviation (input) OP_VERIF :: nat where "OP_VERIF \<equiv> 0x65"
abbreviation (input) OP_VERNOTIF :: nat where "OP_VERNOTIF \<equiv> 0x66"
abbreviation (input) OP_ELSE :: nat where "OP_ELSE \<equiv> 0x67"
abbreviation (input) OP_ENDIF :: nat where "OP_ENDIF \<equiv> 0x68"
abbreviation (input) OP_VERIFY :: nat where "OP_VERIFY \<equiv> 0x69"
abbreviation (input) OP_RETURN :: nat where "OP_RETURN \<equiv> 0x6a"

text \<open>Stack ops.\<close>

abbreviation (input) OP_TOALTSTACK :: nat where "OP_TOALTSTACK \<equiv> 0x6b"
abbreviation (input) OP_FROMALTSTACK :: nat where "OP_FROMALTSTACK \<equiv> 0x6c"
abbreviation (input) OP_2DROP :: nat where "OP_2DROP \<equiv> 0x6d"
abbreviation (input) OP_2DUP :: nat where "OP_2DUP \<equiv> 0x6e"
abbreviation (input) OP_3DUP :: nat where "OP_3DUP \<equiv> 0x6f"
abbreviation (input) OP_2OVER :: nat where "OP_2OVER \<equiv> 0x70"
abbreviation (input) OP_2ROT :: nat where "OP_2ROT \<equiv> 0x71"
abbreviation (input) OP_2SWAP :: nat where "OP_2SWAP \<equiv> 0x72"
abbreviation (input) OP_IFDUP :: nat where "OP_IFDUP \<equiv> 0x73"
abbreviation (input) OP_DEPTH :: nat where "OP_DEPTH \<equiv> 0x74"
abbreviation (input) OP_DROP :: nat where "OP_DROP \<equiv> 0x75"
abbreviation (input) OP_DUP :: nat where "OP_DUP \<equiv> 0x76"
abbreviation (input) OP_NIP :: nat where "OP_NIP \<equiv> 0x77"
abbreviation (input) OP_OVER :: nat where "OP_OVER \<equiv> 0x78"
abbreviation (input) OP_PICK :: nat where "OP_PICK \<equiv> 0x79"
abbreviation (input) OP_ROLL :: nat where "OP_ROLL \<equiv> 0x7a"
abbreviation (input) OP_ROT :: nat where "OP_ROT \<equiv> 0x7b"
abbreviation (input) OP_SWAP :: nat where "OP_SWAP \<equiv> 0x7c"
abbreviation (input) OP_TUCK :: nat where "OP_TUCK \<equiv> 0x7d"

text \<open>Splice ops.\<close>

abbreviation (input) OP_CAT :: nat where "OP_CAT \<equiv> 0x7e"
abbreviation (input) OP_SPLIT :: nat where "OP_SPLIT \<equiv> 0x7f"
abbreviation (input) OP_SIZE :: nat where "OP_SIZE \<equiv> 0x82"

text \<open>Conversion ops.\<close>

abbreviation (input) OP_NUM2BIN :: nat where "OP_NUM2BIN \<equiv> 0x80"
abbreviation (input) OP_BIN2NUM :: nat where "OP_BIN2NUM \<equiv> 0x81"

text \<open>Bit logic.\<close>

abbreviation (input) OP_INVERT :: nat where "OP_INVERT \<equiv> 0x83"
abbreviation (input) OP_AND :: nat where "OP_AND \<equiv> 0x84"
abbreviation (input) OP_OR :: nat where "OP_OR \<equiv> 0x85"
abbreviation (input) OP_XOR :: nat where "OP_XOR \<equiv> 0x86"
abbreviation (input) OP_EQUAL :: nat where "OP_EQUAL \<equiv> 0x87"
abbreviation (input) OP_EQUALVERIFY :: nat where "OP_EQUALVERIFY \<equiv> 0x88"
abbreviation (input) OP_RESERVED1 :: nat where "OP_RESERVED1 \<equiv> 0x89"
abbreviation (input) OP_RESERVED2 :: nat where "OP_RESERVED2 \<equiv> 0x8a"

text \<open>Numeric.\<close>

abbreviation (input) OP_1ADD :: nat where "OP_1ADD \<equiv> 0x8b"
abbreviation (input) OP_1SUB :: nat where "OP_1SUB \<equiv> 0x8c"
abbreviation (input) OP_2MUL :: nat where "OP_2MUL \<equiv> 0x8d"
abbreviation (input) OP_2DIV :: nat where "OP_2DIV \<equiv> 0x8e"
abbreviation (input) OP_NEGATE :: nat where "OP_NEGATE \<equiv> 0x8f"
abbreviation (input) OP_ABS :: nat where "OP_ABS \<equiv> 0x90"
abbreviation (input) OP_NOT :: nat where "OP_NOT \<equiv> 0x91"
abbreviation (input) OP_0NOTEQUAL :: nat where "OP_0NOTEQUAL \<equiv> 0x92"
abbreviation (input) OP_ADD :: nat where "OP_ADD \<equiv> 0x93"
abbreviation (input) OP_SUB :: nat where "OP_SUB \<equiv> 0x94"
abbreviation (input) OP_MUL :: nat where "OP_MUL \<equiv> 0x95"
abbreviation (input) OP_DIV :: nat where "OP_DIV \<equiv> 0x96"
abbreviation (input) OP_MOD :: nat where "OP_MOD \<equiv> 0x97"
abbreviation (input) OP_LSHIFT :: nat where "OP_LSHIFT \<equiv> 0x98"
abbreviation (input) OP_RSHIFT :: nat where "OP_RSHIFT \<equiv> 0x99"
abbreviation (input) OP_BOOLAND :: nat where "OP_BOOLAND \<equiv> 0x9a"
abbreviation (input) OP_BOOLOR :: nat where "OP_BOOLOR \<equiv> 0x9b"
abbreviation (input) OP_NUMEQUAL :: nat where "OP_NUMEQUAL \<equiv> 0x9c"
abbreviation (input) OP_NUMEQUALVERIFY :: nat where "OP_NUMEQUALVERIFY \<equiv> 0x9d"
abbreviation (input) OP_NUMNOTEQUAL :: nat where "OP_NUMNOTEQUAL \<equiv> 0x9e"
abbreviation (input) OP_LESSTHAN :: nat where "OP_LESSTHAN \<equiv> 0x9f"
abbreviation (input) OP_GREATERTHAN :: nat where "OP_GREATERTHAN \<equiv> 0xa0"
abbreviation (input) OP_LESSTHANOREQUAL :: nat where "OP_LESSTHANOREQUAL \<equiv> 0xa1"
abbreviation (input) OP_GREATERTHANOREQUAL :: nat where "OP_GREATERTHANOREQUAL \<equiv> 0xa2"
abbreviation (input) OP_MIN :: nat where "OP_MIN \<equiv> 0xa3"
abbreviation (input) OP_MAX :: nat where "OP_MAX \<equiv> 0xa4"
abbreviation (input) OP_WITHIN :: nat where "OP_WITHIN \<equiv> 0xa5"

text \<open>Crypto.\<close>

abbreviation (input) OP_RIPEMD160 :: nat where "OP_RIPEMD160 \<equiv> 0xa6"
abbreviation (input) OP_SHA1 :: nat where "OP_SHA1 \<equiv> 0xa7"
abbreviation (input) OP_SHA256 :: nat where "OP_SHA256 \<equiv> 0xa8"
abbreviation (input) OP_HASH160 :: nat where "OP_HASH160 \<equiv> 0xa9"
abbreviation (input) OP_HASH256 :: nat where "OP_HASH256 \<equiv> 0xaa"
abbreviation (input) OP_CODESEPARATOR :: nat where "OP_CODESEPARATOR \<equiv> 0xab"
abbreviation (input) OP_CHECKSIG :: nat where "OP_CHECKSIG \<equiv> 0xac"
abbreviation (input) OP_CHECKSIGVERIFY :: nat where "OP_CHECKSIGVERIFY \<equiv> 0xad"
abbreviation (input) OP_CHECKMULTISIG :: nat where "OP_CHECKMULTISIG \<equiv> 0xae"
abbreviation (input) OP_CHECKMULTISIGVERIFY :: nat where "OP_CHECKMULTISIGVERIFY \<equiv> 0xaf"

text \<open>Expansion.\<close>

abbreviation (input) OP_NOP1 :: nat where "OP_NOP1 \<equiv> 0xb0"
abbreviation (input) OP_CHECKLOCKTIMEVERIFY :: nat where "OP_CHECKLOCKTIMEVERIFY \<equiv> 0xb1"
abbreviation (input) OP_NOP2 :: nat where "OP_NOP2 \<equiv> OP_CHECKLOCKTIMEVERIFY"
abbreviation (input) OP_CHECKSEQUENCEVERIFY :: nat where "OP_CHECKSEQUENCEVERIFY \<equiv> 0xb2"
abbreviation (input) OP_NOP3 :: nat where "OP_NOP3 \<equiv> OP_CHECKSEQUENCEVERIFY"
abbreviation (input) OP_NOP4 :: nat where "OP_NOP4 \<equiv> 0xb3"
abbreviation (input) OP_NOP5 :: nat where "OP_NOP5 \<equiv> 0xb4"
abbreviation (input) OP_NOP6 :: nat where "OP_NOP6 \<equiv> 0xb5"
abbreviation (input) OP_NOP7 :: nat where "OP_NOP7 \<equiv> 0xb6"
abbreviation (input) OP_NOP8 :: nat where "OP_NOP8 \<equiv> 0xb7"
abbreviation (input) OP_NOP9 :: nat where "OP_NOP9 \<equiv> 0xb8"
abbreviation (input) OP_NOP10 :: nat where "OP_NOP10 \<equiv> 0xb9"

text \<open>More crypto.\<close>

abbreviation (input) OP_CHECKDATASIG :: nat where "OP_CHECKDATASIG \<equiv> 0xba"
abbreviation (input) OP_CHECKDATASIGVERIFY :: nat where "OP_CHECKDATASIGVERIFY \<equiv> 0xbb"
abbreviation (input) OP_INVALIDOPCODE :: nat where "OP_INVALIDOPCODE \<equiv> 0xff"


section \<open>Building a script\<close>

definition push_data :: "bytes \<Rightarrow> bytes" where
  "push_data b =
     (if length b < OP_PUSHDATA1 then [word_of_nat (length b)]
      else if length b \<le> 0xff then [word_of_nat OP_PUSHDATA1, word_of_nat (length b)]
      else if length b \<le> 0xffff then word_of_nat OP_PUSHDATA2 # WriteLE16 (word_of_nat (length b))
      else word_of_nat OP_PUSHDATA4 # WriteLE32 (word_of_nat (length b))) @ b"

definition script_push :: "script \<Rightarrow> bytes \<Rightarrow> script" where
  "script_push s b = s @ push_data b"

text \<open>\<open>None\<close> is the \<^verbatim>\<open>runtime_error\<close> of an opcode outside the byte range.\<close>

definition script_op :: "script \<Rightarrow> int \<Rightarrow> script option" where
  "script_op s opcode = (if opcode < 0 \<or> opcode > 0xff then None else Some (s @ [word_of_int opcode]))"

definition push_int64 :: "script \<Rightarrow> int \<Rightarrow> script" where
  "push_int64 s n =
     (if n = - 1 \<or> n \<ge> 1 \<and> n \<le> 16 then s @ [word_of_int (n + (int OP_1 - 1))]
      else if n = 0 then s @ [word_of_nat OP_0]
      else script_push s (snum_serialize n))"


section \<open>Reading a script\<close>

text \<open>
  The result pairs the advanced iterator with the opcode and its operand, or with \<open>None\<close> when
  \<^verbatim>\<open>GetScriptOp\<close> returns false; the iterator has moved past the bytes read so far in
  that case too.
\<close>

definition read_operand :: "nat \<Rightarrow> nat \<Rightarrow> bytes \<Rightarrow> bytes \<times> (nat \<times> bytes) option" where
  "read_operand opcode nSize pc =
     (if length pc < nSize then (pc, None) else (drop nSize pc, Some (opcode, take nSize pc)))"

definition GetScriptOp :: "bytes \<Rightarrow> bytes \<times> (nat \<times> bytes) option" where
  "GetScriptOp pc =
     (case pc of [] \<Rightarrow> ([], None)
      | c # pc \<Rightarrow>
        let opcode = unat c
        in if opcode \<le> OP_PUSHDATA4
           then if opcode < OP_PUSHDATA1 then read_operand opcode opcode pc
                else if opcode = OP_PUSHDATA1
                then if length pc < 1 then (pc, None)
                     else read_operand opcode (unat (hd pc)) (drop 1 pc)
                else if opcode = OP_PUSHDATA2
                then if length pc < 2 then (pc, None)
                     else read_operand opcode (unat (ReadLE16 pc)) (drop 2 pc)
                else if length pc < 4 then (pc, None)
                     else read_operand opcode (unat (ReadLE32 pc)) (drop 4 pc)
           else (pc, Some (opcode, [])))"

text \<open>\<open>None\<close> is a failed assertion.\<close>

definition DecodeOP_N :: "nat \<Rightarrow> nat option" where
  "DecodeOP_N opcode =
     (if opcode = OP_0 then Some 0
      else if opcode \<ge> OP_1 \<and> opcode \<le> OP_16 then Some (opcode - (OP_1 - 1)) else None)"

definition EncodeOP_N :: "nat \<Rightarrow> nat option" where
  "EncodeOP_N n =
     (if n \<le> 16 then if n = 0 then Some OP_0 else Some (OP_1 + n - 1) else None)"

lemma read_operand_suffix:
  assumes "read_operand opcode n pc = (rest, r)"
  shows "\<exists>xs. pc = xs @ rest" and "r = Some (opc, data) \<Longrightarrow> opc = opcode \<and> pc = data @ rest \<and> length data = n"
  using assms by (auto simp: read_operand_def split: if_splits) (metis append_take_drop_id)

lemma GetScriptOp_Nil [simp]: "GetScriptOp [] = ([], None)"
  by (simp add: GetScriptOp_def)

lemma GetScriptOp_advances:
  assumes "GetScriptOp pc = (rest, r)" "pc \<noteq> []"
  shows "length rest < length pc"
  using assms by (auto simp: GetScriptOp_def read_operand_def Let_def split: list.splits if_splits)

section \<open>Walking over a script\<close>

function (sequential) IsPushOnly :: "bytes \<Rightarrow> bool" where
  "IsPushOnly [] = True"
| "IsPushOnly pc =
     (case GetScriptOp pc of
        (pc', None) \<Rightarrow> False
      | (pc', Some (opcode, _)) \<Rightarrow> if opcode > OP_16 then False else IsPushOnly pc')"
  by pat_completeness auto
termination
  by (relation "measure length") (auto dest!: GetScriptOp_advances [OF sym])

text \<open>
  The counter is the source's \<^verbatim>\<open>unsigned int\<close>; \<open>GetSigOpCount_bound\<close> below shows that it
  stays below twenty times the size of the script.  \<open>None\<close> would be the assertion of
  \<^verbatim>\<open>DecodeOP_N\<close> failing.
\<close>

function (sequential) sig_op_loop :: "bool \<Rightarrow> bytes \<Rightarrow> nat \<Rightarrow> nat \<Rightarrow> nat option" where
  "sig_op_loop fAccurate [] n lastOpcode = Some n"
| "sig_op_loop fAccurate pc n lastOpcode =
     (case GetScriptOp pc of
        (pc', None) \<Rightarrow> Some n
      | (pc', Some (opcode, _)) \<Rightarrow>
          if opcode = OP_CHECKSIG \<or> opcode = OP_CHECKSIGVERIFY
          then sig_op_loop fAccurate pc' (n + 1) opcode
          else if opcode = OP_CHECKMULTISIG \<or> opcode = OP_CHECKMULTISIGVERIFY
          then if fAccurate \<and> lastOpcode \<ge> OP_1 \<and> lastOpcode \<le> OP_16
               then do { k \<leftarrow> DecodeOP_N lastOpcode; sig_op_loop fAccurate pc' (n + k) opcode }
               else sig_op_loop fAccurate pc' (n + MAX_PUBKEYS_PER_MULTISIG) opcode
          else sig_op_loop fAccurate pc' n opcode)"
  by pat_completeness auto
termination
  by (relation "measure (\<lambda>(_, pc, _). length pc)") (auto dest!: GetScriptOp_advances [OF sym])

definition GetSigOpCount :: "bool \<Rightarrow> script \<Rightarrow> nat option" where
  "GetSigOpCount fAccurate s = sig_op_loop fAccurate s 0 OP_INVALIDOPCODE"

definition IsPayToPublicKeyHash :: "script \<Rightarrow> bool" where
  "IsPayToPublicKeyHash s \<longleftrightarrow>
     length s = 25 \<and> s ! 0 = word_of_nat OP_DUP \<and> s ! 1 = word_of_nat OP_HASH160 \<and> s ! 2 = 0x14 \<and>
     s ! 23 = word_of_nat OP_EQUALVERIFY \<and> s ! 24 = word_of_nat OP_CHECKSIG"

definition IsPayToScriptHash :: "script \<Rightarrow> bool" where
  "IsPayToScriptHash s \<longleftrightarrow>
     length s = 23 \<and> s ! 0 = word_of_nat OP_HASH160 \<and> s ! 1 = 0x14 \<and> s ! 22 = word_of_nat OP_EQUAL"

definition IsPayToPublicKey :: "script \<Rightarrow> bool" where
  "IsPayToPublicKey s =
     (if length s = 35 then (s ! 1 = 0x02 \<or> s ! 1 = 0x03) \<and> s ! 34 = word_of_nat OP_CHECKSIG
      else if length s = 67 then s ! 1 = 0x04 \<and> s ! 66 = word_of_nat OP_CHECKSIG
      else False)"

definition IsUnspendable :: "script \<Rightarrow> bool" where
  "IsUnspendable s \<longleftrightarrow> length s > 0 \<and> hd s = word_of_nat OP_RETURN \<or> length s > MAX_SCRIPT_SIZE"

text \<open>
  The last item pushed by a signature script; \<open>None\<close> is the early \<^verbatim>\<open>return 0\<close>.
\<close>

function (sequential) last_push :: "bytes \<Rightarrow> bytes \<Rightarrow> bytes option" where
  "last_push [] vData = Some vData"
| "last_push pc vData =
     (case GetScriptOp pc of
        (pc', None) \<Rightarrow> None
      | (pc', Some (opcode, vData')) \<Rightarrow> if opcode > OP_16 then None else last_push pc' vData')"
  by pat_completeness auto
termination
  by (relation "measure (\<lambda>(pc, _). length pc)") (auto dest!: GetScriptOp_advances [OF sym])

definition GetSigOpCount_p2sh :: "script \<Rightarrow> script \<Rightarrow> nat option" where
  "GetSigOpCount_p2sh scriptPubKey scriptSig =
     (if \<not> IsPayToScriptHash scriptPubKey then GetSigOpCount True scriptPubKey
      else case last_push scriptSig [] of
        None \<Rightarrow> Some 0
      | Some subscript \<Rightarrow> GetSigOpCount True subscript)"


section \<open>The decoded operations\<close>

text \<open>Specification: the operations a script decodes to, and whether it decodes to its end.\<close>

function (sequential) script_ops :: "bytes \<Rightarrow> (nat \<times> bytes) list \<times> bool" where
  "script_ops [] = ([], True)"
| "script_ops pc =
     (case GetScriptOp pc of
        (pc', None) \<Rightarrow> ([], False)
      | (pc', Some op) \<Rightarrow> let (ops, ok) = script_ops pc' in (op # ops, ok))"
  by pat_completeness auto
termination
  by (relation "measure length") (auto dest!: GetScriptOp_advances [OF sym])

definition sigop_weight :: "bool \<Rightarrow> nat \<Rightarrow> nat \<Rightarrow> nat" where
  "sigop_weight fAccurate prev opcode =
     (if opcode \<in> {OP_CHECKSIG, OP_CHECKSIGVERIFY} then 1
      else if opcode \<in> {OP_CHECKMULTISIG, OP_CHECKMULTISIGVERIFY}
      then if fAccurate \<and> prev \<in> {OP_1..OP_16} then prev - OP_RESERVED else 20
      else 0)"

lemma IsPushOnly_ops:
  "IsPushOnly s \<longleftrightarrow> snd (script_ops s) \<and> (\<forall>(opcode, _) \<in> set (fst (script_ops s)). opcode \<le> OP_16)"
  by (induction s rule: IsPushOnly.induct) (auto split: prod.splits option.splits if_splits)

lemma last_push_ops:
  "last_push s v = (if IsPushOnly s then Some (last (v # map snd (fst (script_ops s)))) else None)"
  by (induction s v rule: last_push.induct) (auto split: prod.splits option.splits if_splits)

lemma sig_op_loop_step:
  assumes "GetScriptOp (c # cs) = (rest, Some (opcode, data))"
  shows "sig_op_loop acc (c # cs) n prev = sig_op_loop acc rest (n + sigop_weight acc prev opcode) opcode"
  using assms by (auto simp: sigop_weight_def DecodeOP_N_def)

lemma sig_op_loop_ops:
  "sig_op_loop acc s n prev =
     Some (n + sum_list (map2 (sigop_weight acc) (prev # map fst (fst (script_ops s))) (map fst (fst (script_ops s)))))"
proof (induction s arbitrary: n prev rule: script_ops.induct)
  case (2 c cs)
  show ?case
  proof (cases "GetScriptOp (c # cs)")
    case (Pair rest r)
    show ?thesis
    proof (cases r)
      case None
      then show ?thesis using Pair by simp
    next
      case (Some op)
      obtain opcode data where op: "op = (opcode, data)" by (cases op)
      show ?thesis
        unfolding sig_op_loop_step [OF Pair [unfolded Some op]] "2.IH" [OF Pair [symmetric] Some]
        using Pair Some op by (simp split: prod.splits)
    qed
  qed
qed simp

lemma length_script_ops: "length (fst (script_ops s)) \<le> length s"
proof (induction s rule: script_ops.induct)
  case (2 c cs)
  show ?case
  proof (cases "GetScriptOp (c # cs)")
    case (Pair rest r)
    then have "length rest \<le> length cs" using GetScriptOp_advances [OF Pair] by simp
    then show ?thesis using 2 Pair by (cases r) (force split: prod.splits)+
  qed
qed simp

lemma GetSigOpCount_ops:
  "GetSigOpCount acc s =
     (let opcodes = map fst (fst (script_ops s))
      in Some (sum_list (map2 (sigop_weight acc) (OP_INVALIDOPCODE # opcodes) opcodes)))"
  by (simp add: GetSigOpCount_def sig_op_loop_ops Let_def)

lemma sigop_weight_le: "sigop_weight acc prev opcode \<le> 20"
  by (auto simp: sigop_weight_def)

lemma sum_list_le_bound: "(\<And>x. x \<in> set xs \<Longrightarrow> x \<le> (k :: nat)) \<Longrightarrow> sum_list xs \<le> length xs * k"
  by (induction xs) (auto simp: add_mono)

lemma GetSigOpCount_bound: "\<exists>n. GetSigOpCount acc s = Some n \<and> n \<le> 20 * length s"
proof -
  let ?ops = "map fst (fst (script_ops s))"
  have "sum_list (map2 (sigop_weight acc) (OP_INVALIDOPCODE # ?ops) ?ops)
      \<le> length (map2 (sigop_weight acc) (OP_INVALIDOPCODE # ?ops) ?ops) * 20"
    by (rule sum_list_le_bound) (auto simp: sigop_weight_le)
  also have "\<dots> \<le> length s * 20" using length_script_ops [of s] by simp
  finally show ?thesis by (simp add: GetSigOpCount_ops Let_def)
qed

definition push_opcode :: "bytes \<Rightarrow> nat" where
  "push_opcode b = (if length b < OP_PUSHDATA1 then length b else if length b \<le> 0xff then OP_PUSHDATA1
     else if length b \<le> 0xffff then OP_PUSHDATA2 else OP_PUSHDATA4)"

lemma GetScriptOp_push_data:
  assumes "length b < 2 ^ 32"
  shows "GetScriptOp (push_data b @ rest) = (rest, Some (push_opcode b, b))"
  using assms
  by (simp add: GetScriptOp_def push_data_def push_opcode_def read_operand_def unat_of_nat Let_def)

lemma script_ops_push_data:
  assumes "length b < 2 ^ 32"
  shows "script_ops (push_data b @ rest) =
    ((push_opcode b, b) # fst (script_ops rest), snd (script_ops rest))"
proof -
  have "push_data b @ rest \<noteq> []" by (simp add: push_data_def)
  then obtain c cs where c: "push_data b @ rest = c # cs" by (cases "push_data b @ rest") auto
  show ?thesis using GetScriptOp_push_data [OF assms, of rest] unfolding c by (simp split: prod.splits)
qed

section \<open>Templates\<close>

definition p2pkh_script :: "bytes \<Rightarrow> script" where
  "p2pkh_script h = [word_of_nat OP_DUP, word_of_nat OP_HASH160] @ push_data h @
     [word_of_nat OP_EQUALVERIFY, word_of_nat OP_CHECKSIG]"

definition p2sh_script :: "bytes \<Rightarrow> script" where
  "p2sh_script h = [word_of_nat OP_HASH160] @ push_data h @ [word_of_nat OP_EQUAL]"

definition p2pk_script :: "bytes \<Rightarrow> script" where
  "p2pk_script k = push_data k @ [word_of_nat OP_CHECKSIG]"

lemma list_split3:
  assumes "length s = i + n + j"
  obtains a h b where "s = a @ h @ b" "length a = i" "length h = n" "length b = j"
proof
  show "s = take i s @ take n (drop i s) @ drop (i + n) s"
    by (metis append_take_drop_id drop_drop add.commute)
qed (use assms in auto)

lemma IsPayToScriptHash_template: "IsPayToScriptHash s \<longleftrightarrow> (\<exists>h. length h = 20 \<and> s = p2sh_script h)"
proof
  assume p: "IsPayToScriptHash s"
  then have "length s = 2 + 20 + 1" by (simp add: IsPayToScriptHash_def)
  then obtain a h b where s: "s = a @ h @ b" "length a = 2" "length h = 20" "length b = 1"
    by (rule list_split3)
  then have "s = p2sh_script h"
    using p by (auto simp: IsPayToScriptHash_def p2sh_script_def push_data_def nth_append
        numeral_2_eq_2 length_Suc_conv)
  then show "\<exists>h. length h = 20 \<and> s = p2sh_script h" using s(3) by blast
next
  assume "\<exists>h. length h = 20 \<and> s = p2sh_script h"
  then show "IsPayToScriptHash s"
    by (auto simp: IsPayToScriptHash_def p2sh_script_def push_data_def nth_append nth_Cons')
qed

lemma IsPayToPublicKeyHash_template: "IsPayToPublicKeyHash s \<longleftrightarrow> (\<exists>h. length h = 20 \<and> s = p2pkh_script h)"
proof
  assume p: "IsPayToPublicKeyHash s"
  then have "length s = 3 + 20 + 2" by (simp add: IsPayToPublicKeyHash_def)
  then obtain a h b where s: "s = a @ h @ b" "length a = 3" "length h = 20" "length b = 2"
    by (rule list_split3)
  then have "s = p2pkh_script h"
    using p by (auto simp: IsPayToPublicKeyHash_def p2pkh_script_def push_data_def nth_append
        numeral_2_eq_2 numeral_3_eq_3 length_Suc_conv)
  then show "\<exists>h. length h = 20 \<and> s = p2pkh_script h" using s(3) by blast
next
  assume "\<exists>h. length h = 20 \<and> s = p2pkh_script h"
  then show "IsPayToPublicKeyHash s"
    by (auto simp: IsPayToPublicKeyHash_def p2pkh_script_def push_data_def nth_append nth_Cons')
qed

lemma IsPayToPublicKey_template:
  assumes "length k = 33 \<and> hd k \<in> {2, 3} \<or> length k = 65 \<and> hd k = 4"
  shows "IsPayToPublicKey (p2pk_script k)"
proof -
  have "k \<noteq> []" using assms by auto
  then have "push_data k = word_of_nat (length k) # k" "k ! 0 = hd k"
    using assms by (auto simp: push_data_def hd_conv_nth)
  then show ?thesis using assms by (auto simp: IsPayToPublicKey_def p2pk_script_def nth_append)
qed

lemma DecodeOP_N_EncodeOP_N: "n \<le> 16 \<Longrightarrow> \<exists>opcode. EncodeOP_N n = Some opcode \<and> DecodeOP_N opcode = Some n"
  by (auto simp: EncodeOP_N_def DecodeOP_N_def)


section \<open>Properties\<close>

text \<open>
  A script written by \<^verbatim>\<open>operator<<\<close> decodes, from its first byte to its last, to
  exactly the byte vectors that were pushed, in order, and it is push-only.
\<close>

theorem pushes_decode:
  assumes "\<forall>b \<in> set bs. length b < 2 ^ 32"
  shows "script_ops (foldl script_push [] bs) = (map (\<lambda>b. (push_opcode b, b)) bs, True) \<and>
    IsPushOnly (foldl script_push [] bs)"
proof -
  have "foldl script_push s bs = s @ concat (map push_data bs)" for s
    by (induction bs arbitrary: s) (simp_all add: script_push_def)
  moreover have "script_ops (concat (map push_data bs)) = (map (\<lambda>b. (push_opcode b, b)) bs, True)"
    using assms by (induction bs) (simp_all add: script_ops_push_data)
  ultimately show ?thesis
    by (auto simp: IsPushOnly_ops push_opcode_def)
qed

theorem pushes_decode_witness:
  "script_ops (foldl script_push [] [[1, 2, 3], replicate 80 7]) = ([(3, [1, 2, 3]), (OP_PUSHDATA1, replicate 80 7)], True)"
  using pushes_decode [of "[[1, 2, 3], replicate 80 7]"] by (simp add: push_opcode_def)

text \<open>
  The byte-offset tests \<^verbatim>\<open>IsPayToScriptHash\<close> and
  \<^verbatim>\<open>IsPayToPublicKeyHash\<close> accept exactly the scripts that the push operators build
  from the two templates around a 20-byte hash.
\<close>

theorem templates_exact:
  "(IsPayToScriptHash s \<longleftrightarrow> (\<exists>h. length h = 20 \<and> s = p2sh_script h)) \<and>
   (IsPayToPublicKeyHash s \<longleftrightarrow> (\<exists>h. length h = 20 \<and> s = p2pkh_script h))"
  using IsPayToScriptHash_template IsPayToPublicKeyHash_template by blast

text \<open>
  \<^verbatim>\<open>IsPayToPublicKey\<close> accepts every pay-to-pubkey script, but it never looks at the
  first byte: it also accepts a script whose first opcode is \<^verbatim>\<open>OP_RETURN\<close> and that is
  therefore unspendable and no pay-to-pubkey script at all.
\<close>

theorem IsPayToPublicKey_too_weak:
  "(\<forall>k. length k = 33 \<and> hd k \<in> {2, 3} \<or> length k = 65 \<and> hd k = 4 \<longrightarrow> IsPayToPublicKey (p2pk_script k)) \<and>
   (\<exists>s. IsPayToPublicKey s \<and> IsUnspendable s \<and> (\<forall>k. length k < 76 \<longrightarrow> s \<noteq> p2pk_script k))"
proof -
  let ?s = "[word_of_nat OP_RETURN, 2] @ replicate 32 0 @ [word_of_nat OP_CHECKSIG] :: bytes"
  have "IsPayToPublicKey ?s" "IsUnspendable ?s"
    by (simp_all add: IsPayToPublicKey_def IsUnspendable_def nth_append)
  moreover have "?s \<noteq> p2pk_script k" if "length k < 76" for k
  proof
    assume e: "?s = p2pk_script k"
    then have "length ?s = length (p2pk_script k)" by (simp only:)
    then have "length k = 33" using that by (simp add: p2pk_script_def push_data_def)
    then show False using e by (simp add: p2pk_script_def push_data_def)
  qed
  ultimately show ?thesis using IsPayToPublicKey_template by blast
qed

theorem IsPayToPublicKey_too_weak_witness: "IsPayToPublicKey (p2pk_script (2 # replicate 32 0))"
  using conjunct1 [OF IsPayToPublicKey_too_weak, rule_format, of "2 # replicate 32 0"] by simp

text \<open>
  Signature-operation counting: the loop adds, over the operations the script decodes to,
  one for each signature check and, for each multisignature check, the key count of the opcode
  before it (in accurate mode) or twenty; the assertion of \<^verbatim>\<open>DecodeOP_N\<close> never fails and
  the total is at most twenty times the script's size.
\<close>

theorem GetSigOpCount_counts:
  "GetSigOpCount acc s =
     (let opcodes = map fst (fst (script_ops s))
      in Some (sum_list (map2 (sigop_weight acc) (OP_INVALIDOPCODE # opcodes) opcodes))) \<and>
   (\<exists>n. GetSigOpCount acc s = Some n \<and> n \<le> 20 * length s)"
  using GetSigOpCount_ops GetSigOpCount_bound by blast

end
