(* ===== verification/Sig_Encoding.thy ===== *)
theory Sig_Encoding
  imports Script
begin

unbundle bit_operations_syntax

text \<open>
  Encoding rules for signatures and public keys (first part of
  \<^verbatim>\<open>script/interpreter.cpp\<close>), together with the error codes of
  \<^verbatim>\<open>script/script_error.h\<close> and the verification flags of
  \<^verbatim>\<open>script/interpreter.h\<close>.  A check that sets \<^verbatim>\<open>serror\<close> and returns
  false is a function to \<open>script_error option\<close>, with \<open>None\<close> for true.  The main lemma is
  that \<^verbatim>\<open>IsValidSignatureEncoding\<close> accepts exactly the strict DER encodings.
\<close>


section \<open>Error codes and flags\<close>

datatype script_error =
    SCRIPT_ERR_OK
  | SCRIPT_ERR_UNKNOWN_ERROR
  | SCRIPT_ERR_EVAL_FALSE
  | SCRIPT_ERR_OP_RETURN
  | SCRIPT_ERR_SCRIPT_SIZE
  | SCRIPT_ERR_PUSH_SIZE
  | SCRIPT_ERR_OP_COUNT
  | SCRIPT_ERR_STACK_SIZE
  | SCRIPT_ERR_SIG_COUNT
  | SCRIPT_ERR_PUBKEY_COUNT
  | SCRIPT_ERR_VERIFY
  | SCRIPT_ERR_EQUALVERIFY
  | SCRIPT_ERR_CHECKMULTISIGVERIFY
  | SCRIPT_ERR_CHECKSIGVERIFY
  | SCRIPT_ERR_CHECKDATASIGVERIFY
  | SCRIPT_ERR_NUMEQUALVERIFY
  | SCRIPT_ERR_BAD_OPCODE
  | SCRIPT_ERR_DISABLED_OPCODE
  | SCRIPT_ERR_INVALID_STACK_OPERATION
  | SCRIPT_ERR_INVALID_ALTSTACK_OPERATION
  | SCRIPT_ERR_UNBALANCED_CONDITIONAL
  | SCRIPT_ERR_INVALID_SPLIT_RANGE
  | SCRIPT_ERR_INVALID_OPERAND_SIZE
  | SCRIPT_ERR_INVALID_NUMBER_RANGE
  | SCRIPT_ERR_IMPOSSIBLE_ENCODING
  | SCRIPT_ERR_DIV_BY_ZERO
  | SCRIPT_ERR_MOD_BY_ZERO
  | SCRIPT_ERR_NEGATIVE_LOCKTIME
  | SCRIPT_ERR_UNSATISFIED_LOCKTIME
  | SCRIPT_ERR_SIG_HASHTYPE
  | SCRIPT_ERR_SIG_DER
  | SCRIPT_ERR_MINIMALDATA
  | SCRIPT_ERR_SIG_PUSHONLY
  | SCRIPT_ERR_SIG_HIGH_S
  | SCRIPT_ERR_SIG_NULLDUMMY
  | SCRIPT_ERR_PUBKEYTYPE
  | SCRIPT_ERR_CLEANSTACK
  | SCRIPT_ERR_SIG_NULLFAIL
  | SCRIPT_ERR_DISCOURAGE_UPGRADABLE_NOPS
  | SCRIPT_ERR_OP_CODESEPARATOR
  | SCRIPT_ERR_SIG_FINDANDDELETE
  | SCRIPT_ERR_ERROR_COUNT

abbreviation (input) SCRIPT_VERIFY_NONE :: u32 where "SCRIPT_VERIFY_NONE \<equiv> 0"
abbreviation (input) SCRIPT_VERIFY_P2SH :: u32 where "SCRIPT_VERIFY_P2SH \<equiv> 0x1"
abbreviation (input) SCRIPT_VERIFY_STRICTENC :: u32 where "SCRIPT_VERIFY_STRICTENC \<equiv> 0x2"
abbreviation (input) SCRIPT_VERIFY_DERSIG :: u32 where "SCRIPT_VERIFY_DERSIG \<equiv> 0x4"
abbreviation (input) SCRIPT_VERIFY_LOW_S :: u32 where "SCRIPT_VERIFY_LOW_S \<equiv> 0x8"
abbreviation (input) SCRIPT_VERIFY_NULLDUMMY :: u32 where "SCRIPT_VERIFY_NULLDUMMY \<equiv> 0x10"
abbreviation (input) SCRIPT_VERIFY_SIGPUSHONLY :: u32 where "SCRIPT_VERIFY_SIGPUSHONLY \<equiv> 0x20"
abbreviation (input) SCRIPT_VERIFY_MINIMALDATA :: u32 where "SCRIPT_VERIFY_MINIMALDATA \<equiv> 0x40"
abbreviation (input) SCRIPT_VERIFY_DISCOURAGE_UPGRADABLE_NOPS :: u32 where "SCRIPT_VERIFY_DISCOURAGE_UPGRADABLE_NOPS \<equiv> 0x80"
abbreviation (input) SCRIPT_VERIFY_CLEANSTACK :: u32 where "SCRIPT_VERIFY_CLEANSTACK \<equiv> 0x100"
abbreviation (input) SCRIPT_VERIFY_CHECKLOCKTIMEVERIFY :: u32 where "SCRIPT_VERIFY_CHECKLOCKTIMEVERIFY \<equiv> 0x200"
abbreviation (input) SCRIPT_VERIFY_CHECKSEQUENCEVERIFY :: u32 where "SCRIPT_VERIFY_CHECKSEQUENCEVERIFY \<equiv> 0x400"
abbreviation (input) SCRIPT_VERIFY_NULLFAIL :: u32 where "SCRIPT_VERIFY_NULLFAIL \<equiv> 0x4000"
abbreviation (input) SCRIPT_ENABLE_DIP0020_OPCODES :: u32 where "SCRIPT_ENABLE_DIP0020_OPCODES \<equiv> 0x8000"
abbreviation (input) SCRIPT_VERIFY_CONST_SCRIPTCODE :: u32 where "SCRIPT_VERIFY_CONST_SCRIPTCODE \<equiv> 0x10000"

abbreviation (input) SIGHASH_ALL :: u8 where "SIGHASH_ALL \<equiv> 1"
abbreviation (input) SIGHASH_NONE :: u8 where "SIGHASH_NONE \<equiv> 2"
abbreviation (input) SIGHASH_SINGLE :: u8 where "SIGHASH_SINGLE \<equiv> 3"
abbreviation (input) SIGHASH_ANYONECANPAY :: u8 where "SIGHASH_ANYONECANPAY \<equiv> 0x80"

text \<open>Key sizes of \<^verbatim>\<open>pubkey.h\<close>.\<close>

abbreviation (input) PUBKEY_SIZE :: nat where "PUBKEY_SIZE \<equiv> 65"
abbreviation (input) COMPRESSED_SIZE :: nat where "COMPRESSED_SIZE \<equiv> 33"

definition has_flag :: "u32 \<Rightarrow> u32 \<Rightarrow> bool" where
  "has_flag flags f \<longleftrightarrow> flags AND f \<noteq> 0"


section \<open>Keys and signatures\<close>

definition IsCompressedOrUncompressedPubKey :: "bytes \<Rightarrow> bool" where
  "IsCompressedOrUncompressedPubKey vchPubKey =
     (if length vchPubKey < COMPRESSED_SIZE then False
      else if vchPubKey ! 0 = 0x04 then length vchPubKey = PUBKEY_SIZE
      else if vchPubKey ! 0 = 0x02 \<or> vchPubKey ! 0 = 0x03 then length vchPubKey = COMPRESSED_SIZE
      else False)"

definition IsCompressedPubKey :: "bytes \<Rightarrow> bool" where
  "IsCompressedPubKey vchPubKey =
     (if length vchPubKey \<noteq> COMPRESSED_SIZE then False
      else if vchPubKey ! 0 \<noteq> 0x02 \<and> vchPubKey ! 0 \<noteq> 0x03 then False else True)"

definition IsValidSignatureEncoding :: "bytes \<Rightarrow> bool" where
  "IsValidSignatureEncoding sig =
     (if length sig < 9 then False
      else if length sig > 73 then False
      else if sig ! 0 \<noteq> 0x30 then False
      else if unat (sig ! 1) \<noteq> length sig - 3 then False
      else let lenR = unat (sig ! 3)
      in if 5 + lenR \<ge> length sig then False
      else let lenS = unat (sig ! (5 + lenR))
      in if lenR + lenS + 7 \<noteq> length sig then False
      else if sig ! 2 \<noteq> 0x02 then False
      else if lenR = 0 then False
      else if sig ! 4 AND 0x80 \<noteq> 0 then False
      else if lenR > 1 \<and> sig ! 4 = 0x00 \<and> \<not> sig ! 5 AND 0x80 \<noteq> 0 then False
      else if sig ! (lenR + 4) \<noteq> 0x02 then False
      else if lenS = 0 then False
      else if sig ! (lenR + 6) AND 0x80 \<noteq> 0 then False
      else if lenS > 1 \<and> sig ! (lenR + 6) = 0x00 \<and> \<not> sig ! (lenR + 7) AND 0x80 \<noteq> 0 then False
      else True)"

text \<open>
  The test for a low S value is \<^verbatim>\<open>CPubKey::CheckLowS\<close>, which calls the elliptic curve
  library; it is the argument \<open>low_s\<close>.
\<close>

definition IsLowDERSignature :: "(bytes \<Rightarrow> bool) \<Rightarrow> bytes \<Rightarrow> script_error option" where
  "IsLowDERSignature low_s vchSig =
     (if \<not> IsValidSignatureEncoding vchSig then Some SCRIPT_ERR_SIG_DER
      else if \<not> low_s (take (length vchSig - 1) vchSig) then Some SCRIPT_ERR_SIG_HIGH_S
      else None)"

definition IsDefinedHashtypeSignature :: "bytes \<Rightarrow> bool" where
  "IsDefinedHashtypeSignature vchSig =
     (if length vchSig = 0 then False
      else let nHashType = vchSig ! (length vchSig - 1) AND NOT SIGHASH_ANYONECANPAY
      in if nHashType < SIGHASH_ALL \<or> nHashType > SIGHASH_SINGLE then False else True)"

definition CheckSignatureEncoding :: "(bytes \<Rightarrow> bool) \<Rightarrow> bytes \<Rightarrow> u32 \<Rightarrow> script_error option" where
  "CheckSignatureEncoding low_s vchSig flags =
     (if length vchSig = 0 then None
      else if has_flag flags (SCRIPT_VERIFY_DERSIG OR SCRIPT_VERIFY_LOW_S OR SCRIPT_VERIFY_STRICTENC)
           \<and> \<not> IsValidSignatureEncoding vchSig
      then Some SCRIPT_ERR_SIG_DER
      else if has_flag flags SCRIPT_VERIFY_LOW_S \<and> IsLowDERSignature low_s vchSig \<noteq> None
      then IsLowDERSignature low_s vchSig
      else if has_flag flags SCRIPT_VERIFY_STRICTENC \<and> \<not> IsDefinedHashtypeSignature vchSig
      then Some SCRIPT_ERR_SIG_HASHTYPE
      else None)"

definition CheckPubKeyEncoding :: "bytes \<Rightarrow> u32 \<Rightarrow> script_error option" where
  "CheckPubKeyEncoding vchPubKey flags =
     (if has_flag flags SCRIPT_VERIFY_STRICTENC \<and> \<not> IsCompressedOrUncompressedPubKey vchPubKey
      then Some SCRIPT_ERR_PUBKEYTYPE else None)"


section \<open>Strict DER\<close>

text \<open>
  Specification: a DER signature is a sequence of two positive integers in their shortest
  big-endian form, followed by the hash type byte.
\<close>

definition der_int :: "bytes \<Rightarrow> bool" where
  "der_int xs \<longleftrightarrow> xs \<noteq> [] \<and> unat (hd xs) < 128 \<and>
     (1 < length xs \<and> hd xs = 0 \<longrightarrow> 128 \<le> unat (xs ! 1))"

definition der_sig :: "bytes \<Rightarrow> bytes \<Rightarrow> u8 \<Rightarrow> bytes" where
  "der_sig r s h = [0x30, word_of_nat (length r + length s + 4), 0x02, word_of_nat (length r)] @ r @
     [0x02, word_of_nat (length s)] @ s @ [h]"

lemma der_int_nth:
  "der_int xs \<longleftrightarrow> xs \<noteq> [] \<and> \<not> xs ! 0 AND 0x80 \<noteq> 0 \<and>
     \<not> (1 < length xs \<and> xs ! 0 = 0 \<and> \<not> xs ! 1 AND 0x80 \<noteq> 0)"
  using byte_fields(2) [of "hd xs"] byte_fields(2) [of "xs ! 1"]
  by (cases xs) (auto simp: der_int_def)

lemma signature_shape:
  assumes sig: "sig = [t0, n, t2, nr] @ r @ [t4, ns] @ s @ [h]"
    and len: "unat nr = length r" "unat ns = length s"
  shows "IsValidSignatureEncoding sig \<longleftrightarrow> length r + length s \<le> 66 \<and> t0 = 0x30 \<and>
    unat n = length r + length s + 4 \<and> t2 = 0x02 \<and> t4 = 0x02 \<and> der_int r \<and> der_int s"
proof (cases "r = [] \<or> s = []")
  case True
  then show ?thesis
    using len by (auto simp: IsValidSignatureEncoding_def sig nth_append der_int_def Let_def)
next
  case False
  then have ne: "0 < length r" "0 < length s" by auto
  have l: "length sig = length r + length s + 7" by (simp add: sig)
  have at: "sig ! 0 = t0" "sig ! 1 = n" "sig ! 2 = t2" "sig ! 3 = nr" "sig ! (5 + length r) = ns"
    "sig ! 4 = r ! 0" "1 < length r \<Longrightarrow> sig ! 5 = r ! 1" "sig ! (length r + 4) = t4"
    "sig ! (length r + 6) = s ! 0" "1 < length s \<Longrightarrow> sig ! (length r + 7) = s ! 1"
    using ne by (simp_all add: sig nth_append)
  have two: "(length r + length s < 2) = False" using ne by arith
  show ?thesis
    using ne at(7,10) unfolding IsValidSignatureEncoding_def der_int_nth l at(1-6,8,9) Let_def len
    by (auto simp: two)
qed

lemma IsValidSignatureEncoding_der:
  "IsValidSignatureEncoding sig \<longleftrightarrow>
     (\<exists>r s h. der_int r \<and> der_int s \<and> length r + length s \<le> 66 \<and> sig = der_sig r s h)"
proof
  assume v: "IsValidSignatureEncoding sig"
  let ?lr = "unat (sig ! 3)" and ?ls = "unat (sig ! (5 + unat (sig ! 3)))"
  have "length sig = 4 + ?lr + (?ls + 3)"
    using v by (simp add: IsValidSignatureEncoding_def Let_def split: if_splits)
  then obtain a r b where 1: "sig = a @ r @ b" "length a = 4" "length r = ?lr" "length b = ?ls + 3"
    by (rule list_split3)
  then have "length b = 2 + ?ls + 1" by simp
  then obtain c s d where 2: "b = c @ s @ d" "length c = 2" "length s = ?ls" "length d = 1"
    by (rule list_split3)
  obtain t0 n t2 nr where a: "a = [t0, n, t2, nr]"
    using 1(2) by (auto simp: eval_nat_numeral length_Suc_conv)
  obtain t4 ns where c: "c = [t4, ns]" using 2(2) by (auto simp: eval_nat_numeral length_Suc_conv)
  obtain h where d: "d = [h]" using 2(4) by (auto simp: length_Suc_conv)
  have sig: "sig = [t0, n, t2, nr] @ r @ [t4, ns] @ s @ [h]" using 1(1) 2(1) a c d by simp
  then have "sig ! 3 = nr" "sig ! (5 + length r) = ns" by (simp_all add: nth_append)
  then have len: "unat nr = length r" "unat ns = length s" using 1(3) 2(3) by simp_all
  note w = v [unfolded signature_shape [OF sig len]]
  have "word_of_nat (unat n) = n" "word_of_nat (unat nr) = nr" "word_of_nat (unat ns) = ns" by simp_all
  then have "n = word_of_nat (length r + length s + 4)" "nr = word_of_nat (length r)" "ns = word_of_nat (length s)"
    using w len by metis+
  then have "sig = der_sig r s h" using w sig by (simp add: der_sig_def)
  then show "\<exists>r s h. der_int r \<and> der_int s \<and> length r + length s \<le> 66 \<and> sig = der_sig r s h"
    using w by blast
next
  assume "\<exists>r s h. der_int r \<and> der_int s \<and> length r + length s \<le> 66 \<and> sig = der_sig r s h"
  then obtain r s h where d: "der_int r" "der_int s" "length r + length s \<le> 66" "sig = der_sig r s h"
    by blast
  show "IsValidSignatureEncoding sig"
    using d by (subst signature_shape [OF d(4) [unfolded der_sig_def]])
      (simp_all add: unat_of_nat del: of_nat_add)
qed

lemma has_flag_or: "has_flag flags (a OR b) \<longleftrightarrow> has_flag flags a \<or> has_flag flags b"
  by (simp add: has_flag_def and.commute bit.conj_disj_distrib or_eq_0_iff)

text \<open>
  C26. \<^verbatim>\<open>IsValidSignatureEncoding\<close> accepts exactly the byte strings the comment above it
  describes: a compound of two non-empty, non-negative, shortest-form integers R and S with exact
  length bytes, and one hash type byte at the end, at most 73 bytes in all.
\<close>

theorem strict_der_exact:
  "IsValidSignatureEncoding sig \<longleftrightarrow>
     (\<exists>r s h. der_int r \<and> der_int s \<and> length r + length s \<le> 66 \<and> sig = der_sig r s h)"
  by (rule IsValidSignatureEncoding_der)

end
