(* ===== verification/Script_Ops.thy ===== *)
theory Script_Ops
  imports Sig_Encoding
begin

unbundle bit_operations_syntax

text \<open>
  The operations of the script interpreter: one definition for each \<^verbatim>\<open>case\<close> of the
  switch in \<^verbatim>\<open>EvalScript\<close> (\<^verbatim>\<open>script/interpreter.cpp\<close>), and the helpers they
  call.  A stack is a list with its top first, so \<^verbatim>\<open>stacktop(-1)\<close> is the head, and the
  guard \<^verbatim>\<open>stack.size() < n\<close> is a pattern with \<open>n\<close> elements.  The outcome of an operation
  is the next state, a script error, a C++ exception (which \<^verbatim>\<open>EvalScript\<close> catches), or
  the abort of a failed assertion.

  The hash functions and the elliptic curve operations are the fields of a record that every
  definition takes as an argument, and so is the signature checker, which is an abstract class in
  the source; the theorems hold for all of them.
\<close>


section \<open>Outcomes, state and environment\<close>

datatype 'a outcome = Ok 'a | Fail script_error | Throw | Abort

primrec obind :: "'a outcome \<Rightarrow> ('a \<Rightarrow> 'b outcome) \<Rightarrow> 'b outcome" where
  "obind (Ok x) f = f x"
| "obind (Fail e) f = Fail e"
| "obind Throw f = Throw"
| "obind Abort f = Abort"

definition or_throw :: "'a option \<Rightarrow> 'a outcome" where
  "or_throw x = (case x of Some y \<Rightarrow> Ok y | None \<Rightarrow> Throw)"

definition or_abort :: "'a option \<Rightarrow> 'a outcome" where
  "or_abort x = (case x of Some y \<Rightarrow> Ok y | None \<Rightarrow> Abort)"

definition check :: "script_error option \<Rightarrow> unit outcome" where
  "check e = (case e of None \<Rightarrow> Ok () | Some e \<Rightarrow> Fail e)"

text \<open>The local variables of \<^verbatim>\<open>EvalScript\<close> that an operation can change.\<close>

record exec_state =
  stack :: "bytes list"
  altstack :: "bytes list"
  vfExec :: "bool list"
  nOpCount :: nat
  pbegincodehash :: bytes

record crypto =
  RIPEMD160 :: "bytes \<Rightarrow> bytes"
  SHA1 :: "bytes \<Rightarrow> bytes"
  SHA256 :: "bytes \<Rightarrow> bytes"
  CheckLowS :: "bytes \<Rightarrow> bool"
  PubKeyVerify :: "bytes \<Rightarrow> bytes \<Rightarrow> bytes \<Rightarrow> bool"

text \<open>
  \<^verbatim>\<open>class BaseSignatureChecker\<close>: signature, public key and script code; \<open>None\<close> stands for
  an implementation that aborts.
\<close>

record checker =
  CheckSig :: "bytes \<Rightarrow> bytes \<Rightarrow> script \<Rightarrow> bool option"
  CheckLockTime :: "int \<Rightarrow> bool"
  CheckSequence :: "int \<Rightarrow> bool"

definition Hash160 :: "crypto \<Rightarrow> bytes \<Rightarrow> bytes" where
  "Hash160 C x = RIPEMD160 C (SHA256 C x)"

definition Hash256 :: "crypto \<Rightarrow> bytes \<Rightarrow> bytes" where
  "Hash256 C x = SHA256 C (SHA256 C x)"

abbreviation (input) vchFalse :: bytes where "vchFalse \<equiv> []"
abbreviation (input) vchTrue :: bytes where "vchTrue \<equiv> [1]"

definition bool_vch :: "bool \<Rightarrow> bytes" where
  "bool_vch b = (if b then vchTrue else vchFalse)"


section \<open>Helpers\<close>

primrec CastToBool :: "bytes \<Rightarrow> bool" where
  "CastToBool [] = False"
| "CastToBool (b # bs) = (if b \<noteq> 0 then if bs = [] \<and> b = 0x80 then False else True else CastToBool bs)"

text \<open>\<open>None\<close> is the assertion on the opcode failing.\<close>

definition CheckMinimalPush :: "bytes \<Rightarrow> nat \<Rightarrow> bool option" where
  "CheckMinimalPush data opcode =
     (if opcode \<le> OP_PUSHDATA4
      then Some (
        if length data = 0 then opcode = OP_0
        else if length data = 1 \<and> data ! 0 \<ge> 1 \<and> data ! 0 \<le> 16 then False
        else if length data = 1 \<and> data ! 0 = 0x81 then False
        else if length data \<le> 75 then opcode = length data
        else if length data \<le> 255 then opcode = OP_PUSHDATA1
        else if length data \<le> 65535 then opcode = OP_PUSHDATA2
        else True)
      else None)"

text \<open>
  \<^verbatim>\<open>FindAndDelete\<close>: \<open>skip_matches\<close> is the inner loop, \<open>fad_loop\<close> the outer one; the
  iterators are suffixes of the script.
\<close>

function skip_matches :: "bytes \<Rightarrow> bytes \<Rightarrow> nat \<Rightarrow> bytes \<times> nat" where
  "skip_matches b pc nFound =
     (if b \<noteq> [] \<and> length pc \<ge> length b \<and> take (length b) pc = b
      then skip_matches b (drop (length b) pc) (nFound + 1) else (pc, nFound))"
  by pat_completeness auto
termination
  by (relation "measure (\<lambda>(_, pc, _). length pc)") (auto simp flip: length_greater_0_conv)

declare skip_matches.simps [simp del]

lemma skip_matches_length: "length (fst (skip_matches b pc n)) \<le> length pc"
  by (induction b pc n rule: skip_matches.induct) (subst skip_matches.simps, auto)

function fad_loop :: "bytes \<Rightarrow> bytes \<Rightarrow> bytes \<Rightarrow> bytes \<Rightarrow> nat \<Rightarrow> bytes \<times> bytes \<times> nat" where
  "fad_loop b pc pc2 result nFound =
     (let result = result @ take (length pc2 - length pc) pc2;
          (pc, nFound) = skip_matches b pc nFound
      in case GetScriptOp pc of
           (_, None) \<Rightarrow> (result, pc, nFound)
         | (pc', Some _) \<Rightarrow> fad_loop b pc' pc result nFound)"
  by pat_completeness auto
termination
proof (relation "measure (\<lambda>(_, pc, _). length pc)", goal_cases)
  case (2 b pc pc2 result nFound result' p pc1 n pc' r op)
  then have "length pc1 \<le> length pc" using skip_matches_length [of b pc nFound] by (metis fst_conv)
  moreover have "pc1 \<noteq> []" using 2 by auto
  ultimately show ?case using 2 GetScriptOp_advances [of pc1 pc' "Some op"] by fastforce
qed simp

declare fad_loop.simps [simp del]

definition FindAndDelete :: "script \<Rightarrow> script \<Rightarrow> nat \<times> script" where
  "FindAndDelete script b =
     (if b = [] then (0, script)
      else case fad_loop b script script [] 0 of
        (result, pc2, nFound) \<Rightarrow> (nFound, if nFound > 0 then result @ pc2 else script))"


section \<open>Push and control operations\<close>

definition num_arg :: "bool \<Rightarrow> bytes \<Rightarrow> int outcome" where
  "num_arg fRequireMinimal vch = or_throw (script_num vch fRequireMinimal nDefaultMaxNumSize)"

definition op_small_int :: "nat \<Rightarrow> exec_state \<Rightarrow> exec_state outcome" where
  "op_small_int opcode st = Ok (st\<lparr>stack := snum_serialize (int opcode - (int OP_1 - 1)) # stack st\<rparr>)"

definition op_checklocktimeverify :: "checker \<Rightarrow> u32 \<Rightarrow> bool \<Rightarrow> exec_state \<Rightarrow> exec_state outcome" where
  "op_checklocktimeverify chk flags fRequireMinimal st =
     (if \<not> has_flag flags SCRIPT_VERIFY_CHECKLOCKTIMEVERIFY then Ok st
      else case stack st of
        [] \<Rightarrow> Fail SCRIPT_ERR_INVALID_STACK_OPERATION
      | x # _ \<Rightarrow>
          obind (or_throw (script_num x fRequireMinimal 5)) (\<lambda>nLockTime.
            if nLockTime < 0 then Fail SCRIPT_ERR_NEGATIVE_LOCKTIME
            else if \<not> CheckLockTime chk nLockTime then Fail SCRIPT_ERR_UNSATISFIED_LOCKTIME
            else Ok st))"

abbreviation (input) SEQUENCE_LOCKTIME_DISABLE_FLAG :: int where
  "SEQUENCE_LOCKTIME_DISABLE_FLAG \<equiv> 0x80000000"

definition op_checksequenceverify :: "checker \<Rightarrow> u32 \<Rightarrow> bool \<Rightarrow> exec_state \<Rightarrow> exec_state outcome" where
  "op_checksequenceverify chk flags fRequireMinimal st =
     (if \<not> has_flag flags SCRIPT_VERIFY_CHECKSEQUENCEVERIFY then Ok st
      else case stack st of
        [] \<Rightarrow> Fail SCRIPT_ERR_INVALID_STACK_OPERATION
      | x # _ \<Rightarrow>
          obind (or_throw (script_num x fRequireMinimal 5)) (\<lambda>nSequence.
            if nSequence < 0 then Fail SCRIPT_ERR_NEGATIVE_LOCKTIME
            else if nSequence AND SEQUENCE_LOCKTIME_DISABLE_FLAG \<noteq> 0 then Ok st
            else if \<not> CheckSequence chk nSequence then Fail SCRIPT_ERR_UNSATISFIED_LOCKTIME
            else Ok st))"

definition op_nop_upgradable :: "u32 \<Rightarrow> exec_state \<Rightarrow> exec_state outcome" where
  "op_nop_upgradable flags st =
     (if has_flag flags SCRIPT_VERIFY_DISCOURAGE_UPGRADABLE_NOPS
      then Fail SCRIPT_ERR_DISCOURAGE_UPGRADABLE_NOPS else Ok st)"

definition op_if :: "bool \<Rightarrow> nat \<Rightarrow> exec_state \<Rightarrow> exec_state outcome" where
  "op_if fExec opcode st =
     (if fExec
      then case stack st of
             [] \<Rightarrow> Fail SCRIPT_ERR_UNBALANCED_CONDITIONAL
           | vch # s \<Rightarrow>
               let fValue = CastToBool vch;
                   fValue = (if opcode = OP_NOTIF then \<not> fValue else fValue)
               in Ok (st\<lparr>stack := s, vfExec := fValue # vfExec st\<rparr>)
      else Ok (st\<lparr>vfExec := False # vfExec st\<rparr>))"

definition op_else :: "exec_state \<Rightarrow> exec_state outcome" where
  "op_else st =
     (case vfExec st of
        [] \<Rightarrow> Fail SCRIPT_ERR_UNBALANCED_CONDITIONAL
      | b # bs \<Rightarrow> Ok (st\<lparr>vfExec := (\<not> b) # bs\<rparr>))"

definition op_endif :: "exec_state \<Rightarrow> exec_state outcome" where
  "op_endif st =
     (case vfExec st of
        [] \<Rightarrow> Fail SCRIPT_ERR_UNBALANCED_CONDITIONAL
      | b # bs \<Rightarrow> Ok (st\<lparr>vfExec := bs\<rparr>))"

definition op_verify :: "exec_state \<Rightarrow> exec_state outcome" where
  "op_verify st =
     (case stack st of
        [] \<Rightarrow> Fail SCRIPT_ERR_INVALID_STACK_OPERATION
      | x # s \<Rightarrow> if CastToBool x then Ok (st\<lparr>stack := s\<rparr>) else Fail SCRIPT_ERR_VERIFY)"

definition op_return :: "exec_state \<Rightarrow> exec_state outcome" where
  "op_return st = Fail SCRIPT_ERR_OP_RETURN"


section \<open>Stack operations\<close>

definition op_toaltstack :: "exec_state \<Rightarrow> exec_state outcome" where
  "op_toaltstack st =
     (case stack st of
        x # s \<Rightarrow> Ok (st\<lparr>stack := s, altstack := x # altstack st\<rparr>)
      | _ \<Rightarrow> Fail SCRIPT_ERR_INVALID_STACK_OPERATION)"

definition op_fromaltstack :: "exec_state \<Rightarrow> exec_state outcome" where
  "op_fromaltstack st =
     (case altstack st of
        x # a \<Rightarrow> Ok (st\<lparr>stack := x # stack st, altstack := a\<rparr>)
      | _ \<Rightarrow> Fail SCRIPT_ERR_INVALID_ALTSTACK_OPERATION)"

text \<open>The operations that only rearrange the top of the main stack.\<close>

definition on_stack :: "(bytes list \<Rightarrow> bytes list outcome) \<Rightarrow> exec_state \<Rightarrow> exec_state outcome" where
  "on_stack f st = obind (f (stack st)) (\<lambda>s. Ok (st\<lparr>stack := s\<rparr>))"

definition op_2drop :: "bytes list \<Rightarrow> bytes list outcome" where
  "op_2drop s = (case s of x2 # x1 # s \<Rightarrow> Ok s | _ \<Rightarrow> Fail SCRIPT_ERR_INVALID_STACK_OPERATION)"

definition op_2dup :: "bytes list \<Rightarrow> bytes list outcome" where
  "op_2dup s = (case s of x2 # x1 # s \<Rightarrow> Ok (x2 # x1 # x2 # x1 # s) | _ \<Rightarrow> Fail SCRIPT_ERR_INVALID_STACK_OPERATION)"

definition op_3dup :: "bytes list \<Rightarrow> bytes list outcome" where
  "op_3dup s = (case s of x3 # x2 # x1 # s \<Rightarrow> Ok (x3 # x2 # x1 # x3 # x2 # x1 # s) | _ \<Rightarrow> Fail SCRIPT_ERR_INVALID_STACK_OPERATION)"

definition op_2over :: "bytes list \<Rightarrow> bytes list outcome" where
  "op_2over s =
     (case s of x4 # x3 # x2 # x1 # s \<Rightarrow> Ok (x2 # x1 # x4 # x3 # x2 # x1 # s) | _ \<Rightarrow> Fail SCRIPT_ERR_INVALID_STACK_OPERATION)"

definition op_2rot :: "bytes list \<Rightarrow> bytes list outcome" where
  "op_2rot s =
     (case s of x6 # x5 # x4 # x3 # x2 # x1 # s \<Rightarrow> Ok (x2 # x1 # x6 # x5 # x4 # x3 # s) | _ \<Rightarrow> Fail SCRIPT_ERR_INVALID_STACK_OPERATION)"

definition op_2swap :: "bytes list \<Rightarrow> bytes list outcome" where
  "op_2swap s = (case s of x4 # x3 # x2 # x1 # s \<Rightarrow> Ok (x2 # x1 # x4 # x3 # s) | _ \<Rightarrow> Fail SCRIPT_ERR_INVALID_STACK_OPERATION)"

definition op_ifdup :: "bytes list \<Rightarrow> bytes list outcome" where
  "op_ifdup s = (case s of x # s \<Rightarrow> Ok (if CastToBool x then x # x # s else x # s) | _ \<Rightarrow> Fail SCRIPT_ERR_INVALID_STACK_OPERATION)"

definition op_depth :: "bytes list \<Rightarrow> bytes list outcome" where
  "op_depth s = Ok (snum_serialize (int (length s)) # s)"

definition op_drop :: "bytes list \<Rightarrow> bytes list outcome" where
  "op_drop s = (case s of x # s \<Rightarrow> Ok s | _ \<Rightarrow> Fail SCRIPT_ERR_INVALID_STACK_OPERATION)"

definition op_dup :: "bytes list \<Rightarrow> bytes list outcome" where
  "op_dup s = (case s of x # s \<Rightarrow> Ok (x # x # s) | _ \<Rightarrow> Fail SCRIPT_ERR_INVALID_STACK_OPERATION)"

definition op_nip :: "bytes list \<Rightarrow> bytes list outcome" where
  "op_nip s = (case s of x2 # x1 # s \<Rightarrow> Ok (x2 # s) | _ \<Rightarrow> Fail SCRIPT_ERR_INVALID_STACK_OPERATION)"

definition op_over :: "bytes list \<Rightarrow> bytes list outcome" where
  "op_over s = (case s of x2 # x1 # s \<Rightarrow> Ok (x1 # x2 # x1 # s) | _ \<Rightarrow> Fail SCRIPT_ERR_INVALID_STACK_OPERATION)"

definition op_pick_roll :: "bool \<Rightarrow> nat \<Rightarrow> bytes list \<Rightarrow> bytes list outcome" where
  "op_pick_roll fRequireMinimal opcode s =
     (case s of
        x # y # s' \<Rightarrow>
          obind (num_arg fRequireMinimal x) (\<lambda>bn.
            let n = snum_getint bn; s = y # s'
            in if n < 0 \<or> n \<ge> int (length s) then Fail SCRIPT_ERR_INVALID_STACK_OPERATION
               else let vch = s ! nat n;
                        s = (if opcode = OP_ROLL then take (nat n) s @ drop (nat n + 1) s else s)
                    in Ok (vch # s))
      | _ \<Rightarrow> Fail SCRIPT_ERR_INVALID_STACK_OPERATION)"

definition op_rot :: "bytes list \<Rightarrow> bytes list outcome" where
  "op_rot s = (case s of x3 # x2 # x1 # s \<Rightarrow> Ok (x1 # x3 # x2 # s) | _ \<Rightarrow> Fail SCRIPT_ERR_INVALID_STACK_OPERATION)"

definition op_swap :: "bytes list \<Rightarrow> bytes list outcome" where
  "op_swap s = (case s of x2 # x1 # s \<Rightarrow> Ok (x1 # x2 # s) | _ \<Rightarrow> Fail SCRIPT_ERR_INVALID_STACK_OPERATION)"

definition op_tuck :: "bytes list \<Rightarrow> bytes list outcome" where
  "op_tuck s = (case s of x2 # x1 # s \<Rightarrow> Ok (x2 # x1 # x2 # s) | _ \<Rightarrow> Fail SCRIPT_ERR_INVALID_STACK_OPERATION)"

definition op_size :: "bytes list \<Rightarrow> bytes list outcome" where
  "op_size s = (case s of x # s \<Rightarrow> Ok (snum_serialize (int (length x)) # x # s) | _ \<Rightarrow> Fail SCRIPT_ERR_INVALID_STACK_OPERATION)"


section \<open>Comparison, bitwise and numeric operations\<close>

definition op_equal :: "nat \<Rightarrow> bytes list \<Rightarrow> bytes list outcome" where
  "op_equal opcode s =
     (case s of
        vch2 # vch1 # s \<Rightarrow>
          let fEqual = (vch1 = vch2)
          in if opcode = OP_EQUALVERIFY
             then if fEqual then Ok s else Fail SCRIPT_ERR_EQUALVERIFY
             else Ok (bool_vch fEqual # s)
      | _ \<Rightarrow> Fail SCRIPT_ERR_INVALID_STACK_OPERATION)"

definition op_bitwise :: "nat \<Rightarrow> bytes list \<Rightarrow> bytes list outcome" where
  "op_bitwise opcode s =
     (case s of
        vch2 # vch1 # s \<Rightarrow>
          if length vch1 \<noteq> length vch2 then Fail SCRIPT_ERR_INVALID_OPERAND_SIZE
          else Ok ((if opcode = OP_AND then map2 (AND) vch1 vch2
                    else if opcode = OP_OR then map2 (OR) vch1 vch2
                    else if opcode = OP_XOR then map2 (XOR) vch1 vch2
                    else vch1) # s)
      | _ \<Rightarrow> Fail SCRIPT_ERR_INVALID_STACK_OPERATION)"

definition int_bool :: "bool \<Rightarrow> int" where
  "int_bool b = (if b then 1 else 0)"

text \<open>\<open>None\<close> is a failed assertion, those of \<^verbatim>\<open>CScriptNum\<close> or the one for an invalid opcode.\<close>

definition num_unary :: "nat \<Rightarrow> int \<Rightarrow> int option" where
  "num_unary opcode bn =
     (if opcode = OP_1ADD then snum_add_assign bn 1
      else if opcode = OP_1SUB then snum_sub_assign bn 1
      else if opcode = OP_NEGATE then snum_neg bn
      else if opcode = OP_ABS then if bn < 0 then snum_neg bn else Some bn
      else if opcode = OP_NOT then Some (int_bool (bn = 0))
      else if opcode = OP_0NOTEQUAL then Some (int_bool (bn \<noteq> 0))
      else None)"

definition op_unary :: "bool \<Rightarrow> nat \<Rightarrow> bytes list \<Rightarrow> bytes list outcome" where
  "op_unary fRequireMinimal opcode s =
     (case s of
        x # s \<Rightarrow>
          obind (num_arg fRequireMinimal x) (\<lambda>bn.
          obind (or_abort (num_unary opcode bn)) (\<lambda>bn.
            Ok (snum_serialize bn # s)))
      | _ \<Rightarrow> Fail SCRIPT_ERR_INVALID_STACK_OPERATION)"

definition num_binary :: "nat \<Rightarrow> int \<Rightarrow> int \<Rightarrow> int outcome" where
  "num_binary opcode bn1 bn2 =
     (if opcode = OP_ADD then Ok (snum_add bn1 bn2)
      else if opcode = OP_SUB then Ok (snum_sub bn1 bn2)
      else if opcode = OP_DIV
      then if bn2 = 0 then Fail SCRIPT_ERR_DIV_BY_ZERO else Ok (snum_div bn1 bn2)
      else if opcode = OP_MOD
      then if bn2 = 0 then Fail SCRIPT_ERR_MOD_BY_ZERO else Ok (snum_mod bn1 bn2)
      else if opcode = OP_BOOLAND then Ok (int_bool (bn1 \<noteq> 0 \<and> bn2 \<noteq> 0))
      else if opcode = OP_BOOLOR then Ok (int_bool (bn1 \<noteq> 0 \<or> bn2 \<noteq> 0))
      else if opcode = OP_NUMEQUAL then Ok (int_bool (bn1 = bn2))
      else if opcode = OP_NUMEQUALVERIFY then Ok (int_bool (bn1 = bn2))
      else if opcode = OP_NUMNOTEQUAL then Ok (int_bool (bn1 \<noteq> bn2))
      else if opcode = OP_LESSTHAN then Ok (int_bool (bn1 < bn2))
      else if opcode = OP_GREATERTHAN then Ok (int_bool (bn1 > bn2))
      else if opcode = OP_LESSTHANOREQUAL then Ok (int_bool (bn1 \<le> bn2))
      else if opcode = OP_GREATERTHANOREQUAL then Ok (int_bool (bn1 \<ge> bn2))
      else if opcode = OP_MIN then Ok (if bn1 < bn2 then bn1 else bn2)
      else if opcode = OP_MAX then Ok (if bn1 > bn2 then bn1 else bn2)
      else Abort)"

definition op_binary :: "bool \<Rightarrow> nat \<Rightarrow> bytes list \<Rightarrow> bytes list outcome" where
  "op_binary fRequireMinimal opcode s =
     (case s of
        x2 # x1 # s \<Rightarrow>
          obind (num_arg fRequireMinimal x1) (\<lambda>bn1.
          obind (num_arg fRequireMinimal x2) (\<lambda>bn2.
          obind (num_binary opcode bn1 bn2) (\<lambda>bn.
            let vch = snum_serialize bn
            in if opcode = OP_NUMEQUALVERIFY
               then if CastToBool vch then Ok s else Fail SCRIPT_ERR_NUMEQUALVERIFY
               else Ok (vch # s))))
      | _ \<Rightarrow> Fail SCRIPT_ERR_INVALID_STACK_OPERATION)"

definition op_within :: "bool \<Rightarrow> bytes list \<Rightarrow> bytes list outcome" where
  "op_within fRequireMinimal s =
     (case s of
        x3 # x2 # x1 # s \<Rightarrow>
          obind (num_arg fRequireMinimal x1) (\<lambda>bn1.
          obind (num_arg fRequireMinimal x2) (\<lambda>bn2.
          obind (num_arg fRequireMinimal x3) (\<lambda>bn3.
            Ok (bool_vch (bn2 \<le> bn1 \<and> bn1 < bn3) # s))))
      | _ \<Rightarrow> Fail SCRIPT_ERR_INVALID_STACK_OPERATION)"


section \<open>Cryptographic operations\<close>

definition op_hash :: "crypto \<Rightarrow> nat \<Rightarrow> bytes list \<Rightarrow> bytes list outcome" where
  "op_hash C opcode s =
     (case s of
        vch # s \<Rightarrow>
          Ok ((if opcode = OP_RIPEMD160 then RIPEMD160 C vch
               else if opcode = OP_SHA1 then SHA1 C vch
               else if opcode = OP_SHA256 then SHA256 C vch
               else if opcode = OP_HASH160 then Hash160 C vch
               else if opcode = OP_HASH256 then Hash256 C vch
               else replicate 32 0) # s)
      | _ \<Rightarrow> Fail SCRIPT_ERR_INVALID_STACK_OPERATION)"

definition op_codeseparator :: "bytes \<Rightarrow> exec_state \<Rightarrow> exec_state outcome" where
  "op_codeseparator pc st = Ok (st\<lparr>pbegincodehash := pc\<rparr>)"

text \<open>\<^verbatim>\<open>FindAndDelete(scriptCode, CScript() << vchSig)\<close> and the test on its result.\<close>

definition drop_sig :: "u32 \<Rightarrow> script \<Rightarrow> bytes \<Rightarrow> script outcome" where
  "drop_sig flags scriptCode vchSig =
     (let (found, scriptCode) = FindAndDelete scriptCode (script_push [] vchSig)
      in if found > 0 \<and> has_flag flags SCRIPT_VERIFY_CONST_SCRIPTCODE
         then Fail SCRIPT_ERR_SIG_FINDANDDELETE else Ok scriptCode)"

definition check_encodings :: "crypto \<Rightarrow> u32 \<Rightarrow> bytes \<Rightarrow> bytes \<Rightarrow> unit outcome" where
  "check_encodings C flags vchSig vchPubKey =
     obind (check (CheckSignatureEncoding (CheckLowS C) vchSig flags)) (\<lambda>_.
       check (CheckPubKeyEncoding vchPubKey flags))"

definition op_checksig :: "crypto \<Rightarrow> checker \<Rightarrow> u32 \<Rightarrow> nat \<Rightarrow> exec_state \<Rightarrow> exec_state outcome" where
  "op_checksig C chk flags opcode st =
     (case stack st of
        vchPubKey # vchSig # s \<Rightarrow>
          obind (drop_sig flags (pbegincodehash st) vchSig) (\<lambda>scriptCode.
          obind (check_encodings C flags vchSig vchPubKey) (\<lambda>_.
          obind (or_abort (CheckSig chk vchSig vchPubKey scriptCode)) (\<lambda>fSuccess.
            if \<not> fSuccess \<and> has_flag flags SCRIPT_VERIFY_NULLFAIL \<and> length vchSig \<noteq> 0
            then Fail SCRIPT_ERR_SIG_NULLFAIL
            else if opcode = OP_CHECKSIGVERIFY
            then if fSuccess then Ok (st\<lparr>stack := s\<rparr>) else Fail SCRIPT_ERR_CHECKSIGVERIFY
            else Ok (st\<lparr>stack := bool_vch fSuccess # s\<rparr>))))
      | _ \<Rightarrow> Fail SCRIPT_ERR_INVALID_STACK_OPERATION)"

definition op_checkdatasig :: "crypto \<Rightarrow> u32 \<Rightarrow> nat \<Rightarrow> bytes list \<Rightarrow> bytes list outcome" where
  "op_checkdatasig C flags opcode s =
     (case s of
        vchPubKey # vchMessage # vchSig # s \<Rightarrow>
          obind (check_encodings C flags vchSig vchPubKey) (\<lambda>_.
            let fSuccess = (if length vchSig \<noteq> 0 then PubKeyVerify C vchPubKey (SHA256 C vchMessage) vchSig else False)
            in if \<not> fSuccess \<and> has_flag flags SCRIPT_VERIFY_NULLFAIL \<and> length vchSig \<noteq> 0
               then Fail SCRIPT_ERR_SIG_NULLFAIL
               else if opcode = OP_CHECKDATASIGVERIFY
               then if fSuccess then Ok s else Fail SCRIPT_ERR_CHECKDATASIGVERIFY
               else Ok (bool_vch fSuccess # s))
      | _ \<Rightarrow> Fail SCRIPT_ERR_INVALID_STACK_OPERATION)"

text \<open>
  \<^verbatim>\<open>OP_CHECKMULTISIG\<close>.  \<open>drop_sigs\<close> is the loop that removes the signatures from the
  script code, \<open>multisig_loop\<close> the loop that matches them with keys, over the stack segments
  that \<^verbatim>\<open>isig\<close> and \<^verbatim>\<open>ikey\<close> walk through, and \<open>multisig_cleanup\<close> the loop
  that pops the arguments.  The loop keeps at least as many keys as signatures, so its second
  equation is never reached.
\<close>

primrec drop_sigs :: "u32 \<Rightarrow> bytes list \<Rightarrow> script \<Rightarrow> script outcome" where
  "drop_sigs flags [] scriptCode = Ok scriptCode"
| "drop_sigs flags (vchSig # sigs) scriptCode =
     obind (drop_sig flags scriptCode vchSig) (drop_sigs flags sigs)"

fun multisig_loop :: "crypto \<Rightarrow> checker \<Rightarrow> u32 \<Rightarrow> script \<Rightarrow> bytes list \<Rightarrow> bytes list \<Rightarrow> bool outcome" where
  "multisig_loop C chk flags scriptCode [] keys = Ok True"
| "multisig_loop C chk flags scriptCode (vchSig # sigs) [] = Ok False"
| "multisig_loop C chk flags scriptCode (vchSig # sigs) (vchPubKey # keys) =
     obind (check_encodings C flags vchSig vchPubKey) (\<lambda>_.
     obind (or_abort (CheckSig chk vchSig vchPubKey scriptCode)) (\<lambda>fOk.
       let sigs' = (if fOk then sigs else vchSig # sigs)
       in if length sigs' > length keys then Ok False
          else multisig_loop C chk flags scriptCode sigs' keys))"

primrec multisig_cleanup :: "bool \<Rightarrow> nat \<Rightarrow> nat \<Rightarrow> bytes list \<Rightarrow> bytes list outcome" where
  "multisig_cleanup nullfail 0 ikey2 s = Ok s"
| "multisig_cleanup nullfail (Suc i) ikey2 s =
     (case s of
        [] \<Rightarrow> Throw
      | x # s \<Rightarrow>
          if nullfail \<and> ikey2 = 0 \<and> length x \<noteq> 0 then Fail SCRIPT_ERR_SIG_NULLFAIL
          else multisig_cleanup nullfail i (if ikey2 > 0 then ikey2 - 1 else ikey2) s)"

definition multisig_finish :: "u32 \<Rightarrow> nat \<Rightarrow> bool \<Rightarrow> bytes list \<Rightarrow> bytes list outcome" where
  "multisig_finish flags opcode fSuccess s =
     (case s of
        [] \<Rightarrow> Fail SCRIPT_ERR_INVALID_STACK_OPERATION
      | x # s \<Rightarrow>
          if has_flag flags SCRIPT_VERIFY_NULLDUMMY \<and> length x \<noteq> 0 then Fail SCRIPT_ERR_SIG_NULLDUMMY
          else if opcode = OP_CHECKMULTISIGVERIFY
          then if fSuccess then Ok s else Fail SCRIPT_ERR_CHECKMULTISIGVERIFY
          else Ok (bool_vch fSuccess # s))"

definition op_checkmultisig ::
  "crypto \<Rightarrow> checker \<Rightarrow> u32 \<Rightarrow> bool \<Rightarrow> nat \<Rightarrow> exec_state \<Rightarrow> exec_state outcome" where
  "op_checkmultisig C chk flags fRequireMinimal opcode st =
     (let s = stack st
      in if length s < 1 then Fail SCRIPT_ERR_INVALID_STACK_OPERATION
      else obind (num_arg fRequireMinimal (s ! 0)) (\<lambda>bn.
        let nKeysCount = snum_getint bn
        in if nKeysCount < 0 \<or> nKeysCount > int MAX_PUBKEYS_PER_MULTISIG then Fail SCRIPT_ERR_PUBKEY_COUNT
        else let nKeys = nat nKeysCount; nOps = nOpCount st + nKeys
        in if nOps > MAX_OPS_PER_SCRIPT then Fail SCRIPT_ERR_OP_COUNT
        else let ikey = 2; ikey2 = nKeys + 2; i = ikey + nKeys
        in if length s < i then Fail SCRIPT_ERR_INVALID_STACK_OPERATION
        else obind (num_arg fRequireMinimal (s ! (i - 1))) (\<lambda>bn.
          let nSigsCount = snum_getint bn
          in if nSigsCount < 0 \<or> nSigsCount > nKeysCount then Fail SCRIPT_ERR_SIG_COUNT
          else let nSigs = nat nSigsCount; isig = i + 1; i = isig + nSigs
          in if length s < i then Fail SCRIPT_ERR_INVALID_STACK_OPERATION
          else let sigs = take nSigs (drop (isig - 1) s); keys = take nKeys (drop (ikey - 1) s)
          in obind (drop_sigs flags sigs (pbegincodehash st)) (\<lambda>scriptCode.
             obind (multisig_loop C chk flags scriptCode sigs keys) (\<lambda>fSuccess.
             obind (multisig_cleanup (\<not> fSuccess \<and> has_flag flags SCRIPT_VERIFY_NULLFAIL) (i - 1) ikey2 s) (\<lambda>s.
             obind (multisig_finish flags opcode fSuccess s) (\<lambda>s.
               Ok (st\<lparr>stack := s, nOpCount := nOps\<rparr>))))))))"


section \<open>Splice and conversion operations\<close>

definition op_cat :: "bytes list \<Rightarrow> bytes list outcome" where
  "op_cat s =
     (case s of
        vch2 # vch1 # s \<Rightarrow>
          if length vch1 + length vch2 > MAX_SCRIPT_ELEMENT_SIZE then Fail SCRIPT_ERR_PUSH_SIZE
          else Ok ((vch1 @ vch2) # s)
      | _ \<Rightarrow> Fail SCRIPT_ERR_INVALID_STACK_OPERATION)"

definition op_split :: "bool \<Rightarrow> bytes list \<Rightarrow> bytes list outcome" where
  "op_split fRequireMinimal s =
     (case s of
        x # vch # s \<Rightarrow>
          obind (num_arg fRequireMinimal x) (\<lambda>bn.
            let nPosition = snum_getint bn
            in if nPosition < 0 \<or> nPosition > int (length vch) then Fail SCRIPT_ERR_INVALID_SPLIT_RANGE
               else if nPosition = 0 then Ok (vch # [] # s)
               else if nPosition = int (length vch) then Ok ([] # vch # s)
               else Ok (drop (nat nPosition) vch # take (nat nPosition) vch # s))
      | _ \<Rightarrow> Fail SCRIPT_ERR_INVALID_STACK_OPERATION)"

text \<open>A negative size becomes a huge unsigned number and is refused by the first test.\<close>

definition op_num2bin :: "bool \<Rightarrow> bytes list \<Rightarrow> bytes list outcome" where
  "op_num2bin fRequireMinimal s =
     (case s of
        x # rawnum # s \<Rightarrow>
          obind (num_arg fRequireMinimal x) (\<lambda>bn.
            let size = nat (snum_getint bn mod 2 ^ 64)
            in if size > MAX_SCRIPT_ELEMENT_SIZE then Fail SCRIPT_ERR_PUSH_SIZE
            else let rawnum = snd (MinimallyEncode rawnum)
            in if length rawnum > size then Fail SCRIPT_ERR_IMPOSSIBLE_ENCODING
            else if length rawnum = size then Ok (rawnum # s)
            else let signbit = (if length rawnum > 0 then last rawnum AND 0x80 else 0);
                     rawnum = (if length rawnum > 0 then butlast rawnum @ [last rawnum AND 0x7f] else rawnum)
            in Ok ((rawnum @ replicate (size - 1 - length rawnum) 0 @ [signbit]) # s))
      | _ \<Rightarrow> Fail SCRIPT_ERR_INVALID_STACK_OPERATION)"

definition op_bin2num :: "bytes list \<Rightarrow> bytes list outcome" where
  "op_bin2num s =
     (case s of
        n # s \<Rightarrow>
          let n = snd (MinimallyEncode n)
          in if \<not> IsMinimallyEncoded n nDefaultMaxNumSize then Fail SCRIPT_ERR_INVALID_NUMBER_RANGE
             else Ok (n # s)
      | _ \<Rightarrow> Fail SCRIPT_ERR_INVALID_STACK_OPERATION)"

end
