(* ===== verification/Script_Safety.thy ===== *)
theory Script_Safety
  imports Script_Interp
begin

unbundle bit_operations_syntax

text \<open>
  Safety of the script interpreter: every operation keeps the size limits and never fails an
  assertion, so \<^verbatim>\<open>EvalScript\<close> is total and safe; an accepted script respects the limits on
  its operations; and \<^verbatim>\<open>IsUnspendable\<close> is sound.
\<close>


section \<open>Safe outcomes\<close>

text \<open>
  An outcome is safe for a predicate when it is no abort, its result, if there is one,
  satisfies the predicate, and its error, if there is one, is not the code of success.
\<close>

definition osafe :: "('a \<Rightarrow> bool) \<Rightarrow> 'a outcome \<Rightarrow> bool" where
  "osafe P r = (case r of Ok x \<Rightarrow> P x | Fail e \<Rightarrow> e \<noteq> SCRIPT_ERR_OK | Throw \<Rightarrow> True | Abort \<Rightarrow> False)"

lemma osafe_simps [simp]:
  "osafe P (Ok x) = P x" "osafe P (Fail e) \<longleftrightarrow> e \<noteq> SCRIPT_ERR_OK" "osafe P Throw" "\<not> osafe P Abort"
  by (simp_all add: osafe_def)

lemma osafe_bind: "osafe Q r \<Longrightarrow> (\<And>x. Q x \<Longrightarrow> osafe P (f x)) \<Longrightarrow> osafe P (obind r f)"
  by (cases r) simp_all

lemma osafe_bind_iff: "osafe P (obind r f) \<longleftrightarrow> osafe (\<lambda>x. osafe P (f x)) r"
  by (cases r) simp_all

lemma osafe_mono: "osafe Q r \<Longrightarrow> (\<And>x. Q x \<Longrightarrow> P x) \<Longrightarrow> osafe P r"
  by (cases r) simp_all

lemma osafe_or_throw [simp]: "osafe P (or_throw x) \<longleftrightarrow> (\<forall>y. x = Some y \<longrightarrow> P y)"
  by (simp add: or_throw_def split: option.splits)

lemma osafe_or_abort [simp]: "osafe P (or_abort x) \<longleftrightarrow> (\<exists>y. x = Some y \<and> P y)"
  by (simp add: or_abort_def split: option.splits)

lemma osafe_check: "osafe P (check e) \<longleftrightarrow> (e = None \<longrightarrow> P ()) \<and> e \<noteq> Some SCRIPT_ERR_OK"
  by (simp add: check_def split: option.splits)

lemmas osafe_split = list.splits if_splits option.splits prod.splits

definition small :: "bytes \<Rightarrow> bool" where
  "small x \<longleftrightarrow> length x \<le> MAX_SCRIPT_ELEMENT_SIZE"

abbreviation (input) smalls :: "bytes list \<Rightarrow> bool" where
  "smalls s \<equiv> \<forall>x \<in> set s. small x"

text \<open>Script numbers that an arithmetic operation reads or returns are far inside 64 bits.\<close>

lemma num_arg_range: "osafe (\<lambda>v. \<bar>v\<bar> < 2 ^ 31) (num_arg m x)"
proof -
  have "\<bar>set_vch x\<bar> < 2 ^ 31" if "length x \<le> 4"
    using snum_val_range [of x 4] that by (simp add: set_vch_val)
  then show ?thesis by (auto simp: num_arg_def script_num_Some)
qed

lemma small_serialize: "\<bar>v\<bar> < 2 ^ 63 \<Longrightarrow> small (snum_serialize v)"
  using length_serialize_le [of v 8] by (simp add: small_def)

lemma small_bool [simp]: "small (bool_vch b)" "small []"
  by (simp_all add: small_def bool_vch_def)

lemma num_unary_range:
  assumes "\<bar>v\<bar> < 2 ^ 31" "opcode \<in> {OP_1ADD, OP_1SUB, OP_NEGATE, OP_ABS, OP_NOT, OP_0NOTEQUAL}"
  shows "\<exists>r. num_unary opcode v = Some r \<and> \<bar>r\<bar> < 2 ^ 63"
  using assms
  by (auto simp: num_unary_def snum_add_assign_def snum_sub_assign_def snum_neg_def int64_min_def
      int64_max_def int_bool_def)

lemma snum_div_mod_range:
  assumes "\<bar>a\<bar> < 2 ^ 31" "b \<noteq> 0"
  shows "\<bar>snum_div a b\<bar> < 2 ^ 31" "\<bar>snum_mod a b\<bar> < 2 ^ 31"
proof -
  have "\<bar>a\<bar> div \<bar>b\<bar> \<le> \<bar>a\<bar>" using zdiv_mono2 [of "\<bar>a\<bar>" 1 "\<bar>b\<bar>"] assms(2) by simp
  moreover have "0 \<le> \<bar>a\<bar> div \<bar>b\<bar>" using assms(2) by (simp add: pos_imp_zdiv_nonneg_iff)
  ultimately show "\<bar>snum_div a b\<bar> < 2 ^ 31"
    using assms by (simp add: snum_div_def abs_mult)
  have "\<bar>a\<bar> mod \<bar>b\<bar> \<le> \<bar>a\<bar>" by (rule zmod_le_nonneg_dividend) simp
  then show "\<bar>snum_mod a b\<bar> < 2 ^ 31" using assms by (simp add: snum_mod_def abs_mult)
qed
definition hash_sizes :: "crypto \<Rightarrow> bool" where
  "hash_sizes C \<longleftrightarrow> (\<forall>x. length (RIPEMD160 C x) = 20 \<and> length (SHA1 C x) = 20 \<and> length (SHA256 C x) = 32)"

definition never_aborts :: "checker \<Rightarrow> bool" where
  "never_aborts chk \<longleftrightarrow> (\<forall>sig key code. CheckSig chk sig key code \<noteq> None)"

lemma safe_rearrange:
  assumes "smalls s"
  shows "osafe smalls (op_2drop s)" "osafe smalls (op_2dup s)" "osafe smalls (op_3dup s)"
    "osafe smalls (op_2over s)" "osafe smalls (op_2rot s)" "osafe smalls (op_2swap s)"
    "osafe smalls (op_ifdup s)" "osafe smalls (op_drop s)" "osafe smalls (op_dup s)"
    "osafe smalls (op_nip s)" "osafe smalls (op_over s)" "osafe smalls (op_rot s)"
    "osafe smalls (op_swap s)" "osafe smalls (op_tuck s)"
  using assms
  by (auto simp: op_2drop_def op_2dup_def op_3dup_def op_2over_def op_2rot_def op_2swap_def op_ifdup_def
      op_drop_def op_dup_def op_nip_def op_over_def op_rot_def op_swap_def op_tuck_def split: list.splits)

lemma small_nth: "smalls s \<Longrightarrow> n < length s \<Longrightarrow> small (s ! n)"
  by simp

lemma safe_pick_roll:
  assumes "smalls s"
  shows "osafe smalls (op_pick_roll m opcode s)"
proof -
  have "osafe smalls (op_pick_roll m opcode (x # y # s'))" if s: "s = x # y # s'" for x y s'
  proof -
    define t where "t = y # s'"
    have t: "smalls t" using assms s by (simp add: t_def)
    show ?thesis
      unfolding op_pick_roll_def list.case
      unfolding t_def [symmetric]
      by (rule osafe_bind [OF num_arg_range])
        (use t in \<open>auto simp: Let_def small_nth nat_less_iff dest: in_set_takeD in_set_dropD\<close>)
  qed
  then show ?thesis using assms by (auto simp: op_pick_roll_def split: list.splits)
qed

lemma safe_size_depth:
  assumes "smalls s" "length s \<le> MAX_STACK_SIZE"
  shows "osafe smalls (op_size s)" "osafe smalls (op_depth s)"
  using assms
  by (auto simp: op_size_def op_depth_def small_def intro!: small_serialize [unfolded small_def]
      split: list.splits)

lemma safe_equal_bitwise:
  assumes "smalls s"
  shows "osafe smalls (op_equal opcode s)" "osafe smalls (op_bitwise opcode s)"
  using assms
  by (auto simp: op_equal_def op_bitwise_def Let_def small_def bool_vch_def split: list.splits)

lemma safe_unary:
  assumes "smalls s" "opcode \<in> {OP_1ADD, OP_1SUB, OP_NEGATE, OP_ABS, OP_NOT, OP_0NOTEQUAL}"
  shows "osafe smalls (op_unary m opcode s)"
proof (cases s)
  case (Cons x s')
  have "osafe smalls (obind (num_arg m x) (\<lambda>bn. obind (or_abort (num_unary opcode bn)) (\<lambda>bn. Ok (snum_serialize bn # s'))))"
  proof (rule osafe_bind [OF num_arg_range])
    fix v :: int
    assume "\<bar>v\<bar> < 2 ^ 31"
    then obtain y where "num_unary opcode v = Some y" "small (snum_serialize y)"
      using num_unary_range [OF _ assms(2)] small_serialize by blast
    then show "osafe smalls (obind (or_abort (num_unary opcode v)) (\<lambda>bn. Ok (snum_serialize bn # s')))"
      using assms(1) Cons by (simp add: osafe_bind_iff)
  qed
  then show ?thesis using Cons by (simp add: op_unary_def)
qed (simp add: op_unary_def)

lemma num_binary_range:
  assumes "\<bar>a\<bar> < 2 ^ 31" "\<bar>b\<bar> < 2 ^ 31"
    "opcode \<in> {OP_ADD, OP_SUB, OP_DIV, OP_MOD, OP_BOOLAND, OP_BOOLOR, OP_NUMEQUAL,
      OP_NUMEQUALVERIFY, OP_NUMNOTEQUAL, OP_LESSTHAN, OP_GREATERTHAN, OP_LESSTHANOREQUAL,
      OP_GREATERTHANOREQUAL, OP_MIN, OP_MAX}"
  shows "osafe (\<lambda>r. \<bar>r\<bar> < 2 ^ 32) (num_binary opcode a b)"
proof -
  have "snum_add a b = a + b" "snum_sub a b = a - b"
    using assms(1,2) by (simp_all add: snum_add_def snum_sub_def wrap64_id int64_min_def int64_max_def)
  then have r: "\<bar>snum_add a b\<bar> < 4294967296" "\<bar>snum_sub a b\<bar> < 4294967296" "\<bar>a\<bar> < 4294967296" "\<bar>b\<bar> < 4294967296"
    "b \<noteq> 0 \<Longrightarrow> \<bar>snum_div a b\<bar> < 4294967296" "b \<noteq> 0 \<Longrightarrow> \<bar>snum_mod a b\<bar> < 4294967296"
    using assms(1,2) snum_div_mod_range [of a b] by simp_all
  from assms(3) show ?thesis
    by (elim insertE emptyE) (simp_all add: num_binary_def int_bool_def r)
qed

lemma safe_binary:
  assumes "smalls s"
    "opcode \<in> {OP_ADD, OP_SUB, OP_DIV, OP_MOD, OP_BOOLAND, OP_BOOLOR, OP_NUMEQUAL,
      OP_NUMEQUALVERIFY, OP_NUMNOTEQUAL, OP_LESSTHAN, OP_GREATERTHAN, OP_LESSTHANOREQUAL,
      OP_GREATERTHANOREQUAL, OP_MIN, OP_MAX}"
  shows "osafe smalls (op_binary m opcode s)"
proof -
  have "osafe smalls (op_binary m opcode (x2 # x1 # s'))" if s: "s = x2 # x1 # s'" for x1 x2 s'
    unfolding op_binary_def list.case
  proof (rule osafe_bind [OF num_arg_range], rule osafe_bind [OF num_arg_range],
      rule osafe_bind [OF num_binary_range [OF _ _ assms(2)]])
    fix r :: int
    assume "\<bar>r\<bar> < 2 ^ 32"
    then have "small (snum_serialize r)" by (intro small_serialize) simp
    then show "osafe smalls (let vch = snum_serialize r
            in if opcode = OP_NUMEQUALVERIFY
               then if CastToBool vch then Ok s' else Fail SCRIPT_ERR_NUMEQUALVERIFY
               else Ok (vch # s'))"
      using assms(1) s by (simp add: Let_def)
  qed
  then show ?thesis using assms by (cases s rule: remdups_adj.cases) (simp_all add: op_binary_def)
qed

lemma safe_within: "smalls s \<Longrightarrow> osafe smalls (op_within m s)"
  by (auto simp: op_within_def osafe_bind_iff split: list.splits intro!: osafe_mono [OF num_arg_range])

lemma safe_hash:
  assumes "smalls s" "hash_sizes C"
  shows "osafe smalls (op_hash C opcode s)"
proof -
  have "small (RIPEMD160 C x)" "small (SHA1 C x)" "small (SHA256 C x)" for x
    using assms(2) by (simp_all add: small_def hash_sizes_def)
  then show ?thesis using assms(1) by (auto simp: op_hash_def Hash160_def Hash256_def small_def split: list.splits)
qed
lemma safe_splice:
  assumes "smalls s"
  shows "osafe smalls (op_cat s)" "osafe smalls (op_bin2num s)"
  using assms
  by (auto simp: op_cat_def op_bin2num_def Let_def small_def IsMinimallyEncoded_def split: list.splits if_splits)

lemma safe_split: 
  assumes "smalls s"
  shows "osafe smalls (op_split m s)"
proof -
  have "osafe smalls (op_split m (x # v # s'))" if s: "s = x # v # s'" for x v s'
    unfolding op_split_def list.case
    by (rule osafe_bind [OF num_arg_range]) (use assms s in \<open>auto simp: Let_def small_def\<close>)
  then show ?thesis using assms by (cases s rule: remdups_adj.cases) (simp_all add: op_split_def)
qed

lemma safe_num2bin:
  assumes "smalls s"
  shows "osafe smalls (op_num2bin m s)"
proof -
  have "osafe smalls (op_num2bin m (x # v # s'))" if s: "s = x # v # s'" for x v s'
    unfolding op_num2bin_def list.case
    by (rule osafe_bind [OF num_arg_range]) (use assms s in \<open>auto simp: Let_def small_def\<close>)
  then show ?thesis using assms by (cases s rule: remdups_adj.cases) (simp_all add: op_num2bin_def)
qed

lemma osafe_check_encodings [simp]: "osafe (\<lambda>_. True) (check_encodings C flags sig key)"
  by (simp add: check_encodings_def osafe_bind_iff osafe_check CheckSignatureEncoding_def
      IsLowDERSignature_def CheckPubKeyEncoding_def)

lemma safe_checkdatasig:
  assumes "smalls s"
  shows "osafe smalls (op_checkdatasig C flags opcode s)"
  unfolding op_checkdatasig_def
  using assms by (auto simp: Let_def split: list.splits intro!: osafe_bind [OF osafe_check_encodings])

definition state_ok :: "exec_state \<Rightarrow> bool" where
  "state_ok st \<longleftrightarrow> smalls (stack st) \<and> smalls (altstack st) \<and> nOpCount st \<le> MAX_OPS_PER_SCRIPT"

lemma safe_on_stack:
  assumes "state_ok st" "osafe smalls (f (stack st))"
  shows "osafe state_ok (on_stack f st)"
  using assms by (auto simp: on_stack_def state_ok_def osafe_bind_iff elim: osafe_mono)

lemma safe_control:
  assumes "state_ok st"
  shows "osafe state_ok (op_checklocktimeverify chk flags m st)"
    "osafe state_ok (op_checksequenceverify chk flags m st)" "osafe state_ok (op_nop_upgradable flags st)"
    "osafe state_ok (op_if e opcode st)" "osafe state_ok (op_else st)" "osafe state_ok (op_endif st)"
    "osafe state_ok (op_verify st)" "osafe state_ok (op_return st)" "osafe state_ok (op_toaltstack st)"
    "osafe state_ok (op_fromaltstack st)" "osafe state_ok (op_codeseparator pc st)"
  using assms
  by (auto simp: op_checklocktimeverify_def op_checksequenceverify_def op_nop_upgradable_def op_if_def
      op_else_def op_endif_def op_verify_def op_return_def op_toaltstack_def op_fromaltstack_def
      op_codeseparator_def osafe_bind_iff Let_def state_ok_def split: list.splits)

lemma safe_small_int:
  assumes "state_ok st" "opcode \<le> OP_16"
  shows "osafe state_ok (op_small_int opcode st)"
proof -
  have "small (snum_serialize (int opcode - (int OP_1 - 1)))"
    using assms(2) by (intro small_serialize) simp
  then show ?thesis using assms by (simp add: op_small_int_def state_ok_def)
qed

lemma safe_drop_sig [simp]: "osafe (\<lambda>_. True) (drop_sig flags code sig)"
  by (simp add: drop_sig_def Let_def split: prod.splits)

lemma safe_CheckSig: "never_aborts chk \<Longrightarrow> osafe (\<lambda>_. True) (or_abort (CheckSig chk sig key code))"
  by (simp add: never_aborts_def)

lemma safe_checksig:
  assumes "state_ok st" "never_aborts chk"
  shows "osafe state_ok (op_checksig C chk flags opcode st)"
  unfolding op_checksig_def
  using assms(1)
  by (auto simp: state_ok_def split: list.splits
      intro!: osafe_bind [OF safe_drop_sig] osafe_bind [OF osafe_check_encodings]
        osafe_bind [OF safe_CheckSig [OF assms(2)]])

lemma safe_drop_sigs: "osafe (\<lambda>_. True) (drop_sigs flags sigs code)"
  by (induction sigs arbitrary: code) (auto intro: osafe_bind [OF safe_drop_sig])

lemma safe_multisig_loop:
  assumes "never_aborts chk"
  shows "osafe (\<lambda>_. True) (multisig_loop C chk flags code sigs keys)"
  using assms
proof (induction C chk flags code sigs keys rule: multisig_loop.induct)
  case (3 C chk flags code sig sigs key keys)
  show ?case
    by (auto simp: Let_def "3.prems" intro!: osafe_bind [OF osafe_check_encodings]
        osafe_bind [OF safe_CheckSig [OF "3.prems"]] "3.IH")
qed simp_all

lemma safe_multisig_cleanup:
  "smalls s \<Longrightarrow> osafe smalls (multisig_cleanup nf i k s)"
  by (induction i arbitrary: k s) (auto split: list.splits)

lemma safe_multisig_finish: "smalls s \<Longrightarrow> osafe smalls (multisig_finish flags opcode ok s)"
  by (auto simp: multisig_finish_def split: list.splits)

lemma safe_checkmultisig:
  assumes "state_ok st" "never_aborts chk"
  shows "osafe state_ok (op_checkmultisig C chk flags m opcode st)"
proof -
  note steps = osafe_bind [OF num_arg_range] osafe_bind [OF safe_drop_sigs]
    osafe_bind [OF safe_multisig_loop [OF assms(2)]] osafe_bind [OF safe_multisig_cleanup]
    osafe_bind [OF safe_multisig_finish]
  show ?thesis
    unfolding op_checkmultisig_def Let_def
    using assms(1) by (auto simp: state_ok_def simp del: multisig_cleanup.simps intro!: steps)
qed

lemma osafe_if: "(c \<Longrightarrow> osafe P a) \<Longrightarrow> (\<not> c \<Longrightarrow> osafe P b) \<Longrightarrow> osafe P (if c then a else b)"
  by simp

lemma safe_exec_op:
  assumes "state_ok st" "length (stack st) \<le> MAX_STACK_SIZE" "never_aborts chk" "hash_sizes C"
  shows "osafe state_ok (exec_op C chk flags m e opcode pc st)"
proof -
  have s: "smalls (stack st)" using assms(1) by (simp add: state_ok_def)
  note ops = safe_on_stack [OF assms(1)] safe_rearrange [OF s] safe_pick_roll [OF s] safe_size_depth [OF s assms(2)]
    safe_equal_bitwise [OF s] safe_unary [OF s] safe_binary [OF s] safe_within [OF s] safe_hash [OF s assms(4)]
    safe_splice [OF s] safe_split [OF s] safe_num2bin [OF s] safe_checkdatasig [OF s]
    safe_control [OF assms(1)] safe_small_int [OF assms(1)] safe_checksig [OF assms(1,3)]
    safe_checkmultisig [OF assms(1,3)]
  show ?thesis
    unfolding exec_op_def by (intro osafe_if ops) (use assms(1) in auto)
qed

lemma safe_push_value:
  assumes "state_ok st" "small v" "opcode \<le> OP_PUSHDATA4"
  shows "osafe state_ok (push_value m opcode v st)"
  using assms by (simp add: push_value_def osafe_bind_iff CheckMinimalPush_def state_ok_def)

text \<open>Between two turns of the loop the limits on the stack hold.\<close>

definition loop_ok :: "exec_state \<Rightarrow> bool" where
  "loop_ok st \<longleftrightarrow> state_ok st \<and> length (stack st) + length (altstack st) \<le> MAX_STACK_SIZE"

lemma safe_eval_step:
  assumes "loop_ok st" "never_aborts chk" "hash_sizes C"
  shows "osafe loop_ok (eval_step C chk flags opcode v pc st)"
proof -
  let ?st = "if opcode > OP_16 then st\<lparr>nOpCount := nOpCount st + 1\<rparr> else st"
  let ?m = "has_flag flags SCRIPT_VERIFY_MINIMALDATA" and ?e = "list_all id (vfExec st)"
  let ?body = "if ?e \<and> opcode \<le> OP_PUSHDATA4 then push_value ?m opcode v ?st
    else if ?e \<or> OP_IF \<le> opcode \<and> opcode \<le> OP_ENDIF then exec_op C chk flags ?m ?e opcode pc ?st
    else Ok ?st"
  have *: "osafe state_ok ?body" if "small v" "\<not> (opcode > OP_16 \<and> nOpCount ?st > MAX_OPS_PER_SCRIPT)"
  proof -
    have "state_ok ?st" "length (stack ?st) \<le> MAX_STACK_SIZE"
      using assms(1) that(2) by (auto simp: loop_ok_def state_ok_def)
    then show ?thesis using that(1) assms by (intro osafe_if safe_push_value safe_exec_op) simp_all
  qed
  show ?thesis
    unfolding eval_step_def Let_def
    by (intro osafe_if osafe_bind [OF *]) (simp_all add: small_def loop_ok_def)
qed

lemma safe_eval_loop:
  assumes "loop_ok st" "never_aborts chk" "hash_sizes C"
  shows "osafe loop_ok (eval_loop C chk flags pc st)"
  using assms
proof (induction C chk flags pc st rule: eval_loop.induct)
  case (1 C chk flags pc st)
  show ?case
  proof (cases "pc = []")
    case True
    then show ?thesis using "1.prems" by (simp add: eval_loop.simps)
  next
    case False
    obtain rest r where g: "GetScriptOp pc = (rest, r)" by (cases "GetScriptOp pc")
    show ?thesis
    proof (cases r)
      case None
      then show ?thesis using False g by (simp add: eval_loop.simps)
    next
      case (Some op)
      obtain opcode v where op: "op = (opcode, v)" by (cases op)
      show ?thesis
        using False g Some op "1.prems"
        by (subst eval_loop.simps)
          (auto intro!: osafe_bind [OF safe_eval_step] "1.IH" [OF False g [symmetric] Some op [symmetric]])
    qed
  qed
qed

lemma EvalScript_safe:
  assumes "smalls stk" "length stk \<le> MAX_STACK_SIZE" "never_aborts chk" "hash_sizes C"
  shows "(\<exists>s. EvalScript C chk flags stk script = Ok s \<and> smalls s \<and> length s \<le> MAX_STACK_SIZE) \<or>
    (\<exists>e. EvalScript C chk flags stk script = Fail e \<and> e \<noteq> SCRIPT_ERR_OK)"
proof -
  let ?st = "\<lparr>stack = stk, altstack = [], vfExec = [], nOpCount = 0, pbegincodehash = script\<rparr>"
  have "osafe loop_ok (eval_loop C chk flags script ?st)"
    using assms by (intro safe_eval_loop) (simp_all add: loop_ok_def state_ok_def)
  then show ?thesis
    by (cases "eval_loop C chk flags script ?st") (auto simp: EvalScript_def loop_ok_def state_ok_def)
qed


section \<open>What an accepted script keeps\<close>

text \<open>
  A script that \<^verbatim>\<open>EvalScript\<close> accepts decodes to its end; its operations respect the
  limits whether they are executed or not.
\<close>

definition op_allowed :: "u32 \<Rightarrow> nat \<times> bytes \<Rightarrow> bool" where
  "op_allowed flags op \<longleftrightarrow> length (snd op) \<le> MAX_SCRIPT_ELEMENT_SIZE \<and> fst op \<notin> disabled_opcodes \<and>
     fst op \<notin> {OP_VERIF, OP_VERNOTIF} \<and>
     (has_flag flags SCRIPT_ENABLE_DIP0020_OPCODES \<or> fst op \<notin> dip0020_opcodes) \<and>
     (has_flag flags SCRIPT_VERIFY_CONST_SCRIPTCODE \<longrightarrow> fst op \<noteq> OP_CODESEPARATOR)"

definition counted_ops :: "(nat \<times> bytes) list \<Rightarrow> nat" where
  "counted_ops ops = length (filter (\<lambda>op. fst op > OP_16) ops)"

lemma obind_Ok: "obind r f = Ok y \<longleftrightarrow> (\<exists>x. r = Ok x \<and> f x = Ok y)"
  by (cases r) simp_all

lemma or_Ok [simp]: "or_throw x = Ok y \<longleftrightarrow> x = Some y" "or_abort x = Ok y \<longleftrightarrow> x = Some y"
  by (auto simp: or_throw_def or_abort_def split: option.splits)

text \<open>The predicate a successful outcome satisfies.\<close>

definition oensures :: "('a \<Rightarrow> bool) \<Rightarrow> 'a outcome \<Rightarrow> bool" where
  "oensures P r \<longleftrightarrow> (\<forall>x. r = Ok x \<longrightarrow> P x)"

lemma oensures_if: "(c \<Longrightarrow> oensures P a) \<Longrightarrow> (\<not> c \<Longrightarrow> oensures P b) \<Longrightarrow> oensures P (if c then a else b)"
  by simp

lemma oensures_simps [simp]: "oensures P (Ok x) = P x" "oensures P (Fail e)"
  by (simp_all add: oensures_def)

definition ops_grow :: "exec_state \<Rightarrow> exec_state \<Rightarrow> bool" where
  "ops_grow st st' \<longleftrightarrow> nOpCount st \<le> nOpCount st' \<and>
     (nOpCount st \<le> MAX_OPS_PER_SCRIPT \<longrightarrow> nOpCount st' \<le> MAX_OPS_PER_SCRIPT)"

lemma ops_grow_on_stack: "oensures (ops_grow st) (on_stack f st)"
  by (auto simp: oensures_def ops_grow_def on_stack_def obind_Ok)

lemma ops_grow_control:
  "oensures (ops_grow st) (op_small_int opcode st)"
  "oensures (ops_grow st) (op_checklocktimeverify chk flags m st)"
  "oensures (ops_grow st) (op_checksequenceverify chk flags m st)"
  "oensures (ops_grow st) (op_nop_upgradable flags st)"
  "oensures (ops_grow st) (op_if e opcode st)"
  "oensures (ops_grow st) (op_else st)"
  "oensures (ops_grow st) (op_endif st)"
  "oensures (ops_grow st) (op_verify st)"
  "oensures (ops_grow st) (op_return st)"
  "oensures (ops_grow st) (op_toaltstack st)"
  "oensures (ops_grow st) (op_fromaltstack st)"
  "oensures (ops_grow st) (op_codeseparator pc st)"
  "oensures (ops_grow st) (op_checksig C chk flags opcode st)"
  by (auto simp: oensures_def ops_grow_def op_small_int_def op_checklocktimeverify_def op_checksequenceverify_def
      op_nop_upgradable_def op_if_def op_else_def op_endif_def op_verify_def op_return_def
      op_toaltstack_def op_fromaltstack_def op_codeseparator_def op_checksig_def obind_Ok Let_def
      split: list.splits if_splits)

lemma ops_grow_multisig: "oensures (ops_grow st) (op_checkmultisig C chk flags m opcode st)"
  unfolding op_checkmultisig_def Let_def
  by (auto simp: oensures_def ops_grow_def obind_Ok simp del: multisig_cleanup.simps split: if_splits)

lemma ops_grow_exec_op: "oensures (ops_grow st) (exec_op C chk flags m e opcode pc st)"
  unfolding exec_op_def
  by (intro oensures_if ops_grow_on_stack ops_grow_control ops_grow_multisig) (simp_all add: ops_grow_def)

lemma exec_op_unknown: "opcode \<in> {OP_VERIF, OP_VERNOTIF} \<Longrightarrow> exec_op C chk flags m e opcode pc st = Fail SCRIPT_ERR_BAD_OPCODE"
  by (auto simp: exec_op_def)

lemma eval_step_Ok:
  assumes "eval_step C chk flags opcode v pc st = Ok st'" "nOpCount st \<le> MAX_OPS_PER_SCRIPT"
  shows "op_allowed flags (opcode, v) \<and> nOpCount st + counted_ops [(opcode, v)] \<le> nOpCount st' \<and>
    nOpCount st' \<le> MAX_OPS_PER_SCRIPT"
proof -
  let ?st = "if opcode > OP_16 then st\<lparr>nOpCount := nOpCount st + 1\<rparr> else st"
  let ?m = "has_flag flags SCRIPT_VERIFY_MINIMALDATA" and ?e = "list_all id (vfExec st)"
  have ok: "length v \<le> MAX_SCRIPT_ELEMENT_SIZE" "\<not> (opcode > OP_16 \<and> nOpCount ?st > MAX_OPS_PER_SCRIPT)"
    "has_flag flags SCRIPT_ENABLE_DIP0020_OPCODES \<or> opcode \<notin> dip0020_opcodes" "opcode \<notin> disabled_opcodes"
    "has_flag flags SCRIPT_VERIFY_CONST_SCRIPTCODE \<longrightarrow> opcode \<noteq> OP_CODESEPARATOR"
    and b: "(if ?e \<and> opcode \<le> OP_PUSHDATA4 then push_value ?m opcode v ?st
      else if ?e \<or> OP_IF \<le> opcode \<and> opcode \<le> OP_ENDIF then exec_op C chk flags ?m ?e opcode pc ?st
      else Ok ?st) = Ok st'"
    using assms(1) unfolding eval_step_def Let_def
    by (simp_all only: obind_Ok outcome.simps not_less split: if_splits) auto
  have "opcode \<notin> {OP_VERIF, OP_VERNOTIF}"
    using b exec_op_unknown [of opcode C chk flags ?m ?e pc ?st] by (auto split: if_splits)
  moreover have "nOpCount ?st \<le> nOpCount st' \<and> nOpCount st' \<le> MAX_OPS_PER_SCRIPT"
    using b ok(2) assms(2) ops_grow_exec_op [of ?st C chk flags ?m ?e opcode pc]
    by (auto simp: push_value_def obind_Ok oensures_def ops_grow_def split: if_splits)
  ultimately show ?thesis using ok by (auto simp: op_allowed_def counted_ops_def split: if_splits)
qed

lemma eval_loop_Ok:
  assumes "eval_loop C chk flags pc st = Ok st'" "nOpCount st \<le> MAX_OPS_PER_SCRIPT"
  shows "snd (script_ops pc) \<and> (\<forall>op \<in> set (fst (script_ops pc)). op_allowed flags op) \<and>
    nOpCount st + counted_ops (fst (script_ops pc)) \<le> nOpCount st' \<and> nOpCount st' \<le> MAX_OPS_PER_SCRIPT"
  using assms
proof (induction C chk flags pc st rule: eval_loop.induct)
  case (1 C chk flags pc st)
  show ?case
  proof (cases pc)
    case Nil
    then show ?thesis using "1.prems" by (simp add: eval_loop.simps counted_ops_def)
  next
    case (Cons c cs)
    then have ne: "pc \<noteq> []" by simp
    obtain rest r where g: "GetScriptOp pc = (rest, r)" by (cases "GetScriptOp pc")
    then obtain opcode v where r: "r = Some (opcode, v)"
      using "1.prems"(1) ne by (subst (asm) eval_loop.simps) (auto split: option.splits)
    then obtain st1 where st1: "eval_step C chk flags opcode v rest st = Ok st1"
      "eval_loop C chk flags rest st1 = Ok st'"
      using "1.prems"(1) ne g by (subst (asm) eval_loop.simps) (auto simp: obind_Ok)
    note step = eval_step_Ok [OF st1(1) "1.prems"(2)]
    note IH = "1.IH" [OF ne g [symmetric] r refl st1(2)]
    have "script_ops pc = ((opcode, v) # fst (script_ops rest), snd (script_ops rest))"
      using g r Cons by (simp split: prod.splits)
    then show ?thesis using step IH by (simp add: counted_ops_def split: if_splits)
  qed
qed

lemma EvalScript_Ok_limits:
  assumes "EvalScript C chk flags stk script = Ok s"
  shows "length script \<le> MAX_SCRIPT_SIZE \<and> snd (script_ops script) \<and>
    (\<forall>op \<in> set (fst (script_ops script)). op_allowed flags op) \<and>
    counted_ops (fst (script_ops script)) \<le> MAX_OPS_PER_SCRIPT"
proof -
  let ?st = "\<lparr>stack = stk, altstack = [], vfExec = [], nOpCount = 0, pbegincodehash = script\<rparr>"
  obtain st' where l: "length script \<le> MAX_SCRIPT_SIZE" "eval_loop C chk flags script ?st = Ok st'"
    using assms unfolding EvalScript_def by (auto split: if_splits outcome.splits)
  then show ?thesis using eval_loop_Ok [OF l(2)] by auto
qed

lemma EvalScript_OP_RETURN:
  assumes "s = word_of_nat OP_RETURN # rest" "length s \<le> MAX_SCRIPT_SIZE"
  shows "EvalScript C chk flags stk s = Fail SCRIPT_ERR_OP_RETURN"
proof -
  have "GetScriptOp s = (rest, Some (OP_RETURN, []))" using assms(1) by (simp add: GetScriptOp_def)
  then have "eval_loop C chk flags s
      \<lparr>stack = stk, altstack = [], vfExec = [], nOpCount = 0, pbegincodehash = s\<rparr> = Fail SCRIPT_ERR_OP_RETURN"
    using assms(1) by (subst eval_loop.simps) (simp add: eval_step_def exec_op_def op_return_def)
  then show ?thesis using assms(2) by (simp add: EvalScript_def)
qed

lemma EvalScript_unspendable: "IsUnspendable s \<Longrightarrow> \<exists>e. EvalScript C chk flags stk s = Fail e"
proof -
  assume u: "IsUnspendable s"
  show ?thesis
  proof (cases "length s \<le> MAX_SCRIPT_SIZE")
    case True
    then have "s = word_of_nat OP_RETURN # tl s" using u by (cases s) (auto simp: IsUnspendable_def)
    then show ?thesis using EvalScript_OP_RETURN [OF _ True] by blast
  qed (simp add: EvalScript_def)
qed


section \<open>Properties\<close>

text \<open>The signature checker of the base class, and hash functions for the examples.\<close>

definition BaseSignatureChecker :: checker where
  "BaseSignatureChecker = \<lparr>CheckSig = \<lambda>_ _ _. Some False, CheckLockTime = \<lambda>_. False, CheckSequence = \<lambda>_. False\<rparr>"

definition const_crypto :: crypto where
  "const_crypto = \<lparr>RIPEMD160 = \<lambda>_. replicate 20 0, SHA1 = \<lambda>_. replicate 20 0, SHA256 = \<lambda>_. replicate 32 0,
     CheckLowS = \<lambda>_. True, PubKeyVerify = \<lambda>_ _ _. False\<rparr>"

lemma example_environment: "never_aborts BaseSignatureChecker" "hash_sizes const_crypto"
  by (simp_all add: never_aborts_def BaseSignatureChecker_def hash_sizes_def const_crypto_def)

text \<open>
  C3. The interpreter is total and safe: on every script, with every set of flags and every
  initial stack inside the limits, \<^verbatim>\<open>EvalScript\<close> returns; no assertion fails and no
  exception escapes; on success the stack holds at most 1000 elements of at most 520 bytes, and on
  failure the error code is set to an error.
\<close>

theorem EvalScript_total_and_safe:
  assumes "\<forall>x \<in> set stk. small x" "length stk \<le> MAX_STACK_SIZE" "never_aborts chk" "hash_sizes C"
  shows "(\<exists>s. EvalScript C chk flags stk script = Ok s \<and> (\<forall>x \<in> set s. small x) \<and> length s \<le> MAX_STACK_SIZE) \<or>
    (\<exists>e. EvalScript C chk flags stk script = Fail e \<and> e \<noteq> SCRIPT_ERR_OK)"
  using assms by (rule EvalScript_safe)

theorem EvalScript_total_and_safe_witness:
  "(\<exists>s. EvalScript const_crypto BaseSignatureChecker 0 [[1]] [0x76, 0xa9] = Ok s \<and> (\<forall>x \<in> set s. small x) \<and> length s \<le> 1000) \<or>
   (\<exists>e. EvalScript const_crypto BaseSignatureChecker 0 [[1]] [0x76, 0xa9] = Fail e \<and> e \<noteq> SCRIPT_ERR_OK)"
  using EvalScript_total_and_safe [of "[[1]]" BaseSignatureChecker const_crypto 0 "[0x76, 0xa9]"]
    example_environment by (simp add: small_def)

text \<open>
  C24. A script that \<^verbatim>\<open>EvalScript\<close> accepts is at most 10000 bytes long, decodes to its
  end, has at most 201 non-push operations, and none of its operations, executed or not, pushes
  more than 520 bytes, is disabled, or is \<^verbatim>\<open>OP_VERIF\<close> or \<^verbatim>\<open>OP_VERNOTIF\<close>.
\<close>

theorem EvalScript_accepts_within_limits:
  assumes "EvalScript C chk flags stk script = Ok s"
  shows "length script \<le> MAX_SCRIPT_SIZE \<and> snd (script_ops script) \<and>
    (\<forall>op \<in> set (fst (script_ops script)). op_allowed flags op) \<and>
    counted_ops (fst (script_ops script)) \<le> MAX_OPS_PER_SCRIPT"
  using assms by (rule EvalScript_Ok_limits)

theorem EvalScript_accepts_within_limits_witness:
  "snd (script_ops [0x51, 0x76]) \<and> counted_ops (fst (script_ops [0x51, 0x76])) \<le> MAX_OPS_PER_SCRIPT"
proof -
  have "EvalScript const_crypto BaseSignatureChecker 0 [] [0x51, 0x76] = Ok [[1], [1]]" by code_simp
  from EvalScript_accepts_within_limits [OF this] show ?thesis by blast
qed

text \<open>
  \<^verbatim>\<open>IsUnspendable\<close> keeps the promise of its comment: a script it accepts fails at
  execution, whatever the initial stack, the flags and the signature checker are.
\<close>

theorem IsUnspendable_sound:
  assumes "IsUnspendable s"
  shows "\<exists>e. EvalScript C chk flags stk s = Fail e"
  using assms by (rule EvalScript_unspendable)

theorem IsUnspendable_sound_witness:
  "\<exists>e. EvalScript const_crypto BaseSignatureChecker 0 [[1]] [0x6a, 0x51] = Fail e"
  using IsUnspendable_sound [of "[0x6a, 0x51]"] by (simp add: IsUnspendable_def)

end
