(* ===== verification/Script_Flags.thy ===== *)
theory Script_Flags
  imports Script_Safety
begin

unbundle bit_operations_syntax

text \<open>
  Verification flags are soft forks: whatever \<^verbatim>\<open>EvalScript\<close> accepts under more flags it
  accepts, with the same stack, under fewer, as long as the two sets agree on the flag that
  switches opcodes on.
\<close>


section \<open>Refinement of outcomes\<close>

definition orefines :: "'a outcome \<Rightarrow> 'a outcome \<Rightarrow> bool" where
  "orefines r r' \<longleftrightarrow> (\<forall>x. r = Ok x \<longrightarrow> r' = Ok x)"

lemma orefines_refl [simp]: "orefines r r"
  by (simp add: orefines_def)

lemma orefines_Fail [simp]: "orefines (Fail e) r" "orefines Throw r" "orefines Abort r"
  by (simp_all add: orefines_def)

lemma orefines_bind:
  "orefines r r' \<Longrightarrow> (\<And>x. r = Ok x \<Longrightarrow> orefines (f x) (f' x)) \<Longrightarrow> orefines (obind r f) (obind r' f')"
  by (auto simp: orefines_def obind_Ok)

lemma orefines_if:
  "(c \<Longrightarrow> orefines a a') \<Longrightarrow> (\<not> c \<Longrightarrow> orefines b b') \<Longrightarrow> orefines (if c then a else b) (if c then a' else b')"
  by simp

text \<open>\<open>stricter B A\<close>: the flags \<open>B\<close> extend the flags \<open>A\<close> and agree on the opcode switch.\<close>

definition stricter :: "u32 \<Rightarrow> u32 \<Rightarrow> bool" where
  "stricter B A \<longleftrightarrow> A AND B = A \<and>
     (has_flag B SCRIPT_ENABLE_DIP0020_OPCODES \<longleftrightarrow> has_flag A SCRIPT_ENABLE_DIP0020_OPCODES)"

lemma stricter_flag: "stricter B A \<Longrightarrow> has_flag A f \<Longrightarrow> has_flag B f"
  unfolding stricter_def has_flag_def by (metis and.assoc and.right_neutral and_zero_eq)

lemma mono_num_arg: "(a \<Longrightarrow> b) \<Longrightarrow> orefines (num_arg b x) (num_arg a x)"
  by (auto simp: orefines_def num_arg_def script_num_def)

lemma mono_script_num: "(a \<Longrightarrow> b) \<Longrightarrow> orefines (or_throw (script_num x b n)) (or_throw (script_num x a n))"
  by (auto simp: orefines_def script_num_def)

lemma mono_CheckSignatureEncoding:
  assumes "stricter B A"
  shows "orefines (check (CheckSignatureEncoding low_s sig B)) (check (CheckSignatureEncoding low_s sig A))"
  using stricter_flag [OF assms]
  by (auto simp: orefines_def check_def CheckSignatureEncoding_def split: if_splits option.splits)

lemma mono_CheckPubKeyEncoding:
  assumes "stricter B A"
  shows "orefines (check (CheckPubKeyEncoding key B)) (check (CheckPubKeyEncoding key A))"
  using stricter_flag [OF assms]
  by (auto simp: orefines_def check_def CheckPubKeyEncoding_def split: if_splits)

lemma mono_check_encodings:
  assumes "stricter B A"
  shows "orefines (check_encodings C B sig key) (check_encodings C A sig key)"
  unfolding check_encodings_def
  by (intro orefines_bind mono_CheckSignatureEncoding mono_CheckPubKeyEncoding assms)

lemma mono_drop_sig:
  assumes "stricter B A"
  shows "orefines (drop_sig B code sig) (drop_sig A code sig)"
  using stricter_flag [OF assms] by (auto simp: orefines_def drop_sig_def Let_def split: prod.splits)

lemma mono_drop_sigs:
  assumes "stricter B A"
  shows "orefines (drop_sigs B sigs code) (drop_sigs A sigs code)"
  by (induction sigs arbitrary: code) (auto intro: orefines_bind mono_drop_sig [OF assms])

lemma mono_multisig_loop:
  assumes "stricter B A"
  shows "orefines (multisig_loop C chk B code sigs keys) (multisig_loop C chk A code sigs keys)"
proof (induction keys arbitrary: sigs)
  case Nil
  then show ?case by (cases sigs) simp_all
next
  case (Cons key keys)
  then show ?case
    by (cases sigs)
      (auto simp: Let_def intro!: orefines_bind mono_check_encodings [OF assms] orefines_if)
qed

lemma mono_multisig_cleanup:
  "(a \<Longrightarrow> b) \<Longrightarrow> orefines (multisig_cleanup b i k s) (multisig_cleanup a i k s)"
proof (induction i arbitrary: k s)
  case (Suc i)
  then show ?case by (cases s) auto
qed simp

lemma mono_multisig_finish:
  assumes "stricter B A"
  shows "orefines (multisig_finish B opcode ok s) (multisig_finish A opcode ok s)"
  using stricter_flag [OF assms] by (auto simp: multisig_finish_def split: list.splits)

lemma orefines_guard:
  "(c' \<Longrightarrow> c) \<Longrightarrow> (\<not> c \<Longrightarrow> orefines b b') \<Longrightarrow> orefines (if c then Fail e else b) (if c' then Fail e else b')"
  by auto


section \<open>Operations\<close>

lemma mono_op_checkmultisig:
  assumes "stricter B A" "a \<Longrightarrow> b"
  shows "orefines (op_checkmultisig C chk B b opcode st) (op_checkmultisig C chk A a opcode st)"
  unfolding op_checkmultisig_def Let_def
  using stricter_flag [OF assms(1)]
  by (intro orefines_if orefines_bind orefines_refl mono_num_arg mono_drop_sigs mono_multisig_loop
      mono_multisig_cleanup mono_multisig_finish assms) (auto simp: assms)

lemma mono_op_checksig:
  assumes "stricter B A"
  shows "orefines (op_checksig C chk B opcode st) (op_checksig C chk A opcode st)"
  unfolding op_checksig_def
  using stricter_flag [OF assms]
  by (auto split: list.splits intro!: orefines_bind mono_drop_sig mono_check_encodings assms)

lemma mono_op_checkdatasig:
  assumes "stricter B A"
  shows "orefines (op_checkdatasig C B opcode s) (op_checkdatasig C A opcode s)"
  unfolding op_checkdatasig_def
  using stricter_flag [OF assms]
  by (auto simp: Let_def split: list.splits intro!: orefines_bind mono_check_encodings assms)

lemma mono_lock_times:
  assumes "stricter B A" "a \<Longrightarrow> b"
  shows "orefines (op_checklocktimeverify chk B b st) (op_checklocktimeverify chk A a st)"
    "orefines (op_checksequenceverify chk B b st) (op_checksequenceverify chk A a st)"
    "orefines (op_nop_upgradable B st) (op_nop_upgradable A st)"
  using stricter_flag [OF assms(1)] assms(2)
  by (auto simp: orefines_def op_checklocktimeverify_def op_checksequenceverify_def op_nop_upgradable_def
      obind_Ok script_num_def split: list.splits if_splits)

lemma mono_num_ops:
  assumes "a \<Longrightarrow> b"
  shows "orefines (op_pick_roll b opcode s) (op_pick_roll a opcode s)"
    "orefines (op_unary b opcode s) (op_unary a opcode s)"
    "orefines (op_binary b opcode s) (op_binary a opcode s)"
    "orefines (op_within b s) (op_within a s)"
    "orefines (op_split b s) (op_split a s)"
    "orefines (op_num2bin b s) (op_num2bin a s)"
  unfolding op_pick_roll_def op_unary_def op_binary_def op_within_def op_split_def op_num2bin_def
  by (auto split: list.splits intro!: orefines_bind mono_num_arg assms)

lemma mono_on_stack: "orefines (f (stack st)) (g (stack st)) \<Longrightarrow> orefines (on_stack f st) (on_stack g st)"
  unfolding on_stack_def by (intro orefines_bind) simp_all

lemma mono_exec_op:
  assumes "stricter B A" "a \<Longrightarrow> b"
  shows "orefines (exec_op C chk B b e opcode pc st) (exec_op C chk A a e opcode pc st)"
  unfolding exec_op_def
  by (intro orefines_if orefines_refl mono_on_stack mono_num_ops mono_lock_times mono_op_checkdatasig
      mono_op_checksig mono_op_checkmultisig assms) (simp_all add: assms)

lemma mono_push_value: "(a \<Longrightarrow> b) \<Longrightarrow> orefines (push_value b opcode v st) (push_value a opcode v st)"
  by (auto simp: orefines_def push_value_def obind_Ok split: if_splits)

lemma mono_eval_step:
  assumes "stricter B A"
  shows "orefines (eval_step C chk B opcode v pc st) (eval_step C chk A opcode v pc st)"
proof -
  note f = stricter_flag [OF assms]
  have d: "has_flag B SCRIPT_ENABLE_DIP0020_OPCODES = has_flag A SCRIPT_ENABLE_DIP0020_OPCODES"
    using assms by (simp add: stricter_def)
  show ?thesis
    unfolding eval_step_def Let_def d
    by (intro orefines_guard orefines_bind orefines_if orefines_refl mono_push_value mono_exec_op assms)
      (auto dest: f)
qed

lemma mono_eval_loop:
  assumes "stricter B A"
  shows "orefines (eval_loop C chk B pc st) (eval_loop C chk A pc st)"
proof (induction pc arbitrary: st rule: measure_induct_rule [of length])
  case (less pc)
  show ?case
  proof (cases "pc = []")
    case True
    then show ?thesis by (simp add: eval_loop.simps)
  next
    case False
    obtain rest r where g: "GetScriptOp pc = (rest, r)" by (cases "GetScriptOp pc")
    show ?thesis
      using False g less [OF GetScriptOp_advances [OF g False]]
      by (subst (1 2) eval_loop.simps) (auto split: option.splits intro!: orefines_bind mono_eval_step assms)
  qed
qed

lemma mono_EvalScript:
  assumes "stricter B A" "EvalScript C chk B stk script = Ok s"
  shows "EvalScript C chk A stk script = Ok s"
  using assms(2) mono_eval_loop [OF assms(1), of C chk script
      "\<lparr>stack = stk, altstack = [], vfExec = [], nOpCount = 0, pbegincodehash = script\<rparr>"]
  unfolding EvalScript_def orefines_def
  by (auto split: if_splits outcome.splits)

end
