(* ===== verification/Find_And_Delete.thy ===== *)
theory Find_And_Delete
  imports Script_Ops
begin

unbundle bit_operations_syntax

text \<open>
  \<^verbatim>\<open>FindAndDelete\<close> (\<^verbatim>\<open>script/interpreter.cpp\<close>): the double loop with its three
  iterators refines a recursive specification.
\<close>


section \<open>Deleting a pushed signature\<close>

text \<open>
  Specification of \<^verbatim>\<open>FindAndDelete\<close>: walking over the operations of the script, every
  occurrence of the pattern that starts where an operation starts is removed.
\<close>

function remove_at_ops :: "bytes \<Rightarrow> bytes \<Rightarrow> bytes" where
  "remove_at_ops b s =
     (if b \<noteq> [] \<and> length s \<ge> length b \<and> take (length b) s = b then remove_at_ops b (drop (length b) s)
      else case GetScriptOp s of
        (_, None) \<Rightarrow> s
      | (rest, Some _) \<Rightarrow> take (length s - length rest) s @ remove_at_ops b rest)"
  by pat_completeness auto
termination
proof (relation "measure (\<lambda>(_, s). length s)", goal_cases)
  case (3 b s rest y op)
  then have "s \<noteq> []" by auto
  then show ?case using 3 GetScriptOp_advances [of s rest y] by simp
qed (auto simp flip: length_greater_0_conv)

declare remove_at_ops.simps [simp del]

lemma GetScriptOp_suffix:
  assumes "GetScriptOp pc = (rest, r)"
  shows "take (length pc - length rest) pc @ rest = pc"
proof -
  have "\<exists>xs. pc = xs @ rest"
  proof (cases pc)
    case (Cons c cs)
    have "\<exists>xs. cs = xs @ rest"
      using assms Cons read_operand_suffix(1)
      by (auto simp: GetScriptOp_def Let_def split: if_splits)
        (metis append_assoc append_take_drop_id)+
    then show ?thesis using Cons by auto
  qed (use assms in simp)
  then show ?thesis by auto
qed

lemma skip_matches_spec:
  "remove_at_ops b pc = remove_at_ops b (fst (skip_matches b pc n)) \<and>
   n \<le> snd (skip_matches b pc n) \<and>
   length (fst (skip_matches b pc n)) + (snd (skip_matches b pc n) - n) * length b = length pc \<and>
   (b \<noteq> [] \<longrightarrow> \<not> (length (fst (skip_matches b pc n)) \<ge> length b \<and> take (length b) (fst (skip_matches b pc n)) = b))"
proof (induction b pc n rule: skip_matches.induct)
  case (1 b pc n)
  show ?case
  proof (cases "b \<noteq> [] \<and> length pc \<ge> length b \<and> take (length b) pc = b")
    case True
    let ?k = "snd (skip_matches b (drop (length b) pc) (n + 1))"
    have IH: "remove_at_ops b (drop (length b) pc) = remove_at_ops b (fst (skip_matches b (drop (length b) pc) (n + 1)))"
      "n + 1 \<le> ?k"
      "length (fst (skip_matches b (drop (length b) pc) (n + 1))) + (?k - (n + 1)) * length b = length (drop (length b) pc)"
      using "1.IH" [OF True] by blast+
    have "(?k - n) * length b = (?k - (n + 1)) * length b + length b"
      using IH(2) by (metis Suc_diff_Suc Suc_eq_plus1 Suc_le_lessD add.commute mult_Suc)
    moreover have "skip_matches b pc n = skip_matches b (drop (length b) pc) (n + 1)"
      "remove_at_ops b pc = remove_at_ops b (drop (length b) pc)"
      using True by (subst skip_matches.simps remove_at_ops.simps, simp)+
    moreover have "length b \<le> length pc" using True by blast
    ultimately show ?thesis using IH "1.IH" [OF True] by simp
  next
    case False
    then have "skip_matches b pc n = (pc, n)" by (subst skip_matches.simps) auto
    then show ?thesis using False by auto
  qed
qed

lemma fad_loop_spec:
  assumes "fad_loop b pc pc2 result n = (result', pc2', n')" "b \<noteq> []" "length pc \<le> length pc2" "pc = drop (length pc2 - length pc) pc2"
  shows "result' @ pc2' = result @ take (length pc2 - length pc) pc2 @ remove_at_ops b pc \<and> n \<le> n' \<and>
    length (remove_at_ops b pc) + (n' - n) * length b = length pc"
  using assms
proof (induction b pc pc2 result n rule: fad_loop.induct)
  case (1 b pc pc2 result n)
  obtain pc1 k where sk: "skip_matches b pc n = (pc1, k)" by (cases "skip_matches b pc n")
  obtain rest r where g: "GetScriptOp pc1 = (rest, r)" by (cases "GetScriptOp pc1")
  have s: "remove_at_ops b pc = remove_at_ops b pc1" "n \<le> k" "length pc1 + (k - n) * length b = length pc"
    "\<not> (length pc1 \<ge> length b \<and> take (length b) pc1 = b)"
    using skip_matches_spec [of b pc n] sk "1.prems"(2) by auto
  have r1: "remove_at_ops b pc1 = (case r of None \<Rightarrow> pc1 | Some _ \<Rightarrow> take (length pc1 - length rest) pc1 @ remove_at_ops b rest)"
    using s(4) g by (subst remove_at_ops.simps) (auto split: option.splits)
  show ?case
  proof (cases r)
    case None
    then have "result' = result @ take (length pc2 - length pc) pc2" "pc2' = pc1" "n' = k"
      using "1.prems"(1) sk g by (subst (asm) fad_loop.simps, simp)+
    then show ?thesis using s r1 None by simp
  next
    case (Some op)
    note suf = GetScriptOp_suffix [OF g]
    have len: "length rest \<le> length pc1" using suf by (metis append_take_drop_id drop_append length_append le_add2)
    have rec: "fad_loop b rest pc1 (result @ take (length pc2 - length pc) pc2) k = (result', pc2', n')"
      using "1.prems"(1) sk g Some by (subst (asm) fad_loop.simps) simp
    have "rest = drop (length pc1 - length rest) pc1" using suf len by (metis append_take_drop_id same_append_eq)
    note IH = "1.IH" [OF refl sk [symmetric] refl g [symmetric] Some rec "1.prems"(2) len this]
    have "(n' - n) * length b = (n' - k) * length b + (k - n) * length b"
      using IH s(2) by (simp flip: add_mult_distrib)
    then show ?thesis
      using IH [THEN conjunct1] IH [THEN conjunct2, THEN conjunct1] IH [THEN conjunct2, THEN conjunct2]
        s r1 Some len by simp
  qed
qed

lemma remove_at_ops_length:
  "length (remove_at_ops b s) \<le> length s \<and> (length (remove_at_ops b s) = length s \<longrightarrow> remove_at_ops b s = s)"
proof (induction b s rule: remove_at_ops.induct)
  case (1 b s)
  show ?case
  proof (cases "b \<noteq> [] \<and> length s \<ge> length b \<and> take (length b) s = b")
    case True
    then have "0 < length b" "length b \<le> length s" by auto
    moreover have "remove_at_ops b s = remove_at_ops b (drop (length b) s)"
      using True by (subst remove_at_ops.simps) simp
    ultimately have "remove_at_ops b s = remove_at_ops b (drop (length b) s)" "length (remove_at_ops b s) < length s"
      using "1.IH"(1) [OF True, THEN conjunct1] by (simp_all del: length_greater_0_conv)
    then show ?thesis by simp
  next
    case False
    obtain rest r where g: "GetScriptOp s = (rest, r)" by (cases "GetScriptOp s")
    note suf = GetScriptOp_suffix [OF g]
    have e: "remove_at_ops b s =
        (case r of None \<Rightarrow> s | Some _ \<Rightarrow> take (length s - length rest) s @ remove_at_ops b rest)"
      using False g by (subst remove_at_ops.simps) (auto split: option.splits)
    have len: "length (take (length s - length rest) s) + length rest = length s"
      using suf by (metis length_append)
    show ?thesis
    proof (cases r)
      case (Some op)
      note IH = "1.IH"(2) [OF False g [symmetric] Some]
      define p where "p = take (length s - length rest) s"
      have "remove_at_ops b s = p @ remove_at_ops b rest" "s = p @ rest" using e Some suf by (simp_all add: p_def)
      then show ?thesis using IH by (metis add_le_cancel_left add_left_cancel length_append)
    qed (simp add: e)
  qed
qed

lemma FindAndDelete_spec:
  assumes "b \<noteq> []"
  shows "snd (FindAndDelete s b) = remove_at_ops b s \<and>
    length (snd (FindAndDelete s b)) + fst (FindAndDelete s b) * length b = length s \<and>
    (fst (FindAndDelete s b) = 0 \<longleftrightarrow> remove_at_ops b s = s)"
proof -
  obtain r p n where f: "fad_loop b s s [] 0 = (r, p, n)" by (cases "fad_loop b s s [] 0")
  have sp: "r @ p = remove_at_ops b s" "length (remove_at_ops b s) + n * length b = length s"
    using fad_loop_spec [OF f assms] by simp_all
  have "n = 0 \<longleftrightarrow> remove_at_ops b s = s"
  proof
    assume "n = 0"
    then show "remove_at_ops b s = s" using sp(2) remove_at_ops_length [of b s] by simp
  next
    assume "remove_at_ops b s = s"
    then show "n = 0" using sp(2) assms by simp
  qed
  then show ?thesis using f sp assms by (auto simp: FindAndDelete_def)
qed

lemma remove_at_ops_skip:
  assumes "GetScriptOp s = (rest, Some op)" "take (length b) s \<noteq> b"
  shows "remove_at_ops b s = s \<longleftrightarrow> remove_at_ops b rest = rest"
proof -
  have "remove_at_ops b s = take (length s - length rest) s @ remove_at_ops b rest"
    using assms by (subst remove_at_ops.simps) simp
  then show ?thesis using GetScriptOp_suffix [OF assms(1)] by (metis same_append_eq)
qed

lemma FindAndDelete_p2pkh:
  assumes "length h = 20" "2 \<le> length sig" "length sig \<le> 75" "sig \<noteq> h"
  shows "FindAndDelete (p2pkh_script h) (push_data sig) = (0, p2pkh_script h)"
proof -
  let ?b = "push_data sig"
  have b: "?b = word_of_nat (length sig) # sig" "unat (word_of_nat (length sig) :: u8) = length sig"
    using assms by (simp_all add: push_data_def unat_of_nat)
  then have ne: "take (length ?b) (c # cs) \<noteq> ?b" if "unat c > 75" for c cs using that assms(3) by auto
  have op: "GetScriptOp (c # cs) = (cs, Some (unat c, []))" if "unat c > 78" for c cs
    using that by (simp add: GetScriptOp_def)
  have ph: "take (length ?b) (push_data h @ cs) \<noteq> ?b" for cs
  proof
    assume "take (length ?b) (push_data h @ cs) = ?b"
    then have "word_of_nat (length sig) = (20 :: u8) \<and> take (length sig) (h @ cs) = sig"
      using b assms(1) by (simp add: push_data_def)
    then have "length sig = 20" "take (length sig) (h @ cs) = sig" using b(2) by auto
    then show False using assms(1,4) by simp
  qed
  have e: "remove_at_ops ?b [] = []" by (subst remove_at_ops.simps) (simp add: b)
  have sk: "remove_at_ops ?b (c # cs) = c # cs \<longleftrightarrow> remove_at_ops ?b cs = cs" if "unat c > 78" for c cs
    using that by (intro remove_at_ops_skip [OF op ne]) simp_all
  have "remove_at_ops ?b (push_data h @ cs) = push_data h @ cs \<longleftrightarrow> remove_at_ops ?b cs = cs" for cs
    using assms(1) by (intro remove_at_ops_skip [OF GetScriptOp_push_data ph]) simp
  then have "remove_at_ops ?b (p2pkh_script h) = p2pkh_script h"
    unfolding p2pkh_script_def by (simp add: sk e)
  moreover have "?b \<noteq> []" by (simp add: b(1))
  ultimately show ?thesis using FindAndDelete_spec [of ?b "p2pkh_script h"] by (simp add: prod_eq_iff)
qed

section \<open>Properties\<close>

text \<open>
  C25. \<^verbatim>\<open>FindAndDelete\<close> removes exactly the occurrences of the pattern that start at an
  operation, and returns how many there were: the script shrinks by that many patterns, and stays
  as it is exactly when the count is zero.
\<close>

theorem FindAndDelete_exact:
  assumes "b \<noteq> []"
  shows "snd (FindAndDelete s b) = remove_at_ops b s \<and>
    length (snd (FindAndDelete s b)) + fst (FindAndDelete s b) * length b = length s \<and>
    (fst (FindAndDelete s b) = 0 \<longleftrightarrow> remove_at_ops b s = s)"
  using assms by (rule FindAndDelete_spec)

theorem FindAndDelete_exact_witness:
  "snd (FindAndDelete [0x51, 1, 0x51, 0x51] [0x51]) = remove_at_ops [0x51] [0x51, 1, 0x51, 0x51] \<and>
   remove_at_ops [0x51] [0x51, 1, 0x51, 0x51] = [1, 0x51]"
proof -
  have g: "GetScriptOp [1, 0x51, 0x51] = ([0x51], Some (1, [0x51]))"
    by (simp add: GetScriptOp_def read_operand_def)
  have "remove_at_ops [0x51] [0x51, 1, 0x51, 0x51] = remove_at_ops [0x51] [1, 0x51, 0x51]"
    by (subst remove_at_ops.simps) simp
  also have "\<dots> = [1, 0x51] @ remove_at_ops [0x51] [0x51]" by (subst remove_at_ops.simps) (simp add: g)
  also have "remove_at_ops [0x51] [0x51] = remove_at_ops [0x51] []" by (subst remove_at_ops.simps) simp
  also have "\<dots> = []" by (subst remove_at_ops.simps) simp
  finally show ?thesis using FindAndDelete_exact [of "[0x51]" "[0x51, 1, 0x51, 0x51]"] by simp
qed

end
