(* ===== verification/Script_Verify.thy ===== *)
theory Script_Verify
  imports Script_Flags Find_And_Delete
begin

unbundle bit_operations_syntax

text \<open>
  Verification of an input (\<^verbatim>\<open>VerifyScript\<close> of \<^verbatim>\<open>script/interpreter.cpp\<close>):
  its model, its safety, its monotonicity in the flags, and what it accepts for the two standard
  output templates.
\<close>


section \<open>Verifying an input script\<close>

definition eval_true :: "bytes list \<Rightarrow> bytes list outcome" where
  "eval_true s =
     (if s = [] then Fail SCRIPT_ERR_EVAL_FALSE
      else if CastToBool (hd s) = False then Fail SCRIPT_ERR_EVAL_FALSE else Ok s)"

definition verify_p2sh :: "crypto \<Rightarrow> checker \<Rightarrow> u32 \<Rightarrow> script \<Rightarrow> bytes list \<Rightarrow> bytes list outcome" where
  "verify_p2sh C chk flags scriptSig s =
     (if \<not> IsPushOnly scriptSig then Fail SCRIPT_ERR_SIG_PUSHONLY
      else case s of
        [] \<Rightarrow> Abort
      | pubKeySerialized # s \<Rightarrow> obind (EvalScript C chk flags s pubKeySerialized) eval_true)"

definition VerifyScript :: "crypto \<Rightarrow> checker \<Rightarrow> u32 \<Rightarrow> script \<Rightarrow> script \<Rightarrow> unit outcome" where
  "VerifyScript C chk flags scriptSig scriptPubKey =
     (if has_flag flags SCRIPT_VERIFY_SIGPUSHONLY \<and> \<not> IsPushOnly scriptSig then Fail SCRIPT_ERR_SIG_PUSHONLY
      else obind (EvalScript C chk flags [] scriptSig) (\<lambda>s.
        let stackCopy = (if has_flag flags SCRIPT_VERIFY_P2SH then s else [])
        in obind (obind (EvalScript C chk flags s scriptPubKey) eval_true) (\<lambda>s.
           obind (if has_flag flags SCRIPT_VERIFY_P2SH \<and> IsPayToScriptHash scriptPubKey
                  then verify_p2sh C chk flags scriptSig stackCopy else Ok s) (\<lambda>s.
             if has_flag flags SCRIPT_VERIFY_CLEANSTACK
             then if \<not> has_flag flags SCRIPT_VERIFY_P2SH then Abort
                  else if length s \<noteq> 1 then Fail SCRIPT_ERR_CLEANSTACK else Ok ()
             else Ok ()))))"

lemma eval_true_Ok [simp]: "eval_true s = Ok t \<longleftrightarrow> s \<noteq> [] \<and> CastToBool (hd s) \<and> t = s"
  by (auto simp: eval_true_def)

lemma guard_Ok [simp]:
  "(if c then Fail e else r) = Ok x \<longleftrightarrow> \<not> c \<and> r = Ok x" "(if c then Abort else r) = Ok x \<longleftrightarrow> \<not> c \<and> r = Ok x"
  by simp_all

lemma VerifyScript_Ok_iff:
  "VerifyScript C chk flags scriptSig scriptPubKey = Ok () \<longleftrightarrow>
     (has_flag flags SCRIPT_VERIFY_SIGPUSHONLY \<longrightarrow> IsPushOnly scriptSig) \<and>
     (\<exists>s1 s2 s3. EvalScript C chk flags [] scriptSig = Ok s1 \<and> EvalScript C chk flags s1 scriptPubKey = Ok s2 \<and>
       s2 \<noteq> [] \<and> CastToBool (hd s2) \<and>
       (if has_flag flags SCRIPT_VERIFY_P2SH \<and> IsPayToScriptHash scriptPubKey
        then verify_p2sh C chk flags scriptSig s1 = Ok s3 else s3 = s2) \<and>
       (has_flag flags SCRIPT_VERIFY_CLEANSTACK \<longrightarrow> has_flag flags SCRIPT_VERIFY_P2SH \<and> length s3 = 1))"
  (is "?l \<longleftrightarrow> ?r")
proof -
  define c where "c = (has_flag flags SCRIPT_VERIFY_P2SH \<and> IsPayToScriptHash scriptPubKey)"
  have i: "(if c then r else Ok s) = Ok t \<longleftrightarrow> (if c then r = Ok t else t = s)" for r s t by auto
  have v: "verify_p2sh C chk flags scriptSig (if has_flag flags SCRIPT_VERIFY_P2SH then s else []) =
      verify_p2sh C chk flags scriptSig s" if c for s
    using that by (simp add: c_def)
  have "?l \<longleftrightarrow> \<not> (has_flag flags SCRIPT_VERIFY_SIGPUSHONLY \<and> \<not> IsPushOnly scriptSig) \<and>
      (\<exists>s1. EvalScript C chk flags [] scriptSig = Ok s1 \<and> (\<exists>s2. (\<exists>s. EvalScript C chk flags s1 scriptPubKey = Ok s \<and> eval_true s = Ok s2) \<and>
       (\<exists>s3. (if c then verify_p2sh C chk flags scriptSig (if has_flag flags SCRIPT_VERIFY_P2SH then s1 else []) = Ok s3 else s3 = s2) \<and>
         (if has_flag flags SCRIPT_VERIFY_CLEANSTACK
             then if \<not> has_flag flags SCRIPT_VERIFY_P2SH then Abort
                  else if length s3 \<noteq> 1 then Fail SCRIPT_ERR_CLEANSTACK else Ok ()
             else Ok ()) = Ok ())))"
    unfolding VerifyScript_def Let_def guard_Ok obind_Ok c_def [symmetric] i ..
  also have "\<dots> \<longleftrightarrow> ?r"
    unfolding c_def [symmetric] eval_true_Ok
    by (cases c; cases "has_flag flags SCRIPT_VERIFY_CLEANSTACK"; simp add: v; blast)
  finally show ?thesis .
qed


section \<open>Soft forks\<close>

lemma mono_verify_p2sh:
  assumes "stricter B A" "verify_p2sh C chk B scriptSig s = Ok t"
  shows "verify_p2sh C chk A scriptSig s = Ok t"
  using assms(2) mono_EvalScript [OF assms(1)]
  by (cases s) (auto simp: verify_p2sh_def obind_Ok split: if_splits)

lemma VerifyScript_mono:
  assumes "stricter B A" "has_flag A SCRIPT_VERIFY_CLEANSTACK \<longrightarrow> has_flag A SCRIPT_VERIFY_P2SH"
    and "VerifyScript C chk B scriptSig scriptPubKey = Ok ()"
  shows "VerifyScript C chk A scriptSig scriptPubKey = Ok ()"
proof -
  note f = stricter_flag [OF assms(1)]
  obtain s1 s2 s3 where B: "has_flag B SCRIPT_VERIFY_SIGPUSHONLY \<longrightarrow> IsPushOnly scriptSig"
    "EvalScript C chk B [] scriptSig = Ok s1" "EvalScript C chk B s1 scriptPubKey = Ok s2"
    "s2 \<noteq> []" "CastToBool (hd s2)"
    "if has_flag B SCRIPT_VERIFY_P2SH \<and> IsPayToScriptHash scriptPubKey
     then verify_p2sh C chk B scriptSig s1 = Ok s3 else s3 = s2"
    "has_flag B SCRIPT_VERIFY_CLEANSTACK \<longrightarrow> has_flag B SCRIPT_VERIFY_P2SH \<and> length s3 = 1"
    using assms(3) unfolding VerifyScript_Ok_iff by blast
  have A: "EvalScript C chk A [] scriptSig = Ok s1" "EvalScript C chk A s1 scriptPubKey = Ok s2"
    using B(2,3) mono_EvalScript [OF assms(1)] by blast+
  define t where "t = (if has_flag A SCRIPT_VERIFY_P2SH \<and> IsPayToScriptHash scriptPubKey then s3 else s2)"
  have "if has_flag A SCRIPT_VERIFY_P2SH \<and> IsPayToScriptHash scriptPubKey
     then verify_p2sh C chk A scriptSig s1 = Ok t else t = s2"
    using B(6) f [of SCRIPT_VERIFY_P2SH] mono_verify_p2sh [OF assms(1)] by (auto simp: t_def)
  moreover have "has_flag A SCRIPT_VERIFY_CLEANSTACK \<longrightarrow> has_flag A SCRIPT_VERIFY_P2SH \<and> length t = 1"
    using B(6,7) assms(2) f [of SCRIPT_VERIFY_CLEANSTACK] f [of SCRIPT_VERIFY_P2SH]
    by (auto simp: t_def)
  ultimately show ?thesis
    unfolding VerifyScript_Ok_iff using A B(1,4,5) f [of SCRIPT_VERIFY_SIGPUSHONLY] by blast
qed

section \<open>Evaluating the templates\<close>

lemma eval_loop_Nil [simp]: "eval_loop C chk flags [] st = Ok st"
  by (simp add: eval_loop.simps)

lemma eval_loop_op:
  "unat c > OP_PUSHDATA4 \<Longrightarrow>
     eval_loop C chk flags (c # rest) st =
       obind (eval_step C chk flags (unat c) [] rest st) (eval_loop C chk flags rest)"
  by (simp add: eval_loop.simps GetScriptOp_def)

lemma eval_loop_push:
  assumes "length b < 2 ^ 32"
  shows "eval_loop C chk flags (push_data b @ rest) st =
    obind (eval_step C chk flags (push_opcode b) b rest st) (eval_loop C chk flags rest)"
proof -
  have "push_data b \<noteq> []" by (simp add: push_data_def)
  then show ?thesis
    using GetScriptOp_push_data [OF assms] by (subst eval_loop.simps) simp
qed

text \<open>A push of 2 to 75 bytes is always minimal.\<close>

lemma eval_step_push:
  assumes "2 \<le> length b" "length b \<le> 75" "list_all id (vfExec st)"
  shows "eval_step C chk flags (push_opcode b) b pc st =
    (if length (stack st) + length (altstack st) \<ge> MAX_STACK_SIZE then Fail SCRIPT_ERR_STACK_SIZE
     else Ok (st\<lparr>stack := b # stack st\<rparr>))"
proof -
  have "push_opcode b = length b" using assms by (simp add: push_opcode_def)
  then show ?thesis
    using assms by (auto simp: eval_step_def push_value_def CheckMinimalPush_def or_abort_def)
qed

lemma eval_step_hash160:
  assumes "list_all id (vfExec st)" "nOpCount st \<le> 100" "stack st = x # s"
    "length (stack st) + length (altstack st) \<le> MAX_STACK_SIZE"
  shows "eval_step C chk flags OP_HASH160 [] pc st =
    Ok (st\<lparr>stack := Hash160 C x # s, nOpCount := nOpCount st + 1\<rparr>)"
  using assms by (simp add: eval_step_def exec_op_def on_stack_def op_hash_def)

lemma eval_step_equal:
  assumes "list_all id (vfExec st)" "nOpCount st \<le> 100" "stack st = x # y # s"
    "length (stack st) + length (altstack st) \<le> MAX_STACK_SIZE" "opcode \<in> {OP_EQUAL, OP_EQUALVERIFY}"
  shows "eval_step C chk flags opcode [] pc st =
    (if opcode = OP_EQUALVERIFY
     then if x = y then Ok (st\<lparr>stack := s, nOpCount := nOpCount st + 1\<rparr>) else Fail SCRIPT_ERR_EQUALVERIFY
     else Ok (st\<lparr>stack := bool_vch (x = y) # s, nOpCount := nOpCount st + 1\<rparr>))"
  using assms by (auto simp: eval_step_def exec_op_def on_stack_def op_equal_def)

lemma EvalScript_p2sh_Nil:
  assumes "IsPayToScriptHash script"
  shows "EvalScript C chk flags [] script = Fail SCRIPT_ERR_INVALID_STACK_OPERATION"
proof -
  obtain h where "script = p2sh_script h" "length h = 20" using assms IsPayToScriptHash_template by blast
  then show ?thesis
    by (simp add: EvalScript_def p2sh_script_def push_data_def eval_loop_op eval_step_def exec_op_def
        on_stack_def op_hash_def)
qed

lemma EvalScript_p2sh:
  assumes "length h = 20" "length s < MAX_STACK_SIZE - 1"
  shows "EvalScript C chk flags (x # s) (p2sh_script h) = Ok (bool_vch (h = Hash160 C x) # s)"
proof -
  have l: "length (p2sh_script h) \<le> MAX_SCRIPT_SIZE" "2 \<le> length h" "length h \<le> 75" "length h < 2 ^ 32"
    using assms by (simp_all add: p2sh_script_def push_data_def)
  show ?thesis
    using l(1) assms(2)
    by (simp add: EvalScript_def p2sh_script_def eval_loop_op eval_step_hash160 eval_loop_push [OF l(4)]
        eval_step_push [OF l(2,3)] eval_step_equal)
qed


lemma osafe_bind_Ok:
  "osafe Q r \<Longrightarrow> (\<And>x. r = Ok x \<Longrightarrow> osafe P (f x)) \<Longrightarrow> osafe P (obind r f)"
  by (cases r) simp_all

lemma VerifyScript_safe:
  assumes "never_aborts chk" "hash_sizes C"
    "has_flag flags SCRIPT_VERIFY_CLEANSTACK \<longrightarrow> has_flag flags SCRIPT_VERIFY_P2SH"
  shows "osafe (\<lambda>_. True) (VerifyScript C chk flags scriptSig scriptPubKey)"
proof -
  let ?in = "\<lambda>s. smalls s \<and> length s \<le> MAX_STACK_SIZE"
  have eval: "osafe ?in (EvalScript C chk flags stk script)" if "?in stk" for stk script
    using EvalScript_safe [OF _ _ assms(1,2), of stk flags script] that by (auto simp: osafe_def)
  have true: "osafe ?in (eval_true s)" if "?in s" for s using that by (simp add: eval_true_def)
  have p2sh: "osafe (\<lambda>_. True) (verify_p2sh C chk flags scriptSig s)" if "?in s" "s \<noteq> []" for s
    using that by (cases s) (auto simp: verify_p2sh_def intro!: osafe_bind [OF eval] osafe_mono [OF true])
  have ne: "s \<noteq> []" if "IsPayToScriptHash scriptPubKey" "EvalScript C chk flags s scriptPubKey = Ok t" for s t
    using that EvalScript_p2sh_Nil by fastforce
  let ?k = "\<lambda>s :: bytes list. if has_flag flags SCRIPT_VERIFY_CLEANSTACK
    then if \<not> has_flag flags SCRIPT_VERIFY_P2SH then Abort
      else if length s \<noteq> 1 then Fail SCRIPT_ERR_CLEANSTACK else Ok ()
    else Ok ()"
  have k: "osafe (\<lambda>_. True) (?k s)" for s using assms(3) by simp
  have "osafe (\<lambda>_. True) (obind (obind (EvalScript C chk flags s scriptPubKey) eval_true) (\<lambda>s2.
      obind (if has_flag flags SCRIPT_VERIFY_P2SH \<and> IsPayToScriptHash scriptPubKey
        then verify_p2sh C chk flags scriptSig (if has_flag flags SCRIPT_VERIFY_P2SH then s else [])
        else Ok s2) ?k))" if s: "?in s" for s
  proof (rule osafe_bind_Ok)
    show "osafe ?in (obind (EvalScript C chk flags s scriptPubKey) eval_true)"
      by (rule osafe_bind [OF eval [OF s] true])
    fix s2
    assume "obind (EvalScript C chk flags s scriptPubKey) eval_true = Ok s2"
    then have "IsPayToScriptHash scriptPubKey \<Longrightarrow> s \<noteq> []" using ne by (auto simp: obind_Ok)
    then show "osafe (\<lambda>_. True) (obind (if has_flag flags SCRIPT_VERIFY_P2SH \<and> IsPayToScriptHash scriptPubKey
        then verify_p2sh C chk flags scriptSig (if has_flag flags SCRIPT_VERIFY_P2SH then s else [])
        else Ok s2) ?k)"
      using p2sh [OF s] by (intro osafe_bind [where Q = "\<lambda>_. True"] k) auto
  qed
  then show ?thesis
    unfolding VerifyScript_def Let_def by (intro osafe_if osafe_bind [OF eval]) auto
qed

lemma eval_step_dup:
  assumes "list_all id (vfExec st)" "nOpCount st \<le> 100" "stack st = x # s"
    "length (stack st) + length (altstack st) < MAX_STACK_SIZE"
  shows "eval_step C chk flags OP_DUP [] pc st =
    Ok (st\<lparr>stack := x # x # s, nOpCount := nOpCount st + 1\<rparr>)"
  using assms by (simp add: eval_step_def exec_op_def on_stack_def op_dup_def)

lemma eval_step_checksig:
  assumes "list_all id (vfExec st)" "nOpCount st \<le> 100" "stack st = key # sig # s"
    "length (stack st) + length (altstack st) \<le> MAX_STACK_SIZE"
    "FindAndDelete (pbegincodehash st) (push_data sig) = (0, pbegincodehash st)"
  shows "eval_step C chk flags OP_CHECKSIG [] pc st = Ok st' \<longleftrightarrow>
    CheckSignatureEncoding (CheckLowS C) sig flags = None \<and> CheckPubKeyEncoding key flags = None \<and>
    (\<exists>ok. CheckSig chk sig key (pbegincodehash st) = Some ok \<and>
      (\<not> ok \<and> has_flag flags SCRIPT_VERIFY_NULLFAIL \<longrightarrow> sig = []) \<and>
      st' = st\<lparr>stack := bool_vch ok # s, nOpCount := nOpCount st + 1\<rparr>)"
proof -
  have d: "drop_sig flags (pbegincodehash st) sig = Ok (pbegincodehash st)"
    using assms(5) by (simp add: drop_sig_def script_push_def)
  have c: "check_encodings C flags sig key = Ok () \<longleftrightarrow>
      CheckSignatureEncoding (CheckLowS C) sig flags = None \<and> CheckPubKeyEncoding key flags = None"
    by (auto simp: check_encodings_def obind_Ok check_def split: option.splits)
  show ?thesis
    using assms(1-4) d
    by (auto simp: eval_step_def exec_op_def op_checksig_def obind_Ok c Let_def)
qed

lemma eval_loop_p2pkh:
  assumes "length h = 20"
  shows "eval_loop C chk flags (p2pkh_script h)
      \<lparr>stack = [key, sig], altstack = [], vfExec = [], nOpCount = 0, pbegincodehash = code\<rparr> =
    (if Hash160 C key = h
     then eval_step C chk flags OP_CHECKSIG [] []
       \<lparr>stack = [key, sig], altstack = [], vfExec = [], nOpCount = 3, pbegincodehash = code\<rparr>
     else Fail SCRIPT_ERR_EQUALVERIFY)"
proof -
  have l: "2 \<le> length h" "length h \<le> 75" "length h < 2 ^ 32" using assms by simp_all
  have id: "obind r (eval_loop C chk flags []) = r" for r by (cases r) simp_all
  show ?thesis
    unfolding p2pkh_script_def
    by (simp add: eval_loop_op eval_step_dup eval_step_hash160 eval_loop_push [OF l(3)]
        eval_step_push [OF l(1,2)] eval_step_equal id) (auto simp: numeral_3_eq_3)
qed

lemma EvalScript_p2pkh:
  assumes "length h = 20" "2 \<le> length sig" "length sig \<le> 75" "sig \<noteq> h"
  shows "EvalScript C chk flags [key, sig] (p2pkh_script h) = Ok s \<longleftrightarrow>
    Hash160 C key = h \<and> CheckSignatureEncoding (CheckLowS C) sig flags = None \<and>
    CheckPubKeyEncoding key flags = None \<and>
    (\<exists>ok. CheckSig chk sig key (p2pkh_script h) = Some ok \<and>
      (\<not> ok \<longrightarrow> \<not> has_flag flags SCRIPT_VERIFY_NULLFAIL) \<and> s = [bool_vch ok])"
proof -
  let ?st = "\<lparr>stack = [key, sig], altstack = [], vfExec = [], nOpCount = 3, pbegincodehash = p2pkh_script h\<rparr>"
  have l: "length (p2pkh_script h) \<le> MAX_SCRIPT_SIZE" "sig \<noteq> []"
    using assms by (auto simp: p2pkh_script_def push_data_def)
  have step: "eval_step C chk flags OP_CHECKSIG [] [] ?st = Ok st' \<longleftrightarrow>
    CheckSignatureEncoding (CheckLowS C) sig flags = None \<and> CheckPubKeyEncoding key flags = None \<and>
    (\<exists>ok. CheckSig chk sig key (p2pkh_script h) = Some ok \<and>
      (\<not> ok \<longrightarrow> \<not> has_flag flags SCRIPT_VERIFY_NULLFAIL) \<and>
      st' = \<lparr>stack = [bool_vch ok], altstack = [], vfExec = [], nOpCount = 4, pbegincodehash = p2pkh_script h\<rparr>)" for st'
    using l(2) FindAndDelete_p2pkh [OF assms] by (subst eval_step_checksig) auto
  have ev: "EvalScript C chk flags [key, sig] (p2pkh_script h) = Ok s \<longleftrightarrow>
      Hash160 C key = h \<and> (\<exists>st'. eval_step C chk flags OP_CHECKSIG [] [] ?st = Ok st' \<and> vfExec st' = [] \<and> s = stack st')"
    using l(1) unfolding EvalScript_def eval_loop_p2pkh [OF assms(1)]
    by (auto split: outcome.splits if_splits)
  show ?thesis unfolding ev step by auto
qed

lemma EvalScript_two_pushes:
  assumes "2 \<le> length a" "length a \<le> 75" "2 \<le> length b" "length b \<le> 75"
  shows "EvalScript C chk flags [] (push_data a @ push_data b) = Ok [b, a]"
proof -
  have l: "length a < 2 ^ 32" "length b < 2 ^ 32" "length (push_data a @ push_data b) \<le> MAX_SCRIPT_SIZE"
    using assms by (simp_all add: push_data_def)
  show ?thesis
    using l(3) eval_loop_push [OF l(2), of C chk flags "[]"]
    by (simp add: EvalScript_def eval_loop_push [OF l(1)] eval_step_push [OF assms(1,2)] eval_step_push [OF assms(3,4)])
qed

lemma IsPushOnly_pushes: "length a < 2 ^ 32 \<Longrightarrow> length b < 2 ^ 32 \<Longrightarrow> IsPushOnly (push_data a @ push_data b)"
  using script_ops_push_data [of b "[]"]
  by (auto simp: IsPushOnly_ops script_ops_push_data push_opcode_def)

lemma CastToBool_bool_vch [simp]: "CastToBool (bool_vch b) = b"
  by (simp add: bool_vch_def)

lemma VerifyScript_p2pkh:
  assumes "length h = 20" "2 \<le> length sig" "length sig \<le> 75" "sig \<noteq> h" "2 \<le> length key" "length key \<le> 75"
    and "has_flag flags SCRIPT_VERIFY_CLEANSTACK \<longrightarrow> has_flag flags SCRIPT_VERIFY_P2SH"
  shows "VerifyScript C chk flags (push_data sig @ push_data key) (p2pkh_script h) = Ok () \<longleftrightarrow>
    Hash160 C key = h \<and> CheckSignatureEncoding (CheckLowS C) sig flags = None \<and>
    CheckPubKeyEncoding key flags = None \<and> CheckSig chk sig key (p2pkh_script h) = Some True"
proof -
  have n: "\<not> IsPayToScriptHash (p2pkh_script h)"
    using assms(1) by (simp add: IsPayToScriptHash_def p2pkh_script_def push_data_def)
  have p: "IsPushOnly (push_data sig @ push_data key)" using assms by (intro IsPushOnly_pushes) simp_all
  show ?thesis
    unfolding VerifyScript_Ok_iff EvalScript_two_pushes [OF assms(2,3,5,6)]
    using n p assms(7) by (auto simp: EvalScript_p2pkh [OF assms(1-4)])
qed

lemma EvalScript_p2sh_full:
  assumes "length h = 20" "length s \<ge> MAX_STACK_SIZE - 1"
  shows "EvalScript C chk flags (x # s) (p2sh_script h) = Fail SCRIPT_ERR_STACK_SIZE"
proof -
  have l: "length (p2sh_script h) \<le> MAX_SCRIPT_SIZE" "2 \<le> length h" "length h \<le> 75" "length h < 2 ^ 32"
    using assms by (simp_all add: p2sh_script_def push_data_def)
  show ?thesis
  proof (cases "length s = MAX_STACK_SIZE - 1")
    case True
    then show ?thesis
      using l(1) by (simp add: EvalScript_def p2sh_script_def eval_loop_op eval_step_hash160 eval_loop_push [OF l(4)]
        eval_step_push [OF l(2,3)])
  next
    case False
    then show ?thesis
      using l(1) assms(2) by (simp add: EvalScript_def p2sh_script_def eval_loop_op eval_step_def exec_op_def
        on_stack_def op_hash_def)
  qed
qed

lemma VerifyScript_p2sh:
  assumes "length h = 20" "has_flag flags SCRIPT_VERIFY_P2SH"
  shows "VerifyScript C chk flags scriptSig (p2sh_script h) = Ok () \<longleftrightarrow>
    IsPushOnly scriptSig \<and>
    (\<exists>x s t. EvalScript C chk flags [] scriptSig = Ok (x # s) \<and> length (x # s) < MAX_STACK_SIZE \<and>
      Hash160 C x = h \<and> EvalScript C chk flags s x = Ok t \<and> t \<noteq> [] \<and> CastToBool (hd t) \<and>
      (has_flag flags SCRIPT_VERIFY_CLEANSTACK \<longrightarrow> length t = 1))"
proof -
  have p: "IsPayToScriptHash (p2sh_script h)" using assms(1) IsPayToScriptHash_template by blast
  have ev: "EvalScript C chk flags s1 (p2sh_script h) = Ok s2 \<and> s2 \<noteq> [] \<and> CastToBool (hd s2) \<longleftrightarrow>
      (\<exists>x s. s1 = x # s \<and> length s < MAX_STACK_SIZE - 1 \<and> Hash160 C x = h \<and> s2 = bool_vch True # s)" for s1 s2
  proof (cases s1)
    case Nil
    then show ?thesis using EvalScript_p2sh_Nil [OF p] by simp
  next
    case (Cons x s)
    then show ?thesis
      using EvalScript_p2sh [OF assms(1), of s C chk flags x] EvalScript_p2sh_full [OF assms(1), of s C chk flags x]
      by (cases "length s < MAX_STACK_SIZE - 1") auto
  qed
  have v: "verify_p2sh C chk flags scriptSig s1 = Ok t \<longleftrightarrow>
      IsPushOnly scriptSig \<and> (\<exists>x s. s1 = x # s \<and> EvalScript C chk flags s x = Ok t \<and> t \<noteq> [] \<and> CastToBool (hd t))" for s1 t
    by (cases s1) (auto simp: verify_p2sh_def obind_Ok)
  have "VerifyScript C chk flags scriptSig (p2sh_script h) = Ok () \<longleftrightarrow>
     (has_flag flags SCRIPT_VERIFY_SIGPUSHONLY \<longrightarrow> IsPushOnly scriptSig) \<and>
     (\<exists>s1 s2 s3. EvalScript C chk flags [] scriptSig = Ok s1 \<and>
       (EvalScript C chk flags s1 (p2sh_script h) = Ok s2 \<and> s2 \<noteq> [] \<and> CastToBool (hd s2)) \<and>
       verify_p2sh C chk flags scriptSig s1 = Ok s3 \<and>
       (has_flag flags SCRIPT_VERIFY_CLEANSTACK \<longrightarrow> length s3 = 1))"
    unfolding VerifyScript_Ok_iff using p assms(2) by simp
  also have "\<dots> \<longleftrightarrow> IsPushOnly scriptSig \<and>
    (\<exists>x s t. EvalScript C chk flags [] scriptSig = Ok (x # s) \<and> length (x # s) < MAX_STACK_SIZE \<and>
      Hash160 C x = h \<and> EvalScript C chk flags s x = Ok t \<and> t \<noteq> [] \<and> CastToBool (hd t) \<and>
      (has_flag flags SCRIPT_VERIFY_CLEANSTACK \<longrightarrow> length t = 1))"
    unfolding ev v by auto
  finally show ?thesis .
qed

lemma obind_Throw: "obind r f = Throw \<longleftrightarrow> r = Throw \<or> (\<exists>x. r = Ok x \<and> f x = Throw)"
  by (cases r) auto

lemma no_throw [simp]:
  "EvalScript C chk flags stk script \<noteq> Throw" "eval_true s \<noteq> Throw"
  by (simp_all add: EvalScript_def eval_true_def split: outcome.split)

lemma VerifyScript_no_throw: "VerifyScript C chk flags scriptSig scriptPubKey \<noteq> Throw"
proof -
  have "verify_p2sh C chk flags scriptSig s \<noteq> Throw" for s
    by (simp add: verify_p2sh_def obind_Throw split: list.split)
  then show ?thesis by (auto simp: VerifyScript_def obind_Throw Let_def split: if_splits)
qed

lemma VerifyScript_result:
  assumes "never_aborts chk" "hash_sizes C"
    "has_flag flags SCRIPT_VERIFY_CLEANSTACK \<longrightarrow> has_flag flags SCRIPT_VERIFY_P2SH"
  shows "VerifyScript C chk flags scriptSig scriptPubKey = Ok () \<or>
    (\<exists>e. e \<noteq> SCRIPT_ERR_OK \<and> VerifyScript C chk flags scriptSig scriptPubKey = Fail e)"
  using VerifyScript_safe [OF assms, of scriptSig scriptPubKey]
    VerifyScript_no_throw [of C chk flags scriptSig scriptPubKey]
  by (cases "VerifyScript C chk flags scriptSig scriptPubKey") auto


section \<open>Properties\<close>

text \<open>
  C1. Pay to public key hash: for every set of flags, a signature script that pushes a signature
  and a key satisfies a pay-to-pubkey-hash output exactly when the key hashes to the committed
  hash, both pass the encoding checks, and the signature checker accepts them for the output
  script.
\<close>

theorem P2PKH_spend_exact:
  assumes "length h = 20" "2 \<le> length sig" "length sig \<le> 75" "sig \<noteq> h" "2 \<le> length key" "length key \<le> 75"
    and "has_flag flags SCRIPT_VERIFY_CLEANSTACK \<longrightarrow> has_flag flags SCRIPT_VERIFY_P2SH"
  shows "VerifyScript C chk flags (push_data sig @ push_data key) (p2pkh_script h) = Ok () \<longleftrightarrow>
    Hash160 C key = h \<and> CheckSignatureEncoding (CheckLowS C) sig flags = None \<and>
    CheckPubKeyEncoding key flags = None \<and> CheckSig chk sig key (p2pkh_script h) = Some True"
  using assms by (rule VerifyScript_p2pkh)

theorem P2PKH_spend_exact_witness:
  "VerifyScript const_crypto (BaseSignatureChecker\<lparr>CheckSig := \<lambda>_ _ _. Some True\<rparr>) 0
     (push_data (replicate 10 1) @ push_data (replicate 33 2)) (p2pkh_script (replicate 20 0)) = Ok () \<and>
   VerifyScript const_crypto BaseSignatureChecker 0
     (push_data (replicate 10 1) @ push_data (replicate 33 2)) (p2pkh_script (replicate 20 0)) \<noteq> Ok ()"
proof -
  have "length (replicate 10 (1 :: u8)) \<noteq> length (replicate 20 (0 :: u8))" by simp
  then have "replicate 10 (1 :: u8) \<noteq> replicate 20 0" by metis
  then show ?thesis
    using P2PKH_spend_exact [of "replicate 20 0" "replicate 10 1" "replicate 33 2" 0 const_crypto]
    by (simp add: has_flag_def Hash160_def const_crypto_def CheckSignatureEncoding_def CheckPubKeyEncoding_def
        BaseSignatureChecker_def)
qed

text \<open>
  C2. Pay to script hash: with the P2SH flag, a signature script satisfies a pay-to-script-hash
  output exactly when it is push-only, its last push hashes to the committed hash, and that push,
  run as a script on the remaining stack, succeeds with a true top element, which is the only one
  if the clean-stack flag is set.
\<close>

theorem P2SH_spend_exact:
  assumes "length h = 20" "has_flag flags SCRIPT_VERIFY_P2SH"
  shows "VerifyScript C chk flags scriptSig (p2sh_script h) = Ok () \<longleftrightarrow>
    IsPushOnly scriptSig \<and>
    (\<exists>x s t. EvalScript C chk flags [] scriptSig = Ok (x # s) \<and> length (x # s) < MAX_STACK_SIZE \<and>
      Hash160 C x = h \<and> EvalScript C chk flags s x = Ok t \<and> t \<noteq> [] \<and> CastToBool (hd t) \<and>
      (has_flag flags SCRIPT_VERIFY_CLEANSTACK \<longrightarrow> length t = 1))"
  using assms by (rule VerifyScript_p2sh)

theorem P2SH_spend_exact_witness:
  "VerifyScript const_crypto BaseSignatureChecker SCRIPT_VERIFY_P2SH [1, 0x51]
     (p2sh_script (replicate 20 0)) = Ok ()"
proof -
  have "EvalScript const_crypto BaseSignatureChecker SCRIPT_VERIFY_P2SH [] [1, 0x51] = Ok [[0x51]]"
    "EvalScript const_crypto BaseSignatureChecker SCRIPT_VERIFY_P2SH [] [0x51] = Ok [[1]]"
    by code_simp+
  moreover have "IsPushOnly [1, 0x51]" by code_simp
  ultimately show ?thesis
    using P2SH_spend_exact [of "replicate 20 0" SCRIPT_VERIFY_P2SH const_crypto BaseSignatureChecker "[1, 0x51]"]
    by (auto simp: has_flag_def Hash160_def const_crypto_def)
qed

text \<open>
  Verification is total and safe: unless the clean-stack flag is used without P2SH, no
  assertion of \<^verbatim>\<open>VerifyScript\<close> fails, in particular not the one that the stack cannot be
  empty when a pay-to-script-hash output is restored, and a failure sets an error.
\<close>

theorem VerifyScript_total_and_safe:
  assumes "never_aborts chk" "hash_sizes C"
    "has_flag flags SCRIPT_VERIFY_CLEANSTACK \<longrightarrow> has_flag flags SCRIPT_VERIFY_P2SH"
  shows "VerifyScript C chk flags scriptSig scriptPubKey = Ok () \<or>
    (\<exists>e. e \<noteq> SCRIPT_ERR_OK \<and> VerifyScript C chk flags scriptSig scriptPubKey = Fail e)"
  using assms by (rule VerifyScript_result)

theorem VerifyScript_total_and_safe_witness:
  "VerifyScript const_crypto BaseSignatureChecker 0 [0xac] [] = Ok () \<or>
    (\<exists>e. e \<noteq> SCRIPT_ERR_OK \<and> VerifyScript const_crypto BaseSignatureChecker 0 [0xac] [] = Fail e)"
  by (rule VerifyScript_total_and_safe) (simp_all add: example_environment has_flag_def)

text \<open>
  C23. Soft forks: a spend that is valid under a set of flags stays valid when flags are taken
  away, as long as the flag that enables the DIP0020 opcodes is kept and the clean-stack flag is
  not left without P2SH.
\<close>

theorem VerifyScript_soft_fork:
  assumes "stricter B A" "has_flag A SCRIPT_VERIFY_CLEANSTACK \<longrightarrow> has_flag A SCRIPT_VERIFY_P2SH"
    and "VerifyScript C chk B scriptSig scriptPubKey = Ok ()"
  shows "VerifyScript C chk A scriptSig scriptPubKey = Ok ()"
  using assms by (rule VerifyScript_mono)

theorem VerifyScript_soft_fork_witness:
  "VerifyScript const_crypto BaseSignatureChecker SCRIPT_VERIFY_P2SH [0x51] [0x51, 0x87] = Ok ()"
proof -
  have "VerifyScript const_crypto BaseSignatureChecker
      (SCRIPT_VERIFY_P2SH OR SCRIPT_VERIFY_MINIMALDATA OR SCRIPT_VERIFY_CLEANSTACK) [0x51] [0x51, 0x87] = Ok ()"
    by code_simp
  then show ?thesis
    by (rule VerifyScript_soft_fork [rotated 2]) (simp_all add: stricter_def has_flag_def)
qed

text \<open>
  The comment that all flags are soft forks does not hold for
  \<^verbatim>\<open>SCRIPT_ENABLE_DIP0020_OPCODES\<close>: there is a spend that is valid with the flag and
  invalid without it.
\<close>

theorem DIP0020_flag_is_no_soft_fork:
  "VerifyScript const_crypto BaseSignatureChecker SCRIPT_ENABLE_DIP0020_OPCODES [0x51] [0x51, 0x7e] = Ok () \<and>
   VerifyScript const_crypto BaseSignatureChecker 0 [0x51] [0x51, 0x7e] = Fail SCRIPT_ERR_DISABLED_OPCODE"
  by (intro conjI; code_simp)

end
