(* ===== verification/Serialize.thy ===== *)
theory Serialize
  imports Byte_Order
begin

unbundle bit_operations_syntax

text \<open>
  The serialization format of \<^verbatim>\<open>serialize.h\<close>: fixed-width integers, compact sizes,
  variable-length integers, vectors and byte strings.  A writer is a function to the bytes it
  appends to the stream, a reader takes the unread part of the stream and returns the value with
  the rest.  The contract between the two is the locale \<open>canonical_codec\<close>; it is interpreted on
  every format of this theory and of the theories that build on it.
\<close>

section \<open>Streams\<close>

text \<open>
  What reading can do besides returning a value: throw \<^verbatim>\<open>std::ios_base::failure\<close>, or
  store outside of a vector.
\<close>

datatype stream_error = Ios_failure | Out_of_bounds

type_synonym 'a reader = "bytes \<Rightarrow> stream_error + 'a \<times> bytes"

definition rbind :: "stream_error + 'a \<times> bytes \<Rightarrow> ('a \<Rightarrow> 'b reader) \<Rightarrow> stream_error + 'b \<times> bytes" where
  "rbind r f = (case r of Inl e \<Rightarrow> Inl e | Inr (x, s) \<Rightarrow> f x s)"

definition read_raw :: "nat \<Rightarrow> bytes reader" where
  "read_raw nSize s = (if nSize > length s then Inl Ios_failure else Inr (take nSize s, drop nSize s))"

lemma rbind_simps [simp]: "rbind (Inl e) f = Inl e" "rbind (Inr (x, s)) f = f x s"
  by (simp_all add: rbind_def)

lemma rbind_Inr: "rbind r f = Inr y \<longleftrightarrow> (\<exists>x s. r = Inr (x, s) \<and> f x s = Inr y)"
  by (cases r) auto

lemma read_raw_append [simp]: "length a = n \<Longrightarrow> read_raw n (a @ s) = Inr (a, s)"
  by (simp add: read_raw_def)

lemma read_raw_Inr: "read_raw n s = Inr (a, t) \<longleftrightarrow> length a = n \<and> s = a @ t"
  by (auto simp: read_raw_def)


section \<open>Integers\<close>

definition ser_writedata8 :: "u8 \<Rightarrow> bytes" where "ser_writedata8 obj = [obj]"
definition ser_writedata16 :: "u16 \<Rightarrow> bytes" where "ser_writedata16 obj = WriteLE16 obj"
definition ser_writedata32 :: "u32 \<Rightarrow> bytes" where "ser_writedata32 obj = WriteLE32 obj"
definition ser_writedata64 :: "u64 \<Rightarrow> bytes" where "ser_writedata64 obj = WriteLE64 obj"

definition ser_readdata8 :: "u8 reader" where
  "ser_readdata8 s = rbind (read_raw 1 s) (\<lambda>p s. Inr (hd p, s))"

definition ser_readdata16 :: "u16 reader" where
  "ser_readdata16 s = rbind (read_raw 2 s) (\<lambda>p s. Inr (ReadLE16 p, s))"

definition ser_readdata32 :: "u32 reader" where
  "ser_readdata32 s = rbind (read_raw 4 s) (\<lambda>p s. Inr (ReadLE32 p, s))"

definition ser_readdata64 :: "u64 reader" where
  "ser_readdata64 s = rbind (read_raw 8 s) (\<lambda>p s. Inr (ReadLE64 p, s))"


section \<open>Sizes\<close>

abbreviation (input) MAX_SIZE :: nat where "MAX_SIZE \<equiv> 0x02000000"

definition GetSizeOfCompactSize :: "u64 \<Rightarrow> nat" where
  "GetSizeOfCompactSize nSize =
     (if nSize < 253 then 1 else if nSize \<le> 0xffff then 3 else if nSize \<le> 0xffffffff then 5 else 9)"

definition WriteCompactSize :: "u64 \<Rightarrow> bytes" where
  "WriteCompactSize nSize =
     (if nSize < 253 then ser_writedata8 (ucast nSize)
      else if nSize \<le> 0xffff then ser_writedata8 253 @ ser_writedata16 (ucast nSize)
      else if nSize \<le> 0xffffffff then ser_writedata8 254 @ ser_writedata32 (ucast nSize)
      else ser_writedata8 255 @ ser_writedata64 nSize)"

definition read_size_field :: "u8 \<Rightarrow> u64 reader" where
  "read_size_field chSize s =
     (if chSize < 253 then Inr (ucast chSize, s)
      else if chSize = 253
      then rbind (ser_readdata16 s) (\<lambda>n s. if (ucast n :: u64) < 253 then Inl Ios_failure else Inr (ucast n, s))
      else if chSize = 254
      then rbind (ser_readdata32 s) (\<lambda>n s. if (ucast n :: u64) < 0x10000 then Inl Ios_failure else Inr (ucast n, s))
      else rbind (ser_readdata64 s) (\<lambda>n s. if n < 0x100000000 then Inl Ios_failure else Inr (n, s)))"

definition ReadCompactSize :: "bool \<Rightarrow> u64 reader" where
  "ReadCompactSize range_check s =
     rbind (ser_readdata8 s) (\<lambda>chSize s.
       rbind (read_size_field chSize s)
         (\<lambda>nSizeRet s. if range_check \<and> nSizeRet > of_nat MAX_SIZE then Inl Ios_failure else Inr (nSizeRet, s)))"

text \<open>
  \<^verbatim>\<open>WriteVarInt\<close> fills a buffer with the digits, least significant first, and writes the
  buffer backwards; the width of \<^verbatim>\<open>I\<close> is the width of the word.
\<close>

function varint_tmp :: "'a::len word \<Rightarrow> nat \<Rightarrow> bytes" where
  "varint_tmp n len =
     (let digit = ucast (n AND 0x7F) OR (if len \<noteq> 0 then 0x80 else 0x00)
      in if n \<le> 0x7F then [digit] else digit # varint_tmp (drop_bit 7 n - 1) (len + 1))"
  by pat_completeness auto

definition WriteVarInt :: "'a::len word \<Rightarrow> bytes" where
  "WriteVarInt n = rev (varint_tmp n 0)"

function GetSizeOfVarInt :: "'a::len word \<Rightarrow> nat" where
  "GetSizeOfVarInt n = (if n \<le> 0x7F then 1 else Suc (GetSizeOfVarInt (drop_bit 7 n - 1)))"
  by pat_completeness auto

primrec varint_loop :: "bytes \<Rightarrow> 'a::len word \<Rightarrow> stream_error + 'a word \<times> bytes" where
  "varint_loop [] n = Inl Ios_failure"
| "varint_loop (chData # s) n =
     (if n > drop_bit 7 (- 1) then Inl Ios_failure
      else let n = push_bit 7 n OR ucast (chData AND 0x7F)
      in if chData AND 0x80 \<noteq> 0
         then if n = - 1 then Inl Ios_failure else varint_loop s (n + 1)
         else Inr (n, s))"

definition ReadVarInt :: "'a::len word reader" where
  "ReadVarInt s = varint_loop s 0"

lemma varint_step:
  assumes "\<not> n \<le> (0x7F :: 'a::len word)"
  shows "8 \<le> LENGTH('a)" "128 \<le> unat n" "unat (drop_bit 7 n - 1) = unat n div 128 - 1" "drop_bit 7 n \<noteq> 0"
proof -
  show l: "8 \<le> LENGTH('a)"
  proof (rule ccontr)
    assume "\<not> 8 \<le> LENGTH('a)"
    then have "LENGTH('a) \<le> 7" by simp
    have "(0x7F :: 'a word) = mask 7" by (simp add: mask_eq_exp_minus_1)
    also have "\<dots> = - 1" using \<open>LENGTH('a) \<le> 7\<close> by (simp add: bit_eq_iff bit_mask_iff)
    finally have "n \<le> 0x7F" by (simp only: word_order.extremum)
    then show False using assms by contradiction
  qed
  have p: "(2 :: nat) ^ 8 \<le> 2 ^ LENGTH('a)" using l by (rule power_increasing) simp
  have "unat (0x7F :: 'a word) = 127 mod 2 ^ LENGTH('a)" by (simp add: unsigned_numeral take_bit_eq_mod)
  then have "unat (0x7F :: 'a word) = 127" using p by simp
  then show u: "128 \<le> unat n" using assms by (simp add: word_le_nat_alt)
  have d: "unat (drop_bit 7 n) = unat n div 128" unfolding unat_drop_bit_eq by (simp add: drop_bit_eq_div)
  then show nz: "drop_bit 7 n \<noteq> 0" using u by (auto simp: word_unat_eq_iff)
  then show "unat (drop_bit 7 n - 1) = unat n div 128 - 1" using d by (simp add: unat_minus_one)
qed

termination varint_tmp
proof (relation "measure (unat \<circ> fst)")
  fix n :: "'a word" and len x
  assume "\<not> n \<le> 0x7F"
  from varint_step(2,3) [OF this]
  show "((drop_bit 7 n - 1, len + 1), n, len) \<in> measure (unat \<circ> fst)" by simp
qed simp

termination GetSizeOfVarInt
proof (relation "measure unat")
  fix n :: "'a word"
  assume "\<not> n \<le> 0x7F"
  from varint_step(2,3) [OF this]
  show "(drop_bit 7 n - 1, n) \<in> measure unat" by simp
qed simp

declare varint_tmp.simps [simp del] GetSizeOfVarInt.simps [simp del]

lemma and_0x80: "x AND 0x80 \<noteq> 0 \<longleftrightarrow> bit (x :: u8) 7"
  using and_exp_eq_0_iff_not_bit [of x 7] by simp

lemma bit_0x80: "bit (0x80 :: u8) i \<longleftrightarrow> i = 7" "bit (0x80 :: int) i \<longleftrightarrow> i = 7"
  using bit_exp_iff [where 'a = u8, of 7 i] bit_exp_iff [where 'a = int, of 7 i] by auto

lemma digit_bits:
  "(ucast (n AND 0x7F) OR 0x80 :: u8) AND 0x80 \<noteq> 0" "(ucast (n AND 0x7F) OR 0 :: u8) AND 0x80 = 0"
  "(ucast (n AND 0x7F) OR 0x80 :: u8) AND 0x7F = ucast (n AND 0x7F)"
  "(ucast (n AND 0x7F) OR 0 :: u8) AND 0x7F = ucast (n AND 0x7F)"
  for n :: "'a::len word"
proof -
  have m: "(0x7F :: u8) = mask 7" "(0x7F :: 'a word) = mask 7" by (simp_all add: mask_eq_exp_minus_1)
  have b: "\<not> bit (ucast (n AND 0x7F) :: u8) 7" unfolding m by (simp add: bit_simps)
  show "(ucast (n AND 0x7F) OR 0x80 :: u8) AND 0x80 \<noteq> 0" by (simp only: and_0x80 bit_or_iff bit_0x80 simp_thms)
  show "(ucast (n AND 0x7F) OR 0 :: u8) AND 0x80 = 0" using b and_0x80 [of "ucast (n AND 0x7F) OR 0"] by simp
  show "(ucast (n AND 0x7F) OR 0x80 :: u8) AND 0x7F = ucast (n AND 0x7F)"
    "(ucast (n AND 0x7F) OR 0 :: u8) AND 0x7F = ucast (n AND 0x7F)"
    unfolding m by (rule bit_word_eqI; auto simp: bit_simps bit_0x80)+
qed

lemma digit_join:
  "push_bit 7 (drop_bit 7 n) OR ucast (ucast (n AND 0x7F) :: u8) = (n :: 'a::len word)"
proof -
  have m: "(0x7F :: 'a word) = mask 7" by (simp add: mask_eq_exp_minus_1)
  have "bit (push_bit 7 (drop_bit 7 n) OR ucast (ucast (n AND mask 7) :: u8)) i = bit n i" if "i < LENGTH('a)" for i
    using that by (cases "i < 7") (auto simp: bit_simps)
  then show ?thesis unfolding m by (rule bit_word_eqI)
qed

lemma small_digit: "n \<le> 0x7F \<Longrightarrow> drop_bit 7 (n :: 'a::len word) = 0"
proof -
  assume "n \<le> 0x7F"
  then have "unat n \<le> unat (0x7F :: 'a word)" by (simp add: word_le_nat_alt)
  also have "\<dots> \<le> 127" by (simp add: unsigned_numeral)
  finally have "unat n div 128 = 0" by simp
  then have "unat (drop_bit 7 n) = 0" by (simp only: unat_drop_bit_eq) (simp add: drop_bit_eq_div)
  then show ?thesis by (simp only: unat_eq_zero)
qed

lemma drop_le_max: "drop_bit 7 n \<le> (drop_bit 7 (- 1) :: 'a::len word)"
proof -
  have "unat n \<le> unat (- 1 :: 'a word)" by (simp only: word_le_nat_alt [symmetric] word_order.extremum)
  then have "unat n div 2 ^ 7 \<le> unat (- 1 :: 'a word) div 2 ^ 7" by (rule div_le_mono)
  then show ?thesis unfolding word_le_nat_alt unat_drop_bit_eq by (simp only: drop_bit_eq_div)
qed

definition digit :: "'a::len word \<Rightarrow> bool \<Rightarrow> u8" where
  "digit n more = ucast (n AND 0x7F) OR (if more then 0x80 else 0x00)"

lemma digit_more: "digit n more AND 0x80 \<noteq> 0 \<longleftrightarrow> more"
  using digit_bits(1,2) [of n] unfolding digit_def by (cases more) (simp_all only: if_True if_False simp_thms)

lemma digit_value: "push_bit 7 (drop_bit 7 n) OR ucast (digit n more AND 0x7F) = n"
  using digit_bits(3,4) [of n] digit_join [of n] by (cases more) (simp_all only: digit_def if_True if_False)

lemma varint_tmp_digit:
  "varint_tmp n len =
    (if n \<le> 0x7F then [digit n (len \<noteq> 0)] else digit n (len \<noteq> 0) # varint_tmp (drop_bit 7 n - 1) (Suc len))"
  unfolding digit_def by (subst varint_tmp.simps) (simp only: Let_def Suc_eq_plus1)

lemma varint_tmp_len: "varint_tmp n (Suc len) = varint_tmp n (Suc len')"
proof (induction n "Suc len" arbitrary: len len' rule: varint_tmp.induct)
  case (1 n)
  show ?case
  proof (cases "n \<le> 0x7F")
    case True
    then show ?thesis by (simp only: varint_tmp_digit [of n "Suc len"] varint_tmp_digit [of n "Suc len'"]) simp
  next
    case False
    have "varint_tmp (drop_bit 7 n - 1) (Suc (Suc len)) = varint_tmp (drop_bit 7 n - 1) (Suc (Suc len'))"
      using 1 [OF refl False, of "Suc len" "Suc len'"] by simp
    then show ?thesis
      by (simp only: varint_tmp_digit [of n "Suc len"] varint_tmp_digit [of n "Suc len'"] False if_False) simp
  qed
qed

lemma varint_loop_tmp:
  fixes n :: "'a::len word"
  assumes "7 \<le> LENGTH('a)"
  shows "varint_loop (rev (varint_tmp n len) @ s) 0 =
    (if len = 0 then Inr (n, s) else if n = - 1 then Inl Ios_failure else varint_loop s (n + 1))"
  using assms
proof (induction n len arbitrary: s rule: varint_tmp.induct)
  case (1 n len)
  have "\<not> drop_bit 7 n > (drop_bit 7 (- 1) :: 'a word)" using drop_le_max [of n] by (simp only: not_less)
  then have read: "varint_loop (digit n (len \<noteq> 0) # s) (drop_bit 7 n) =
      (if len = 0 then Inr (n, s) else if n = - 1 then Inl Ios_failure else varint_loop s (n + 1))" for s
    by (cases "len = 0") (simp_all only: varint_loop.simps digit_more digit_value Let_def if_False if_True not_True_eq_False simp_thms)
  show ?case
  proof (cases "n \<le> 0x7F")
    case True
    have "varint_loop (rev (varint_tmp n len) @ s) 0 = varint_loop (digit n (len \<noteq> 0) # s) (drop_bit 7 n)"
      unfolding small_digit [OF True] by (subst varint_tmp_digit) (simp only: True if_True rev.simps append.simps)
    then show ?thesis unfolding read .
  next
    case False
    have "drop_bit 7 n - 1 \<noteq> (- 1 :: 'a word)" using varint_step(4) [OF False] by (simp only: diff_eq_eq) simp
    then have "varint_loop (rev (varint_tmp (drop_bit 7 n - 1) (len + 1)) @ digit n (len \<noteq> 0) # s) 0 =
        varint_loop (digit n (len \<noteq> 0) # s) (drop_bit 7 n)"
      unfolding "1.IH" [OF refl False \<open>7 \<le> LENGTH('a)\<close>] by simp
    moreover have "rev (varint_tmp n len) @ s = rev (varint_tmp (drop_bit 7 n - 1) (len + 1)) @ digit n (len \<noteq> 0) # s"
      by (subst varint_tmp_digit) (simp only: False if_False rev.simps append_assoc append.simps Suc_eq_plus1)
    ultimately show ?thesis unfolding read by (simp only: read)
  qed
qed

lemma digit_split:
  fixes ch :: u8 and n :: "'a::len word"
  assumes "8 \<le> LENGTH('a)" "\<not> n > drop_bit 7 (- 1)"
  defines "k \<equiv> push_bit 7 n OR ucast (ch AND 0x7F)"
  shows "drop_bit 7 k = n" "ch = digit k (ch AND 0x80 \<noteq> 0)"
proof -
  have m: "(0x7F :: u8) = mask 7" "(0x7F :: 'a word) = mask 7" by (simp_all add: mask_eq_exp_minus_1)
  have "unat n \<le> unat (drop_bit 7 (- 1 :: 'a word))" using assms(2) by (simp only: not_less word_le_nat_alt)
  also have "\<dots> = (2 ^ LENGTH('a) - 1) div 2 ^ 7"
    unfolding unat_drop_bit_eq by (simp add: drop_bit_eq_div unsigned_minus_1_eq_mask mask_eq_exp_minus_1)
  also have "\<dots> < 2 ^ (LENGTH('a) - 7)"
  proof -
    have "(2 :: nat) ^ LENGTH('a) = 2 ^ (LENGTH('a) - 7) * 2 ^ 7" using assms(1)
      by (simp only: power_add [symmetric] le_add_diff_inverse2)
    then show ?thesis by (simp add: less_mult_imp_div_less)
  qed
  finally have "unat n < 2 ^ (LENGTH('a) - 7)" .
  then have t: "take_bit (LENGTH('a) - 7) (unat n) = unat n" by (rule take_bit_nat_eq_self)
  have hi: "\<not> bit n i" if "LENGTH('a) - 7 \<le> i" for i
  proof -
    have "\<not> bit (take_bit (LENGTH('a) - 7) (unat n)) i" using that by (simp add: bit_take_bit_iff)
    then show ?thesis unfolding t by (simp add: bit_unsigned_iff)
  qed
  show "drop_bit 7 k = n"
  proof (rule bit_word_eqI)
    fix i assume "i < LENGTH('a)"
    show "bit (drop_bit 7 k) i = bit n i"
      using hi [of i] unfolding k_def m by (cases "LENGTH('a) - 7 \<le> i") (auto simp: bit_simps)
  qed
  have low: "k AND 0x7F = ucast (ch AND 0x7F)" unfolding k_def m by (auto simp: bit_eq_iff bit_simps)
  have "ucast (ucast (ch AND 0x7F) :: 'a word) = ch AND 0x7F"
    using assms(1) unfolding m by (auto simp: bit_eq_iff bit_simps)
  moreover have "(ch AND 0x7F) OR (if ch AND 0x80 \<noteq> 0 then 0x80 else 0) = ch"
  proof -
    have "bit ((ch AND 0x7F) OR (if bit ch 7 then 0x80 else 0)) i = bit ch i" if "i < LENGTH(8)" for i
    proof (cases "i < 7")
      case True then show ?thesis unfolding m by (auto simp: bit_simps bit_0x80)
    next
      case False
      then have "i = 7" using that by simp
      then show ?thesis unfolding m by (simp add: bit_and_iff bit_or_iff bit_0x80 bit_mask_iff)
    qed
    then show ?thesis unfolding and_0x80 by (rule bit_word_eqI)
  qed
  ultimately show "ch = digit k (ch AND 0x80 \<noteq> 0)" unfolding digit_def low by simp
qed

lemma varint_loop_canonical:
  fixes n :: "'a::len word"
  assumes "8 \<le> LENGTH('a)" "varint_loop bs n = Inr (m, t)"
    and "pre = (if n = 0 then [] else rev (varint_tmp (n - 1) 1))"
  shows "pre @ bs = WriteVarInt m @ t"
  using assms(2,3)
proof (induction bs arbitrary: n pre)
  case Nil
  then show ?case by simp
next
  case (Cons ch bs)
  define k where "k = push_bit 7 n OR ucast (ch AND 0x7F)"
  have n: "\<not> n > drop_bit 7 (- 1)" using Cons.prems(1) by (auto split: if_splits)
  have d: "drop_bit 7 k = n" and e: "ch = digit k (ch AND 0x80 \<noteq> 0)"
    using digit_split [OF assms(1) n, of ch] by (simp_all only: k_def)
  have z: "k \<le> 0x7F \<longleftrightarrow> n = 0" using d small_digit [of k] varint_step(4) [of k] by metis
  have tmp: "rev (varint_tmp k (if ch AND 0x80 \<noteq> 0 then Suc l else 0)) = pre @ [ch]" for l
    unfolding varint_tmp_digit [of k] using e z d Cons.prems(2) varint_tmp_len [of "n - 1" _ 0]
    by (cases "ch AND 0x80 = 0") (auto)
  show ?case
  proof (cases "ch AND 0x80 = 0")
    case True
    then have "m = k" "t = bs" using Cons.prems(1) n by (simp_all add: k_def Let_def)
    then show ?thesis using tmp True by (simp add: WriteVarInt_def)
  next
    case False
    then have r: "varint_loop bs (k + 1) = Inr (m, t)" and "k \<noteq> - 1"
      using Cons.prems(1) n by (auto simp: k_def Let_def split: if_splits)
    then have "k + 1 \<noteq> 0" by (metis add_eq_0_iff add.commute)
    then have "(pre @ [ch]) @ bs = WriteVarInt m @ t"
      using tmp [of 0] False by (intro Cons.IH [OF r]) simp
    then show ?thesis by simp
  qed
qed

lemma varint_tmp_length: "length (varint_tmp n len) = GetSizeOfVarInt n"
proof (induction n len rule: varint_tmp.induct)
  case (1 n len)
  then show ?case by (simp add: varint_tmp_digit [of n] GetSizeOfVarInt.simps [of n])
qed

lemma varint_tmp_bound: "7 * length (varint_tmp n len) \<le> LENGTH('a) + 6" for n :: "'a::len word"
proof -
  have "7 * GetSizeOfVarInt n \<le> k + 6" if "unat n < 2 ^ k" "0 < k" for k
    using that
  proof (induction n arbitrary: k rule: GetSizeOfVarInt.induct)
    case (1 n)
    show ?case
    proof (cases "n \<le> 0x7F")
      case True
      then show ?thesis using 1(3) by (simp add: GetSizeOfVarInt.simps [of n])
    next
      case False
      note step = varint_step [OF False]
      have "(2 :: nat) ^ 7 < 2 ^ k" using step(2) 1(2) by simp
      then have k: "7 < k" by (rule power_less_imp_less_exp [rotated]) simp
      have "(2 :: nat) ^ k = 2 ^ (k - 7) * 2 ^ 7" using k by (simp only: power_add [symmetric] le_add_diff_inverse2 less_imp_le_nat)
      then have "unat n < 2 ^ (k - 7) * 128" using 1(2) by simp
      then have "unat n div 128 - 1 < 2 ^ (k - 7)" by (simp add: less_mult_imp_div_less less_imp_diff_less)
      then have "7 * GetSizeOfVarInt (drop_bit 7 n - 1) \<le> k - 7 + 6" using 1(1) [OF False, of "k - 7"] step(3) k by simp
      then show ?thesis using k by (simp add: GetSizeOfVarInt.simps [of n] False)
    qed
  qed
  then show ?thesis unfolding varint_tmp_length using unat_bound [of n] by blast
qed


section \<open>Codecs\<close>

text \<open>
  The contract between a serializer and its deserializer: what is written is read back, whatever
  follows it in the stream, and whatever is read is what writing the value would have produced.
\<close>

locale codec =
  fixes ser :: "'a \<Rightarrow> bytes" and unser :: "'a reader" and valid :: "'a \<Rightarrow> bool"
  assumes unser_ser: "valid x \<Longrightarrow> unser (ser x @ s) = Inr (x, s)"
begin

lemma ser_prefix_free: "valid x \<Longrightarrow> valid y \<Longrightarrow> ser x @ s = ser y @ t \<Longrightarrow> x = y \<and> s = t"
  by (metis Pair_inject sum.inject(2) unser_ser)

lemma ser_inj: "inj_on ser (Collect valid)"
  by (rule inj_onI) (metis mem_Collect_eq ser_prefix_free)

end

locale canonical_codec = codec +
  assumes ser_unser: "unser s = Inr (x, t) \<Longrightarrow> valid x \<and> s = ser x @ t"
begin

lemma unser_iff: "unser s = Inr (x, t) \<longleftrightarrow> valid x \<and> s = ser x @ t"
  by (metis ser_unser unser_ser)

end

text \<open>The integers, sizes and variable-length integers of the stream format.\<close>

lemmas ReadLE_WriteLE_end [simp] = ReadLE_WriteLE [where r = "[]", simplified]

interpretation u8_codec: canonical_codec ser_writedata8 ser_readdata8 "\<lambda>_. True"
  by unfold_locales (auto simp: ser_writedata8_def ser_readdata8_def rbind_Inr read_raw_Inr length_Suc_conv)

interpretation u16_codec: canonical_codec ser_writedata16 ser_readdata16 "\<lambda>_. True"
  by unfold_locales (auto simp: ser_writedata16_def ser_readdata16_def rbind_Inr read_raw_Inr WriteLE_ReadLE)

interpretation u32_codec: canonical_codec ser_writedata32 ser_readdata32 "\<lambda>_. True"
  by unfold_locales (auto simp: ser_writedata32_def ser_readdata32_def rbind_Inr read_raw_Inr WriteLE_ReadLE)

interpretation u64_codec: canonical_codec ser_writedata64 ser_readdata64 "\<lambda>_. True"
  by unfold_locales (auto simp: ser_writedata64_def ser_readdata64_def rbind_Inr read_raw_Inr WriteLE_ReadLE)

definition size_ok :: "bool \<Rightarrow> u64 \<Rightarrow> bool" where
  "size_ok range_check nSize \<longleftrightarrow> range_check \<longrightarrow> nSize \<le> of_nat MAX_SIZE"

lemma unat_ucasts [simp]:
  "unat (ucast (n :: u64) :: u8) = unat n mod 256" "unat (ucast n :: u16) = unat n mod 65536"
  "unat (ucast n :: u32) = unat n mod 4294967296" "unat (ucast (a :: u8) :: u64) = unat a"
  "unat (ucast (b :: u16) :: u64) = unat b" "unat (ucast (c :: u32) :: u64) = unat c"
  using unat_bound [of a] unat_bound [of b] unat_bound [of c]
  by (simp_all add: unsigned_ucast_eq take_bit_eq_mod)

lemma ucast_back [simp]:
  "ucast (ucast (a :: u8) :: u64) = a" "ucast (ucast (b :: u16) :: u64) = b" "ucast (ucast (c :: u32) :: u64) = c"
  using unat_bound [of a] unat_bound [of b] unat_bound [of c] by (simp_all add: word_unat_eq_iff)

lemma WriteCompactSize_ucast:
  "unat a < 253 \<Longrightarrow> WriteCompactSize (ucast a) = [a]"
  "253 \<le> unat b \<Longrightarrow> WriteCompactSize (ucast b) = 253 # ser_writedata16 b"
  "65536 \<le> unat c \<Longrightarrow> WriteCompactSize (ucast c) = 254 # ser_writedata32 c"
  "4294967296 \<le> unat d \<Longrightarrow> WriteCompactSize d = 255 # ser_writedata64 d"
  using unat_bound [of b] unat_bound [of c]
  by (simp_all add: WriteCompactSize_def ser_writedata8_def word_less_nat_alt word_le_nat_alt)

lemma read_size_fields:
  "unat a < 253 \<Longrightarrow> read_size_field a s = Inr (ucast a, s)"
  "253 \<le> unat b \<Longrightarrow> read_size_field 253 (ser_writedata16 b @ s) = Inr (ucast b, s)"
  "65536 \<le> unat c \<Longrightarrow> read_size_field 254 (ser_writedata32 c @ s) = Inr (ucast c, s)"
  "4294967296 \<le> unat d \<Longrightarrow> read_size_field 255 (ser_writedata64 d @ s) = Inr (d, s)"
  by (simp_all add: read_size_field_def word_less_nat_alt u16_codec.unser_ser u32_codec.unser_ser u64_codec.unser_ser)

lemma u64_size_cases:
  obtains (u8) a :: u8 where "n = ucast a" "unat a < 253" | (u16) b :: u16 where "n = ucast b" "253 \<le> unat b"
    | (u32) c :: u32 where "n = ucast c" "65536 \<le> unat c" | (u64) "4294967296 \<le> unat (n :: u64)"
proof -
  consider "unat n < 253" | "253 \<le> unat n" "unat n < 65536" | "65536 \<le> unat n" "unat n < 4294967296"
    | "4294967296 \<le> unat n" by linarith
  then show thesis
  proof cases
    case 1 then show thesis by (intro u8 [of "ucast n"]) (simp_all add: word_unat_eq_iff)
  next
    case 2 then show thesis by (intro u16 [of "ucast n"]) (simp_all add: word_unat_eq_iff)
  next
    case 3 then show thesis by (intro u32 [of "ucast n"]) (simp_all add: word_unat_eq_iff)
  next
    case 4 then show thesis by (rule u64)
  qed
qed

lemma read_size_Write: "rbind (ser_readdata8 (WriteCompactSize n @ s)) read_size_field = Inr (n, s)"
proof -
  have r: "rbind (ser_readdata8 (ch # r)) read_size_field = read_size_field ch r" for ch r
    using u8_codec.unser_ser [of ch r] by (simp add: ser_writedata8_def)
  show ?thesis
    by (rule u64_size_cases [of n]) (simp_all add: WriteCompactSize_ucast read_size_fields r)
qed

lemma Write_read_size: "read_size_field ch s = Inr (n, t) \<Longrightarrow> ch # s = WriteCompactSize n @ t"
proof -
  assume r: "read_size_field ch s = Inr (n, t)"
  consider "unat ch < 253" | "ch = 253" | "ch = 254" | "ch = 255"
  proof -
    have "unat ch < 253 \<or> unat ch = 253 \<or> unat ch = 254 \<or> unat ch = 255" using unat_bound [of ch] by auto
    then show thesis using that by (auto simp: word_unat_eq_iff)
  qed
  then show ?thesis
  proof cases
    case 1 then show ?thesis using r
      by (auto simp: read_size_field_def word_less_nat_alt WriteCompactSize_ucast split: if_splits)
  next
    case 2 then show ?thesis using r
      by (auto simp: read_size_field_def word_less_nat_alt rbind_Inr u16_codec.unser_iff WriteCompactSize_ucast split: if_splits)
  next
    case 3 then show ?thesis using r
      by (auto simp: read_size_field_def word_less_nat_alt rbind_Inr u32_codec.unser_iff WriteCompactSize_ucast split: if_splits)
  next
    case 4 then show ?thesis using r
      by (auto simp: read_size_field_def word_less_nat_alt rbind_Inr u64_codec.unser_iff WriteCompactSize_ucast split: if_splits)
  qed
qed

lemma ReadCompactSize_alt:
  "ReadCompactSize rc s = rbind (rbind (ser_readdata8 s) read_size_field)
     (\<lambda>n s. if size_ok rc n then Inr (n, s) else Inl Ios_failure)"
  by (auto simp: ReadCompactSize_def rbind_def size_ok_def not_less split: sum.splits)

interpretation size_codec: canonical_codec WriteCompactSize "ReadCompactSize rc" "size_ok rc" for rc
proof unfold_locales
  fix n s t
  show "size_ok rc n \<Longrightarrow> ReadCompactSize rc (WriteCompactSize n @ s) = Inr (n, s)"
    by (simp add: ReadCompactSize_alt read_size_Write)
  show "ReadCompactSize rc s = Inr (n, t) \<Longrightarrow> size_ok rc n \<and> s = WriteCompactSize n @ t"
    using Write_read_size by (auto simp: ReadCompactSize_alt rbind_Inr u8_codec.unser_iff ser_writedata8_def split: if_splits)
qed

lemma length_WriteCompactSize: "length (WriteCompactSize n) = GetSizeOfCompactSize n"
  by (simp add: WriteCompactSize_def GetSizeOfCompactSize_def ser_writedata8_def ser_writedata16_def
      ser_writedata32_def ser_writedata64_def)

lemma varint_codec: "8 \<le> LENGTH('a) \<Longrightarrow> canonical_codec (WriteVarInt :: 'a::len word \<Rightarrow> bytes) ReadVarInt (\<lambda>_. True)"
proof unfold_locales
  fix x :: "'a word" and s t
  assume l: "8 \<le> LENGTH('a)"
  then show "ReadVarInt (WriteVarInt x @ s) = Inr (x, s)" by (simp add: WriteVarInt_def ReadVarInt_def varint_loop_tmp)
  show "ReadVarInt s = Inr (x, t) \<Longrightarrow> True \<and> s = WriteVarInt x @ t"
    using varint_loop_canonical [OF l, of s 0 x t "[]"] by (simp add: ReadVarInt_def)
qed

interpretation varint32_codec: canonical_codec "WriteVarInt :: u32 \<Rightarrow> bytes" ReadVarInt "\<lambda>_. True"
  by (rule varint_codec) simp

interpretation varint64_codec: canonical_codec "WriteVarInt :: u64 \<Rightarrow> bytes" ReadVarInt "\<lambda>_. True"
  by (rule varint_codec) simp


section \<open>Vectors\<close>

text \<open>
  \<^verbatim>\<open>VectorFormatter\<close>: the size, then the elements.  The reader reserves memory in batches,
  which has no effect on what is read.
\<close>

primrec read_seq :: "'a reader \<Rightarrow> nat \<Rightarrow> 'a list reader" where
  "read_seq unser 0 s = Inr ([], s)"
| "read_seq unser (Suc k) s = rbind (unser s) (\<lambda>x s. rbind (read_seq unser k s) (\<lambda>xs s. Inr (x # xs, s)))"

definition vector_ser :: "('a \<Rightarrow> bytes) \<Rightarrow> 'a list \<Rightarrow> bytes" where
  "vector_ser ser v = WriteCompactSize (of_nat (length v)) @ concat (map ser v)"

definition vector_unser :: "'a reader \<Rightarrow> 'a list reader" where
  "vector_unser unser s = rbind (ReadCompactSize True s) (\<lambda>size s. read_seq unser (unat size) s)"

text \<open>Vectors of bytes are written as one block and read in blocks of at most 5000000 bytes.\<close>

definition bytes_ser :: "bytes \<Rightarrow> bytes" where
  "bytes_ser v = WriteCompactSize (of_nat (length v)) @ v"

function read_blocks :: "nat \<Rightarrow> nat \<Rightarrow> bytes \<Rightarrow> bytes reader" where
  "read_blocks nSize i v s =
     (if i < nSize
      then let blk = min (nSize - i) (1 + 4999999)
           in rbind (read_raw blk s) (\<lambda>b s. read_blocks nSize (i + blk) (v @ b) s)
      else Inr (v, s))"
  by pat_completeness auto
termination
  by (relation "measure (\<lambda>(nSize, i, v, s). nSize - i)") auto

declare read_blocks.simps [simp del]

definition bytes_unser :: "bytes reader" where
  "bytes_unser s = rbind (ReadCompactSize True s) (\<lambda>nSize s. read_blocks (unat nSize) 0 [] s)"

definition LimitedString_unser :: "nat \<Rightarrow> bytes reader" where
  "LimitedString_unser Limit s =
     rbind (ReadCompactSize True s) (\<lambda>size s.
       if unat size > Limit then Inl Ios_failure else read_raw (unat size) s)"

definition vector_ok :: "('a \<Rightarrow> bool) \<Rightarrow> 'a list \<Rightarrow> bool" where
  "vector_ok ok v \<longleftrightarrow> length v \<le> MAX_SIZE \<and> list_all ok v"

lemma size_ok_of_nat [simp]: "n \<le> MAX_SIZE \<Longrightarrow> size_ok True (of_nat n)" "n \<le> MAX_SIZE \<Longrightarrow> unat (of_nat n :: u64) = n"
  by (simp_all add: size_ok_def word_le_nat_alt unat_of_nat)

lemma size_okD: "size_ok True n \<Longrightarrow> unat n \<le> MAX_SIZE"
  by (simp add: size_ok_def word_le_nat_alt)

lemma rbind_assoc: "rbind (rbind r f) g = rbind r (\<lambda>x s. rbind (f x s) g)"
  by (auto simp: rbind_def split: sum.splits prod.splits)

lemma read_raw_add:
  "rbind (read_raw a s) (\<lambda>x s. rbind (read_raw b s) (\<lambda>y s. Inr (x @ y, s))) = read_raw (a + b) s"
  by (auto simp: read_raw_def take_add add.commute)

lemma read_blocks_raw: "read_blocks nSize i v s = rbind (read_raw (nSize - i) s) (\<lambda>b s. Inr (v @ b, s))"
proof (induction nSize i v s rule: read_blocks.induct)
  case (1 nSize i v s)
  show ?case
  proof (cases "i < nSize")
    case False
    then show ?thesis by (simp add: read_blocks.simps [of nSize] read_raw_def)
  next
    case True
    let ?b = "min (nSize - i) (1 + 4999999)"
    have "nSize - i = ?b + (nSize - (i + ?b))" by simp
    then have "rbind (read_raw (nSize - i) s) (\<lambda>b s. Inr (v @ b, s)) =
        rbind (rbind (read_raw ?b s) (\<lambda>x s. rbind (read_raw (nSize - (i + ?b)) s) (\<lambda>y s. Inr (x @ y, s)))) (\<lambda>b s. Inr (v @ b, s))"
      by (simp only: read_raw_add)
    also have "\<dots> = rbind (read_raw ?b s) (\<lambda>b s. read_blocks nSize (i + ?b) (v @ b) s)"
      by (simp only: 1 [OF True refl] rbind_assoc rbind_simps append_assoc)
    finally show ?thesis by (subst read_blocks.simps) (simp only: True if_True Let_def)
  qed
qed

lemma bytes_unser_raw: "bytes_unser s = rbind (ReadCompactSize True s) (\<lambda>nSize. read_raw (unat nSize))"
proof -
  have "read_blocks n 0 [] s = read_raw n s" for n s by (simp add: read_blocks_raw read_raw_def)
  then show ?thesis by (simp add: bytes_unser_def)
qed

context codec
begin

lemma read_seq_ser: "list_all valid xs \<Longrightarrow> read_seq unser (length xs) (concat (map ser xs) @ s) = Inr (xs, s)"
  by (induction xs) (simp_all add: unser_ser)

lemma vector_codec: "codec (vector_ser ser) (vector_unser unser) (vector_ok valid)"
  by unfold_locales (simp add: vector_ser_def vector_unser_def vector_ok_def size_codec.unser_ser read_seq_ser)

end

context canonical_codec
begin

lemma ser_read_seq: "read_seq unser n s = Inr (xs, t) \<Longrightarrow> length xs = n \<and> list_all valid xs \<and> s = concat (map ser xs) @ t"
  by (induction n arbitrary: s xs) (fastforce simp: rbind_Inr unser_iff)+

lemma vector_canonical: "canonical_codec (vector_ser ser) (vector_unser unser) (vector_ok valid)"
  by (intro canonical_codec.intro vector_codec canonical_codec_axioms.intro)
    (auto simp: vector_ser_def vector_unser_def vector_ok_def rbind_Inr size_codec.unser_iff dest!: ser_read_seq size_okD)

end

interpretation bytes_codec: canonical_codec bytes_ser bytes_unser "\<lambda>v. length v \<le> MAX_SIZE"
  by unfold_locales (auto simp: bytes_ser_def bytes_unser_raw size_codec.unser_ser rbind_Inr size_codec.unser_iff
      read_raw_Inr dest: size_okD)

section \<open>Properties\<close>

text \<open>
  Compact sizes and variable-length integers have exactly one encoding: reading succeeds
  exactly on the bytes that writing the value would have produced (within the size limit where it
  is checked), the length is the one that the size computation announces, and the digits of a
  64-bit integer fit into the ten bytes of the writer's buffer.
\<close>

theorem integers_canonical:
  "(ReadCompactSize rc s = Inr (n, t) \<longleftrightarrow> size_ok rc n \<and> s = WriteCompactSize n @ t) \<and>
   (ReadVarInt s = Inr (m :: u64, t) \<longleftrightarrow> s = WriteVarInt m @ t) \<and>
   length (WriteCompactSize n) = GetSizeOfCompactSize n \<and>
   length (WriteVarInt m) = GetSizeOfVarInt m \<and> length (WriteVarInt m) \<le> (8 * 8 + 6) div 7"
proof (intro conjI)
  show "length (WriteVarInt m) \<le> (8 * 8 + 6) div 7"
    using varint_tmp_bound [of m 0] by (simp add: WriteVarInt_def)
qed (simp_all add: size_codec.unser_iff varint64_codec.unser_iff length_WriteCompactSize
    WriteVarInt_def varint_tmp_length)

end
