(* ===== verification/Bitsets.thy ===== *)
theory Bitsets
  imports Serialize
begin

unbundle bit_operations_syntax

text \<open>
  The bit sets of \<^verbatim>\<open>serialize.h\<close>: the fixed format with one bit per member, the offset
  format with a variable-length integer per set bit, the dynamic format with a size in front, and
  the automatic choice between the first two.
\<close>


section \<open>Bit sets as bits\<close>

definition GetSizeOfFixedBitSet :: "nat \<Rightarrow> nat" where
  "GetSizeOfFixedBitSet sz = (sz + 7) div 8"

definition set_bit_at :: "bool list \<Rightarrow> nat \<Rightarrow> bytes \<Rightarrow> bytes" where
  "set_bit_at vec p vBytes = vBytes[p div 8 := vBytes ! (p div 8) OR push_bit (p mod 8) (of_bool (vec ! p))]"

definition WriteFixedBitSet :: "bool list \<Rightarrow> nat \<Rightarrow> bytes" where
  "WriteFixedBitSet vec sz =
     (let ms = min sz (length vec)
      in fold (set_bit_at vec) [0..<ms] (replicate ((sz + 7) div 8) 0))"

definition ReadFixedBitSet :: "nat \<Rightarrow> bool list reader" where
  "ReadFixedBitSet sz s =
     rbind (read_raw ((sz + 7) div 8) s) (\<lambda>vBytes s.
       let vec = map (\<lambda>p. vBytes ! (p div 8) AND push_bit (p mod 8) 1 \<noteq> 0) [0..<sz]
       in if length vBytes * 8 \<noteq> sz
             \<and> vBytes ! (length vBytes - 1) AND NOT (drop_bit (length vBytes * 8 - sz) 0xff) \<noteq> 0
          then Inl Ios_failure else Inr (vec, s))"

lemma length_set_bit_at [simp]: "length (set_bit_at vec p vBytes) = length vBytes"
  by (simp add: set_bit_at_def)

lemma length_fold_set_bit [simp]: "length (fold (set_bit_at vec) ps vBytes) = length vBytes"
  by (induction ps arbitrary: vBytes) simp_all

lemma length_WriteFixedBitSet [simp]: "length (WriteFixedBitSet vec sz) = GetSizeOfFixedBitSet sz"
  by (simp add: WriteFixedBitSet_def GetSizeOfFixedBitSet_def Let_def)

lemma fold_set_bit:
  assumes "m \<le> 8 * length vBytes" "j < length vBytes" "k < 8"
  shows "bit (fold (set_bit_at vec) [0..<m] vBytes ! j) k \<longleftrightarrow> bit (vBytes ! j) k \<or> 8 * j + k < m \<and> vec ! (8 * j + k)"
  using assms(1)
proof (induction m)
  case 0
  then show ?case by simp
next
  case (Suc m)
  let ?v = "fold (set_bit_at vec) [0..<m] vBytes"
  have IH: "bit (?v ! j) k \<longleftrightarrow> bit (vBytes ! j) k \<or> 8 * j + k < m \<and> vec ! (8 * j + k)" using Suc by simp
  have p: "m = 8 * j + k \<longleftrightarrow> m div 8 = j \<and> m mod 8 = k" using assms(3) by auto
  have b: "bit (push_bit (m mod 8) (of_bool (vec ! m)) :: u8) k \<longleftrightarrow> m mod 8 = k \<and> vec ! m"
    using assms(3) by (cases "vec ! m") (auto simp: bit_exp_iff)
  have "bit (fold (set_bit_at vec) [0..<Suc m] vBytes ! j) k \<longleftrightarrow>
      bit (?v ! j) k \<or> m div 8 = j \<and> bit (push_bit (m mod 8) (of_bool (vec ! m)) :: u8) k"
    using assms(2) by (cases "m div 8 = j") (simp_all add: set_bit_at_def bit_or_iff del: push_bit_of_Suc_0 push_bit_of_1)
  also have "\<dots> \<longleftrightarrow> bit (vBytes ! j) k \<or> 8 * j + k < Suc m \<and> vec ! (8 * j + k)"
    unfolding IH b using p by (auto simp: less_Suc_eq)
  finally show ?case .
qed

lemma bit_WriteFixedBitSet:
  assumes "j < GetSizeOfFixedBitSet sz" "k < 8"
  shows "bit (WriteFixedBitSet vec sz ! j) k \<longleftrightarrow> 8 * j + k < min sz (length vec) \<and> vec ! (8 * j + k)"
proof -
  have "min sz (length vec) \<le> 8 * length (replicate ((sz + 7) div 8) (0 :: u8))" by simp
  from fold_set_bit [OF this, of j k vec] assms show ?thesis
    by (simp add: WriteFixedBitSet_def GetSizeOfFixedBitSet_def Let_def)
qed

lemma and_push_bit: "w AND push_bit k 1 \<noteq> 0 \<longleftrightarrow> bit (w :: u8) k"
  using and_exp_eq_0_iff_not_bit [of w k] by simp

lemma byte_eq_iff: "a = b \<longleftrightarrow> (\<forall>k < 8. bit a k = bit b k)" for a b :: u8
  by (auto intro: bit_word_eqI)

text \<open>The bits of the last byte above the sz are the ones the reader refuses.\<close>

lemma high_bits:
  assumes "sz < 8 * n" "8 * n < sz + 8"
  shows "w AND NOT (drop_bit (n * 8 - sz) 0xff) \<noteq> 0 \<longleftrightarrow> (\<exists>k < 8. sz \<le> 8 * (n - 1) + k \<and> bit (w :: u8) k)"
proof -
  define r where "r = n * 8 - sz"
  have m: "(0xff :: u8) = mask 8" by (simp add: mask_eq_exp_minus_1)
  have "bit (NOT (drop_bit r 0xff) :: u8) k \<longleftrightarrow> 8 \<le> r + k" if "k < 8" for k
    unfolding m using that by (auto simp: bit_simps)
  moreover have "8 \<le> r + k \<longleftrightarrow> sz \<le> 8 * (n - 1) + k" for k using assms unfolding r_def by auto
  ultimately have "w AND NOT (drop_bit r 0xff) = 0 \<longleftrightarrow> (\<forall>k < 8. \<not> (sz \<le> 8 * (n - 1) + k \<and> bit w k))"
    by (subst byte_eq_iff) (auto simp: bit_and_iff)
  then show ?thesis unfolding r_def by blast
qed

lemma ReadFixedBitSet_iff:
  "ReadFixedBitSet sz s = Inr (vec, t) \<longleftrightarrow> length vec = sz \<and> s = WriteFixedBitSet vec sz @ t"
proof -
  let ?n = "GetSizeOfFixedBitSet sz"
  have sz: "sz \<le> 8 * ?n" "8 * ?n < sz + 8" by (auto simp: GetSizeOfFixedBitSet_def)
  have eq: "v = WriteFixedBitSet vec sz \<longleftrightarrow>
      vec = map (\<lambda>p. v ! (p div 8) AND push_bit (p mod 8) 1 \<noteq> 0) [0..<sz] \<and>
      \<not> (length v * 8 \<noteq> sz \<and> v ! (length v - 1) AND NOT (drop_bit (length v * 8 - sz) 0xff) \<noteq> 0)"
    (is "_ \<longleftrightarrow> ?a \<and> \<not> ?b")
    if "length v = ?n" "length vec = sz" for v
  proof -
    have "v = WriteFixedBitSet vec sz \<longleftrightarrow> (\<forall>j < ?n. \<forall>k < 8. bit (v ! j) k \<longleftrightarrow> 8 * j + k < sz \<and> vec ! (8 * j + k))"
      using that by (auto simp: list_eq_iff_nth_eq byte_eq_iff bit_WriteFixedBitSet)
    also have "\<dots> \<longleftrightarrow> (\<forall>p < sz. vec ! p = bit (v ! (p div 8)) (p mod 8)) \<and>
        (\<forall>j < ?n. \<forall>k < 8. sz \<le> 8 * j + k \<longrightarrow> \<not> bit (v ! j) k)" (is "?l \<longleftrightarrow> ?r1 \<and> ?r2")
    proof
      assume l: ?l
      have "vec ! p = bit (v ! (p div 8)) (p mod 8)" if "p < sz" for p
      proof -
        have "p div 8 < ?n" using that sz by (simp add: less_mult_imp_div_less mult.commute)
        from l [rule_format, OF this, of "p mod 8"] that show ?thesis by simp
      qed
      then show "?r1 \<and> ?r2" using l by auto
    next
      assume r: "?r1 \<and> ?r2"
      show ?l
      proof (intro allI impI)
        fix j k :: nat assume jk: "j < ?n" "k < 8"
        then have "(8 * j + k) div 8 = j" "(8 * j + k) mod 8 = k" by simp_all
        then show "bit (v ! j) k \<longleftrightarrow> 8 * j + k < sz \<and> vec ! (8 * j + k)" using r jk by (metis not_less)
      qed
    qed
    also have "?r1 \<longleftrightarrow> ?a" using that(2) by (auto simp: list_eq_iff_nth_eq and_exp_eq_0_iff_not_bit)
    also have "?r2 \<longleftrightarrow> \<not> ?b"
    proof (cases "8 * ?n = sz")
      case True
      have "\<not> sz \<le> 8 * j + k" if "j < ?n" "k < 8" for j k using that True by simp
      then show ?thesis using True \<open>length v = ?n\<close> by auto
    next
      case False
      then have lt: "sz < 8 * ?n" using sz by simp
      have last: "j = ?n - 1" if "j < ?n" "k < 8" "sz \<le> 8 * j + k" for j k using that sz by auto
      have "?r2 \<longleftrightarrow> \<not> (\<exists>k < 8. sz \<le> 8 * (?n - 1) + k \<and> bit (v ! (?n - 1)) k)"
        using last lt by (metis diff_less less_nat_zero_code mult_0_right not_gr_zero zero_less_one)
      then show ?thesis using high_bits [OF lt sz(2), of "v ! (?n - 1)"] \<open>length v = ?n\<close> lt by (simp add: mult.commute)
    qed
    finally show ?thesis .
  qed
  show ?thesis
  proof
    assume "ReadFixedBitSet sz s = Inr (vec, t)"
    then obtain v where v: "length v = ?n" "s = v @ t"
      "vec = map (\<lambda>p. v ! (p div 8) AND push_bit (p mod 8) 1 \<noteq> 0) [0..<sz]"
      "\<not> (length v * 8 \<noteq> sz \<and> v ! (length v - 1) AND NOT (drop_bit (length v * 8 - sz) 0xff) \<noteq> 0)"
      by (auto simp: ReadFixedBitSet_def GetSizeOfFixedBitSet_def rbind_Inr read_raw_Inr Let_def split: if_splits)
    then have "length vec = sz" by simp
    then show "length vec = sz \<and> s = WriteFixedBitSet vec sz @ t" using eq [of v] v by blast
  next
    assume a: "length vec = sz \<and> s = WriteFixedBitSet vec sz @ t"
    have l: "length (WriteFixedBitSet vec sz) = (sz + 7) div 8" by (simp add: GetSizeOfFixedBitSet_def)
    show "ReadFixedBitSet sz s = Inr (vec, t)"
      using a eq [of "WriteFixedBitSet vec sz"] l
      unfolding ReadFixedBitSet_def Let_def by (simp add: GetSizeOfFixedBitSet_def)
  qed
qed


section \<open>Bit sets as offsets\<close>

text \<open>
  The indices of the set bits as differences, in variable-length integers, with a stop mark.
  Indices are 32-bit signed integers in the code, offsets are unsigned; the conversions are
  written out.  A store outside of the vector is the error \<open>Out_of_bounds\<close>.
\<close>

primrec write_offsets :: "bool list \<Rightarrow> int \<Rightarrow> int \<Rightarrow> bytes" where
  "write_offsets [] i prev = []"
| "write_offsets (b # bs) i prev =
     (if b then WriteVarInt (word_of_int (i - prev) :: u32) @ write_offsets bs (i + 1) i
      else write_offsets bs (i + 1) prev)"

definition WriteFixedVarIntsBitSet :: "bool list \<Rightarrow> bytes" where
  "WriteFixedVarIntsBitSet vec =
     write_offsets (take (nat (sint (word_of_nat (length vec) :: u32))) vec) 0 (- 1) @ WriteVarInt (0 :: u32)"

function read_offsets :: "nat \<Rightarrow> bool list \<Rightarrow> int \<Rightarrow> bool list reader" where
  "read_offsets sz vec prev s =
     (case ReadVarInt s of
        Inl e \<Rightarrow> Inl e
      | Inr (offset :: u32, s') \<Rightarrow>
          if offset = 0 then Inr (vec, s')
          else let idx = sint (word_of_int prev + offset)
          in if idx \<ge> sint (word_of_nat sz :: u32) then Inl Ios_failure
          else if prev \<noteq> - 1 \<and> idx \<le> prev then Inl Ios_failure
          else if idx < 0 \<or> idx \<ge> int (length vec) then Inl Out_of_bounds
          else read_offsets sz (vec[nat idx := True]) idx s')"
  by pat_completeness auto
termination
proof (relation "measure (\<lambda>(sz, vec, prev, s). length s)", goal_cases)
  case (2 sz vec prev s p offset s' idx)
  then have "ReadVarInt s = Inr (offset, s')" by simp
  then have "s = WriteVarInt offset @ s'" by (simp only: varint32_codec.unser_iff)
  then show ?case by (simp add: WriteVarInt_def varint_tmp_digit [of offset])
qed simp

declare read_offsets.simps [simp del]

definition ReadFixedVarIntsBitSet :: "nat \<Rightarrow> bool list reader" where
  "ReadFixedVarIntsBitSet sz s = read_offsets sz (replicate sz False) (- 1) s"

definition WriteAutoBitSet :: "bool list \<Rightarrow> bytes" where
  "WriteAutoBitSet vec =
     (let size1 = GetSizeOfFixedBitSet (length vec); size2 = length (WriteFixedVarIntsBitSet vec)
      in if size1 < size2 then ser_writedata8 0 @ WriteFixedBitSet vec (length vec)
         else ser_writedata8 1 @ WriteFixedVarIntsBitSet vec)"

definition ReadAutoBitSet :: "nat \<Rightarrow> bool list reader" where
  "ReadAutoBitSet sz s =
     rbind (ser_readdata8 s) (\<lambda>isVarInts s.
       if isVarInts \<noteq> 0 \<and> isVarInts \<noteq> 1 then Inl Ios_failure
       else if isVarInts = 0 then ReadFixedBitSet sz s else ReadFixedVarIntsBitSet sz s)"

definition DynamicBitSet_ser :: "bool list \<Rightarrow> bytes" where
  "DynamicBitSet_ser vec = WriteCompactSize (of_nat (length vec)) @ WriteFixedBitSet vec (length vec)"

definition DynamicBitSet_unser :: "bool list reader" where
  "DynamicBitSet_unser s = rbind (ReadCompactSize True s) (\<lambda>sz. ReadFixedBitSet (unat sz))"

interpretation dynbitset_codec: canonical_codec DynamicBitSet_ser DynamicBitSet_unser "\<lambda>vec. length vec \<le> MAX_SIZE"
  by unfold_locales
    (auto simp: DynamicBitSet_ser_def DynamicBitSet_unser_def size_codec.unser_ser ReadFixedBitSet_iff rbind_Inr
      size_codec.unser_iff dest: size_okD)

lemma read_offsets_step:
  "read_offsets sz vec prev (WriteVarInt (offset :: u32) @ s) =
    (if offset = 0 then Inr (vec, s)
     else let idx = sint (word_of_int prev + offset)
          in if idx \<ge> sint (word_of_nat sz :: u32) then Inl Ios_failure
          else if prev \<noteq> - 1 \<and> idx \<le> prev then Inl Ios_failure
          else if idx < 0 \<or> idx \<ge> int (length vec) then Inl Out_of_bounds
          else read_offsets sz (vec[nat idx := True]) idx s)"
  by (subst read_offsets.simps) (simp add: varint32_codec.unser_ser)

lemma read_write_offsets:
  assumes "length vec < 2 ^ 31" "vec = seen @ todo" "prev < int (length seen)" "- 1 \<le> prev"
  shows "read_offsets (length vec) (seen @ replicate (length todo) False) prev
    (write_offsets todo (int (length seen)) prev @ WriteVarInt (0 :: u32) @ s) = Inr (vec, s)"
  using assms(2-)
proof (induction todo arbitrary: seen prev)
  case Nil
  then show ?case by (simp add: read_offsets_step)
next
  case (Cons b todo)
  note prems = Cons.prems
  let ?i = "int (length seen)"
  have len: "length seen < length vec" using prems(1) by simp
  show ?case
  proof (cases b)
    case False
    have "read_offsets (length vec) ((seen @ [False]) @ replicate (length todo) False) prev
        (write_offsets todo (int (length (seen @ [False]))) prev @ WriteVarInt (0 :: u32) @ s) = Inr (vec, s)"
      using prems False by (intro Cons.IH) simp_all
    then show ?thesis using False by (simp add: add.commute)
  next
    case True
    have off: "word_of_int (?i - prev) \<noteq> (0 :: u32)"
    proof
      assume "word_of_int (?i - prev) = (0 :: u32)"
      then have "uint (word_of_int (?i - prev) :: u32) = 0" by (simp only: uint_0_eq)
      then have "(?i - prev) mod 2 ^ 32 = 0" by (simp only: uint_word_of_int) simp
      then show False using prems(2,3) len assms(1) by simp
    qed
    have "sint (word_of_int prev + word_of_int (?i - prev) :: u32) = ?i"
      using len assms(1) by (simp only: wi_hom_add) (simp add: sint_size)
    moreover have "\<not> ?i \<ge> sint (word_of_nat (length vec) :: u32)"
      using assms(1) len by (simp add: sint_size)
    moreover have "(seen @ replicate (length (b # todo)) False)[nat ?i := True] = (seen @ [True]) @ replicate (length todo) False"
      by simp
    moreover have "read_offsets (length vec) ((seen @ [True]) @ replicate (length todo) False) ?i
        (write_offsets todo (int (length (seen @ [True]))) ?i @ WriteVarInt (0 :: u32) @ s) = Inr (vec, s)"
      using prems True by (intro Cons.IH) simp_all
    ultimately show ?thesis using True off prems(2)
      by (simp add: read_offsets_step add.commute)
  qed
qed

lemma ReadVarInt_error: "ReadVarInt s = Inl e \<Longrightarrow> e = Ios_failure"
proof -
  have "varint_loop s n = Inl e \<Longrightarrow> e = Ios_failure" for n
    by (induction s arbitrary: n) (auto simp: Let_def split: if_splits)
  then show "ReadVarInt s = Inl e \<Longrightarrow> e = Ios_failure" by (simp add: ReadVarInt_def)
qed

lemma length_ser_writedata8 [simp]: "length (ser_writedata8 b) = 1"
  by (simp add: ser_writedata8_def)

lemma no_out_of_bounds:
  assumes "length vec = sz" "sz < 2 ^ 31" "0 \<le> prev"
  shows "read_offsets sz vec prev s \<noteq> Inl Out_of_bounds"
  using assms
proof (induction sz vec prev s rule: read_offsets.induct)
  case (1 sz vec prev s)
  note size = sint_size [OF 1(3)]
  show ?case
  proof (cases "ReadVarInt s :: stream_error + u32 \<times> bytes")
    case (Inl e)
    then show ?thesis using ReadVarInt_error [OF Inl] by (subst read_offsets.simps) simp
  next
    case (Inr p)
    obtain offset s' where p: "p = (offset, s')" by (cases p)
    note IH = 1(1) [OF Inr p [symmetric] _ refl]
    have s: "s = WriteVarInt offset @ s'" using Inr p by (simp add: varint32_codec.unser_iff)
    show ?thesis unfolding s read_offsets_step Let_def
      using IH 1(2-) size by (auto simp: not_less not_le)
  qed
qed

lemma sint_pred:
  "(offset :: u32) \<noteq> 0 \<Longrightarrow> sint (word_of_int (- 1) + offset) < 0 \<longleftrightarrow> 2 ^ 31 < unat offset"
proof -
  assume "offset \<noteq> 0"
  define k where "k = uint offset - 1"
  have u: "int (unat offset) = uint offset" by simp
  have k: "0 \<le> k" "k < 2 ^ 32 - 1" using \<open>offset \<noteq> 0\<close> unat_bound [of offset]
    unfolding k_def u [symmetric] by (auto simp: unat_eq_zero simp flip: unat_gt_0 simp del: of_nat_unat)
  have "word_of_int (- 1) + offset = word_of_int k"
    by (simp add: k_def wi_hom_sub [symmetric])
  moreover have "sint (word_of_int k :: u32) = (if k < 2 ^ 31 then k else k - 2 ^ 32)"
  proof (cases "k < 2 ^ 31")
    case True then show ?thesis using k by (simp add: sint_u32_small)
  next
    case False
    have "(word_of_int k :: u32) = word_of_int (k - 2 ^ 32)" by (simp add: wi_hom_sub [symmetric])
    moreover have "sint (word_of_int (k - 2 ^ 32) :: u32) = k - 2 ^ 32"
      using False k by (intro sint_u32_small) simp_all
    ultimately show ?thesis using False by (simp only: if_False)
  qed
  moreover have "(2 ^ 31 < n) = (2 ^ 31 \<le> int n - 1)" for n by simp
  then have "2 ^ 31 < unat offset \<longleftrightarrow> 2 ^ 31 \<le> k" unfolding k_def u [symmetric] .
  ultimately show ?thesis using k by auto
qed

lemma ReadFixedVarIntsBitSet_out_of_bounds:
  assumes "sz < 2 ^ 31"
  shows "ReadFixedVarIntsBitSet sz s = Inl Out_of_bounds \<longleftrightarrow>
    (\<exists>offset t. ReadVarInt s = Inr (offset :: u32, t) \<and> 2 ^ 31 < unat offset)"
proof (cases "ReadVarInt s :: stream_error + u32 \<times> bytes")
  case (Inl e)
  then show ?thesis using ReadVarInt_error [OF Inl] by (simp add: ReadFixedVarIntsBitSet_def read_offsets.simps [of sz])
next
  case (Inr p)
  obtain offset s' where p: "p = (offset, s')" by (cases p)
  have s: "s = WriteVarInt offset @ s'" using Inr p by (simp add: varint32_codec.unser_iff)
  define idx where "idx = sint (word_of_int (- 1) + offset)"
  have r: "ReadFixedVarIntsBitSet sz s =
      (if offset = 0 then Inr (replicate sz False, s')
       else if idx \<ge> int sz then Inl Ios_failure
       else if idx < 0 then Inl Out_of_bounds
       else read_offsets sz ((replicate sz False)[nat idx := True]) idx s')"
    unfolding s ReadFixedVarIntsBitSet_def read_offsets_step Let_def idx_def using sint_size [OF assms] by simp
  have "read_offsets sz ((replicate sz False)[nat idx := True]) idx s' \<noteq> Inl Out_of_bounds" if "0 \<le> idx"
    using that assms by (intro no_out_of_bounds) simp_all
  moreover have "offset \<noteq> 0 \<Longrightarrow> idx < 0 \<longleftrightarrow> 2 ^ 31 < unat offset" unfolding idx_def by (rule sint_pred)
  moreover have "(\<exists>offset t. ReadVarInt s = Inr (offset :: u32, t) \<and> 2 ^ 31 < unat offset) \<longleftrightarrow> 2 ^ 31 < unat offset"
    using Inr p by simp
  ultimately show ?thesis unfolding r by (cases "offset = 0") auto
qed


section \<open>Properties\<close>

text \<open>
  A bit set written by \<^verbatim>\<open>WriteAutoBitSet\<close> is read back by \<^verbatim>\<open>ReadAutoBitSet\<close>,
  whatever follows in the stream, and takes one byte more than the shorter of the two formats.
\<close>

theorem auto_bitset_roundtrip:
  assumes "length vec < 2 ^ 31"
  shows "ReadAutoBitSet (length vec) (WriteAutoBitSet vec @ s) = Inr (vec, s) \<and>
    length (WriteAutoBitSet vec) =
      1 + min (length (WriteFixedBitSet vec (length vec))) (length (WriteFixedVarIntsBitSet vec))"
proof -
  have "ReadFixedVarIntsBitSet (length vec) (WriteFixedVarIntsBitSet vec @ s) = Inr (vec, s)"
    using read_write_offsets [OF assms, of "[]" vec "- 1" s] sint_size [OF assms]
    by (simp add: ReadFixedVarIntsBitSet_def WriteFixedVarIntsBitSet_def)
  moreover have "ReadFixedBitSet (length vec) (WriteFixedBitSet vec (length vec) @ s) = Inr (vec, s)"
    by (simp add: ReadFixedBitSet_iff)
  ultimately show ?thesis
    by (simp add: WriteAutoBitSet_def ReadAutoBitSet_def Let_def u8_codec.unser_ser length_ser_writedata8)
qed

theorem auto_bitset_roundtrip_witness:
  "ReadAutoBitSet 3 (WriteAutoBitSet [True, False, True] @ [7]) = Inr ([True, False, True], [7])"
  using auto_bitset_roundtrip [of "[True, False, True]" "[7]"] by (simp add: numeral_3_eq_3)

text \<open>
  \<^verbatim>\<open>ReadFixedVarIntsBitSet\<close> stores outside of the vector it fills exactly when the first
  offset of the stream is greater than \<open>2 ^ 31\<close>: the index is then negative, passes the test
  against the size, and the test against the previous index is skipped for the first offset.
\<close>

theorem bitset_offsets_out_of_bounds:
  assumes "sz < 2 ^ 31"
  shows "ReadFixedVarIntsBitSet sz s = Inl Out_of_bounds \<longleftrightarrow>
    (\<exists>offset t. ReadVarInt s = Inr (offset :: u32, t) \<and> 2 ^ 31 < unat offset)"
  using assms by (rule ReadFixedVarIntsBitSet_out_of_bounds)

theorem bitset_offsets_out_of_bounds_witness:
  "ReadFixedVarIntsBitSet 400 [0x86, 0xfe, 0xfe, 0xff, 0x01] = Inl Out_of_bounds"
proof -
  have "ReadVarInt [0x86, 0xfe, 0xfe, 0xff, 0x01] = Inr (0x80000001 :: u32, [])" by code_simp
  then show ?thesis by (subst bitset_offsets_out_of_bounds) simp_all
qed

end
