(* ===== verification/Transaction.thy ===== *)
theory Transaction
  imports Script_Safety Serialize "HOL-Library.List_Lexorder"
begin

unbundle bit_operations_syntax

text \<open>
  Amounts (\<^verbatim>\<open>amount.h\<close>), transactions and their serialization
  (\<^verbatim>\<open>primitives/transaction.h\<close> and \<^verbatim>\<open>.cpp\<close>).  Each class has its codec as an
  interpretation of \<open>canonical_codec\<close>.
\<close>


section \<open>Amounts\<close>

abbreviation (input) COIN :: int where "COIN \<equiv> 100000000"
abbreviation (input) MAX_MONEY :: int where "MAX_MONEY \<equiv> 21000000 * COIN"

definition MoneyRange :: "int \<Rightarrow> bool" where
  "MoneyRange nValue \<longleftrightarrow> nValue \<ge> 0 \<and> nValue \<le> MAX_MONEY"


section \<open>Outpoints, inputs, outputs, transactions\<close>

abbreviation (input) TRANSACTION_NORMAL :: u16 where "TRANSACTION_NORMAL \<equiv> 0"
abbreviation (input) TRANSACTION_PROVIDER_REGISTER :: u16 where "TRANSACTION_PROVIDER_REGISTER \<equiv> 1"
abbreviation (input) TRANSACTION_PROVIDER_UPDATE_SERVICE :: u16 where "TRANSACTION_PROVIDER_UPDATE_SERVICE \<equiv> 2"
abbreviation (input) TRANSACTION_PROVIDER_UPDATE_REGISTRAR :: u16 where "TRANSACTION_PROVIDER_UPDATE_REGISTRAR \<equiv> 3"
abbreviation (input) TRANSACTION_PROVIDER_UPDATE_REVOKE :: u16 where "TRANSACTION_PROVIDER_UPDATE_REVOKE \<equiv> 4"
abbreviation (input) TRANSACTION_COINBASE :: u16 where "TRANSACTION_COINBASE \<equiv> 5"
abbreviation (input) TRANSACTION_QUORUM_COMMITMENT :: u16 where "TRANSACTION_QUORUM_COMMITMENT \<equiv> 6"
abbreviation (input) TRANSACTION_MNHF_SIGNAL :: u16 where "TRANSACTION_MNHF_SIGNAL \<equiv> 7"

text \<open>A \<^verbatim>\<open>uint256\<close> is its 32 bytes in memory order.\<close>

type_synonym uint256 = bytes

definition uint256_null :: uint256 where "uint256_null = replicate 32 0"

definition uint256_IsNull :: "uint256 \<Rightarrow> bool" where
  "uint256_IsNull h \<longleftrightarrow> (\<forall>b \<in> set h. b = 0)"

abbreviation (input) NULL_INDEX :: u32 where "NULL_INDEX \<equiv> 0xffffffff"

datatype COutPoint = COutPoint (out_hash: uint256) (out_n: u32)

definition COutPoint_null :: COutPoint where
  "COutPoint_null = COutPoint uint256_null NULL_INDEX"

definition COutPoint_IsNull :: "COutPoint \<Rightarrow> bool" where
  "COutPoint_IsNull out \<longleftrightarrow> uint256_IsNull (out_hash out) \<and> out_n out = NULL_INDEX"

lemma COutPoint_eq_iff: "a = b \<longleftrightarrow> out_hash a = out_hash b \<and> out_n a = out_n b"
  by (cases a; cases b) simp

text \<open>The order of \<^verbatim>\<open>operator<\<close>: hashes compare byte by byte, as \<^verbatim>\<open>memcmp\<close> does.\<close>

instantiation COutPoint :: linorder
begin

definition less_COutPoint :: "COutPoint \<Rightarrow> COutPoint \<Rightarrow> bool" where
  "less_COutPoint a b \<longleftrightarrow> out_hash a < out_hash b \<or> out_hash a = out_hash b \<and> out_n a < out_n b"

definition less_eq_COutPoint :: "COutPoint \<Rightarrow> COutPoint \<Rightarrow> bool" where
  "less_eq_COutPoint a b \<longleftrightarrow> a < b \<or> a = b"

instance
  by intro_classes (auto simp: less_COutPoint_def less_eq_COutPoint_def COutPoint_eq_iff)

end

record CTxIn =
  prevout :: COutPoint
  scriptSig :: script
  nSequence :: u32

abbreviation (input) SEQUENCE_FINAL :: u32 where "SEQUENCE_FINAL \<equiv> 0xffffffff"
abbreviation (input) SEQUENCE_LOCKTIME_TYPE_FLAG :: u32 where "SEQUENCE_LOCKTIME_TYPE_FLAG \<equiv> 0x400000"
abbreviation (input) SEQUENCE_LOCKTIME_MASK :: u32 where "SEQUENCE_LOCKTIME_MASK \<equiv> 0x0000ffff"
abbreviation (input) SEQUENCE_LOCKTIME_GRANULARITY :: nat where "SEQUENCE_LOCKTIME_GRANULARITY \<equiv> 9"

text \<open>An amount is an \<^verbatim>\<open>int64_t\<close>.\<close>

record CTxOut =
  nValue :: int
  scriptPubKey :: script

definition CTxOut_null :: CTxOut where
  "CTxOut_null = \<lparr>nValue = - 1, scriptPubKey = []\<rparr>"

definition CTxOut_IsNull :: "CTxOut \<Rightarrow> bool" where
  "CTxOut_IsNull txout \<longleftrightarrow> nValue txout = - 1"

text \<open>
  \<^verbatim>\<open>CTransaction\<close> and \<^verbatim>\<open>CMutableTransaction\<close> have the same fields; the version is an
  \<^verbatim>\<open>int16_t\<close>, kept as a word and read with its sign.
\<close>

record CTransaction =
  vin :: "CTxIn list"
  vout :: "CTxOut list"
  nVersion :: u16
  nType :: u16
  nLockTime :: u32
  vExtraPayload :: bytes

definition tx_IsNull :: "CTransaction \<Rightarrow> bool" where
  "tx_IsNull tx \<longleftrightarrow> vin tx = [] \<and> vout tx = []"

definition IsCoinBase :: "CTransaction \<Rightarrow> bool" where
  "IsCoinBase tx \<longleftrightarrow> length (vin tx) = 1 \<and> COutPoint_IsNull (prevout (vin tx ! 0))"

primrec value_out_loop :: "CTxOut list \<Rightarrow> int \<Rightarrow> int outcome" where
  "value_out_loop [] nValueOut = (if MoneyRange nValueOut then Ok nValueOut else Abort)"
| "value_out_loop (tx_out # outs) nValueOut =
     (if \<not> MoneyRange (nValue tx_out) \<or> \<not> MoneyRange (nValueOut + nValue tx_out) then Throw
      else value_out_loop outs (nValueOut + nValue tx_out))"

definition GetValueOut :: "CTransaction \<Rightarrow> int outcome" where
  "GetValueOut tx = value_out_loop (vout tx) 0"


section \<open>Serialization\<close>

definition uint256_unser :: "uint256 reader" where "uint256_unser = read_raw 32"

definition COutPoint_ser :: "COutPoint \<Rightarrow> bytes" where
  "COutPoint_ser obj = out_hash obj @ ser_writedata32 (out_n obj)"

definition COutPoint_unser :: "COutPoint reader" where
  "COutPoint_unser s = rbind (uint256_unser s) (\<lambda>h s. rbind (ser_readdata32 s) (\<lambda>i s. Inr (COutPoint h i, s)))"

definition CTxIn_ser :: "CTxIn \<Rightarrow> bytes" where
  "CTxIn_ser obj = COutPoint_ser (prevout obj) @ bytes_ser (scriptSig obj) @ ser_writedata32 (nSequence obj)"

definition CTxIn_unser :: "CTxIn reader" where
  "CTxIn_unser s =
     rbind (COutPoint_unser s) (\<lambda>p s. rbind (bytes_unser s) (\<lambda>sig s. rbind (ser_readdata32 s) (\<lambda>q s.
       Inr (\<lparr>prevout = p, scriptSig = sig, nSequence = q\<rparr>, s))))"

definition CTxOut_ser :: "CTxOut \<Rightarrow> bytes" where
  "CTxOut_ser obj = ser_writedata64 (word_of_int (nValue obj)) @ bytes_ser (scriptPubKey obj)"

definition CTxOut_unser :: "CTxOut reader" where
  "CTxOut_unser s =
     rbind (ser_readdata64 s) (\<lambda>v s. rbind (bytes_unser s) (\<lambda>p s. Inr (\<lparr>nValue = sint v, scriptPubKey = p\<rparr>, s)))"

text \<open>The version is sign-extended before the type is put into the upper half.\<close>

definition n32bitVersion :: "CTransaction \<Rightarrow> u32" where
  "n32bitVersion tx = scast (nVersion tx) OR push_bit 16 (ucast (nType tx))"

definition has_payload :: "u16 \<Rightarrow> u16 \<Rightarrow> bool" where
  "has_payload ver ty \<longleftrightarrow> sint ver = 3 \<and> ty \<noteq> TRANSACTION_NORMAL"

definition CTransaction_ser :: "CTransaction \<Rightarrow> bytes" where
  "CTransaction_ser tx =
     ser_writedata32 (n32bitVersion tx) @ vector_ser CTxIn_ser (vin tx) @ vector_ser CTxOut_ser (vout tx) @
     ser_writedata32 (nLockTime tx) @
     (if has_payload (nVersion tx) (nType tx) then bytes_ser (vExtraPayload tx) else [])"

text \<open>Reading starts from a default-constructed transaction, whose payload is empty.\<close>

definition CTransaction_unser :: "CTransaction reader" where
  "CTransaction_unser s =
     rbind (ser_readdata32 s) (\<lambda>v s.
       let ver = ucast v :: u16; ty = ucast (drop_bit 16 v) :: u16
       in rbind (vector_unser CTxIn_unser s) (\<lambda>ins s. rbind (vector_unser CTxOut_unser s) (\<lambda>outs s.
          rbind (ser_readdata32 s) (\<lambda>lt s.
          rbind (if has_payload ver ty then bytes_unser s else Inr ([], s)) (\<lambda>pl s.
            Inr (\<lparr>vin = ins, vout = outs, nVersion = ver, nType = ty, nLockTime = lt, vExtraPayload = pl\<rparr>, s))))))"

definition GetTotalSize :: "CTransaction \<Rightarrow> nat" where
  "GetTotalSize tx = length (CTransaction_ser tx)"

definition ComputeHash :: "crypto \<Rightarrow> CTransaction \<Rightarrow> uint256" where
  "ComputeHash C tx = Hash256 C (CTransaction_ser tx)"

text \<open>The objects for which the format is faithful.\<close>

definition outpoint_ok :: "COutPoint \<Rightarrow> bool" where
  "outpoint_ok obj \<longleftrightarrow> length (out_hash obj) = 32"

definition txin_ok :: "CTxIn \<Rightarrow> bool" where
  "txin_ok obj \<longleftrightarrow> outpoint_ok (prevout obj) \<and> length (scriptSig obj) \<le> MAX_SIZE"

definition txout_ok :: "CTxOut \<Rightarrow> bool" where
  "txout_ok obj \<longleftrightarrow> - (2 ^ 63) \<le> nValue obj \<and> nValue obj < 2 ^ 63 \<and> length (scriptPubKey obj) \<le> MAX_SIZE"

definition tx_ok :: "CTransaction \<Rightarrow> bool" where
  "tx_ok tx \<longleftrightarrow> vector_ok txin_ok (vin tx) \<and> vector_ok txout_ok (vout tx) \<and>
     (if has_payload (nVersion tx) (nType tx) then length (vExtraPayload tx) \<le> MAX_SIZE else vExtraPayload tx = [])"

interpretation outpoint_codec: canonical_codec COutPoint_ser COutPoint_unser outpoint_ok
  by unfold_locales
    (auto simp: COutPoint_ser_def COutPoint_unser_def uint256_unser_def outpoint_ok_def rbind_Inr read_raw_Inr
      u32_codec.unser_ser u32_codec.unser_iff)

interpretation txin_codec: canonical_codec CTxIn_ser CTxIn_unser txin_ok
  by unfold_locales
    (auto simp: CTxIn_ser_def CTxIn_unser_def txin_ok_def rbind_Inr outpoint_codec.unser_ser outpoint_codec.unser_iff
      bytes_codec.unser_ser bytes_codec.unser_iff u32_codec.unser_ser u32_codec.unser_iff)

lemma sint_u64_bounds: "- (2 ^ 63) \<le> sint (w :: u64)" "sint (w :: u64) < 2 ^ 63"
  using sint_greater_eq [of w] sint_less [of w] by simp_all

interpretation txout_codec: canonical_codec CTxOut_ser CTxOut_unser txout_ok
proof unfold_locales
  fix x s t
  have v: "sint (word_of_int k :: u64) = k" if "- (2 ^ 63) \<le> k" "k < 2 ^ 63" for k
    unfolding sint_sbintrunc' by (rule signed_take_bit_int_eq_self) (use that in simp_all)
  show "txout_ok x \<Longrightarrow> CTxOut_unser (CTxOut_ser x @ s) = Inr (x, s)"
    by (simp add: CTxOut_ser_def CTxOut_unser_def txout_ok_def u64_codec.unser_ser bytes_codec.unser_ser v)
  show "CTxOut_unser s = Inr (x, t) \<Longrightarrow> txout_ok x \<and> s = CTxOut_ser x @ t"
    using sint_u64_bounds
    by (auto simp: CTxOut_ser_def CTxOut_unser_def txout_ok_def rbind_Inr u64_codec.unser_iff bytes_codec.unser_iff)
qed

interpretation txins_codec: canonical_codec "vector_ser CTxIn_ser" "vector_unser CTxIn_unser" "vector_ok txin_ok"
  by (rule txin_codec.vector_canonical)

interpretation txouts_codec: canonical_codec "vector_ser CTxOut_ser" "vector_unser CTxOut_unser" "vector_ok txout_ok"
  by (rule txout_codec.vector_canonical)

lemmas tx_field_codecs = u32_codec.unser_ser u32_codec.unser_iff txins_codec.unser_ser txins_codec.unser_iff
  txouts_codec.unser_ser txouts_codec.unser_iff bytes_codec.unser_ser bytes_codec.unser_iff

text \<open>
  The two halves of the version field: the lower one is always the version, the upper one is the
  type unless the version is negative.
\<close>

lemma version_low: "ucast (n32bitVersion tx) = nVersion tx"
  by (rule bit_word_eqI) (auto simp: n32bitVersion_def bit_simps)

lemma version_high:
  "ucast (drop_bit 16 (n32bitVersion tx)) = (if 0 \<le> sint (nVersion tx) then nType tx else 0xffff)"
proof -
  have "bit (ucast (drop_bit 16 (n32bitVersion tx)) :: u16) i \<longleftrightarrow> bit (nVersion tx) 15 \<or> bit (nType tx) i" if "i < 16" for i
    using that by (auto simp: n32bitVersion_def bit_simps)
  moreover have "bit (nVersion tx) 15 \<longleftrightarrow> sint (nVersion tx) < 0"
    using bit_last_iff [of "nVersion tx"] by simp
  moreover have "bit (0xffff :: u16) i" if "i < 16" for i
    using that bit_mask_iff [where 'a = u16, of 16 i] by (simp add: mask_eq_exp_minus_1)
  ultimately show ?thesis by (intro bit_word_eqI) auto
qed

lemma n32bitVersion_join:
  assumes "0 \<le> sint ver"
  shows "n32bitVersion \<lparr>vin = ins, vout = outs, nVersion = ver, nType = ty, nLockTime = lt, vExtraPayload = pl\<rparr> =
    ucast ver OR push_bit 16 (ucast ty)"
proof -
  have "\<not> bit ver 15" using assms bit_last_iff [of ver] by simp
  then have "bit (scast ver :: u32) i = bit (ucast ver :: u32) i" if "i < LENGTH(32)" for i
    using that by (cases "i < 15"; cases "i = 15") (auto simp: bit_simps min_def dest: bit_imp_le_length)
  then have "(scast ver :: u32) = ucast ver" by (rule bit_word_eqI)
  then show ?thesis by (simp add: n32bitVersion_def)
qed

lemma CTransaction_unser_ser:
  assumes "tx_ok tx" "0 \<le> sint (nVersion tx) \<or> nType tx = 0xffff"
  shows "CTransaction_unser (CTransaction_ser tx @ s) = Inr (tx, s)"
proof -
  have "ucast (drop_bit 16 (n32bitVersion tx)) = nType tx" using assms(2) by (auto simp: version_high)
  then show ?thesis using assms(1)
    by (cases tx) (auto simp: CTransaction_ser_def CTransaction_unser_def Let_def version_low tx_field_codecs tx_ok_def)
qed

lemma CTransaction_ser_unser:
  assumes "CTransaction_unser s = Inr (tx, t)"
  shows "tx_ok tx" "0 \<le> sint (nVersion tx) \<Longrightarrow> s = CTransaction_ser tx @ t"
proof -
  obtain v where v: "nVersion tx = ucast v" "nType tx = ucast (drop_bit 16 v)" "tx_ok tx"
    "s = ser_writedata32 v @ vector_ser CTxIn_ser (vin tx) @ vector_ser CTxOut_ser (vout tx) @
       ser_writedata32 (nLockTime tx) @
       (if has_payload (nVersion tx) (nType tx) then bytes_ser (vExtraPayload tx) else []) @ t"
    using assms
    by (auto simp: CTransaction_unser_def Let_def rbind_Inr tx_field_codecs tx_ok_def split: if_splits)
  show "tx_ok tx" by (rule v(3))
  assume "0 \<le> sint (nVersion tx)"
  then have "n32bitVersion tx = ucast (nVersion tx) OR push_bit 16 (ucast (nType tx))"
    by (cases tx) (simp add: n32bitVersion_join)
  also have "\<dots> = v"
  proof (rule bit_word_eqI)
    fix i :: nat assume "i < LENGTH(32)"
    then show "bit (ucast (nVersion tx) OR push_bit 16 (ucast (nType tx)) :: u32) i = bit v i"
      unfolding v(1,2) by (cases "i < 16") (auto simp: bit_simps)
  qed
  finally show "s = CTransaction_ser tx @ t" using v(4) by (simp add: CTransaction_ser_def)
qed

interpretation tx_codec: canonical_codec CTransaction_ser
    "\<lambda>s. rbind (CTransaction_unser s) (\<lambda>tx s. if 0 \<le> sint (nVersion tx) then Inr (tx, s) else Inl Ios_failure)"
    "\<lambda>tx. tx_ok tx \<and> 0 \<le> sint (nVersion tx)"
  by unfold_locales (auto simp: CTransaction_unser_ser rbind_Inr dest: CTransaction_ser_unser split: if_splits)

lemma value_out_loop:
  assumes "MoneyRange acc"
  shows "value_out_loop outs acc =
    (if (\<forall>out \<in> set outs. MoneyRange (nValue out)) \<and> acc + sum_list (map nValue outs) \<le> MAX_MONEY
     then Ok (acc + sum_list (map nValue outs)) else Throw)"
  using assms
proof (induction outs arbitrary: acc)
  case Nil
  then show ?case by (simp add: MoneyRange_def)
next
  case (Cons out outs)
  have nonneg: "0 \<le> sum_list (map nValue outs)" if "\<forall>out \<in> set outs. MoneyRange (nValue out)"
    using that by (intro sum_list_nonneg) (auto simp: MoneyRange_def)
  show ?case
  proof (cases "MoneyRange (nValue out) \<and> MoneyRange (acc + nValue out)")
    case True
    then show ?thesis using Cons.IH [of "acc + nValue out"] by (auto simp: add.assoc)
  next
    case False
    then show ?thesis using nonneg Cons.prems by (auto simp: MoneyRange_def)
  qed
qed

text \<open>
  \<^verbatim>\<open>GetValueOut\<close> is the sum of the outputs, or throws when an amount or the sum is out of
  range; its assertion never fails.
\<close>

lemma GetValueOut_sum:
  "GetValueOut tx =
    (if (\<forall>out \<in> set (vout tx). MoneyRange (nValue out)) \<and> sum_list (map nValue (vout tx)) \<le> MAX_MONEY
     then Ok (sum_list (map nValue (vout tx))) else Throw)"
  using value_out_loop [of 0 "vout tx"] by (simp add: GetValueOut_def MoneyRange_def)

lemma negative_version_ser:
  assumes "sint (nVersion tx) < 0"
  shows "CTransaction_ser (tx\<lparr>nType := ty\<rparr>) = CTransaction_ser tx"
proof -
  have b: "bit (nVersion tx) 15" using assms bit_last_iff [of "nVersion tx"] by simp
  have "n32bitVersion (tx\<lparr>nType := ty\<rparr>) = scast (nVersion tx)" for ty
  proof (rule bit_word_eqI)
    fix i :: nat assume "i < LENGTH(32)"
    then show "bit (n32bitVersion (tx\<lparr>nType := ty\<rparr>)) i = bit (scast (nVersion tx) :: u32) i"
      using b by (auto simp: n32bitVersion_def bit_simps min_def)
  qed
  from this [of ty] this [of "nType tx"] show ?thesis using assms by (simp add: CTransaction_ser_def has_payload_def)
qed


section \<open>Properties\<close>

text \<open>
  C32. Transactions round-trip: a transaction with a non-negative version is read back from its
  serialization whatever follows it, and the bytes from which such a transaction was read are its
  serialization, so that its identifier is the hash of the bytes received.
\<close>

theorem transaction_roundtrip:
  assumes "0 \<le> sint (nVersion tx)"
  shows "(tx_ok tx \<longrightarrow> CTransaction_unser (CTransaction_ser tx @ s) = Inr (tx, s)) \<and>
    (CTransaction_unser r = Inr (tx, s) \<longrightarrow> r = CTransaction_ser tx @ s)"
  using assms CTransaction_unser_ser CTransaction_ser_unser(2) by blast

definition example_tx :: CTransaction where
  "example_tx = \<lparr>vin = [\<lparr>prevout = COutPoint (replicate 32 7) 1, scriptSig = [0x51], nSequence = 0xfffffffe\<rparr>],
     vout = [\<lparr>nValue = 5000, scriptPubKey = [0x51]\<rparr>, \<lparr>nValue = 1000, scriptPubKey = []\<rparr>],
     nVersion = 3, nType = 1, nLockTime = 100, vExtraPayload = [1, 2, 3]\<rparr>"

lemma example_tx_ok: "tx_ok example_tx" "0 \<le> sint (nVersion example_tx)"
  by (simp_all add: example_tx_def tx_ok_def vector_ok_def txin_ok_def txout_ok_def outpoint_ok_def has_payload_def)

theorem transaction_roundtrip_witness:
  "CTransaction_unser (CTransaction_ser example_tx @ [9]) = Inr (example_tx, [9])"
  using transaction_roundtrip [OF example_tx_ok(2)] example_tx_ok(1) by blast

text \<open>
  A transaction with a negative version loses its type: the sign extension of the version
  covers the type field, so transactions that differ only in their type have the same
  serialization and the same identifier, and reading one back yields the type \<open>0xffff\<close>.
\<close>

theorem negative_version_loses_type:
  assumes "sint (nVersion tx) < 0" "tx_ok tx"
  shows "ComputeHash C (tx\<lparr>nType := ty\<rparr>) = ComputeHash C tx \<and>
    CTransaction_unser (CTransaction_ser tx @ s) = Inr (tx\<lparr>nType := 0xffff\<rparr>, s)"
proof -
  have "tx_ok (tx\<lparr>nType := 0xffff\<rparr>)" using assms by (simp add: tx_ok_def has_payload_def)
  from CTransaction_unser_ser [OF this, of s] show ?thesis
    by (simp add: negative_version_ser [OF assms(1)] ComputeHash_def)
qed

theorem negative_version_loses_type_witness:
  "ComputeHash const_crypto (example_tx\<lparr>nVersion := 0xffff, vExtraPayload := [], nType := 5\<rparr>) =
     ComputeHash const_crypto (example_tx\<lparr>nVersion := 0xffff, vExtraPayload := []\<rparr>)"
  using negative_version_loses_type [of "example_tx\<lparr>nVersion := 0xffff, vExtraPayload := []\<rparr>" const_crypto 5]
    example_tx_ok by (simp add: tx_ok_def has_payload_def example_tx_def)

end
