(* ===== verification/Sighash.thy ===== *)
theory Sighash
  imports Script_Verify Transaction
begin

unbundle bit_operations_syntax

text \<open>
  What a signature signs (\<^verbatim>\<open>CTransactionSignatureSerializer\<close>, \<^verbatim>\<open>SignatureHash\<close>) and the
  signature checker of a transaction input (\<^verbatim>\<open>GenericTransactionSignatureChecker\<close>), from
  \<^verbatim>\<open>script/interpreter.cpp\<close> and \<^verbatim>\<open>pubkey.h\<close>.
\<close>


section \<open>Public keys\<close>

text \<open>A \<^verbatim>\<open>CPubKey\<close> is the bytes it stores; an invalid one starts with \<open>0xFF\<close>.\<close>

definition GetLen :: "u8 \<Rightarrow> nat" where
  "GetLen chHeader =
     (if chHeader = 2 \<or> chHeader = 3 then COMPRESSED_SIZE
      else if chHeader = 4 \<or> chHeader = 6 \<or> chHeader = 7 then PUBKEY_SIZE else 0)"

definition CPubKey_Set :: "bytes \<Rightarrow> bytes" where
  "CPubKey_Set p =
     (let len = (if p = [] then 0 else GetLen (hd p))
      in if len \<noteq> 0 \<and> len = length p then p else [0xFF])"

definition CPubKey_IsValid :: "bytes \<Rightarrow> bool" where
  "CPubKey_IsValid vch \<longleftrightarrow> GetLen (hd vch) > 0"


section \<open>What a signature signs\<close>

text \<open>The hash type is an \<^verbatim>\<open>int\<close>; the three flags of the serializer are read off it.\<close>

definition fAnyoneCanPay :: "u32 \<Rightarrow> bool" where
  "fAnyoneCanPay nHashType \<longleftrightarrow> nHashType AND ucast SIGHASH_ANYONECANPAY \<noteq> 0"

definition fHashSingle :: "u32 \<Rightarrow> bool" where
  "fHashSingle nHashType \<longleftrightarrow> nHashType AND 0x1f = ucast SIGHASH_SINGLE"

definition fHashNone :: "u32 \<Rightarrow> bool" where
  "fHashNone nHashType \<longleftrightarrow> nHashType AND 0x1f = ucast SIGHASH_NONE"

text \<open>
  \<^verbatim>\<open>SerializeScriptCode\<close>: the loop that counts the code separators and the loop that writes
  the pieces between them; \<open>it\<close> and \<open>itBegin\<close> are the iterators.
\<close>

lemma GetScriptOp_Some_advances: "GetScriptOp pc = (rest, Some op) \<Longrightarrow> length rest < length pc"
  by (cases "pc = []") (auto dest: GetScriptOp_advances)

function count_separators :: "bytes \<Rightarrow> nat" where
  "count_separators it =
     (case GetScriptOp it of
        (_, None) \<Rightarrow> 0
      | (it', Some (opcode, _)) \<Rightarrow> (if opcode = OP_CODESEPARATOR then 1 else 0) + count_separators it')"
  by pat_completeness auto
termination
  by (relation "measure length") (auto dest: GetScriptOp_Some_advances [OF sym])

function write_pieces :: "bytes \<Rightarrow> bytes \<Rightarrow> bytes" where
  "write_pieces it itBegin =
     (case GetScriptOp it of
        (it', None) \<Rightarrow> if itBegin \<noteq> [] then take (length itBegin - length it') itBegin else []
      | (it', Some (opcode, _)) \<Rightarrow>
          if opcode = OP_CODESEPARATOR
          then take (length itBegin - length it' - 1) itBegin @ write_pieces it' it'
          else write_pieces it' itBegin)"
  by pat_completeness auto
termination
  by (relation "measure (length \<circ> fst)") (auto dest: GetScriptOp_Some_advances [OF sym])

declare count_separators.simps [simp del] write_pieces.simps [simp del]

definition SerializeScriptCode :: "script \<Rightarrow> bytes" where
  "SerializeScriptCode scriptCode =
     WriteCompactSize (of_nat (length scriptCode - count_separators scriptCode)) @ write_pieces scriptCode scriptCode"

definition SerializeInput :: "CTransaction \<Rightarrow> script \<Rightarrow> nat \<Rightarrow> u32 \<Rightarrow> nat \<Rightarrow> bytes" where
  "SerializeInput txTo scriptCode nIn nHashType nInput =
     (let nInput = (if fAnyoneCanPay nHashType then nIn else nInput)
      in COutPoint_ser (prevout (vin txTo ! nInput)) @
         (if nInput \<noteq> nIn then bytes_ser [] else SerializeScriptCode scriptCode) @
         (if nInput \<noteq> nIn \<and> (fHashSingle nHashType \<or> fHashNone nHashType) then ser_writedata32 0
          else ser_writedata32 (nSequence (vin txTo ! nInput))))"

definition SerializeOutput :: "CTransaction \<Rightarrow> nat \<Rightarrow> u32 \<Rightarrow> nat \<Rightarrow> bytes" where
  "SerializeOutput txTo nIn nHashType nOutput =
     (if fHashSingle nHashType \<and> nOutput \<noteq> nIn then CTxOut_ser CTxOut_null else CTxOut_ser (vout txTo ! nOutput))"

definition SignatureSerialize :: "CTransaction \<Rightarrow> script \<Rightarrow> nat \<Rightarrow> u32 \<Rightarrow> bytes" where
  "SignatureSerialize txTo scriptCode nIn nHashType =
     (let nInputs = (if fAnyoneCanPay nHashType then 1 else length (vin txTo));
          nOutputs = (if fHashNone nHashType then 0 else if fHashSingle nHashType then nIn + 1 else length (vout txTo))
      in ser_writedata32 (n32bitVersion txTo) @
         WriteCompactSize (of_nat nInputs) @ concat (map (SerializeInput txTo scriptCode nIn nHashType) [0..<nInputs]) @
         WriteCompactSize (of_nat nOutputs) @ concat (map (SerializeOutput txTo nIn nHashType) [0..<nOutputs]) @
         ser_writedata32 (nLockTime txTo) @
         (if has_payload (nVersion txTo) (nType txTo) then bytes_ser (vExtraPayload txTo) else []))"

definition uint256_ONE :: uint256 where "uint256_ONE = 1 # replicate 31 0"

text \<open>\<open>None\<close> is the assertion on the input index failing.\<close>

definition SignatureHash :: "crypto \<Rightarrow> script \<Rightarrow> CTransaction \<Rightarrow> nat \<Rightarrow> u32 \<Rightarrow> uint256 option" where
  "SignatureHash C scriptCode txTo nIn nHashType =
     (if nIn < length (vin txTo)
      then if fHashSingle nHashType \<and> nIn \<ge> length (vout txTo) then Some uint256_ONE
           else Some (Hash256 C (SignatureSerialize txTo scriptCode nIn nHashType @ ser_writedata32 nHashType))
      else None)"


section \<open>The checker of a transaction input\<close>

definition tx_CheckSig :: "crypto \<Rightarrow> CTransaction \<Rightarrow> nat \<Rightarrow> bytes \<Rightarrow> bytes \<Rightarrow> script \<Rightarrow> bool option" where
  "tx_CheckSig C txTo nIn vchSigIn vchPubKey scriptCode =
     (let pubkey = CPubKey_Set vchPubKey
      in if \<not> CPubKey_IsValid pubkey then Some False
         else if vchSigIn = [] then Some False
         else let nHashType = ucast (last vchSigIn) :: u32; vchSig = butlast vchSigIn
         in case SignatureHash C scriptCode txTo nIn nHashType of
              None \<Rightarrow> None
            | Some sighash \<Rightarrow> if \<not> PubKeyVerify C pubkey sighash vchSig then Some False else Some True)"

definition tx_CheckLockTime :: "CTransaction \<Rightarrow> nat \<Rightarrow> int \<Rightarrow> bool" where
  "tx_CheckLockTime txTo nIn nLockTimeArg =
     (if \<not> (int (unat (nLockTime txTo)) < int LOCKTIME_THRESHOLD \<and> nLockTimeArg < int LOCKTIME_THRESHOLD \<or>
            int (unat (nLockTime txTo)) \<ge> int LOCKTIME_THRESHOLD \<and> nLockTimeArg \<ge> int LOCKTIME_THRESHOLD)
      then False
      else if nLockTimeArg > int (unat (nLockTime txTo)) then False
      else if SEQUENCE_FINAL = nSequence (vin txTo ! nIn) then False
      else True)"

definition tx_CheckSequence :: "CTransaction \<Rightarrow> nat \<Rightarrow> int \<Rightarrow> bool" where
  "tx_CheckSequence txTo nIn nSequenceArg =
     (let txToSequence = int (unat (nSequence (vin txTo ! nIn)))
      in if (scast (nVersion txTo) :: u32) < 2 then False
         else if txToSequence AND SEQUENCE_LOCKTIME_DISABLE_FLAG \<noteq> 0 then False
         else let nLockTimeMask = int (unat (SEQUENCE_LOCKTIME_TYPE_FLAG OR SEQUENCE_LOCKTIME_MASK));
                  txToSequenceMasked = txToSequence AND nLockTimeMask;
                  nSequenceMasked = nSequenceArg AND nLockTimeMask;
                  typeFlag = int (unat SEQUENCE_LOCKTIME_TYPE_FLAG)
         in if \<not> (txToSequenceMasked < typeFlag \<and> nSequenceMasked < typeFlag \<or>
                  txToSequenceMasked \<ge> typeFlag \<and> nSequenceMasked \<ge> typeFlag)
            then False
            else if nSequenceMasked > txToSequenceMasked then False
            else True)"

definition TransactionSignatureChecker :: "crypto \<Rightarrow> CTransaction \<Rightarrow> nat \<Rightarrow> checker" where
  "TransactionSignatureChecker C txTo nIn =
     \<lparr>CheckSig = tx_CheckSig C txTo nIn, CheckLockTime = tx_CheckLockTime txTo nIn,
      CheckSequence = tx_CheckSequence txTo nIn\<rparr>"


section \<open>The signed view of a transaction\<close>

text \<open>
  Specification: a signature signs the ordinary serialization of a modified transaction.  The
  script code takes the place of the script of the signed input, without its code separators; the
  other scripts are blanked; the hash type decides which inputs, sequence numbers and outputs stay.
\<close>

function strip_separators :: "script \<Rightarrow> script" where
  "strip_separators it =
     (case GetScriptOp it of
        (_, None) \<Rightarrow> []
      | (it', Some (opcode, _)) \<Rightarrow>
          (if opcode = OP_CODESEPARATOR then [] else take (length it - length it') it) @ strip_separators it')"
  by pat_completeness auto
termination
  by (relation "measure length") (auto dest: GetScriptOp_Some_advances [OF sym])

declare strip_separators.simps [simp del]

definition signed_input :: "CTransaction \<Rightarrow> script \<Rightarrow> nat \<Rightarrow> u32 \<Rightarrow> nat \<Rightarrow> CTxIn" where
  "signed_input tx scriptCode nIn nHashType i =
     (if fAnyoneCanPay nHashType \<or> i = nIn then (vin tx ! nIn)\<lparr>scriptSig := strip_separators scriptCode\<rparr>
      else (vin tx ! i)\<lparr>scriptSig := [],
        nSequence := if fHashSingle nHashType \<or> fHashNone nHashType then 0 else nSequence (vin tx ! i)\<rparr>)"

definition signed_outputs :: "CTransaction \<Rightarrow> nat \<Rightarrow> u32 \<Rightarrow> CTxOut list" where
  "signed_outputs tx nIn nHashType =
     (if fHashNone nHashType then []
      else if fHashSingle nHashType then replicate nIn CTxOut_null @ [vout tx ! nIn] else vout tx)"

definition signed_tx :: "CTransaction \<Rightarrow> script \<Rightarrow> nat \<Rightarrow> u32 \<Rightarrow> CTransaction" where
  "signed_tx tx scriptCode nIn nHashType =
     tx\<lparr>vin := map (signed_input tx scriptCode nIn nHashType) [0..<if fAnyoneCanPay nHashType then 1 else length (vin tx)],
        vout := signed_outputs tx nIn nHashType\<rparr>"

lemma GetScriptOp_split:
  assumes "GetScriptOp it = (it', Some (opcode, data))"
  shows "\<exists>x. it = x @ it' \<and> x \<noteq> [] \<and> (opcode = OP_CODESEPARATOR \<longrightarrow> length x = 1)"
proof -
  obtain c cs where it: "it = c # cs" using assms by (cases it) auto
  define x where "x = take (length it - length it') it"
  have "it = x @ it'" unfolding x_def by (rule GetScriptOp_suffix [OF assms, symmetric])
  moreover have "x \<noteq> []" using GetScriptOp_Some_advances [OF assms] it by (simp add: x_def)
  moreover have "length x = 1" if "opcode = OP_CODESEPARATOR"
  proof -
    have "length it' + 1 = length it"
      using assms that it by (auto simp: GetScriptOp_def read_operand_def Let_def split: if_splits)
    then show ?thesis by (simp add: x_def)
  qed
  ultimately show ?thesis by blast
qed

lemma script_ops_decodes:
  assumes "snd (script_ops it)" "it \<noteq> []"
  obtains it' opcode data where "GetScriptOp it = (it', Some (opcode, data))" "snd (script_ops it')"
proof -
  obtain c cs where it: "it = c # cs" using assms(2) by (cases it) auto
  obtain it' r where g: "GetScriptOp it = (it', r)" by (cases "GetScriptOp it")
  show thesis
  proof (cases r)
    case None
    then show thesis using assms(1) g it by simp
  next
    case (Some op)
    obtain opcode data where "op = (opcode, data)" by (cases op)
    moreover have "snd (script_ops it')" using assms(1) g it Some by (simp add: case_prod_beta)
    ultimately show thesis using that g Some by blast
  qed
qed

lemma separator_steps:
  assumes "GetScriptOp it = (it', Some (opcode, data))"
  shows "strip_separators it =
      (if opcode = OP_CODESEPARATOR then [] else take (length it - length it') it) @ strip_separators it'"
    "count_separators it = (if opcode = OP_CODESEPARATOR then 1 else 0) + count_separators it'"
    "write_pieces it b = (if opcode = OP_CODESEPARATOR
      then take (length b - length it' - 1) b @ write_pieces it' it' else write_pieces it' b)"
  by (subst strip_separators.simps, simp only: assms prod.case option.case)
    (subst count_separators.simps, simp only: assms prod.case option.case,
     subst write_pieces.simps, simp only: assms prod.case option.case)

lemma separator_ends: "strip_separators [] = []" "count_separators [] = 0" "write_pieces [] b = b"
  by (subst strip_separators.simps, simp) (subst count_separators.simps, simp, subst write_pieces.simps, simp)

lemma write_pieces_strip:
  assumes "snd (script_ops it)"
  shows "write_pieces it (pre @ it) = pre @ strip_separators it"
  using assms
proof (induction it arbitrary: pre rule: measure_induct_rule [of length])
  case (less it)
  show ?case
  proof (cases "it = []")
    case True
    then show ?thesis by (simp add: separator_ends)
  next
    case False
    obtain it' opcode data where op: "GetScriptOp it = (it', Some (opcode, data))" and ok: "snd (script_ops it')"
      using script_ops_decodes [OF less.prems False] .
    obtain x where x: "it = x @ it'" "x \<noteq> []" "opcode = OP_CODESEPARATOR \<longrightarrow> length x = 1"
      using GetScriptOp_split [OF op] by blast
    have shorter: "length it' < length it" using x by simp
    show ?thesis
    proof (cases "opcode = OP_CODESEPARATOR")
      case True
      have "write_pieces it (pre @ it) = take (length (pre @ it) - length it' - 1) (pre @ it) @ write_pieces it' ([] @ it')"
        unfolding separator_steps(3) [OF op] using True by simp
      also have "write_pieces it' ([] @ it') = strip_separators it'" using less.IH [OF shorter ok, of "[]"] by simp
      also have "length (pre @ it) - length it' - 1 = length pre" using x True by simp
      finally show ?thesis unfolding separator_steps(1) [OF op] by (simp add: True)
    next
      case False
      have "write_pieces it (pre @ it) = write_pieces it' (pre @ it)"
        unfolding separator_steps(3) [OF op] by (simp only: False if_False)
      also have "\<dots> = write_pieces it' ((pre @ x) @ it')" using x(1) by simp
      also have "\<dots> = (pre @ x) @ strip_separators it'" by (rule less.IH [OF shorter ok])
      finally have "write_pieces it (pre @ it) = (pre @ x) @ strip_separators it'" .
      moreover have "take (length it - length it') it = x" using x(1) by simp
      ultimately show ?thesis unfolding separator_steps(1) [OF op] by (simp add: False)
    qed
  qed
qed

lemma length_strip:
  assumes "snd (script_ops it)"
  shows "length (strip_separators it) + count_separators it = length it"
  using assms
proof (induction it rule: measure_induct_rule [of length])
  case (less it)
  show ?case
  proof (cases "it = []")
    case True
    then show ?thesis by (simp add: separator_ends)
  next
    case False
    obtain it' opcode data where op: "GetScriptOp it = (it', Some (opcode, data))" and ok: "snd (script_ops it')"
      using script_ops_decodes [OF less.prems False] .
    obtain x where x: "it = x @ it'" "x \<noteq> []" "opcode = OP_CODESEPARATOR \<longrightarrow> length x = 1"
      using GetScriptOp_split [OF op] by blast
    have "length it' < length it" using x by simp
    from less.IH [OF this ok] show ?thesis unfolding separator_steps(1,2) [OF op] using x by auto
  qed
qed

lemma SerializeScriptCode_strip:
  assumes "snd (script_ops scriptCode)"
  shows "SerializeScriptCode scriptCode = bytes_ser (strip_separators scriptCode)"
proof -
  have "length scriptCode - count_separators scriptCode = length (strip_separators scriptCode)"
    using length_strip [OF assms] by simp
  then show ?thesis using write_pieces_strip [OF assms, of "[]"] by (simp add: SerializeScriptCode_def bytes_ser_def)
qed

lemma SerializeInput_view:
  assumes "snd (script_ops scriptCode)"
  shows "SerializeInput tx scriptCode nIn nHashType i = CTxIn_ser (signed_input tx scriptCode nIn nHashType i)"
  using SerializeScriptCode_strip [OF assms]
  by (simp add: SerializeInput_def signed_input_def CTxIn_ser_def)

lemma SerializeOutput_view:
  assumes "fHashSingle nHashType \<longrightarrow> nIn < length (vout tx)"
  defines "n \<equiv> if fHashNone nHashType then 0 else if fHashSingle nHashType then nIn + 1 else length (vout tx)"
  shows "length (signed_outputs tx nIn nHashType) = n"
    "map (SerializeOutput tx nIn nHashType) [0..<n] = map CTxOut_ser (signed_outputs tx nIn nHashType)"
proof -
  show "length (signed_outputs tx nIn nHashType) = n" by (simp add: n_def signed_outputs_def)
  then show "map (SerializeOutput tx nIn nHashType) [0..<n] = map CTxOut_ser (signed_outputs tx nIn nHashType)"
    by (intro nth_equalityI)
      (auto simp: n_def signed_outputs_def SerializeOutput_def nth_append split: if_splits)
qed

lemma SignatureSerialize_view:
  assumes "snd (script_ops scriptCode)" "fHashSingle nHashType \<longrightarrow> nIn < length (vout tx)"
  shows "SignatureSerialize tx scriptCode nIn nHashType = CTransaction_ser (signed_tx tx scriptCode nIn nHashType)"
proof -
  have "map (SerializeInput tx scriptCode nIn nHashType) xs = map CTxIn_ser (map (signed_input tx scriptCode nIn nHashType) xs)" for xs
    by (simp add: SerializeInput_view [OF assms(1)])
  then show ?thesis
    using SerializeOutput_view [OF assms(2)]
    by (simp add: SignatureSerialize_def CTransaction_ser_def signed_tx_def vector_ser_def n32bitVersion_def Let_def del: map_map)
qed

lemma signed_tx_version [simp]: "nVersion (signed_tx tx sc n h) = nVersion tx"
  by (simp add: signed_tx_def)

lemma signed_input_ok:
  assumes "txin_ok (vin tx ! nIn)" "txin_ok (vin tx ! i)" "length (strip_separators sc) \<le> MAX_SIZE"
  shows "txin_ok (signed_input tx sc nIn h i)"
  using assms by (auto simp: signed_input_def txin_ok_def)

lemma signed_tx_ok:
  assumes "tx_ok tx" "nIn < length (vin tx)" "length (vin tx) \<le> MAX_SIZE" "fHashSingle h \<longrightarrow> nIn < length (vout tx)"
    "snd (script_ops sc)" "length sc \<le> MAX_SIZE"
  shows "tx_ok (signed_tx tx sc nIn h)"
proof -
  have s: "length (strip_separators sc) \<le> MAX_SIZE" using length_strip [OF assms(5)] assms(6) by simp
  have i: "txin_ok (vin tx ! i)" if "i < length (vin tx)" for i
    using assms(1) that by (simp add: tx_ok_def vector_ok_def list_all_length)
  have "list_all txin_ok (map (signed_input tx sc nIn h) [0..<if fAnyoneCanPay h then 1 else length (vin tx)])"
    using i assms(2) s
    by (auto simp: list_all_length signed_input_def txin_ok_def split: if_splits)
  moreover have "list_all txout_ok (signed_outputs tx nIn h)"
    using assms(1,4) by (auto simp: tx_ok_def vector_ok_def list_all_length signed_outputs_def CTxOut_null_def txout_ok_def nth_append)
  moreover have "length (signed_outputs tx nIn h) \<le> MAX_SIZE"
    using assms by (auto simp: tx_ok_def vector_ok_def signed_outputs_def)
  ultimately show ?thesis using assms(1,3) by (auto simp: tx_ok_def vector_ok_def signed_tx_def)
qed

lemma never_aborts_tx: "nIn < length (vin tx) \<Longrightarrow> never_aborts (TransactionSignatureChecker C tx nIn)"
  by (auto simp: never_aborts_def TransactionSignatureChecker_def tx_CheckSig_def SignatureHash_def Let_def)


section \<open>Properties\<close>

text \<open>
  C29. What is hashed for a signature of an existing input, with \<^verbatim>\<open>SIGHASH_SINGLE\<close> one that has an output at its index, and for
  a script code that decodes, is the ordinary serialization of the signed view of the
  transaction, followed by the hash type: the serializer that skips, blanks and replaces fields
  in place refines the specification that copies the transaction and edits the copy.
\<close>

theorem SignatureHash_refines_view:
  assumes "nIn < length (vin tx)" "fHashSingle nHashType \<longrightarrow> nIn < length (vout tx)" "snd (script_ops scriptCode)"
  shows "SignatureHash C scriptCode tx nIn nHashType =
    Some (Hash256 C (CTransaction_ser (signed_tx tx scriptCode nIn nHashType) @ ser_writedata32 nHashType))"
  using assms SignatureSerialize_view [OF assms(3,2)] by (auto simp: SignatureHash_def)

theorem SignatureHash_refines_view_witness:
  "SignatureHash const_crypto [0x51, 0xab, 0x52] example_tx 0 1 =
    Some (Hash256 const_crypto (CTransaction_ser (signed_tx example_tx [0x51, 0xab, 0x52] 0 1) @ ser_writedata32 1))"
  by (rule SignatureHash_refines_view) (simp_all add: example_tx_def fHashSingle_def GetScriptOp_def)

text \<open>
  C28. A signature with hash type \<^verbatim>\<open>SIGHASH_ALL\<close> commits to the transaction: two
  transactions with a non-negative version, spent with script codes that decode, whose signed data agree have the same version, type, outputs, lock time and payload,
  and the same outpoints and sequence numbers in the same order; only the scripts of their inputs
  can differ.
\<close>

theorem sighash_all_commits:
  assumes "tx_ok tx1" "0 \<le> sint (nVersion tx1)" "n1 < length (vin tx1)" "snd (script_ops code1)" "length code1 \<le> MAX_SIZE"
    and "tx_ok tx2" "0 \<le> sint (nVersion tx2)" "n2 < length (vin tx2)" "snd (script_ops code2)" "length code2 \<le> MAX_SIZE"
    and "SignatureSerialize tx1 code1 n1 (ucast SIGHASH_ALL) = SignatureSerialize tx2 code2 n2 (ucast SIGHASH_ALL)"
  shows "tx2\<lparr>vin := []\<rparr> = tx1\<lparr>vin := []\<rparr> \<and>
    map (\<lambda>i. (prevout i, nSequence i)) (vin tx2) = map (\<lambda>i. (prevout i, nSequence i)) (vin tx1)"
proof -
  let ?h = "ucast SIGHASH_ALL :: u32"
  have h: "\<not> fHashSingle ?h" "\<not> fHashNone ?h" "\<not> fAnyoneCanPay ?h"
    by (simp_all add: fHashSingle_def fHashNone_def fAnyoneCanPay_def)
  have ok: "tx_ok (signed_tx tx c n ?h)"
    if "tx_ok tx" "n < length (vin tx)" "snd (script_ops c)" "length c \<le> MAX_SIZE" for tx c n
    using that h by (intro signed_tx_ok) (simp_all add: tx_ok_def vector_ok_def)
  have "CTransaction_ser (signed_tx tx1 code1 n1 ?h) = CTransaction_ser (signed_tx tx2 code2 n2 ?h)"
    using assms(11) SignatureSerialize_view [OF assms(4), of ?h n1 tx1] SignatureSerialize_view [OF assms(9), of ?h n2 tx2] h
    by simp
  moreover have "tx_ok (signed_tx tx1 code1 n1 ?h)" "tx_ok (signed_tx tx2 code2 n2 ?h)"
    by (rule ok [OF assms(1,3,4,5)], rule ok [OF assms(6,8,9,10)])
  ultimately have eq: "signed_tx tx1 code1 n1 ?h = signed_tx tx2 code2 n2 ?h"
    using tx_codec.ser_prefix_free [of "signed_tx tx1 code1 n1 ?h" "signed_tx tx2 code2 n2 ?h" "[]" "[]"] assms(2,7) by simp
  have ins: "map (\<lambda>i. (prevout i, nSequence i)) (vin (signed_tx tx c n ?h)) = map (\<lambda>i. (prevout i, nSequence i)) (vin tx)"
    for tx c n
    using h by (intro nth_equalityI) (simp_all add: signed_tx_def signed_input_def)
  have rest: "(signed_tx tx c n ?h)\<lparr>vin := []\<rparr> = tx\<lparr>vin := []\<rparr>" for tx c n
    using h by (cases tx) (simp add: signed_tx_def signed_outputs_def)
  show ?thesis using ins [of tx1 code1 n1] ins [of tx2 code2 n2] rest [of tx1 code1 n1] rest [of tx2 code2 n2] eq by simp
qed

theorem sighash_all_commits_witness:
  "map prevout (vin (example_tx\<lparr>vin := map (scriptSig_update (\<lambda>_. [0x52])) (vin example_tx)\<rparr>)) = map prevout (vin example_tx)"
proof -
  let ?tx = "example_tx\<lparr>vin := map (scriptSig_update (\<lambda>_. [0x52])) (vin example_tx)\<rparr>"
  have ok: "tx_ok ?tx" using example_tx_ok by (simp add: tx_ok_def vector_ok_def example_tx_def txin_ok_def has_payload_def)
  have "SignatureSerialize example_tx [0x51] 0 (ucast SIGHASH_ALL) = SignatureSerialize ?tx [0x51] 0 (ucast SIGHASH_ALL)"
    by (simp add: SignatureSerialize_def SerializeInput_def SerializeOutput_def example_tx_def n32bitVersion_def)
  then have "map (\<lambda>i. (prevout i, nSequence i)) (vin ?tx) = map (\<lambda>i. (prevout i, nSequence i)) (vin example_tx)"
    using sighash_all_commits [of example_tx 0 "[0x51]" ?tx 0 "[0x51]"] ok example_tx_ok
    by (simp add: example_tx_def GetScriptOp_def)
  then show ?thesis by (simp add: example_tx_def)
qed

text \<open>
  C30. Verifying an input of a transaction terminates without a failed assertion: with the checker
  that the node uses, for every input of the transaction, every spent output and every set of
  flags in which clean stack comes with P2SH, \<^verbatim>\<open>VerifyScript\<close> accepts or reports an error.
\<close>

theorem input_verification_total:
  assumes "nIn < length (vin tx)" "hash_sizes C"
    and "has_flag flags SCRIPT_VERIFY_CLEANSTACK \<longrightarrow> has_flag flags SCRIPT_VERIFY_P2SH"
  shows "VerifyScript C (TransactionSignatureChecker C tx nIn) flags (scriptSig (vin tx ! nIn)) pk = Ok () \<or>
    (\<exists>e. e \<noteq> SCRIPT_ERR_OK \<and>
      VerifyScript C (TransactionSignatureChecker C tx nIn) flags (scriptSig (vin tx ! nIn)) pk = Fail e)"
  using VerifyScript_result [OF never_aborts_tx [OF assms(1)] assms(2,3)] .

theorem input_verification_total_witness:
  "VerifyScript const_crypto (TransactionSignatureChecker const_crypto example_tx 0) 0 (scriptSig (vin example_tx ! 0)) [0xac] = Ok () \<or>
    (\<exists>e. e \<noteq> SCRIPT_ERR_OK \<and>
      VerifyScript const_crypto (TransactionSignatureChecker const_crypto example_tx 0) 0 (scriptSig (vin example_tx ! 0)) [0xac] = Fail e)"
  by (rule input_verification_total) (simp_all add: example_tx_def example_environment has_flag_def)

end
