(* ===== verification/Block.thy ===== *)
theory Block
  imports Transaction
begin

unbundle bit_operations_syntax

text \<open>
  Block headers, blocks and compressed headers (\<^verbatim>\<open>primitives/block.h\<close> and \<^verbatim>\<open>.cpp\<close>), with
  the two senders and the receiver of the \<^verbatim>\<open>HEADERS2\<close> message of \<^verbatim>\<open>net_processing.cpp\<close>.
  The block hash (X11, or the Autolykos hash for version 5) is a parameter \<open>GetHash\<close>.
\<close>


section \<open>Headers\<close>

record CBlockHeader =
  hd_nVersion :: u32
  hd_hashPrevBlock :: uint256
  hd_hashMerkleRoot :: uint256
  hd_nTime :: u32
  hd_nBits :: u32
  hd_nNonce :: u32
  hd_nNewNonce :: u64
  hd_aHeight :: u32

definition CBlockHeader_null :: CBlockHeader where
  "CBlockHeader_null = \<lparr>hd_nVersion = 0, hd_hashPrevBlock = uint256_null, hd_hashMerkleRoot = uint256_null,
     hd_nTime = 0, hd_nBits = 0, hd_nNonce = 0, hd_nNewNonce = 0, hd_aHeight = 0\<rparr>"

definition CBlockHeader_IsNull :: "'a CBlockHeader_scheme \<Rightarrow> bool" where
  "CBlockHeader_IsNull h \<longleftrightarrow> hd_nBits h = 0"

text \<open>The two fields that only a header of version 5 carries on the wire.\<close>

definition autolykos_ser :: "'a CBlockHeader_scheme \<Rightarrow> bytes" where
  "autolykos_ser obj =
     (if hd_nVersion obj = 0x05 then ser_writedata64 (hd_nNewNonce obj) @ ser_writedata32 (hd_aHeight obj) else [])"

definition autolykos_unser :: "u32 \<Rightarrow> (u64 \<times> u32) reader" where
  "autolykos_unser ver s =
     (if ver = 0x05 then rbind (ser_readdata64 s) (\<lambda>n s. rbind (ser_readdata32 s) (\<lambda>a s. Inr ((n, a), s)))
      else Inr ((0, 0), s))"

definition CBlockHeader_ser :: "'a CBlockHeader_scheme \<Rightarrow> bytes" where
  "CBlockHeader_ser obj =
     ser_writedata32 (hd_nVersion obj) @ hd_hashPrevBlock obj @ hd_hashMerkleRoot obj @ ser_writedata32 (hd_nTime obj) @
     ser_writedata32 (hd_nBits obj) @ ser_writedata32 (hd_nNonce obj) @ autolykos_ser obj"

definition CBlockHeader_unser :: "CBlockHeader reader" where
  "CBlockHeader_unser s =
     rbind (ser_readdata32 s) (\<lambda>ver s. rbind (uint256_unser s) (\<lambda>prv s. rbind (uint256_unser s) (\<lambda>root s.
     rbind (ser_readdata32 s) (\<lambda>t s. rbind (ser_readdata32 s) (\<lambda>b s. rbind (ser_readdata32 s) (\<lambda>n s.
     rbind (autolykos_unser ver s) (\<lambda>(nn, ah) s.
       Inr (\<lparr>hd_nVersion = ver, hd_hashPrevBlock = prv, hd_hashMerkleRoot = root, hd_nTime = t, hd_nBits = b,
             hd_nNonce = n, hd_nNewNonce = nn, hd_aHeight = ah\<rparr>, s))))))))"

text \<open>\<^verbatim>\<open>GetBlockHeader\<close> copies a header and leaves the two fields null unless its version is 5.\<close>

definition GetBlockHeader :: "'a CBlockHeader_scheme \<Rightarrow> CBlockHeader" where
  "GetBlockHeader blk =
     CBlockHeader_null\<lparr>hd_nVersion := hd_nVersion blk, hd_hashPrevBlock := hd_hashPrevBlock blk,
       hd_hashMerkleRoot := hd_hashMerkleRoot blk, hd_nTime := hd_nTime blk, hd_nBits := hd_nBits blk,
       hd_nNonce := hd_nNonce blk,
       hd_nNewNonce := (if hd_nVersion blk = 0x05 then hd_nNewNonce blk else 0),
       hd_aHeight := (if hd_nVersion blk = 0x05 then hd_aHeight blk else 0)\<rparr>"

definition autolykos_ok :: "'a CBlockHeader_scheme \<Rightarrow> bool" where
  "autolykos_ok h \<longleftrightarrow> hd_nVersion h = 5 \<or> hd_nNewNonce h = 0 \<and> hd_aHeight h = 0"

definition header_ok :: "'a CBlockHeader_scheme \<Rightarrow> bool" where
  "header_ok h \<longleftrightarrow> length (hd_hashPrevBlock h) = 32 \<and> length (hd_hashMerkleRoot h) = 32 \<and> autolykos_ok h"

lemma autolykos_unser_ser:
  "autolykos_ok h \<Longrightarrow> autolykos_unser (hd_nVersion h) (autolykos_ser h @ s) = Inr ((hd_nNewNonce h, hd_aHeight h), s)"
  by (auto simp: autolykos_ok_def autolykos_unser_def autolykos_ser_def u64_codec.unser_ser u32_codec.unser_ser)

lemma autolykos_unser_iff:
  "autolykos_unser ver s = Inr ((n, a), t) \<longleftrightarrow>
    (if ver = 5 then s = ser_writedata64 n @ ser_writedata32 a @ t else n = 0 \<and> a = 0 \<and> s = t)"
  by (auto simp: autolykos_unser_def rbind_Inr u64_codec.unser_iff u32_codec.unser_iff u64_codec.unser_ser u32_codec.unser_ser)

interpretation header_codec: canonical_codec CBlockHeader_ser CBlockHeader_unser header_ok
proof unfold_locales
  fix x :: CBlockHeader and s t
  show "header_ok x \<Longrightarrow> CBlockHeader_unser (CBlockHeader_ser x @ s) = Inr (x, s)"
    by (simp add: header_ok_def CBlockHeader_ser_def CBlockHeader_unser_def u32_codec.unser_ser uint256_unser_def autolykos_unser_ser)
  show "CBlockHeader_unser s = Inr (x, t) \<Longrightarrow> header_ok x \<and> s = CBlockHeader_ser x @ t"
    by (auto simp: header_ok_def autolykos_ok_def CBlockHeader_ser_def autolykos_ser_def CBlockHeader_unser_def rbind_Inr
        u32_codec.unser_iff uint256_unser_def read_raw_Inr autolykos_unser_iff split: if_splits)
qed

lemma GetBlockHeader_id: "header_ok h \<Longrightarrow> GetBlockHeader h = h" for h :: CBlockHeader
  by (cases h) (auto simp: GetBlockHeader_def header_ok_def autolykos_ok_def)


section \<open>Blocks\<close>

record CBlock = CBlockHeader +
  vtx :: "CTransaction list"

definition CBlock_ser :: "CBlock \<Rightarrow> bytes" where
  "CBlock_ser obj = CBlockHeader_ser obj @ vector_ser CTransaction_ser (vtx obj)"

definition CBlock_unser :: "CBlock reader" where
  "CBlock_unser s =
     rbind (CBlockHeader_unser s) (\<lambda>h s. rbind (vector_unser CTransaction_unser s) (\<lambda>txs s.
       Inr (CBlockHeader.extend h (CBlock.fields txs), s)))"

section \<open>Compressed headers\<close>

abbreviation (input) VERSION_BIT_MASK :: u8 where "VERSION_BIT_MASK \<equiv> 1 OR 2 OR 4"
abbreviation (input) PREV_BLOCK_HASH :: u8 where "PREV_BLOCK_HASH \<equiv> 8"
abbreviation (input) TIMESTAMP :: u8 where "TIMESTAMP \<equiv> 16"
abbreviation (input) NBITS :: u8 where "NBITS \<equiv> 32"

definition IsCompressed :: "u8 \<Rightarrow> u8 \<Rightarrow> bool" where
  "IsCompressed bit_field flag \<longleftrightarrow> bit_field AND flag = 0"

definition MarkAsUncompressed :: "u8 \<Rightarrow> u8 \<Rightarrow> u8" where
  "MarkAsUncompressed bit_field flag = bit_field OR flag"

definition MarkAsCompressed :: "u8 \<Rightarrow> u8 \<Rightarrow> u8" where
  "MarkAsCompressed bit_field flag = bit_field AND NOT flag"

definition GetVersionOffset :: "u8 \<Rightarrow> u8" where
  "GetVersionOffset bit_field = bit_field AND VERSION_BIT_MASK"

definition IsVersionCompressed :: "u8 \<Rightarrow> bool" where
  "IsVersionCompressed bit_field \<longleftrightarrow> GetVersionOffset bit_field \<noteq> 0"

definition SetVersionOffset :: "u8 \<Rightarrow> u8 \<Rightarrow> u8" where
  "SetVersionOffset bit_field version = (bit_field AND NOT VERSION_BIT_MASK) OR (version AND VERSION_BIT_MASK)"

record CompressibleBlockHeader = CBlockHeader +
  bit_field :: u8
  time_offset :: u16

text \<open>The constructor from a header marks every field as uncompressed.\<close>

definition CompressibleBlockHeader_of :: "CBlockHeader \<Rightarrow> CompressibleBlockHeader" where
  "CompressibleBlockHeader_of h =
     CBlockHeader.extend h (CompressibleBlockHeader.fields
       (MarkAsUncompressed (MarkAsUncompressed (MarkAsUncompressed (SetVersionOffset 0 0) PREV_BLOCK_HASH) TIMESTAMP) NBITS) 0)"

definition CompressibleBlockHeader_ser :: "CompressibleBlockHeader \<Rightarrow> bytes" where
  "CompressibleBlockHeader_ser obj =
     ser_writedata8 (bit_field obj) @
     (if \<not> IsVersionCompressed (bit_field obj) then ser_writedata32 (hd_nVersion obj) else []) @
     (if \<not> IsCompressed (bit_field obj) PREV_BLOCK_HASH then hd_hashPrevBlock obj else []) @
     hd_hashMerkleRoot obj @
     (if \<not> IsCompressed (bit_field obj) TIMESTAMP then ser_writedata32 (hd_nTime obj) else ser_writedata16 (time_offset obj)) @
     (if \<not> IsCompressed (bit_field obj) NBITS then ser_writedata32 (hd_nBits obj) else []) @
     ser_writedata32 (hd_nNonce obj) @ autolykos_ser obj"

text \<open>
  Reading starts from a default-constructed header: a version that is not on the wire is still
  zero when the reader decides whether the two last fields follow.
\<close>

definition CompressibleBlockHeader_unser :: "CompressibleBlockHeader reader" where
  "CompressibleBlockHeader_unser s =
     rbind (ser_readdata8 s) (\<lambda>bf s.
     rbind (if \<not> IsVersionCompressed bf then ser_readdata32 s else Inr (0, s)) (\<lambda>ver s.
     rbind (if \<not> IsCompressed bf PREV_BLOCK_HASH then uint256_unser s else Inr (uint256_null, s)) (\<lambda>prv s.
     rbind (uint256_unser s) (\<lambda>root s.
     rbind (if \<not> IsCompressed bf TIMESTAMP then rbind (ser_readdata32 s) (\<lambda>t s. Inr ((t, 0), s))
            else rbind (ser_readdata16 s) (\<lambda>d s. Inr ((0, d), s))) (\<lambda>(t, d) s.
     rbind (if \<not> IsCompressed bf NBITS then ser_readdata32 s else Inr (0, s)) (\<lambda>b s.
     rbind (ser_readdata32 s) (\<lambda>n s.
     rbind (autolykos_unser ver s) (\<lambda>(nn, ah) s.
       Inr (\<lparr>hd_nVersion = ver, hd_hashPrevBlock = prv, hd_hashMerkleRoot = root, hd_nTime = t, hd_nBits = b,
             hd_nNonce = n, hd_nNewNonce = nn, hd_aHeight = ah, bit_field = bf, time_offset = d\<rparr>, s)))))))))"

text \<open>The list of the versions seen last, the most recent first; an iterator is an index.\<close>

definition MarkVersionAsMostRecent :: "'v list \<Rightarrow> nat \<Rightarrow> 'v list" where
  "MarkVersionAsMostRecent last_unique_versions version_it =
     (if version_it \<noteq> 0
      then last_unique_versions ! version_it # take version_it last_unique_versions @ drop (Suc version_it) last_unique_versions
      else last_unique_versions)"

definition SaveVersionAsMostRecent :: "'v list \<Rightarrow> 'v \<Rightarrow> 'v list" where
  "SaveVersionAsMostRecent last_unique_versions version =
     (let versions = version # last_unique_versions in if length versions > 7 then butlast versions else versions)"

definition find_version :: "'v \<Rightarrow> 'v list \<Rightarrow> nat" where
  "find_version v vs = length (takeWhile (\<lambda>x. x \<noteq> v) vs)"

text \<open>
  The difference of two block times is taken on unsigned 32-bit numbers before it is widened.
\<close>

definition Compress ::
  "CompressibleBlockHeader \<Rightarrow> CompressibleBlockHeader list \<Rightarrow> u32 list \<Rightarrow> CompressibleBlockHeader \<times> u32 list" where
  "Compress this previous_blocks last_unique_versions =
     (if previous_blocks = [] then (this, SaveVersionAsMostRecent last_unique_versions (hd_nVersion this))
      else
        let version_it = find_version (hd_nVersion this) last_unique_versions;
            (bf, versions) =
              (if version_it < length last_unique_versions
               then (SetVersionOffset (bit_field this) (of_nat (version_it + 1)),
                     MarkVersionAsMostRecent last_unique_versions version_it)
               else (bit_field this, SaveVersionAsMostRecent last_unique_versions (hd_nVersion this)));
            last_block = last previous_blocks;
            bf = MarkAsCompressed bf PREV_BLOCK_HASH;
            time_diff = int (unat (hd_nTime this - hd_nTime last_block));
            (bf, off) =
              (if time_diff \<le> 32767 \<and> time_diff \<ge> - 32768
               then (MarkAsCompressed bf TIMESTAMP, word_of_int time_diff) else (bf, time_offset this));
            bf = (if hd_nBits this = hd_nBits last_block then MarkAsCompressed bf NBITS else bf)
        in (this\<lparr>bit_field := bf, time_offset := off\<rparr>, versions))"

definition Uncompress ::
  "(CBlockHeader \<Rightarrow> uint256) \<Rightarrow> CompressibleBlockHeader \<Rightarrow> CBlockHeader list \<Rightarrow> u32 list \<Rightarrow>
   CompressibleBlockHeader \<times> u32 list" where
  "Uncompress GetHash this previous_blocks last_unique_versions =
     (if previous_blocks = [] then (this, SaveVersionAsMostRecent last_unique_versions (hd_nVersion this))
      else
        let last_block = last previous_blocks;
            version_offset = unat (GetVersionOffset (bit_field this));
            (ver, versions) =
              (if IsVersionCompressed (bit_field this)
               then if version_offset \<le> length last_unique_versions
                    then (last_unique_versions ! (version_offset - 1),
                          MarkVersionAsMostRecent last_unique_versions (version_offset - 1))
                    else (hd_nVersion this, last_unique_versions)
               else (hd_nVersion this, SaveVersionAsMostRecent last_unique_versions (hd_nVersion this)));
            prv = (if IsCompressed (bit_field this) PREV_BLOCK_HASH then GetHash last_block else hd_hashPrevBlock this);
            t = (if IsCompressed (bit_field this) TIMESTAMP then hd_nTime last_block + scast (time_offset this) else hd_nTime this);
            b = (if IsCompressed (bit_field this) NBITS then hd_nBits last_block else hd_nBits this)
        in (this\<lparr>hd_nVersion := ver, hd_hashPrevBlock := prv, hd_nTime := t, hd_nBits := b\<rparr>, versions))"

subsection \<open>The messages\<close>

abbreviation (input) MAX_HEADERS_RESULTS :: nat where "MAX_HEADERS_RESULTS \<equiv> 2000"

text \<open>
  The two senders of \<^verbatim>\<open>HEADERS2\<close>: announcing new blocks compresses every header, answering
  \<^verbatim>\<open>GETHEADERS2\<close> leaves out the call for the first one, and with it the entry in the list of
  versions.
\<close>

fun compress_headers ::
  "bool \<Rightarrow> CBlockHeader list \<Rightarrow> CompressibleBlockHeader list \<Rightarrow> u32 list \<Rightarrow> CompressibleBlockHeader list" where
  "compress_headers compress_first [] v_headers versions = v_headers"
| "compress_headers compress_first (h # hs) v_headers versions =
     (let c = CompressibleBlockHeader_of (GetBlockHeader h);
          (c, versions) = (if v_headers \<noteq> [] \<or> compress_first then Compress c v_headers versions else (c, versions))
      in compress_headers compress_first hs (v_headers @ [c]) versions)"

definition announce_headers2 :: "CBlockHeader list \<Rightarrow> bytes" where
  "announce_headers2 vHeaders = vector_ser CompressibleBlockHeader_ser (compress_headers True vHeaders [] [])"

definition answer_getheaders2 :: "CBlockHeader list \<Rightarrow> bytes" where
  "answer_getheaders2 hs = vector_ser CompressibleBlockHeader_ser (compress_headers False hs [] [])"

fun read_headers2 ::
  "(CBlockHeader \<Rightarrow> uint256) \<Rightarrow> nat \<Rightarrow> CBlockHeader list \<Rightarrow> u32 list \<Rightarrow> CBlockHeader list reader" where
  "read_headers2 GetHash 0 headers versions s = Inr (headers, s)"
| "read_headers2 GetHash (Suc n) headers versions s =
     rbind (CompressibleBlockHeader_unser s) (\<lambda>c s.
       let (c, versions) = Uncompress GetHash c headers versions
       in read_headers2 GetHash n (headers @ [CBlockHeader.truncate c]) versions s)"

text \<open>Receiving \<^verbatim>\<open>HEADERS2\<close>; \<open>None\<close> is the penalty for a message with too many headers.\<close>

definition receive_headers2 :: "(CBlockHeader \<Rightarrow> uint256) \<Rightarrow> CBlockHeader list option reader" where
  "receive_headers2 GetHash s =
     rbind (ReadCompactSize True s) (\<lambda>nCount s.
       if unat (ucast nCount :: u32) > MAX_HEADERS_RESULTS then Inr (None, s)
       else rbind (read_headers2 GetHash (unat (ucast nCount :: u32)) [] [] s) (\<lambda>hs s. Inr (Some hs, s)))"

section \<open>Compression loses nothing\<close>

lemma SaveVersion_take: "length vs \<le> 7 \<Longrightarrow> SaveVersionAsMostRecent vs v = take 7 (v # vs)"
  by (cases "length vs = 7") (auto simp: SaveVersionAsMostRecent_def Let_def butlast_conv_take)

text \<open>The receiver's list of versions is the sender's with at most some more entries behind it.\<close>

definition versions_rel :: "u32 list \<Rightarrow> u32 list \<Rightarrow> bool" where
  "versions_rel vs ws \<longleftrightarrow> (\<exists>us. ws = vs @ us) \<and> length ws \<le> 7"

lemma versions_rel_save:
  assumes "versions_rel vs ws"
  shows "versions_rel (SaveVersionAsMostRecent vs v) (SaveVersionAsMostRecent ws v)"
  using assms by (auto simp: versions_rel_def SaveVersion_take take_Cons')

lemma versions_rel_mark:
  assumes "versions_rel vs ws" "i < length vs"
  shows "versions_rel (MarkVersionAsMostRecent vs i) (MarkVersionAsMostRecent ws i)" "ws ! i = vs ! i"
  using assms by (auto simp: versions_rel_def MarkVersionAsMostRecent_def nth_append)

lemma find_version_nth: "find_version v vs < length vs \<Longrightarrow> vs ! find_version v vs = v"
  using nth_length_takeWhile [of "\<lambda>x. x \<noteq> v" vs] by (auto simp: find_version_def)

text \<open>The sixteen shapes of the bit field after compression, for an offset below eight.\<close>

definition compressed_bits :: "nat \<Rightarrow> bool \<Rightarrow> bool \<Rightarrow> u8" where
  "compressed_bits k tc nc =
     (let bf = MarkAsCompressed (SetVersionOffset 56 (of_nat k)) PREV_BLOCK_HASH;
          bf = (if tc then MarkAsCompressed bf TIMESTAMP else bf)
      in if nc then MarkAsCompressed bf NBITS else bf)"

lemma compressed_bits:
  assumes "k < 8"
  shows "unat (GetVersionOffset (compressed_bits k tc nc)) = k" "IsVersionCompressed (compressed_bits k tc nc) \<longleftrightarrow> k \<noteq> 0"
    "IsCompressed (compressed_bits k tc nc) PREV_BLOCK_HASH" "IsCompressed (compressed_bits k tc nc) TIMESTAMP \<longleftrightarrow> tc"
    "IsCompressed (compressed_bits k tc nc) NBITS \<longleftrightarrow> nc"
proof -
  have "k \<in> {0, 1, 2, 3, 4, 5, 6, 7}" using assms by auto
  then show "unat (GetVersionOffset (compressed_bits k tc nc)) = k" "IsVersionCompressed (compressed_bits k tc nc) \<longleftrightarrow> k \<noteq> 0"
    "IsCompressed (compressed_bits k tc nc) PREV_BLOCK_HASH" "IsCompressed (compressed_bits k tc nc) TIMESTAMP \<longleftrightarrow> tc"
    "IsCompressed (compressed_bits k tc nc) NBITS \<longleftrightarrow> nc"
    by (auto simp: compressed_bits_def MarkAsCompressed_def SetVersionOffset_def GetVersionOffset_def
      IsVersionCompressed_def IsCompressed_def Let_def)
qed

lemma Compress_bits:
  fixes h :: CBlockHeader and vs :: "u32 list"
  assumes "previous_blocks \<noteq> []"
  defines "c \<equiv> CompressibleBlockHeader_of h" and "l \<equiv> last previous_blocks" and "i \<equiv> find_version (hd_nVersion h) vs"
  defines "tc \<equiv> unat (hd_nTime h - hd_nTime l) \<le> 32767"
  shows "Compress c previous_blocks vs =
    (c\<lparr>bit_field := compressed_bits (if i < length vs then i + 1 else 0) tc (hd_nBits h = hd_nBits l),
       time_offset := (if tc then ucast (hd_nTime h - hd_nTime l) else 0)\<rparr>,
     if i < length vs then MarkVersionAsMostRecent vs i else SaveVersionAsMostRecent vs (hd_nVersion h))"
proof -
  have f: "hd_nVersion c = hd_nVersion h" "hd_nTime c = hd_nTime h" "hd_nBits c = hd_nBits h" "bit_field c = 56" "time_offset c = 0"
    by (simp_all add: c_def CompressibleBlockHeader_of_def CompressibleBlockHeader.defs CBlockHeader.defs
        MarkAsUncompressed_def SetVersionOffset_def)
  have u: "(word_of_int (int (unat w)) :: u16) = ucast w" for w :: u32 unfolding ucast_eq uint_nat ..
  have t: "int n \<le> 32767 \<and> int n \<ge> - 32768 \<longleftrightarrow> n \<le> 32767" for n by auto
  have "SetVersionOffset 56 0 = 56" by (simp add: SetVersionOffset_def)
  then show ?thesis
    using assms(1)
    unfolding Compress_def f i_def [symmetric] l_def [symmetric] t tc_def [symmetric] u compressed_bits_def Let_def
    by simp
qed

lemma time_offset_back:
  assumes "unat (d :: u32) \<le> 32767"
  shows "scast (ucast d :: u16) = d"
proof -
  have s: "sint (ucast d :: u16) = int (unat d)"
  proof -
    have "uint d < 32768" unfolding uint_nat using assms by linarith
    moreover have "- 32768 \<le> uint d" by (rule order_trans [OF _ uint_ge_0]) simp
    ultimately have "sint (word_of_int (uint d) :: u16) = uint d"
      unfolding sint_sbintrunc' by (intro signed_take_bit_int_eq_self) simp_all
    then show ?thesis unfolding ucast_eq uint_nat .
  qed
  have "scast (ucast d :: u16) = (word_of_int (sint (ucast d :: u16)) :: u32)" by (rule scast_eq)
  then show ?thesis unfolding s by simp
qed

lemma compressed_header_roundtrip:
  fixes h :: CBlockHeader
  assumes ok: "header_ok h" "hd_nVersion h \<noteq> 5"
    and prev: "previous_blocks \<noteq> []" "headers \<noteq> []"
      "hd_nTime (last previous_blocks) = hd_nTime (last headers)" "hd_nBits (last previous_blocks) = hd_nBits (last headers)"
      "hd_hashPrevBlock h = GetHash (last headers)"
    and rel: "versions_rel vs ws"
  defines "r \<equiv> Compress (CompressibleBlockHeader_of h) previous_blocks vs"
  shows "\<exists>c'. (\<forall>s. CompressibleBlockHeader_unser (CompressibleBlockHeader_ser (fst r) @ s) = Inr (c', s)) \<and>
    CBlockHeader.truncate (fst (Uncompress GetHash c' headers ws)) = h \<and>
    versions_rel (snd r) (snd (Uncompress GetHash c' headers ws))"
proof -
  define i where "i = find_version (hd_nVersion h) vs"
  define k where "k = (if i < length vs then i + 1 else 0)"
  define tc where "tc \<longleftrightarrow> unat (hd_nTime h - hd_nTime (last previous_blocks)) \<le> 32767"
  define nc where "nc \<longleftrightarrow> hd_nBits h = hd_nBits (last previous_blocks)"
  define off where "off = (if tc then ucast (hd_nTime h - hd_nTime (last previous_blocks)) else 0 :: u16)"
  define bf where "bf = compressed_bits k tc nc"
  have k: "k < 8" using rel by (auto simp: k_def versions_rel_def)
  note bits = compressed_bits [OF k, of tc nc, folded bf_def]
  have r: "r = ((CompressibleBlockHeader_of h)\<lparr>bit_field := bf, time_offset := off\<rparr>,
      if i < length vs then MarkVersionAsMostRecent vs i else SaveVersionAsMostRecent vs (hd_nVersion h))"
    unfolding r_def Compress_bits [OF prev(1)] bf_def off_def k_def tc_def nc_def i_def by simp
  define c' where "c' = \<lparr>hd_nVersion = (if k = 0 then hd_nVersion h else 0), hd_hashPrevBlock = uint256_null,
     hd_hashMerkleRoot = hd_hashMerkleRoot h, hd_nTime = (if tc then 0 else hd_nTime h), hd_nBits = (if nc then 0 else hd_nBits h),
     hd_nNonce = hd_nNonce h, hd_nNewNonce = 0, hd_aHeight = 0, bit_field = bf, time_offset = (if tc then off else 0)\<rparr>"
  have len: "length (hd_hashMerkleRoot h) = 32" using ok(1) by (simp add: header_ok_def)
  have "CompressibleBlockHeader_unser (CompressibleBlockHeader_ser (fst r) @ s) = Inr (c', s)" for s
    using len
    by (cases "k = 0"; cases tc; cases nc)
      (simp_all add: r CompressibleBlockHeader_ser_def CompressibleBlockHeader_unser_def CompressibleBlockHeader_of_def
        CompressibleBlockHeader.defs CBlockHeader.defs bits c'_def u8_codec.unser_ser u16_codec.unser_ser u32_codec.unser_ser
        uint256_unser_def autolykos_ser_def autolykos_unser_def ok(2))
  moreover have tt: "hd_nTime (last headers) + scast off = hd_nTime h" if tc
    using that time_offset_back by (simp add: off_def tc_def prev(3))
  moreover have ver: "k - 1 < length ws" "ws ! (k - 1) = hd_nVersion h" "k \<le> length ws" if "k \<noteq> 0"
    using that rel versions_rel_mark(2) [OF rel, of i] find_version_nth [of "hd_nVersion h" vs]
    by (auto simp: k_def i_def versions_rel_def split: if_splits)
  have unc: "Uncompress GetHash c' headers ws = (h', ws') \<Longrightarrow>
      hd_nVersion h' = hd_nVersion h \<and> hd_hashPrevBlock h' = hd_hashPrevBlock h \<and> hd_hashMerkleRoot h' = hd_hashMerkleRoot h \<and>
      hd_nTime h' = hd_nTime h \<and> hd_nBits h' = hd_nBits h \<and> hd_nNonce h' = hd_nNonce h \<and> hd_nNewNonce h' = 0 \<and> hd_aHeight h' = 0 \<and>
      ws' = (if k \<noteq> 0 then MarkVersionAsMostRecent ws (k - 1) else SaveVersionAsMostRecent ws (hd_nVersion h))" for h' ws'
    using prev tt ver
    by (cases "k = 0"; cases tc; cases nc) (auto simp: Uncompress_def c'_def bits Let_def nc_def)
  moreover have "versions_rel (snd r) (if k \<noteq> 0 then MarkVersionAsMostRecent ws (k - 1) else SaveVersionAsMostRecent ws (hd_nVersion h))"
    using versions_rel_mark(1) [OF rel, of i] versions_rel_save [OF rel] by (auto simp: r k_def)
  moreover obtain h' ws' where "Uncompress GetHash c' headers ws = (h', ws')" by (cases "Uncompress GetHash c' headers ws")
  ultimately show ?thesis
    using ok unc [of h' ws'] by (intro exI [of _ c']) (auto simp: CBlockHeader.defs header_ok_def autolykos_ok_def)
qed

text \<open>A list of headers in which each one names the hash of the one before it.\<close>

fun linked :: "(CBlockHeader \<Rightarrow> uint256) \<Rightarrow> CBlockHeader list \<Rightarrow> bool" where
  "linked GetHash (a # b # hs) \<longleftrightarrow> hd_hashPrevBlock b = GetHash a \<and> linked GetHash (b # hs)"
| "linked GetHash _ \<longleftrightarrow> True"

lemma uncompressed_header:
  assumes "header_ok h"
  shows "CompressibleBlockHeader_unser (CompressibleBlockHeader_ser (CompressibleBlockHeader_of h) @ s) =
    Inr (CompressibleBlockHeader_of h, s)"
proof -
  have bf: "MarkAsUncompressed (MarkAsUncompressed (MarkAsUncompressed (SetVersionOffset 0 0) 8) 16) 32 = 56"
    by (simp add: MarkAsUncompressed_def SetVersionOffset_def)
  show ?thesis
    using assms
    by (auto simp: CompressibleBlockHeader_of_def bf CompressibleBlockHeader_ser_def CompressibleBlockHeader_unser_def
        autolykos_ser_def autolykos_unser_def autolykos_ok_def u64_codec.unser_ser
        CBlockHeader.defs CompressibleBlockHeader.defs IsVersionCompressed_def GetVersionOffset_def IsCompressed_def
        u8_codec.unser_ser u32_codec.unser_ser uint256_unser_def header_ok_def)
qed

lemma truncate_of [simp]: "CBlockHeader.truncate (CompressibleBlockHeader_of h) = h" for h :: CBlockHeader
  by (simp add: CompressibleBlockHeader_of_def CBlockHeader.defs CompressibleBlockHeader.defs)

lemma compress_headers_append:
  "\<exists>cs. compress_headers b hs v versions = v @ cs \<and> length cs = length hs"
proof (induction hs arbitrary: v versions)
  case (Cons h hs)
  show ?case using Cons.IH by (auto simp: Let_def split: prod.splits) (metis append_assoc append_Cons append_Nil length_Cons)+
qed simp

lemma Compress_same_fields:
  "hd_nTime (fst (Compress c p vs)) = hd_nTime c" "hd_nBits (fst (Compress c p vs)) = hd_nBits c"
  by (auto simp: Compress_def Let_def split: prod.splits)

lemma read_compressed_headers:
  assumes "\<forall>h \<in> set hs. header_ok h \<and> hd_nVersion h \<noteq> 5" "linked GetHash (last headers # hs)"
    "v \<noteq> []" "headers \<noteq> []" "hd_nTime (last v) = hd_nTime (last headers)" "hd_nBits (last v) = hd_nBits (last headers)"
    "versions_rel vs ws"
  shows "\<exists>cs. compress_headers b hs v vs = v @ cs \<and> length cs = length hs \<and>
    read_headers2 GetHash (length hs) headers ws (concat (map CompressibleBlockHeader_ser cs) @ s) = Inr (headers @ hs, s)"
  using assms
proof (induction hs arbitrary: v headers vs ws)
  case Nil
  then show ?case by simp
next
  case (Cons h hs)
  define r where "r = Compress (CompressibleBlockHeader_of h) v vs"
  have h: "header_ok h" "hd_nVersion h \<noteq> 5" "hd_hashPrevBlock h = GetHash (last headers)" using Cons.prems by simp_all
  have f: "hd_nTime (fst r) = hd_nTime h" "hd_nBits (fst r) = hd_nBits h"
    by (simp_all add: r_def Compress_same_fields CompressibleBlockHeader_of_def CBlockHeader.defs)
  obtain c' where c': "\<And>t. CompressibleBlockHeader_unser (CompressibleBlockHeader_ser (fst r) @ t) = Inr (c', t)"
    "CBlockHeader.truncate (fst (Uncompress GetHash c' headers ws)) = h"
    "versions_rel (snd r) (snd (Uncompress GetHash c' headers ws))"
    using compressed_header_roundtrip [of h v headers GetHash vs ws] h Cons.prems(3-7) unfolding r_def by blast
  from Cons.IH [of "headers @ [h]" "v @ [fst r]" "snd r" "snd (Uncompress GetHash c' headers ws)"]
  obtain cs where cs: "compress_headers b hs (v @ [fst r]) (snd r) = (v @ [fst r]) @ cs" "length cs = length hs"
    "read_headers2 GetHash (length hs) (headers @ [h]) (snd (Uncompress GetHash c' headers ws))
       (concat (map CompressibleBlockHeader_ser cs) @ s) = Inr ((headers @ [h]) @ hs, s)"
    using Cons.prems f c'(3) by auto
  show ?case
    using cs c' Cons.prems(3) GetBlockHeader_id [OF h(1)]
    by (intro exI [of _ "fst r # cs"]) (simp add: Let_def r_def [symmetric] split_beta)
qed

lemma ReadCompactSize_length:
  "n \<le> MAX_SIZE \<Longrightarrow> ReadCompactSize True (WriteCompactSize (of_nat n) @ s) = Inr (of_nat n, s)"
  by (simp add: size_codec.unser_ser)

lemma headers2_roundtrip:
  assumes "\<forall>h \<in> set hs. header_ok h \<and> hd_nVersion h \<noteq> 5" "linked GetHash hs" "length hs \<le> MAX_HEADERS_RESULTS"
  shows "receive_headers2 GetHash (vector_ser CompressibleBlockHeader_ser (compress_headers b hs [] []) @ s) = Inr (Some hs, s)"
proof -
  obtain cs where cs: "compress_headers b hs [] [] = cs" "length cs = length hs"
    "read_headers2 GetHash (length hs) [] [] (concat (map CompressibleBlockHeader_ser cs) @ s) = Inr (hs, s)"
  proof (cases hs)
    case Nil
    then show thesis by (intro that [of "[]"]) simp_all
  next
    case (Cons h hs')
    let ?c = "CompressibleBlockHeader_of h" and ?vs = "if b then [hd_nVersion h] else []"
    have rel: "versions_rel ?vs [hd_nVersion h]" by (cases b) (simp_all add: versions_rel_def)
    have h: "header_ok h" using assms(1) Cons by simp
    have f: "hd_nTime ?c = hd_nTime h" "hd_nBits ?c = hd_nBits h" "hd_nVersion ?c = hd_nVersion h"
      by (simp_all add: CompressibleBlockHeader_of_def CBlockHeader.defs)
    obtain cs where cs: "compress_headers b hs' [?c] ?vs = [?c] @ cs" "length cs = length hs'"
      "read_headers2 GetHash (length hs') [h] [hd_nVersion h] (concat (map CompressibleBlockHeader_ser cs) @ s) = Inr ([h] @ hs', s)"
      using read_compressed_headers [of hs' GetHash "[h]" "[?c]" ?vs "[hd_nVersion h]" b s] assms Cons f rel by auto
    show thesis
      using cs h uncompressed_header [OF h] GetBlockHeader_id [OF h] f
      by (intro that [of "?c # cs"])
        (auto simp: Cons Compress_def Uncompress_def SaveVersionAsMostRecent_def Let_def split: if_splits)
  qed
  then show ?thesis
    using assms(3) by (simp add: receive_headers2_def vector_ser_def ReadCompactSize_length)
qed

section \<open>Headers of version 5\<close>

lemma v5_version_compressed:
  assumes "IsVersionCompressed (bit_field c)" "hd_nVersion c = 5" "header_ok c"
  shows "\<exists>c'. (\<forall>s. CompressibleBlockHeader_unser (CompressibleBlockHeader_ser c @ s) =
      Inr (c', ser_writedata64 (hd_nNewNonce c) @ ser_writedata32 (hd_aHeight c) @ s)) \<and>
    hd_nNewNonce c' = 0 \<and> hd_aHeight c' = 0"
proof -
  define c' where "c' = \<lparr>hd_nVersion = 0,
     hd_hashPrevBlock = (if IsCompressed (bit_field c) PREV_BLOCK_HASH then uint256_null else hd_hashPrevBlock c),
     hd_hashMerkleRoot = hd_hashMerkleRoot c, hd_nTime = (if IsCompressed (bit_field c) TIMESTAMP then 0 else hd_nTime c),
     hd_nBits = (if IsCompressed (bit_field c) NBITS then 0 else hd_nBits c), hd_nNonce = hd_nNonce c,
     hd_nNewNonce = 0, hd_aHeight = 0, bit_field = bit_field c,
     time_offset = (if IsCompressed (bit_field c) TIMESTAMP then time_offset c else 0)\<rparr>"
  have "CompressibleBlockHeader_unser (CompressibleBlockHeader_ser c @ s) =
      Inr (c', ser_writedata64 (hd_nNewNonce c) @ ser_writedata32 (hd_aHeight c) @ s)" for s
    using assms
    by (simp add: CompressibleBlockHeader_unser_def CompressibleBlockHeader_ser_def autolykos_ser_def autolykos_unser_def
        u8_codec.unser_ser u16_codec.unser_ser u32_codec.unser_ser uint256_unser_def header_ok_def c'_def)
  then show ?thesis by (intro exI [of _ c']) (simp add: c'_def)
qed


section \<open>Properties\<close>

text \<open>
  C33. Compressed headers arrive unchanged: for a chain of headers of versions other than 5, what a
  peer reads from a \<^verbatim>\<open>HEADERS2\<close> message is exactly the list of headers that was sent, whichever
  of the two senders built the message and whatever the block hash function is.  The lists of
  recent versions that the two sides keep need not be equal for that.
\<close>

theorem compressed_headers_roundtrip:
  assumes "\<forall>h \<in> set hs. header_ok h \<and> hd_nVersion h \<noteq> 5" "linked GetHash hs" "length hs \<le> MAX_HEADERS_RESULTS"
  shows "receive_headers2 GetHash (announce_headers2 hs @ s) = Inr (Some hs, s) \<and>
    receive_headers2 GetHash (answer_getheaders2 hs @ s) = Inr (Some hs, s)"
  using headers2_roundtrip [OF assms] by (simp add: announce_headers2_def answer_getheaders2_def)

definition example_header :: "u32 \<Rightarrow> CBlockHeader" where
  "example_header t = CBlockHeader_null\<lparr>hd_nVersion := 4, hd_nTime := t, hd_nBits := 0x1d00ffff, hd_nNonce := 7\<rparr>"

theorem compressed_headers_roundtrip_witness:
  "receive_headers2 (\<lambda>_. uint256_null) (answer_getheaders2 [example_header 100, example_header 250, example_header 90] @ [1]) =
    Inr (Some [example_header 100, example_header 250, example_header 90], [1])"
  using compressed_headers_roundtrip [of "[example_header 100, example_header 250, example_header 90]" "\<lambda>_. uint256_null" "[1]"]
  by (simp add: example_header_def header_ok_def autolykos_ok_def CBlockHeader_null_def uint256_null_def)

text \<open>
  A header of version 5 whose version is compressed is not read back: the reader still holds
  version 0 when it decides whether the two fields that only version 5 has follow, so it leaves
  their twelve bytes in the stream and the header with a zero nonce and height.
\<close>

theorem compressed_version5_header_misread:
  assumes "IsVersionCompressed (bit_field c)" "hd_nVersion c = 5" "header_ok c"
  shows "\<exists>c'. CompressibleBlockHeader_unser (CompressibleBlockHeader_ser c @ s) =
      Inr (c', ser_writedata64 (hd_nNewNonce c) @ ser_writedata32 (hd_aHeight c) @ s) \<and>
    hd_nNewNonce (fst (Uncompress GetHash c' headers versions)) = 0 \<and>
    hd_aHeight (fst (Uncompress GetHash c' headers versions)) = 0"
proof -
  have "hd_nNewNonce (fst (Uncompress GetHash c' headers versions)) = hd_nNewNonce c'"
    "hd_aHeight (fst (Uncompress GetHash c' headers versions)) = hd_aHeight c'" for c'
    by (simp_all add: Uncompress_def Let_def split_beta)
  then show ?thesis using v5_version_compressed [OF assms] by auto
qed

definition example_compressed :: CompressibleBlockHeader where
  "example_compressed = fst (Compress (CompressibleBlockHeader_of
     ((example_header 160)\<lparr>hd_nVersion := 5, hd_nNewNonce := 77, hd_aHeight := 9\<rparr>))
     [CompressibleBlockHeader_of (example_header 100)] [5])"

theorem compressed_version5_header_misread_witness:
  "\<exists>c'. CompressibleBlockHeader_unser (CompressibleBlockHeader_ser example_compressed) =
     Inr (c', ser_writedata64 77 @ ser_writedata32 9)"
proof -
  have e: "example_compressed = \<lparr>hd_nVersion = 5, hd_hashPrevBlock = uint256_null, hd_hashMerkleRoot = uint256_null,
     hd_nTime = 160, hd_nBits = 0x1d00ffff, hd_nNonce = 7, hd_nNewNonce = 77, hd_aHeight = 9, bit_field = 1, time_offset = 60\<rparr>"
    by (simp add: example_compressed_def Compress_def find_version_def CompressibleBlockHeader_of_def example_header_def
        CBlockHeader_null_def CBlockHeader.defs CompressibleBlockHeader.defs Let_def MarkAsCompressed_def MarkAsUncompressed_def
        SetVersionOffset_def)
  have "IsVersionCompressed (bit_field example_compressed)" "hd_nVersion example_compressed = 5" "header_ok example_compressed"
    "hd_nNewNonce example_compressed = 77" "hd_aHeight example_compressed = 9"
    unfolding e by (simp_all add: header_ok_def autolykos_ok_def uint256_null_def IsVersionCompressed_def GetVersionOffset_def)
  then show ?thesis
    using compressed_version5_header_misread [of example_compressed "[]" "\<lambda>_. uint256_null" "[]" "[]"] by auto
qed

end
