(* ===== verification/Wide_Int.thy ===== *)
theory Wide_Int
  imports Compact_Bits
begin

text \<open>
  What the consensus code relies on of \<^verbatim>\<open>arith_uint256\<close>, as a locale: unsigned numbers of
  \<open>N\<close> bits whose operations are those of the natural numbers reduced modulo \<open>2 ^ N\<close>.  The lemmas
  on the work of a target and on rescaling a target are proved once from these laws, and the
  locale is interpreted on the limb-wise operations.
\<close>

locale wide_uint =
  fixes val :: "'u \<Rightarrow> nat" and ok :: "'u \<Rightarrow> bool" and N :: nat
    and of64 :: "u64 \<Rightarrow> 'u" and inv_bits :: "'u \<Rightarrow> 'u" and add :: "'u \<Rightarrow> 'u \<Rightarrow> 'u"
    and mul :: "'u \<Rightarrow> 'u \<Rightarrow> 'u" and mul32 :: "'u \<Rightarrow> u32 \<Rightarrow> 'u" and quot :: "'u \<Rightarrow> 'u \<Rightarrow> uint_error + 'u"
  assumes val_bound: "ok a \<Longrightarrow> val a < 2 ^ N"
    and width: "64 \<le> N"
    and of64_val: "ok (of64 x)" "val (of64 x) = unat x"
    and inv_val: "ok a \<Longrightarrow> ok (inv_bits a)" "ok a \<Longrightarrow> val (inv_bits a) = 2 ^ N - 1 - val a"
    and add_val: "ok a \<Longrightarrow> ok b \<Longrightarrow> ok (add a b)" "ok a \<Longrightarrow> ok b \<Longrightarrow> val (add a b) = (val a + val b) mod 2 ^ N"
    and mul_val: "ok a \<Longrightarrow> ok b \<Longrightarrow> ok (mul a b)" "ok a \<Longrightarrow> ok b \<Longrightarrow> val (mul a b) = val a * val b mod 2 ^ N"
    and mul32_val: "ok a \<Longrightarrow> ok (mul32 a y)" "ok a \<Longrightarrow> val (mul32 a y) = val a * unat y mod 2 ^ N"
    and quot_val: "ok a \<Longrightarrow> ok b \<Longrightarrow> val b \<noteq> 0 \<Longrightarrow> \<exists>q. quot a b = Inr q \<and> ok q \<and> val q = val a div val b"
begin

lemma unat_1_64: "unat (1 :: u64) = 1"
  by simp

text \<open>
  \<open>2 ^ N / (t + 1)\<close> does not fit when \<open>t\<close> is zero and its numerator never does; computing it as
  the quotient of the complement plus one is exact.
\<close>

lemma reciprocal:
  assumes t: "ok t" "0 < val t" "val t < 2 ^ N - 1"
  shows "\<exists>q. quot (inv_bits t) (add t (of64 1)) = Inr q \<and> ok (add q (of64 1)) \<and>
    val (add q (of64 1)) = 2 ^ N div (val t + 1)"
proof -
  let ?d = "add t (of64 1)" and ?m = "(2 :: nat) ^ N"
  have d: "ok ?d" "val ?d = val t + 1"
    using add_val [OF t(1) of64_val(1)] t(3) by (simp_all add: of64_val unat_1_64)
  obtain q where q: "quot (inv_bits t) ?d = Inr q" "ok q" "val q = (?m - 1 - val t) div (val t + 1)"
    using quot_val [of "inv_bits t" ?d] inv_val [OF t(1)] d by auto
  have "?m = (?m - 1 - val t) + (val t + 1)" using t(3) by simp
  then have e: "?m div (val t + 1) = val q + 1"
    unfolding q(3) by (metis add_eq_0_iff_both_eq_0 div_add_self2 one_neq_zero)
  have "?m div (val t + 1) < ?m" using t(2) by (intro div_less_dividend) simp_all
  then have "val (add q (of64 1)) = ?m div (val t + 1)"
    using add_val(2) [OF q(2) of64_val(1)] e by (simp add: of64_val unat_1_64)
  then show ?thesis using q add_val(1) [OF q(2) of64_val(1)] by blast
qed

text \<open>Multiplying by a machine integer and dividing, where the product fits.\<close>

lemma rescale:
  assumes "ok t" "ok b" "val b \<noteq> 0" "val t * unat a < 2 ^ N"
  shows "\<exists>q. quot (mul32 t a) b = Inr q \<and> ok q \<and> val q = val t * unat a div val b"
  using quot_val [OF mul32_val(1) [OF assms(1), of a] assms(2,3)] mul32_val(2) [OF assms(1), of a] assms(4) by simp

text \<open>A weighted mean, where the sum fits.\<close>

lemma weighted:
  assumes "ok t" "ok u" "val t * unat a + val u < 2 ^ N" "ok b" "val b \<noteq> 0"
  shows "\<exists>q. quot (add (mul32 t a) u) b = Inr q \<and> ok q \<and> val q = (val t * unat a + val u) div val b"
proof -
  have m: "ok (mul32 t a)" "val (mul32 t a) = val t * unat a" using mul32_val [OF assms(1), of a] assms(3) by simp_all
  have "ok (add (mul32 t a) u)" "val (add (mul32 t a) u) = val t * unat a + val u"
    using add_val [OF m(1) assms(2)] m(2) assms(3) by simp_all
  then show ?thesis using quot_val assms(4,5) by metis
qed

end

lemma bu_not_val:
  assumes "wf_u256 a"
  shows "wf_u256 (bu_not a) \<and> limbs_val (bu_not a) = 2 ^ 256 - 1 - limbs_val a"
proof -
  have "modulus (length a) = 2 ^ 256" using assms modulus_WIDTH by (simp add: wf_u256_def)
  then show ?thesis using limbs_val_NOT [of a] assms by (simp add: bu_not_def wf_u256_def)
qed

lemma bu_add_wf:
  assumes "wf_u256 a" "wf_u256 b"
  shows "wf_u256 (bu_add a b) \<and> limbs_val (bu_add a b) = (limbs_val a + limbs_val b) mod 2 ^ 256"
proof -
  have "length a = length b" "length b = WIDTH" using assms by (simp_all add: wf_u256_def)
  then show ?thesis
    using bu_add_val [of a b] length_bu_add [of a b] by (simp only: modulus_WIDTH [symmetric] wf_u256_def)
qed

lemma bu_mul_wf:
  assumes "wf_u256 a" "wf_u256 b"
  shows "wf_u256 (bu_mul a b) \<and> limbs_val (bu_mul a b) = limbs_val a * limbs_val b mod 2 ^ 256"
  using wf_bu_mul [OF assms] bu_mul_val [OF assms] by (simp only: modulus_WIDTH)

lemma bu_mul32_wf:
  assumes "wf_u256 a"
  shows "wf_u256 (bu_mul32 a x) \<and> limbs_val (bu_mul32 a x) = limbs_val a * unat x mod 2 ^ 256"
proof -
  have "length a = WIDTH" using assms by (simp add: wf_u256_def)
  then show ?thesis using bu_mul32_val [of a x] length_bu_mul32 [of a x] by (simp only: modulus_WIDTH wf_u256_def simp_thms)
qed

interpretation u256: wide_uint limbs_val wf_u256 256 bu_of_u64 bu_not bu_add bu_mul bu_mul32 bu_div
  using bu_not_val bu_add_wf bu_mul_wf bu_mul32_wf bu_div_val u256_val_bound by unfold_locales simp_all

lemma CompareTo_gt: "wf_u256 a \<Longrightarrow> wf_u256 b \<Longrightarrow> CompareTo a b > 0 \<longleftrightarrow> limbs_val a > limbs_val b"
  by (simp add: CompareTo_val wf_u256_def)

text \<open>What a compact target stands for, and when it is the target of a block at all.\<close>

lemma compact_value_small: "compact_value n < 2 ^ 256 \<Longrightarrow> compact_value n < 2 ^ 256 - 1"
proof (cases "compact_exponent n \<le> 3")
  case True
  have "compact_value n \<le> compact_mantissa n" using True by (simp add: compact_value_def)
  also have "\<dots> < 2 ^ 23" by (simp add: compact_mantissa_def)
  finally show ?thesis by simp
next
  case False
  assume "compact_value n < 2 ^ 256"
  moreover have "even (compact_value n)" using False by (simp add: compact_value_def)
  moreover have "odd ((2 :: nat) ^ 256 - 1)" by simp
  ultimately show ?thesis by (metis Suc_pred less_antisym zero_less_numeral zero_less_power One_nat_def)
qed

end
