(* ===== verification/Block_Index.thy ===== *)
theory Block_Index
  imports Block Wide_Int
begin

unbundle bit_operations_syntax

text \<open>
  The block index (\<^verbatim>\<open>CBlockIndex\<close> of \<^verbatim>\<open>chain.h\<close> and \<^verbatim>\<open>chain.cpp\<close>, and
  \<^verbatim>\<open>BlockManager::AddToBlockIndex\<close> of \<^verbatim>\<open>validation.cpp\<close>): entries in a store of shared
  nodes, the skip list over them, median time past, chain work, and the invariant that adding
  headers keeps.  The locale \<open>block_tree\<close> is the interface for the users of the index.
\<close>


section \<open>Block index entries\<close>

text \<open>
  The entries live in a store that maps pointers to entries; \<^verbatim>\<open>nullptr\<close> is \<open>None\<close>.  Entries
  share their ancestors, and a comparison of pointers is a comparison of addresses.
\<close>

type_synonym ptr = nat

record CBlockIndex =
  phashBlock :: uint256
  pprev :: "ptr option"
  pskip :: "ptr option"
  nHeight :: int
  nFile :: u32
  nDataPos :: u32
  nUndoPos :: u32
  nChainWork :: u256
  nTx :: u32
  nChainTx :: u32
  nStatus :: u32
  blk_nVersion :: u32
  hashMerkleRoot :: uint256
  nTime :: u32
  nBits :: u32
  nNonce :: u32
  nNewNonce :: u64
  aHeight :: u32
  nSequenceId :: u32
  nTimeMax :: u32

type_synonym store = "ptr \<Rightarrow> CBlockIndex"

definition GetBlockTime :: "CBlockIndex \<Rightarrow> int" where
  "GetBlockTime b = int (unat (nTime b))"

definition GetBlockTimeMax :: "CBlockIndex \<Rightarrow> int" where
  "GetBlockTimeMax b = int (unat (nTimeMax b))"

text \<open>The constructor from a header; \<^verbatim>\<open>phashBlock\<close> is set by whoever stores the entry.\<close>

definition CBlockIndex_of :: "'a CBlockHeader_scheme \<Rightarrow> CBlockIndex" where
  "CBlockIndex_of block = \<lparr>phashBlock = uint256_null, pprev = None, pskip = None, nHeight = 0, nFile = 0, nDataPos = 0,
     nUndoPos = 0, nChainWork = bu_zero, nTx = 0, nChainTx = 0, nStatus = 0, blk_nVersion = hd_nVersion block,
     hashMerkleRoot = hd_hashMerkleRoot block, nTime = hd_nTime block, nBits = hd_nBits block, nNonce = hd_nNonce block,
     nNewNonce = (if hd_nVersion block = 0x05 then hd_nNewNonce block else 0),
     aHeight = (if hd_nVersion block = 0x05 then hd_aHeight block else 0), nSequenceId = 0, nTimeMax = 0\<rparr>"

definition index_GetBlockHeader :: "store \<Rightarrow> CBlockIndex \<Rightarrow> CBlockHeader" where
  "index_GetBlockHeader h b =
     CBlockHeader_null\<lparr>hd_nVersion := blk_nVersion b,
       hd_hashPrevBlock := (case pprev b of None \<Rightarrow> uint256_null | Some q \<Rightarrow> phashBlock (h q)),
       hd_hashMerkleRoot := hashMerkleRoot b, hd_nTime := nTime b, hd_nBits := nBits b, hd_nNonce := nNonce b,
       hd_nNewNonce := (if blk_nVersion b = 0x05 then nNewNonce b else 0),
       hd_aHeight := (if blk_nVersion b = 0x05 then aHeight b else 0)\<rparr>"

abbreviation (input) BLOCK_VALID_TREE :: u32 where "BLOCK_VALID_TREE \<equiv> 2"
abbreviation (input) BLOCK_VALID_MASK :: u32 where "BLOCK_VALID_MASK \<equiv> 1 OR 2 OR 3 OR 4 OR 5"
abbreviation (input) BLOCK_FAILED_MASK :: u32 where "BLOCK_FAILED_MASK \<equiv> 32 OR 64"

text \<open>\<open>Abort\<close> is the assertion on the level failing.\<close>

definition IsValid :: "u32 \<Rightarrow> CBlockIndex \<Rightarrow> bool outcome" where
  "IsValid nUpTo b =
     (if nUpTo AND NOT BLOCK_VALID_MASK \<noteq> 0 then Abort
      else if nStatus b AND BLOCK_FAILED_MASK \<noteq> 0 then Ok False
      else Ok (nStatus b AND BLOCK_VALID_MASK \<ge> nUpTo))"

definition RaiseValidity :: "u32 \<Rightarrow> CBlockIndex \<Rightarrow> (bool \<times> CBlockIndex) outcome" where
  "RaiseValidity nUpTo b =
     (if nUpTo AND NOT BLOCK_VALID_MASK \<noteq> 0 then Abort
      else if nStatus b AND BLOCK_FAILED_MASK \<noteq> 0 then Ok (False, b)
      else if nStatus b AND BLOCK_VALID_MASK < nUpTo
      then Ok (True, b\<lparr>nStatus := (nStatus b AND NOT BLOCK_VALID_MASK) OR nUpTo\<rparr>)
      else Ok (False, b))"

abbreviation (input) nMedianTimeSpan :: nat where "nMedianTimeSpan \<equiv> 11"

text \<open>The times of a block and its predecessors, at most \<open>n\<close> of them, the latest first.\<close>

primrec past_times :: "store \<Rightarrow> nat \<Rightarrow> ptr option \<Rightarrow> int list" where
  "past_times h 0 pindex = []"
| "past_times h (Suc n) pindex =
     (case pindex of None \<Rightarrow> [] | Some p \<Rightarrow> GetBlockTime (h p) # past_times h n (pprev (h p)))"

definition GetMedianTimePast :: "store \<Rightarrow> ptr \<Rightarrow> int" where
  "GetMedianTimePast h p =
     (let pmedian = sort (past_times h nMedianTimeSpan (Some p)) in pmedian ! (length pmedian div 2))"


section \<open>The skip list\<close>

definition InvertLowestOne :: "int \<Rightarrow> int" where "InvertLowestOne n = n AND (n - 1)"

definition GetSkipHeight :: "int \<Rightarrow> int" where
  "GetSkipHeight height =
     (if height < 2 then 0
      else if height AND 1 \<noteq> 0 then InvertLowestOne (InvertLowestOne (height - 1)) + 1
      else InvertLowestOne height)"

lemma InvertLowestOne_bounds: "0 < n \<Longrightarrow> 0 \<le> InvertLowestOne n \<and> InvertLowestOne n < n"
  using AND_upper2 [of "n - 1" n] by (simp add: InvertLowestOne_def)

lemma GetSkipHeight_bounds: "0 \<le> GetSkipHeight height" "0 < height \<Longrightarrow> GetSkipHeight height < height"
proof -
  have i: "0 \<le> InvertLowestOne k \<and> InvertLowestOne k \<le> k" if "0 \<le> k" for k
    using that InvertLowestOne_bounds [of k] by (cases "k = 0") (auto simp: InvertLowestOne_def)
  show "0 \<le> GetSkipHeight height" using i by (auto simp: GetSkipHeight_def)
  assume "0 < height"
  then show "GetSkipHeight height < height"
    using i [of "InvertLowestOne (height - 1)"] InvertLowestOne_bounds [of "height - 1"] InvertLowestOne_bounds [of height]
    by (auto simp: GetSkipHeight_def)
qed

function ancestor_loop :: "store \<Rightarrow> int \<Rightarrow> ptr \<Rightarrow> int \<Rightarrow> ptr outcome" where
  "ancestor_loop h height pindexWalk heightWalk =
     (if heightWalk > height \<and> height \<ge> 0
      then let heightSkip = GetSkipHeight heightWalk; heightSkipPrev = GetSkipHeight (heightWalk - 1)
           in if pskip (h pindexWalk) \<noteq> None \<and>
                 (heightSkip = height \<or>
                  heightSkip > height \<and> \<not> (heightSkipPrev < heightSkip - 2 \<and> heightSkipPrev \<ge> height))
              then ancestor_loop h height (the (pskip (h pindexWalk))) heightSkip
              else case pprev (h pindexWalk) of
                     None \<Rightarrow> Abort
                   | Some q \<Rightarrow> ancestor_loop h height q (heightWalk - 1)
      else Ok pindexWalk)"
  by pat_completeness auto
termination
proof (relation "measure (\<lambda>(_, height, _, heightWalk). nat heightWalk)", goal_cases)
  case (2 h height pindexWalk heightWalk x xa)
  then show ?case using GetSkipHeight_bounds [of heightWalk] by simp
qed auto

declare ancestor_loop.simps [simp del]

definition GetAncestor :: "store \<Rightarrow> ptr \<Rightarrow> int \<Rightarrow> ptr option outcome" where
  "GetAncestor h this height =
     (if height > nHeight (h this) \<or> height < 0 then Ok None
      else obind (ancestor_loop h height this (nHeight (h this))) (\<lambda>p. Ok (Some p)))"

definition BuildSkip :: "store \<Rightarrow> ptr \<Rightarrow> store outcome" where
  "BuildSkip h this =
     (case pprev (h this) of
        None \<Rightarrow> Ok h
      | Some q \<Rightarrow> obind (GetAncestor h q (GetSkipHeight (nHeight (h this)))) (\<lambda>s. Ok (h(this := (h this)\<lparr>pskip := s\<rparr>))))"


section \<open>Well-formed entries\<close>

text \<open>Specification: the ancestor at a height, found by following \<^verbatim>\<open>pprev\<close>.\<close>

primrec walk_back :: "store \<Rightarrow> nat \<Rightarrow> ptr \<Rightarrow> ptr" where
  "walk_back h 0 p = p"
| "walk_back h (Suc n) p = (case pprev (h p) of None \<Rightarrow> p | Some q \<Rightarrow> walk_back h n q)"

definition ancestor :: "store \<Rightarrow> ptr \<Rightarrow> int \<Rightarrow> ptr" where
  "ancestor h p k = walk_back h (nat (nHeight (h p) - k)) p"

text \<open>
  An entry is well formed when heights count the predecessors down to the genesis block and every
  skip pointer is unset or leads to the ancestor at its skip height.
\<close>

inductive chain_ok :: "store \<Rightarrow> ptr \<Rightarrow> bool" for h where
  genesis: "pprev (h p) = None \<Longrightarrow> nHeight (h p) = 0 \<Longrightarrow> pskip (h p) = None \<Longrightarrow> chain_ok h p"
| extend: "chain_ok h q \<Longrightarrow> pprev (h p) = Some q \<Longrightarrow> nHeight (h p) = nHeight (h q) + 1 \<Longrightarrow>
    pskip (h p) = None \<or> pskip (h p) = Some (ancestor h q (GetSkipHeight (nHeight (h p)))) \<Longrightarrow> chain_ok h p"

inductive_cases chain_ok_prevE: "chain_ok h p"

lemma chain_ok_height: "chain_ok h p \<Longrightarrow> 0 \<le> nHeight (h p)"
  by (induction rule: chain_ok.induct) simp_all

lemma chain_ok_pprev: "chain_ok h p \<Longrightarrow> pprev (h p) = Some q \<Longrightarrow> chain_ok h q \<and> nHeight (h q) = nHeight (h p) - 1"
  by (erule chain_ok_prevE) simp_all

lemma chain_ok_root: "chain_ok h p \<Longrightarrow> pprev (h p) = None \<longleftrightarrow> nHeight (h p) = 0"
  by (erule chain_ok_prevE) (auto dest: chain_ok_height)

lemma ancestor_self [simp]: "ancestor h p (nHeight (h p)) = p"
  by (simp add: ancestor_def)

lemma ancestor_prev:
  assumes "chain_ok h p" "pprev (h p) = Some q" "k \<le> nHeight (h q)"
  shows "ancestor h p k = ancestor h q k"
proof -
  have "nHeight (h p) = nHeight (h q) + 1" using chain_ok_pprev [OF assms(1,2)] by simp
  then have "nat (nHeight (h p) - k) = Suc (nat (nHeight (h q) - k))" using assms(3) by simp
  then show ?thesis by (simp add: ancestor_def assms(2))
qed

lemma ancestor_ok:
  assumes "chain_ok h p" "0 \<le> k" "k \<le> nHeight (h p)"
  shows "chain_ok h (ancestor h p k) \<and> nHeight (h (ancestor h p k)) = k"
  using assms
proof (induction rule: chain_ok.induct)
  case (genesis p)
  then show ?case using chain_ok.genesis [of h p] by (simp add: ancestor_def)
next
  case (extend q p)
  note p = chain_ok.extend [OF extend.hyps(1,2,3,4)]
  show ?case
  proof (cases "k = nHeight (h p)")
    case True
    then show ?thesis using p by simp
  next
    case False
    then have "k \<le> nHeight (h q)" using extend by simp
    then show ?thesis using extend ancestor_prev [OF p extend.hyps(2)] by simp
  qed
qed

lemma ancestor_ancestor:
  assumes "chain_ok h p" "0 \<le> k" "k \<le> m" "m \<le> nHeight (h p)"
  shows "ancestor h (ancestor h p m) k = ancestor h p k"
  using assms
proof (induction rule: chain_ok.induct)
  case (genesis p)
  then show ?case by (metis ancestor_self order_antisym order_trans)
next
  case (extend q p)
  note p = chain_ok.extend [OF extend.hyps(1,2,3,4)]
  show ?case
  proof (cases "m = nHeight (h p)")
    case False
    then have "m \<le> nHeight (h q)" "k \<le> nHeight (h q)" using extend by simp_all
    then show ?thesis using extend ancestor_prev [OF p extend.hyps(2)] by simp
  qed simp
qed

lemma chain_ok_pskip:
  assumes "chain_ok h p" "pskip (h p) = Some s"
  shows "s = ancestor h p (GetSkipHeight (nHeight (h p)))"
  using assms(1)
proof (cases rule: chain_ok.cases)
  case (extend q)
  have "0 \<le> nHeight (h q)" using extend(1) by (rule chain_ok_height)
  then have "GetSkipHeight (nHeight (h p)) \<le> nHeight (h q)"
    using GetSkipHeight_bounds(2) [of "nHeight (h p)"] extend(3) by simp
  then show ?thesis using extend(4) assms ancestor_prev [OF assms(1) extend(2)] by simp
qed (use assms(2) in simp)

lemma ancestor_loop_correct:
  assumes "chain_ok h p" "0 \<le> k" "k \<le> nHeight (h p)"
  shows "ancestor_loop h k p (nHeight (h p)) = Ok (ancestor h p k)"
  using assms
proof (induction "nat (nHeight (h p))" arbitrary: p rule: less_induct)
  case less
  let ?n = "nHeight (h p)"
  show ?case
  proof (cases "?n > k")
    case False
    then have "k = ?n" using less.prems by simp
    then show ?thesis by (subst ancestor_loop.simps) simp
  next
    case True
    have jump: "ancestor_loop h k s (GetSkipHeight ?n) = Ok (ancestor h p k)"
      if "pskip (h p) = Some s" "k \<le> GetSkipHeight ?n" for s
    proof -
      have s: "s = ancestor h p (GetSkipHeight ?n)" by (rule chain_ok_pskip [OF less.prems(1) that(1)])
      have lt: "GetSkipHeight ?n < ?n" "0 \<le> GetSkipHeight ?n"
        using GetSkipHeight_bounds [of ?n] True less.prems by simp_all
      then have ok: "chain_ok h s" "nHeight (h s) = GetSkipHeight ?n"
        using ancestor_ok [OF less.prems(1), of "GetSkipHeight ?n"] s by simp_all
      have "ancestor_loop h k s (nHeight (h s)) = Ok (ancestor h s k)"
        using ok lt that(2) less.prems(2) by (intro less.hyps) simp_all
      also have "ancestor h s k = ancestor h p k"
        unfolding s using lt that(2) less.prems by (intro ancestor_ancestor) simp_all
      finally show ?thesis using ok by simp
    qed
    obtain q where q: "pprev (h p) = Some q" using chain_ok_root [OF less.prems(1)] True less.prems(2) by (cases "pprev (h p)") auto
    have qok: "chain_ok h q" "nHeight (h q) = ?n - 1" using chain_ok_pprev [OF less.prems(1) q] by simp_all
    have step: "ancestor_loop h k q (?n - 1) = Ok (ancestor h p k)"
    proof -
      have "ancestor_loop h k q (nHeight (h q)) = Ok (ancestor h q k)"
        using qok True less.prems by (intro less.hyps) simp_all
      also have "ancestor h q k = ancestor h p k" using ancestor_prev [OF less.prems(1) q, of k] qok True by simp
      finally show ?thesis using qok by simp
    qed
    show ?thesis
      using True less.prems(2) q step jump by (subst ancestor_loop.simps) (auto simp: Let_def)
  qed
qed

lemma GetAncestor_correct:
  assumes "chain_ok h p"
  shows "GetAncestor h p k = Ok (if k < 0 \<or> k > nHeight (h p) then None else Some (ancestor h p k))"
  using ancestor_loop_correct [OF assms, of k] by (auto simp: GetAncestor_def)


text \<open>
  Building the skip pointer of a new entry keeps the store well formed: the entries below are
  untouched and the new one is well formed.
\<close>

lemma walk_back_cong:
  assumes "chain_ok h q" "\<And>k. 0 \<le> k \<Longrightarrow> k \<le> nHeight (h q) \<Longrightarrow> h' (ancestor h q k) = h (ancestor h q k)"
  shows "chain_ok h' q \<and> (\<forall>k. 0 \<le> k \<longrightarrow> k \<le> nHeight (h q) \<longrightarrow> ancestor h' q k = ancestor h q k)"
  using assms
proof (induction rule: chain_ok.induct)
  case (genesis p)
  have "h' p = h p" using genesis.prems [of 0] genesis.hyps by (simp add: ancestor_def)
  then show ?case using genesis.hyps chain_ok.genesis [of h' p] by (auto simp: ancestor_def)
next
  case (extend q p)
  note p = chain_ok.extend [OF extend.hyps(1,2,3,4)]
  have q0: "0 \<le> nHeight (h q)" using extend.hyps(1) by (rule chain_ok_height)
  have hp: "h' p = h p" using extend.prems [of "nHeight (h p)", unfolded ancestor_self] extend.hyps(3) q0 by simp
  have IH: "chain_ok h' q" "\<And>k. 0 \<le> k \<Longrightarrow> k \<le> nHeight (h q) \<Longrightarrow> ancestor h' q k = ancestor h q k"
  proof -
    have "h' (ancestor h q k) = h (ancestor h q k)" if "0 \<le> k" "k \<le> nHeight (h q)" for k
      using extend.prems [of k] ancestor_prev [OF p extend.hyps(2), of k] extend.hyps(3) that by simp
    from extend.IH [OF this] show "chain_ok h' q"
      "\<And>k. 0 \<le> k \<Longrightarrow> k \<le> nHeight (h q) \<Longrightarrow> ancestor h' q k = ancestor h q k" by blast+
  qed
  have hq: "h' q = h q"
    using extend.prems [of "nHeight (h q)"] ancestor_prev [OF p extend.hyps(2), of "nHeight (h q)"] extend.hyps(3) q0 by simp
  have s: "GetSkipHeight (nHeight (h p)) \<le> nHeight (h q)"
    using GetSkipHeight_bounds(2) [of "nHeight (h p)"] extend.hyps(3) q0 by simp
  have ok: "chain_ok h' p"
  proof (rule chain_ok.extend [OF IH(1)])
    show "pskip (h' p) = None \<or> pskip (h' p) = Some (ancestor h' q (GetSkipHeight (nHeight (h' p))))"
      using extend.hyps(4) IH(2) [OF GetSkipHeight_bounds(1) s] hp by simp
  qed (use hp hq extend.hyps in simp_all)
  moreover have "ancestor h' p k = ancestor h p k" if "0 \<le> k" "k \<le> nHeight (h p)" for k
  proof (cases "k = nHeight (h p)")
    case True then show ?thesis using ancestor_self [of h' p] hp by simp
  next
    case False
    then have "k \<le> nHeight (h q)" using that extend.hyps(3) by simp
    then show ?thesis
      using ancestor_prev [OF ok, of q k] ancestor_prev [OF p extend.hyps(2), of k] IH(2) hp hq extend.hyps that by simp
  qed
  ultimately show ?case by blast
qed

lemma BuildSkip_ok:
  assumes "chain_ok h q" "pprev (h p) = Some q" "nHeight (h p) = nHeight (h q) + 1" "pskip (h p) = None"
  obtains h' where "BuildSkip h p = Ok h'" "chain_ok h' p" "\<forall>r. r \<noteq> p \<longrightarrow> h' r = h r"
    "pskip (h' p) = Some (ancestor h q (GetSkipHeight (nHeight (h p))))"
proof -
  have q0: "0 \<le> nHeight (h q)" using assms(1) by (rule chain_ok_height)
  let ?k = "GetSkipHeight (nHeight (h p))"
  have k: "0 \<le> ?k" "?k \<le> nHeight (h q)"
    using GetSkipHeight_bounds [of "nHeight (h p)"] q0 assms(3) by simp_all
  define h' where "h' = h(p := (h p)\<lparr>pskip := Some (ancestor h q ?k)\<rparr>)"
  have b: "BuildSkip h p = Ok h'"
    using GetAncestor_correct [OF assms(1), of ?k] k by (simp add: BuildSkip_def assms(2) h'_def)
  have fresh: "ancestor h q i \<noteq> p" if "0 \<le> i" "i \<le> nHeight (h q)" for i
    using ancestor_ok [OF assms(1) that] that assms(3) by auto
  have q: "chain_ok h' q" "\<And>i. 0 \<le> i \<Longrightarrow> i \<le> nHeight (h q) \<Longrightarrow> ancestor h' q i = ancestor h q i"
    using walk_back_cong [OF assms(1), of h'] fresh by (auto simp: h'_def)
  have "q \<noteq> p" using assms(3) by auto
  then have "chain_ok h' p"
    using assms q(2) [OF k] by (intro chain_ok.extend [OF q(1)]) (simp_all add: h'_def)
  then show thesis using that b by (auto simp: h'_def)
qed


section \<open>Median time past\<close>

text \<open>The number of blocks that the median looks at.\<close>

lemma length_past_times: "chain_ok h p \<Longrightarrow> length (past_times h n (Some p)) = min n (nat (nHeight (h p)) + 1)"
proof (induction n arbitrary: p)
  case 0
  then show ?case by simp
next
  case (Suc n)
  show ?case
  proof (cases "pprev (h p)")
    case None
    then have "nHeight (h p) = 0" using chain_ok_root [OF Suc.prems] by simp
    then show ?thesis using None by (cases n) simp_all
  next
    case (Some q)
    have "chain_ok h q" "nHeight (h q) = nHeight (h p) - 1" using chain_ok_pprev [OF Suc.prems Some] by simp_all
    moreover have "0 < nHeight (h p)"
      using chain_ok_root [OF Suc.prems] chain_ok_height [OF Suc.prems] Some by auto
    ultimately show ?thesis using Some Suc.IH by (simp add: nat_diff_distrib)
  qed
qed

lemma past_times_Suc:
  "past_times h (Suc n) pindex = past_times h n pindex \<or>
   (\<exists>x. past_times h (Suc n) pindex = past_times h n pindex @ [x])"
proof (induction n arbitrary: pindex)
  case 0
  then show ?case by (cases pindex) auto
next
  case (Suc n)
  show ?case
  proof (cases pindex)
    case (Some p)
    then show ?thesis using Suc.IH [of "pprev (h p)"] by simp
  qed simp
qed

text \<open>How many elements of a list are at least \<open>m\<close>, and what that says of the sorted list.\<close>

definition at_least :: "int \<Rightarrow> int list \<Rightarrow> nat" where
  "at_least m xs = length (filter (\<lambda>x. m \<le> x) xs)"

lemma at_least_sort [simp]: "at_least m (sort xs) = at_least m xs"
  by (simp add: at_least_def filter_sort)

lemma sorted_nth_at_least:
  assumes "sorted xs" "i < length xs"
  shows "m \<le> xs ! i \<longleftrightarrow> length xs - i \<le> at_least m xs"
proof
  assume "m \<le> xs ! i"
  moreover have "xs ! i \<le> xs ! (i + j)" if "j < length xs - i" for j
    using assms that by (intro sorted_nth_mono) simp_all
  ultimately have "\<forall>x \<in> set (drop i xs). m \<le> x" by (fastforce simp: in_set_conv_nth)
  then have "at_least m (drop i xs) = length xs - i" by (simp add: at_least_def filter_id_conv)
  moreover have "at_least m xs = at_least m (take i xs) + at_least m (drop i xs)"
    by (metis append_take_drop_id at_least_def filter_append length_append)
  ultimately show "length xs - i \<le> at_least m xs" by simp
next
  assume l: "length xs - i \<le> at_least m xs"
  show "m \<le> xs ! i"
  proof (rule ccontr)
    assume "\<not> m \<le> xs ! i"
    moreover have "xs ! j \<le> xs ! i" if "j < Suc i" for j
      using assms that by (intro sorted_nth_mono) simp_all
    ultimately have "\<forall>x \<in> set (take (Suc i) xs). \<not> m \<le> x" by (fastforce simp: in_set_conv_nth)
    then have "at_least m (take (Suc i) xs) = 0" by (simp add: at_least_def filter_empty_conv)
    moreover have "at_least m xs = at_least m (take (Suc i) xs) + at_least m (drop (Suc i) xs)"
      by (metis append_take_drop_id at_least_def filter_append length_append)
    moreover have "at_least m (drop (Suc i) xs) \<le> length xs - Suc i"
      using length_filter_le [of "\<lambda>x. m \<le> x" "drop (Suc i) xs"] by (simp add: at_least_def)
    ultimately show False using l assms(2) by simp
  qed
qed

lemma median_ge_iff:
  "xs \<noteq> [] \<Longrightarrow> m \<le> sort xs ! (length xs div 2) \<longleftrightarrow> length xs - length xs div 2 \<le> at_least m xs"
  using sorted_nth_at_least [of "sort xs" "length xs div 2" m] by simp

lemma GetMedianTimePast_mono:
  assumes "pprev (h p) = Some q" "GetBlockTime (h p) > GetMedianTimePast h q"
  shows "GetMedianTimePast h q \<le> GetMedianTimePast h p"
proof -
  define m where "m = GetMedianTimePast h q"
  define old where "old = past_times h 11 (Some q)"
  define new where "new = past_times h 11 (Some p)"
  have ne: "old \<noteq> []" "new \<noteq> []" by (simp_all add: old_def new_def eval_nat_numeral)
  have "new = GetBlockTime (h p) # past_times h 10 (Some q)" by (simp add: new_def assms(1) eval_nat_numeral)
  moreover have "old = past_times h 10 (Some q) \<or> (\<exists>x. old = past_times h 10 (Some q) @ [x])"
    using past_times_Suc [of h 10 "Some q"] by (simp add: old_def)
  moreover have "at_least m (GetBlockTime (h p) # xs) = Suc (at_least m xs)" for xs
    using assms(2) by (simp add: m_def at_least_def)
  ultimately consider "length new = Suc (length old)" "at_least m new = Suc (at_least m old)"
    | "length new = length old" "at_least m old \<le> at_least m new"
    by (auto simp: at_least_def)
  moreover have "length old - length old div 2 \<le> at_least m old"
    using median_ge_iff [OF ne(1), of m] by (simp add: m_def GetMedianTimePast_def old_def Let_def)
  ultimately have "length new - length new div 2 \<le> at_least m new" by cases auto
  then show ?thesis using median_ge_iff [OF ne(2), of m] by (simp add: m_def GetMedianTimePast_def new_def Let_def)
qed

section \<open>The work of a block\<close>

definition GetBlockProof :: "CBlockIndex \<Rightarrow> uint_error + u256" where
  "GetBlockProof block =
     (let (bnTarget, fNegative, fOverflow) = SetCompact (nBits block)
      in if fNegative \<or> fOverflow \<or> EqualTo bnTarget 0 then Inr (bu_of_u64 0)
         else case bu_div (bu_not bnTarget) (bu_add bnTarget (bu_of_u64 1)) of
                Inl e \<Rightarrow> Inl e
              | Inr q \<Rightarrow> Inr (bu_add q (bu_of_u64 1)))"

text \<open>Specification: the expected number of hashes, by the documented reading of \<^verbatim>\<open>nBits\<close>.\<close>

definition target_valid :: "u32 \<Rightarrow> bool" where
  "target_valid bits \<longleftrightarrow> \<not> compact_sign bits \<and> 0 < compact_value bits \<and> compact_value bits < 2 ^ 256"

definition work :: "u32 \<Rightarrow> nat" where
  "work bits = (if target_valid bits then 2 ^ 256 div (compact_value bits + 1) else 0)"

lemma target_valid_SetCompact:
  "SetCompact n = (t, fNegative, fOverflow) \<Longrightarrow>
    wf_u256 t \<and> (\<not> fNegative \<and> \<not> fOverflow \<and> limbs_val t \<noteq> 0 \<longleftrightarrow> target_valid n) \<and>
    (target_valid n \<longrightarrow> limbs_val t = compact_value n)"
proof -
  assume e: "SetCompact n = (t, fNegative, fOverflow)"
  have "limbs_val t = compact_value n mod 2 ^ 256" "wf_u256 t" "fNegative \<longleftrightarrow> compact_sign n \<and> compact_value n \<noteq> 0"
    "fOverflow \<longleftrightarrow> 2 ^ 256 \<le> compact_value n"
    using SetCompact_correct [of n] unfolding e by simp_all
  moreover have "compact_value n mod 2 ^ 256 = compact_value n" if "compact_value n < 2 ^ 256" using that by (rule mod_less)
  ultimately show ?thesis unfolding target_valid_def by (auto simp del: mod_less)
qed

lemma GetBlockProof_work: "\<exists>w. GetBlockProof b = Inr w \<and> wf_u256 w \<and> limbs_val w = work (nBits b)"
proof -
  obtain t ng ov where e: "SetCompact (nBits b) = (t, ng, ov)" by (cases "SetCompact (nBits b)")
  note t = target_valid_SetCompact [OF e]
  have eq: "EqualTo t 0 \<longleftrightarrow> limbs_val t = 0" using EqualTo_val [of t 0] t by simp
  show ?thesis
  proof (cases "target_valid (nBits b)")
    case False
    then have "GetBlockProof b = Inr (bu_of_u64 0)" using t by (auto simp: GetBlockProof_def e eq)
    then show ?thesis using False by (simp add: work_def)
  next
    case True
    then have v: "limbs_val t = compact_value (nBits b)" using t by simp
    have "0 < limbs_val t" "limbs_val t < 2 ^ 256 - 1"
      using True compact_value_small [of "nBits b"] unfolding v target_valid_def by simp_all
    from u256.reciprocal [OF _ this] t
    obtain q where "bu_div (bu_not t) (bu_add t (bu_of_u64 1)) = Inr q" "wf_u256 (bu_add q (bu_of_u64 1))"
      "limbs_val (bu_add q (bu_of_u64 1)) = 2 ^ 256 div (limbs_val t + 1)" by blast
    then show ?thesis using True t by (auto simp: GetBlockProof_def e eq work_def v)
  qed
qed


section \<open>Adding a header to the index\<close>

record BlockManager =
  bm_store :: store
  bm_fresh :: ptr
  m_block_index :: "uint256 \<rightharpoonup> ptr"
  pindexBestHeader :: "ptr option"
  setDirtyBlockIndex :: "ptr list"
  m_prev_block_index :: "(uint256 \<times> ptr) list"

definition bu_less :: "u256 \<Rightarrow> u256 \<Rightarrow> bool" where "bu_less a b \<longleftrightarrow> CompareTo a b < 0"

text \<open>
  The new entry before its skip pointer: the predecessor is looked up after the entry itself went
  into the map.
\<close>

definition new_entry :: "BlockManager \<Rightarrow> uint256 \<Rightarrow> 'a CBlockHeader_scheme \<Rightarrow> CBlockIndex" where
  "new_entry bm hash block =
     (let pindexNew = (CBlockIndex_of block)\<lparr>nSequenceId := 0, phashBlock := hash\<rparr>
      in case ((m_block_index bm)(hash \<mapsto> bm_fresh bm)) (hd_hashPrevBlock block) of
           None \<Rightarrow> pindexNew
         | Some q \<Rightarrow> pindexNew\<lparr>pprev := Some q,
             nHeight := nHeight (((bm_store bm)(bm_fresh bm := pindexNew)) q) + 1\<rparr>)"

text \<open>The totals that an entry keeps over its ancestors; a division by zero would be an exception.\<close>

definition set_totals :: "store \<Rightarrow> ptr \<Rightarrow> store outcome" where
  "set_totals h p =
     (let h = h(p := (h p)\<lparr>nTimeMax := (case pprev (h p) of None \<Rightarrow> nTime (h p) | Some q \<Rightarrow> max (nTimeMax (h q)) (nTime (h p)))\<rparr>)
      in case GetBlockProof (h p) of
           Inl _ \<Rightarrow> Throw
         | Inr w \<Rightarrow> Ok (h(p := (h p)\<lparr>nChainWork :=
             bu_add (case pprev (h p) of None \<Rightarrow> bu_of_u64 0 | Some q \<Rightarrow> nChainWork (h q)) w\<rparr>)))"

definition raise_new :: "u32 \<Rightarrow> CBlockIndex \<Rightarrow> CBlockIndex outcome" where
  "raise_new status b =
     (if status AND BLOCK_VALID_MASK \<noteq> 0 then obind (RaiseValidity status b) (\<lambda>(_, b). Ok b)
      else obind (RaiseValidity BLOCK_VALID_TREE b) (\<lambda>(_, b). Ok (b\<lparr>nStatus := nStatus b OR status\<rparr>)))"

definition AddToBlockIndex ::
  "('a CBlockHeader_scheme \<Rightarrow> uint256) \<Rightarrow> 'a CBlockHeader_scheme \<Rightarrow> u32 \<Rightarrow> BlockManager \<Rightarrow> (ptr \<times> BlockManager) outcome" where
  "AddToBlockIndex GetHash block status bm =
     (if status AND BLOCK_FAILED_MASK \<noteq> 0 then Abort
      else let hash = GetHash block
      in case m_block_index bm hash of
           Some p \<Rightarrow> Ok (p, bm)
         | None \<Rightarrow>
             let p = bm_fresh bm; h = (bm_store bm)(p := new_entry bm hash block)
             in obind (BuildSkip h p) (\<lambda>h.
                obind (set_totals h p) (\<lambda>h.
                obind (raise_new status (h p)) (\<lambda>b.
                  let h = h(p := b)
                  in Ok (p, bm\<lparr>bm_store := h, bm_fresh := p + 1, m_block_index := (m_block_index bm)(hash \<mapsto> p),
                       pindexBestHeader :=
                         (if status AND BLOCK_VALID_MASK \<noteq> 0 \<and>
                             (case pindexBestHeader bm of None \<Rightarrow> True | Some best \<Rightarrow> bu_less (nChainWork (h best)) (nChainWork b))
                          then Some p else pindexBestHeader bm),
                       setDirtyBlockIndex := List.insert p (setDirtyBlockIndex bm),
                       m_prev_block_index := m_prev_block_index bm @
                         (case pprev b of None \<Rightarrow> [] | Some q \<Rightarrow> [(phashBlock (h q), p)])\<rparr>)))))"
text \<open>Specification of the totals: over all blocks from the genesis block up to the entry.\<close>

definition chain_work :: "store \<Rightarrow> ptr \<Rightarrow> nat" where
  "chain_work h p = (\<Sum>k = 0..nHeight (h p). work (nBits (h (ancestor h p k))))"

definition chain_time :: "store \<Rightarrow> ptr \<Rightarrow> u32" where
  "chain_time h p = Max ((\<lambda>k. nTime (h (ancestor h p k))) ` {0..nHeight (h p)})"

lemma chain_totals_genesis:
  assumes "nHeight (h p) = 0"
  shows "chain_work h p = work (nBits (h p)) \<and> chain_time h p = nTime (h p)"
  using ancestor_self [of h p] assms by (simp add: chain_work_def chain_time_def)

lemma chain_totals_extend:
  assumes "chain_ok h p" "pprev (h p) = Some q"
  shows "chain_work h p = chain_work h q + work (nBits (h p)) \<and> chain_time h p = max (chain_time h q) (nTime (h p))"
proof -
  have q: "chain_ok h q" "nHeight (h q) = nHeight (h p) - 1" using chain_ok_pprev [OF assms] by simp_all
  have q0: "0 \<le> nHeight (h q)" using q(1) by (rule chain_ok_height)
  have set: "{0..nHeight (h p)} = insert (nHeight (h p)) {0..nHeight (h q)}" using q(2) q0 by auto
  have a: "ancestor h p k = ancestor h q k" if "k \<in> {0..nHeight (h q)}" for k
    using ancestor_prev [OF assms, of k] that by simp
  have "chain_work h p = work (nBits (h p)) + (\<Sum>k = 0..nHeight (h q). work (nBits (h (ancestor h p k))))"
    unfolding chain_work_def set using q(2) by (subst sum.insert) simp_all
  moreover have "(\<Sum>k = 0..nHeight (h q). work (nBits (h (ancestor h p k)))) = chain_work h q"
    unfolding chain_work_def by (rule sum.cong) (simp_all add: a)
  moreover have "(\<lambda>k. nTime (h (ancestor h p k))) ` {0..nHeight (h q)} = (\<lambda>k. nTime (h (ancestor h q k))) ` {0..nHeight (h q)}"
    by (rule image_cong) (simp_all add: a)
  then have "chain_time h p = max (nTime (h p)) (chain_time h q)"
    unfolding chain_time_def set using q0 by (simp add: Max_insert)
  ultimately show ?thesis by (simp add: max.commute)
qed

text \<open>Links that agree give the same ancestors and the same well-formed entries.\<close>

lemma same_links:
  assumes "\<And>r. pprev (h' r) = pprev (h r) \<and> pskip (h' r) = pskip (h r) \<and> nHeight (h' r) = nHeight (h r)"
  shows "ancestor h' = ancestor h" "chain_ok h' p \<longleftrightarrow> chain_ok h p"
proof -
  have "walk_back h' n p = walk_back h n p" for n p
    by (induction n arbitrary: p) (simp_all add: assms split: option.splits)
  then show a: "ancestor h' = ancestor h" by (intro ext) (simp add: ancestor_def assms)
  have transfer: "chain_ok b p" if ok: "chain_ok a p" and an: "ancestor b = ancestor a"
    and up: "\<And>r. pprev (b r) = pprev (a r)" and sk: "\<And>r. pskip (b r) = pskip (a r)" and ht: "\<And>r. nHeight (b r) = nHeight (a r)" for a b p
    using ok
  proof (induction rule: chain_ok.induct)
    case (genesis p)
    show ?case by (rule chain_ok.genesis) (simp_all only: up sk ht genesis)
  next
    case (extend q p)
    show ?case using extend.hyps(2-4) by (intro chain_ok.extend [OF extend.IH]) (simp_all only: up sk ht an)
  qed
  show "chain_ok h' p \<longleftrightarrow> chain_ok h p"
  proof
    assume "chain_ok h' p"
    then show "chain_ok h p" by (rule transfer) (simp_all only: assms a)
  next
    assume "chain_ok h p"
    then show "chain_ok h' p" by (rule transfer) (simp_all only: assms a)
  qed
qed

text \<open>
  The invariant of the index.  Pointers are handed out in increasing order and an entry only
  refers to older ones.
\<close>

definition entry_ok :: "store \<Rightarrow> ptr \<Rightarrow> bool" where
  "entry_ok h p \<longleftrightarrow> chain_ok h p \<and> (\<forall>q. pprev (h p) = Some q \<longrightarrow> q < p) \<and> wf_u256 (nChainWork (h p)) \<and>
     limbs_val (nChainWork (h p)) = chain_work h p mod 2 ^ 256 \<and> nTimeMax (h p) = chain_time h p"

definition index_ok :: "BlockManager \<Rightarrow> bool" where
  "index_ok bm \<longleftrightarrow>
     (\<forall>p < bm_fresh bm. entry_ok (bm_store bm) p \<and> m_block_index bm (phashBlock (bm_store bm p)) = Some p) \<and>
     (\<forall>hash p. m_block_index bm hash = Some p \<longrightarrow> p < bm_fresh bm \<and> phashBlock (bm_store bm p) = hash)"

lemma ancestor_old:
  assumes "\<And>r. r < n \<Longrightarrow> entry_ok h r" "p < n" "0 \<le> k" "k \<le> nHeight (h p)"
  shows "ancestor h p k < n"
  using assms(2-)
proof (induction p rule: less_induct)
  case (less p)
  have p: "chain_ok h p" "\<And>q. pprev (h p) = Some q \<Longrightarrow> q < p" using assms(1) [OF less.prems(1)] by (simp_all add: entry_ok_def)
  show ?case
  proof (cases "k = nHeight (h p)")
    case False
    then obtain q where q: "pprev (h p) = Some q"
      using chain_ok_root [OF p(1)] less.prems by (cases "pprev (h p)") auto
    have "k \<le> nHeight (h q)" using chain_ok_pprev [OF p(1) q] False less.prems by simp
    then show ?thesis using less.IH [of q] p(2) [OF q] less.prems ancestor_prev [OF p(1) q] by simp
  qed (use less.prems in simp)
qed

lemma entry_ok_extend_store:
  assumes "\<And>r. r < n \<Longrightarrow> entry_ok h r" "\<And>r. r < n \<Longrightarrow> h' r = h r" "p < n"
  shows "entry_ok h' p" "chain_work h' p = chain_work h p" "chain_time h' p = chain_time h p"
proof -
  have p: "entry_ok h p" "h' p = h p" using assms by simp_all
  then have c: "chain_ok h p" by (simp add: entry_ok_def)
  have a: "chain_ok h' p" "\<And>k. 0 \<le> k \<Longrightarrow> k \<le> nHeight (h p) \<Longrightarrow> ancestor h' p k = ancestor h p k"
    using walk_back_cong [OF c, of h'] ancestor_old [OF assms(1) assms(3)] assms(2) by auto
  have s: "h' (ancestor h' p k) = h (ancestor h p k)" if "k \<in> {0..nHeight (h p)}" for k
    using a(2) ancestor_old [OF assms(1) assms(3), of k] assms(2) that by simp
  show w: "chain_work h' p = chain_work h p" unfolding chain_work_def p(2) by (rule sum.cong) (simp_all add: s)
  have "(\<lambda>k. nTime (h' (ancestor h' p k))) ` {0..nHeight (h p)} = (\<lambda>k. nTime (h (ancestor h p k))) ` {0..nHeight (h p)}"
    by (rule image_cong) (simp_all add: s)
  then show t: "chain_time h' p = chain_time h p" unfolding chain_time_def p(2) by simp
  show "entry_ok h' p" using p a(1) w t by (simp add: entry_ok_def)
qed

lemma set_totals_ok:
  assumes "chain_ok h p" "\<And>q. pprev (h p) = Some q \<Longrightarrow> q < p \<and> entry_ok h q"
  shows "\<exists>h'. set_totals h p = Ok h' \<and> entry_ok h' p \<and> (\<forall>r. r \<noteq> p \<longrightarrow> h' r = h r) \<and>
    (\<exists>t w. h' p = (h p)\<lparr>nTimeMax := t, nChainWork := w\<rparr>)"
proof -
  define t where "t = (case pprev (h p) of None \<Rightarrow> nTime (h p) | Some q \<Rightarrow> max (nTimeMax (h q)) (nTime (h p)))"
  define h1 where "h1 = h(p := (h p)\<lparr>nTimeMax := t\<rparr>)"
  obtain w where w: "GetBlockProof (h1 p) = Inr w" "wf_u256 w" "limbs_val w = work (nBits (h p))"
    using GetBlockProof_work [of "h1 p"] by (auto simp: h1_def)
  define cw where "cw = bu_add (case pprev (h p) of None \<Rightarrow> bu_of_u64 0 | Some q \<Rightarrow> nChainWork (h q)) w"
  define h2 where "h2 = h(p := (h p)\<lparr>nTimeMax := t, nChainWork := cw\<rparr>)"
  have "q \<noteq> p" if "pprev (h p) = Some q" for q using assms(2) [OF that] by auto
  then have s: "set_totals h p = Ok h2"
    using w(1) unfolding set_totals_def Let_def t_def [symmetric] h1_def [symmetric]
    by (auto simp: h1_def h2_def cw_def split: option.splits)
  have links: "pprev (h2 r) = pprev (h r) \<and> pskip (h2 r) = pskip (h r) \<and> nHeight (h2 r) = nHeight (h r)" for r
    by (simp add: h2_def)
  have c: "chain_ok h2 p" "ancestor h2 = ancestor h" using same_links [of h2 h, OF links] assms(1) by simp_all
  have "nBits (h2 r) = nBits (h r)" "nTime (h2 r) = nTime (h r)" for r by (simp_all add: h2_def)
  then have tot: "chain_work h2 = chain_work h" "chain_time h2 = chain_time h"
    by (simp_all add: fun_eq_iff chain_work_def chain_time_def c(2) links)
  have "wf_u256 cw \<and> limbs_val cw = chain_work h p mod 2 ^ 256 \<and> t = chain_time h p"
  proof (cases "pprev (h p)")
    case None
    then have "nHeight (h p) = 0" using chain_ok_root [OF assms(1)] by simp
    then show ?thesis
      using chain_totals_genesis [of h p] None bu_add_wf [of "bu_of_u64 0" w] w by (simp add: cw_def t_def)
  next
    case (Some q)
    have q: "wf_u256 (nChainWork (h q))" "limbs_val (nChainWork (h q)) = chain_work h q mod 2 ^ 256" "nTimeMax (h q) = chain_time h q"
      using assms(2) [OF Some] by (simp_all add: entry_ok_def)
    have "limbs_val cw = (chain_work h q mod 2 ^ 256 + work (nBits (h p))) mod 2 ^ 256" "wf_u256 cw"
      using bu_add_wf [OF q(1) w(2)] unfolding q(2) w(3) cw_def Some option.case by blast+
    then show ?thesis
      using chain_totals_extend [OF assms(1) Some] q(3) by (simp only: cw_def t_def Some option.case mod_add_left_eq simp_thms)
  qed
  then have "entry_ok h2 p" using c assms(2) tot by (simp add: entry_ok_def h2_def)
  then show ?thesis using s by (intro exI [of _ h2]) (auto simp: h2_def)
qed
definition status_ok :: "u32 \<Rightarrow> bool" where
  "status_ok status \<longleftrightarrow> status AND BLOCK_FAILED_MASK = 0 \<and>
     (status AND BLOCK_VALID_MASK = 0 \<or> status AND NOT BLOCK_VALID_MASK = 0)"

lemma raise_new_ok:
  assumes "status_ok status"
  shows "\<exists>s. raise_new status b = Ok (b\<lparr>nStatus := s\<rparr>)"
proof -
  have r: "\<exists>x s. RaiseValidity u b = Ok (x, b\<lparr>nStatus := s\<rparr>)" if "u AND NOT BLOCK_VALID_MASK = 0" for u
    using that unfolding RaiseValidity_def by (auto intro: exI [of _ "nStatus b"])
  have "(2 :: u32) AND NOT BLOCK_VALID_MASK = 0" by simp
  from r [OF this] r [of status] assms show ?thesis
    unfolding raise_new_def status_ok_def by (cases "status AND BLOCK_VALID_MASK = 0") auto
qed

lemma new_entry_links:
  assumes "index_ok bm" "hash \<noteq> hd_hashPrevBlock block"
  defines "e \<equiv> new_entry bm hash block" and "up \<equiv> m_block_index bm (hd_hashPrevBlock block)"
  shows "pprev e = up" "pskip e = None" "phashBlock e = hash"
    "nHeight e = (case up of None \<Rightarrow> 0 | Some q \<Rightarrow> nHeight (bm_store bm q) + 1)"
    "up = Some q \<Longrightarrow> q < bm_fresh bm"
proof -
  show q: "up = Some q \<Longrightarrow> q < bm_fresh bm" for q using assms(1) by (auto simp: index_ok_def up_def)
  show "pprev e = up" "pskip e = None" "phashBlock e = hash"
    "nHeight e = (case up of None \<Rightarrow> 0 | Some q \<Rightarrow> nHeight (bm_store bm q) + 1)"
    using assms(2) q by (auto simp: e_def new_entry_def up_def CBlockIndex_of_def Let_def split: option.splits)
qed

lemma build_new_entry:
  assumes ok: "index_ok bm" and neq: "hash \<noteq> hd_hashPrevBlock block"
  defines "p \<equiv> bm_fresh bm"
  defines "h \<equiv> (bm_store bm)(p := new_entry bm hash block)"
  shows "\<exists>h'. BuildSkip h p = Ok h' \<and> chain_ok h' p \<and> (\<forall>r. r \<noteq> p \<longrightarrow> h' r = bm_store bm r) \<and>
    (\<exists>s. h' p = (new_entry bm hash block)\<lparr>pskip := s\<rparr>)"
proof -
  note e = new_entry_links [OF ok neq]
  have hp: "h p = new_entry bm hash block" by (simp add: h_def)
  show ?thesis
  proof (cases "m_block_index bm (hd_hashPrevBlock block)")
    case None
    have "BuildSkip h p = Ok h" by (simp add: BuildSkip_def hp e None)
    moreover have "chain_ok h p" by (rule chain_ok.genesis) (simp_all add: hp e None)
    moreover have "h p = (new_entry bm hash block)\<lparr>pskip := None\<rparr>" using e(2) hp by simp
    ultimately show ?thesis by (auto simp: h_def)
  next
    case (Some q)
    have q: "q < p" using e(5) [OF Some] by (simp add: p_def)
    have old: "entry_ok (bm_store bm) r" if "r < p" for r using ok that by (simp add: index_ok_def p_def)
    have "entry_ok h q" by (rule entry_ok_extend_store(1) [OF old _ q]) (simp_all add: h_def)
    then have c: "chain_ok h q" by (simp add: entry_ok_def)
    have hq: "h q = bm_store bm q" using q by (simp add: h_def)
    obtain h' where h': "BuildSkip h p = Ok h'" "chain_ok h' p" "\<forall>r. r \<noteq> p \<longrightarrow> h' r = h r"
      by (rule BuildSkip_ok [OF c, of p]) (simp_all add: hp e Some hq)
    have "\<exists>s. h' p = (h p)\<lparr>pskip := s\<rparr>"
      using h'(1) by (cases "GetAncestor h q (GetSkipHeight (nHeight (h p)))") (auto simp: BuildSkip_def hp e Some)
    then show ?thesis using h' hp by (auto simp: h_def)
  qed
qed

lemma AddToBlockIndex_ok:
  assumes ok: "index_ok bm" and st: "status_ok status"
    and link: "m_block_index bm (hd_hashPrevBlock block) \<noteq> None \<or> GetHash block \<noteq> hd_hashPrevBlock block"
  shows "\<exists>p bm'. AddToBlockIndex GetHash block status bm = Ok (p, bm') \<and> index_ok bm' \<and>
    m_block_index bm' (GetHash block) = Some p \<and>
    (\<forall>q < bm_fresh bm. bm_store bm' q = bm_store bm q) \<and>
    (\<forall>q. bm_fresh bm \<le> q \<and> q < bm_fresh bm' \<longrightarrow> pprev (bm_store bm' q) = m_block_index bm (hd_hashPrevBlock block)) \<and>
    (\<forall>q. bm_fresh bm \<le> q \<and> q < bm_fresh bm' \<longrightarrow> nBits (bm_store bm' q) = hd_nBits block \<and> nTime (bm_store bm' q) = hd_nTime block \<and>
       blk_nVersion (bm_store bm' q) = hd_nVersion block) \<and>
    bm_fresh bm \<le> bm_fresh bm' \<and> (\<forall>hash. m_block_index bm hash \<noteq> None \<longrightarrow> m_block_index bm' hash = m_block_index bm hash)"
proof (cases "m_block_index bm (GetHash block)")
  case (Some p)
  then show ?thesis using ok st by (auto simp: AddToBlockIndex_def status_ok_def Let_def)
next
  case None
  then have neq: "GetHash block \<noteq> hd_hashPrevBlock block" using link by auto
  define p where "p = bm_fresh bm"
  define e where "e = new_entry bm (GetHash block) block"
  note links = new_entry_links [OF ok neq, folded e_def p_def]
  have old: "entry_ok (bm_store bm) r" if "r < p" for r using ok that by (simp add: index_ok_def p_def)
  obtain h1 s where h1: "BuildSkip ((bm_store bm)(p := e)) p = Ok h1" "chain_ok h1 p" "\<And>r. r \<noteq> p \<Longrightarrow> h1 r = bm_store bm r"
    "h1 p = e\<lparr>pskip := s\<rparr>"
    using build_new_entry [OF ok neq] by (auto simp: p_def e_def)
  have up: "q < p \<and> entry_ok h1 q" if "pprev (h1 p) = Some q" for q
    using that links(1,5) h1(3,4) entry_ok_extend_store(1) [where n = p and h = "bm_store bm" and h' = h1 and p = q] old by simp
  obtain h2 t w where h2: "set_totals h1 p = Ok h2" "entry_ok h2 p" "\<And>r. r \<noteq> p \<Longrightarrow> h2 r = h1 r"
    "h2 p = (h1 p)\<lparr>nTimeMax := t, nChainWork := w\<rparr>"
    using set_totals_ok [OF h1(2) up] by blast
  obtain st' where st': "raise_new status (h2 p) = Ok ((h2 p)\<lparr>nStatus := st'\<rparr>)" using raise_new_ok [OF st] by blast
  define h3 where "h3 = h2(p := (h2 p)\<lparr>nStatus := st'\<rparr>)"
  have e3: "entry_ok h3 p"
  proof -
    have l: "pprev (h3 r) = pprev (h2 r) \<and> pskip (h3 r) = pskip (h2 r) \<and> nHeight (h3 r) = nHeight (h2 r)" for r
      by (simp add: h3_def)
    have f: "nBits (h3 r) = nBits (h2 r)" "nTime (h3 r) = nTime (h2 r)" for r by (simp_all add: h3_def)
    have "chain_work h3 p = chain_work h2 p" "chain_time h3 p = chain_time h2 p"
      by (simp_all add: chain_work_def chain_time_def same_links(1) [of h3 h2, OF l] f l)
    then show ?thesis using h2(2) same_links(2) [of h3 h2 p, OF l] unfolding entry_ok_def by (simp add: h3_def)
  qed
  have o3: "h3 r = bm_store bm r" if "r < p" for r using that h1(3) h2(3) by (simp add: h3_def)
  have f3: "pprev (h3 p) = m_block_index bm (hd_hashPrevBlock block)" "phashBlock (h3 p) = GetHash block"
    using links by (simp_all add: h3_def h2(4) h1(4))
  have b3: "nBits (h3 p) = hd_nBits block" "nTime (h3 p) = hd_nTime block" "blk_nVersion (h3 p) = hd_nVersion block"
    by (simp_all add: h3_def h2(4) h1(4) e_def new_entry_def CBlockIndex_of_def Let_def split: option.splits)
  obtain bm' where bm': "AddToBlockIndex GetHash block status bm = Ok (p, bm')" "bm_store bm' = h3" "bm_fresh bm' = p + 1"
    "m_block_index bm' = (m_block_index bm)(GetHash block \<mapsto> p)"
    using st None h1(1) h2(1) st'
    by (simp add: AddToBlockIndex_def status_ok_def p_def [symmetric] e_def [symmetric] Let_def h3_def)
  have "index_ok bm'"
    unfolding index_ok_def bm'
  proof (intro conjI allI impI)
    fix r assume r: "r < p + 1"
    show "entry_ok h3 r" using e3 entry_ok_extend_store(1) [where n = p and h = "bm_store bm" and h' = h3 and p = r] old o3 r by (cases "r = p") simp_all
    show "((m_block_index bm)(GetHash block \<mapsto> p)) (phashBlock (h3 r)) = Some r"
    proof (cases "r = p")
      case False
      then have "r < p" using r by simp
      moreover from this have "m_block_index bm (phashBlock (bm_store bm r)) = Some r" using ok by (simp add: index_ok_def p_def)
      ultimately show ?thesis using o3 [of r] None by auto
    qed (simp add: f3)
  next
    fix hash r assume "((m_block_index bm)(GetHash block \<mapsto> p)) hash = Some r"
    then have "r < p + 1 \<and> phashBlock (h3 r) = hash"
      using ok f3 o3 by (cases "hash = GetHash block") (auto simp: index_ok_def p_def intro: less_SucI)
    then show "r < p + 1" "phashBlock (h3 r) = hash" by simp_all
  qed
  then show ?thesis using bm' f3 b3 o3 None by (auto simp: p_def less_Suc_eq)
qed
section \<open>Block trees\<close>

text \<open>
  What the users of the index rely on: links to the predecessor that count down to a root, and
  an ancestor function that follows them.  The lemmas about forks are proved from these laws.
\<close>

locale block_tree =
  fixes up :: "'p \<Rightarrow> 'p option" and ht :: "'p \<Rightarrow> int" and anc :: "'p \<Rightarrow> int \<Rightarrow> 'p" and wf :: "'p \<Rightarrow> bool"
  assumes ht_nonneg: "wf p \<Longrightarrow> 0 \<le> ht p"
    and up_wf: "wf p \<Longrightarrow> up p = Some q \<Longrightarrow> wf q \<and> ht q = ht p - 1"
    and up_root: "wf p \<Longrightarrow> up p = None \<longleftrightarrow> ht p = 0"
    and anc_self: "anc p (ht p) = p"
    and anc_wf: "wf p \<Longrightarrow> 0 \<le> k \<Longrightarrow> k \<le> ht p \<Longrightarrow> wf (anc p k) \<and> ht (anc p k) = k"
    and anc_up: "wf p \<Longrightarrow> up p = Some q \<Longrightarrow> k \<le> ht q \<Longrightarrow> anc p k = anc q k"
    and anc_anc: "wf p \<Longrightarrow> 0 \<le> k \<Longrightarrow> k \<le> m \<Longrightarrow> m \<le> ht p \<Longrightarrow> anc (anc p m) k = anc p k"
begin

lemma up_anc:
  assumes "wf p" "0 < k" "k \<le> ht p"
  shows "up (anc p k) = Some (anc p (k - 1))"
proof -
  have a: "wf (anc p k)" "ht (anc p k) = k" using anc_wf [of p k] assms by simp_all
  then obtain q where q: "up (anc p k) = Some q" using up_root [of "anc p k"] assms(2) by (cases "up (anc p k)") auto
  have "anc (anc p k) (ht q) = q" using anc_up [OF a(1) q, of "ht q"] anc_self by simp
  moreover have "ht q = k - 1" using up_wf [OF a(1) q] a(2) by simp
  ultimately show ?thesis using anc_anc [of p "k - 1" k] assms q by simp
qed

lemma up_root_anc: "wf p \<Longrightarrow> up (anc p 0) = None"
  using anc_wf [of p 0] ht_nonneg [of p] up_root [of "anc p 0"] by simp

text \<open>Two branches that agree at a height agree below it.\<close>

lemma anc_meet:
  assumes "wf a" "wf b" "0 \<le> j" "j \<le> ht a" "j \<le> ht b" "anc a j = anc b j" "0 \<le> i" "i \<le> j"
  shows "anc a i = anc b i"
  using anc_anc [of a i j] anc_anc [of b i j] assms by simp

end

interpretation tree: block_tree "\<lambda>p. pprev (h p)" "\<lambda>p. nHeight (h p)" "ancestor h" "chain_ok h" for h
  by unfold_locales (simp_all add: chain_ok_height chain_ok_pprev chain_ok_root ancestor_ok ancestor_prev ancestor_ancestor)
text \<open>
  The states of the index that a sequence of headers leads to, starting from an empty one.  The
  program adds a header only when it is the genesis block of the network, when its hash is in the
  index already, or when its predecessor is: \<^verbatim>\<open>LoadGenesisBlock\<close> adds the first, and
  \<^verbatim>\<open>AcceptBlockHeader\<close> looks the other two up.
\<close>

definition BlockManager_init :: "CBlockIndex \<Rightarrow> BlockManager" where
  "BlockManager_init dummy = \<lparr>bm_store = (\<lambda>_. dummy), bm_fresh = 0, m_block_index = Map.empty, pindexBestHeader = None,
     setDirtyBlockIndex = [], m_prev_block_index = []\<rparr>"

definition addable :: "('a CBlockHeader_scheme \<Rightarrow> uint256) \<Rightarrow> 'a CBlockHeader_scheme \<Rightarrow> BlockManager \<Rightarrow> 'a CBlockHeader_scheme \<Rightarrow> bool" where
  "addable GetHash genesis bm block \<longleftrightarrow> block = genesis \<or> m_block_index bm (GetHash block) \<noteq> None \<or>
     m_block_index bm (hd_hashPrevBlock block) \<noteq> None"

inductive index_reachable :: "('a CBlockHeader_scheme \<Rightarrow> uint256) \<Rightarrow> 'a CBlockHeader_scheme \<Rightarrow> BlockManager \<Rightarrow> bool" for GetHash genesis where
  init: "index_reachable GetHash genesis (BlockManager_init dummy)"
| add: "index_reachable GetHash genesis bm \<Longrightarrow> addable GetHash genesis bm block \<Longrightarrow>
    AddToBlockIndex GetHash block status bm = Ok (p, bm') \<Longrightarrow> index_reachable GetHash genesis bm'"

lemma AddToBlockIndex_status:
  "AddToBlockIndex GetHash block status bm = Ok r \<Longrightarrow> m_block_index bm (GetHash block) = None \<Longrightarrow> status_ok status"
  by (auto simp: AddToBlockIndex_def status_ok_def raise_new_def RaiseValidity_def Let_def obind_Ok split: if_splits)

lemma AddToBlockIndex_known:
  "m_block_index bm (GetHash block) = Some q \<Longrightarrow> status AND BLOCK_FAILED_MASK = 0 \<Longrightarrow> AddToBlockIndex GetHash block status bm = Ok (q, bm)"
  by (simp add: AddToBlockIndex_def)

lemma index_reachable_ok:
  assumes "index_reachable GetHash genesis bm" "GetHash genesis \<noteq> hd_hashPrevBlock genesis"
  shows "index_ok bm"
  using assms(1)
proof (induction rule: index_reachable.induct)
  case (init dummy)
  then show ?case by (simp add: index_ok_def BlockManager_init_def)
next
  case (add bm block status p bm')
  show ?case
  proof (cases "m_block_index bm (GetHash block)")
    case None
    then have "status_ok status" using AddToBlockIndex_status add.hyps(3) by blast
    then show ?thesis using AddToBlockIndex_ok [of bm status block GetHash] add None assms(2) by (auto simp: addable_def)
  next
    case (Some q)
    then show ?thesis using add by (simp add: AddToBlockIndex_def Let_def split: if_splits)
  qed
qed


section \<open>Properties\<close>


definition example_hash :: "CBlockHeader \<Rightarrow> uint256" where
  "example_hash block = (if hd_hashPrevBlock block = uint256_null then replicate 32 1 else uint256_null)"

lemma example_hash_prev: "example_hash block \<noteq> hd_hashPrevBlock block"
  by (auto simp: example_hash_def uint256_null_def dest: arg_cong [where f = hd])


text \<open>
  The skip list is exact: on a well-formed entry \<^verbatim>\<open>GetAncestor\<close> never follows a null pointer
  and returns for every height precisely the entry that following \<^verbatim>\<open>pprev\<close> reaches there, and
  null for a height outside of the chain.
\<close>

theorem GetAncestor_is_walk:
  assumes "chain_ok h p"
  shows "GetAncestor h p k = Ok (if k < 0 \<or> k > nHeight (h p) then None else Some (ancestor h p k))"
  using assms by (rule GetAncestor_correct)

definition example_store :: store where
  "example_store p = (CBlockIndex_of (example_header (of_nat p)))\<lparr>phashBlock := [of_nat p], nHeight := int p,
     pprev := (if p = 0 then None else Some (p - 1)),
     pskip := (if p = 0 then None else Some (nat (GetSkipHeight (int p))))\<rparr>"

lemma example_fields:
  "nHeight (example_store p) = int p" "pprev (example_store p) = (if p = 0 then None else Some (p - 1))"
  "pskip (example_store p) = (if p = 0 then None else Some (nat (GetSkipHeight (int p))))"
  "GetBlockTime (example_store p) = int (unat (of_nat p :: u32))"
  by (simp_all add: example_store_def GetBlockTime_def CBlockIndex_of_def example_header_def)

lemma example_ancestor: "k \<le> int p \<Longrightarrow> 0 \<le> k \<Longrightarrow> ancestor example_store p k = nat k"
proof -
  have "walk_back example_store n p = p - n" for n
    by (induction n arbitrary: p) (simp_all add: example_fields)
  then show "k \<le> int p \<Longrightarrow> 0 \<le> k \<Longrightarrow> ?thesis" by (simp add: ancestor_def example_fields nat_diff_distrib')
qed

lemma example_chain_ok: "chain_ok example_store p"
proof (induction p)
  case 0
  show ?case by (rule chain_ok.genesis) (simp_all add: example_fields)
next
  case (Suc p)
  have "GetSkipHeight (int (Suc p)) \<le> int p" using GetSkipHeight_bounds(2) [of "int (Suc p)"] by simp
  then show ?case
    using example_ancestor [of "GetSkipHeight (int (Suc p))" p] GetSkipHeight_bounds(1)
    by (intro chain_ok.extend [OF Suc.IH]) (simp_all add: example_fields del: of_nat_Suc)
qed

theorem GetAncestor_is_walk_witness:
  "GetAncestor example_store 1000 17 = Ok (Some 17) \<and> GetAncestor example_store 5 6 = Ok None"
  using GetAncestor_is_walk [OF example_chain_ok, of 1000 17] GetAncestor_is_walk [OF example_chain_ok, of 5 6]
    example_ancestor [of 17 1000] by (simp add: example_fields)

text \<open>
  The work of a block is exact: \<^verbatim>\<open>GetBlockProof\<close> never divides by zero and yields
  \<open>2 ^ 256\<close> divided by the target plus one, by the documented reading of \<^verbatim>\<open>nBits\<close>, for every
  target that is positive and in range, and zero for every other.
\<close>

theorem GetBlockProof_exact:
  "\<exists>w. GetBlockProof b = Inr w \<and> wf_u256 w \<and>
     limbs_val w = (if target_valid (nBits b) then 2 ^ 256 div (compact_value (nBits b) + 1) else 0)"
  using GetBlockProof_work [of b] by (simp only: work_def)

text \<open>
  The median time past never goes back: a block whose time is later than the median time past
  of its predecessor, as contextual header checks demand, has itself a median time past that is
  not earlier.
\<close>

theorem GetMedianTimePast_monotone:
  assumes "pprev (h p) = Some q" "GetBlockTime (h p) > GetMedianTimePast h q"
  shows "GetMedianTimePast h q \<le> GetMedianTimePast h p"
  using assms by (rule GetMedianTimePast_mono)

theorem GetMedianTimePast_monotone_witness:
  "GetMedianTimePast example_store 2 \<le> GetMedianTimePast example_store 3"
proof -
  have "past_times example_store n None = []" for n by (cases n) simp_all
  moreover have "(11 :: nat) = Suc (Suc (Suc 8))" by simp
  ultimately have "past_times example_store 11 (Some 2) = [2, 1, 0]" by (simp only: past_times.simps) (simp add: example_fields)
  then have "GetMedianTimePast example_store 2 = 1" by (simp add: GetMedianTimePast_def)
  then show ?thesis using GetMedianTimePast_monotone [of example_store 3 2] by (simp add: example_fields)
qed

end
