(* ===== verification/Chain.thy ===== *)
theory Chain
  imports Block_Index
begin

text \<open>
  The active chain (\<^verbatim>\<open>CChain\<close> of \<^verbatim>\<open>chain.h\<close> and \<^verbatim>\<open>chain.cpp\<close>), fork points, locators
  and how a node answers a locator (\<^verbatim>\<open>FindForkInGlobalIndex\<close> of \<^verbatim>\<open>validation.cpp\<close>).  A loop
  that follows \<^verbatim>\<open>pprev\<close> returns \<open>None\<close> when it does not end; each is shown to end on
  well-formed entries.
\<close>




section \<open>The active chain\<close>

text \<open>\<^verbatim>\<open>CChain::vChain\<close>; an entry is null only while \<^verbatim>\<open>SetTip\<close> runs.\<close>

type_synonym CChain = "ptr option list"

definition Genesis :: "CChain \<Rightarrow> ptr option" where
  "Genesis vChain = (if length vChain > 0 then vChain ! 0 else None)"

definition Tip :: "CChain \<Rightarrow> ptr option" where
  "Tip vChain = (if length vChain > 0 then vChain ! (length vChain - 1) else None)"

definition chain_at :: "CChain \<Rightarrow> int \<Rightarrow> ptr option" where
  "chain_at vChain height = (if height < 0 \<or> height \<ge> int (length vChain) then None else vChain ! nat height)"

definition Contains :: "store \<Rightarrow> CChain \<Rightarrow> ptr \<Rightarrow> bool" where
  "Contains h vChain pindex \<longleftrightarrow> chain_at vChain (nHeight (h pindex)) = Some pindex"

definition Next :: "store \<Rightarrow> CChain \<Rightarrow> ptr \<Rightarrow> ptr option" where
  "Next h vChain pindex = (if Contains h vChain pindex then chain_at vChain (nHeight (h pindex) + 1) else None)"

definition Height :: "CChain \<Rightarrow> int" where "Height vChain = int (length vChain) - 1"

definition resize :: "nat \<Rightarrow> 'a option list \<Rightarrow> 'a option list" where
  "resize n v = take n v @ replicate (n - length v) None"

text \<open>
  The loops that follow \<^verbatim>\<open>pprev\<close> end on every well-formed store; a loop that does not end is
  \<open>None\<close>.
\<close>

partial_function (option) settip_loop :: "store \<Rightarrow> ptr option \<Rightarrow> CChain \<Rightarrow> CChain option" where
  "settip_loop h pindex vChain =
     (case pindex of
        None \<Rightarrow> Some vChain
      | Some p \<Rightarrow>
          if vChain ! nat (nHeight (h p)) \<noteq> Some p
          then settip_loop h (pprev (h p)) (vChain[nat (nHeight (h p)) := Some p])
          else Some vChain)"

definition SetTip :: "store \<Rightarrow> ptr option \<Rightarrow> CChain \<Rightarrow> CChain option" where
  "SetTip h pindex vChain =
     (case pindex of
        None \<Rightarrow> Some []
      | Some p \<Rightarrow> settip_loop h pindex (resize (nat (nHeight (h p) + 1)) vChain))"

partial_function (option) fork_loop :: "store \<Rightarrow> CChain \<Rightarrow> ptr option \<Rightarrow> ptr option option" where
  "fork_loop h vChain pindex =
     (case pindex of
        None \<Rightarrow> Some None
      | Some p \<Rightarrow> if \<not> Contains h vChain p then fork_loop h vChain (pprev (h p)) else Some pindex)"

text \<open>Running a loop after a computation that can fail an assertion.\<close>

definition then_loop :: "'a outcome \<Rightarrow> ('a \<Rightarrow> 'b outcome option) \<Rightarrow> 'b outcome option" where
  "then_loop r f = (case r of Ok x \<Rightarrow> f x | Fail e \<Rightarrow> Some (Fail e) | Throw \<Rightarrow> Some Throw | Abort \<Rightarrow> Some Abort)"

lemma then_loop_Ok [simp]: "then_loop (Ok x) f = f x"
  by (simp add: then_loop_def)

definition FindFork :: "store \<Rightarrow> CChain \<Rightarrow> ptr option \<Rightarrow> ptr option outcome option" where
  "FindFork h vChain pindex =
     (case pindex of
        None \<Rightarrow> Some (Ok None)
      | Some p \<Rightarrow>
          then_loop (if nHeight (h p) > Height vChain then GetAncestor h p (Height vChain) else Ok (Some p))
            (\<lambda>pindex. map_option Ok (fork_loop h vChain pindex)))"

partial_function (option) common_loop :: "store \<Rightarrow> ptr option \<Rightarrow> ptr option \<Rightarrow> (ptr option \<times> ptr option) option" where
  "common_loop h pa pb =
     (case (pa, pb) of
        (Some a, Some b) \<Rightarrow> if a \<noteq> b then common_loop h (pprev (h a)) (pprev (h b)) else Some (pa, pb)
      | _ \<Rightarrow> Some (pa, pb))"

definition LastCommonAncestor :: "store \<Rightarrow> ptr \<Rightarrow> ptr \<Rightarrow> ptr option outcome option" where
  "LastCommonAncestor h pa pb =
     then_loop (if nHeight (h pa) > nHeight (h pb) then GetAncestor h pa (nHeight (h pb)) else Ok (Some pa)) (\<lambda>a.
     then_loop (if nHeight (h pa) > nHeight (h pb) then Ok (Some pb)
                else if nHeight (h pb) > nHeight (h pa) then GetAncestor h pb (nHeight (h pa)) else Ok (Some pb)) (\<lambda>b.
       map_option (\<lambda>(a, b). if a = b then Ok a else Abort) (common_loop h a b)))"

text \<open>The result and the two updates of one turn of \<^verbatim>\<open>GetLocator\<close> are as in the source.\<close>

partial_function (option) locator_loop ::
  "store \<Rightarrow> CChain \<Rightarrow> ptr option \<Rightarrow> int \<Rightarrow> uint256 list \<Rightarrow> uint256 list outcome option" where
  "locator_loop h vChain pindex nStep vHave =
     (case pindex of
        None \<Rightarrow> Some (Ok vHave)
      | Some p \<Rightarrow>
          let vHave = vHave @ [phashBlock (h p)]
          in if nHeight (h p) = 0 then Some (Ok vHave)
             else let height = max (nHeight (h p) - nStep) 0;
                      nStep = (if length vHave > 10 then nStep * 2 else nStep)
             in if Contains h vChain p then locator_loop h vChain (chain_at vChain height) nStep vHave
                else case GetAncestor h p height of
                       Ok q \<Rightarrow> locator_loop h vChain q nStep vHave
                     | Fail e \<Rightarrow> Some (Fail e)
                     | Throw \<Rightarrow> Some Throw
                     | Abort \<Rightarrow> Some Abort)"

definition GetLocator :: "store \<Rightarrow> CChain \<Rightarrow> ptr option \<Rightarrow> uint256 list outcome option" where
  "GetLocator h vChain pindex = locator_loop h vChain (if pindex = None then Tip vChain else pindex) 1 []"

text \<open>
  \<^verbatim>\<open>std::lower_bound\<close>: binary search for the first element that is not before the value.
\<close>

function lower_bound :: "('a \<Rightarrow> bool) \<Rightarrow> 'a list \<Rightarrow> nat \<Rightarrow> nat \<Rightarrow> nat" where
  "lower_bound before xs first len =
     (if len > 0
      then let half = len div 2; middle = first + half
           in if before (xs ! middle) then lower_bound before xs (middle + 1) (len - half - 1)
              else lower_bound before xs first half
      else first)"
  by pat_completeness auto
termination
  by (relation "measure (\<lambda>(_, _, _, len). len)") auto

declare lower_bound.simps [simp del]

definition FindEarliestAtLeast :: "store \<Rightarrow> CChain \<Rightarrow> int \<Rightarrow> int \<Rightarrow> ptr option" where
  "FindEarliestAtLeast h vChain time height =
     (let lower = lower_bound (\<lambda>b. case b of None \<Rightarrow> False
            | Some p \<Rightarrow> GetBlockTimeMax (h p) < time \<or> nHeight (h p) < height) vChain 0 (length vChain)
      in if lower = length vChain then None else vChain ! lower)"



section \<open>The active chain is the ancestry of its tip\<close>

definition ancestry :: "store \<Rightarrow> ptr \<Rightarrow> CChain" where
  "ancestry h tip = map (\<lambda>i. Some (ancestor h tip (int i))) [0..<nat (nHeight (h tip) + 1)]"

definition is_chain :: "store \<Rightarrow> CChain \<Rightarrow> bool" where
  "is_chain h vChain \<longleftrightarrow> vChain = [] \<or> (\<exists>tip. chain_ok h tip \<and> vChain = ancestry h tip)"

lemma length_ancestry [simp]: "chain_ok h p \<Longrightarrow> length (ancestry h p) = nat (nHeight (h p) + 1)"
  by (simp add: ancestry_def)

lemma nth_ancestry [simp]: "i < nat (nHeight (h p) + 1) \<Longrightarrow> ancestry h p ! i = Some (ancestor h p (int i))"
  by (simp add: ancestry_def)

lemma chain_at_ancestry:
  assumes "chain_ok h t"
  shows "chain_at (ancestry h t) k = (if 0 \<le> k \<and> k \<le> nHeight (h t) then Some (ancestor h t k) else None)"
  using chain_ok_height [OF assms] assms by (auto simp: chain_at_def)

lemma Contains_ancestry:
  assumes "chain_ok h t" "chain_ok h p"
  shows "Contains h (ancestry h t) p \<longleftrightarrow> nHeight (h p) \<le> nHeight (h t) \<and> ancestor h t (nHeight (h p)) = p"
  using chain_ok_height [OF assms(2)] by (simp add: Contains_def chain_at_ancestry [OF assms(1)])

lemma length_resize [simp]: "length (resize n v) = n"
  by (auto simp: resize_def)

lemma nth_resize: "i < n \<Longrightarrow> resize n v ! i = (if i < length v then v ! i else None)"
  by (simp add: resize_def nth_append)

text \<open>
  The loop invariant of \<^verbatim>\<open>SetTip\<close>: above the entry it looks at, the vector already holds
  the ancestry of the new tip; below, it still holds the old chain.
\<close>

lemma settip_loop_correct:
  assumes "chain_ok h p" "length v = nat (nHeight (h p) + 1)" "j < int (length v)"
    and "\<And>i. j < int i \<Longrightarrow> i < length v \<Longrightarrow> v ! i = Some (ancestor h p (int i))"
    and "\<And>i q. int i \<le> j \<Longrightarrow> i < length v \<Longrightarrow> v ! i = Some q \<Longrightarrow>
      chain_ok h q \<and> nHeight (h q) = int i \<and> (\<forall>k \<le> i. v ! k = Some (ancestor h q (int k)))"
    and "- 1 \<le> j"
  shows "settip_loop h (if j < 0 then None else Some (ancestor h p j)) v = Some (ancestry h p)"
  using assms
proof (induction "nat (j + 1)" arbitrary: j v)
  case 0
  then have j: "j = - 1" by simp
  have "v = ancestry h p" using 0 by (intro nth_equalityI) (simp_all add: j)
  then show ?case by (subst settip_loop.simps) (simp add: j)
next
  case (Suc n)
  then have j0: "0 \<le> j" by simp
  have jp: "j \<le> nHeight (h p)" using Suc.prems(2,3) chain_ok_height [OF Suc.prems(1)] by simp
  let ?a = "ancestor h p j"
  have a: "chain_ok h ?a" "nHeight (h ?a) = j" using ancestor_ok [OF Suc.prems(1) j0 jp] by simp_all
  show ?case
  proof (cases "v ! nat j = Some ?a")
    case True
    have "v ! i = Some (ancestor h p (int i))" if "i < length v" for i
    proof (cases "int i \<le> j")
      case le: True
      then have "v ! i = Some (ancestor h ?a (int i))"
        using Suc.prems(5) [of "nat j" ?a] True j0 Suc.prems(3) by (simp add: le_nat_iff)
      then show ?thesis using ancestor_ancestor [OF Suc.prems(1) _ le jp] by simp
    qed (use Suc.prems(4) that in auto)
    then have "v = ancestry h p" using Suc.prems(1,2) by (intro nth_equalityI) simp_all
    then show ?thesis using True a j0 by (subst settip_loop.simps) simp
  next
    case False
    define w where "w = v[nat j := Some ?a]"
    have "settip_loop h (if j - 1 < 0 then None else Some (ancestor h p (j - 1))) w = Some (ancestry h p)"
    proof (rule Suc.hyps(1))
      show "n = nat (j - 1 + 1)" using Suc.hyps(2) by simp
      show "length w = nat (nHeight (h p) + 1)" "j - 1 < int (length w)" "- 1 \<le> j - 1"
        using Suc.prems(2,3) j0 by (simp_all add: w_def)
      show "w ! i = Some (ancestor h p (int i))" if "j - 1 < int i" "i < length w" for i
      proof (cases "int i = j")
        case True
        then have "nat j = i" by simp
        then show ?thesis using that True by (simp add: w_def)
      next
        case False
        then have "nat j \<noteq> i" using j0 by auto
        then show ?thesis using Suc.prems(4) [of i] that False by (simp add: w_def)
      qed
      show "chain_ok h q \<and> nHeight (h q) = int i \<and> (\<forall>k \<le> i. w ! k = Some (ancestor h q (int k)))"
        if "int i \<le> j - 1" "i < length w" "w ! i = Some q" for i q
        using Suc.prems(5) [of i q] that j0 by (auto simp: w_def nth_list_update)
    qed (rule Suc.prems(1))
    moreover have "pprev (h ?a) = (if j - 1 < 0 then None else Some (ancestor h p (j - 1)))"
    proof (cases "j = 0")
      case True
      then show ?thesis using tree.up_root_anc [OF Suc.prems(1)] by simp
    next
      case False
      then show ?thesis using tree.up_anc [OF Suc.prems(1) _ jp] j0 by simp
    qed
    ultimately show ?thesis using False a j0 by (subst settip_loop.simps) (simp add: w_def)
  qed
qed

lemma SetTip_correct:
  assumes "is_chain h vChain" "chain_ok h p"
  shows "SetTip h (Some p) vChain = Some (ancestry h p)"
proof -
  define n where "n = nat (nHeight (h p) + 1)"
  have n0: "int n = nHeight (h p) + 1" using chain_ok_height [OF assms(2)] by (simp add: n_def)
  have "settip_loop h (if nHeight (h p) < 0 then None else Some (ancestor h p (nHeight (h p)))) (resize n vChain) = Some (ancestry h p)"
  proof (rule settip_loop_correct [OF assms(2)])
    show "length (resize n vChain) = nat (nHeight (h p) + 1)" by (simp add: n_def)
    show "nHeight (h p) < int (length (resize n vChain))" "- 1 \<le> nHeight (h p)" using n0 by simp_all
    show "resize n vChain ! i = Some (ancestor h p (int i))" if "nHeight (h p) < int i" "i < length (resize n vChain)" for i
      using that n0 by simp
    show "chain_ok h q \<and> nHeight (h q) = int i \<and> (\<forall>k \<le> i. resize n vChain ! k = Some (ancestor h q (int k)))"
      if i: "i < length (resize n vChain)" and q: "resize n vChain ! i = Some q" for i q
    proof -
      have il: "i < length vChain" "vChain ! i = Some q" using i q by (auto simp: nth_resize split: if_splits)
      then obtain t where t: "chain_ok h t" "vChain = ancestry h t" using assms(1) by (auto simp: is_chain_def)
      have it: "int i \<le> nHeight (h t)" and q: "q = ancestor h t (int i)" using il t by simp_all
      have "chain_ok h q" "nHeight (h q) = int i" using ancestor_ok [OF t(1) _ it] q by simp_all
      moreover have "resize n vChain ! k = Some (ancestor h q (int k))" if "k \<le> i" for k
        using that i il t it ancestor_ancestor [OF t(1), of "int k" "int i"] by (simp add: nth_resize q)
      ultimately show ?thesis by blast
    qed
  qed
  then show ?thesis using chain_ok_height [OF assms(2)] by (simp add: SetTip_def n_def)
qed



section \<open>Forks\<close>

text \<open>
  Walking two chains back in parallel from the same height: the loops stop at the highest common
  block.  \<open>meet h a b\<close> is the specification, by height.
\<close>

definition common :: "store \<Rightarrow> ptr \<Rightarrow> ptr \<Rightarrow> int \<Rightarrow> bool" where
  "common h a b k \<longleftrightarrow> 0 \<le> k \<and> k \<le> nHeight (h a) \<and> k \<le> nHeight (h b) \<and> ancestor h a k = ancestor h b k"

definition is_fork :: "store \<Rightarrow> ptr \<Rightarrow> ptr \<Rightarrow> ptr option \<Rightarrow> bool" where
  "is_fork h a b r \<longleftrightarrow>
     (case r of None \<Rightarrow> \<forall>k. \<not> common h a b k
      | Some f \<Rightarrow> common h a b (nHeight (h f)) \<and> f = ancestor h a (nHeight (h f)) \<and> (\<forall>k > nHeight (h f). \<not> common h a b k))"

definition at_or_none :: "store \<Rightarrow> ptr \<Rightarrow> int \<Rightarrow> ptr option" where
  "at_or_none h p k = (if k < 0 then None else Some (ancestor h p k))"

lemma pprev_at:
  assumes "chain_ok h p" "0 \<le> k" "k \<le> nHeight (h p)"
  shows "pprev (h (ancestor h p k)) = at_or_none h p (k - 1)"
proof (cases "k = 0")
  case True
  then show ?thesis using tree.up_root_anc [OF assms(1)] by (simp add: at_or_none_def)
next
  case False
  then show ?thesis using tree.up_anc [OF assms(1) _ assms(3)] assms(2) by (simp add: at_or_none_def)
qed

lemma is_fork_None: "(\<And>k. 0 \<le> k \<Longrightarrow> k \<le> nHeight (h a) \<Longrightarrow> k \<le> nHeight (h b) \<Longrightarrow> \<not> common h a b k) \<Longrightarrow> is_fork h a b None"
  by (auto simp: is_fork_def common_def)

lemma is_fork_at:
  assumes "chain_ok h a" "common h a b k" "\<And>i. k < i \<Longrightarrow> \<not> common h a b i"
  shows "is_fork h a b (Some (ancestor h a k))"
proof -
  have "nHeight (h (ancestor h a k)) = k" using ancestor_ok [OF assms(1), of k] assms(2) by (simp add: common_def)
  then show ?thesis using assms by (simp add: is_fork_def)
qed

lemma fork_loop_correct:
  assumes "chain_ok h p" "chain_ok h t" "- 1 \<le> k" "k \<le> nHeight (h p)" "\<And>i. k < i \<Longrightarrow> \<not> common h p t i"
  shows "\<exists>r. fork_loop h (ancestry h t) (at_or_none h p k) = Some r \<and> is_fork h p t r"
  using assms
proof (induction "nat (k + 1)" arbitrary: k)
  case 0
  then have k: "k = - 1" by simp
  have "is_fork h p t None" using 0(6) k by (intro is_fork_None) simp
  then show ?case by (subst fork_loop.simps) (simp add: k at_or_none_def)
next
  case (Suc n)
  then have k0: "0 \<le> k" by simp
  let ?a = "ancestor h p k"
  have a: "chain_ok h ?a" "nHeight (h ?a) = k" using ancestor_ok [OF Suc.prems(1) k0 Suc.prems(4)] by simp_all
  have c: "Contains h (ancestry h t) ?a \<longleftrightarrow> common h p t k"
    using Contains_ancestry [OF Suc.prems(2) a(1)] a(2) k0 Suc.prems(4) by (auto simp: common_def)
  show ?case
  proof (cases "common h p t k")
    case True
    have "is_fork h p t (Some ?a)" using is_fork_at [OF Suc.prems(1) True] Suc.prems(5) by blast
    then show ?thesis using c True k0 by (subst fork_loop.simps) (simp add: at_or_none_def)
  next
    case False
    have "\<exists>r. fork_loop h (ancestry h t) (at_or_none h p (k - 1)) = Some r \<and> is_fork h p t r"
    proof (rule Suc.hyps(1))
      show "\<not> common h p t i" if "k - 1 < i" for i using that False Suc.prems(5) [of i] by (cases "i = k") simp_all
    qed (use Suc.hyps(2) Suc.prems k0 in simp_all)
    then show ?thesis using c False k0 pprev_at [OF Suc.prems(1) k0 Suc.prems(4)]
      by (subst fork_loop.simps) (simp add: at_or_none_def [of h p k])
  qed
qed

lemma is_fork_sym_height: "common h a b k \<longleftrightarrow> common h b a k"
  by (auto simp: common_def)

lemma FindFork_correct:
  assumes "chain_ok h p" "chain_ok h t"
  shows "\<exists>r. FindFork h (ancestry h t) (Some p) = Some (Ok r) \<and> is_fork h p t r"
proof -
  have t0: "0 \<le> nHeight (h t)" and p0: "0 \<le> nHeight (h p)" using assms by (auto dest: chain_ok_height)
  have H: "Height (ancestry h t) = nHeight (h t)" using assms(2) t0 by (simp add: Height_def)
  let ?k = "min (nHeight (h p)) (nHeight (h t))"
  have "(if nHeight (h p) > Height (ancestry h t) then GetAncestor h p (Height (ancestry h t)) else Ok (Some p)) = Ok (at_or_none h p ?k)"
    using GetAncestor_correct [OF assms(1), of "nHeight (h t)"] t0 p0 by (auto simp: H at_or_none_def min_def)
  then have "FindFork h (ancestry h t) (Some p) = map_option Ok (fork_loop h (ancestry h t) (at_or_none h p ?k))"
    by (simp add: FindFork_def)
  moreover have "\<exists>r. fork_loop h (ancestry h t) (at_or_none h p ?k) = Some r \<and> is_fork h p t r"
    using t0 p0 by (intro fork_loop_correct assms) (auto simp: common_def)
  ultimately show ?thesis by auto
qed

lemma common_loop_correct:
  assumes "chain_ok h a" "chain_ok h b" "- 1 \<le> k" "k \<le> nHeight (h a)" "k \<le> nHeight (h b)"
    "\<And>i. k < i \<Longrightarrow> \<not> common h a b i"
  shows "\<exists>r. common_loop h (at_or_none h a k) (at_or_none h b k) = Some (r, r) \<and> is_fork h a b r"
  using assms
proof (induction "nat (k + 1)" arbitrary: k)
  case 0
  then have k: "k = - 1" by simp
  have "is_fork h a b None" using 0(7) k by (intro is_fork_None) simp
  then show ?case by (subst common_loop.simps) (simp add: k at_or_none_def)
next
  case (Suc n)
  then have k0: "0 \<le> k" by simp
  show ?case
  proof (cases "common h a b k")
    case True
    then have "ancestor h b k = ancestor h a k" by (simp add: common_def)
    moreover have "is_fork h a b (Some (ancestor h a k))" using is_fork_at [OF Suc.prems(1) True] Suc.prems(6) by blast
    ultimately show ?thesis using k0 by (subst common_loop.simps) (simp add: at_or_none_def)
  next
    case False
    then have ne: "ancestor h a k \<noteq> ancestor h b k" using k0 Suc.prems by (simp add: common_def)
    have "\<exists>r. common_loop h (at_or_none h a (k - 1)) (at_or_none h b (k - 1)) = Some (r, r) \<and> is_fork h a b r"
    proof (rule Suc.hyps(1))
      show "\<not> common h a b i" if "k - 1 < i" for i using that False Suc.prems(6) [of i] by (cases "i = k") simp_all
    qed (use Suc.hyps(2) Suc.prems k0 in simp_all)
    then show ?thesis
      using ne k0 pprev_at [OF Suc.prems(1) k0 Suc.prems(4)] pprev_at [OF Suc.prems(2) k0 Suc.prems(5)]
      by (subst common_loop.simps) (simp add: at_or_none_def [of h a k] at_or_none_def [of h b k])
  qed
qed

lemma LastCommonAncestor_correct:
  assumes "chain_ok h a" "chain_ok h b"
  shows "\<exists>r. LastCommonAncestor h a b = Some (Ok r) \<and> is_fork h a b r"
proof -
  have a0: "0 \<le> nHeight (h a)" and b0: "0 \<le> nHeight (h b)" using assms by (auto dest: chain_ok_height)
  let ?k = "min (nHeight (h a)) (nHeight (h b))"
  have ea: "(if nHeight (h a) > nHeight (h b) then GetAncestor h a (nHeight (h b)) else Ok (Some a)) = Ok (at_or_none h a ?k)"
    using GetAncestor_correct [OF assms(1), of "nHeight (h b)"] a0 b0 by (auto simp: at_or_none_def min_def)
  have eb: "(if nHeight (h a) > nHeight (h b) then Ok (Some b)
      else if nHeight (h b) > nHeight (h a) then GetAncestor h b (nHeight (h a)) else Ok (Some b)) = Ok (at_or_none h b ?k)"
    using GetAncestor_correct [OF assms(2), of "nHeight (h a)"] a0 b0
    by (auto simp: at_or_none_def min_def) (metis ancestor_self)
  obtain r where "common_loop h (at_or_none h a ?k) (at_or_none h b ?k) = Some (r, r)" "is_fork h a b r"
    using common_loop_correct [OF assms, of ?k] a0 b0 by (force simp: common_def)
  then show ?thesis unfolding LastCommonAncestor_def ea eb by simp
qed



section \<open>Locators\<close>

text \<open>Specification: the heights a locator lists.\<close>

function locator_heights :: "int \<Rightarrow> int \<Rightarrow> nat \<Rightarrow> int list" where
  "locator_heights n nStep cnt =
     n # (if n \<le> 0 \<or> nStep \<le> 0 then []
          else locator_heights (max (n - nStep) 0) (if cnt + 1 > 10 then nStep * 2 else nStep) (cnt + 1))"
  by pat_completeness auto
termination
  by (relation "measure (\<lambda>(n, _, _). nat n)") auto

declare locator_heights.simps [simp del]

lemma locator_heights_0 [simp]: "locator_heights 0 nStep cnt = [0]"
  by (subst locator_heights.simps) simp

lemma locator_loop_correct:
  assumes "chain_ok h p" "is_chain h vChain" "0 \<le> k" "k \<le> nHeight (h p)" "0 < nStep"
  shows "locator_loop h vChain (Some (ancestor h p k)) nStep vHave =
    Some (Ok (vHave @ map (\<lambda>i. phashBlock (h (ancestor h p i))) (locator_heights k nStep (length vHave))))"
  using assms(3-)
proof (induction "nat k" arbitrary: k nStep vHave rule: less_induct)
  case less
  let ?a = "ancestor h p k" and ?have = "vHave @ [phashBlock (h (ancestor h p k))]"
  have a: "chain_ok h ?a" "nHeight (h ?a) = k" using ancestor_ok [OF assms(1) less.prems(1,2)] by simp_all
  show ?case
  proof (cases "k = 0")
    case True
    then show ?thesis
      using a by (subst locator_loop.simps, subst locator_heights.simps) simp
  next
    case False
    define k' where "k' = max (k - nStep) 0"
    define s' where "s' = (if length ?have > 10 then nStep * 2 else nStep)"
    have k': "0 \<le> k'" "k' < k" using less.prems False by (auto simp: k'_def)
    have anc: "ancestor h ?a k' = ancestor h p k'" using ancestor_ancestor [OF assms(1), of k' k] k' less.prems by simp
    have "locator_loop h vChain (Some ?a) nStep vHave = locator_loop h vChain (Some (ancestor h p k')) s' ?have"
    proof (cases "Contains h vChain ?a")
      case True
      then obtain t where t: "chain_ok h t" "vChain = ancestry h t"
        using assms(2) by (auto simp: is_chain_def Contains_def chain_at_def split: if_splits)
      have "k \<le> nHeight (h t)" "ancestor h t k = ?a" using True Contains_ancestry [OF t(1) a(1)] a(2) t(2) by simp_all
      then have "chain_at vChain k' = Some (ancestor h p k')"
        using chain_at_ancestry [OF t(1), of k'] t(2) k' ancestor_ancestor [OF t(1), of k' k] anc by simp
      then show ?thesis using True False a by (subst locator_loop.simps) (simp add: Let_def k'_def s'_def)
    next
      case no: False
      have "GetAncestor h ?a k' = Ok (Some (ancestor h p k'))"
        using GetAncestor_correct [OF a(1), of k'] a(2) k' anc by simp
      then show ?thesis using no False a by (subst locator_loop.simps) (simp add: Let_def k'_def s'_def)
    qed
    also have "\<dots> = Some (Ok (?have @ map (\<lambda>i. phashBlock (h (ancestor h p i))) (locator_heights k' s' (length ?have))))"
      using k' less.prems by (intro less.hyps) (auto simp: s'_def)
    finally show ?thesis
      using False less.prems by (subst locator_heights.simps) (simp add: k'_def s'_def)
  qed
qed

lemma locator_heights_shape:
  assumes "0 \<le> n" "0 < nStep"
  shows "sorted_wrt (>) (locator_heights n nStep cnt) \<and> last (locator_heights n nStep cnt) = 0 \<and>
    set (locator_heights n nStep cnt) \<subseteq> {0..n} \<and> hd (locator_heights n nStep cnt) = n"
  using assms
proof (induction n nStep cnt rule: locator_heights.induct)
  case (1 n nStep cnt)
  define m where "m = max (n - nStep) 0"
  define r where "r = locator_heights m (if cnt + 1 > 10 then nStep * 2 else nStep) (cnt + 1)"
  show ?case
  proof (cases "n = 0")
    case False
    then have c: "\<not> (n \<le> 0 \<or> nStep \<le> 0)" using 1(2,3) by simp
    have "0 < (if cnt + 1 > 10 then nStep * 2 else nStep)" "0 \<le> m" using 1(3) by (simp_all add: m_def)
    then have IH: "sorted_wrt (>) r" "last r = 0" "set r \<subseteq> {0..m}"
      using 1(1) [OF c] unfolding r_def m_def by blast+
    have "m < n" using c by (simp add: m_def)
    then have "\<forall>x \<in> set r. x < n" "set r \<subseteq> {0..n}" using IH(3) by auto
    moreover have "r \<noteq> []" unfolding r_def by (subst locator_heights.simps) simp
    moreover have "locator_heights n nStep cnt = n # r"
      unfolding r_def m_def by (subst locator_heights.simps) (simp only: c if_False)
    ultimately show ?thesis using IH 1(2) by simp
  qed simp
qed

lemma locator_length_doubling:
  assumes "0 \<le> n" "0 < nStep" "10 \<le> cnt" "n \<le> nStep * (2 ^ m - 1)"
  shows "length (locator_heights n nStep cnt) \<le> m + 1"
  using assms
proof (induction m arbitrary: n nStep cnt)
  case 0
  then show ?case by simp
next
  case (Suc m)
  show ?case
  proof (cases "n = 0")
    case True
    then show ?thesis by simp
  next
    case False
    have "length (locator_heights (max (n - nStep) 0) (nStep * 2) (cnt + 1)) \<le> m + 1"
    proof (rule Suc.IH)
      have "n - nStep \<le> nStep * 2 * (2 ^ m - 1)" using Suc.prems(4) by (simp add: algebra_simps)
      moreover have "0 \<le> nStep * 2 * (2 ^ m - 1 :: int)" using Suc.prems(2) by simp
      ultimately show "max (n - nStep) 0 \<le> nStep * 2 * (2 ^ m - 1)" by simp
    qed (use Suc.prems in simp_all)
    moreover have "locator_heights n nStep cnt = n # locator_heights (max (n - nStep) 0) (nStep * 2) (cnt + 1)"
      using False Suc.prems by (subst locator_heights.simps) simp
    ultimately show ?thesis by simp
  qed
qed

lemma locator_length_linear:
  assumes "0 \<le> n" "cnt + j = 10" "n < 2 ^ m"
  shows "length (locator_heights n 1 cnt) \<le> j + m + 1"
  using assms
proof (induction j arbitrary: n cnt)
  case 0
  then show ?case using locator_length_doubling [of n 1 cnt m] by simp
next
  case (Suc j)
  show ?case
  proof (cases "n = 0")
    case True
    then show ?thesis by simp
  next
    case False
    have "length (locator_heights (max (n - 1) 0) 1 (cnt + 1)) \<le> j + m + 1"
      using Suc.prems False by (intro Suc.IH) simp_all
    moreover have "locator_heights n 1 cnt = n # locator_heights (max (n - 1) 0) 1 (cnt + 1)"
      using False Suc.prems by (subst locator_heights.simps) simp
    ultimately show ?thesis by simp
  qed
qed


section \<open>Binary search\<close>

definition partition_at :: "('a \<Rightarrow> bool) \<Rightarrow> 'a list \<Rightarrow> nat \<Rightarrow> bool" where
  "partition_at bef xs n \<longleftrightarrow>
     n \<le> length xs \<and> (\<forall>i < n. bef (xs ! i)) \<and> (\<forall>i. n \<le> i \<longrightarrow> i < length xs \<longrightarrow> \<not> bef (xs ! i))"

lemma lower_bound_correct:
  assumes "partition_at bef xs n" "first \<le> n" "n \<le> first + len" "first + len \<le> length xs"
  shows "lower_bound bef xs first len = n"
  using assms
proof (induction bef xs first len rule: lower_bound.induct)
  case (1 bef xs first len)
  note prems = 1(3-6)
  show ?case
  proof (cases "len > 0")
    case False
    then have "first = n" using prems by simp
    then show ?thesis using False by (subst lower_bound.simps) simp
  next
    case True
    let ?m = "first + len div 2"
    have m: "?m < length xs" using True prems(4) by simp
    have b: "bef (xs ! ?m) \<longleftrightarrow> ?m < n" using prems(1) m unfolding partition_at_def by (meson not_le)
    show ?thesis
    proof (cases "?m < n")
      case lt: True
      have "lower_bound bef xs (?m + 1) (len - len div 2 - 1) = n"
        using lt b prems True by (intro 1(1) [OF True refl refl]) simp_all
      then show ?thesis using True lt b by (subst lower_bound.simps) (simp add: Let_def)
    next
      case ge: False
      have "lower_bound bef xs first (len div 2) = n"
        using ge b prems True by (intro 1(2) [OF True refl refl]) simp_all
      then show ?thesis using True ge b by (subst lower_bound.simps) (simp add: Let_def)
    qed
  qed
qed

section \<open>Answering a locator\<close>

text \<open>\<^verbatim>\<open>FindForkInGlobalIndex\<close>: the first block of the locator that is on the active chain.\<close>

primrec FindForkInGlobalIndex :: "BlockManager \<Rightarrow> CChain \<Rightarrow> uint256 list \<Rightarrow> ptr option" where
  "FindForkInGlobalIndex bm chain [] = Genesis chain"
| "FindForkInGlobalIndex bm chain (hash # vHave) =
     (case m_block_index bm hash of
        Some pindex \<Rightarrow> if Contains (bm_store bm) chain pindex then Some pindex else FindForkInGlobalIndex bm chain vHave
      | None \<Rightarrow> FindForkInGlobalIndex bm chain vHave)"

lemma index_okD:
  assumes "index_ok bm" "p < bm_fresh bm"
  shows "chain_ok (bm_store bm) p"
    "0 \<le> k \<Longrightarrow> k \<le> nHeight (bm_store bm p) \<Longrightarrow>
      m_block_index bm (phashBlock (bm_store bm (ancestor (bm_store bm) p k))) = Some (ancestor (bm_store bm) p k)"
proof -
  have e: "\<And>r. r < bm_fresh bm \<Longrightarrow> entry_ok (bm_store bm) r" using assms(1) by (simp add: index_ok_def)
  then show "chain_ok (bm_store bm) p" using assms(2) by (simp add: entry_ok_def)
  assume "0 \<le> k" "k \<le> nHeight (bm_store bm p)"
  then have "ancestor (bm_store bm) p k < bm_fresh bm" using ancestor_old [OF e assms(2)] by blast
  then show "m_block_index bm (phashBlock (bm_store bm (ancestor (bm_store bm) p k))) = Some (ancestor (bm_store bm) p k)"
    using assms(1) by (simp add: index_ok_def)
qed

lemma FindForkInGlobalIndex_first:
  assumes "index_ok bm" "p < bm_fresh bm" "t < bm_fresh bm" "set ks \<subseteq> {0..nHeight (bm_store bm p)}"
    "ks \<noteq> []" "common (bm_store bm) p t (last ks)" "sorted_wrt (>) ks"
  shows "\<exists>k \<in> set ks. FindForkInGlobalIndex bm (ancestry (bm_store bm) t)
      (map (\<lambda>i. phashBlock (bm_store bm (ancestor (bm_store bm) p i))) ks) = Some (ancestor (bm_store bm) p k) \<and>
    common (bm_store bm) p t k \<and> (\<forall>i \<in> set ks. common (bm_store bm) p t i \<longrightarrow> i \<le> k)"
  using assms(4-)
proof (induction ks)
  case Nil
  then show ?case by simp
next
  case (Cons k ks)
  let ?h = "bm_store bm"
  have k: "0 \<le> k" "k \<le> nHeight (?h p)" using Cons.prems(1) by simp_all
  note pt = index_okD [OF assms(1,2)] index_okD(1) [OF assms(1,3)]
  have a: "chain_ok ?h (ancestor ?h p k)" "nHeight (?h (ancestor ?h p k)) = k" using ancestor_ok [OF pt(1) k] by simp_all
  have c: "Contains ?h (ancestry ?h t) (ancestor ?h p k) \<longleftrightarrow> common ?h p t k"
    using Contains_ancestry [OF pt(3) a(1)] a(2) k by (auto simp: common_def)
  show ?case
  proof (cases "common ?h p t k")
    case True
    then show ?thesis using pt(2) [OF k] c Cons.prems(4) by (intro bexI [of _ k]) auto
  next
    case False
    then have "ks \<noteq> []" using Cons.prems(3) by auto
    then show ?thesis using Cons.IH Cons.prems False pt(2) [OF k] c by auto
  qed
qed


text \<open>\<^verbatim>\<open>FindEarliestAtLeast\<close>: along a chain the maximal time never decreases, so the search is exact.\<close>

lemma nTimeMax_mono:
  assumes "index_ok bm" "t < bm_fresh bm" "0 \<le> i" "i \<le> j" "j \<le> nHeight (bm_store bm t)"
  defines "h \<equiv> bm_store bm"
  shows "nTimeMax (h (ancestor h t i)) \<le> nTimeMax (h (ancestor h t j))"
proof -
  have e: "\<And>r. r < bm_fresh bm \<Longrightarrow> entry_ok h r" using assms(1) by (simp add: index_ok_def h_def)
  have c: "chain_ok h t" using e [OF assms(2)] by (simp add: entry_ok_def)
  have step: "nTimeMax (h (ancestor h t (k - 1))) \<le> nTimeMax (h (ancestor h t k))" if k: "0 < k" "k \<le> nHeight (h t)" for k
  proof -
    have l: "ancestor h t k < bm_fresh bm" "ancestor h t (k - 1) < bm_fresh bm"
      using ancestor_old [OF e assms(2)] k by auto
    have "chain_time h (ancestor h t k) = max (chain_time h (ancestor h t (k - 1))) (nTime (h (ancestor h t k)))"
      using chain_totals_extend [of h "ancestor h t k" "ancestor h t (k - 1)"] e [OF l(1)] tree.up_anc [OF c k]
      by (simp add: entry_ok_def)
    then show ?thesis using e [OF l(1)] e [OF l(2)] by (simp add: entry_ok_def)
  qed
  have "i + int n \<le> nHeight (h t) \<Longrightarrow> nTimeMax (h (ancestor h t i)) \<le> nTimeMax (h (ancestor h t (i + int n)))" for n
  proof (induction n)
    case (Suc n)
    then show ?case using step [of "i + int (Suc n)"] assms(3) by (auto simp: add.assoc [symmetric])
  qed simp
  from this [of "nat (j - i)"] show ?thesis using assms by simp
qed

lemma partition_at_exists:
  assumes "\<And>i j. i \<le> j \<Longrightarrow> j < length xs \<Longrightarrow> bef (xs ! j) \<Longrightarrow> bef (xs ! i)"
  shows "partition_at bef xs (length (takeWhile bef xs))"
  unfolding partition_at_def
proof (intro conjI allI impI)
  show "length (takeWhile bef xs) \<le> length xs" by (rule length_takeWhile_le)
  show "bef (xs ! i)" if "i < length (takeWhile bef xs)" for i
    using nth_mem [OF that] set_takeWhileD [of "takeWhile bef xs ! i" bef xs] that by (simp add: takeWhile_nth)
  show "\<not> bef (xs ! i)" if "length (takeWhile bef xs) \<le> i" "i < length xs" for i
    using assms [OF that] nth_length_takeWhile [of bef xs] that by auto
qed

lemma FindEarliestAtLeast_correct:
  fixes time height :: int
  assumes "index_ok bm" "t < bm_fresh bm"
  defines "h \<equiv> bm_store bm"
  defines "late \<equiv> \<lambda>k. GetBlockTimeMax (h (ancestor h t k)) \<ge> time \<and> k \<ge> height"
  shows "case FindEarliestAtLeast h (ancestry h t) time height of
      None \<Rightarrow> \<forall>k \<in> {0..nHeight (h t)}. \<not> late k
    | Some b \<Rightarrow> \<exists>k \<in> {0..nHeight (h t)}. b = ancestor h t k \<and> late k \<and> (\<forall>i \<in> {0..<k}. \<not> late i)"
proof -
  define bef where "bef = (\<lambda>b. case b of None \<Rightarrow> False | Some p \<Rightarrow> GetBlockTimeMax (h p) < time \<or> nHeight (h p) < height)"
  define n where "n = length (takeWhile bef (ancestry h t))"
  have c: "chain_ok h t" using index_okD(1) [OF assms(1,2)] by (simp add: h_def)
  have len: "length (ancestry h t) = nat (nHeight (h t) + 1)" using c by simp
  have bef: "bef (ancestry h t ! i) \<longleftrightarrow> \<not> late (int i)" if "i < length (ancestry h t)" for i
    using that c ancestor_ok [OF c, of "int i"] by (auto simp: bef_def late_def)
  have late_mono: "late i \<Longrightarrow> late j" if "0 \<le> i" "i \<le> j" "j \<le> nHeight (h t)" for i j
    using nTimeMax_mono [OF assms(1,2), of i j] that
    by (auto simp: late_def GetBlockTimeMax_def h_def word_le_def)
  have part: "partition_at bef (ancestry h t) n"
    unfolding n_def
  proof (rule partition_at_exists)
    fix i j assume ij: "i \<le> j" "j < length (ancestry h t)" "bef (ancestry h t ! j)"
    then have "int j \<le> nHeight (h t)" unfolding len by linarith
    then have "\<not> late (int i)" using late_mono [of "int i" "int j"] ij bef [OF ij(2)] by auto
    then show "bef (ancestry h t ! i)" using bef [of i] ij by simp
  qed
  have "FindEarliestAtLeast h (ancestry h t) time height = (if n = length (ancestry h t) then None else ancestry h t ! n)"
    using lower_bound_correct [OF part, of 0 "length (ancestry h t)"] part
    by (simp add: FindEarliestAtLeast_def bef_def partition_at_def Let_def)
  moreover have "\<not> late k" if "0 \<le> k" "k \<le> nHeight (h t)" "k < int n" for k
  proof -
    have "nat k < n" "nat k < length (ancestry h t)" using that len by auto
    then have "bef (ancestry h t ! nat k)" using part by (simp add: partition_at_def del: nth_ancestry)
    then show ?thesis using bef [OF \<open>nat k < length (ancestry h t)\<close>] that(1) by simp
  qed
  moreover have "late (int n) \<and> int n \<le> nHeight (h t) \<and> ancestry h t ! n = Some (ancestor h t (int n))" if "n \<noteq> length (ancestry h t)"
    using part that bef [of n] len by (auto simp: partition_at_def)
  moreover have "n \<le> length (ancestry h t)" using part by (simp add: partition_at_def)
  ultimately show ?thesis
    using len by (cases "n = length (ancestry h t)") (auto intro!: bexI [of _ "int n"])
qed


section \<open>Properties\<close>

text \<open>
  C35. Setting the tip of the active chain ends, and leaves in the vector at every height exactly
  the ancestor of the new tip there, whatever branch the vector held before: the early exit of the
  loop at the first entry that agrees never leaves a stale one below.
\<close>

theorem SetTip_exact:
  assumes "is_chain h vChain" "chain_ok h p"
  shows "SetTip h (Some p) vChain = Some (ancestry h p) \<and> is_chain h (ancestry h p) \<and> Tip (ancestry h p) = Some p \<and>
    Height (ancestry h p) = nHeight (h p)"
proof -
  have "0 \<le> nHeight (h p)" using assms(2) by (rule chain_ok_height)
  then show ?thesis
    using SetTip_correct [OF assms] assms(2) by (auto simp: is_chain_def Tip_def Height_def)
qed

theorem SetTip_exact_witness:
  "SetTip example_store (Some 3) (ancestry example_store 7) = Some [Some 0, Some 1, Some 2, Some 3]"
proof -
  have "ancestry example_store 3 = [Some 0, Some 1, Some 2, Some 3]"
    by (simp add: ancestry_def example_fields example_ancestor upt_rec)
  then show ?thesis
    using SetTip_exact [of example_store "ancestry example_store 7" 3] example_chain_ok by (auto simp: is_chain_def)
qed

text \<open>
  The fork point of two blocks is found: \<^verbatim>\<open>LastCommonAncestor\<close> of two entries and
  \<^verbatim>\<open>FindFork\<close> against an active chain end without a failed assertion and return the highest
  block that both have as an ancestor, and null only where there is none.
\<close>

theorem fork_point_found:
  assumes "chain_ok h a" "chain_ok h b"
  shows "(\<exists>r. LastCommonAncestor h a b = Some (Ok r) \<and> is_fork h a b r) \<and>
    (\<exists>r. FindFork h (ancestry h b) (Some a) = Some (Ok r) \<and> is_fork h a b r)"
  using LastCommonAncestor_correct [OF assms] FindFork_correct [OF assms] by simp

theorem fork_point_found_witness:
  "\<exists>r. LastCommonAncestor example_store 9 4 = Some (Ok r) \<and> is_fork example_store 9 4 r"
  using fork_point_found [OF example_chain_ok example_chain_ok] by blast

text \<open>
  Locators are complete and short: the locator of a block ends, starts at the block and ends
  at the genesis block with strictly decreasing heights, and has at most \<open>m + 11\<close> entries for a
  height below \<open>2 ^ m\<close>; and the node that answers it finds on its own active chain the highest
  entry of the locator that is on that chain, whenever the two chains have a common genesis block.
\<close>

theorem locator_finds_common_block:
  assumes "index_ok bm" "p < bm_fresh bm" "t < bm_fresh bm" "is_chain (bm_store bm) vChain"
    "nHeight (bm_store bm p) < 2 ^ m"
  defines "h \<equiv> bm_store bm"
  shows "\<exists>ks. GetLocator h vChain (Some p) = Some (Ok (map (\<lambda>k. phashBlock (h (ancestor h p k))) ks)) \<and>
    hd ks = nHeight (h p) \<and> last ks = 0 \<and> sorted_wrt (>) ks \<and> length ks \<le> m + 11 \<and>
    (common h p t 0 \<longrightarrow> (\<exists>k \<in> set ks.
       FindForkInGlobalIndex bm (ancestry h t) (map (\<lambda>k. phashBlock (h (ancestor h p k))) ks) = Some (ancestor h p k) \<and>
       common h p t k \<and> (\<forall>i \<in> set ks. common h p t i \<longrightarrow> i \<le> k)))"
proof -
  have c: "chain_ok h p" using index_okD(1) [OF assms(1,2)] by (simp add: h_def)
  then have n: "0 \<le> nHeight (h p)" by (rule chain_ok_height)
  define ks where "ks = locator_heights (nHeight (h p)) 1 0"
  have s: "sorted_wrt (>) ks" "last ks = 0" "set ks \<subseteq> {0..nHeight (h p)}" "hd ks = nHeight (h p)"
    using locator_heights_shape [OF n, of 1 0] by (simp_all add: ks_def)
  have ne: "ks \<noteq> []" unfolding ks_def by (subst locator_heights.simps) simp
  have "GetLocator h vChain (Some p) = Some (Ok (map (\<lambda>k. phashBlock (h (ancestor h p k))) ks))"
    using locator_loop_correct [OF c _ n order_refl, of vChain 1 "[]"] assms(4) by (simp add: GetLocator_def ks_def h_def)
  moreover have "length ks \<le> m + 11"
    using locator_length_linear [OF n, of 0 10 m] assms(5) by (simp add: ks_def h_def)
  moreover have "common h p t 0 \<longrightarrow> (\<exists>k \<in> set ks.
       FindForkInGlobalIndex bm (ancestry h t) (map (\<lambda>k. phashBlock (h (ancestor h p k))) ks) = Some (ancestor h p k) \<and>
       common h p t k \<and> (\<forall>i \<in> set ks. common h p t i \<longrightarrow> i \<le> k))"
    using FindForkInGlobalIndex_first [OF assms(1-3), of ks] s ne by (simp add: h_def)
  ultimately show ?thesis using s by blast
qed

theorem locator_finds_common_block_witness:
  "\<exists>(bm :: BlockManager) p ks. p < bm_fresh bm \<and> GetLocator (bm_store bm) [] (Some p) =
     Some (Ok (map (\<lambda>k. phashBlock (bm_store bm (ancestor (bm_store bm) p k))) ks)) \<and> last ks = 0"
proof -
  let ?bm = "BlockManager_init (CBlockIndex_of (example_header 0))" and ?b = "example_header 100"
  have "index_ok ?bm" by (simp add: index_ok_def BlockManager_init_def)
  moreover have "example_hash ?b \<noteq> hd_hashPrevBlock ?b" by (rule example_hash_prev)
  ultimately obtain p bm' where bm': "index_ok bm'" "m_block_index bm' (example_hash ?b) = Some p"
    using AddToBlockIndex_ok [of ?bm BLOCK_VALID_TREE ?b example_hash] by (auto simp: status_ok_def)
  then have p: "p < bm_fresh bm'" by (auto simp: index_ok_def)
  obtain m where "nat (nHeight (bm_store bm' p)) < 2 ^ m" using less_exp [of "nat (nHeight (bm_store bm' p))"] by blast
  then have "nHeight (bm_store bm' p) < 2 ^ m" by (simp add: nat_less_iff split: if_splits)
  from locator_finds_common_block [OF bm'(1) p p _ this, of "[]"]
  obtain ks where "GetLocator (bm_store bm') [] (Some p) =
     Some (Ok (map (\<lambda>k. phashBlock (bm_store bm' (ancestor (bm_store bm') p k))) ks))" "last ks = 0"
    unfolding is_chain_def by blast
  then show ?thesis using p by blast
qed

end
