(* ===== verification/Hex_Text.thy ===== *)
theory Hex_Text
  imports Transaction
begin

text \<open>
  Hexadecimal text: the digit table, the printer and the parser of \<^verbatim>\<open>util/strencodings\<close>, and
  the text of 256-bit numbers of \<^verbatim>\<open>uint256.cpp\<close>.  Characters are \<^verbatim>\<open>char\<close>s, a byte string is
  a list of bytes with the least significant first, as \<^verbatim>\<open>base_blob\<close> stores it.
\<close>

unbundle bit_operations_syntax

section \<open>Hexadecimal text\<close>

definition p_util_hexdigit :: "int list" where
  "p_util_hexdigit =
     replicate 48 (- 1) @ [0, 1, 2, 3, 4, 5, 6, 7, 8, 9] @ replicate 7 (- 1) @ [0xa, 0xb, 0xc, 0xd, 0xe, 0xf] @
     replicate 26 (- 1) @ [0xa, 0xb, 0xc, 0xd, 0xe, 0xf] @ replicate 153 (- 1)"

definition HexDigit :: "char \<Rightarrow> int" where
  "HexDigit c = p_util_hexdigit ! of_char c"

definition IsHex :: "string \<Rightarrow> bool" where
  "IsHex str \<longleftrightarrow> \<not> list_ex (\<lambda>c. HexDigit c < 0) str \<and> length str > 0 \<and> length str mod 2 = 0"

definition IsHexNumber :: "string \<Rightarrow> bool" where
  "IsHexNumber str =
     (let starting_location = (if length str > 2 \<and> str ! 0 = CHR ''0'' \<and> str ! 1 = CHR ''x'' then 2 else 0)
      in \<not> list_ex (\<lambda>c. HexDigit c < 0) (drop starting_location str) \<and> length str > starting_location)"

definition IsSpace :: "char \<Rightarrow> bool" where
  "IsSpace c \<longleftrightarrow> c = CHR '' '' \<or> c = CHR 0x0C \<or> c = CHR 0x0A \<or> c = CHR 0x0D \<or> c = CHR 0x09 \<or> c = CHR 0x0B"

definition ToLower :: "char \<Rightarrow> char" where
  "ToLower c = (if (of_char c :: nat) \<ge> of_char (CHR ''A'') \<and> (of_char c :: nat) \<le> of_char (CHR ''Z'')
                then char_of (of_char c - of_char (CHR ''A'') + of_char (CHR ''a'') :: nat) else c)"

text \<open>
  A character pointer into a string is the rest of the string; the terminating zero, which is no
  digit and no space, is its end.
\<close>

lemma dropWhile_shorter: "dropWhile P xs = c # d # ys \<Longrightarrow> length ys < length xs"
  using length_dropWhile_le [of P xs] by simp

function ParseHex :: "string \<Rightarrow> bytes" where
  "ParseHex psz =
     (case dropWhile IsSpace psz of
        [] \<Rightarrow> []
      | c # psz \<Rightarrow>
          if HexDigit c = - 1 then []
          else case psz of
                 [] \<Rightarrow> []
               | d # psz \<Rightarrow>
                   if HexDigit d = - 1 then []
                   else (word_of_int (HexDigit c * 16) OR word_of_int (HexDigit d)) # ParseHex psz)"
  by auto
termination by (relation "measure length") (auto dest!: dropWhile_shorter)

declare ParseHex.simps [simp del]

definition hexmap :: string where "hexmap = ''0123456789abcdef''"

definition HexStr :: "bytes \<Rightarrow> string" where
  "HexStr s = concat (map (\<lambda>v. [hexmap ! unat (drop_bit 4 v), hexmap ! unat (v AND 15)]) s)"

section \<open>Text of 256-bit numbers\<close>

definition GetHex :: "uint256 \<Rightarrow> string" where
  "GetHex m_data = HexStr (rev m_data)"

text \<open>The loop of \<^verbatim>\<open>SetHex\<close>: the bytes that are left to fill and the digits that are left, from the last.\<close>

fun sethex_loop :: "nat \<Rightarrow> string \<Rightarrow> bytes" where
  "sethex_loop 0 psz = []"
| "sethex_loop n [] = replicate n 0"
| "sethex_loop (Suc n) [c] = word_of_int (HexDigit c) # replicate n 0"
| "sethex_loop (Suc n) (c # d # psz) = (word_of_int (HexDigit c) OR push_bit 4 (word_of_int (HexDigit d))) # sethex_loop n psz"

definition SetHex :: "string \<Rightarrow> uint256" where
  "SetHex psz =
     (let psz = dropWhile IsSpace psz;
          psz = (if length psz \<ge> 2 \<and> psz ! 0 = CHR ''0'' \<and> ToLower (psz ! 1) = CHR ''x'' then drop 2 psz else psz);
          digits = takeWhile (\<lambda>c. HexDigit c \<noteq> - 1) psz
      in sethex_loop 32 (rev digits))"

definition uint256S :: "string \<Rightarrow> uint256" where
  "uint256S str = SetHex str"

section \<open>Values of hexadecimal text\<close>

definition hex_val :: "string \<Rightarrow> nat" where
  "hex_val s = foldl (\<lambda>v c. 16 * v + nat (HexDigit c)) 0 s"

definition is_hex :: "string \<Rightarrow> bool" where
  "is_hex s \<longleftrightarrow> (\<forall>c \<in> set s. HexDigit c \<noteq> - 1)"

lemma HexDigit_range: "- 1 \<le> HexDigit c \<and> HexDigit c < 16"
proof -
  have "\<forall>x \<in> set p_util_hexdigit. - 1 \<le> x \<and> x < 16" by (simp add: p_util_hexdigit_def)
  moreover have "length p_util_hexdigit = 256" by (simp add: p_util_hexdigit_def)
  moreover have "(of_char c :: nat) < 256" by simp
  ultimately show ?thesis unfolding HexDigit_def by (metis nth_mem)
qed

lemma HexDigit_hexmap: "n < 16 \<Longrightarrow> HexDigit (hexmap ! n) = int n"
proof -
  have "\<forall>n \<in> set [0..<16]. HexDigit (hexmap ! n) = int n" by code_simp
  moreover assume "n < 16"
  ultimately show ?thesis by simp
qed

lemma no_digits:
  "list_all (\<lambda>c. HexDigit c = - 1) [CHR '' '', CHR 0x0C, CHR 0x0A, CHR 0x0D, CHR 0x09, CHR 0x0B, CHR ''x'', CHR ''X'']"
  by code_simp

lemma space_no_digit: "IsSpace c \<Longrightarrow> HexDigit c = - 1"
  using no_digits by (auto simp: IsSpace_def)

lemma x_no_digit: "ToLower c = CHR ''x'' \<Longrightarrow> HexDigit c = - 1"
proof (cases "(of_char c :: nat) \<ge> 65 \<and> (of_char c :: nat) \<le> 90")
  case True
  assume "ToLower c = CHR ''x''"
  with True have "char_of (of_char c - 65 + 97 :: nat) = CHR ''x''" by (simp add: ToLower_def)
  then have "of_char (char_of (of_char c - 65 + 97 :: nat) :: char) = (120 :: nat)" by simp
  with True have "(of_char c :: nat) = 88" by simp
  also have "\<dots> = of_char (CHR ''X'')" by simp
  finally have "c = CHR ''X''" by (simp only: of_char_eq_iff)
  then show ?thesis using no_digits by simp
next
  case False
  assume "ToLower c = CHR ''x''"
  with False have "c = CHR ''x''" by (auto simp: ToLower_def)
  then show ?thesis using no_digits by simp
qed

lemma hex_val_snoc: "hex_val (s @ [c]) = 16 * hex_val s + nat (HexDigit c)"
  by (simp add: hex_val_def)

lemma hex_val_append: "hex_val (s @ t) = 16 ^ length t * hex_val s + hex_val t"
  by (induction t rule: rev_induct) (simp_all add: hex_val_def algebra_simps)

lemma two_digits:
  fixes a b :: nat
  assumes "a < 16" "b < 16"
  shows "(of_nat a :: u8) OR push_bit 4 (of_nat b) = of_nat (a + 16 * b)"
    and "(of_nat (b * 16) :: u8) OR of_nat a = of_nat (a + 16 * b)"
proof -
  have n: "\<not> bit a n \<or> \<not> 4 \<le> n" for n
    using assms(1) bit_take_bit_iff [of 4 a n] take_bit_nat_eq_self [of a 4] by auto
  have "(of_nat a :: u8) OR push_bit 4 (of_nat b) = of_nat a + push_bit 4 (of_nat b)"
    by (rule disjunctive_add [symmetric]) (use n in \<open>auto simp: bit_simps\<close>)
  moreover have p: "push_bit 4 (of_nat b :: u8) = of_nat (16 * b)" by (simp add: push_bit_eq_mult)
  ultimately show g: "(of_nat a :: u8) OR push_bit 4 (of_nat b) = of_nat (a + 16 * b)" by simp
  have e: "(of_nat (b * 16) :: u8) = push_bit 4 (of_nat b)" unfolding p mult.commute [of b] by (rule refl)
  have "(of_nat (b * 16) :: u8) OR of_nat a = of_nat a OR push_bit 4 (of_nat b)" unfolding e by (rule or.commute)
  from this g show "(of_nat (b * 16) :: u8) OR of_nat a = of_nat (a + 16 * b)" by (rule trans)
qed

lemma digit_word: "HexDigit c \<noteq> - 1 \<Longrightarrow> word_of_int (HexDigit c) = (of_nat (nat (HexDigit c)) :: u8) \<and> nat (HexDigit c) < 16"
proof -
  assume "HexDigit c \<noteq> - 1"
  then have "0 \<le> HexDigit c" "HexDigit c < 16" using HexDigit_range [of c] by linarith+
  then show ?thesis by (simp add: of_nat_nat)
qed

lemma sethex_loop_val: "is_hex s \<Longrightarrow> limbs_val (sethex_loop n s) = hex_val (rev s) mod 256 ^ n"
proof (induction n s rule: sethex_loop.induct)
  case (3 n c)
  then have "HexDigit c \<noteq> - 1" by (simp add: is_hex_def)
  note d = digit_word [OF this]
  have "nat (HexDigit c) < 256 ^ Suc n" by (rule less_le_trans [of _ 256]) (use d in simp_all)
  then have "hex_val (rev [c]) mod 256 ^ Suc n = nat (HexDigit c)" by (simp only: hex_val_def rev.simps append_Nil foldl.simps mult_0_right add_0 mod_less)
  then show ?case using d by (simp add: unat_of_nat)
next
  case (4 n c d s)
  then have "HexDigit c \<noteq> - 1" "HexDigit d \<noteq> - 1" "is_hex s" by (simp_all add: is_hex_def)
  note c = digit_word [OF this(1)] and d = digit_word [OF this(2)] and IH = "4.IH" [OF this(3)]
  define a b where "a = nat (HexDigit c)" and "b = nat (HexDigit d)"
  have ab: "a < 16" "b < 16" using c d by (simp_all add: a_def b_def)
  then have u: "unat (of_nat (a + 16 * b) :: u8) = a + 16 * b" unfolding unat_of_nat by simp
  have "hex_val (rev (c # d # s)) mod 256 ^ Suc n = (256 * hex_val (rev s) + (a + 16 * b)) mod (256 * 256 ^ n)"
    unfolding rev.simps hex_val_snoc a_def b_def by (simp add: algebra_simps)
  also have "\<dots> = 256 * (hex_val (rev s) mod 256 ^ n) + (a + 16 * b)"
    unfolding mod_mult2_eq using ab by simp
  finally have h: "hex_val (rev (c # d # s)) mod 256 ^ Suc n = 256 * (hex_val (rev s) mod 256 ^ n) + (a + 16 * b)" .
  have "sethex_loop (Suc n) (c # d # s) = of_nat (a + 16 * b) # sethex_loop n s"
    using two_digits(1) [OF ab] c d by (simp only: sethex_loop.simps a_def b_def)
  then show ?case unfolding h using IH u by simp
qed (simp_all add: hex_val_def)

lemma nibbles: "unat (drop_bit 4 v) = unat v div 16" "unat (v AND 15) = unat v mod 16" for v :: u8
proof -
  have m: "(15 :: u8) = mask 4" by (simp add: mask_eq_exp_minus_1)
  show "unat (v AND 15) = unat v mod 16"
    unfolding m take_bit_eq_mask [symmetric] take_bit_eq_mod unat_mod_distrib by simp
  show "unat (drop_bit 4 v) = unat v div 16" unfolding unat_drop_bit_eq by (simp add: drop_bit_eq_div)
qed

lemma nibble_digits:
  "HexDigit (hexmap ! unat (drop_bit 4 v)) = int (unat v div 16)" "HexDigit (hexmap ! unat (v AND 15)) = int (unat v mod 16)" for v :: u8
proof -
  have "unat v div 16 < 16" using unat_bound [of v] by simp
  then show "HexDigit (hexmap ! unat (drop_bit 4 v)) = int (unat v div 16)" unfolding nibbles by (rule HexDigit_hexmap)
  show "HexDigit (hexmap ! unat (v AND 15)) = int (unat v mod 16)" unfolding nibbles by (rule HexDigit_hexmap) simp
qed

lemma is_hex_HexStr [simp]: "is_hex (HexStr s)"
  by (induction s) (auto simp: is_hex_def HexStr_def nibble_digits)

lemma length_HexStr [simp]: "length (HexStr s) = 2 * length s"
  by (induction s) (auto simp: HexStr_def)

lemma hex_val_HexStr: "hex_val (HexStr s) = limbs_val (rev s)"
proof (induction s rule: rev_induct)
  case (snoc v s)
  define c d where "c = hexmap ! unat (drop_bit 4 v)" and "d = hexmap ! unat (v AND 15)"
  have "HexStr (s @ [v]) = (HexStr s @ [c]) @ [d]" by (simp add: HexStr_def c_def d_def)
  then have "hex_val (HexStr (s @ [v])) = 16 * (16 * hex_val (HexStr s) + unat v div 16) + unat v mod 16"
    by (simp only: hex_val_snoc nat_int c_def d_def nibble_digits)
  also have "\<dots> = 256 * hex_val (HexStr s) + (16 * (unat v div 16) + unat v mod 16)" by simp
  also have "\<dots> = unat v + 256 * hex_val (HexStr s)" by (simp only: mult_div_mod_eq add.commute [of "unat v"])
  finally show ?case using snoc.IH by simp
qed (simp add: HexStr_def hex_val_def)

lemma length_sethex_loop [simp]: "length (sethex_loop n s) = n"
  by (induction n s rule: sethex_loop.induct) simp_all

lemma SetHex_val: "is_hex s \<Longrightarrow> limbs_val (SetHex s) = hex_val s mod 2 ^ 256"
proof -
  assume h: "is_hex s"
  have "dropWhile IsSpace s = s"
  proof (cases s)
    case (Cons c r)
    then have "\<not> IsSpace c" using h space_no_digit [of c] by (auto simp: is_hex_def)
    then show ?thesis using Cons by simp
  qed simp
  moreover have "\<not> (length s \<ge> 2 \<and> s ! 0 = CHR ''0'' \<and> ToLower (s ! 1) = CHR ''x'')"
    using h x_no_digit [of "s ! 1"] by (auto simp: is_hex_def)
  moreover have "takeWhile (\<lambda>c. HexDigit c \<noteq> - 1) s = s" using h by (simp add: is_hex_def takeWhile_eq_all_conv)
  ultimately have "SetHex s = sethex_loop 32 (rev s)" unfolding SetHex_def Let_def by (simp only: if_False)
  moreover have "is_hex (rev s)" using h by (simp add: is_hex_def)
  moreover have "(256 :: nat) ^ 32 = 2 ^ 256" by simp
  ultimately show ?thesis using sethex_loop_val [of "rev s" 32] by (simp only: rev_rev_ident)
qed

lemma length_SetHex [simp]: "length (SetHex s) = 32" by (simp add: SetHex_def Let_def)

lemma SetHex_GetHex:
  assumes "length u = 32"
  shows "SetHex (GetHex u) = u"
proof (rule limbs_val_inj)
  have "limbs_val u < 2 ^ 256" using limbs_val_bound [of u] assms by simp
  then show "limbs_val (SetHex (GetHex u)) = limbs_val u"
    by (simp only: SetHex_val GetHex_def is_hex_HexStr hex_val_HexStr rev_rev_ident mod_less)
qed (simp add: assms)

lemma ParseHex_HexStr: "ParseHex (HexStr s) = s"
proof (induction s)
  case (Cons v s)
  define c d where "c = hexmap ! unat (drop_bit 4 v)" and "d = hexmap ! unat (v AND 15)"
  have h: "HexStr (v # s) = c # d # HexStr s" by (simp add: HexStr_def c_def d_def)
  have dig: "HexDigit c = int (unat v div 16)" "HexDigit d = int (unat v mod 16)" unfolding c_def d_def by (rule nibble_digits)+
  then have "\<not> IsSpace c" using space_no_digit [of c] by auto
  moreover have "(word_of_int (HexDigit c * 16) OR word_of_int (HexDigit d) :: u8) = v"
  proof -
    have "unat v div 16 < 16" "unat v mod 16 < 16" using unat_bound [of v] by simp_all
    from two_digits(2) [OF this(2,1)] have "(of_nat (unat v div 16 * 16) :: u8) OR of_nat (unat v mod 16) = of_nat (unat v)"
      by (simp only: mod_mult_div_eq)
    moreover have "word_of_int (HexDigit c * 16) = (of_nat (unat v div 16 * 16) :: u8)" unfolding dig by simp
    ultimately show ?thesis unfolding dig by simp
  qed
  ultimately show ?case unfolding h using Cons dig by (subst ParseHex.simps) simp
qed (subst ParseHex.simps, simp add: HexStr_def)

section \<open>Properties\<close>

text \<open>
  Hexadecimal text round-trips: \<^verbatim>\<open>ParseHex\<close> reads back the bytes that \<^verbatim>\<open>HexStr\<close> prints,
  \<^verbatim>\<open>SetHex\<close> reads back the number that \<^verbatim>\<open>GetHex\<close> prints, and of any text of hexadecimal digits,
  however long, \<^verbatim>\<open>uint256S\<close> yields the value modulo \<open>2\<^sup>2\<^sup>5\<^sup>6\<close>.
\<close>

theorem hex_roundtrip:
  assumes "length u = 32" "is_hex s"
  shows "ParseHex (HexStr v) = v \<and> SetHex (GetHex u) = u \<and> limbs_val (uint256S s) = hex_val s mod 2 ^ 256"
  using ParseHex_HexStr SetHex_GetHex [OF assms(1)] SetHex_val [OF assms(2)] by (simp only: uint256S_def simp_thms)

theorem hex_roundtrip_witness:
  "ParseHex (HexStr [1, 2]) = [1, 2] \<and> SetHex (GetHex (replicate 32 7)) = replicate 32 7 \<and>
   limbs_val (uint256S ''1d00FFff'') = 0x1d00ffff"
proof -
  have d: "map HexDigit ''1d00FFff'' = [1, 13, 0, 0, 15, 15, 15, 15]" by code_simp
  then have h: "is_hex ''1d00FFff''" by (simp add: is_hex_def)
  have "hex_val ''1d00FFff'' = 0x1d00ffff" using d by (simp add: hex_val_def)
  then show ?thesis using hex_roundtrip [OF _ h, of "replicate 32 7" "[1, 2]"] by simp
qed

end
