(* ===== verification/Consensus_Params.thy ===== *)
theory Consensus_Params
  imports Hex_Text
begin

text \<open>
  The consensus parameters (\<^verbatim>\<open>consensus/params.h\<close>) that the modelled code reads, and their
  values for the main network (\<^verbatim>\<open>chainparams.cpp\<close>).  Fields of type \<^verbatim>\<open>int\<close> and
  \<^verbatim>\<open>int64_t\<close> are integers.
\<close>

record BIP9Deployment =
  dep_bit :: nat
  nStartTime :: int
  nTimeout :: int
  nWindowSize :: int
  nThresholdStart :: int
  nThresholdMin :: int
  nFalloffCoeff :: int

record Params =
  hashGenesisBlock :: uint256
  hashDevnetGenesisBlock :: uint256
  BIP34Height :: int
  BIP34Hash :: uint256
  BIP65Height :: int
  BIP66Height :: int
  DIP0001Height :: int
  DIP0003Height :: int
  DIP0003EnforcementHeight :: int
  DevelopementFundShare :: int
  DevRewardStartHeight :: int
  powLimit :: uint256
  fPowAllowMinDifficultyBlocks :: bool
  fPowNoRetargeting :: bool
  nPowTargetSpacing :: int
  nPowTargetTimespan :: int
  nNewPowTargetSpacing :: int
  nNewPowTargetSpacingForkHeight :: int
  nAutolykosPowTargetSpacing :: int
  nPowKGWHeight :: int
  AutolykosForkHeight :: int
  AutolykosForkSwitchVersion :: int
  nMinimumDifficultyBlocks :: int
  nHighSubsidyBlocks :: int
  nHighSubsidyFactor :: int
  nBudgetPaymentsStartBlock :: int
  nBudgetPaymentsCycleBlocks :: int
  nBudgetPaymentsWindowBlocks :: int
  nSuperblockStartBlock :: int
  nSuperblockStartHash :: uint256
  nGovernanceMinQuorum :: int
  MNTierForkHeight :: int
  V3ForkHeight :: int
  BRRHeight :: int
  nSuperblockCycle :: int
  nNewSuperBlockCycle :: int
  nNewSuperBlockStartHeight :: int
  nAutolykosSuperBlockCycle :: int
  nAutolykosSuperBlockStartHeight :: int
  nRuleChangeActivationThreshold :: int
  nMinerConfirmationWindow :: int
  vDeployments :: "BIP9Deployment list"

definition GetCurrentPowTargetSpacing :: "Params \<Rightarrow> int \<Rightarrow> int" where
  "GetCurrentPowTargetSpacing params height =
     (if height > AutolykosForkHeight params then nAutolykosPowTargetSpacing params
      else if height > nNewPowTargetSpacingForkHeight params \<and> height \<le> AutolykosForkHeight params
      then nNewPowTargetSpacing params
      else nPowTargetSpacing params)"

definition DifficultyAdjustmentInterval :: "Params \<Rightarrow> int" where
  "DifficultyAdjustmentInterval params = nPowTargetTimespan params sdiv nPowTargetSpacing params"

text \<open>The main network.\<close>

definition deployment :: "nat \<Rightarrow> int \<Rightarrow> int \<Rightarrow> int \<Rightarrow> int \<Rightarrow> int \<Rightarrow> int \<Rightarrow> BIP9Deployment" where
  "deployment b start timeout win thr thrmin falloff = \<lparr>dep_bit = b, nStartTime = start, nTimeout = timeout, nWindowSize = win,
     nThresholdStart = thr, nThresholdMin = thrmin, nFalloffCoeff = falloff\<rparr>"

definition mainnet_params :: Params where
  "mainnet_params = \<lparr>
     hashGenesisBlock = uint256S ''0x000000fd77883d82808c84b94839f98aaf7f8abae61afb8d5b771f982f19fe74'',
     hashDevnetGenesisBlock = uint256_null,
     BIP34Height = 1,
     BIP34Hash = uint256_null,
     BIP65Height = 1,
     BIP66Height = 1,
     DIP0001Height = 2,
     DIP0003Height = 2,
     DIP0003EnforcementHeight = 2,
     DevelopementFundShare = 3,
     DevRewardStartHeight = 16700,
     powLimit = replicate 29 0xff @ [0x0f, 0, 0],
     fPowAllowMinDifficultyBlocks = False,
     fPowNoRetargeting = False,
     nPowTargetSpacing = 3 * 60,
     nPowTargetTimespan = 9 * 60,
     nNewPowTargetSpacing = 90,
     nNewPowTargetSpacingForkHeight = 87600,
     nAutolykosPowTargetSpacing = 60,
     nPowKGWHeight = 1,
     AutolykosForkHeight = 283000,
     AutolykosForkSwitchVersion = 0x05,
     nMinimumDifficultyBlocks = 0,
     nHighSubsidyBlocks = 0,
     nHighSubsidyFactor = 1,
     nBudgetPaymentsStartBlock = 1,
     nBudgetPaymentsCycleBlocks = 14600,
     nBudgetPaymentsWindowBlocks = 100,
     nSuperblockStartBlock = 1,
     nSuperblockStartHash = uint256_null,
     nGovernanceMinQuorum = 10,
     MNTierForkHeight = 87500,
     V3ForkHeight = 87500,
     BRRHeight = 12096,
     nSuperblockCycle = 14600,
     nNewSuperBlockCycle = 29200,
     nNewSuperBlockStartHeight = 87601,
     nAutolykosSuperBlockCycle = 43200,
     nAutolykosSuperBlockStartHeight = 292001,
     nRuleChangeActivationThreshold = 3,
     nMinerConfirmationWindow = 3,
     vDeployments = [
       deployment 28 1199145601 1230767999 0 0 0 0,
       deployment 0 0 999999999999 0 0 0 0,
       deployment 1 0 999999999999 4032 3226 0 0,
       deployment 2 0 999999999999 4032 3226 0 0,
       deployment 3 0 999999999999 4032 3226 0 0,
       deployment 4 0 999999999999 4032 3226 0 0,
       deployment 5 0 999999999999 4032 3226 2420 5,
       deployment 7 999999999999 999999999999 4032 3226 2420 5,
       deployment 8 999999999999 999999999999 4032 3226 2420 5]\<rparr>"

end
