(* ===== verification/Blake2b.thy ===== *)
theory Blake2b
  imports Byte_Order
begin

text \<open>
  The hash function BLAKE2b (\<^verbatim>\<open>autolykos/src/blake2/blake2b.c\<close>) on which the Autolykos proof of
  work rests.  The context is the record \<open>blake2b_ctx\<close>, with the buffer and the state as lists.  The
  lemmas show that the streaming implementation computes the hash by blocks of its specification.
\<close>

unbundle bit_operations_syntax

section \<open>The compression function\<close>

definition ROTR64 :: "u64 \<Rightarrow> nat \<Rightarrow> u64" where
  "ROTR64 x y = drop_bit y x XOR push_bit (64 - y) x"

definition B2B_GET64 :: "bytes \<Rightarrow> u64" where
  "B2B_GET64 p =
     ucast (p ! 0) XOR push_bit 8 (ucast (p ! 1)) XOR push_bit 16 (ucast (p ! 2)) XOR push_bit 24 (ucast (p ! 3)) XOR
     push_bit 32 (ucast (p ! 4)) XOR push_bit 40 (ucast (p ! 5)) XOR push_bit 48 (ucast (p ! 6)) XOR push_bit 56 (ucast (p ! 7))"

definition B2B_G :: "nat \<Rightarrow> nat \<Rightarrow> nat \<Rightarrow> nat \<Rightarrow> u64 \<Rightarrow> u64 \<Rightarrow> u64 list \<Rightarrow> u64 list" where
  "B2B_G a b c d x y v =
     (let v = v[a := v ! a + v ! b + x];
          v = v[d := ROTR64 (v ! d XOR v ! a) 32];
          v = v[c := v ! c + v ! d];
          v = v[b := ROTR64 (v ! b XOR v ! c) 24];
          v = v[a := v ! a + v ! b + y];
          v = v[d := ROTR64 (v ! d XOR v ! a) 16];
          v = v[c := v ! c + v ! d]
      in v[b := ROTR64 (v ! b XOR v ! c) 63])"

definition blake2b_iv :: "u64 list" where
  "blake2b_iv = [
     0x6A09E667F3BCC908, 0xBB67AE8584CAA73B, 0x3C6EF372FE94F82B, 0xA54FF53A5F1D36F1,
     0x510E527FADE682D1, 0x9B05688C2B3E6C1F, 0x1F83D9ABFB41BD6B, 0x5BE0CD19137E2179]"

definition sigma :: "nat list list" where
  "sigma = [
     [0, 1, 2, 3, 4, 5, 6, 7, 8, 9, 10, 11, 12, 13, 14, 15],
     [14, 10, 4, 8, 9, 15, 13, 6, 1, 12, 0, 2, 11, 7, 5, 3],
     [11, 8, 12, 0, 5, 2, 15, 13, 10, 14, 3, 6, 7, 1, 9, 4],
     [7, 9, 3, 1, 13, 12, 11, 14, 2, 6, 5, 10, 4, 0, 15, 8],
     [9, 0, 5, 7, 2, 4, 10, 15, 14, 1, 11, 12, 6, 8, 3, 13],
     [2, 12, 6, 10, 0, 11, 8, 3, 4, 13, 7, 5, 15, 14, 1, 9],
     [12, 5, 1, 15, 14, 13, 4, 10, 0, 7, 6, 3, 9, 2, 8, 11],
     [13, 11, 7, 14, 12, 1, 3, 9, 5, 0, 15, 4, 8, 6, 2, 10],
     [6, 15, 14, 9, 11, 3, 0, 8, 12, 2, 13, 7, 1, 4, 10, 5],
     [10, 2, 8, 4, 7, 6, 1, 5, 15, 11, 9, 14, 3, 12, 13, 0],
     [0, 1, 2, 3, 4, 5, 6, 7, 8, 9, 10, 11, 12, 13, 14, 15],
     [14, 10, 4, 8, 9, 15, 13, 6, 1, 12, 0, 2, 11, 7, 5, 3]]"

text \<open>One round, with a row of \<open>sigma\<close>.\<close>

definition b2b_round :: "u64 list \<Rightarrow> nat list \<Rightarrow> u64 list \<Rightarrow> u64 list" where
  "b2b_round m s v =
     (let v = B2B_G 0 4 8 12 (m ! (s ! 0)) (m ! (s ! 1)) v;
          v = B2B_G 1 5 9 13 (m ! (s ! 2)) (m ! (s ! 3)) v;
          v = B2B_G 2 6 10 14 (m ! (s ! 4)) (m ! (s ! 5)) v;
          v = B2B_G 3 7 11 15 (m ! (s ! 6)) (m ! (s ! 7)) v;
          v = B2B_G 0 5 10 15 (m ! (s ! 8)) (m ! (s ! 9)) v;
          v = B2B_G 1 6 11 12 (m ! (s ! 10)) (m ! (s ! 11)) v;
          v = B2B_G 2 7 8 13 (m ! (s ! 12)) (m ! (s ! 13)) v
      in B2B_G 3 4 9 14 (m ! (s ! 14)) (m ! (s ! 15)) v)"

record blake2b_ctx =
  ctx_b :: bytes
  ctx_h :: "u64 list"
  ctx_t0 :: u64
  ctx_t1 :: u64
  ctx_c :: nat
  ctx_outlen :: nat

definition blake2b_compress :: "blake2b_ctx \<Rightarrow> bool \<Rightarrow> blake2b_ctx" where
  "blake2b_compress ctx is_last =
     (let v = ctx_h ctx @ blake2b_iv;
          v = v[12 := v ! 12 XOR ctx_t0 ctx];
          v = v[13 := v ! 13 XOR ctx_t1 ctx];
          v = (if is_last then v[14 := NOT (v ! 14)] else v);
          m = map (\<lambda>i. B2B_GET64 (drop (8 * i) (ctx_b ctx))) [0..<16];
          v = fold (b2b_round m) sigma v
      in ctx\<lparr>ctx_h := map (\<lambda>i. ctx_h ctx ! i XOR (v ! i XOR v ! (i + 8))) [0..<8]\<rparr>)"

section \<open>Streaming\<close>

text \<open>The counter of bytes, with the carry into its high word.\<close>

definition add_count :: "blake2b_ctx \<Rightarrow> blake2b_ctx" where
  "add_count ctx =
     (let t0 = ctx_t0 ctx + of_nat (ctx_c ctx)
      in ctx\<lparr>ctx_t0 := t0, ctx_t1 := (if t0 < of_nat (ctx_c ctx) then ctx_t1 ctx + 1 else ctx_t1 ctx)\<rparr>)"

definition update_byte :: "u8 \<Rightarrow> blake2b_ctx \<Rightarrow> blake2b_ctx" where
  "update_byte x ctx =
     (let ctx = (if ctx_c ctx = 128 then (blake2b_compress (add_count ctx) False)\<lparr>ctx_c := 0\<rparr> else ctx)
      in ctx\<lparr>ctx_b := (ctx_b ctx)[ctx_c ctx := x], ctx_c := ctx_c ctx + 1\<rparr>)"

definition blake2b_update :: "blake2b_ctx \<Rightarrow> bytes \<Rightarrow> blake2b_ctx" where
  "blake2b_update ctx inp = fold update_byte inp ctx"

text \<open>The return value \<open>-1\<close> is \<open>None\<close>.\<close>

definition blake2b_init :: "blake2b_ctx \<Rightarrow> nat \<Rightarrow> bytes \<Rightarrow> blake2b_ctx option" where
  "blake2b_init ctx outlen key =
     (let keylen = length key
      in if outlen = 0 \<or> outlen > 64 \<or> keylen > 64 then None
         else let ctx = ctx\<lparr>
                    ctx_h := blake2b_iv[0 := blake2b_iv ! 0 XOR (0x01010000 XOR push_bit 8 (of_nat keylen) XOR of_nat outlen)],
                    ctx_t0 := 0, ctx_t1 := 0, ctx_c := 0, ctx_outlen := outlen,
                    ctx_b := take keylen (ctx_b ctx) @ replicate (128 - keylen) 0\<rparr>
              in Some (if keylen > 0 then (blake2b_update ctx key)\<lparr>ctx_c := 128\<rparr> else ctx))"

definition blake2b_final :: "blake2b_ctx \<Rightarrow> bytes" where
  "blake2b_final ctx =
     (let ctx = add_count ctx;
          ctx = ctx\<lparr>ctx_b := take (ctx_c ctx) (ctx_b ctx) @ replicate (128 - ctx_c ctx) 0, ctx_c := 128\<rparr>;
          ctx = blake2b_compress ctx True
      in map (\<lambda>i. ucast (drop_bit (8 * (i mod 8)) (ctx_h ctx ! (i div 8)) AND 0xFF)) [0..<ctx_outlen ctx])"

text \<open>The context is a local variable that is not initialised: a parameter.\<close>

definition blake2b :: "blake2b_ctx \<Rightarrow> nat \<Rightarrow> bytes \<Rightarrow> bytes \<Rightarrow> bytes option" where
  "blake2b ctx outlen key inp =
     (case blake2b_init ctx outlen key of
        None \<Rightarrow> None
      | Some ctx \<Rightarrow> Some (blake2b_final (blake2b_update ctx inp)))"

definition blank_ctx :: blake2b_ctx where
  "blank_ctx = \<lparr>ctx_b = replicate 128 0, ctx_h = replicate 8 0, ctx_t0 = 0, ctx_t1 = 0, ctx_c = 0, ctx_outlen = 0\<rparr>"

abbreviation (input) BLAKE2B_OUTBYTES :: nat where "BLAKE2B_OUTBYTES \<equiv> 32"

definition Blake2b256 :: "bytes \<Rightarrow> bytes" where
  "Blake2b256 data = the (blake2b blank_ctx BLAKE2B_OUTBYTES [] data)"

definition computeBlake2bHash :: "string \<Rightarrow> bytes" where
  "computeBlake2bHash input = the (blake2b blank_ctx BLAKE2B_OUTBYTES [] (map of_char input))"

section \<open>The hash by blocks\<close>

text \<open>
  The hash as its specification, RFC 7693, describes it: the message is cut into blocks of 128
  bytes, the last of which may be short or, for the empty message, empty and is padded with zeros.
  Each block is compressed with the number of message bytes up to its end.
\<close>

definition b2_F :: "u64 list \<Rightarrow> bytes \<Rightarrow> nat \<Rightarrow> bool \<Rightarrow> u64 list" where
  "b2_F h blk t is_last =
     ctx_h (blake2b_compress \<lparr>ctx_b = blk, ctx_h = h, ctx_t0 = of_nat t, ctx_t1 = of_nat (t div 2 ^ 64),
       ctx_c = 0, ctx_outlen = 0\<rparr> is_last)"

function b2_blocks :: "u64 list \<Rightarrow> nat \<Rightarrow> bytes \<Rightarrow> u64 list" where
  "b2_blocks h n d =
     (if length d \<le> 128 then b2_F h (d @ replicate (128 - length d) 0) (n + length d) True
      else b2_blocks (b2_F h (take 128 d) (n + 128) False) (n + 128) (drop 128 d))"
  by auto
termination by (relation "measure (\<lambda>(h, n, d). length d)") auto

declare b2_blocks.simps [simp del]

definition b2_digest :: "nat \<Rightarrow> u64 list \<Rightarrow> bytes" where
  "b2_digest outlen h = take outlen (concat (map WriteLE64 h))"

definition counts :: "blake2b_ctx \<Rightarrow> nat \<Rightarrow> bool" where
  "counts ctx n \<longleftrightarrow> ctx_t0 ctx = of_nat n \<and> ctx_t1 ctx = of_nat (n div 2 ^ 64)"

text \<open>The well-formed contexts: a full buffer, eight words of state, and the fill level in range.\<close>

definition ctx_ok :: "blake2b_ctx \<Rightarrow> bool" where
  "ctx_ok ctx \<longleftrightarrow> length (ctx_b ctx) = 128 \<and> length (ctx_h ctx) = 8 \<and> ctx_c ctx \<le> 128 \<and> 0 < ctx_outlen ctx \<and> ctx_outlen ctx \<le> 64"

lemma compress_frame [simp]:
  "ctx_b (blake2b_compress ctx l) = ctx_b ctx" "ctx_t0 (blake2b_compress ctx l) = ctx_t0 ctx"
  "ctx_t1 (blake2b_compress ctx l) = ctx_t1 ctx" "ctx_c (blake2b_compress ctx l) = ctx_c ctx"
  "ctx_outlen (blake2b_compress ctx l) = ctx_outlen ctx" "length (ctx_h (blake2b_compress ctx l)) = 8"
  by (simp_all add: blake2b_compress_def Let_def)

lemma compress_F: "counts ctx n \<Longrightarrow> blake2b_compress ctx l = ctx\<lparr>ctx_h := b2_F (ctx_h ctx) (ctx_b ctx) n l\<rparr>"
  by (simp add: blake2b_compress_def b2_F_def counts_def Let_def)

lemma length_b2_F [simp]: "length (b2_F h blk t l) = 8" by (simp add: b2_F_def)

lemma length_b2_blocks [simp]: "length (b2_blocks h n d) = 8"
  by (induction h n d rule: b2_blocks.induct) (subst b2_blocks.simps, simp)

lemma carry:
  fixes n c :: nat
  assumes "c \<le> 128"
  shows "(of_nat n + of_nat c :: u64) < of_nat c \<longleftrightarrow> (n + c) div 2 ^ 64 = n div 2 ^ 64 + 1"
    and "(n + c) div 2 ^ 64 = n div 2 ^ 64 + 1 \<or> (n + c) div 2 ^ 64 = n div 2 ^ 64"
proof -
  define q r where "q = n div 2 ^ 64" and "r = n mod 2 ^ 64"
  have n: "n = 2 ^ 64 * q + r" and r: "r < 2 ^ 64" by (simp_all add: q_def r_def)
  have s: "(n + c) div 2 ^ 64 = q + (r + c) div 2 ^ 64" unfolding n by (simp add: add.assoc)
  have u: "unat (of_nat n + of_nat c :: u64) = (r + c) mod 2 ^ 64" "unat (of_nat c :: u64) = c"
    using assms unfolding of_nat_add [symmetric] unat_of_nat n by (simp_all add: add.assoc)
  have d: "(r + c) div 2 ^ 64 = (if r + c < 2 ^ 64 then 0 else 1)" "(r + c) mod 2 ^ 64 = (if r + c < 2 ^ 64 then r + c else r + c - 2 ^ 64)"
    using r assms by (simp_all add: div_nat_eqI mod_if)
  show "(n + c) div 2 ^ 64 = n div 2 ^ 64 + 1 \<or> (n + c) div 2 ^ 64 = n div 2 ^ 64"
    unfolding s d q_def [symmetric] by simp
  show "(of_nat n + of_nat c :: u64) < of_nat c \<longleftrightarrow> (n + c) div 2 ^ 64 = n div 2 ^ 64 + 1"
    unfolding word_less_nat_alt u s q_def [symmetric] d using r assms by auto
qed

lemma add_count_exact:
  assumes "counts ctx n" "ctx_c ctx \<le> 128"
  shows "add_count ctx = ctx\<lparr>ctx_t0 := of_nat (n + ctx_c ctx), ctx_t1 := of_nat ((n + ctx_c ctx) div 2 ^ 64)\<rparr>"
proof -
  consider "(n + ctx_c ctx) div 2 ^ 64 = n div 2 ^ 64 + 1" | "(n + ctx_c ctx) div 2 ^ 64 = n div 2 ^ 64"
    using carry(2) [OF assms(2), of n] by blast
  then show ?thesis
    using assms(1) carry(1) [OF assms(2), of n] unfolding add_count_def counts_def Let_def
    by cases (simp_all only: if_True if_False of_nat_add of_nat_1 simp_thms, simp_all)
qed

section \<open>Streaming computes the hash by blocks\<close>

lemma update_room:
  "length (ctx_b ctx) = 128 \<Longrightarrow> ctx_c ctx + length xs \<le> 128 \<Longrightarrow>
   blake2b_update ctx xs =
     ctx\<lparr>ctx_b := take (ctx_c ctx) (ctx_b ctx) @ xs @ drop (ctx_c ctx + length xs) (ctx_b ctx), ctx_c := ctx_c ctx + length xs\<rparr>"
proof (induction xs arbitrary: ctx)
  case (Cons x xs)
  define ctx' where "ctx' = ctx\<lparr>ctx_b := (ctx_b ctx)[ctx_c ctx := x], ctx_c := ctx_c ctx + 1\<rparr>"
  have "blake2b_update ctx (x # xs) = blake2b_update ctx' xs"
    using Cons.prems by (simp add: blake2b_update_def update_byte_def ctx'_def)
  also have "\<dots> = ctx'\<lparr>ctx_b := take (ctx_c ctx') (ctx_b ctx') @ xs @ drop (ctx_c ctx' + length xs) (ctx_b ctx'),
      ctx_c := ctx_c ctx' + length xs\<rparr>"
    by (rule Cons.IH) (use Cons.prems in \<open>simp_all add: ctx'_def\<close>)
  also have "\<dots> = ctx\<lparr>ctx_b := take (ctx_c ctx) (ctx_b ctx) @ (x # xs) @ drop (ctx_c ctx + length (x # xs)) (ctx_b ctx),
      ctx_c := ctx_c ctx + length (x # xs)\<rparr>"
    using Cons.prems by (simp add: ctx'_def take_Suc_conv_app_nth take_update_swap list_update_append)
  finally show ?case .
qed (simp add: blake2b_update_def)

lemma update_full:
  assumes "ctx_c ctx = 128" "xs \<noteq> []"
  shows "blake2b_update ctx xs = blake2b_update ((blake2b_compress (add_count ctx) False)\<lparr>ctx_c := 0\<rparr>) xs"
  using assms by (cases xs) (simp_all add: blake2b_update_def update_byte_def)

lemma update_append: "blake2b_update ctx (xs @ ys) = blake2b_update (blake2b_update ctx xs) ys"
  by (simp add: blake2b_update_def)

lemma WriteLE64_nth: "j < 8 \<Longrightarrow> WriteLE64 x ! j = ucast (drop_bit (8 * j) x)"
  unfolding WriteLE64_def by (rule limbs_of_word_nth)

lemma nth_concat_WriteLE64: "i < 8 * length h \<Longrightarrow> concat (map WriteLE64 h) ! i = WriteLE64 (h ! (i div 8)) ! (i mod 8)"
proof (induction h arbitrary: i)
  case (Cons x h)
  show ?case
  proof (cases "i < 8")
    case False
    then have "concat (map WriteLE64 (x # h)) ! i = concat (map WriteLE64 h) ! (i - 8)" by (simp add: nth_append)
    also have "\<dots> = WriteLE64 (h ! ((i - 8) div 8)) ! ((i - 8) mod 8)" using Cons False by simp
    also have "\<dots> = WriteLE64 ((x # h) ! (i div 8)) ! (i mod 8)" using False by (simp add: le_div_geq le_mod_geq)
    finally show ?thesis .
  qed (simp add: nth_append)
qed simp

lemma length_concat_WriteLE64 [simp]: "length (concat (map WriteLE64 h)) = 8 * length h"
  by (induction h) simp_all

lemma digest_words:
  assumes "outlen \<le> 8 * length h"
  shows "map (\<lambda>i. ucast (drop_bit (8 * (i mod 8)) (h ! (i div 8)) AND 0xFF)) [0..<outlen] = b2_digest outlen h"
proof (rule nth_equalityI)
  fix i assume "i < length (map (\<lambda>i. ucast (drop_bit (8 * (i mod 8)) (h ! (i div 8)) AND 0xFF) :: u8) [0..<outlen])"
  then have i: "i < outlen" by simp
  have "ucast (w AND 0xFF) = (ucast w :: u8)" for w :: u64 by (rule ucast_and_FF) simp
  then show "map (\<lambda>i. ucast (drop_bit (8 * (i mod 8)) (h ! (i div 8)) AND 0xFF)) [0..<outlen] ! i = b2_digest outlen h ! i"
    using i assms by (simp add: b2_digest_def nth_concat_WriteLE64 WriteLE64_nth)
qed (use assms in \<open>simp add: b2_digest_def\<close>)

lemma final_short:
  assumes "length (ctx_b ctx) = 128" "length (ctx_h ctx) = 8" "ctx_c ctx = 0" "ctx_outlen ctx \<le> 64" "counts ctx n" "length xs \<le> 128"
  shows "blake2b_final (blake2b_update ctx xs) =
    b2_digest (ctx_outlen ctx) (b2_F (ctx_h ctx) (xs @ replicate (128 - length xs) 0) (n + length xs) True)"
proof -
  define ctx' where "ctx' = blake2b_update ctx xs"
  have u: "ctx' = ctx\<lparr>ctx_b := xs @ drop (length xs) (ctx_b ctx), ctx_c := length xs\<rparr>"
    unfolding ctx'_def using update_room [of ctx xs] assms by simp
  then have "counts ctx' n" "ctx_c ctx' \<le> 128" using assms by (simp_all add: counts_def)
  note a = add_count_exact [OF this]
  define c2 where "c2 = ctx\<lparr>ctx_t0 := of_nat (n + length xs), ctx_t1 := of_nat ((n + length xs) div 2 ^ 64),
     ctx_b := xs @ replicate (128 - length xs) 0, ctx_c := 128\<rparr>"
  have "counts c2 (n + length xs)" by (simp add: c2_def counts_def)
  note f = compress_F [OF this, of True]
  have "(let c = add_count ctx' in c\<lparr>ctx_b := take (ctx_c c) (ctx_b c) @ replicate (128 - ctx_c c) 0, ctx_c := 128\<rparr>) = c2"
    unfolding a Let_def by (simp add: u c2_def)
  then have "blake2b_final ctx' = (let ctx = blake2b_compress c2 True
      in map (\<lambda>i. ucast (drop_bit (8 * (i mod 8)) (ctx_h ctx ! (i div 8)) AND 0xFF)) [0..<ctx_outlen ctx])"
    unfolding blake2b_final_def by (simp only: Let_def)
  also have "\<dots> = b2_digest (ctx_outlen ctx) (b2_F (ctx_h ctx) (xs @ replicate (128 - length xs) 0) (n + length xs) True)"
    unfolding f Let_def using assms by (simp add: digest_words c2_def)
  finally show ?thesis unfolding ctx'_def .
qed

lemma stream_blocks:
  assumes "length (ctx_b ctx) = 128" "length (ctx_h ctx) = 8" "ctx_c ctx = 0" "ctx_outlen ctx \<le> 64" "counts ctx n"
  shows "blake2b_final (blake2b_update ctx xs) = b2_digest (ctx_outlen ctx) (b2_blocks (ctx_h ctx) n xs)"
  using assms
proof (induction "length xs" arbitrary: ctx n xs rule: less_induct)
  case less
  show ?case
  proof (cases "length xs \<le> 128")
    case True
    then show ?thesis using final_short less.prems by (simp add: b2_blocks.simps)
  next
    case False
    define c1 where "c1 = blake2b_update ctx (take 128 xs)"
    have c1: "c1 = ctx\<lparr>ctx_b := take 128 xs, ctx_c := 128\<rparr>"
      unfolding c1_def using update_room [of ctx "take 128 xs"] less.prems False by simp
    then have "counts c1 n" "ctx_c c1 \<le> 128" using less.prems by (simp_all add: counts_def)
    note a = add_count_exact [OF this]
    define c2 where "c2 = ctx\<lparr>ctx_t0 := of_nat (n + 128), ctx_t1 := of_nat ((n + 128) div 2 ^ 64), ctx_b := take 128 xs, ctx_c := 128\<rparr>"
    have a2: "add_count c1 = c2" unfolding a by (simp add: c1 c2_def)
    have "counts c2 (n + 128)" by (simp add: c2_def counts_def)
    note f = compress_F [OF this, of False]
    define c3 where "c3 = c2\<lparr>ctx_h := b2_F (ctx_h c2) (ctx_b c2) (n + 128) False, ctx_c := 0\<rparr>"
    have "blake2b_update ctx xs = blake2b_update c1 (drop 128 xs)"
      unfolding c1_def by (simp flip: update_append)
    also have "\<dots> = blake2b_update c3 (drop 128 xs)"
      using False by (subst update_full) (simp_all add: c1 a2 [unfolded c1] f c3_def)
    finally have "blake2b_final (blake2b_update ctx xs) = blake2b_final (blake2b_update c3 (drop 128 xs))" by simp
    also have "\<dots> = b2_digest (ctx_outlen c3) (b2_blocks (ctx_h c3) (n + 128) (drop 128 xs))"
      using False less.prems by (intro less.hyps) (simp_all add: c3_def c2_def counts_def)
    also have "\<dots> = b2_digest (ctx_outlen ctx) (b2_blocks (ctx_h ctx) n xs)"
      using False by (subst (2) b2_blocks.simps) (simp add: c3_def c2_def)
    finally show ?thesis .
  qed
qed

section \<open>Properties\<close>

lemma update_ok: "ctx_ok ctx \<Longrightarrow> ctx_ok (blake2b_update ctx xs)"
proof (induction xs arbitrary: ctx)
  case (Cons x xs)
  have "ctx_ok (update_byte x ctx)" using Cons.prems by (auto simp: ctx_ok_def update_byte_def add_count_def Let_def)
  from Cons.IH [OF this] show ?case by (simp add: blake2b_update_def)
qed (simp add: blake2b_update_def)

lemma update_outlen: "ctx_outlen (blake2b_update c xs) = ctx_outlen c"
  unfolding blake2b_update_def by (induction xs arbitrary: c) (simp_all add: update_byte_def add_count_def Let_def)

lemma length_final: "length (blake2b_final d) = ctx_outlen d" by (simp add: blake2b_final_def add_count_def Let_def)

lemma init_ok:
  assumes "length (ctx_b ctx) = 128" "blake2b_init ctx outlen key = Some ctx'"
  shows "ctx_ok ctx' \<and> ctx_outlen ctx' = outlen"
proof -
  define c where "c = ctx\<lparr>
     ctx_h := blake2b_iv[0 := blake2b_iv ! 0 XOR (0x01010000 XOR push_bit 8 (of_nat (length key)) XOR of_nat outlen)],
     ctx_t0 := 0, ctx_t1 := 0, ctx_c := 0, ctx_outlen := outlen,
     ctx_b := take (length key) (ctx_b ctx) @ replicate (128 - length key) 0\<rparr>"
  have r: "0 < outlen \<and> outlen \<le> 64 \<and> length key \<le> 64" and
    c': "ctx' = (if 0 < length key then (blake2b_update c key)\<lparr>ctx_c := 128\<rparr> else c)"
    using assms(2) unfolding blake2b_init_def c_def Let_def by (auto split: if_splits)
  have c: "ctx_ok c" "ctx_outlen c = outlen" using assms(1) r by (simp_all add: c_def ctx_ok_def blake2b_iv_def)
  show ?thesis using c c' update_ok [OF c(1), of key] update_outlen [of c key] by (auto simp: ctx_ok_def)
qed

text \<open>
  The hash contexts are well-typed through every call: from a buffer of 128 bytes
  \<^verbatim>\<open>blake2b_init\<close> either refuses its parameters or yields a context with a full buffer, eight
  state words, a fill level of at most 128 and an output length of at most 64, every
  \<^verbatim>\<open>blake2b_update\<close> keeps such a context, and \<^verbatim>\<open>blake2b_final\<close> then writes exactly as many
  bytes as were announced.
\<close>

theorem blake2b_typed:
  assumes "length (ctx_b ctx) = 128"
  shows "case blake2b_init ctx outlen key of
      None \<Rightarrow> outlen = 0 \<or> 64 < outlen \<or> 64 < length key
    | Some ctx' \<Rightarrow> ctx_ok ctx' \<and> ctx_ok (blake2b_update ctx' xs) \<and>
        length (blake2b_final (blake2b_update ctx' xs)) = outlen"
proof (cases "blake2b_init ctx outlen key")
  case (Some c)
  then show ?thesis using init_ok [OF assms Some] update_ok update_outlen length_final by simp
qed (auto simp: blake2b_init_def Let_def split: if_splits)

theorem blake2b_typed_witness:
  "\<exists>c. blake2b_init blank_ctx 32 [] = Some c \<and> ctx_ok c \<and> length (blake2b_final (blake2b_update c [1, 2, 3])) = 32"
proof -
  have "length (ctx_b blank_ctx) = 128" by (simp add: blank_ctx_def)
  from blake2b_typed [OF this, of 32 "[]" "[1, 2, 3]"] show ?thesis
    by (cases "blake2b_init blank_ctx 32 []") simp_all
qed

text \<open>
  C39. The streaming implementation computes the hash that the specification defines on blocks: for
  every message, and whatever the context contained before, \<^verbatim>\<open>blake2b\<close> without a key compresses the
  blocks of 128 bytes in order, each with the number of bytes up to its end as a 128-bit counter,
  the last padded with zeros and marked, and stores the first words of the state in
  little-endian order.
\<close>

theorem blake2b_hashes_blocks:
  assumes "0 < outlen" "outlen \<le> 64"
  shows "blake2b ctx outlen [] xs =
    Some (b2_digest outlen (b2_blocks ((0x6A09E667F3BCC908 XOR 0x01010000 XOR of_nat outlen) # tl blake2b_iv) 0 xs))"
proof -
  define c where "c = ctx\<lparr>ctx_h := (0x6A09E667F3BCC908 XOR 0x01010000 XOR of_nat outlen) # tl blake2b_iv,
     ctx_t0 := 0, ctx_t1 := 0, ctx_c := 0, ctx_outlen := outlen, ctx_b := replicate 128 0\<rparr>"
  have "blake2b_init ctx outlen [] = Some c"
    using assms by (simp add: blake2b_init_def Let_def c_def blake2b_iv_def xor.assoc)
  moreover have "blake2b_final (blake2b_update c xs) = b2_digest (ctx_outlen c) (b2_blocks (ctx_h c) 0 xs)"
    by (rule stream_blocks) (use assms in \<open>simp_all add: c_def counts_def blake2b_iv_def\<close>)
  ultimately show ?thesis by (simp add: blake2b_def c_def)
qed

theorem blake2b_hashes_blocks_witness:
  "Blake2b256 [1, 2, 3] =
    b2_digest 32 (b2_blocks ((0x6A09E667F3BCC908 XOR 0x01010000 XOR 32) # tl blake2b_iv) 0 [1, 2, 3])"
  using blake2b_hashes_blocks [of 32 blank_ctx "[1, 2, 3]"] by (simp add: Blake2b256_def)

lemma length_Blake2b256 [simp]: "length (Blake2b256 xs) = 32"
proof -
  have "blake2b_init blank_ctx 32 [] \<noteq> None" by (simp add: blake2b_init_def Let_def)
  then obtain c where c: "blake2b_init blank_ctx 32 [] = Some c" by blast
  have "ctx_ok c \<and> ctx_outlen c = 32" by (rule init_ok [OF _ c]) (simp add: blank_ctx_def)
  then show ?thesis using update_outlen [of c xs] by (simp add: Blake2b256_def blake2b_def c length_final)
qed

end
