(* ===== verification/Autolykos.thy ===== *)
theory Autolykos
  imports Block Hex_Text Blake2b Compact_Bits Script_Ops
begin

text \<open>
  The Autolykos proof of work (\<^verbatim>\<open>autolykos/src\<close>) and the hashes of block headers
  (\<^verbatim>\<open>primitives/block.cpp\<close>): the table size, the puzzle over BLAKE2b, the text of a header that
  it signs, and \<^verbatim>\<open>AutolykosHash\<close>.  The big numbers of Boost are a parameter with their documented
  behaviour.  The lemmas show that the implementation computes the puzzle of the Autolykos paper,
  stated on numbers as \<open>puzzle_hit\<close>.
\<close>

unbundle bit_operations_syntax

section \<open>Libraries\<close>

text \<open>
  What the code calls of Boost: the byte export and import, the parser and the hexadecimal printer of
  \<^verbatim>\<open>cpp_int\<close>, whose values are natural numbers here, and the byte order conversions.
  \<open>boost_ok\<close> is their documented behaviour on a little-endian host: import and export are
  inverse, with the most significant byte first and no more bytes than the number has.
\<close>

record Boost =
  import_bits :: "bytes \<Rightarrow> nat"
  export_bits :: "nat \<Rightarrow> bytes"
  cpp_int_of :: "string \<Rightarrow> nat"
  cpp_int_hex :: "nat \<Rightarrow> string"
  big_to_native :: "u32 \<Rightarrow> u32"
  native_to_big :: "u32 \<Rightarrow> u32"

definition be_val :: "bytes \<Rightarrow> nat" where "be_val bs = limbs_val (rev bs)"

definition boost_ok :: "Boost \<Rightarrow> bool" where
  "boost_ok B \<longleftrightarrow>
     (\<forall>bs. import_bits B bs = be_val bs) \<and>
     (\<forall>n. be_val (export_bits B n) = n) \<and>
     (\<forall>n k. 0 < k \<longrightarrow> n < 256 ^ k \<longrightarrow> length (export_bits B n) \<le> k) \<and>
     (\<forall>s. is_hex s \<longrightarrow> s \<noteq> [] \<longrightarrow> cpp_int_of B (''0x'' @ s) = hex_val s) \<and>
     (\<forall>n. is_hex (cpp_int_hex B n) \<and> hex_val (cpp_int_hex B n) = n) \<and>
     (\<forall>w. big_to_native B w = ReadLE32 (rev (WriteLE32 w))) \<and>
     (\<forall>w. native_to_big B w = ReadLE32 (rev (WriteLE32 w)))"

text \<open>\<^verbatim>\<open>strtol\<close> of the standard library with base 16, for texts that do not overflow.\<close>

definition strtol16 :: "string \<Rightarrow> int" where
  "strtol16 s =
     (let s = dropWhile IsSpace s;
          neg = (s \<noteq> [] \<and> hd s = CHR ''-'');
          s = (if s \<noteq> [] \<and> (hd s = CHR ''-'' \<or> hd s = CHR ''+'') then tl s else s);
          s = (if length s \<ge> 3 \<and> s ! 0 = CHR ''0'' \<and> ToLower (s ! 1) = CHR ''x'' \<and> HexDigit (s ! 2) \<noteq> - 1 then drop 2 s else s);
          v = int (hex_val (takeWhile (\<lambda>c. HexDigit c \<noteq> - 1) s))
      in if neg then - v else v)"

section \<open>Headers\<close>

text \<open>
  Class \<^verbatim>\<open>Header\<close> extends \<^verbatim>\<open>HeaderWithoutPow\<close> here; its height is an \<^verbatim>\<open>int\<close> with the bits
  of the \<^verbatim>\<open>uint32_t\<close> it is made of.  Its members \<^verbatim>\<open>votes\<close> and \<^verbatim>\<open>sizeOpt\<close> are never read.
\<close>

record HeaderWithoutPow =
  a_version :: u8
  a_parentId :: bytes
  a_transactionsRoot :: bytes
  a_timestamp :: u64
  a_nBits :: u32
  a_height :: u32

record Header = HeaderWithoutPow +
  powSolution_n :: bytes

definition toHeaderWithoutPow :: "Header \<Rightarrow> HeaderWithoutPow" where
  "toHeaderWithoutPow header =
     \<lparr>a_version = a_version header, a_parentId = a_parentId header, a_transactionsRoot = a_transactionsRoot header,
      a_timestamp = a_timestamp header, a_nBits = a_nBits header, a_height = a_height header\<rparr>"

fun hex_pairs :: "string \<Rightarrow> bytes" where
  "hex_pairs (c # d # s) = word_of_int (strtol16 [c, d]) # hex_pairs s"
| "hex_pairs [c] = [word_of_int (strtol16 [c])]"
| "hex_pairs [] = []"

text \<open>\<^verbatim>\<open>hexToArrayDigest32\<close> has the same body, with an array for the vector.\<close>

definition hexToBytesModifierId :: "string \<Rightarrow> bytes outcome" where
  "hexToBytesModifierId hex =
     (let hex_str = (if take 2 hex = ''0x'' then drop 2 hex else hex)
      in if length hex_str \<noteq> 64 then Throw else Ok (hex_pairs hex_str))"

definition hexToArrayDigest32 :: "string \<Rightarrow> bytes outcome" where
  "hexToArrayDigest32 hex =
     (let hex_str = (if take 2 hex = ''0x'' then drop 2 hex else hex)
      in if length hex_str \<noteq> 64 then Throw else Ok (hex_pairs hex_str))"

definition uint64ToBytes :: "u64 \<Rightarrow> bytes" where
  "uint64ToBytes number = rev (map (\<lambda>i. ucast (drop_bit (8 * i) number AND 0xFF)) [0..<8])"

definition reverseUint256 :: "uint256 \<Rightarrow> uint256" where "reverseUint256 value = rev value"

text \<open>The constructor of \<^verbatim>\<open>uint256\<close> from a vector asserts that it has 32 bytes.\<close>

definition serializeWithoutPow :: "HeaderWithoutPow \<Rightarrow> bytes outcome" where
  "serializeWithoutPow h =
     (if length (a_parentId h) \<noteq> 32 then Abort
      else Ok (ser_writedata32 (ucast (a_version h)) @ reverseUint256 (a_parentId h) @ reverseUint256 (a_transactionsRoot h) @
               ser_writedata32 (ucast (a_timestamp h)) @ ser_writedata32 (a_nBits h) @ ser_writedata32 (a_height h)))"

definition bytesWithoutPow :: "HeaderWithoutPow \<Rightarrow> bytes outcome" where
  "bytesWithoutPow header = serializeWithoutPow header"

definition msgByHeader :: "HeaderWithoutPow \<Rightarrow> bytes outcome" where
  "msgByHeader h = obind (bytesWithoutPow h) (\<lambda>data. Ok (computeBlake2bHash (HexStr data)))"

section \<open>The puzzle\<close>

abbreviation (input) a_k :: nat where "a_k \<equiv> 32"

definition NBase :: int where "NBase = 2 ^ 26"
definition IncreaseStart :: int where "IncreaseStart = 600 * 1024"
definition IncreasePeriodForN :: int where "IncreasePeriodForN = 50 * 1024"
definition NIncreasementHeightMax :: int where "NIncreasementHeightMax = 4198400"

primrec calcN_loop :: "nat \<Rightarrow> int \<Rightarrow> int" where
  "calcN_loop 0 result = result"
| "calcN_loop (Suc i) result = calcN_loop i (result sdiv 100 * 105)"

definition calcN :: "int \<Rightarrow> int" where
  "calcN headerHeight =
     (let height = min NIncreasementHeightMax headerHeight
      in if height < IncreaseStart then NBase
         else let itersNumber = (height - IncreaseStart) sdiv IncreasePeriodForN + 1
              in calcN_loop (nat itersNumber) NBase)"

definition getB :: "u32 \<Rightarrow> u256" where "getB bits = fst (SetCompact bits)"

definition arith_uint256_to_cpp_int :: "Boost \<Rightarrow> u256 \<Rightarrow> nat" where
  "arith_uint256_to_cpp_int B a256 = cpp_int_of B (''0x'' @ GetHex (ArithToUint256 a256))"

text \<open>An unsigned remainder, stored as an \<^verbatim>\<open>int\<close>.\<close>

definition genIndexes :: "Boost \<Rightarrow> bytes \<Rightarrow> int \<Rightarrow> int list outcome" where
  "genIndexes B seed N =
     (let hash = Blake2b256 seed;
          extendedHash = hash @ take 3 hash;
          indexes = map (\<lambda>i. sint (big_to_native B (ReadLE32 (drop i extendedHash)) mod word_of_int N)) [0..<a_k]
      in if length indexes \<noteq> a_k then Throw else Ok indexes)"

definition a_M :: bytes where
  "a_M = concat (map (\<lambda>i. map (\<lambda>j. word_of_nat (i div 2 ^ (j * 8))) [7, 6, 5, 4, 3, 2, 1, 0]) [0..<1024])"

definition genElement :: "Boost \<Rightarrow> bytes \<Rightarrow> bytes \<Rightarrow> nat" where
  "genElement B indexBytes heightBytes = import_bits B (tl (Blake2b256 (indexBytes @ heightBytes @ a_M)))"

definition resizeAsBigEndian :: "bytes \<Rightarrow> nat \<Rightarrow> bytes" where
  "resizeAsBigEndian vec newSize =
     (if length vec < newSize then replicate (newSize - length vec) 0 @ vec
      else if length vec > newSize then take newSize vec
      else vec)"

definition hit :: "Boost \<Rightarrow> Header \<Rightarrow> nat outcome" where
  "hit B header =
     obind (msgByHeader (toHeaderWithoutPow header)) (\<lambda>msg.
       let nonce = powSolution_n header;
           h = map (\<lambda>s. ucast (drop_bit s (a_height header) AND 0xFF)) [24, 16, 8, 0];
           N = calcN (sint (a_height header));
           hashResult = Blake2b256 (msg @ nonce);
           prei8_bytes = drop (length hashResult - 8) hashResult;
           prei8 = import_bits B prei8_bytes;
           i = export_bits B (prei8 mod nat N);
           i = resizeAsBigEndian i 4;
           f = tl (Blake2b256 (i @ h @ a_M));
           seed = f @ msg @ nonce
       in obind (genIndexes B seed N) (\<lambda>indexes.
            let f2 = sum_list (map (\<lambda>idx. genElement B (WriteLE32 (native_to_big B (word_of_int idx))) h) indexes);
                array = resizeAsBigEndian (export_bits B f2) 32;
                ha = Blake2b256 array
            in Ok (import_bits B ha)))"

definition validate :: "Boost \<Rightarrow> Header \<Rightarrow> bool outcome" where
  "validate B header =
     (let b = arith_uint256_to_cpp_int B (getB (a_nBits header))
      in obind (hit B header) (\<lambda>h. Ok (if h \<ge> b then False else True)))"

section \<open>Block hashes\<close>

text \<open>The header of the puzzle that \<^verbatim>\<open>AutolykosHash\<close> and \<^verbatim>\<open>CheckProofOfWork\<close> build from a block header.\<close>

definition puzzle_header :: "u8 \<Rightarrow> 'a CBlockHeader_scheme \<Rightarrow> u32 \<Rightarrow> Header outcome" where
  "puzzle_header version b bits =
     (let nonce = uint64ToBytes (hd_nNewNonce b)
      in obind (hexToBytesModifierId (GetHex (hd_hashPrevBlock b))) (\<lambda>parentId.
         obind (hexToArrayDigest32 (GetHex (hd_hashMerkleRoot b))) (\<lambda>transactionsRoot.
           Ok \<lparr>a_version = version, a_parentId = parentId, a_transactionsRoot = transactionsRoot,
               a_timestamp = ucast (hd_nTime b), a_nBits = bits, a_height = hd_aHeight b, powSolution_n = nonce\<rparr>)))"

definition AutolykosHash :: "Boost \<Rightarrow> 'a CBlockHeader_scheme \<Rightarrow> uint256 outcome" where
  "AutolykosHash B b =
     obind (puzzle_header 0x05 b (hd_nBits b)) (\<lambda>h. obind (hit B h) (\<lambda>v. Ok (uint256S (cpp_int_hex B v))))"

text \<open>The X11 hash is a parameter.\<close>

definition GetHash :: "Boost \<Rightarrow> (bytes \<Rightarrow> uint256) \<Rightarrow> 'a CBlockHeader_scheme \<Rightarrow> uint256 outcome" where
  "GetHash B HashX11 b =
     (let vch = CBlockHeader_ser b
      in if hd_nVersion b \<noteq> 0x05 then Ok (HashX11 vch) else AutolykosHash B b)"
section \<open>The table size\<close>

lemma calcN_loop_Suc: "calcN_loop (Suc i) r = calcN_loop i r sdiv 100 * 105"
  by (induction i arbitrary: r) simp_all

lemma calcN_loop_add: "calcN_loop (i + j) r = calcN_loop j (calcN_loop i r)"
  by (induction i arbitrary: r) simp_all

lemma calcN_step_mono: "2000 \<le> r \<Longrightarrow> r \<le> r sdiv 100 * 105" for r :: int
  by (simp add: int_sdiv_pos) presburger

lemma calcN_loop_mono: "2000 \<le> r \<Longrightarrow> r \<le> calcN_loop i r"
proof (induction i arbitrary: r)
  case (Suc i)
  have "r \<le> r sdiv 100 * 105" by (rule calcN_step_mono [OF Suc.prems])
  moreover from this have "2000 \<le> r sdiv 100 * 105" using Suc.prems by linarith
  then have "r sdiv 100 * 105 \<le> calcN_loop i (r sdiv 100 * 105)" by (rule Suc.IH)
  ultimately show ?case by simp
qed simp

lemma calcN_loop_le: "i \<le> j \<Longrightarrow> 2000 \<le> r \<Longrightarrow> calcN_loop i r \<le> calcN_loop j r"
  using calcN_loop_mono [of "calcN_loop i r" "j - i"] calcN_loop_mono [of r i] calcN_loop_add [of i "j - i" r] by simp

lemma calcN_loop_max: "calcN_loop 71 NBase = 2143944600"
  by (simp add: NBase_def eval_nat_numeral(3) numeral_eq_Suc int_sdiv_pos)

definition calcN_iters :: "int \<Rightarrow> nat" where
  "calcN_iters height = (if min NIncreasementHeightMax height < IncreaseStart then 0
     else nat ((min NIncreasementHeightMax height - IncreaseStart) sdiv IncreasePeriodForN + 1))"

lemma calcN_iters: "calcN height = calcN_loop (calcN_iters height) NBase"
  by (simp add: calcN_def calcN_iters_def Let_def)

lemma calcN_iters_mono: "h \<le> h' \<Longrightarrow> calcN_iters h \<le> calcN_iters h'"
proof -
  assume "h \<le> h'"
  define m m' where "m = min NIncreasementHeightMax h" and "m' = min NIncreasementHeightMax h'"
  have "m \<le> m'" using \<open>h \<le> h'\<close> by (simp add: m_def m'_def)
  moreover have "(m - IncreaseStart) sdiv IncreasePeriodForN \<le> (m' - IncreaseStart) sdiv IncreasePeriodForN" if "IncreaseStart \<le> m"
    using that \<open>m \<le> m'\<close> by (simp add: int_sdiv_pos IncreasePeriodForN_def zdiv_mono1)
  ultimately show ?thesis unfolding calcN_iters_def m_def [symmetric] m'_def [symmetric] by (auto intro!: nat_mono)
qed

lemma calcN_iters_max: "calcN_iters h \<le> 71"
proof -
  have "calcN_iters h \<le> calcN_iters (max h NIncreasementHeightMax)" by (rule calcN_iters_mono) simp
  also have "\<dots> = 71" by (simp add: calcN_iters_def NIncreasementHeightMax_def IncreaseStart_def IncreasePeriodForN_def int_sdiv_pos min_def max_def)
  finally show ?thesis .
qed

lemma calcN_range: "2 ^ 26 \<le> calcN h" "calcN h \<le> 2143944600"
  using calcN_loop_mono [of NBase "calcN_iters h"] calcN_loop_le [OF calcN_iters_max, of NBase h] calcN_loop_max
  by (simp_all add: calcN_iters NBase_def)

section \<open>Big-endian numbers\<close>

definition be_bytes :: "nat \<Rightarrow> nat \<Rightarrow> bytes" where "be_bytes k n = rev (limbs_of k n)"

lemma be_val_bound: "be_val bs < 256 ^ length bs"
  using limbs_val_bound [of "rev bs"] by (simp add: be_val_def power_mult)

lemma be_val_zeros: "be_val (replicate n 0 @ bs) = be_val bs"
  by (simp add: be_val_def limbs_val_append)

lemma be_bytes_unique: "length bs = k \<Longrightarrow> be_bytes k (be_val bs) = bs"
  using limbs_of_limbs_val [of "rev bs"] by (simp add: be_bytes_def be_val_def)

lemma resize_export:
  assumes "boost_ok B" "0 < k" "n < 256 ^ k"
  shows "resizeAsBigEndian (export_bits B n) k = be_bytes k n"
proof -
  define bs where "bs = replicate (k - length (export_bits B n)) 0 @ export_bits B n"
  have len: "length (export_bits B n) \<le> k" and "be_val (export_bits B n) = n"
    using assms by (simp_all add: boost_ok_def)
  then have "be_val bs = n" "length bs = k" by (simp_all add: bs_def be_val_zeros)
  then have "bs = be_bytes k n" using be_bytes_unique by metis
  moreover have "resizeAsBigEndian (export_bits B n) k = bs" using len by (simp add: resizeAsBigEndian_def bs_def)
  ultimately show ?thesis by simp
qed

lemma rev_WriteLE32: "rev (WriteLE32 w) = be_bytes 4 (unat w)" by (simp add: WriteLE32_def be_bytes_def)

lemma index_bytes:
  assumes "boost_ok B"
  shows "WriteLE32 (native_to_big B w) = be_bytes 4 (unat w)"
proof -
  have "native_to_big B w = ReadLE32 (rev (WriteLE32 w))" using assms by (simp add: boost_ok_def)
  then show ?thesis using WriteLE_ReadLE(2) [of "rev (WriteLE32 w)"] by (simp add: rev_WriteLE32 [symmetric])
qed

lemma read_big:
  assumes "boost_ok B" "4 \<le> length p"
  shows "unat (big_to_native B (ReadLE32 p)) = be_val (take 4 p)"
proof -
  have "big_to_native B (ReadLE32 p) = ReadLE32 (rev (WriteLE32 (ReadLE32 p)))" using assms by (simp add: boost_ok_def)
  also have "\<dots> = ReadLE32 (rev (take 4 p))" by (simp only: WriteLE_ReadLE(2) [OF assms(2)])
  finally show ?thesis using assms(2) by (simp add: unat_ReadLE be_val_def)
qed

lemma height_bytes: "map (\<lambda>s. ucast (drop_bit s w AND 0xFF)) [24, 16, 8, 0] = be_bytes 4 (unat w)" for w :: u32
proof -
  have m: "ucast (v AND 0xFF) = (ucast v :: u8)" for v :: u32 by (rule ucast_and_FF) simp
  have "be_bytes 4 (unat w) = rev (map (\<lambda>j. limbs_of 4 (unat w) ! j) [0..<4])"
    unfolding be_bytes_def by (metis length_limbs_of map_nth)
  also have "map (\<lambda>j. (limbs_of 4 (unat w) :: bytes) ! j) [0..<4] = map (\<lambda>j. ucast (drop_bit (8 * j) w)) [0..<4]"
    by (rule map_cong) (simp_all add: limbs_of_word_nth)
  finally show ?thesis by (simp add: m upt_rec)
qed

section \<open>The puzzle\<close>

text \<open>
  The puzzle of the Autolykos paper, on numbers: a table of \<open>N\<close> elements, each the last 31
  bytes of the hash of its index, the height and a constant; the element that the message and the
  nonce select seeds 32 further indices, cut out of one hash at each byte position; the hit is the
  hash of the sum of the elements there.
\<close>

definition table_element :: "nat \<Rightarrow> bytes \<Rightarrow> bytes" where
  "table_element j h = tl (Blake2b256 (be_bytes 4 j @ h @ a_M))"

definition puzzle_indices :: "nat \<Rightarrow> bytes \<Rightarrow> nat list" where
  "puzzle_indices N seed = (let e = Blake2b256 seed in map (\<lambda>j. be_val (take 4 (drop j (e @ take 3 e))) mod N) [0..<32])"

definition puzzle_hit :: "bytes \<Rightarrow> bytes \<Rightarrow> u32 \<Rightarrow> nat" where
  "puzzle_hit msg nonce height =
     (let N = nat (calcN (sint height)); h = be_bytes 4 (unat height);
          i = be_val (drop 24 (Blake2b256 (msg @ nonce))) mod N;
          J = puzzle_indices N (table_element i h @ msg @ nonce)
      in be_val (Blake2b256 (be_bytes 32 (\<Sum>j\<leftarrow>J. be_val (table_element j h)))))"

lemma length_table_element [simp]: "length (table_element j h) = 31" by (simp add: table_element_def)

lemma puzzle_indices_bound: "0 < N \<Longrightarrow> j \<in> set (puzzle_indices N seed) \<Longrightarrow> j < N"
  by (auto simp: puzzle_indices_def Let_def)

lemma sum_elements_bound: "(\<Sum>j\<leftarrow>js. be_val (table_element j h)) \<le> length js * 256 ^ 31"
proof (induction js)
  case (Cons j js)
  have "be_val (table_element j h) \<le> 256 ^ 31" using be_val_bound [of "table_element j h"] by simp
  with Cons show ?case by (simp only: list.map sum_list.Cons length_Cons mult_Suc add_mono)
qed simp

lemma genIndexes_exact:
  assumes "boost_ok B" "0 < N" "N < 2 ^ 31"
  shows "genIndexes B seed N = Ok (map int (puzzle_indices (nat N) seed))"
proof -
  define ext where "ext = Blake2b256 seed @ take 3 (Blake2b256 seed)"
  have "sint (big_to_native B (ReadLE32 (drop i ext)) mod word_of_int N) = int (be_val (take 4 (drop i ext)) mod nat N)" if "i < 32" for i
  proof -
    obtain n where n: "N = int n" "n < 2 ^ 31" using assms(2,3) by (cases N) simp_all
    then have u: "unat (word_of_int N :: u32) = nat N" by (simp add: unat_of_nat)
    define w where "w = big_to_native B (ReadLE32 (drop i ext)) mod word_of_int N"
    have "unat w = be_val (take 4 (drop i ext)) mod nat N"
      unfolding w_def unat_mod_distrib u using read_big [OF assms(1), of "drop i ext"] that by (simp add: ext_def)
    moreover from this have "unat w < 2 ^ 31" using assms(2,3) by (simp add: less_le_trans [OF mod_less_divisor])
    then have "sint w = int (unat w)" by (rule sint_u32_nonneg)
    ultimately show ?thesis unfolding w_def by simp
  qed
  moreover have "puzzle_indices (nat N) seed = map (\<lambda>j. be_val (take 4 (drop j ext)) mod nat N) [0..<32]"
    by (simp only: puzzle_indices_def Let_def ext_def)
  ultimately have "map (\<lambda>i. sint (big_to_native B (ReadLE32 (drop i ext)) mod word_of_int N)) [0..<32] = map int (puzzle_indices (nat N) seed)"
    by simp
  then show ?thesis by (simp add: genIndexes_def Let_def ext_def)
qed

lemma genElement_exact:
  assumes "boost_ok B" "j < 2 ^ 31"
  shows "genElement B (WriteLE32 (native_to_big B (word_of_int (int j)))) h = be_val (table_element j h)"
proof -
  have "unat (word_of_int (int j) :: u32) = j" using assms(2) by (simp add: unat_of_nat)
  moreover have "import_bits B bs = be_val bs" for bs using assms(1) by (simp add: boost_ok_def)
  ultimately show ?thesis by (simp only: genElement_def index_bytes [OF assms(1)] table_element_def)
qed

lemma hit_exact:
  assumes "boost_ok B" "msgByHeader (toHeaderWithoutPow header) = Ok msg"
  shows "hit B header = Ok (puzzle_hit msg (powSolution_n header) (a_height header))"
proof -
  define N where "N = calcN (sint (a_height header))"
  define h where "h = be_bytes 4 (unat (a_height header))"
  have N: "0 < N" "N < 2 ^ 31" using calcN_range [of "sint (a_height header)"] by (simp_all add: N_def)
  define i where "i = be_val (drop 24 (Blake2b256 (msg @ powSolution_n header))) mod nat N"
  define J where "J = puzzle_indices (nat N) (table_element i h @ msg @ powSolution_n header)"
  have imp: "import_bits B bs = be_val bs" for bs using assms(1) by (simp add: boost_ok_def)
  have "i < nat N" using N(1) by (simp add: i_def)
  then have "i < 256 ^ 4" using N(2) by simp
  from resize_export [OF assms(1) _ this] have i: "resizeAsBigEndian (export_bits B i) 4 = be_bytes 4 i" by simp
  have el: "genElement B (WriteLE32 (native_to_big B (word_of_int (int j)))) h = be_val (table_element j h)" if "j \<in> set J" for j
  proof (rule genElement_exact [OF assms(1)])
    have "j < nat N" using puzzle_indices_bound [OF _ that [unfolded J_def]] N(1) by simp
    then show "j < 2 ^ 31" using N(2) by simp
  qed
  define f2 where "f2 = (\<Sum>j\<leftarrow>J. be_val (table_element j h))"
  have f2: "(\<Sum>idx\<leftarrow>map int J. genElement B (WriteLE32 (native_to_big B (word_of_int idx))) h) = f2"
    unfolding f2_def map_map o_def using el by (metis (no_types, lifting) map_cong)
  have "f2 \<le> 32 * 256 ^ 31" using sum_elements_bound [of h J] by (simp add: f2_def J_def puzzle_indices_def Let_def)
  also have "\<dots> < 256 ^ 32" by simp
  finally have e32: "resizeAsBigEndian (export_bits B f2) 32 = be_bytes 32 f2" using resize_export [OF assms(1)] by simp
  have e24: "(32 - 8 :: nat) = 24" by simp
  note r = e32 e24 f2 i
  show ?thesis
    unfolding hit_def assms(2) obind.simps height_bytes
    by (simp only: Let_def imp length_Blake2b256 N_def [symmetric] h_def [symmetric] i_def [symmetric] r
        genIndexes_exact [OF assms(1) N] obind.simps table_element_def [symmetric] J_def [symmetric] puzzle_hit_def)
      (simp only: Let_def N_def [symmetric] h_def [symmetric] i_def [symmetric] J_def [symmetric] f2_def r arith_simps)
qed

section \<open>Headers\<close>

lemma sign_no_digit: "HexDigit (CHR ''-'') = - 1" "HexDigit (CHR ''+'') = - 1" by code_simp+

lemma strtol16_digits:
  assumes "HexDigit c \<noteq> - 1" "HexDigit d \<noteq> - 1"
  shows "strtol16 [c, d] = 16 * HexDigit c + HexDigit d"
proof -
  have "\<not> IsSpace c" "c \<noteq> CHR ''-''" "c \<noteq> CHR ''+''" using assms(1) space_no_digit sign_no_digit by auto
  moreover have "0 \<le> HexDigit c" "0 \<le> HexDigit d" using assms HexDigit_range [of c] HexDigit_range [of d] by linarith+
  ultimately show ?thesis using assms by (simp add: strtol16_def hex_val_def)
qed

lemma hex_pairs_HexStr: "hex_pairs (HexStr bs) = bs"
proof (induction bs)
  case (Cons v bs)
  define c d where "c = hexmap ! unat (drop_bit 4 v)" and "d = hexmap ! unat (v AND 15)"
  have h: "HexStr (v # bs) = c # d # HexStr bs" by (simp add: HexStr_def c_def d_def)
  have dig: "HexDigit c = int (unat v div 16)" "HexDigit d = int (unat v mod 16)" unfolding c_def d_def by (rule nibble_digits)+
  have "strtol16 [c, d] = 16 * HexDigit c + HexDigit d" by (rule strtol16_digits) (simp_all add: dig)
  also have "\<dots> = int (16 * (unat v div 16) + unat v mod 16)" unfolding dig by (simp only: of_nat_add of_nat_mult of_nat_numeral)
  also have "\<dots> = int (unat v)" by (simp only: mult_div_mod_eq)
  finally have "strtol16 [c, d] = int (unat v)" .
  then show ?case unfolding h using Cons by simp
qed (simp add: HexStr_def)

lemma hexToBytes_GetHex:
  assumes "length u = 32"
  shows "hexToBytesModifierId (GetHex u) = Ok (rev u)" "hexToArrayDigest32 (GetHex u) = Ok (rev u)"
proof -
  have "HexDigit (CHR ''x'') = - 1" by code_simp
  then have "take 2 (GetHex u) \<noteq> ''0x''"
    using is_hex_HexStr [of "rev u"] unfolding GetHex_def is_hex_def by (metis in_set_takeD list.set_intros)
  then show "hexToBytesModifierId (GetHex u) = Ok (rev u)" "hexToArrayDigest32 (GetHex u) = Ok (rev u)"
    using assms by (simp_all add: hexToBytesModifierId_def hexToArrayDigest32_def GetHex_def hex_pairs_HexStr)
qed

lemma puzzle_header_ok:
  assumes "length (hd_hashPrevBlock b) = 32" "length (hd_hashMerkleRoot b) = 32"
  shows "puzzle_header v b bits = Ok \<lparr>a_version = v, a_parentId = rev (hd_hashPrevBlock b), a_transactionsRoot = rev (hd_hashMerkleRoot b),
    a_timestamp = ucast (hd_nTime b), a_nBits = bits, a_height = hd_aHeight b, powSolution_n = uint64ToBytes (hd_nNewNonce b)\<rparr>"
  using assms by (simp add: puzzle_header_def hexToBytes_GetHex)

text \<open>What the puzzle of a block header is about: all its fields but the two nonces.\<close>

definition puzzle_text :: "u8 \<Rightarrow> 'a CBlockHeader_scheme \<Rightarrow> u32 \<Rightarrow> bytes" where
  "puzzle_text v b bits = ser_writedata32 (ucast v) @ hd_hashPrevBlock b @ hd_hashMerkleRoot b @ ser_writedata32 (hd_nTime b) @
     ser_writedata32 bits @ ser_writedata32 (hd_aHeight b)"

definition header_hit :: "u8 \<Rightarrow> 'a CBlockHeader_scheme \<Rightarrow> u32 \<Rightarrow> nat" where
  "header_hit v b bits = puzzle_hit (computeBlake2bHash (HexStr (puzzle_text v b bits))) (uint64ToBytes (hd_nNewNonce b)) (hd_aHeight b)"

lemma puzzle_header_hit:
  assumes "boost_ok B" "length (hd_hashPrevBlock b) = 32" "length (hd_hashMerkleRoot b) = 32"
  shows "obind (puzzle_header v b bits) (hit B) = Ok (header_hit v b bits)"
proof -
  define h where "h = \<lparr>a_version = v, a_parentId = rev (hd_hashPrevBlock b), a_transactionsRoot = rev (hd_hashMerkleRoot b),
    a_timestamp = ucast (hd_nTime b), a_nBits = bits, a_height = hd_aHeight b, powSolution_n = uint64ToBytes (hd_nNewNonce b)\<rparr>"
  have t: "ucast (ucast (hd_nTime b) :: u64) = hd_nTime b" by (rule bit_word_eqI) (simp add: bit_simps)
  have "msgByHeader (toHeaderWithoutPow h) = Ok (computeBlake2bHash (HexStr (puzzle_text v b bits)))"
    using assms(2,3) by (simp add: msgByHeader_def bytesWithoutPow_def serializeWithoutPow_def toHeaderWithoutPow_def h_def puzzle_text_def reverseUint256_def t)
  from hit_exact [OF assms(1) this] show ?thesis
    unfolding puzzle_header_ok [OF assms(2,3)] h_def by (simp add: header_hit_def)
qed

lemma header_hit_bound: "header_hit v b bits < 2 ^ 256"
proof -
  have "be_val (Blake2b256 xs) < 256 ^ 32" for xs using be_val_bound [of "Blake2b256 xs"] by simp
  moreover have "(256 :: nat) ^ 32 = 2 ^ 256" by simp
  ultimately show ?thesis unfolding header_hit_def puzzle_hit_def Let_def by (simp only:)
qed

lemma AutolykosHash_exact:
  assumes "boost_ok B" "length (hd_hashPrevBlock b) = 32" "length (hd_hashMerkleRoot b) = 32"
  shows "\<exists>u. AutolykosHash B b = Ok u \<and> length u = 32 \<and> limbs_val u = header_hit 5 b (hd_nBits b)"
proof -
  define u where "u = uint256S (cpp_int_hex B (header_hit 5 b (hd_nBits b)))"
  have assoc: "obind (obind x f) g = obind x (\<lambda>y. obind (f y) g)" for x :: "'x outcome" and f :: "'x \<Rightarrow> 'y outcome" and g :: "'y \<Rightarrow> 'z outcome"
    by (cases x) simp_all
  have "AutolykosHash B b = Ok u"
    unfolding AutolykosHash_def assoc [symmetric] puzzle_header_hit [OF assms] by (simp add: u_def)
  moreover have "limbs_val u = header_hit 5 b (hd_nBits b)"
    using assms(1) header_hit_bound [of 5 b "hd_nBits b"] unfolding u_def uint256S_def boost_ok_def
    by (simp only: SetHex_val mod_less)
  ultimately show ?thesis by (simp add: u_def uint256S_def)
qed

lemma ArithToUint256_val: "wf_u256 a \<Longrightarrow> limbs_val (ArithToUint256 a) = limbs_val a"
proof -
  assume "wf_u256 a"
  then have "map ((!) a) [0..<WIDTH] = a" unfolding wf_u256_def by (metis map_nth)
  then have "ArithToUint256 a = concat (map WriteLE32 a)" unfolding ArithToUint256_def by (metis (no_types, lifting) map_map o_def map_cong)
  moreover have "limbs_val (concat (map WriteLE32 ws)) = limbs_val ws" for ws
    by (induction ws) (simp_all add: limbs_val_append)
  ultimately show ?thesis by simp
qed

lemma validate_exact:
  assumes "boost_ok B" "length (hd_hashPrevBlock b) = 32" "length (hd_hashMerkleRoot b) = 32"
  shows "obind (puzzle_header v b bits) (validate B) = Ok (header_hit v b bits < limbs_val (fst (SetCompact bits)))"
proof -
  define t where "t = fst (SetCompact bits)"
  have w: "wf_u256 t" by (simp add: t_def SetCompact_def Let_def)
  have "length (ArithToUint256 t) = 32" by (simp add: ArithToUint256_def length_concat comp_def sum_list_triv)
  then have "length (GetHex (ArithToUint256 t)) = 64" by (simp add: GetHex_def)
  then have "GetHex (ArithToUint256 t) \<noteq> []" by auto
  then have "arith_uint256_to_cpp_int B t = limbs_val t"
    using assms(1) ArithToUint256_val [OF w] unfolding arith_uint256_to_cpp_int_def boost_ok_def GetHex_def by (simp add: hex_val_HexStr)
  moreover obtain h where h: "puzzle_header v b bits = Ok h" "a_nBits h = bits" using puzzle_header_ok [OF assms(2,3)] by simp
  moreover have "hit B h = Ok (header_hit v b bits)" using puzzle_header_hit [OF assms, of v bits] h(1) by simp
  ultimately show ?thesis by (auto simp: validate_def getB_def t_def not_le)
qed

section \<open>Properties\<close>

text \<open>
  The table size neither overflows nor shrinks: for every height, negative ones included,
  \<^verbatim>\<open>calcN\<close> returns after at most 71 turns a value between \<open>2\<^sup>2\<^sup>6\<close> and 2143944600, all the
  values its loop goes through fit in an \<^verbatim>\<open>int\<close>, and a larger height never has a smaller table.
\<close>

theorem calcN_bounds:
  "\<exists>n \<le> 71. calcN height = calcN_loop n NBase \<and> (\<forall>i. i \<le> n \<longrightarrow> 2 ^ 26 \<le> calcN_loop i NBase \<and> calcN_loop i NBase < 2 ^ 31) \<and>
    2 ^ 26 \<le> calcN height \<and> calcN height \<le> 2143944600 \<and> calcN height \<le> calcN (height + int d)"
proof (intro exI conjI allI impI)
  show "calcN_iters height \<le> 71" by (rule calcN_iters_max)
  show "calcN height = calcN_loop (calcN_iters height) NBase" by (rule calcN_iters)
  show "2 ^ 26 \<le> calcN height" "calcN height \<le> 2143944600" by (rule calcN_range)+
  show "calcN height \<le> calcN (height + int d)"
    unfolding calcN_iters by (rule calcN_loop_le [OF calcN_iters_mono]) (simp_all add: NBase_def)
next
  fix i assume "i \<le> calcN_iters height"
  then have "i \<le> 71" using calcN_iters_max [of height] by simp
  then have "calcN_loop i NBase \<le> 2143944600" using calcN_loop_le [of i 71 NBase] calcN_loop_max by (simp add: NBase_def)
  then show "calcN_loop i NBase < 2 ^ 31" by simp
  show "2 ^ 26 \<le> calcN_loop i NBase" using calcN_loop_mono [of NBase i] by (simp add: NBase_def)
qed

theorem calcN_bounds_witness: "calcN 0 = 2 ^ 26 \<and> calcN 0 \<le> calcN 5000000 \<and> calcN 5000000 \<le> 2143944600"
  using calcN_bounds [of 0 5000000] calcN_bounds [of 5000000 0] by (auto simp: calcN_def Let_def IncreaseStart_def NIncreasementHeightMax_def NBase_def)

text \<open>
  C38. The implementation of the puzzle is the puzzle: for a header whose parent identifier has 32
  bytes, \<^verbatim>\<open>hit\<close> neither fails an assertion nor throws, no conversion between numbers and byte
  strings cuts anything off, and the result is the hit of the Autolykos puzzle for the message, the
  nonce and the height, a number below \<open>2\<^sup>2\<^sup>5\<^sup>6\<close>.
\<close>

theorem hit_is_puzzle:
  assumes "boost_ok B" "length (a_parentId header) = 32"
  shows "\<exists>msg. msgByHeader (toHeaderWithoutPow header) = Ok msg \<and>
    hit B header = Ok (puzzle_hit msg (powSolution_n header) (a_height header)) \<and>
    puzzle_hit msg (powSolution_n header) (a_height header) < 256 ^ 32"
proof -
  obtain msg where m: "msgByHeader (toHeaderWithoutPow header) = Ok msg"
    using assms(2) by (auto simp: msgByHeader_def bytesWithoutPow_def serializeWithoutPow_def toHeaderWithoutPow_def)
  moreover have "be_val (Blake2b256 xs) < 256 ^ 32" for xs using be_val_bound [of "Blake2b256 xs"] by simp
  ultimately show ?thesis using hit_exact [OF assms(1) m] unfolding puzzle_hit_def Let_def by blast
qed

text \<open>An instance of the libraries.\<close>

fun be_digits :: "nat \<Rightarrow> bytes" where
  "be_digits n = (if n < 256 then [of_nat n] else be_digits (n div 256) @ [of_nat n])"

fun hex_digits :: "nat \<Rightarrow> string" where
  "hex_digits n = (if n < 16 then [hexmap ! n] else hex_digits (n div 16) @ [hexmap ! (n mod 16)])"

declare be_digits.simps [simp del] hex_digits.simps [simp del]

definition boost_model :: Boost where
  "boost_model = \<lparr>import_bits = be_val, export_bits = be_digits, cpp_int_of = (\<lambda>s. hex_val (drop 2 s)), cpp_int_hex = hex_digits,
     big_to_native = (\<lambda>w. ReadLE32 (rev (WriteLE32 w))), native_to_big = (\<lambda>w. ReadLE32 (rev (WriteLE32 w)))\<rparr>"

lemma be_val_be_digits: "be_val (be_digits n) = n"
proof (induction n rule: be_digits.induct)
  case (1 n)
  show ?case
  proof (cases "n < 256")
    case True
    then show ?thesis by (subst be_digits.simps) (simp add: be_val_def unat_of_nat)
  next
    case False
    have "be_val (be_digits n) = n mod 256 + 256 * be_val (be_digits (n div 256))"
      using False by (subst be_digits.simps) (simp add: be_val_def unat_of_nat)
    also have "\<dots> = n" using 1 [OF False] by simp
    finally show ?thesis .
  qed
qed

lemma length_be_digits: "0 < k \<Longrightarrow> n < 256 ^ k \<Longrightarrow> length (be_digits n) \<le> k"
proof (induction n arbitrary: k rule: be_digits.induct)
  case (1 n)
  show ?case
  proof (cases "n < 256")
    case True
    then show ?thesis using "1.prems" by (subst be_digits.simps) simp
  next
    case False
    obtain j where j: "k = Suc j" using "1.prems"(1) gr0_conv_Suc by blast
    moreover have "j \<noteq> 0" using "1.prems"(2) False j by (cases j) simp_all
    ultimately have j: "k = Suc j" "0 < j" by simp_all
    then have "n div 256 < 256 ^ j" using "1.prems"(2) by (simp add: less_mult_imp_div_less mult.commute)
    from "1.IH" [OF False j(2) this] show ?thesis using False j(1) by (subst be_digits.simps) simp
  qed
qed

lemma hex_digits_hex: "is_hex (hex_digits n) \<and> hex_val (hex_digits n) = n"
proof (induction n rule: hex_digits.induct)
  case (1 n)
  show ?case
  proof (cases "n < 16")
    case True
    then show ?thesis by (subst (1 2) hex_digits.simps) (simp add: is_hex_def hex_val_def HexDigit_hexmap)
  next
    case False
    have d: "HexDigit (hexmap ! (n mod 16)) = int (n mod 16)" by (rule HexDigit_hexmap) simp
    have e: "hex_digits n = hex_digits (n div 16) @ [hexmap ! (n mod 16)]" using False by (subst hex_digits.simps) simp
    show ?thesis unfolding e hex_val_snoc d using 1 [OF False] d by (auto simp: is_hex_def)
  qed
qed

lemma boost_model_ok: "boost_ok boost_model"
  by (simp add: boost_ok_def boost_model_def be_val_be_digits length_be_digits hex_digits_hex)

theorem hit_is_puzzle_witness:
  "\<exists>v < 256 ^ 32. hit boost_model \<lparr>a_version = 5, a_parentId = replicate 32 1, a_transactionsRoot = replicate 32 2,
    a_timestamp = 3, a_nBits = 0x1d00ffff, a_height = 300000, powSolution_n = [0, 0, 0, 0, 0, 0, 0, 4]\<rparr> = Ok v"
  using hit_is_puzzle [OF boost_model_ok, of "\<lparr>a_version = 5, a_parentId = replicate 32 1, a_transactionsRoot = replicate 32 2,
    a_timestamp = 3, a_nBits = 0x1d00ffff, a_height = 300000, powSolution_n = [0, 0, 0, 0, 0, 0, 0, 4]\<rparr>"] by auto

text \<open>
  The hash of a header of version 5 is the hit of its puzzle, read as a little-endian number, and
  so covers every field but \<^verbatim>\<open>nNonce\<close>: headers that differ in that field have different
  serializations and the same hash.
\<close>

theorem version5_hash_skips_nonce:
  assumes "boost_ok B" "length (hd_hashPrevBlock b) = 32" "length (hd_hashMerkleRoot b) = 32" "hd_nVersion b = 5"
  shows "\<exists>u. GetHash B HashX11 b = Ok u \<and> length u = 32 \<and> limbs_val u = header_hit 5 b (hd_nBits b) \<and>
    GetHash B HashX11 (b\<lparr>hd_nNonce := n\<rparr>) = Ok u \<and>
    (CBlockHeader_ser (b\<lparr>hd_nNonce := n\<rparr>) = CBlockHeader_ser b \<longleftrightarrow> n = hd_nNonce b)"
proof -
  obtain u where u: "AutolykosHash B b = Ok u" "length u = 32" "limbs_val u = header_hit 5 b (hd_nBits b)"
    using AutolykosHash_exact [OF assms(1-3)] by blast
  have "AutolykosHash B (b\<lparr>hd_nNonce := n\<rparr>) = AutolykosHash B b" by (simp add: AutolykosHash_def puzzle_header_def)
  moreover have "ser_writedata32 n = ser_writedata32 (hd_nNonce b) \<longleftrightarrow> n = hd_nNonce b"
    unfolding ser_writedata32_def using limbs_val_WriteLE(2) by (metis word_eq_iff_unsigned)
  ultimately show ?thesis using u assms(4)
    by (auto simp: GetHash_def CBlockHeader_ser_def autolykos_ser_def)
qed

theorem version5_hash_skips_nonce_witness:
  "\<exists>u. GetHash boost_model (\<lambda>_. []) (CBlockHeader_null\<lparr>hd_nVersion := 5\<rparr>) = Ok u \<and>
    GetHash boost_model (\<lambda>_. []) (CBlockHeader_null\<lparr>hd_nVersion := 5, hd_nNonce := 1\<rparr>) = Ok u"
  using version5_hash_skips_nonce [OF boost_model_ok, of "CBlockHeader_null\<lparr>hd_nVersion := 5\<rparr>" "\<lambda>_. []" 1]
  by (auto simp: CBlockHeader_null_def uint256_null_def)

end
