(* ===== verification/Pow.thy ===== *)
theory Pow
  imports Chain Consensus_Params Autolykos
begin

text \<open>
  Proof of work (\<^verbatim>\<open>pow.cpp\<close>, and \<^verbatim>\<open>GetBlockProofEquivalentTime\<close> of \<^verbatim>\<open>chain.cpp\<close>): the two
  retargeting rules, the choice between them, and the test of a header's hash.  The lemmas show that retargeting
  always succeeds, and when it stays in the range that the test accepts and does not overflow, through the contract
  \<^verbatim>\<open>wide_uint\<close> of 256-bit integers.
\<close>

unbundle bit_operations_syntax

section \<open>Retargeting\<close>

text \<open>A division by zero throws, a failed assertion of \<^verbatim>\<open>GetCompact\<close> aborts.\<close>

definition div_outcome :: "uint_error + u256 \<Rightarrow> u256 outcome" where
  "div_outcome r = (case r of Inl _ \<Rightarrow> Throw | Inr q \<Rightarrow> Ok q)"

definition compact_outcome :: "u256 \<Rightarrow> u32 outcome" where
  "compact_outcome a = (case GetCompact a False of None \<Rightarrow> Abort | Some c \<Rightarrow> Ok c)"

definition bu_greater :: "u256 \<Rightarrow> u256 \<Rightarrow> bool" where "bu_greater a b \<longleftrightarrow> CompareTo a b > 0"

abbreviation (input) nPastBlocks :: nat where "nPastBlocks \<equiv> 24"

text \<open>
  The loop of \<^verbatim>\<open>DarkGravityWave\<close>, with the number of turns that are left and the counter
  \<^verbatim>\<open>nCountBlocks\<close>.  A product with a counter or a timespan uses the 32-bit multiplication.
\<close>

primrec dgw_loop :: "store \<Rightarrow> nat \<Rightarrow> nat \<Rightarrow> u256 \<Rightarrow> ptr \<Rightarrow> (u256 \<times> ptr) outcome" where
  "dgw_loop h 0 nCountBlocks bnPastTargetAvg pindex = Ok (bnPastTargetAvg, pindex)"
| "dgw_loop h (Suc n) nCountBlocks bnPastTargetAvg pindex =
     (let bnTarget = fst (SetCompact (nBits (h pindex)))
      in obind (if nCountBlocks = 1 then Ok bnTarget
                else div_outcome (bu_div (bu_add (bu_mul32 bnPastTargetAvg (of_nat nCountBlocks)) bnTarget)
                                         (bu_of_u64 (of_nat (nCountBlocks + 1))))) (\<lambda>bnPastTargetAvg.
         if nCountBlocks \<noteq> nPastBlocks
         then case pprev (h pindex) of
                None \<Rightarrow> Abort
              | Some q \<Rightarrow> dgw_loop h n (nCountBlocks + 1) bnPastTargetAvg q
         else dgw_loop h n (nCountBlocks + 1) bnPastTargetAvg pindex))"

text \<open>Rescaling a target by the time that was used, limited to a factor, and by the limit of all targets.\<close>

definition retarget :: "Params \<Rightarrow> int \<Rightarrow> int \<Rightarrow> int \<Rightarrow> u256 \<Rightarrow> u32 outcome" where
  "retarget params nActualTimespan nTargetTimespan factor bn =
     (let bnPowLimit = UintToArith256 (powLimit params);
          nActualTimespan = (if nActualTimespan < nTargetTimespan sdiv factor then nTargetTimespan sdiv factor else nActualTimespan);
          nActualTimespan = (if nActualTimespan > nTargetTimespan * factor then nTargetTimespan * factor else nActualTimespan)
      in obind (div_outcome (bu_div (bu_mul32 bn (word_of_int nActualTimespan)) (bu_of_u64 (word_of_int nTargetTimespan)))) (\<lambda>bnNew.
         compact_outcome (if bu_greater bnNew bnPowLimit then bnPowLimit else bnNew)))"

definition DarkGravityWave :: "store \<Rightarrow> ptr \<Rightarrow> Params \<Rightarrow> u32 outcome" where
  "DarkGravityWave h pindexLast params =
     (if nHeight (h pindexLast) = AutolykosForkHeight params then Ok 0x1d093ab9
      else if nHeight (h pindexLast) < int nPastBlocks then compact_outcome (UintToArith256 (powLimit params))
      else obind (dgw_loop h nPastBlocks 1 bu_zero pindexLast) (\<lambda>(bnPastTargetAvg, pindex).
        let nActualTimespan = GetBlockTime (h pindexLast) - GetBlockTime (h pindex);
            blockTime = GetCurrentPowTargetSpacing params (nHeight (h pindexLast) + 1);
            nTargetTimespan = int nPastBlocks * blockTime
        in retarget params nActualTimespan nTargetTimespan 3 bnPastTargetAvg))"

definition CalculateNextWorkRequired :: "store \<Rightarrow> ptr \<Rightarrow> int \<Rightarrow> Params \<Rightarrow> u32 outcome" where
  "CalculateNextWorkRequired h pindexLast nFirstBlockTime params =
     (if fPowNoRetargeting params then Ok (nBits (h pindexLast))
      else retarget params (GetBlockTime (h pindexLast) - nFirstBlockTime) (nPowTargetTimespan params) 4
             (fst (SetCompact (nBits (h pindexLast)))))"

partial_function (option) last_non_special :: "store \<Rightarrow> Params \<Rightarrow> u32 \<Rightarrow> ptr \<Rightarrow> ptr option" where
  "last_non_special h params nProofOfWorkLimit pindex =
     (case pprev (h pindex) of
        None \<Rightarrow> Some pindex
      | Some q \<Rightarrow>
          if nHeight (h pindex) smod DifficultyAdjustmentInterval params \<noteq> 0 \<and> nBits (h pindex) = nProofOfWorkLimit
          then last_non_special h params nProofOfWorkLimit q else Some pindex)"

text \<open>\<open>None\<close> would be a loop that does not end.\<close>

definition GetNextWorkRequiredBTC :: "store \<Rightarrow> ptr \<Rightarrow> 'a CBlockHeader_scheme \<Rightarrow> Params \<Rightarrow> u32 outcome option" where
  "GetNextWorkRequiredBTC h pindexLast pblock params =
     then_loop (compact_outcome (UintToArith256 (powLimit params))) (\<lambda>nProofOfWorkLimit.
       if (nHeight (h pindexLast) + 1) smod DifficultyAdjustmentInterval params \<noteq> 0
       then if fPowAllowMinDifficultyBlocks params
            then if int (unat (hd_nTime pblock)) > GetBlockTime (h pindexLast) + nPowTargetSpacing params * 2
                 then Some (Ok nProofOfWorkLimit)
                 else map_option (\<lambda>p. Ok (nBits (h p))) (last_non_special h params nProofOfWorkLimit pindexLast)
            else Some (Ok (nBits (h pindexLast)))
       else let nHeightFirst = nHeight (h pindexLast) - (DifficultyAdjustmentInterval params - 1)
            in if \<not> nHeightFirst \<ge> 0 then Some Abort
               else Some (obind (GetAncestor h pindexLast nHeightFirst) (\<lambda>pindexFirst.
                      case pindexFirst of
                        None \<Rightarrow> Abort
                      | Some f \<Rightarrow> CalculateNextWorkRequired h pindexLast (GetBlockTime (h f)) params)))"

definition GetNextWorkRequired :: "store \<Rightarrow> ptr \<Rightarrow> 'a CBlockHeader_scheme \<Rightarrow> Params \<Rightarrow> u32 outcome option" where
  "GetNextWorkRequired h pindexLast pblock params =
     (let bnPowLimit = UintToArith256 (powLimit params);
          pblock_time = int (unat (hd_nTime pblock))
      in if nHeight (h pindexLast) < nMinimumDifficultyBlocks params then Some (compact_outcome bnPowLimit)
         else if nHeight (h pindexLast) + 1 < nPowKGWHeight params then GetNextWorkRequiredBTC h pindexLast pblock params
         else if fPowNoRetargeting params then Some (compact_outcome bnPowLimit)
         else if fPowAllowMinDifficultyBlocks params \<and> pblock_time > GetBlockTime (h pindexLast) + 2 * 60 * 60
         then Some (compact_outcome bnPowLimit)
         else if fPowAllowMinDifficultyBlocks params \<and>
           pblock_time > GetBlockTime (h pindexLast) + GetCurrentPowTargetSpacing params (nHeight (h pindexLast) + 1) * 4
         then let bnNew = bu_mul32 (fst (SetCompact (nBits (h pindexLast)))) 10
              in Some (compact_outcome (if bu_greater bnNew bnPowLimit then bnPowLimit else bnNew))
         else Some (DarkGravityWave h pindexLast params))"


section \<open>Proof of work\<close>

definition CheckProofOfWork ::
  "Boost \<Rightarrow> 'a CBlockHeader_scheme \<Rightarrow> uint256 \<Rightarrow> u32 \<Rightarrow> Params \<Rightarrow> bool outcome" where
  "CheckProofOfWork B b_h hash bits params =
     (if sint (hd_nVersion b_h) \<noteq> AutolykosForkSwitchVersion params
      then let (bnTarget, fNegative, fOverflow) = SetCompact bits
           in Ok (if fNegative \<or> EqualTo bnTarget 0 \<or> fOverflow \<or> bu_greater bnTarget (UintToArith256 (powLimit params)) then False
                  else if bu_greater (UintToArith256 hash) bnTarget then False
                  else True)
      else obind (puzzle_header (word_of_int (AutolykosForkSwitchVersion params)) b_h bits) (\<lambda>h. validate B h))"

definition GetBlockProofEquivalentTime ::
  "CBlockIndex \<Rightarrow> CBlockIndex \<Rightarrow> CBlockIndex \<Rightarrow> Params \<Rightarrow> int outcome" where
  "GetBlockProofEquivalentTime to from tip params =
     (let (r, sign) = (if bu_greater (nChainWork to) (nChainWork from) then (bu_sub (nChainWork to) (nChainWork from), 1)
                       else (bu_sub (nChainWork from) (nChainWork to), - 1));
          blockTime = GetCurrentPowTargetSpacing params (nHeight tip)
      in obind (div_outcome (GetBlockProof tip)) (\<lambda>proof.
         obind (div_outcome (bu_div (bu_mul r (bu_of_u64 (word_of_int blockTime))) proof)) (\<lambda>r.
           if bu_bits r > 63 then Ok (sign * 0x7fffffffffffffff) else Ok (sint (word_of_int sign * GetLow64 r)))))"
section \<open>Targets in range\<close>

definition pow_limit :: "Params \<Rightarrow> nat" where
  "pow_limit params = limbs_val (UintToArith256 (powLimit params))"

definition target_in_range :: "Params \<Rightarrow> u32 \<Rightarrow> bool" where
  "target_in_range params bits \<longleftrightarrow> target_valid bits \<and> compact_value bits \<le> pow_limit params"

text \<open>Parameters for which the retargeting arithmetic cannot overflow.\<close>

definition pow_params_ok :: "Params \<Rightarrow> bool" where
  "pow_params_ok params \<longleftrightarrow> 0 < pow_limit params \<and>
     (\<forall>s \<in> {nPowTargetSpacing params, nNewPowTargetSpacing params, nAutolykosPowTargetSpacing params}.
        0 < s \<and> 72 * s < 2 ^ 32 \<and> pow_limit params * nat (72 * s) < 2 ^ 256) \<and>
     4 \<le> nPowTargetTimespan params \<and> nPowTargetSpacing params \<le> nPowTargetTimespan params \<and>
     nPowTargetTimespan params * 4 < 2 ^ 32 \<and> pow_limit params * nat (nPowTargetTimespan params * 4) < 2 ^ 256 \<and>
     target_in_range params 0x1d093ab9"

lemma wf_UintToArith256 [simp]: "wf_u256 (UintToArith256 a)"
  by (simp add: wf_u256_def UintToArith256_def)

text \<open>The conversion reads the bytes as a little-endian number.\<close>

lemma limbs_val_ReadLE32:
  "4 * n \<le> length a \<Longrightarrow> limbs_val (map (\<lambda>x. ReadLE32 (drop (x * 4) a)) [0..<n]) = limbs_val (take (4 * n) a)"
proof (induction n)
  case (Suc n)
  let ?m = "map (\<lambda>x. ReadLE32 (drop (x * 4) a)) [0..<n]"
  have l: "length (take (4 * n) a) = 4 * n" using Suc.prems by simp
  have "limbs_val (?m @ [ReadLE32 (drop (n * 4) a)]) = limbs_val (take (4 * n) a) + 2 ^ (32 * n) * limbs_val (take 4 (drop (4 * n) a))"
    unfolding limbs_val_append using Suc by (simp add: unat_ReadLE mult.commute)
  also have "\<dots> = limbs_val (take (4 * n) a @ take 4 (drop (4 * n) a))" unfolding limbs_val_append l by simp
  also have "take (4 * n) a @ take 4 (drop (4 * n) a) = take (4 * Suc n) a" by (simp add: take_add [symmetric] add.commute)
  finally show ?case by simp
qed simp

lemma UintToArith256_val: "length a = 32 \<Longrightarrow> limbs_val (UintToArith256 a) = limbs_val a"
  unfolding UintToArith256_def using limbs_val_ReadLE32 [of 8 a] by simp

lemma SetCompact_target:
  assumes "target_valid bits"
  shows "wf_u256 (fst (SetCompact bits)) \<and> limbs_val (fst (SetCompact bits)) = compact_value bits"
  using target_valid_SetCompact [of bits "fst (SetCompact bits)" "fst (snd (SetCompact bits))" "snd (snd (SetCompact bits))"] assms by simp

lemma bu_greater_val: "wf_u256 a \<Longrightarrow> wf_u256 b \<Longrightarrow> bu_greater a b \<longleftrightarrow> limbs_val a > limbs_val b"
  by (simp add: bu_greater_def CompareTo_gt)

text \<open>What encoding a positive number below the limit yields.\<close>

definition encodes :: "Params \<Rightarrow> nat \<Rightarrow> u32 \<Rightarrow> bool" where
  "encodes params x c \<longleftrightarrow> target_in_range params c \<and> compact_value c \<le> x \<and> (x - compact_value c) * 2 ^ 15 \<le> compact_value c"

lemma compact_outcome_ok:
  assumes "wf_u256 a" "0 < limbs_val a" "limbs_val a \<le> pow_limit params"
  shows "\<exists>c. compact_outcome a = Ok c \<and> encodes params (limbs_val a) c"
proof -
  obtain c t where c: "GetCompact a False = Some c" "SetCompact c = (t, False, False)" "limbs_val t \<le> limbs_val a"
    "(limbs_val a - limbs_val t) * 2 ^ 15 \<le> limbs_val t"
    using SetCompact_GetCompact [OF assms(1)] by blast
  have "0 < limbs_val t" using c(3,4) assms(2) by (cases "limbs_val t = 0") auto
  then have "target_valid c" "limbs_val t = compact_value c" using target_valid_SetCompact [OF c(2)] by auto
  then show ?thesis using c assms(3) by (intro exI [of _ c]) (simp add: compact_outcome_def encodes_def target_in_range_def)
qed

lemma limit_compact:
  assumes "0 < pow_limit params"
  shows "\<exists>c. compact_outcome (UintToArith256 (powLimit params)) = Ok c \<and> target_in_range params c"
  using compact_outcome_ok [of "UintToArith256 (powLimit params)" params] assms by (auto simp: pow_limit_def encodes_def)

definition clamp_span :: "int \<Rightarrow> int \<Rightarrow> int \<Rightarrow> int" where
  "clamp_span f T act = max (T div f) (min act (T * f))"

lemma clamp_code:
  fixes T f act :: int
  assumes "0 < T" "0 < f"
  defines "a \<equiv> if act < T sdiv f then T sdiv f else act"
  shows "(if a > T * f then T * f else a) = clamp_span f T act"
proof -
  have "T div f \<le> T" using assms zdiv_mono2 [of T 1 f] by simp
  also have "T \<le> T * f" using assms by (simp add: mult_le_cancel_left1)
  finally show ?thesis using assms by (auto simp: clamp_span_def int_sdiv_pos max_def min_def a_def)
qed

lemma unat_word_of_int: "0 \<le> k \<Longrightarrow> k < 2 ^ LENGTH('a) \<Longrightarrow> unat (word_of_int k :: 'a::len word) = nat k"
  by (simp add: unsigned_of_int take_bit_int_eq_self)

lemma retarget_ok:
  fixes act :: int
  assumes bn: "wf_u256 bn" "limbs_val bn \<le> hi" "lo \<le> limbs_val bn"
    and f: "0 < f" "f < 2 ^ 16" and T: "0 < T" "T * f < 2 ^ 32" "hi * nat (T * f) < 2 ^ 256"
    and lim: "0 < pow_limit params" and pos: "nat T \<le> lo * nat (T div f)"
  defines "x \<equiv> min (pow_limit params) (limbs_val bn * nat (clamp_span f T act) div nat T)"
  shows "\<exists>c. retarget params act T f bn = Ok c \<and> encodes params x c"
proof -
  define s where "s = clamp_span f T act"
  have le: "T div f \<le> T" using T(1) f(1) zdiv_mono2 [of T 1 f] by simp
  have le2: "T \<le> T * f" using T(1) f(1) by (simp add: mult_le_cancel_left1)
  have s: "T div f \<le> s" "s \<le> T * f" using le le2 by (auto simp: s_def clamp_span_def)
  have s0: "0 \<le> s" using s(1) T(1) f(1) pos_imp_zdiv_nonneg_iff [of f T] by simp
  have us: "unat (word_of_int s :: u32) = nat s" by (rule unat_word_of_int) (use s s0 T(2) in auto)
  have uT: "unat (word_of_int T :: u64) = nat T"
  proof (rule unat_word_of_int)
    have "T < 2 ^ 32" using le2 T(2) by simp
    also have "(2 :: int) ^ 32 \<le> 2 ^ LENGTH(64)" by simp
    finally show "T < 2 ^ LENGTH(64)" .
  qed (use T in simp)
  have prod: "limbs_val bn * unat (word_of_int s :: u32) < 2 ^ 256"
  proof -
    have "limbs_val bn * nat s \<le> hi * nat (T * f)" using bn(2) s(2) by (intro mult_le_mono nat_mono) simp_all
    then show ?thesis using T(3) us by simp
  qed
  obtain q where q: "bu_div (bu_mul32 bn (word_of_int s)) (bu_of_u64 (word_of_int T)) = Inr q" "wf_u256 q"
    "limbs_val q = limbs_val bn * nat s div nat T"
    using u256.rescale [OF bn(1), of "bu_of_u64 (word_of_int T)" "word_of_int s"] prod T(1) unfolding us
    by (auto simp: uT)
  define bn' where "bn' = (if bu_greater q (UintToArith256 (powLimit params)) then UintToArith256 (powLimit params) else q)"
  have bn': "wf_u256 bn'" "limbs_val bn' = x"
    using q by (auto simp: bn'_def bu_greater_val x_def pow_limit_def s_def min_def)
  have "nat T * 1 \<le> limbs_val bn * nat s"
    using pos mult_le_mono [OF bn(3) nat_mono [OF s(1)]] by simp
  then have "0 < limbs_val bn * nat s div nat T" using T(1) by (simp add: div_greater_zero_iff)
  then have "0 < x" using lim by (simp add: x_def s_def)
  then obtain c where "compact_outcome bn' = Ok c" "encodes params x c"
    using compact_outcome_ok [of bn' params] bn' by (auto simp: x_def)
  then show ?thesis
    unfolding retarget_def Let_def clamp_code [OF T(1) f(1)] s_def [symmetric]
    using q(1) by (simp add: div_outcome_def bn'_def)
qed
section \<open>The weighted mean of the last targets\<close>

text \<open>Specification on natural numbers.\<close>

primrec mean_from :: "nat \<Rightarrow> nat \<Rightarrow> nat list \<Rightarrow> nat" where
  "mean_from n a [] = a"
| "mean_from n a (t # ts) = mean_from (n + 1) (if n = 1 then t else (a * n + t) div (n + 1)) ts"

definition past_targets :: "store \<Rightarrow> ptr \<Rightarrow> nat \<Rightarrow> nat list" where
  "past_targets h p m = map (\<lambda>i. compact_value (nBits (h (ancestor h p (nHeight (h p) - int i))))) [0..<m]"

lemma past_targets_Suc:
  assumes "chain_ok h p" "pprev (h p) = Some q" "int m \<le> nHeight (h q) + 1"
  shows "past_targets h p (Suc m) = compact_value (nBits (h p)) # past_targets h q m"
proof -
  have q: "nHeight (h q) = nHeight (h p) - 1" using chain_ok_pprev [OF assms(1,2)] by simp
  have e: "nHeight (h p) - int (Suc i) = nHeight (h q) - int i" for i using q by simp
  have "ancestor h p (nHeight (h p) - int (Suc i)) = ancestor h q (nHeight (h q) - int i)" for i
    unfolding e using ancestor_prev [OF assms(1,2), of "nHeight (h q) - int i"] by simp
  then show ?thesis by (simp add: past_targets_def map_Suc_upt [symmetric] upt_conv_Cons del: upt_Suc map_Suc_upt)
qed

lemma weighted_bounds:
  fixes a n t lo hi :: nat
  assumes "lo \<le> a" "a \<le> hi" "lo \<le> t" "t \<le> hi"
  shows "lo \<le> (a * n + t) div (n + 1)" "(a * n + t) div (n + 1) \<le> hi"
proof -
  have "lo * n + lo \<le> a * n + t" by (intro add_mono mult_le_mono1 assms)
  then have "lo * (n + 1) \<le> a * n + t" by simp
  then show "lo \<le> (a * n + t) div (n + 1)" by (metis Suc_eq_plus1 div_le_mono nonzero_mult_div_cancel_right nat.distinct(1))
  have "a * n + t \<le> hi * n + hi" by (intro add_mono mult_le_mono1 assms)
  then have "a * n + t \<le> hi * (n + 1)" by simp
  then show "(a * n + t) div (n + 1) \<le> hi" by (metis Suc_eq_plus1 div_le_mono nonzero_mult_div_cancel_right nat.distinct(1))
qed

lemma mean_from_bounds:
  assumes "\<forall>t \<in> set ts. lo \<le> t \<and> t \<le> hi" "n \<noteq> 1 \<Longrightarrow> lo \<le> a \<and> a \<le> hi" "ts \<noteq> [] \<or> n \<noteq> 1" "0 < n"
  shows "lo \<le> mean_from n a ts \<and> mean_from n a ts \<le> hi"
  using assms
proof (induction ts arbitrary: n a)
  case (Cons t ts)
  have "lo \<le> (if n = 1 then t else (a * n + t) div (n + 1)) \<and> (if n = 1 then t else (a * n + t) div (n + 1)) \<le> hi"
    using Cons.prems weighted_bounds [of lo a hi t n] by auto
  then show ?case using Cons.prems Cons.IH [of "n + 1" "if n = 1 then t else (a * n + t) div (n + 1)"] by simp
qed simp

definition step_target :: "store \<Rightarrow> ptr \<Rightarrow> nat \<Rightarrow> u256 \<Rightarrow> u256 outcome" where
  "step_target h p n a =
     (if n = 1 then Ok (fst (SetCompact (nBits (h p))))
      else div_outcome (bu_div (bu_add (bu_mul32 a (of_nat n)) (fst (SetCompact (nBits (h p))))) (bu_of_u64 (of_nat (n + 1)))))"

lemma dgw_loop_step:
  "dgw_loop h (Suc m) n a p = obind (step_target h p n a) (\<lambda>b.
     if n \<noteq> nPastBlocks then case pprev (h p) of None \<Rightarrow> Abort | Some q \<Rightarrow> dgw_loop h m (n + 1) b q else dgw_loop h m (n + 1) b p)"
  by (simp add: step_target_def Let_def)

lemma step_target_ok:
  assumes "target_valid (nBits (h p))" "compact_value (nBits (h p)) \<le> hi" "0 < n" "n \<le> 24" "wf_u256 a"
    "n \<noteq> 1 \<Longrightarrow> limbs_val a \<le> hi" "hi * 25 < 2 ^ 256"
  shows "\<exists>b. step_target h p n a = Ok b \<and> wf_u256 b \<and> limbs_val b =
    (if n = 1 then compact_value (nBits (h p)) else (limbs_val a * n + compact_value (nBits (h p))) div (n + 1))"
proof (cases "n = 1")
  case True
  then show ?thesis using SetCompact_target [OF assms(1)] by (simp add: step_target_def)
next
  case False
  let ?t = "fst (SetCompact (nBits (h p)))"
  have t: "wf_u256 ?t" "limbs_val ?t = compact_value (nBits (h p))" using SetCompact_target [OF assms(1)] by simp_all
  have n: "unat (of_nat n :: u32) = n" "unat (of_nat (n + 1) :: u64) = n + 1"
    using assms(4) by (simp_all add: unat_of_nat del: of_nat_add of_nat_Suc)
  have "limbs_val a * n + compact_value (nBits (h p)) \<le> hi * 24 + hi"
    using assms(2,4,6) False by (intro add_mono mult_le_mono) simp_all
  then have "limbs_val a * n + compact_value (nBits (h p)) < 2 ^ 256" using assms(7) by simp
  then obtain q where "bu_div (bu_add (bu_mul32 a (of_nat n)) ?t) (bu_of_u64 (of_nat (n + 1))) = Inr q" "wf_u256 q"
    "limbs_val q = (limbs_val a * n + compact_value (nBits (h p))) div (n + 1)"
    using u256.weighted [OF assms(5) t(1), of "of_nat n" "bu_of_u64 (of_nat (n + 1))"] n t(2) by auto
  then show ?thesis using False by (simp add: step_target_def div_outcome_def)
qed

lemma dgw_loop_ok:
  assumes "chain_ok h p" "n + Suc m = 25" "int m \<le> nHeight (h p)" "0 < n" "wf_u256 a"
    and "\<And>k. 0 \<le> k \<Longrightarrow> k \<le> nHeight (h p) \<Longrightarrow>
      target_valid (nBits (h (ancestor h p k))) \<and> compact_value (nBits (h (ancestor h p k))) \<le> hi"
    and "n \<noteq> 1 \<Longrightarrow> limbs_val a \<le> hi" "hi * 25 < 2 ^ 256"
  shows "\<exists>b. dgw_loop h (Suc m) n a p = Ok (b, ancestor h p (nHeight (h p) - int m)) \<and> wf_u256 b \<and>
    limbs_val b = mean_from n (limbs_val a) (past_targets h p (Suc m))"
  using assms
proof (induction m arbitrary: n a p)
  case 0
  have n: "n = 24" using "0.prems"(2) by simp
  have t: "target_valid (nBits (h p))" "compact_value (nBits (h p)) \<le> hi" using "0.prems"(6) [of "nHeight (h p)"] "0.prems"(3) by simp_all
  obtain b where "step_target h p n a = Ok b" "wf_u256 b" "limbs_val b = (limbs_val a * n + compact_value (nBits (h p))) div (n + 1)"
    using step_target_ok [where h = h and p = p and hi = hi and n = n and a = a] t "0.prems"(4,5,7,8) n by auto
  then show ?case unfolding dgw_loop_step using n by (simp add: past_targets_def)
next
  case (Suc m)
  obtain q where q: "pprev (h p) = Some q"
    using chain_ok_root [OF Suc.prems(1)] Suc.prems(3) by (cases "pprev (h p)") auto
  have ok: "chain_ok h q" "nHeight (h q) = nHeight (h p) - 1" using chain_ok_pprev [OF Suc.prems(1) q] by simp_all
  have t: "target_valid (nBits (h p))" "compact_value (nBits (h p)) \<le> hi" using Suc.prems(6) [of "nHeight (h p)"] Suc.prems(3) by simp_all
  obtain b where b: "step_target h p n a = Ok b" "wf_u256 b"
    "limbs_val b = (if n = 1 then compact_value (nBits (h p)) else (limbs_val a * n + compact_value (nBits (h p))) div (n + 1))"
    using step_target_ok [where h = h and p = p and hi = hi and n = n and a = a] t Suc.prems(2,4,5,7,8) by auto
  have bhi: "limbs_val b \<le> hi" using b(3) t(2) weighted_bounds(2) [of 0 "limbs_val a" hi "compact_value (nBits (h p))" n] Suc.prems(7) by auto
  have "ancestor h q k = ancestor h p k" if "k \<le> nHeight (h q)" for k using ancestor_prev [OF Suc.prems(1) q that] by simp
  then obtain c where "dgw_loop h (Suc m) (n + 1) b q = Ok (c, ancestor h q (nHeight (h q) - int m))" "wf_u256 c"
    "limbs_val c = mean_from (n + 1) (limbs_val b) (past_targets h q (Suc m))"
    using Suc.IH [OF ok(1), of "n + 1" b] Suc.prems ok b(2) bhi by force
  moreover have "ancestor h q (nHeight (h q) - int m) = ancestor h p (nHeight (h p) - int (Suc m))"
    using ancestor_prev [OF Suc.prems(1) q, of "nHeight (h q) - int m"] ok(2) by (simp add: diff_diff_eq)
  moreover have "past_targets h p (Suc (Suc m)) = compact_value (nBits (h p)) # past_targets h q (Suc m)"
    using past_targets_Suc [OF Suc.prems(1) q, of "Suc m"] ok(2) Suc.prems(3) by simp
  ultimately show ?case using b q Suc.prems(2) by (subst dgw_loop_step) simp
qed
section \<open>The required work\<close>

text \<open>A chain of blocks whose targets are in range and not below eight.\<close>

definition targets_ok :: "Params \<Rightarrow> store \<Rightarrow> ptr \<Rightarrow> bool" where
  "targets_ok params h p \<longleftrightarrow> (\<forall>k. 0 \<le> k \<longrightarrow> k \<le> nHeight (h p) \<longrightarrow>
     target_in_range params (nBits (h (ancestor h p k))) \<and> 8 \<le> compact_value (nBits (h (ancestor h p k))))"

lemma targets_okD:
  assumes "targets_ok params h p" "chain_ok h p"
  shows "target_in_range params (nBits (h p))" "8 \<le> compact_value (nBits (h p))"
  using assms chain_ok_height [OF assms(2)] unfolding targets_ok_def by (metis ancestor_self order_refl)+

lemma spacing_cases:
  "GetCurrentPowTargetSpacing params k \<in> {nPowTargetSpacing params, nNewPowTargetSpacing params, nAutolykosPowTargetSpacing params}"
  by (simp add: GetCurrentPowTargetSpacing_def)

lemma DarkGravityWave_ok:
  assumes params: "pow_params_ok params" and c: "chain_ok h p" and t: "targets_ok params h p"
    and n: "int nPastBlocks \<le> nHeight (h p)" "nHeight (h p) \<noteq> AutolykosForkHeight params"
  defines "T \<equiv> 24 * GetCurrentPowTargetSpacing params (nHeight (h p) + 1)"
  defines "mean \<equiv> mean_from 1 0 (past_targets h p 24)"
  defines "span \<equiv> clamp_span 3 T (GetBlockTime (h p) - GetBlockTime (h (ancestor h p (nHeight (h p) - 23))))"
  shows "\<exists>c. DarkGravityWave h p params = Ok c \<and> encodes params (min (pow_limit params) (mean * nat span div nat T)) c"
proof -
  define s where "s = GetCurrentPowTargetSpacing params (nHeight (h p) + 1)"
  have s: "0 < s" "72 * s < 2 ^ 32" "pow_limit params * nat (72 * s) < 2 ^ 256" "0 < pow_limit params"
    using params spacing_cases [of params "nHeight (h p) + 1"] by (auto simp: pow_params_ok_def s_def)
  have lim25: "pow_limit params * 25 < 2 ^ 256"
  proof -
    have "25 \<le> nat (72 * s)" using s(1) by simp
    then have "pow_limit params * 25 \<le> pow_limit params * nat (72 * s)" by (rule mult_le_mono2)
    then show ?thesis using s(3) by (rule le_less_trans)
  qed
  have tv: "target_valid (nBits (h (ancestor h p k))) \<and> compact_value (nBits (h (ancestor h p k))) \<le> pow_limit params"
    if "0 \<le> k" "k \<le> nHeight (h p)" for k using t that by (simp add: targets_ok_def target_in_range_def)
  obtain b where b: "dgw_loop h 24 1 bu_zero p = Ok (b, ancestor h p (nHeight (h p) - 23))" "wf_u256 b" "limbs_val b = mean"
    using dgw_loop_ok [where h = h and p = p and n = 1 and m = 23 and a = bu_zero and hi = "pow_limit params"] c n tv lim25
    by (auto simp: mean_def)
  have bounds: "8 \<le> mean \<and> mean \<le> pow_limit params"
    unfolding mean_def
  proof (rule mean_from_bounds)
    show "\<forall>x \<in> set (past_targets h p 24). 8 \<le> x \<and> x \<le> pow_limit params"
      using t n(1) by (auto simp: past_targets_def targets_ok_def target_in_range_def)
  qed (simp_all add: past_targets_def)
  have T: "0 < T" "T * 3 < 2 ^ 32" "pow_limit params * nat (T * 3) < 2 ^ 256" "T div 3 = 8 * s"
    using s by (simp_all add: T_def s_def)
  have "\<exists>c. retarget params (GetBlockTime (h p) - GetBlockTime (h (ancestor h p (nHeight (h p) - 23)))) T 3 b = Ok c \<and>
      encodes params (min (pow_limit params) (limbs_val b * nat span div nat T)) c"
    unfolding span_def
  proof (rule retarget_ok [OF b(2) _ _ _ _ T(1-3) s(4)])
    show "nat T \<le> 8 * nat (T div 3)" unfolding T(4) using s(1) by (simp add: T_def s_def nat_mult_distrib)
  qed (use b(3) bounds in simp_all)
  then show ?thesis
    using n b by (simp add: DarkGravityWave_def Let_def T_def)
qed
lemma last_non_special_ok:
  assumes "chain_ok h p"
  shows "\<exists>k. 0 \<le> k \<and> k \<le> nHeight (h p) \<and> last_non_special h params lim p = Some (ancestor h p k)"
  using assms
proof (induction rule: chain_ok.induct)
  case (genesis p)
  then have "last_non_special h params lim p = Some p" by (subst last_non_special.simps) simp
  then show ?case using genesis by (intro exI [of _ 0]) (simp add: ancestor_def)
next
  case (extend q p)
  note p = chain_ok.extend [OF extend.hyps(1,2,3,4)]
  obtain k where k: "0 \<le> k" "k \<le> nHeight (h q)" "last_non_special h params lim q = Some (ancestor h q k)" using extend.IH by blast
  have "last_non_special h params lim p \<in> {Some p, last_non_special h params lim q}"
    using extend.hyps(2) by (subst last_non_special.simps) simp
  then consider "last_non_special h params lim p = Some p" | "last_non_special h params lim p = Some (ancestor h q k)" using k(3) by auto
  then show ?case
  proof cases
    case 1
    then show ?thesis using chain_ok_height [OF p] by (intro exI [of _ "nHeight (h p)"]) simp
  next
    case 2
    then show ?thesis
      using k ancestor_prev [OF p extend.hyps(2), of k] extend.hyps(3) by (intro exI [of _ k]) simp
  qed
qed

lemma CalculateNextWorkRequired_ok:
  assumes params: "pow_params_ok params" and c: "chain_ok h p" and t: "targets_ok params h p"
  shows "\<exists>c. CalculateNextWorkRequired h p time params = Ok c \<and> target_in_range params c"
proof (cases "fPowNoRetargeting params")
  case True
  then show ?thesis using targets_okD [OF t c] by (simp add: CalculateNextWorkRequired_def)
next
  case False
  let ?T = "nPowTargetTimespan params" and ?b = "fst (SetCompact (nBits (h p)))"
  have P: "4 \<le> ?T" "?T * 4 < 2 ^ 32" "pow_limit params * nat (?T * 4) < 2 ^ 256" "0 < pow_limit params"
    using params by (simp_all add: pow_params_ok_def)
  have b: "wf_u256 ?b" "limbs_val ?b = compact_value (nBits (h p))"
    using SetCompact_target targets_okD(1) [OF t c] by (simp_all add: target_in_range_def)
  have "\<exists>c. retarget params (GetBlockTime (h p) - time) ?T 4 ?b = Ok c \<and>
      encodes params (min (pow_limit params) (limbs_val ?b * nat (clamp_span 4 ?T (GetBlockTime (h p) - time)) div nat ?T)) c"
  proof (rule retarget_ok [OF b(1) _ _ _ _ _ P(2,3,4)])
    have "?T \<le> 8 * (?T div 4)" using P(1) by presburger
    then show "nat ?T \<le> 8 * nat (?T div 4)" using P(1) by linarith
  qed (use P targets_okD [OF t c] b(2) in \<open>simp_all add: target_in_range_def\<close>)
  then show ?thesis using False by (auto simp: CalculateNextWorkRequired_def encodes_def)
qed

lemma GetNextWorkRequiredBTC_ok:
  assumes params: "pow_params_ok params" and c: "chain_ok h p" and t: "targets_ok params h p"
  shows "\<exists>c. GetNextWorkRequiredBTC h p blk params = Some (Ok c) \<and> target_in_range params c"
proof -
  obtain l where l: "compact_outcome (UintToArith256 (powLimit params)) = Ok l" "target_in_range params l"
    using limit_compact params by (auto simp: pow_params_ok_def)
  define I where "I = DifficultyAdjustmentInterval params"
  have P: "0 < nPowTargetSpacing params" "nPowTargetSpacing params \<le> nPowTargetTimespan params"
    using params by (simp_all add: pow_params_ok_def)
  then have I: "1 \<le> I" by (simp add: I_def DifficultyAdjustmentInterval_def int_sdiv_pos pos_imp_zdiv_pos_iff int_one_le_iff_zero_less)
  have h0: "0 \<le> nHeight (h p)" using c by (rule chain_ok_height)
  obtain k where k: "0 \<le> k" "k \<le> nHeight (h p)" "last_non_special h params l p = Some (ancestor h p k)"
    using last_non_special_ok [OF c] by blast
  have first: "\<exists>c. obind (GetAncestor h p (nHeight (h p) - (I - 1))) (\<lambda>pindexFirst.
        case pindexFirst of None \<Rightarrow> Abort | Some f \<Rightarrow> CalculateNextWorkRequired h p (GetBlockTime (h f)) params) = Ok c \<and>
      target_in_range params c" if "0 \<le> nHeight (h p) - (I - 1)"
    using GetAncestor_correct [OF c, of "nHeight (h p) - (I - 1)"] that I CalculateNextWorkRequired_ok [OF params c t] by simp
  have low: "0 \<le> nHeight (h p) - (I - 1)" if "(nHeight (h p) + 1) smod I = 0"
  proof -
    have "I dvd nHeight (h p) + 1" using that h0 I by (simp add: int_sdiv_pos dvd_eq_mod_eq_0)
    then have "I \<le> nHeight (h p) + 1" using h0 by (intro zdvd_imp_le) simp_all
    then show ?thesis by simp
  qed
  show ?thesis
    unfolding GetNextWorkRequiredBTC_def I_def [symmetric] l(1) then_loop_Ok
    using l(2) k t targets_okD(1) [OF t c] first low by (auto simp: Let_def targets_ok_def)
qed

lemma GetNextWorkRequired_ok:
  assumes params: "pow_params_ok params" and c: "chain_ok h p" and t: "targets_ok params h p"
  shows "\<exists>c. GetNextWorkRequired h p blk params = Some (Ok c) \<and> target_in_range params c"
proof -
  obtain l where l: "compact_outcome (UintToArith256 (powLimit params)) = Ok l" "target_in_range params l"
    using limit_compact params by (auto simp: pow_params_ok_def)
  have dgw: "\<exists>c. DarkGravityWave h p params = Ok c \<and> target_in_range params c"
    using DarkGravityWave_ok [OF params c t] l params by (auto simp: DarkGravityWave_def pow_params_ok_def encodes_def not_less)
  let ?b = "fst (SetCompact (nBits (h p)))"
  have b: "wf_u256 ?b" "limbs_val ?b = compact_value (nBits (h p))" "8 \<le> compact_value (nBits (h p))"
    "compact_value (nBits (h p)) \<le> pow_limit params"
    using SetCompact_target targets_okD [OF t c] by (simp_all add: target_in_range_def)
  have ten: "unat (10 :: u32) = 10" by simp
  have "compact_value (nBits (h p)) * 10 < 2 ^ 256"
  proof -
    have "0 < nPowTargetSpacing params" "pow_limit params * nat (72 * nPowTargetSpacing params) < 2 ^ 256"
      using params by (simp_all add: pow_params_ok_def)
    moreover have "compact_value (nBits (h p)) * 10 \<le> pow_limit params * nat (72 * nPowTargetSpacing params)"
      using b(4) \<open>0 < nPowTargetSpacing params\<close> by (intro mult_le_mono) simp_all
    ultimately show ?thesis by (rule_tac le_less_trans)
  qed
  then have m: "wf_u256 (bu_mul32 ?b 10)" "limbs_val (bu_mul32 ?b 10) = compact_value (nBits (h p)) * 10"
    using bu_mul32_wf [OF b(1), of 10] unfolding b(2) ten by simp_all
  have "\<exists>c. compact_outcome (if bu_greater (bu_mul32 ?b 10) (UintToArith256 (powLimit params))
      then UintToArith256 (powLimit params) else bu_mul32 ?b 10) = Ok c \<and> target_in_range params c"
    using l compact_outcome_ok [OF m(1), of params] m b(3) by (auto simp: bu_greater_val pow_limit_def encodes_def)
  then show ?thesis
    using l dgw GetNextWorkRequiredBTC_ok [OF params c t, of blk] by (auto simp: GetNextWorkRequired_def Let_def)
qed

section \<open>Requiring work whatever the targets are\<close>

text \<open>
  Parameters with which the divisors of the retargeting are not zero.  A limit so high that a product overflows
  is allowed, and so is every earlier target.
\<close>

definition work_params_ok :: "Params \<Rightarrow> bool" where
  "work_params_ok params \<longleftrightarrow>
     (\<forall>s \<in> {nPowTargetSpacing params, nNewPowTargetSpacing params, nAutolykosPowTargetSpacing params}. 0 < s \<and> s < 2 ^ 32) \<and>
     nPowTargetSpacing params \<le> nPowTargetTimespan params \<and> nPowTargetTimespan params < 2 ^ 32 \<and> target_in_range params 0x1d093ab9"

lemma pow_params_work: "pow_params_ok params \<Longrightarrow> work_params_ok params"
  by (auto simp: pow_params_ok_def work_params_ok_def)

text \<open>A compact form without sign and overflow of a number that is not above the limit.\<close>

definition capped :: "Params \<Rightarrow> u32 \<Rightarrow> bool" where
  "capped params c \<longleftrightarrow> (\<exists>t. SetCompact c = (t, False, False) \<and> limbs_val t \<le> pow_limit params)"

lemma capped_in_range:
  assumes "capped params c" "0 < limbs_val (fst (SetCompact c))"
  shows "target_in_range params c"
proof -
  obtain t where t: "SetCompact c = (t, False, False)" "limbs_val t \<le> pow_limit params" using assms(1) by (auto simp: capped_def)
  then show ?thesis using target_valid_SetCompact [OF t(1)] assms(2) by (auto simp: target_in_range_def)
qed

lemma in_range_capped:
  assumes "target_in_range params c"
  shows "capped params c" "0 < limbs_val (fst (SetCompact c))"
proof -
  obtain t ng ov where e: "SetCompact c = (t, ng, ov)" by (cases "SetCompact c")
  show "capped params c" "0 < limbs_val (fst (SetCompact c))"
    using target_valid_SetCompact [OF e] assms by (auto simp: target_in_range_def capped_def e)
qed

lemma SetCompact_wf: "wf_u256 (fst (SetCompact bits))"
  using target_valid_SetCompact [of bits "fst (SetCompact bits)" "fst (snd (SetCompact bits))" "snd (snd (SetCompact bits))"] by simp

lemma compact_capped:
  fixes params :: Params
  assumes "wf_u256 a"
  defines "lim \<equiv> UintToArith256 (powLimit params)"
  shows "\<exists>c. compact_outcome (if bu_greater a lim then lim else a) = Ok c \<and> capped params c"
proof -
  define b where "b = (if bu_greater a lim then lim else a)"
  have b: "wf_u256 b" "limbs_val b \<le> pow_limit params" using assms by (auto simp: b_def lim_def bu_greater_val pow_limit_def)
  obtain c t where "GetCompact b False = Some c" "SetCompact c = (t, False, False)" "limbs_val t \<le> limbs_val b"
    using SetCompact_GetCompact [OF b(1)] by blast
  then show ?thesis using b(2) unfolding b_def [symmetric] by (auto simp: compact_outcome_def capped_def)
qed

lemma limit_capped: "\<exists>c. compact_outcome (UintToArith256 (powLimit params)) = Ok c \<and> capped params c"
  using compact_capped [of "UintToArith256 (powLimit params)" params] by simp

lemma div_total:
  assumes "wf_u256 a" "d \<noteq> (0 :: u64)"
  shows "\<exists>q. div_outcome (bu_div a (bu_of_u64 d)) = Ok q \<and> wf_u256 q"
proof -
  have "limbs_val (bu_of_u64 d) \<noteq> 0" using u256.of64_val(2) [of d] assms(2) by (simp add: unat_eq_0)
  from u256.quot_val [OF assms(1) u256.of64_val(1) this] show ?thesis by (auto simp: div_outcome_def)
qed

lemma retarget_total:
  assumes "wf_u256 bn" "0 < T" "T < 2 ^ 64"
  shows "\<exists>c. retarget params act T f bn = Ok c \<and> capped params c"
proof -
  have "unat (word_of_int T :: u64) = nat T" by (rule unat_word_of_int) (use assms(2,3) in simp_all)
  then have z: "(word_of_int T :: u64) \<noteq> 0" using assms(2) by auto
  have w: "wf_u256 (bu_mul32 bn x)" for x using bu_mul32_wf [OF assms(1)] by blast
  define x where "x = (let a = if act < T sdiv f then T sdiv f else act in word_of_int (if a > T * f then T * f else a) :: u32)"
  obtain q where q: "div_outcome (bu_div (bu_mul32 bn x) (bu_of_u64 (word_of_int T))) = Ok q" "wf_u256 q" using div_total [OF w z] by blast
  show ?thesis using compact_capped [OF q(2), of params] q(1) unfolding retarget_def x_def Let_def by simp
qed

lemma step_target_total:
  assumes "wf_u256 a" "n \<le> 24"
  shows "\<exists>b. step_target h p n a = Ok b \<and> wf_u256 b"
proof (cases "n = 1")
  case True
  then show ?thesis using SetCompact_wf by (simp add: step_target_def)
next
  case False
  have "unat (of_nat (n + 1) :: u64) = n + 1" using assms(2) by (simp add: unat_of_nat del: of_nat_add of_nat_Suc)
  then have "(of_nat (n + 1) :: u64) \<noteq> 0" by (metis add_is_0 one_neq_zero unat_0)
  moreover have "wf_u256 (bu_add (bu_mul32 a (of_nat n)) (fst (SetCompact (nBits (h p)))))"
    using bu_add_wf bu_mul32_wf assms(1) SetCompact_wf by blast
  ultimately show ?thesis using div_total False by (simp add: step_target_def)
qed

lemma dgw_loop_total:
  assumes "chain_ok h p" "n + Suc m = 25" "int m \<le> nHeight (h p)" "wf_u256 a"
  shows "\<exists>b q. dgw_loop h (Suc m) n a p = Ok (b, q) \<and> wf_u256 b"
  using assms
proof (induction m arbitrary: n a p)
  case 0
  then show ?case using step_target_total [of a n h p] unfolding dgw_loop_step by auto
next
  case (Suc m)
  obtain q where q: "pprev (h p) = Some q"
    using chain_ok_root [OF Suc.prems(1)] Suc.prems(3) by (cases "pprev (h p)") auto
  have ok: "chain_ok h q" "nHeight (h q) = nHeight (h p) - 1" using chain_ok_pprev [OF Suc.prems(1) q] by simp_all
  obtain b where b: "step_target h p n a = Ok b" "wf_u256 b" using step_target_total [of a n h p] Suc.prems by auto
  show ?case using Suc.IH [OF ok(1) _ _ b(2), of "n + 1"] Suc.prems ok(2) b q by (subst dgw_loop_step) auto
qed

lemma DarkGravityWave_total:
  assumes params: "work_params_ok params" and c: "chain_ok h p"
  shows "\<exists>c. DarkGravityWave h p params = Ok c \<and> capped params c"
proof -
  define s where "s = GetCurrentPowTargetSpacing params (nHeight (h p) + 1)"
  have s: "0 < s" "s < 2 ^ 32" using params spacing_cases [of params "nHeight (h p) + 1"] by (auto simp: work_params_ok_def s_def)
  have f: "capped params 0x1d093ab9" using params in_range_capped by (simp add: work_params_ok_def)
  have "\<exists>b q. dgw_loop h 24 1 bu_zero p = Ok (b, q) \<and> wf_u256 b" if "24 \<le> nHeight (h p)"
    using dgw_loop_total [where m = 23 and n = 1 and a = bu_zero] c that by auto
  moreover have "\<exists>c. retarget params act (24 * s) 3 b = Ok c \<and> capped params c" if "wf_u256 b" for act b
    by (rule retarget_total [OF that]) (use s in simp_all)
  ultimately show ?thesis
    using f limit_capped [of params] unfolding DarkGravityWave_def s_def [symmetric] Let_def by (fastforce simp: not_less)
qed

text \<open>The required target is capped, or that of an earlier block by the old rule.\<close>

definition earlier_bits :: "store \<Rightarrow> ptr \<Rightarrow> u32 \<Rightarrow> bool" where
  "earlier_bits h p c \<longleftrightarrow> (\<exists>k. 0 \<le> k \<and> k \<le> nHeight (h p) \<and> c = nBits (h (ancestor h p k)))"

lemma earlier_bits_self: "chain_ok h p \<Longrightarrow> earlier_bits h p (nBits (h p))"
  unfolding earlier_bits_def using chain_ok_height by (intro exI [of _ "nHeight (h p)"]) simp

lemma CalculateNextWorkRequired_total:
  assumes "work_params_ok params" "chain_ok h p"
  shows "\<exists>c. CalculateNextWorkRequired h p time params = Ok c \<and> (capped params c \<or> earlier_bits h p c)"
proof -
  have "0 < nPowTargetTimespan params" "nPowTargetTimespan params < 2 ^ 64" using assms(1) by (auto simp: work_params_ok_def)
  then have "\<exists>c. retarget params (GetBlockTime (h p) - time) (nPowTargetTimespan params) 4 (fst (SetCompact (nBits (h p)))) = Ok c \<and> capped params c"
    by (rule retarget_total [OF SetCompact_wf])
  then show ?thesis using earlier_bits_self [OF assms(2)] unfolding CalculateNextWorkRequired_def by auto
qed

lemma GetNextWorkRequiredBTC_total:
  assumes params: "work_params_ok params" and c: "chain_ok h p"
  shows "\<exists>c. GetNextWorkRequiredBTC h p blk params = Some (Ok c) \<and> (capped params c \<or> earlier_bits h p c)"
proof -
  obtain l where l: "compact_outcome (UintToArith256 (powLimit params)) = Ok l" "capped params l" using limit_capped by blast
  define I where "I = DifficultyAdjustmentInterval params"
  have "0 < nPowTargetSpacing params" "nPowTargetSpacing params \<le> nPowTargetTimespan params"
    using params by (simp_all add: work_params_ok_def)
  then have I: "1 \<le> I" by (simp add: I_def DifficultyAdjustmentInterval_def int_sdiv_pos pos_imp_zdiv_pos_iff int_one_le_iff_zero_less)
  have h0: "0 \<le> nHeight (h p)" using c by (rule chain_ok_height)
  obtain k where k: "0 \<le> k" "k \<le> nHeight (h p)" "last_non_special h params l p = Some (ancestor h p k)"
    using last_non_special_ok [OF c] by blast
  then have e: "earlier_bits h p (nBits (h (ancestor h p k)))" by (auto simp: earlier_bits_def)
  have low: "0 \<le> nHeight (h p) - (I - 1)" if "(nHeight (h p) + 1) smod I = 0"
  proof -
    have "I dvd nHeight (h p) + 1" using that h0 I by (simp add: int_sdiv_pos dvd_eq_mod_eq_0)
    then have "I \<le> nHeight (h p) + 1" using h0 by (intro zdvd_imp_le) simp_all
    then show ?thesis by simp
  qed
  have first: "\<exists>c. obind (GetAncestor h p (nHeight (h p) - (I - 1))) (\<lambda>pindexFirst.
        case pindexFirst of None \<Rightarrow> Abort | Some f \<Rightarrow> CalculateNextWorkRequired h p (GetBlockTime (h f)) params) = Ok c \<and>
      (capped params c \<or> earlier_bits h p c)" if "0 \<le> nHeight (h p) - (I - 1)"
    using GetAncestor_correct [OF c, of "nHeight (h p) - (I - 1)"] that I CalculateNextWorkRequired_total [OF params c] by simp
  show ?thesis
    unfolding GetNextWorkRequiredBTC_def I_def [symmetric] l(1) then_loop_Ok
    using l(2) k(3) e earlier_bits_self [OF c] first low by (auto simp: Let_def)
qed

lemma GetNextWorkRequired_total:
  assumes params: "work_params_ok params" and c: "chain_ok h p"
  shows "\<exists>c. GetNextWorkRequired h p blk params = Some (Ok c) \<and>
    (capped params c \<or> nHeight (h p) + 1 < nPowKGWHeight params \<and> earlier_bits h p c)"
proof -
  have "wf_u256 (bu_mul32 (fst (SetCompact (nBits (h p)))) 10)" using bu_mul32_wf [OF SetCompact_wf] by blast
  from compact_capped [OF this, of params] show ?thesis
    using limit_capped [of params] DarkGravityWave_total [OF params c] GetNextWorkRequiredBTC_total [OF params c, of blk]
    by (auto simp: GetNextWorkRequired_def Let_def)
qed

section \<open>Which proofs of work are accepted\<close>

lemma CheckProofOfWork_iff:
  assumes "boost_ok B" "length (hd_hashPrevBlock b) = 32" "length (hd_hashMerkleRoot b) = 32" "length hash = 32"
  shows "CheckProofOfWork B b hash bits params =
    Ok (if sint (hd_nVersion b) \<noteq> AutolykosForkSwitchVersion params
        then target_in_range params bits \<and> limbs_val hash \<le> compact_value bits
        else header_hit (word_of_int (AutolykosForkSwitchVersion params)) b bits < limbs_val (fst (SetCompact bits)))"
proof (cases "sint (hd_nVersion b) = AutolykosForkSwitchVersion params")
  case False
  obtain t ng ov where e: "SetCompact bits = (t, ng, ov)" by (cases "SetCompact bits")
  note s = target_valid_SetCompact [OF e]
  have eq: "EqualTo t 0 \<longleftrightarrow> limbs_val t = 0" using EqualTo_val [of t 0] s by simp
  show ?thesis
    using False s UintToArith256_val [OF assms(4)] by (auto simp: CheckProofOfWork_def e eq bu_greater_val target_in_range_def pow_limit_def)
next
  case True
  then show ?thesis using validate_exact [OF assms(1-3)] by (simp add: CheckProofOfWork_def)
qed

section \<open>Properties\<close>

text \<open>
  C36. Requiring work always succeeds: on every well-formed chain, whatever the targets of its blocks, and for
  parameters with positive spacings and the fork's fixed target not above the limit, \<^verbatim>\<open>GetNextWorkRequired\<close>
  ends for every candidate block, in each of its branches, without a failed assertion or a division by zero.  The
  target it requires has no sign, does not overflow and is not above the limit, except that below
  \<^verbatim>\<open>nPowKGWHeight\<close> it may be the unchanged target of an earlier block.  It is moreover not zero, so in the
  range that \<^verbatim>\<open>CheckProofOfWork\<close> accepts, when all earlier targets are in that range and at least 8 and the limit
  leaves room for the products of the retargeting, as that of the main network does, and those of the regression test and
  the development networks do not.
\<close>

theorem required_work_in_range:
  assumes "work_params_ok params" "chain_ok h p"
  shows "\<exists>c. GetNextWorkRequired h p blk params = Some (Ok c) \<and>
    (capped params c \<or> nHeight (h p) + 1 < nPowKGWHeight params \<and> earlier_bits h p c) \<and>
    (pow_params_ok params \<and> targets_ok params h p \<longrightarrow> target_in_range params c)"
  using GetNextWorkRequired_total [OF assms] GetNextWorkRequired_ok [OF _ assms(2)] by fastforce

lemma limbs_val_replicate_ff: "limbs_val (replicate n 0xff :: bytes) + 1 = 256 ^ n"
proof (induction n)
  case (Suc n)
  have "limbs_val (replicate (Suc n) 0xff :: bytes) + 1 = 256 * (limbs_val (replicate n 0xff :: bytes) + 1)" by simp
  then show ?case unfolding Suc.IH by simp
qed simp

lemma mainnet_limit: "pow_limit mainnet_params = 2 ^ 236 - 1"
proof -
  define v where "v = limbs_val (replicate 29 0xff :: bytes)"
  have v: "v + 1 = 256 ^ 29" unfolding v_def by (rule limbs_val_replicate_ff)
  have "length (powLimit mainnet_params) = 32" by (simp add: mainnet_params_def)
  then have "pow_limit mainnet_params = limbs_val (powLimit mainnet_params)" by (simp only: pow_limit_def UintToArith256_val)
  also have "\<dots> = v + 2 ^ (8 * 29) * limbs_val [0x0f, 0, 0 :: u8]"
    by (simp only: mainnet_params_def Params.simps limbs_val_append v_def length_replicate) simp
  also have "\<dots> = 2 ^ 236 - 1" using v by simp
  finally show ?thesis .
qed

lemma example_target: "target_in_range mainnet_params 0x1d00ffff \<and> 8 \<le> compact_value 0x1d00ffff"
  "target_in_range mainnet_params 0x1d093ab9"
  by (simp_all add: target_in_range_def mainnet_limit target_valid_def compact_value_def compact_exponent_def
      compact_mantissa_def compact_sign_def)

lemma mainnet_pow_ok: "pow_params_ok mainnet_params"
  unfolding pow_params_ok_def mainnet_limit using example_target(2) by (simp add: mainnet_params_def)

lemma example_targets_ok: "targets_ok mainnet_params example_store p"
  using example_target(1)
  by (auto simp: targets_ok_def example_store_def CBlockIndex_of_def example_header_def)

theorem required_work_in_range_witness:
  "\<exists>c. GetNextWorkRequired example_store 100 (example_header 7) mainnet_params = Some (Ok c) \<and> target_in_range mainnet_params c"
  using required_work_in_range [OF pow_params_work [OF mainnet_pow_ok] example_chain_ok, of 100 "example_header 7"]
    mainnet_pow_ok example_targets_ok by blast

text \<open>
  Dark Gravity Wave moves the target by at most a factor of three: with enough blocks it yields
  the compact form, which loses less than one part in 32768, of the weighted mean of the last 24
  targets scaled by the time they took over the time they should have taken, where the mean lies
  between the smallest and the largest of the 24 targets, the time is limited to between a third
  and three times of what it should be, and the result to the limit of all targets.  No
  intermediate result overflows.
\<close>

theorem DarkGravityWave_bounded:
  assumes "pow_params_ok params" "chain_ok h p" "targets_ok params h p"
    "24 \<le> nHeight (h p)" "nHeight (h p) \<noteq> AutolykosForkHeight params"
    "\<forall>t \<in> set (past_targets h p 24). lo \<le> t \<and> t \<le> hi"
  shows "\<exists>c mean span T. DarkGravityWave h p params = Ok c \<and>
    encodes params (min (pow_limit params) (mean * nat span div nat T)) c \<and>
    lo \<le> mean \<and> mean \<le> hi \<and> T = 24 * GetCurrentPowTargetSpacing params (nHeight (h p) + 1) \<and> T div 3 \<le> span \<and> span \<le> T * 3"
proof -
  define T where "T = 24 * GetCurrentPowTargetSpacing params (nHeight (h p) + 1)"
  have "0 < T" using assms(1) spacing_cases [of params "nHeight (h p) + 1"] by (auto simp: pow_params_ok_def T_def)
  then have "T div 3 \<le> clamp_span 3 T a \<and> clamp_span 3 T a \<le> T * 3" for a
    using zdiv_mono2 [of T 1 3] by (auto simp: clamp_span_def)
  moreover have "lo \<le> mean_from 1 0 (past_targets h p 24) \<and> mean_from 1 0 (past_targets h p 24) \<le> hi"
    by (rule mean_from_bounds [OF assms(6)]) (simp_all add: past_targets_def)
  ultimately show ?thesis
    using DarkGravityWave_ok [OF assms(1-3) _ assms(5)] assms(4) unfolding T_def by fastforce
qed

theorem DarkGravityWave_bounded_witness:
  "\<exists>c mean span. DarkGravityWave example_store 100 mainnet_params = Ok c \<and>
    encodes mainnet_params (min (2 ^ 236 - 1) (mean * nat span div 4320)) c \<and> mean = 0xffff * 256 ^ 26 \<and> span \<le> 12960"
proof -
  let ?t = "0xffff * 256 ^ 26 :: nat"
  have b: "nBits (example_store q) = 0x1d00ffff" for q by (simp add: example_store_def CBlockIndex_of_def example_header_def)
  have v: "compact_value 0x1d00ffff = ?t"
    by (simp add: compact_value_def compact_exponent_def compact_mantissa_def)
  have "\<forall>t \<in> set (past_targets example_store 100 24). ?t \<le> t \<and> t \<le> ?t" by (simp only: past_targets_def b v) simp
  from DarkGravityWave_bounded [OF mainnet_pow_ok example_chain_ok example_targets_ok _ _ this]
  obtain c mean span where r: "DarkGravityWave example_store 100 mainnet_params = Ok c"
    "encodes mainnet_params (min (pow_limit mainnet_params)
       (mean * nat span div nat (24 * GetCurrentPowTargetSpacing mainnet_params (nHeight (example_store 100) + 1)))) c"
    "?t \<le> mean" "mean \<le> ?t" "span \<le> 24 * GetCurrentPowTargetSpacing mainnet_params (nHeight (example_store 100) + 1) * 3"
    by (auto simp: example_fields mainnet_params_def)
  have T: "24 * GetCurrentPowTargetSpacing mainnet_params (nHeight (example_store 100) + 1) = 4320"
    by (simp add: example_fields GetCurrentPowTargetSpacing_def mainnet_params_def)
  have "mean = ?t" by (rule le_antisym [OF r(4) r(3)])
  moreover have "encodes mainnet_params (min (2 ^ 236 - 1) (mean * nat span div 4320)) c"
    using r(2) unfolding T mainnet_limit nat_numeral .
  moreover have "span \<le> 12960" using r(5) unfolding T by simp
  ultimately show ?thesis using r(1) by blast
qed

text \<open>
  C37. \<^verbatim>\<open>CheckProofOfWork\<close> always returns a verdict.  For a header of another version than the
  Autolykos one it accepts exactly when the target is positive, representable and not above the
  limit, and the hash, read as a little-endian number, is not above the target.  For the Autolykos
  version it accepts exactly when the hit of the header's puzzle is below the number that the
  compact target decodes to: sign, overflow and limit of the target are not looked at, nor is the
  hash that it was given.
\<close>

theorem CheckProofOfWork_exact:
  assumes "boost_ok B" "length (hd_hashPrevBlock b) = 32" "length (hd_hashMerkleRoot b) = 32" "length hash = 32"
  shows "CheckProofOfWork B b hash bits params =
    Ok (if sint (hd_nVersion b) \<noteq> AutolykosForkSwitchVersion params
        then target_valid bits \<and> compact_value bits \<le> pow_limit params \<and> limbs_val hash \<le> compact_value bits
        else header_hit (word_of_int (AutolykosForkSwitchVersion params)) b bits < limbs_val (fst (SetCompact bits)))"
  using CheckProofOfWork_iff [OF assms] by (simp add: target_in_range_def)

theorem CheckProofOfWork_exact_witness:
  "CheckProofOfWork boost_model (example_header 7) uint256_null 0x1d00ffff mainnet_params = Ok True"
  using CheckProofOfWork_exact [OF boost_model_ok, of "example_header 7" uint256_null "0x1d00ffff" mainnet_params] example_target(1)
  by (simp add: example_header_def CBlockHeader_null_def mainnet_params_def target_in_range_def uint256_null_def)

end
