(* ===== verification/Doubles.thy ===== *)
theory Doubles
  imports Blocx_Prelude
begin

text \<open>
  Double-precision arithmetic of the language, as far as the code uses it: IEEE 754 numbers with 53
  bits, rounding to nearest with ties to even, infinities and not-a-number.  The lemmas are on
  rounding: it keeps the order against representable numbers, and a product that is close enough
  above an integer is cut off to it.
\<close>

section \<open>Double-precision numbers\<close>

text \<open>\<open>Fin m e\<close> is \<open>m * 2\<^sup>e\<close>; the flag of an infinity is its sign.\<close>

datatype double = Fin int int | Inf bool | NaN

function bit_len :: "int \<Rightarrow> int" where
  "bit_len m = (if m \<le> 0 then 0 else 1 + bit_len (m div 2))"
  by auto
termination by (relation "measure nat") auto

declare bit_len.simps [simp del]

text \<open>Division to the nearest integer, ties to even.\<close>

definition rne_div :: "int \<Rightarrow> int \<Rightarrow> int" where
  "rne_div n d =
     (let q = n div d; r = n mod d
      in if 2 * r < d then q else if 2 * r > d then q + 1 else if even q then q else q + 1)"

text \<open>The double nearest to \<open>m * 2\<^sup>e\<close>: 53 bits, the least exponent is -1074, the numbers end at \<open>2\<^sup>1\<^sup>0\<^sup>2\<^sup>4\<close>.\<close>

definition double_round :: "int \<Rightarrow> int \<Rightarrow> double" where
  "double_round m e =
     (let s = max (bit_len \<bar>m\<bar> - 53) (- 1074 - e);
          m' = (if s \<le> 0 then m else rne_div m (2 ^ nat s));
          e' = (if s \<le> 0 then e else e + s)
      in if m' \<noteq> 0 \<and> bit_len \<bar>m'\<bar> + e' > 1024 then Inf (m' < 0) else Fin m' e')"

text \<open>
  The double nearest to the quotient of two numbers: 55 bits of the quotient and a last bit that
  tells whether there is a remainder decide every rounding.
\<close>

definition double_quot :: "int \<Rightarrow> int \<Rightarrow> int \<Rightarrow> double" where
  "double_quot n d e =
     (let k = 55 + bit_len \<bar>d\<bar>;
          m = sgn d * n * 2 ^ nat k;
          sticky = (if m mod \<bar>d\<bar> = 0 then 0 else 1)
      in double_round (2 * (m div \<bar>d\<bar>) + sticky) (e - k - 1))"

definition double_of_int :: "int \<Rightarrow> double" where "double_of_int n = double_round n 0"

text \<open>A decimal literal \<open>n / d\<close>.\<close>

definition double_lit :: "int \<Rightarrow> int \<Rightarrow> double" where "double_lit n d = double_quot n d 0"

fun double_times :: "double \<Rightarrow> double \<Rightarrow> double" where
  "double_times (Fin m e) (Fin n f) = double_round (m * n) (e + f)"
| "double_times (Inf s) (Fin n f) = (if n = 0 then NaN else Inf (s \<noteq> (n < 0)))"
| "double_times (Fin m e) (Inf s) = (if m = 0 then NaN else Inf (s \<noteq> (m < 0)))"
| "double_times (Inf s) (Inf t) = Inf (s \<noteq> t)"
| "double_times _ _ = NaN"

fun double_div :: "double \<Rightarrow> double \<Rightarrow> double" where
  "double_div (Fin m e) (Fin n f) = (if n = 0 then if m = 0 then NaN else Inf (m < 0) else double_quot m n (e - f))"
| "double_div (Fin m e) (Inf s) = Fin 0 0"
| "double_div (Inf s) (Fin n f) = Inf (s \<noteq> (n < 0))"
| "double_div _ _ = NaN"

fun double_minus :: "double \<Rightarrow> double \<Rightarrow> double" where
  "double_minus (Fin m e) (Fin n f) = (let g = min e f in double_round (m * 2 ^ nat (e - g) - n * 2 ^ nat (f - g)) g)"
| "double_minus (Inf s) (Fin n f) = Inf s"
| "double_minus (Fin m e) (Inf s) = Inf (\<not> s)"
| "double_minus (Inf s) (Inf t) = (if s = t then NaN else Inf s)"
| "double_minus _ _ = NaN"

fun double_abs :: "double \<Rightarrow> double" where
  "double_abs (Fin m e) = Fin \<bar>m\<bar> e"
| "double_abs (Inf s) = Inf False"
| "double_abs NaN = NaN"

fun double_gt :: "double \<Rightarrow> double \<Rightarrow> bool" where
  "double_gt (Fin m e) (Fin n f) = (let g = min e f in m * 2 ^ nat (e - g) > n * 2 ^ nat (f - g))"
| "double_gt (Inf s) (Fin n f) = (\<not> s)"
| "double_gt (Fin m e) (Inf s) = s"
| "double_gt (Inf s) (Inf t) = (\<not> s \<and> t)"
| "double_gt _ _ = False"

text \<open>
  The conversion to an integer drops the fraction; for a number out of range, or no number, it has
  no defined result.
\<close>

definition int_of_double :: "double \<Rightarrow> int option" where
  "int_of_double x = (case x of
      Fin m e \<Rightarrow> let v = (if e \<ge> 0 then m * 2 ^ nat e else m sdiv 2 ^ nat (- e)) in if - (2 ^ 63) \<le> v \<and> v < 2 ^ 63 then Some v else None
    | _ \<Rightarrow> None)"

section \<open>Rounding\<close>

lemma rne_div_ge: "0 < d \<Longrightarrow> q * d \<le> n \<Longrightarrow> q \<le> rne_div n d"
proof -
  assume d: "0 < d" and n: "q * d \<le> n"
  have "q \<le> n div d" using zdiv_mono1 [OF n d] d by simp
  then show ?thesis by (simp add: rne_div_def Let_def)
qed

lemma rne_div_le: "0 < d \<Longrightarrow> n \<le> q * d \<Longrightarrow> rne_div n d \<le> q"
proof (cases "n mod d = 0")
  case True
  assume d: "0 < d" and n: "n \<le> q * d"
  have "n div d \<le> q" using zdiv_mono1 [OF n d] d by simp
  then show ?thesis using True d by (simp add: rne_div_def Let_def)
next
  case False
  assume d: "0 < d" and n: "n \<le> q * d"
  have "n = n div d * d + n mod d" by simp
  moreover have "0 < n mod d" using False d by (simp add: le_neq_trans)
  ultimately have "n div d * d < q * d" using n by linarith
  then have "n div d < q" using d by simp
  then show ?thesis by (simp add: rne_div_def Let_def)
qed

text \<open>Rounding is to a nearest integer.\<close>

lemma rne_div_nearest: "0 < d \<Longrightarrow> 2 * \<bar>rne_div n d * d - n\<bar> \<le> d"
proof -
  assume d: "0 < d"
  define q r where "q = n div d" and "r = n mod d"
  have n: "n = q * d + r" and r: "0 \<le> r" "r < d" using d by (simp_all add: q_def r_def)
  have q: "2 * \<bar>q * d - n\<bar> \<le> d" if "2 * r \<le> d" using that r unfolding n by simp
  have q1: "2 * \<bar>(q + 1) * d - n\<bar> \<le> d" if "d \<le> 2 * r" using that r unfolding n by (simp add: algebra_simps)
  show ?thesis unfolding rne_div_def Let_def q_def [symmetric] r_def [symmetric] using q q1 by simp
qed

lemma bit_len_pos: "0 < m \<Longrightarrow> bit_len m = 1 + bit_len (m div 2)" by (subst bit_len.simps) simp
lemma bit_len_nonpos [simp]: "m \<le> 0 \<Longrightarrow> bit_len m = 0" by (subst bit_len.simps) simp

lemma bit_len_nonneg: "0 \<le> bit_len m"
  by (induction m rule: bit_len.induct) (subst bit_len.simps, simp)

lemma bit_len_le: "m < 2 ^ b \<Longrightarrow> bit_len m \<le> int b"
proof (induction b arbitrary: m)
  case 0
  then show ?case by simp
next
  case (Suc b)
  show ?case
  proof (cases "0 < m")
    case True
    have "m div 2 < 2 ^ b" using Suc.prems by simp
    from Suc.IH [OF this] show ?thesis using True by (simp add: bit_len_pos)
  qed simp
qed

text \<open>
  Rounding keeps the order against every number that is representable with the bits of the
  result.
\<close>

lemma double_round_bounds:
  assumes "0 \<le> m" "m < 2 ^ b" "b \<le> 1024" "k \<le> 1074" "b \<le> 53 + k"
  shows "\<exists>m' j. double_round m (- int k) = Fin m' (- int j) \<and> k \<le> j + (b - 53) \<and> j \<le> k \<and> 0 \<le> m' \<and>
    (\<forall>L i. i \<le> j \<longrightarrow> (L * 2 ^ (k - i) \<le> m \<longrightarrow> L * 2 ^ (j - i) \<le> m') \<and> (m \<le> L * 2 ^ (k - i) \<longrightarrow> m' \<le> L * 2 ^ (j - i)))"
proof -
  define s where "s = max (bit_len m - 53) (- 1074 - - int k)"
  have bl: "bit_len m \<le> int b" by (rule bit_len_le [OF assms(2)])
  have abs: "\<bar>m\<bar> = m" using assms(1) by simp
  have e: "double_round m (- int k) = (let m' = (if s \<le> 0 then m else rne_div m (2 ^ nat s)); e' = (if s \<le> 0 then - int k else - int k + s)
      in if m' \<noteq> 0 \<and> bit_len \<bar>m'\<bar> + e' > 1024 then Inf (m' < 0) else Fin m' e')"
    unfolding double_round_def abs s_def by (simp only: Let_def)
  show ?thesis
  proof (cases "s \<le> 0")
    case True
    have "double_round m (- int k) = Fin m (- int k)"
      using True bl assms(3) unfolding e Let_def by (simp add: abs)
    then show ?thesis using assms(1) by (intro exI [of _ m] exI [of _ k]) auto
  next
    case False
    define t where "t = nat s"
    have t: "s = int t" "0 < t" using False by (simp_all add: t_def)
    have "int t \<le> int b - 53" using t(1) False bl assms(4) by (auto simp: s_def split: split_max)
    then have tk: "t \<le> b - 53" "t \<le> k" using assms(5) t(2) by linarith+
    define m' where "m' = rne_div m (2 ^ t)"
    have m': "L * 2 ^ t \<le> m \<Longrightarrow> L \<le> m'" "m \<le> L * 2 ^ t \<Longrightarrow> m' \<le> L" for L
      unfolding m'_def by (rule rne_div_ge, simp_all) (rule rne_div_le, simp_all)
    have m0: "0 \<le> m'" using m'(1) [of 0] assms(1) by simp
    have "m' \<le> m" by (rule m'(2)) (use assms(1) in \<open>simp add: mult_le_cancel_left1\<close>)
    then have "bit_len \<bar>m'\<bar> \<le> int b" using bit_len_le [of m' b] assms(2) m0 by simp
    then have "double_round m (- int k) = Fin m' (- int (k - t))"
      using False assms(3) tk t unfolding e Let_def by (simp add: m'_def [symmetric] of_nat_diff)
    moreover have "(L * 2 ^ (k - i) \<le> m \<longrightarrow> L * 2 ^ (k - t - i) \<le> m') \<and> (m \<le> L * 2 ^ (k - i) \<longrightarrow> m' \<le> L * 2 ^ (k - t - i))"
      if "i \<le> k - t" for L i
    proof -
      have "(2 :: int) ^ (k - i) = 2 ^ (k - t - i) * 2 ^ t" using that tk by (simp flip: power_add)
      then show ?thesis using m' [of "L * 2 ^ (k - t - i)"] by (simp add: mult.assoc)
    qed
    ultimately show ?thesis using m0 tk by (intro exI [of _ m'] exI [of _ "k - t"]) simp
  qed
qed

lemma int_of_Fin:
  assumes "N * 2 ^ j \<le> m" "m < (N + 1) * 2 ^ j" "0 \<le> N" "N < 2 ^ 63"
  shows "int_of_double (Fin m (- int j)) = Some N"
proof -
  have "m div 2 ^ j = N" using assms(1,2) by (intro int_div_pos_eq [of _ _ _ "m - N * 2 ^ j"]) (simp_all add: algebra_simps)
  moreover have "0 \<le> m" using assms(1,3) by (meson order_trans mult_nonneg_nonneg zero_le_power zero_le_numeral)
  ultimately show ?thesis using assms(3,4) by (cases "j = 0") (simp_all add: int_of_double_def int_sdiv_pos)
qed

text \<open>A product that is at most half a unit above an integer is rounded and cut off to it.\<close>

lemma int_of_round:
  assumes "0 \<le> N" "N < 2 ^ 63" "N * 2 ^ k \<le> m" "2 * m \<le> (2 * N + 1) * 2 ^ k" "m < 2 ^ b" "b \<le> 1024" "k \<le> 1074" "b < 53 + k" "0 < k"
  shows "int_of_double (double_round m (- int k)) = Some N"
proof -
  have "0 \<le> N * 2 ^ k" using assms(1) by simp
  then have m0: "0 \<le> m" using assms(3) by linarith
  have bk: "b \<le> 53 + k" using assms(8) by simp
  from double_round_bounds [OF m0 assms(5,6,7) bk]
  obtain m' j where j: "double_round m (- int k) = Fin m' (- int j)" "k \<le> j + (b - 53)" "j \<le> k" and
    b: "i \<le> j \<Longrightarrow> (L * 2 ^ (k - i) \<le> m \<longrightarrow> L * 2 ^ (j - i) \<le> m') \<and> (m \<le> L * 2 ^ (k - i) \<longrightarrow> m' \<le> L * 2 ^ (j - i))" for L i
    by blast
  have j0: "0 < j" using j(2) assms(8,9) by linarith
  have pk: "(2 :: int) ^ k = 2 * 2 ^ (k - 1)" using assms(9) by (cases k) simp_all
  have pj: "(2 :: int) ^ j = 2 * 2 ^ (j - 1)" using j0 by (cases j) simp_all
  have lo: "N * 2 ^ j \<le> m'" using b [of 0 N] assms(3) by simp
  have "m \<le> (2 * N + 1) * 2 ^ (k - 1)" using assms(4) unfolding pk by simp
  then have "m' \<le> (2 * N + 1) * 2 ^ (j - 1)" using b [of 1 "2 * N + 1"] j0 by simp
  also have "\<dots> < (2 * N + 2) * 2 ^ (j - 1)" by (rule mult_strict_right_mono) simp_all
  also have "\<dots> = (N + 1) * 2 ^ j" unfolding pj by simp
  finally have "m' < (N + 1) * 2 ^ j" .
  with lo show ?thesis unfolding j(1) by (rule int_of_Fin [OF _ _ assms(1,2)])
qed

lemma double_of_int_exact: "0 \<le> n \<Longrightarrow> n < 2 ^ 53 \<Longrightarrow> double_of_int n = Fin n 0"
  using bit_len_le [of n 53] by (simp add: double_of_int_def double_round_def Let_def)

end
