(* ===== verification/Tx_Check.thy ===== *)
theory Tx_Check
  imports Transaction
begin

text \<open>
  Validation states (\<^verbatim>\<open>consensus/validation.h\<close>) and the context-free checks of a transaction
  (\<^verbatim>\<open>consensus/tx_check.cpp\<close>, \<^verbatim>\<open>consensus/consensus.h\<close>).
\<close>


section \<open>Validation states\<close>

datatype ValidationInvalidReason =
  REASON_NONE | CONSENSUS | RECENT_CONSENSUS_CHANGE | CACHED_INVALID | BLOCK_INVALID_HEADER | BLOCK_MUTATED
| BLOCK_MISSING_PREV | BLOCK_INVALID_PREV | BLOCK_TIME_FUTURE | BLOCK_CHECKPOINT | BLOCK_CHAINLOCK
| TX_NOT_STANDARD | TX_MISSING_INPUTS | TX_PREMATURE_SPEND | TX_BAD_SPECIAL | TX_CONFLICT | TX_CONFLICT_LOCK
| TX_MEMPOOL_POLICY

definition IsTransactionReason :: "ValidationInvalidReason \<Rightarrow> bool" where
  "IsTransactionReason r \<longleftrightarrow> r \<in> {REASON_NONE, CONSENSUS, RECENT_CONSENSUS_CHANGE, TX_NOT_STANDARD, TX_PREMATURE_SPEND,
     TX_MISSING_INPUTS, TX_BAD_SPECIAL, TX_CONFLICT, TX_CONFLICT_LOCK, TX_MEMPOOL_POLICY}"

definition IsBlockReason :: "ValidationInvalidReason \<Rightarrow> bool" where
  "IsBlockReason r \<longleftrightarrow> r \<in> {REASON_NONE, CONSENSUS, RECENT_CONSENSUS_CHANGE, CACHED_INVALID, BLOCK_INVALID_HEADER,
     BLOCK_MUTATED, BLOCK_MISSING_PREV, BLOCK_INVALID_PREV, BLOCK_TIME_FUTURE, BLOCK_CHECKPOINT, BLOCK_CHAINLOCK}"

abbreviation (input) REJECT_INVALID :: nat where "REJECT_INVALID \<equiv> 0x10"

datatype mode_state = MODE_VALID | MODE_INVALID | MODE_ERROR

record CValidationState =
  mode :: mode_state
  m_reason :: ValidationInvalidReason
  strRejectReason :: string
  chRejectCode :: nat
  strDebugMessage :: string

definition CValidationState_init :: CValidationState where
  "CValidationState_init =
     \<lparr>mode = MODE_VALID, m_reason = REASON_NONE, strRejectReason = [], chRejectCode = 0, strDebugMessage = []\<rparr>"

definition Invalid :: "ValidationInvalidReason \<Rightarrow> bool \<Rightarrow> nat \<Rightarrow> string \<Rightarrow> string \<Rightarrow> CValidationState \<Rightarrow> bool \<times> CValidationState" where
  "Invalid reasonIn ret chRejectCodeIn strRejectReasonIn strDebugMessageIn state =
     (let state = state\<lparr>m_reason := reasonIn, chRejectCode := chRejectCodeIn, strRejectReason := strRejectReasonIn,
        strDebugMessage := strDebugMessageIn\<rparr>
      in if mode state = MODE_ERROR then (ret, state) else (ret, state\<lparr>mode := MODE_INVALID\<rparr>))"

definition ValidationError :: "string \<Rightarrow> CValidationState \<Rightarrow> bool \<times> CValidationState" where
  "ValidationError strRejectReasonIn state =
     (False, (if mode state = MODE_VALID then state\<lparr>strRejectReason := strRejectReasonIn\<rparr> else state)\<lparr>mode := MODE_ERROR\<rparr>)"

abbreviation IsValid_state :: "CValidationState \<Rightarrow> bool" where "IsValid_state state \<equiv> mode state = MODE_VALID"
abbreviation IsInvalid_state :: "CValidationState \<Rightarrow> bool" where "IsInvalid_state state \<equiv> mode state = MODE_INVALID"
abbreviation IsError_state :: "CValidationState \<Rightarrow> bool" where "IsError_state state \<equiv> mode state = MODE_ERROR"

abbreviation consensus_error :: "string \<Rightarrow> CValidationState \<Rightarrow> bool \<times> CValidationState" where
  "consensus_error str \<equiv> Invalid CONSENSUS False REJECT_INVALID str []"


text \<open>
  How the functions that judge a transaction or a block end: they return true and leave the state
  alone, or they return what \<^verbatim>\<open>Invalid\<close> returns.  \<open>judged\<close> says that they accept exactly
  when a condition holds.
\<close>

definition judged :: "CValidationState \<Rightarrow> bool \<times> CValidationState \<Rightarrow> bool \<Rightarrow> bool" where
  "judged state r P \<longleftrightarrow>
     r = (True, state) \<and> P \<or> (\<exists>str. r = consensus_error str state) \<and> \<not> P"

lemma judged_True: "judged state (True, state) True"
  by (simp add: judged_def)

lemma judged_guard:
  "judged state r P \<Longrightarrow> judged state (if c then consensus_error str state else r) (\<not> c \<and> P)"
  by (auto simp: judged_def)

lemma judged_if:
  "judged state r P \<Longrightarrow> judged state r' P' \<Longrightarrow> judged state (if c then r else r') (if c then P else P')"
  by simp

lemma judged_option:
  "judged state r P \<Longrightarrow> judged state (case e of Some str \<Rightarrow> consensus_error str state | None \<Rightarrow> r) (e = None \<and> P)"
  by (cases e) (auto simp: judged_def)

lemma judged_cong: "judged state r P \<Longrightarrow> (P \<longleftrightarrow> Q) \<Longrightarrow> judged state r Q"
  by (simp add: judged_def)


section \<open>Context-free checks\<close>

abbreviation (input) MAX_LEGACY_BLOCK_SIZE :: nat where "MAX_LEGACY_BLOCK_SIZE \<equiv> 1000000"
abbreviation (input) MAX_DIP0001_BLOCK_SIZE :: nat where "MAX_DIP0001_BLOCK_SIZE \<equiv> 2000000"
abbreviation (input) MAX_TX_EXTRA_PAYLOAD :: nat where "MAX_TX_EXTRA_PAYLOAD \<equiv> 10000"

definition MaxBlockSize :: "bool \<Rightarrow> nat" where
  "MaxBlockSize fDIP0001Active = (if fDIP0001Active then MAX_DIP0001_BLOCK_SIZE else MAX_LEGACY_BLOCK_SIZE)"

definition MaxBlockSigOps :: "bool \<Rightarrow> nat" where
  "MaxBlockSigOps fDIP0001Active = MaxBlockSize fDIP0001Active div 50"

primrec check_outputs :: "CTxOut list \<Rightarrow> int \<Rightarrow> string option" where
  "check_outputs [] nValueOut = None"
| "check_outputs (txout # outs) nValueOut =
     (if nValue txout < 0 then Some ''bad-txns-vout-negative''
      else if nValue txout > MAX_MONEY then Some ''bad-txns-vout-toolarge''
      else let nValueOut = nValueOut + nValue txout
      in if \<not> MoneyRange nValueOut then Some ''bad-txns-txouttotal-toolarge'' else check_outputs outs nValueOut)"

primrec check_inputs_distinct :: "CTxIn list \<Rightarrow> COutPoint set \<Rightarrow> bool" where
  "check_inputs_distinct [] vInOutPoints = True"
| "check_inputs_distinct (txin # ins) vInOutPoints =
     (if prevout txin \<in> vInOutPoints then False
      else check_inputs_distinct ins (insert (prevout txin) vInOutPoints))"

definition CheckTransaction :: "CTransaction \<Rightarrow> CValidationState \<Rightarrow> bool \<times> CValidationState" where
  "CheckTransaction tx state =
     (let allowEmptyTxInOut = (nType tx = TRANSACTION_QUORUM_COMMITMENT)
      in if \<not> allowEmptyTxInOut \<and> vin tx = [] then consensus_error ''bad-txns-vin-empty'' state
      else if \<not> allowEmptyTxInOut \<and> vout tx = [] then consensus_error ''bad-txns-vout-empty'' state
      else if length (CTransaction_ser tx) > MAX_LEGACY_BLOCK_SIZE then consensus_error ''bad-txns-oversize'' state
      else if length (vExtraPayload tx) > MAX_TX_EXTRA_PAYLOAD then consensus_error ''bad-txns-payload-oversize'' state
      else case check_outputs (vout tx) 0 of
        Some str \<Rightarrow> consensus_error str state
      | None \<Rightarrow>
        if \<not> check_inputs_distinct (vin tx) {} then consensus_error ''bad-txns-inputs-duplicate'' state
        else if IsCoinBase tx
        then let minCbSize = (if nType tx = TRANSACTION_COINBASE then 1 else 2)
             in if length (scriptSig (vin tx ! 0)) < minCbSize \<or> length (scriptSig (vin tx ! 0)) > 100
                then consensus_error ''bad-cb-length'' state else (True, state)
        else if \<exists>txin \<in> set (vin tx). COutPoint_IsNull (prevout txin)
        then consensus_error ''bad-txns-prevout-null'' state
        else (True, state))"

lemma check_outputs_iff:
  assumes "MoneyRange acc"
  shows "check_outputs outs acc = None \<longleftrightarrow> value_out_loop outs acc \<noteq> Throw"
  using assms
proof (induction outs arbitrary: acc)
  case Nil
  then show ?case by simp
next
  case (Cons out outs)
  then show ?case by (auto simp: MoneyRange_def Let_def)
qed

lemma check_inputs_distinct_iff:
  "check_inputs_distinct ins seen \<longleftrightarrow> distinct (map prevout ins) \<and> set (map prevout ins) \<inter> seen = {}"
  by (induction ins arbitrary: seen) auto

text \<open>Specification: the rules a transaction obeys on its own.\<close>

definition tx_rules :: "CTransaction \<Rightarrow> bool" where
  "tx_rules tx \<longleftrightarrow>
     (nType tx \<noteq> TRANSACTION_QUORUM_COMMITMENT \<longrightarrow> vin tx \<noteq> [] \<and> vout tx \<noteq> []) \<and>
     GetTotalSize tx \<le> MAX_LEGACY_BLOCK_SIZE \<and> length (vExtraPayload tx) \<le> MAX_TX_EXTRA_PAYLOAD \<and>
     GetValueOut tx = Ok (sum_list (map nValue (vout tx))) \<and>
     distinct (map prevout (vin tx)) \<and>
     (if IsCoinBase tx
      then (if nType tx = TRANSACTION_COINBASE then 1 else 2) \<le> length (scriptSig (vin tx ! 0)) \<and>
        length (scriptSig (vin tx ! 0)) \<le> 100
      else \<forall>txin \<in> set (vin tx). \<not> COutPoint_IsNull (prevout txin))"

lemma check_outputs_GetValueOut: "check_outputs (vout tx) 0 = None \<longleftrightarrow> GetValueOut tx = Ok (sum_list (map nValue (vout tx)))"
  using check_outputs_iff [of 0 "vout tx"] GetValueOut_sum [of tx] by (auto simp: GetValueOut_def MoneyRange_def)

lemma CheckTransaction_judged: "judged state (CheckTransaction tx state) (tx_rules tx)"
proof -
  have "judged state (CheckTransaction tx state)
    (\<not> (nType tx \<noteq> TRANSACTION_QUORUM_COMMITMENT \<and> vin tx = []) \<and>
     \<not> (nType tx \<noteq> TRANSACTION_QUORUM_COMMITMENT \<and> vout tx = []) \<and>
     \<not> length (CTransaction_ser tx) > MAX_LEGACY_BLOCK_SIZE \<and> \<not> length (vExtraPayload tx) > MAX_TX_EXTRA_PAYLOAD \<and>
     check_outputs (vout tx) 0 = None \<and> \<not> \<not> check_inputs_distinct (vin tx) {} \<and>
     (if IsCoinBase tx
      then \<not> (length (scriptSig (vin tx ! 0)) < (if nType tx = TRANSACTION_COINBASE then 1 else 2) \<or>
          length (scriptSig (vin tx ! 0)) > 100) \<and> True
      else \<not> (\<exists>txin \<in> set (vin tx). COutPoint_IsNull (prevout txin)) \<and> True))"
    unfolding CheckTransaction_def Let_def
    by (intro judged_guard judged_option judged_if judged_True)
  then show ?thesis
    by (rule judged_cong)
      (auto simp: tx_rules_def GetTotalSize_def check_outputs_GetValueOut check_inputs_distinct_iff not_less)
qed


text \<open>
  Specification of the reason that is given: all rules that a transaction violates, in the order in which the program looks
  at them.  An output is at fault when its amount is negative or above the limit, or when the sum of the amounts up to it is.
\<close>

definition fault :: "bool \<Rightarrow> string \<Rightarrow> string list" where
  "fault violated str = (if violated then [str] else [])"

definition output_faults :: "CTxOut list \<Rightarrow> nat \<Rightarrow> string list" where
  "output_faults outs i =
     fault (nValue (outs ! i) < 0) ''bad-txns-vout-negative'' @
     fault (MAX_MONEY < nValue (outs ! i)) ''bad-txns-vout-toolarge'' @
     fault (MAX_MONEY < sum_list (map nValue (take (Suc i) outs))) ''bad-txns-txouttotal-toolarge''"

definition tx_faults :: "CTransaction \<Rightarrow> string list" where
  "tx_faults tx =
     fault (nType tx \<noteq> TRANSACTION_QUORUM_COMMITMENT \<and> vin tx = []) ''bad-txns-vin-empty'' @
     fault (nType tx \<noteq> TRANSACTION_QUORUM_COMMITMENT \<and> vout tx = []) ''bad-txns-vout-empty'' @
     fault (MAX_LEGACY_BLOCK_SIZE < GetTotalSize tx) ''bad-txns-oversize'' @
     fault (MAX_TX_EXTRA_PAYLOAD < length (vExtraPayload tx)) ''bad-txns-payload-oversize'' @
     concat (map (output_faults (vout tx)) [0..<length (vout tx)]) @
     fault (\<not> distinct (map prevout (vin tx))) ''bad-txns-inputs-duplicate'' @
     fault (IsCoinBase tx \<and>
       length (scriptSig (vin tx ! 0)) \<notin> {(if nType tx = TRANSACTION_COINBASE then 1 else 2)..100}) ''bad-cb-length'' @
     fault (\<not> IsCoinBase tx \<and> (\<exists>txin \<in> set (vin tx). COutPoint_IsNull (prevout txin))) ''bad-txns-prevout-null''"

text \<open>What is done about a list of violated rules: the first one is reported.\<close>

definition report :: "CValidationState \<Rightarrow> string list \<Rightarrow> bool \<times> CValidationState" where
  "report state strs = (case strs of [] \<Rightarrow> (True, state) | str # _ \<Rightarrow> consensus_error str state)"

lemma report_fault: "report state (fault c str @ strs) = (if c then consensus_error str state else report state strs)"
  by (simp add: report_def fault_def)

lemma report_single: "report state (fault c str) = (if c then consensus_error str state else (True, state))"
  by (simp add: report_def fault_def)

lemma report_outputs:
  assumes "0 \<le> acc" "\<And>i. i < length outs \<Longrightarrow> faults i =
    fault (nValue (outs ! i) < 0) ''bad-txns-vout-negative'' @ fault (MAX_MONEY < nValue (outs ! i)) ''bad-txns-vout-toolarge'' @
    fault (MAX_MONEY < acc + sum_list (map nValue (take (Suc i) outs))) ''bad-txns-txouttotal-toolarge''"
  shows "report state (concat (map faults [0..<length outs]) @ strs) =
    (case check_outputs outs acc of Some str \<Rightarrow> consensus_error str state | None \<Rightarrow> report state strs)"
  using assms
proof (induction outs arbitrary: acc faults)
  case (Cons txout outs)
  have u: "map faults [0..<length (txout # outs)] = faults 0 # map (\<lambda>i. faults (Suc i)) [0..<length outs]"
    by (simp add: upt_conv_Cons map_Suc_upt [symmetric] del: upt_Suc)
  have z: "faults 0 = fault (nValue txout < 0) ''bad-txns-vout-negative'' @ fault (MAX_MONEY < nValue txout) ''bad-txns-vout-toolarge'' @
      fault (MAX_MONEY < acc + nValue txout) ''bad-txns-txouttotal-toolarge''"
    using Cons.prems(2) [of 0] by simp
  have s: "faults (Suc i) = fault (nValue (outs ! i) < 0) ''bad-txns-vout-negative'' @ fault (MAX_MONEY < nValue (outs ! i)) ''bad-txns-vout-toolarge'' @
      fault (MAX_MONEY < acc + nValue txout + sum_list (map nValue (take (Suc i) outs))) ''bad-txns-txouttotal-toolarge''"
    if "i < length outs" for i using Cons.prems(2) [of "Suc i"] that by (simp add: add.assoc)
  show ?case
  proof (cases "0 \<le> nValue txout")
    case True
    have "report state (concat (map (\<lambda>i. faults (Suc i)) [0..<length outs]) @ strs) =
        (case check_outputs outs (acc + nValue txout) of Some str \<Rightarrow> consensus_error str state | None \<Rightarrow> report state strs)"
      by (rule Cons.IH) (use True Cons.prems(1) s in simp_all)
    then show ?thesis unfolding u using True Cons.prems(1) by (simp add: z report_fault MoneyRange_def Let_def)
  next
    case False
    then show ?thesis unfolding u by (simp add: z report_fault)
  qed
qed simp

lemma CheckTransaction_report: "CheckTransaction tx state = report state (tx_faults tx)"
proof -
  have o: "report state (concat (map (output_faults (vout tx)) [0..<length (vout tx)]) @ strs) =
      (case check_outputs (vout tx) 0 of Some str \<Rightarrow> consensus_error str state | None \<Rightarrow> report state strs)" for strs
    by (rule report_outputs) (simp_all add: output_faults_def)
  show ?thesis
    unfolding CheckTransaction_def tx_faults_def Let_def report_fault o report_single GetTotalSize_def
    by (simp add: check_inputs_distinct_iff not_le cong: option.case_cong)
qed

lemma tx_faults_none: "tx_faults tx = [] \<longleftrightarrow> tx_rules tx"
proof -
  have "fst (report CValidationState_init (tx_faults tx)) \<longleftrightarrow> tx_faults tx = []"
    by (cases "tx_faults tx") (simp_all add: report_def Invalid_def CValidationState_init_def)
  then show ?thesis using CheckTransaction_judged [of CValidationState_init tx] unfolding CheckTransaction_report
    by (auto simp: judged_def Invalid_def CValidationState_init_def)
qed

section \<open>Properties\<close>

text \<open>
  C31. \<^verbatim>\<open>CheckTransaction\<close> accepts a transaction exactly when it violates none of the context-free rules:
  inputs and outputs present (quorum commitments excepted), size limits, every output and the sums of the first outputs
  in the money range, no input spent twice, and the script length of a coinbase or no null input.
  On acceptance the validation state is unchanged; on rejection it is the invalid state with a consensus reason, the code
  of an invalid transaction, an empty debug message, and the reject string of precisely the first rule that is violated, in the
  order in which the rules are listed and the outputs come.
\<close>

theorem CheckTransaction_exact:
  assumes "IsValid_state state"
  shows "CheckTransaction tx state =
      (case tx_faults tx of
         [] \<Rightarrow> (True, state)
       | str # _ \<Rightarrow> (False, \<lparr>mode = MODE_INVALID, m_reason = CONSENSUS, strRejectReason = str, chRejectCode = REJECT_INVALID, strDebugMessage = []\<rparr>)) \<and>
    (tx_faults tx = [] \<longleftrightarrow> tx_rules tx)"
  using assms tx_faults_none [of tx] by (auto simp: CheckTransaction_report report_def Invalid_def split: list.splits)

theorem CheckTransaction_exact_witness:
  "tx_rules example_tx \<and> CheckTransaction example_tx CValidationState_init = (True, CValidationState_init) \<and>
   CheckTransaction (example_tx\<lparr>vin := [], vout := []\<rparr>) CValidationState_init =
     (False, \<lparr>mode = MODE_INVALID, m_reason = CONSENSUS, strRejectReason = ''bad-txns-vin-empty'', chRejectCode = REJECT_INVALID, strDebugMessage = []\<rparr>)"
proof -
  have l: "length (CTransaction_ser example_tx) = 75"
    by (simp add: CTransaction_ser_def vector_ser_def CTxIn_ser_def CTxOut_ser_def COutPoint_ser_def bytes_ser_def
        example_tx_def length_WriteCompactSize GetSizeOfCompactSize_def ser_writedata32_def ser_writedata64_def
        has_payload_def)
  have r: "tx_rules example_tx"
    unfolding tx_rules_def GetTotalSize_def l
    by (simp add: example_tx_def GetValueOut_def MoneyRange_def IsCoinBase_def COutPoint_IsNull_def uint256_IsNull_def)
  have v: "IsValid_state CValidationState_init" by (simp add: CValidationState_init_def)
  have "\<exists>strs. tx_faults (example_tx\<lparr>vin := [], vout := []\<rparr>) = ''bad-txns-vin-empty'' # strs"
    by (simp add: tx_faults_def fault_def example_tx_def)
  then show ?thesis
    using CheckTransaction_exact [OF v, of example_tx] CheckTransaction_exact [OF v, of "example_tx\<lparr>vin := [], vout := []\<rparr>"] r by auto
qed

end
