(* ===== verification/Header_Check.thy ===== *)
theory Header_Check
  imports Pow Doubles Tx_Check
begin

unbundle bit_operations_syntax

text \<open>
  The acceptance of block headers in \<^verbatim>\<open>validation.cpp\<close>: the checks of a header alone and in the context of
  its predecessor, the marking of descendants of failed blocks, the entry into the block index, and
  the processing of a list of headers.  The invariant of the header chain is shown for
  every state that acceptance and the discovery of invalid blocks can reach.  Log messages and
  notifications of listeners are left out; the messages kept in the validation state are formatted by a
  parameter.
\<close>

section \<open>Chain parameters and surroundings\<close>

record CChainParams =
  GetConsensus :: Params
  is_MAIN :: bool
  mapCheckpoints :: "(int \<times> uint256) list"

text \<open>
  What the header checks take from elsewhere: the libraries of the proof of work, the block hash, the
  network-adjusted time, the chain locks, and the formatting of messages.
\<close>

record header_env =
  env_boost :: Boost
  env_GetHash :: "CBlockHeader \<Rightarrow> uint256"
  env_chainparams :: CChainParams
  fCheckpointsEnabled :: bool
  GetAdjustedTime :: int
  HasConflictingChainLock :: "int \<Rightarrow> uint256 \<Rightarrow> bool"
  strprintf :: "string \<Rightarrow> int list \<Rightarrow> string"

abbreviation env_consensus :: "header_env \<Rightarrow> Params" where "env_consensus env \<equiv> GetConsensus (env_chainparams env)"

text \<open>The block index with the set of blocks that failed, in the order of the set.\<close>

record HeaderManager =
  hm_index :: BlockManager
  m_failed_blocks :: "ptr list"

abbreviation hm_store :: "HeaderManager \<Rightarrow> store" where "hm_store hm \<equiv> bm_store (hm_index hm)"

abbreviation (input) REJECT_OBSOLETE :: nat where "REJECT_OBSOLETE \<equiv> 0x11"
abbreviation (input) REJECT_CHECKPOINT :: nat where "REJECT_CHECKPOINT \<equiv> 0x43"
abbreviation (input) MAX_FUTURE_BLOCK_TIME :: int where "MAX_FUTURE_BLOCK_TIME \<equiv> 2 * 60 * 60"
abbreviation (input) BLOCK_VALID_SCRIPTS :: u32 where "BLOCK_VALID_SCRIPTS \<equiv> 5"
abbreviation (input) BLOCK_FAILED_VALID :: u32 where "BLOCK_FAILED_VALID \<equiv> 32"
abbreviation (input) BLOCK_FAILED_CHILD :: u32 where "BLOCK_FAILED_CHILD \<equiv> 64"
abbreviation (input) BLOCK_CONFLICT_CHAINLOCK :: u32 where "BLOCK_CONFLICT_CHAINLOCK \<equiv> 128"

section \<open>Checks of a header\<close>

definition CheckBlockHeader ::
  "header_env \<Rightarrow> CBlockHeader \<Rightarrow> bool \<Rightarrow> CValidationState \<Rightarrow> (bool \<times> CValidationState) outcome" where
  "CheckBlockHeader env block fCheckPOW state =
     (let consensusParams = env_consensus env; hash = env_GetHash env block
      in obind (if fCheckPOW then CheckProofOfWork (env_boost env) block hash (hd_nBits block) consensusParams else Ok True) (\<lambda>pow.
         if \<not> pow then Ok (Invalid BLOCK_INVALID_HEADER False REJECT_INVALID ''high-hash'' ''proof of work failed'' state)
         else if hashDevnetGenesisBlock consensusParams \<noteq> uint256_null \<and>
                 hd_hashPrevBlock block = hashGenesisBlock consensusParams \<and> hash \<noteq> hashDevnetGenesisBlock consensusParams
         then Ok (Invalid CONSENSUS False REJECT_INVALID ''devnet-genesis'' [] state)
         else Ok (True, state)))"

definition ConvertBitsToDouble :: "u32 \<Rightarrow> double" where
  "ConvertBitsToDouble bits =
     (let nShift = uint (drop_bit 24 bits AND 0xff);
          dDiff = double_div (double_of_int 0x0000ffff) (double_of_int (uint (bits AND 0x00ffffff)));
          dDiff = ((\<lambda>d. double_times d (double_of_int 256)) ^^ nat (29 - nShift)) dDiff
      in ((\<lambda>d. double_div d (double_of_int 256)) ^^ nat (nShift - 29)) dDiff)"

definition GetLastCheckpoint :: "BlockManager \<Rightarrow> (int \<times> uint256) list \<Rightarrow> ptr option" where
  "GetLastCheckpoint bm checkpoints =
     (case List.find (\<lambda>i. m_block_index bm (snd i) \<noteq> None) (rev checkpoints) of
        None \<Rightarrow> None
      | Some i \<Rightarrow> m_block_index bm (snd i))"

text \<open>Running a loop after another loop.\<close>

definition after_loop :: "'a outcome option \<Rightarrow> ('a \<Rightarrow> 'b outcome option) \<Rightarrow> 'b outcome option" where
  "after_loop r f = (case r of None \<Rightarrow> None | Some x \<Rightarrow> then_loop x f)"

text \<open>The test of the difficulty, with the tolerance of the early main network.\<close>

definition bits_acceptable :: "header_env \<Rightarrow> int \<Rightarrow> u32 \<Rightarrow> u32 \<Rightarrow> bool" where
  "bits_acceptable env height bits nBitsNext =
     (if is_MAIN (env_chainparams env) \<and> height \<le> 68589
      then let n1 = ConvertBitsToDouble bits; n2 = ConvertBitsToDouble nBitsNext
           in \<not> double_gt (double_abs (double_minus n1 n2)) (double_times n1 (double_lit 5 10))
      else bits = nBitsNext)"

text \<open>The tests that follow the difficulty, from the checkpoints on.\<close>

definition check_after_bits ::
  "header_env \<Rightarrow> BlockManager \<Rightarrow> CBlockHeader \<Rightarrow> ptr \<Rightarrow> CValidationState \<Rightarrow> bool \<times> CValidationState" where
  "check_after_bits env bm block pindexPrev state =
     (let consensusParams = env_consensus env; h = bm_store bm; nH = nHeight (h pindexPrev) + 1;
          time = int (unat (hd_nTime block)); ver = sint (hd_nVersion block);
          pcheckpoint = (if fCheckpointsEnabled env then GetLastCheckpoint bm (mapCheckpoints (env_chainparams env)) else None)
      in if (case pcheckpoint of None \<Rightarrow> False | Some c \<Rightarrow> nH < nHeight (h c))
         then Invalid BLOCK_CHECKPOINT False REJECT_CHECKPOINT ''bad-fork-prior-to-checkpoint'' [] state
         else if time \<le> GetMedianTimePast h pindexPrev
         then Invalid BLOCK_INVALID_HEADER False REJECT_INVALID ''time-too-old''
                (strprintf env ''block's timestamp is too early %d %d'' [time, GetMedianTimePast h pindexPrev]) state
         else if time > GetAdjustedTime env + MAX_FUTURE_BLOCK_TIME
         then Invalid BLOCK_TIME_FUTURE False REJECT_INVALID ''time-too-new''
                (strprintf env ''block timestamp too far in the future %d %d'' [time, GetAdjustedTime env + 2 * 60 * 60]) state
         else if ver < 2 \<and> nH \<ge> BIP34Height consensusParams \<or> ver < 3 \<and> nH \<ge> BIP66Height consensusParams \<or>
                 ver < 4 \<and> nH \<ge> BIP65Height consensusParams
         then Invalid BLOCK_INVALID_HEADER False REJECT_OBSOLETE (strprintf env ''bad-version(0x%08x)'' [ver])
                (strprintf env ''rejected nVersion=0x%08x block'' [ver]) state
         else (True, state))"

definition ContextualCheckBlockHeader ::
  "header_env \<Rightarrow> BlockManager \<Rightarrow> CBlockHeader \<Rightarrow> ptr option \<Rightarrow> CValidationState \<Rightarrow> (bool \<times> CValidationState) outcome option" where
  "ContextualCheckBlockHeader env bm block pindexPrev state =
     (case pindexPrev of
        None \<Rightarrow> Some Abort
      | Some p \<Rightarrow>
          let nH = nHeight (bm_store bm p) + 1
          in after_loop (GetNextWorkRequired (bm_store bm) p block (env_consensus env)) (\<lambda>nBitsNext.
             if \<not> bits_acceptable env nH (hd_nBits block) nBitsNext
             then Some (Ok (Invalid BLOCK_INVALID_HEADER False REJECT_INVALID ''bad-diffbits''
                    (if is_MAIN (env_chainparams env) \<and> nH \<le> 68589 then [] else strprintf env ''incorrect proof of work at %d'' [nH]) state))
             else Some (Ok (check_after_bits env bm block p state))))"

section \<open>Acceptance\<close>

text \<open>Marking the blocks between a failed block and the predecessor of a new header.\<close>

partial_function (option) mark_failed_child :: "ptr \<Rightarrow> BlockManager \<Rightarrow> ptr \<Rightarrow> BlockManager outcome option" where
  "mark_failed_child failedit bm invalid_walk =
     (if invalid_walk = failedit then Some (Ok bm)
      else let b = bm_store bm invalid_walk;
               bm = bm\<lparr>bm_store := (bm_store bm)(invalid_walk := b\<lparr>nStatus := nStatus b OR BLOCK_FAILED_CHILD\<rparr>),
                       setDirtyBlockIndex := List.insert invalid_walk (setDirtyBlockIndex bm)\<rparr>
           in case pprev b of None \<Rightarrow> Some Abort | Some q \<Rightarrow> mark_failed_child failedit bm q)"

text \<open>
  The search for a failed ancestor; the result tells whether there was one.
\<close>

primrec check_failed_ancestors :: "ptr list \<Rightarrow> BlockManager \<Rightarrow> ptr \<Rightarrow> (bool \<times> BlockManager) outcome option" where
  "check_failed_ancestors [] bm pindexPrev = Some (Ok (False, bm))"
| "check_failed_ancestors (failedit # rest) bm pindexPrev =
     then_loop (GetAncestor (bm_store bm) pindexPrev (nHeight (bm_store bm failedit))) (\<lambda>a.
       if a = Some failedit
       then if nStatus (bm_store bm failedit) AND BLOCK_FAILED_VALID = 0 then Some Abort
            else after_loop (mark_failed_child failedit bm pindexPrev) (\<lambda>bm. Some (Ok (True, bm)))
       else check_failed_ancestors rest bm pindexPrev)"

record accept_result =
  accepted :: bool
  acc_state :: CValidationState
  acc_pindex :: "ptr option"
  acc_hm :: HeaderManager

definition answer :: "HeaderManager \<Rightarrow> ptr option \<Rightarrow> bool \<times> CValidationState \<Rightarrow> accept_result" where
  "answer hm pindex r = \<lparr>accepted = fst r, acc_state = snd r, acc_pindex = pindex, acc_hm = hm\<rparr>"

definition add_header :: "header_env \<Rightarrow> CBlockHeader \<Rightarrow> CValidationState \<Rightarrow> HeaderManager \<Rightarrow> accept_result outcome option" where
  "add_header env block state hm =
     Some (obind (AddToBlockIndex (env_GetHash env) block BLOCK_VALID_TREE (hm_index hm)) (\<lambda>(p, bm).
       Ok \<lparr>accepted = True, acc_state = state, acc_pindex = Some p, acc_hm = hm\<lparr>hm_index := bm\<rparr>\<rparr>))"

text \<open>The checks of a header that is not known yet, from its predecessor on.\<close>

definition accept_on_prev ::
  "header_env \<Rightarrow> CBlockHeader \<Rightarrow> ptr \<Rightarrow> CValidationState \<Rightarrow> HeaderManager \<Rightarrow> accept_result outcome option" where
  "accept_on_prev env block pindexPrev state hm =
     (let bm = hm_index hm; prev = bm_store bm pindexPrev; hash = env_GetHash env block
      in if nStatus prev AND BLOCK_FAILED_MASK \<noteq> 0
         then Some (Ok (answer hm None (Invalid BLOCK_INVALID_PREV False REJECT_INVALID ''bad-prevblk'' [] state)))
         else if nStatus prev AND BLOCK_CONFLICT_CHAINLOCK \<noteq> 0
         then Some (Ok (answer hm None (Invalid BLOCK_CHAINLOCK False REJECT_INVALID ''bad-prevblk-chainlock'' [] state)))
         else after_loop (ContextualCheckBlockHeader env bm block (Some pindexPrev) state) (\<lambda>(ok, state).
           if \<not> ok then Some (Ok (answer hm None (False, state)))
           else then_loop (IsValid BLOCK_VALID_SCRIPTS prev) (\<lambda>valid.
             after_loop (if \<not> valid then check_failed_ancestors (m_failed_blocks hm) bm pindexPrev else Some (Ok (False, bm))) (\<lambda>(bad, bm).
               let hm = hm\<lparr>hm_index := bm\<rparr>
               in if bad then Some (Ok (answer hm None (Invalid BLOCK_INVALID_PREV False REJECT_INVALID ''bad-prevblk'' [] state)))
                  else if HasConflictingChainLock env (nHeight (bm_store bm pindexPrev) + 1) hash
                  then Some (obind (AddToBlockIndex (env_GetHash env) block BLOCK_CONFLICT_CHAINLOCK bm) (\<lambda>(p, bm).
                         Ok (answer (hm\<lparr>hm_index := bm\<rparr>) None (Invalid BLOCK_CHAINLOCK False REJECT_INVALID ''bad-chainlock'' [] state))))
                  else add_header env block state hm))))"

definition AcceptBlockHeader ::
  "header_env \<Rightarrow> CBlockHeader \<Rightarrow> CValidationState \<Rightarrow> HeaderManager \<Rightarrow> accept_result outcome option" where
  "AcceptBlockHeader env block state hm =
     (let hash = env_GetHash env block; bm = hm_index hm
      in if hash = hashGenesisBlock (env_consensus env) then add_header env block state hm
         else case m_block_index bm hash of
           Some p \<Rightarrow>
             if nStatus (bm_store bm p) AND BLOCK_FAILED_MASK \<noteq> 0
             then Some (Ok (answer hm (Some p) (Invalid CACHED_INVALID False 0 ''duplicate'' [] state)))
             else if nStatus (bm_store bm p) AND BLOCK_CONFLICT_CHAINLOCK \<noteq> 0
             then Some (Ok (answer hm (Some p) (Invalid BLOCK_CHAINLOCK False 0 ''duplicate'' [] state)))
             else Some (Ok (answer hm (Some p) (True, state)))
         | None \<Rightarrow>
             then_loop (CheckBlockHeader env block True state) (\<lambda>(ok, state).
               if \<not> ok then Some (Ok (answer hm None (False, state)))
               else case m_block_index bm (hd_hashPrevBlock block) of
                 None \<Rightarrow> Some (Ok (answer hm None (Invalid BLOCK_MISSING_PREV False 0 ''prev-blk-not-found'' [] state)))
               | Some pindexPrev \<Rightarrow> accept_on_prev env block pindexPrev state hm))"

text \<open>
  \<^verbatim>\<open>ProcessNewBlockHeaders\<close>: the accumulated result with the first header that was not accepted.
\<close>

primrec process_headers ::
  "header_env \<Rightarrow> CBlockHeader list \<Rightarrow> accept_result \<Rightarrow> (accept_result \<times> CBlockHeader) outcome option" where
  "process_headers env [] r = Some (Ok (r, CBlockHeader_null))"
| "process_headers env (header # rest) r =
     after_loop (AcceptBlockHeader env header (acc_state r) (acc_hm r)) (\<lambda>r'.
       if \<not> accepted r' then Some (Ok (r'\<lparr>acc_pindex := acc_pindex r\<rparr>, header))
       else process_headers env rest r')"

definition ProcessNewBlockHeaders ::
  "header_env \<Rightarrow> CBlockHeader list \<Rightarrow> CValidationState \<Rightarrow> ptr option \<Rightarrow> HeaderManager \<Rightarrow> (accept_result \<times> CBlockHeader) outcome option" where
  "ProcessNewBlockHeaders env headers state ppindex hm =
     process_headers env headers \<lparr>accepted = True, acc_state = state, acc_pindex = ppindex, acc_hm = hm\<rparr>"

text \<open>\<^verbatim>\<open>InvalidBlockFound\<close>, the other function that changes the set of failed blocks, without the candidates of the active chain.\<close>

definition InvalidBlockFound :: "CValidationState \<Rightarrow> ptr \<Rightarrow> HeaderManager \<Rightarrow> HeaderManager" where
  "InvalidBlockFound state pindex hm =
     (if m_reason state \<noteq> BLOCK_MUTATED
      then let b = hm_store hm pindex
           in hm\<lparr>hm_index := (hm_index hm)\<lparr>bm_store := (hm_store hm)(pindex := b\<lparr>nStatus := nStatus b OR BLOCK_FAILED_VALID\<rparr>),
                   setDirtyBlockIndex := List.insert pindex (setDirtyBlockIndex (hm_index hm))\<rparr>,
                 m_failed_blocks := List.insert pindex (m_failed_blocks hm)\<rparr>
      else hm)"
section \<open>Stores that differ in the status only\<close>

definition status_step :: "CBlockIndex \<Rightarrow> CBlockIndex \<Rightarrow> bool" where
  "status_step b b' \<longleftrightarrow> (\<exists>x. b' = b\<lparr>nStatus := nStatus b OR x\<rparr>)"

definition status_up :: "store \<Rightarrow> store \<Rightarrow> bool" where
  "status_up h h' \<longleftrightarrow> (\<forall>r. status_step (h r) (h' r))"

lemma status_step_refl [simp]: "status_step b b"
  unfolding status_step_def by (rule exI [of _ 0]) simp

lemma status_up_refl [simp]: "status_up h h"
  by (simp add: status_up_def)

lemma status_step_trans: "status_step a b \<Longrightarrow> status_step b c \<Longrightarrow> status_step a c"
proof -
  assume "status_step a b" "status_step b c"
  then obtain x y where "b = a\<lparr>nStatus := nStatus a OR x\<rparr>" "c = b\<lparr>nStatus := nStatus b OR y\<rparr>" by (auto simp: status_step_def)
  then have "c = a\<lparr>nStatus := nStatus a OR (x OR y)\<rparr>" by (simp add: or.assoc)
  then show ?thesis unfolding status_step_def by blast
qed

lemma status_up_trans: "status_up h h' \<Longrightarrow> status_up h' h'' \<Longrightarrow> status_up h h''"
  unfolding status_up_def using status_step_trans by blast

lemma status_up_mark: "status_up h (h(p := (h p)\<lparr>nStatus := nStatus (h p) OR x\<rparr>))"
  unfolding status_up_def status_step_def [of "h p"] by (auto simp: status_step_def [of "h p"])

lemma status_up_fields:
  assumes "status_up h h'"
  shows "pprev (h' r) = pprev (h r)" "pskip (h' r) = pskip (h r)" "nHeight (h' r) = nHeight (h r)" "nBits (h' r) = nBits (h r)"
    "nTime (h' r) = nTime (h r)" "nTimeMax (h' r) = nTimeMax (h r)" "nChainWork (h' r) = nChainWork (h r)" "phashBlock (h' r) = phashBlock (h r)"
    "GetBlockTime (h' r) = GetBlockTime (h r)" "blk_nVersion (h' r) = blk_nVersion (h r)"
proof -
  obtain x where "h' r = (h r)\<lparr>nStatus := nStatus (h r) OR x\<rparr>" using assms unfolding status_up_def status_step_def by blast
  then show "pprev (h' r) = pprev (h r)" "pskip (h' r) = pskip (h r)" "nHeight (h' r) = nHeight (h r)" "nBits (h' r) = nBits (h r)"
    "nTime (h' r) = nTime (h r)" "nTimeMax (h' r) = nTimeMax (h r)" "nChainWork (h' r) = nChainWork (h r)" "phashBlock (h' r) = phashBlock (h r)"
    "GetBlockTime (h' r) = GetBlockTime (h r)" "blk_nVersion (h' r) = blk_nVersion (h r)"
    by (simp_all add: GetBlockTime_def)
qed

lemma status_up_bit: "status_up h h' \<Longrightarrow> nStatus (h r) AND m \<noteq> 0 \<Longrightarrow> nStatus (h' r) AND m \<noteq> 0"
proof -
  assume "status_up h h'" "nStatus (h r) AND m \<noteq> 0"
  moreover obtain x where "h' r = (h r)\<lparr>nStatus := nStatus (h r) OR x\<rparr>" using \<open>status_up h h'\<close> unfolding status_up_def status_step_def by blast
  ultimately show ?thesis by (simp add: and.commute [of _ m] bit.conj_disj_distrib or_eq_0_iff)
qed

lemma status_up_chain:
  assumes "status_up h h'"
  shows "ancestor h' = ancestor h" "chain_ok h' p \<longleftrightarrow> chain_ok h p" "entry_ok h' p \<longleftrightarrow> entry_ok h p"
    "GetMedianTimePast h' p = GetMedianTimePast h p"
proof -
  note f = status_up_fields [OF assms]
  show a: "ancestor h' = ancestor h" and c: "chain_ok h' p \<longleftrightarrow> chain_ok h p" using same_links [of h' h] f(1-3) by simp_all
  have "chain_work h' p = chain_work h p" "chain_time h' p = chain_time h p" by (simp_all add: chain_work_def chain_time_def a f)
  then show "entry_ok h' p \<longleftrightarrow> entry_ok h p" by (simp add: entry_ok_def c f)
  have "past_times h' n x = past_times h n x" for n x by (induction n arbitrary: x) (auto simp: f split: option.splits)
  then show "GetMedianTimePast h' p = GetMedianTimePast h p" by (simp add: GetMedianTimePast_def)
qed

text \<open>A block manager after a change of the status of entries.\<close>

definition bm_status_up :: "BlockManager \<Rightarrow> BlockManager \<Rightarrow> bool" where
  "bm_status_up bm bm' \<longleftrightarrow> status_up (bm_store bm) (bm_store bm') \<and> bm_fresh bm' = bm_fresh bm \<and> m_block_index bm' = m_block_index bm"

lemma bm_status_up_refl [simp]: "bm_status_up bm bm" by (simp add: bm_status_up_def)

lemma bm_status_up_trans: "bm_status_up a b \<Longrightarrow> bm_status_up b c \<Longrightarrow> bm_status_up a c"
  by (auto simp: bm_status_up_def intro: status_up_trans)

lemma index_ok_status_up: "bm_status_up bm bm' \<Longrightarrow> index_ok bm \<Longrightarrow> index_ok bm'"
  by (auto simp: bm_status_up_def index_ok_def status_up_chain(3) status_up_fields(8))

section \<open>The search for failed ancestors\<close>

lemma mark_failed_child_ok:
  assumes "chain_ok (bm_store bm) w" "0 \<le> k" "k \<le> nHeight (bm_store bm w)" "ancestor (bm_store bm) w k = f"
  shows "\<exists>bm'. mark_failed_child f bm w = Some (Ok bm') \<and> bm_status_up bm bm'"
  using assms
proof (induction "nat (nHeight (bm_store bm w) - k)" arbitrary: bm w)
  case 0
  then have "w = f" using ancestor_self [of "bm_store bm" w] by simp
  then show ?case by (subst mark_failed_child.simps) simp
next
  case (Suc n)
  define h where "h = bm_store bm"
  define bm1 where "bm1 = bm\<lparr>bm_store := h(w := (h w)\<lparr>nStatus := nStatus (h w) OR 64\<rparr>), setDirtyBlockIndex := List.insert w (setDirtyBlockIndex bm)\<rparr>"
  have up: "bm_status_up bm bm1" by (simp add: bm_status_up_def bm1_def h_def status_up_mark)
  then have su: "status_up h (bm_store bm1)" by (simp add: bm_status_up_def h_def)
  obtain q where q: "pprev (h w) = Some q" using chain_ok_root [OF Suc.prems(1)] Suc.hyps(2) Suc.prems(2) by (cases "pprev (h w)") (auto simp: h_def)
  have cq: "chain_ok h q" "nHeight (h q) = nHeight (h w) - 1" using chain_ok_pprev [of h w q] Suc.prems(1) q by (simp_all add: h_def)
  have k: "k \<le> nHeight (h q)" using Suc.hyps(2) cq(2) by (simp add: h_def)
  have "ancestor h q k = f" using ancestor_prev [of h w q k] Suc.prems(1,4) q k by (simp add: h_def)
  moreover have "nat (nHeight (bm_store bm1 q) - k) = n" using Suc.hyps(2) cq(2) status_up_fields(3) [OF su] by (simp add: h_def)
  ultimately obtain bm' where "mark_failed_child f bm1 q = Some (Ok bm')" "bm_status_up bm1 bm'"
    using Suc.hyps(1) [of bm1 q] cq(1) k Suc.prems(2) status_up_chain [OF su] status_up_fields(3) [OF su] by auto
  moreover have "w \<noteq> f"
  proof
    assume "w = f"
    then have "nHeight (h f) = k" using ancestor_ok [OF Suc.prems(1,2,3)] Suc.prems(4) by (simp add: h_def)
    then show False using \<open>w = f\<close> Suc.hyps(2) by (simp add: h_def)
  qed
  ultimately show ?case
    using q bm_status_up_trans [OF up] by (subst mark_failed_child.simps) (auto simp: bm1_def h_def Let_def)
qed

lemma after_loop_Ok [simp]: "after_loop (Some (Ok x)) f = f x" by (simp add: after_loop_def)

lemma check_failed_ancestors_ok:
  assumes "chain_ok (bm_store bm) p" "\<forall>f \<in> set fs. chain_ok (bm_store bm) f \<and> nStatus (bm_store bm f) AND BLOCK_FAILED_VALID \<noteq> 0"
  shows "\<exists>bad bm'. check_failed_ancestors fs bm p = Some (Ok (bad, bm')) \<and> bm_status_up bm bm' \<and>
    (bad \<longleftrightarrow> (\<exists>f \<in> set fs. nHeight (bm_store bm f) \<le> nHeight (bm_store bm p) \<and> ancestor (bm_store bm) p (nHeight (bm_store bm f)) = f)) \<and> (\<not> bad \<longrightarrow> bm' = bm)"
  using assms(2)
proof (induction fs)
  case (Cons f fs)
  define k where "k = nHeight (bm_store bm f)"
  have k0: "0 \<le> k" using Cons.prems by (simp add: k_def chain_ok_height)
  note g = GetAncestor_correct [OF assms(1), of k]
  show ?case
  proof (cases "k \<le> nHeight (bm_store bm p) \<and> ancestor (bm_store bm) p k = f")
    case True
    then obtain bm' where "mark_failed_child f bm p = Some (Ok bm')" "bm_status_up bm bm'"
      using mark_failed_child_ok [OF assms(1) k0] by blast
    then show ?thesis using True g k0 Cons.prems by (auto simp: k_def)
  next
    case False
    then have "GetAncestor (bm_store bm) p k \<noteq> Ok (Some f)" using g by (auto split: if_splits)
    then have "check_failed_ancestors (f # fs) bm p = check_failed_ancestors fs bm p" using g by (auto simp: k_def split: if_splits)
    then show ?thesis using Cons False by (auto simp: k_def)
  qed
qed auto

section \<open>The invariant of the headers\<close>

text \<open>
  What the program ensures of the target of a block: it is in the range of the network.  There is one exception: among
  the first 68589 blocks of the main network the test of the difficulty has a tolerance, and the proof of
  work of the Autolykos version does not look at sign, overflow and limit, so nothing restricts the target of a block with
  that version.
\<close>

definition target_checked :: "header_env \<Rightarrow> int \<Rightarrow> u32 \<Rightarrow> u32 \<Rightarrow> bool" where
  "target_checked env height ver bits \<longleftrightarrow> target_in_range (env_consensus env) bits \<or>
     is_MAIN (env_chainparams env) \<and> height \<le> 68589 \<and> sint ver = AutolykosForkSwitchVersion (env_consensus env)"

text \<open>
  Besides the invariant of the index: the genesis block is there, every target is checked, every block is later than
  the median time past of its predecessor, and the blocks in the set of failed ones are marked as such.
\<close>

definition header_inv :: "header_env \<Rightarrow> HeaderManager \<Rightarrow> bool" where
  "header_inv env hm \<longleftrightarrow> index_ok (hm_index hm) \<and>
     m_block_index (hm_index hm) (hashGenesisBlock (env_consensus env)) \<noteq> None \<and>
     (\<forall>p < bm_fresh (hm_index hm).
        target_checked env (nHeight (hm_store hm p)) (blk_nVersion (hm_store hm p)) (nBits (hm_store hm p)) \<and>
        (\<forall>q. pprev (hm_store hm p) = Some q \<longrightarrow> GetMedianTimePast (hm_store hm) q < GetBlockTime (hm_store hm p))) \<and>
     (\<forall>f \<in> set (m_failed_blocks hm). f < bm_fresh (hm_index hm) \<and> nStatus (hm_store hm f) AND BLOCK_FAILED_VALID \<noteq> 0)"

text \<open>
  What is assumed of the surroundings: the contract of Boost's integers, parameters with positive spacings, on the main
  network the old retargeting rule given up before the tolerance ends (at height 1), and hashes of 32 bytes.
\<close>

definition env_ok :: "header_env \<Rightarrow> bool" where
  "env_ok env \<longleftrightarrow> boost_ok (env_boost env) \<and> work_params_ok (env_consensus env) \<and>
     (is_MAIN (env_chainparams env) \<longrightarrow> nPowKGWHeight (env_consensus env) \<le> 68590) \<and>
     (\<forall>b. length (env_GetHash env b) = 32)"

text \<open>The two hashes in a header have the 32 bytes of their type.\<close>

definition header_typed :: "CBlockHeader \<Rightarrow> bool" where
  "header_typed block \<longleftrightarrow> length (hd_hashPrevBlock block) = 32 \<and> length (hd_hashMerkleRoot block) = 32"

lemma header_inv_chain:
  assumes "header_inv env hm" "p < bm_fresh (hm_index hm)"
  shows "chain_ok (hm_store hm) p"
  using assms by (simp add: header_inv_def index_ok_def entry_ok_def)

lemma header_inv_ancestor:
  assumes "header_inv env hm" "p < bm_fresh (hm_index hm)" "0 \<le> k" "k \<le> nHeight (hm_store hm p)"
  shows "ancestor (hm_store hm) p k < bm_fresh (hm_index hm)"
  by (rule ancestor_old [where n = "bm_fresh (hm_index hm)"]) (use assms in \<open>simp_all add: header_inv_def index_ok_def\<close>)

lemma header_inv_status_up:
  assumes "header_inv env hm" "bm_status_up (hm_index hm) bm"
  shows "header_inv env (hm\<lparr>hm_index := bm\<rparr>)"
proof -
  have su: "status_up (hm_store hm) (bm_store bm)" "bm_fresh bm = bm_fresh (hm_index hm)" "m_block_index bm = m_block_index (hm_index hm)"
    using assms(2) by (simp_all add: bm_status_up_def)
  show ?thesis
    using assms(1) index_ok_status_up [OF assms(2)] status_up_bit [OF su(1)]
    by (auto simp: header_inv_def su status_up_fields [OF su(1)] status_up_chain [OF su(1)])
qed

lemma past_times_cong:
  assumes "\<And>r. r < n \<Longrightarrow> entry_ok h r" "\<And>r. r < n \<Longrightarrow> h' r = h r" "p < n"
  shows "past_times h' k (Some p) = past_times h k (Some p)"
  using assms(3)
proof (induction k arbitrary: p)
  case (Suc k)
  have "q < n" if "pprev (h p) = Some q" for q using assms(1) [OF Suc.prems] that Suc.prems by (auto simp: entry_ok_def)
  moreover have "past_times g k None = []" for g by (cases k) simp_all
  ultimately show ?case using Suc.IH Suc.prems assms(2) by (cases "pprev (h p)") simp_all
qed simp

lemma GetMedianTimePast_cong:
  assumes "\<And>r. r < n \<Longrightarrow> entry_ok h r" "\<And>r. r < n \<Longrightarrow> h' r = h r" "p < n"
  shows "GetMedianTimePast h' p = GetMedianTimePast h p"
proof -
  have "past_times h' 11 (Some p) = past_times h 11 (Some p)"
    by (rule past_times_cong [where n = n]) (use assms in auto)
  then show ?thesis by (simp add: GetMedianTimePast_def)
qed

text \<open>Adding a header that is later than the median time past of its predecessor and has a checked target.\<close>

lemma add_entry_inv:
  assumes "header_inv env hm" "status_ok status" "m_block_index (hm_index hm) (hd_hashPrevBlock block) = Some q"
    "target_checked env (nHeight (hm_store hm q) + 1) (hd_nVersion block) (hd_nBits block)" "GetMedianTimePast (hm_store hm) q < int (unat (hd_nTime block))"
  shows "\<exists>p bm. AddToBlockIndex (env_GetHash env) block status (hm_index hm) = Ok (p, bm) \<and> header_inv env (hm\<lparr>hm_index := bm\<rparr>) \<and>
    (\<forall>r < bm_fresh (hm_index hm). bm_store bm r = hm_store hm r) \<and> m_block_index bm (env_GetHash env block) = Some p \<and>
    bm_fresh (hm_index hm) \<le> bm_fresh bm"
proof -
  define bm0 where "bm0 = hm_index hm"
  have inv: "index_ok bm0" using assms(1) by (simp add: header_inv_def bm0_def)
  obtain p bm where a: "AddToBlockIndex (env_GetHash env) block status bm0 = Ok (p, bm)" "index_ok bm"
    "m_block_index bm (env_GetHash env block) = Some p" and old: "\<And>r. r < bm_fresh bm0 \<Longrightarrow> bm_store bm r = bm_store bm0 r"
    and new: "\<And>r. bm_fresh bm0 \<le> r \<and> r < bm_fresh bm \<Longrightarrow> pprev (bm_store bm r) = Some q \<and> nBits (bm_store bm r) = hd_nBits block \<and>
      nTime (bm_store bm r) = hd_nTime block \<and> blk_nVersion (bm_store bm r) = hd_nVersion block"
    and grow: "bm_fresh bm0 \<le> bm_fresh bm" and keep: "\<And>hash. m_block_index bm0 hash \<noteq> None \<Longrightarrow> m_block_index bm hash = m_block_index bm0 hash"
    using AddToBlockIndex_ok [where bm = bm0 and GetHash = "env_GetHash env" and block = block and status = status] inv assms(2,3) by (auto simp: bm0_def)
  have e: "entry_ok (bm_store bm0) r" if "r < bm_fresh bm0" for r using inv that by (simp add: index_ok_def)
  have m: "GetMedianTimePast (bm_store bm) r = GetMedianTimePast (bm_store bm0) r" if "r < bm_fresh bm0" for r
    by (rule GetMedianTimePast_cong [where n = "bm_fresh bm0"]) (use e old that in auto)
  have q: "q < bm_fresh bm0" using inv assms(3) by (auto simp: index_ok_def bm0_def)
  have "target_checked env (nHeight (bm_store bm r)) (blk_nVersion (bm_store bm r)) (nBits (bm_store bm r)) \<and>
      (\<forall>s. pprev (bm_store bm r) = Some s \<longrightarrow> GetMedianTimePast (bm_store bm) s < GetBlockTime (bm_store bm r))" if r: "r < bm_fresh bm" for r
  proof (cases "r < bm_fresh bm0")
    case True
    then have "s < bm_fresh bm0" if "pprev (bm_store bm0 r) = Some s" for s using e [OF True] that by (auto simp: entry_ok_def)
    then show ?thesis using assms(1) True old m by (simp add: header_inv_def bm0_def)
  next
    case False
    then have n: "pprev (bm_store bm r) = Some q" using new r by simp
    have "chain_ok (bm_store bm) r" using a(2) r by (simp add: index_ok_def entry_ok_def)
    then have "nHeight (bm_store bm r) = nHeight (bm_store bm0 q) + 1" using chain_ok_pprev n old [OF q] by fastforce
    then show ?thesis using False new [of r] r assms(4,5) m [OF q] by (simp add: GetBlockTime_def bm0_def)
  qed
  moreover have "\<forall>f \<in> set (m_failed_blocks hm). f < bm_fresh bm \<and> nStatus (bm_store bm f) AND BLOCK_FAILED_VALID \<noteq> 0"
    using assms(1) grow old by (fastforce simp: header_inv_def bm0_def)
  moreover have "m_block_index bm (hashGenesisBlock (env_consensus env)) \<noteq> None"
    using assms(1) keep by (simp add: header_inv_def bm0_def)
  ultimately have "header_inv env (hm\<lparr>hm_index := bm\<rparr>)" using a(2) by (simp add: header_inv_def)
  then show ?thesis using a old grow by (auto simp: bm0_def)
qed

section \<open>Acceptance keeps the invariant\<close>

lemma CheckBlockHeader_ok:
  assumes "env_ok env" "header_typed block"
  shows "\<exists>ok state'. CheckBlockHeader env block True state = Ok (ok, state') \<and>
    (ok \<longrightarrow> state' = state \<and> 0 < limbs_val (fst (SetCompact (hd_nBits block))) \<and>
      (sint (hd_nVersion block) \<noteq> AutolykosForkSwitchVersion (env_consensus env) \<longrightarrow> target_in_range (env_consensus env) (hd_nBits block)))"
proof -
  have b: "boost_ok (env_boost env)" and l: "length (env_GetHash env block) = 32" using assms(1) by (simp_all add: env_ok_def)
  have t: "length (hd_hashPrevBlock block) = 32" "length (hd_hashMerkleRoot block) = 32" using assms(2) by (simp_all add: header_typed_def)
  define r where "r \<longleftrightarrow> 0 < limbs_val (fst (SetCompact (hd_nBits block))) \<and>
    (sint (hd_nVersion block) \<noteq> AutolykosForkSwitchVersion (env_consensus env) \<longrightarrow> target_in_range (env_consensus env) (hd_nBits block))"
  obtain v where v: "CheckProofOfWork (env_boost env) block (env_GetHash env block) (hd_nBits block) (env_consensus env) = Ok v" "v \<longrightarrow> r"
    using CheckProofOfWork_iff [OF b t l, of "hd_nBits block" "env_consensus env"] in_range_capped(2) [of "env_consensus env" "hd_nBits block"]
    by (cases "sint (hd_nVersion block) = AutolykosForkSwitchVersion (env_consensus env)") (auto simp: r_def)
  then show ?thesis unfolding r_def [symmetric] by (auto simp: CheckBlockHeader_def Let_def Invalid_def)
qed

lemma Contextual_ok:
  assumes "header_inv env hm" "env_ok env" "p < bm_fresh (hm_index hm)"
  shows "\<exists>ok state' c. ContextualCheckBlockHeader env (hm_index hm) block (Some p) state = Some (Ok (ok, state')) \<and>
    GetNextWorkRequired (hm_store hm) p block (env_consensus env) = Some (Ok c) \<and>
    (ok \<longrightarrow> state' = state \<and> bits_acceptable env (nHeight (hm_store hm p) + 1) (hd_nBits block) c \<and>
       GetMedianTimePast (hm_store hm) p < int (unat (hd_nTime block)))"
proof -
  have "work_params_ok (env_consensus env)" using assms(2) by (simp add: env_ok_def)
  from GetNextWorkRequired_total [OF this header_inv_chain [OF assms(1,3)], of block]
  obtain c where c: "GetNextWorkRequired (hm_store hm) p block (env_consensus env) = Some (Ok c)" by blast
  have t: "fst (check_after_bits env (hm_index hm) block p state) \<longrightarrow> snd (check_after_bits env (hm_index hm) block p state) = state \<and>
      GetMedianTimePast (hm_store hm) p < int (unat (hd_nTime block))"
    by (auto simp: check_after_bits_def Let_def Invalid_def)
  show ?thesis
  proof (cases "bits_acceptable env (nHeight (hm_store hm p) + 1) (hd_nBits block) c")
    case True
    then show ?thesis using c t
      by (cases "check_after_bits env (hm_index hm) block p state") (auto simp: ContextualCheckBlockHeader_def)
  qed (auto simp: ContextualCheckBlockHeader_def c Invalid_def Let_def)
qed

text \<open>A header that passes both checks has a checked target.\<close>

lemma new_target_checked:
  assumes "header_inv env hm" "env_ok env" "p < bm_fresh (hm_index hm)"
    and work: "GetNextWorkRequired (hm_store hm) p block (env_consensus env) = Some (Ok c)"
    and bits: "bits_acceptable env (nHeight (hm_store hm p) + 1) (hd_nBits block) c"
    and pow: "0 < limbs_val (fst (SetCompact (hd_nBits block)))"
      "sint (hd_nVersion block) \<noteq> AutolykosForkSwitchVersion (env_consensus env) \<longrightarrow> target_in_range (env_consensus env) (hd_nBits block)"
  shows "target_checked env (nHeight (hm_store hm p) + 1) (hd_nVersion block) (hd_nBits block)"
proof -
  define params where "params = env_consensus env"
  define early where "early \<longleftrightarrow> is_MAIN (env_chainparams env) \<and> nHeight (hm_store hm p) + 1 \<le> 68589"
  have env: "work_params_ok params" "is_MAIN (env_chainparams env) \<longrightarrow> nPowKGWHeight params \<le> 68590"
    using assms(2) by (simp_all add: env_ok_def params_def)
  have "capped params c \<or> nHeight (hm_store hm p) + 1 < nPowKGWHeight params \<and> earlier_bits (hm_store hm) p c"
    using GetNextWorkRequired_total [OF env(1) header_inv_chain [OF assms(1,3)], of block] work by (simp add: params_def)
  moreover have "target_in_range params (hd_nBits block)" if "\<not> early" "capped params c"
    using capped_in_range [OF that(2)] that(1) bits pow(1) by (auto simp: bits_acceptable_def early_def split: if_splits)
  moreover have "target_in_range params (hd_nBits block)"
    if n: "\<not> early" "nHeight (hm_store hm p) + 1 < nPowKGWHeight params" "earlier_bits (hm_store hm) p c"
  proof -
    have m: "\<not> is_MAIN (env_chainparams env)" using n(1,2) env(2) by (auto simp: early_def)
    obtain k where k: "0 \<le> k" "k \<le> nHeight (hm_store hm p)" "c = nBits (hm_store hm (ancestor (hm_store hm) p k))"
      using n(3) by (auto simp: earlier_bits_def)
    then have "target_in_range params c"
      using assms(1) header_inv_ancestor [OF assms(1,3) k(1,2)] m unfolding header_inv_def target_checked_def params_def by metis
    then show ?thesis using bits m by (simp add: bits_acceptable_def split: if_splits)
  qed
  ultimately show ?thesis using pow(2) unfolding target_checked_def params_def early_def by blast
qed

text \<open>What a call of \<^verbatim>\<open>AcceptBlockHeader\<close> may do to the index: old entries keep all but their status.\<close>

definition accept_ok :: "header_env \<Rightarrow> HeaderManager \<Rightarrow> accept_result outcome option \<Rightarrow> bool" where
  "accept_ok env hm r \<longleftrightarrow> (\<exists>a. r = Some (Ok a) \<and> header_inv env (acc_hm a) \<and> m_failed_blocks (acc_hm a) = m_failed_blocks hm \<and>
     bm_fresh (hm_index hm) \<le> bm_fresh (hm_index (acc_hm a)) \<and>
     (\<forall>q < bm_fresh (hm_index hm). status_step (hm_store hm q) (hm_store (acc_hm a) q)))"

lemma accept_ok_answer: "header_inv env hm \<Longrightarrow> accept_ok env hm (Some (Ok (answer hm x y)))"
  by (simp add: accept_ok_def answer_def)

lemma accept_on_prev_ok:
  assumes "header_inv env hm" "env_ok env" "m_block_index (hm_index hm) (hd_hashPrevBlock block) = Some p"
    "0 < limbs_val (fst (SetCompact (hd_nBits block)))"
    "sint (hd_nVersion block) \<noteq> AutolykosForkSwitchVersion (env_consensus env) \<longrightarrow> target_in_range (env_consensus env) (hd_nBits block)"
  shows "accept_ok env hm (accept_on_prev env block p state hm)"
proof -
  have p: "p < bm_fresh (hm_index hm)" using assms(1,3) by (auto simp: header_inv_def index_ok_def)
  note ans = accept_ok_answer [OF assms(1)]
  obtain ok state' where c: "ContextualCheckBlockHeader env (hm_index hm) block (Some p) state = Some (Ok (ok, state'))"
    "ok \<Longrightarrow> state' = state \<and> target_checked env (nHeight (hm_store hm p) + 1) (hd_nVersion block) (hd_nBits block) \<and>
      GetMedianTimePast (hm_store hm) p < int (unat (hd_nTime block))"
    using Contextual_ok [OF assms(1,2) p, of block state] new_target_checked [OF assms(1,2) p _ _ assms(4,5)] by blast
  have v: "IsValid BLOCK_VALID_SCRIPTS b = Ok (nStatus b AND BLOCK_FAILED_MASK = 0 \<and> nStatus b AND BLOCK_VALID_MASK \<ge> 5)" for b
    by (simp add: IsValid_def)
  define r where "r = (if \<not> (nStatus (hm_store hm p) AND BLOCK_FAILED_MASK = 0 \<and> nStatus (hm_store hm p) AND BLOCK_VALID_MASK \<ge> 5)
      then check_failed_ancestors (m_failed_blocks hm) (hm_index hm) p else Some (Ok (False, hm_index hm)))"
  have fs: "\<forall>f \<in> set (m_failed_blocks hm). chain_ok (hm_store hm) f \<and> nStatus (hm_store hm f) AND BLOCK_FAILED_VALID \<noteq> 0"
    using header_inv_chain [OF assms(1)] assms(1) unfolding header_inv_def by blast
  obtain bad bm where r: "r = Some (Ok (bad, bm))" "bm_status_up (hm_index hm) bm"
    using check_failed_ancestors_ok [OF header_inv_chain [OF assms(1) p] fs] bm_status_up_refl [of "hm_index hm"]
    unfolding r_def by (metis (no_types, lifting))
  define hm1 where "hm1 = hm\<lparr>hm_index := bm\<rparr>"
  have inv1: "header_inv env hm1" unfolding hm1_def by (rule header_inv_status_up [OF assms(1) r(2)])
  have su: "status_up (hm_store hm) (bm_store bm)" "bm_fresh bm = bm_fresh (hm_index hm)" "m_block_index bm = m_block_index (hm_index hm)"
    using r(2) by (simp_all add: bm_status_up_def)
  have keep: "accept_ok env hm (Some (Ok a))" if "header_inv env (acc_hm a)" "m_failed_blocks (acc_hm a) = m_failed_blocks hm"
    "\<forall>q < bm_fresh bm. hm_store (acc_hm a) q = bm_store bm q" "bm_fresh bm \<le> bm_fresh (hm_index (acc_hm a))" for a
    using that su(1,2) by (simp add: accept_ok_def status_up_def)
  have add: "\<exists>q bm2. AddToBlockIndex (env_GetHash env) block status bm = Ok (q, bm2) \<and> header_inv env (hm1\<lparr>hm_index := bm2\<rparr>) \<and>
      (\<forall>r < bm_fresh bm. bm_store bm2 r = bm_store bm r) \<and> bm_fresh bm \<le> bm_fresh bm2" if ok "status_ok status" for status
    using add_entry_inv [OF inv1 that(2), of block p] c(2) [OF that(1)] assms(3) su status_up_chain(4) [OF su(1)] status_up_fields [OF su(1)]
    by (auto simp: hm1_def)
  show ?thesis
  proof (cases ok)
    case True
    have st: "status_ok 2" "status_ok 128" by (simp_all add: status_ok_def)
    show ?thesis
    proof (cases "nStatus (hm_store hm p) AND BLOCK_FAILED_MASK \<noteq> 0 \<or> nStatus (hm_store hm p) AND BLOCK_CONFLICT_CHAINLOCK \<noteq> 0")
      case False
      then have e: "accept_on_prev env block p state hm =
          (if bad then Some (Ok (answer hm1 None (Invalid BLOCK_INVALID_PREV False REJECT_INVALID ''bad-prevblk'' [] state)))
           else if HasConflictingChainLock env (nHeight (bm_store bm p) + 1) (env_GetHash env block)
           then Some (obind (AddToBlockIndex (env_GetHash env) block BLOCK_CONFLICT_CHAINLOCK bm) (\<lambda>(p, bm).
                  Ok (answer (hm1\<lparr>hm_index := bm\<rparr>) None (Invalid BLOCK_CHAINLOCK False REJECT_INVALID ''bad-chainlock'' [] state))))
           else add_header env block state hm1)"
        using True c r(1) unfolding accept_on_prev_def Let_def r_def hm1_def by (simp add: v)
      show ?thesis
        using add [OF True st(1)] add [OF True st(2)] inv1 unfolding e add_header_def
        by (auto simp: hm1_def answer_def intro!: keep)
    qed (auto simp: accept_on_prev_def Let_def ans)
  qed (auto simp: accept_on_prev_def Let_def c(1) ans)
qed

lemma AcceptBlockHeader_ok:
  assumes "header_inv env hm" "env_ok env" "header_typed block"
  shows "accept_ok env hm (AcceptBlockHeader env block state hm)"
proof -
  note ans = accept_ok_answer [OF assms(1)]
  obtain g where g: "m_block_index (hm_index hm) (hashGenesisBlock (env_consensus env)) = Some g" using assms(1) by (auto simp: header_inv_def)
  obtain ok state' where c: "CheckBlockHeader env block True state = Ok (ok, state')"
    "ok \<Longrightarrow> state' = state \<and> 0 < limbs_val (fst (SetCompact (hd_nBits block))) \<and>
       (sint (hd_nVersion block) \<noteq> AutolykosForkSwitchVersion (env_consensus env) \<longrightarrow> target_in_range (env_consensus env) (hd_nBits block))"
    using CheckBlockHeader_ok [OF assms(2,3), of state] by blast
  consider (genesis) "env_GetHash env block = hashGenesisBlock (env_consensus env)"
    | (known) p where "env_GetHash env block \<noteq> hashGenesisBlock (env_consensus env)" "m_block_index (hm_index hm) (env_GetHash env block) = Some p"
    | (bad) "env_GetHash env block \<noteq> hashGenesisBlock (env_consensus env)" "m_block_index (hm_index hm) (env_GetHash env block) = None"
        "\<not> ok \<or> m_block_index (hm_index hm) (hd_hashPrevBlock block) = None"
    | (new) q where "env_GetHash env block \<noteq> hashGenesisBlock (env_consensus env)" "m_block_index (hm_index hm) (env_GetHash env block) = None"
        ok "m_block_index (hm_index hm) (hd_hashPrevBlock block) = Some q"
    by (cases "m_block_index (hm_index hm) (env_GetHash env block)"; cases "m_block_index (hm_index hm) (hd_hashPrevBlock block)") blast+
  then show ?thesis
  proof cases
    case genesis
    then show ?thesis using assms(1) by (simp add: AcceptBlockHeader_def add_header_def AddToBlockIndex_def g accept_ok_def)
  next
    case known
    then show ?thesis by (simp add: AcceptBlockHeader_def Let_def ans)
  next
    case bad
    then show ?thesis by (auto simp: AcceptBlockHeader_def Let_def c(1) ans)
  next
    case new
    have "accept_ok env hm (accept_on_prev env block q state' hm)"
      using accept_on_prev_ok [OF assms(1,2) new(4)] c(2) [OF new(3)] by blast
    then show ?thesis using new c(1) by (simp add: AcceptBlockHeader_def Let_def)
  qed
qed

section \<open>Reachable states\<close>

text \<open>
  The states of the header chain: the genesis block, a constant of the network that has a target in range and does not
  name its own hash as its predecessor, is loaded, headers are accepted or refused at any time and under any chain locks,
  and blocks are found to be invalid.
\<close>

abbreviation at_moment :: "header_env \<Rightarrow> int \<Rightarrow> (int \<Rightarrow> uint256 \<Rightarrow> bool) \<Rightarrow> bool \<Rightarrow> header_env" where
  "at_moment env t locks ce \<equiv> env\<lparr>GetAdjustedTime := t, HasConflictingChainLock := locks, fCheckpointsEnabled := ce\<rparr>"

inductive header_reachable :: "header_env \<Rightarrow> HeaderManager \<Rightarrow> bool" for env where
  genesis: "env_GetHash env block = hashGenesisBlock (env_consensus env) \<Longrightarrow> target_in_range (env_consensus env) (hd_nBits block) \<Longrightarrow>
    env_GetHash env block \<noteq> hd_hashPrevBlock block \<Longrightarrow>
    AddToBlockIndex (env_GetHash env) block BLOCK_VALID_TREE (BlockManager_init dummy) = Ok (p, bm) \<Longrightarrow>
    header_reachable env \<lparr>hm_index = bm, m_failed_blocks = []\<rparr>"
| accept: "header_reachable env hm \<Longrightarrow> header_typed block \<Longrightarrow>
    AcceptBlockHeader (at_moment env t locks ce) block state hm = Some (Ok a) \<Longrightarrow> header_reachable env (acc_hm a)"
| failed: "header_reachable env hm \<Longrightarrow> p < bm_fresh (hm_index hm) \<Longrightarrow> header_reachable env (InvalidBlockFound state p hm)"

lemma at_moment_same [simp]:
  "env_ok (at_moment env t locks ce) \<longleftrightarrow> env_ok env" "header_inv (at_moment env t locks ce) = header_inv env"
  by (simp_all add: env_ok_def header_inv_def target_checked_def fun_eq_iff)

lemma genesis_inv:
  assumes "env_GetHash env block = hashGenesisBlock (env_consensus env)" "target_in_range (env_consensus env) (hd_nBits block)"
    "env_GetHash env block \<noteq> hd_hashPrevBlock block"
    "AddToBlockIndex (env_GetHash env) block BLOCK_VALID_TREE (BlockManager_init dummy) = Ok (p, bm)"
  shows "header_inv env \<lparr>hm_index = bm, m_failed_blocks = []\<rparr>"
proof -
  have "index_ok (BlockManager_init dummy)" by (simp add: index_ok_def BlockManager_init_def)
  moreover have "status_ok BLOCK_VALID_TREE" by (simp add: status_ok_def)
  ultimately show ?thesis
    using AddToBlockIndex_ok [of "BlockManager_init dummy" BLOCK_VALID_TREE block "env_GetHash env"] assms
    by (simp add: header_inv_def target_checked_def BlockManager_init_def)
qed

lemma InvalidBlockFound_inv:
  assumes "header_inv env hm" "p < bm_fresh (hm_index hm)"
  shows "header_inv env (InvalidBlockFound state p hm)"
proof (cases "m_reason state = BLOCK_MUTATED")
  case False
  define bm where "bm = (hm_index hm)\<lparr>bm_store := (hm_store hm)(p := (hm_store hm p)\<lparr>nStatus := nStatus (hm_store hm p) OR BLOCK_FAILED_VALID\<rparr>),
     setDirtyBlockIndex := List.insert p (setDirtyBlockIndex (hm_index hm))\<rparr>"
  have "bm_status_up (hm_index hm) bm" by (simp add: bm_status_up_def bm_def status_up_mark)
  then have "header_inv env (hm\<lparr>hm_index := bm\<rparr>)" by (rule header_inv_status_up [OF assms(1)])
  moreover have "(nStatus (hm_store hm p) OR BLOCK_FAILED_VALID) AND BLOCK_FAILED_VALID \<noteq> 0"
    by (simp add: and.commute [of _ 32] bit.conj_disj_distrib or_eq_0_iff)
  moreover have "InvalidBlockFound state p hm = hm\<lparr>hm_index := bm, m_failed_blocks := List.insert p (m_failed_blocks hm)\<rparr>"
    using False by (simp add: InvalidBlockFound_def Let_def bm_def)
  ultimately show ?thesis using assms(2) by (simp add: header_inv_def bm_def)
qed (simp add: InvalidBlockFound_def assms(1))

lemma header_reachable_inv:
  assumes "header_reachable env hm" "env_ok env"
  shows "header_inv env hm"
  using assms(1)
proof induction
  case (genesis block dummy p bm)
  then show ?case using genesis_inv by blast
next
  case (accept hm block t locks ce state a)
  then show ?case using AcceptBlockHeader_ok [of "at_moment env t locks ce" hm block state] assms(2) by (simp add: accept_ok_def)
next
  case (failed hm p state)
  then show ?case using InvalidBlockFound_inv by blast
qed

section \<open>Which headers are accepted\<close>

text \<open>The rules that a header keeps with respect to its predecessor.\<close>

definition header_rules :: "header_env \<Rightarrow> HeaderManager \<Rightarrow> CBlockHeader \<Rightarrow> ptr \<Rightarrow> bool" where
  "header_rules env hm block q \<longleftrightarrow>
     (let params = env_consensus env; height = nHeight (hm_store hm q) + 1; time = int (unat (hd_nTime block)) in
     (\<exists>bits. GetNextWorkRequired (hm_store hm) q block params = Some (Ok bits) \<and> bits_acceptable env height (hd_nBits block) bits) \<and>
     (fCheckpointsEnabled env \<longrightarrow> (\<forall>c. GetLastCheckpoint (hm_index hm) (mapCheckpoints (env_chainparams env)) = Some c \<longrightarrow> nHeight (hm_store hm c) \<le> height)) \<and>
     GetMedianTimePast (hm_store hm) q < time \<and> time \<le> GetAdjustedTime env + 7200 \<and>
     (BIP34Height params \<le> height \<longrightarrow> 2 \<le> sint (hd_nVersion block)) \<and> (BIP66Height params \<le> height \<longrightarrow> 3 \<le> sint (hd_nVersion block)) \<and>
     (BIP65Height params \<le> height \<longrightarrow> 4 \<le> sint (hd_nVersion block)))"

text \<open>The predecessor is fit to be built upon: not marked itself, and when its scripts are not checked yet, above no failed block.\<close>

definition fit_prev :: "HeaderManager \<Rightarrow> ptr \<Rightarrow> bool" where
  "fit_prev hm q \<longleftrightarrow> nStatus (hm_store hm q) AND BLOCK_FAILED_MASK = 0 \<and> nStatus (hm_store hm q) AND BLOCK_CONFLICT_CHAINLOCK = 0 \<and>
     (nStatus (hm_store hm q) AND BLOCK_VALID_MASK < BLOCK_VALID_SCRIPTS \<longrightarrow>
       (\<forall>f \<in> set (m_failed_blocks hm). \<not> (nHeight (hm_store hm f) \<le> nHeight (hm_store hm q) \<and> ancestor (hm_store hm) q (nHeight (hm_store hm f)) = f)))"

lemma fst_Invalid [simp]: "\<not> fst (Invalid reason False code r dbg state)" by (simp add: Invalid_def Let_def)

lemma accepted_answer [simp]: "accepted (answer hm p r) = fst r" by (simp add: answer_def)

lemma check_after_bits_iff:
  "GetNextWorkRequired (hm_store hm) q block (env_consensus env) = Some (Ok bits) \<Longrightarrow>
   bits_acceptable env (nHeight (hm_store hm q) + 1) (hd_nBits block) bits \<Longrightarrow>
   fst (check_after_bits env (hm_index hm) block q state) \<longleftrightarrow> header_rules env hm block q"
  by (auto simp: check_after_bits_def header_rules_def Let_def Invalid_def not_le split: option.splits)

lemma Contextual_iff:
  assumes "header_inv env hm" "env_ok env" "p < bm_fresh (hm_index hm)"
  shows "\<exists>state'. ContextualCheckBlockHeader env (hm_index hm) block (Some p) state = Some (Ok (header_rules env hm block p, state')) \<and>
    (header_rules env hm block p \<longrightarrow> state' = state)"
proof -
  have "work_params_ok (env_consensus env)" using assms(2) by (simp add: env_ok_def)
  from GetNextWorkRequired_total [OF this header_inv_chain [OF assms(1,3)], of block]
  obtain c where c: "GetNextWorkRequired (hm_store hm) p block (env_consensus env) = Some (Ok c)" by blast
  have t: "fst (check_after_bits env (hm_index hm) block p state) \<longrightarrow> snd (check_after_bits env (hm_index hm) block p state) = state"
    by (auto simp: check_after_bits_def Let_def Invalid_def)
  show ?thesis
  proof (cases "bits_acceptable env (nHeight (hm_store hm p) + 1) (hd_nBits block) c")
    case True
    then show ?thesis using check_after_bits_iff [OF c True, of state] t
      by (cases "check_after_bits env (hm_index hm) block p state") (auto simp: ContextualCheckBlockHeader_def c)
  next
    case False
    then have "\<not> header_rules env hm block p" by (simp add: header_rules_def c Let_def)
    then show ?thesis using False by (auto simp: ContextualCheckBlockHeader_def c Invalid_def Let_def)
  qed
qed

lemma accept_on_prev_iff:
  assumes "header_inv env hm" "env_ok env" "p < bm_fresh (hm_index hm)" "accept_on_prev env block p state hm = Some (Ok a)"
  shows "accepted a \<longleftrightarrow> header_rules env hm block p \<and> fit_prev hm p \<and>
    \<not> HasConflictingChainLock env (nHeight (hm_store hm p) + 1) (env_GetHash env block)"
proof -
  obtain state' where c: "ContextualCheckBlockHeader env (hm_index hm) block (Some p) state = Some (Ok (header_rules env hm block p, state'))"
    using Contextual_iff [OF assms(1-3), of block state] by blast
  have fs: "\<forall>f \<in> set (m_failed_blocks hm). chain_ok (hm_store hm) f \<and> nStatus (hm_store hm f) AND BLOCK_FAILED_VALID \<noteq> 0"
    using header_inv_chain [OF assms(1)] assms(1) unfolding header_inv_def by blast
  obtain bad bm where f: "check_failed_ancestors (m_failed_blocks hm) (hm_index hm) p = Some (Ok (bad, bm))"
    "bad \<longleftrightarrow> (\<exists>f \<in> set (m_failed_blocks hm). nHeight (hm_store hm f) \<le> nHeight (hm_store hm p) \<and> ancestor (hm_store hm) p (nHeight (hm_store hm f)) = f)"
    "\<not> bad \<longrightarrow> bm = hm_index hm"
    using check_failed_ancestors_ok [OF header_inv_chain [OF assms(1,3)] fs] by blast
  have v: "IsValid BLOCK_VALID_SCRIPTS b = Ok (nStatus b AND BLOCK_FAILED_MASK = 0 \<and> nStatus b AND BLOCK_VALID_MASK \<ge> 5)" for b
    by (simp add: IsValid_def)
  show ?thesis
    using assms(4) f(2,3)
    unfolding accept_on_prev_def Let_def c add_header_def
    by (auto simp: v f(1) fit_prev_def obind_Ok not_le split: if_splits)
qed

lemma accept_on_prev_index:
  assumes "accept_on_prev env block p state hm = Some (Ok a)" "accepted a"
  shows "acc_pindex a \<noteq> None \<and> m_block_index (hm_index (acc_hm a)) (env_GetHash env block) = acc_pindex a"
proof -
  have e: "acc_pindex a \<noteq> None \<and> m_block_index (hm_index (acc_hm a)) (env_GetHash env block) = acc_pindex a"
    if "add_header env block s hm' = Some (Ok a)" for s hm'
    using that by (auto simp: add_header_def obind_Ok AddToBlockIndex_def Let_def split: if_splits option.splits)
  have "\<exists>s hm'. add_header env block s hm' = Some (Ok a)"
    using assms unfolding accept_on_prev_def Let_def
    by (auto simp: after_loop_def then_loop_def obind_Ok split: if_splits option.splits outcome.splits prod.splits)
  then show ?thesis using e by blast
qed

section \<open>Properties\<close>

text \<open>
  C4. The header chain is safe in every reachable state: every target is in the range of the network, except those of
  blocks of the Autolykos version among the first 68589 of the main network, which nothing restricts;
  every block is later than the median time past of its predecessor, so the median time past never
  falls along a chain; and the blocks in the set of failed blocks carry the mark that the acceptance
  asserts. In such a state \<^verbatim>\<open>AcceptBlockHeader\<close> returns for every header, at any time and under any
  chain locks: no assertion fails, no null pointer is followed, no retargeting division is by zero, the new state
  is safe again, and old entries change in their status only.
\<close>

theorem header_chain_safe:
  assumes "env_ok env" "header_reachable env hm"
  shows "header_inv env hm \<and>
    (\<forall>p < bm_fresh (hm_index hm). \<forall>q. pprev (hm_store hm p) = Some q \<longrightarrow> GetMedianTimePast (hm_store hm) q \<le> GetMedianTimePast (hm_store hm) p) \<and>
    (\<forall>block t locks ce state. header_typed block \<longrightarrow>
       accept_ok env hm (AcceptBlockHeader (at_moment env t locks ce) block state hm))"
proof (intro conjI allI impI)
  show inv: "header_inv env hm" using header_reachable_inv assms by blast
  show "GetMedianTimePast (hm_store hm) q \<le> GetMedianTimePast (hm_store hm) p"
    if "p < bm_fresh (hm_index hm)" "pprev (hm_store hm p) = Some q" for p q
    using inv that by (intro GetMedianTimePast_mono) (auto simp: header_inv_def)
  show "accept_ok env hm (AcceptBlockHeader (at_moment env t locks ce) block state hm)" if "header_typed block" for block t locks ce state
    using AcceptBlockHeader_ok [of "at_moment env t locks ce" hm block state] inv assms(1) that by (simp add: accept_ok_def)
qed

definition example_consensus :: Params where
  "example_consensus = mainnet_params\<lparr>hashGenesisBlock := replicate 32 1\<rparr>"

definition example_env :: header_env where
  "example_env = \<lparr>env_boost = boost_model, env_GetHash = example_hash,
     env_chainparams = \<lparr>GetConsensus = example_consensus, is_MAIN = False, mapCheckpoints = [(0, replicate 32 1)]\<rparr>,
     fCheckpointsEnabled = True, GetAdjustedTime = 1000, HasConflictingChainLock = (\<lambda>_ _. False), strprintf = (\<lambda>s _. s)\<rparr>"

lemma example_env_ok: "env_ok example_env"
proof -
  have "work_params_ok mainnet_params" using mainnet_pow_ok by (rule pow_params_work)
  then have "work_params_ok example_consensus" by (simp add: example_consensus_def work_params_ok_def target_in_range_def pow_limit_def)
  moreover have "length (example_hash block) = 32" for block by (simp add: example_hash_def uint256_null_def)
  ultimately show ?thesis using boost_model_ok by (simp add: env_ok_def example_env_def)
qed

lemma example_target_ok: "target_in_range example_consensus 0x1d00ffff"
  using example_target(1) by (simp add: target_in_range_def example_consensus_def pow_limit_def)

lemma new_status:
  assumes "AddToBlockIndex hf block 2 bm = Ok (p, bm')" "m_block_index bm (hf block) = None"
  shows "nStatus (bm_store bm' p) = 2" "m_block_index bm' = (m_block_index bm)(hf block \<mapsto> p)" "p = bm_fresh bm" "bm_fresh bm' = p + 1"
proof -
  define h where "h = (bm_store bm)(bm_fresh bm := new_entry bm (hf block) block)"
  have e: "nStatus (new_entry bm (hf block) block) = 0"
    by (simp add: new_entry_def CBlockIndex_of_def Let_def split: option.splits)
  from assms obtain h1 h2 b where s: "BuildSkip h (bm_fresh bm) = Ok h1" "set_totals h1 (bm_fresh bm) = Ok h2"
    "raise_new 2 (h2 (bm_fresh bm)) = Ok b" and r: "p = bm_fresh bm" "bm_store bm' = h2(p := b)"
    "bm_fresh bm' = p + 1" "m_block_index bm' = (m_block_index bm)(hf block \<mapsto> p)"
    by (auto simp: AddToBlockIndex_def Let_def obind_Ok h_def)
  have "nStatus (h1 (bm_fresh bm)) = nStatus (h (bm_fresh bm))"
    using s(1) by (auto simp: BuildSkip_def obind_Ok split: option.splits)
  moreover have "nStatus (h2 (bm_fresh bm)) = nStatus (h1 (bm_fresh bm))"
    using s(2) by (auto simp: set_totals_def Let_def split: sum.splits)
  ultimately have "nStatus (h2 (bm_fresh bm)) = 0" by (simp add: h_def e)
  then have "nStatus b = 2" using s(3) by (auto simp: raise_new_def RaiseValidity_def obind_Ok)
  then show "nStatus (bm_store bm' p) = 2" by (simp add: r)
qed (use assms in \<open>auto simp: AddToBlockIndex_def Let_def obind_Ok\<close>)

definition example_state :: HeaderManager where
  "example_state = (case AddToBlockIndex example_hash (example_header 0) BLOCK_VALID_TREE (BlockManager_init (CBlockIndex_of (example_header 0))) of
     Ok (p, bm) \<Rightarrow> \<lparr>hm_index = bm, m_failed_blocks = []\<rparr>)"

lemma example_state_facts:
  shows "header_reachable example_env example_state" "m_block_index (hm_index example_state) = [replicate 32 1 \<mapsto> 0]"
    "nStatus (hm_store example_state 0) = 2" "pprev (hm_store example_state 0) = None" "nTime (hm_store example_state 0) = 0"
    "nHeight (hm_store example_state 0) = 0" "m_failed_blocks example_state = []"
proof -
  define bm0 where "bm0 = BlockManager_init (CBlockIndex_of (example_header 0))"
  have h: "example_hash (example_header 0) = replicate 32 1" by (simp add: example_hash_def example_header_def CBlockHeader_null_def)
  have i: "index_ok bm0" "m_block_index bm0 = Map.empty" "bm_fresh bm0 = 0" by (simp_all add: index_ok_def BlockManager_init_def bm0_def)
  have n: "example_hash (example_header 0) \<noteq> hd_hashPrevBlock (example_header 0)" by (rule example_hash_prev)
  have st: "status_ok BLOCK_VALID_TREE" by (simp add: status_ok_def)
  obtain p bm where a: "AddToBlockIndex example_hash (example_header 0) BLOCK_VALID_TREE bm0 = Ok (p, bm)" "index_ok bm"
    and f: "\<And>q. bm_fresh bm0 \<le> q \<and> q < bm_fresh bm \<Longrightarrow> pprev (bm_store bm q) = None \<and> nTime (bm_store bm q) = 0"
    using AddToBlockIndex_ok [of bm0 BLOCK_VALID_TREE "example_header 0" example_hash] i n st by (auto simp: example_header_def)
  note s = new_status [OF a(1)]
  have e: "example_state = \<lparr>hm_index = bm, m_failed_blocks = []\<rparr>" using a(1) by (simp add: example_state_def bm0_def)
  show "m_block_index (hm_index example_state) = [replicate 32 1 \<mapsto> 0]" "nStatus (hm_store example_state 0) = 2" "m_failed_blocks example_state = []"
    using s i by (simp_all add: e h)
  show p: "pprev (hm_store example_state 0) = None" and "nTime (hm_store example_state 0) = 0"
    using f [of 0] s i by (simp_all add: e)
  have "chain_ok (hm_store example_state) 0" using a(2) s i by (simp add: index_ok_def entry_ok_def e)
  then show "nHeight (hm_store example_state 0) = 0" using p chain_ok_root by blast
  have "env_GetHash example_env (example_header 0) = hashGenesisBlock (env_consensus example_env)" by (simp add: example_env_def example_consensus_def h)
  moreover have "target_in_range (env_consensus example_env) (hd_nBits (example_header 0))"
    using example_target_ok by (simp add: example_env_def example_header_def)
  moreover have "env_GetHash example_env (example_header 0) \<noteq> hd_hashPrevBlock (example_header 0)" using n by (simp add: example_env_def)
  ultimately show "header_reachable example_env example_state"
    unfolding e by (rule header_reachable.genesis) (use a(1) in \<open>simp add: example_env_def bm0_def\<close>)
qed

definition example_block :: CBlockHeader where
  "example_block = (example_header 100)\<lparr>hd_hashPrevBlock := replicate 32 1, hd_nBits := 0x1e0fffff\<rparr>"

lemma example_block_typed: "header_typed example_block"
  by (simp add: header_typed_def example_block_def example_header_def CBlockHeader_null_def uint256_null_def)

theorem header_chain_safe_witness:
  "\<exists>a. AcceptBlockHeader (at_moment example_env 5000 (\<lambda>_ _. False) True) example_block CValidationState_init example_state = Some (Ok a)"
  using header_chain_safe [OF example_env_ok example_state_facts(1)] example_block_typed unfolding accept_ok_def by blast

text \<open>
  C5. Exactly the valid headers are accepted: in a reachable state \<^verbatim>\<open>AcceptBlockHeader\<close> returns for every header that it does
  not know, and accepts it if and only if its proof of work is valid, it is not a wrong first block of a development
  network, its predecessor is known and fit to be built upon, it keeps the rules about difficulty,
  checkpoints, time and version, and no chain lock is against it; and an accepted header is in
  the index afterwards.
\<close>

theorem AcceptBlockHeader_exact:
  assumes "env_ok env" "header_reachable env hm" "header_typed block"
    "env_GetHash env block \<noteq> hashGenesisBlock (env_consensus env)" "m_block_index (hm_index hm) (env_GetHash env block) = None"
  shows "\<exists>a. AcceptBlockHeader env block state hm = Some (Ok a) \<and>
    (accepted a \<longleftrightarrow> CheckProofOfWork (env_boost env) block (env_GetHash env block) (hd_nBits block) (env_consensus env) = Ok True \<and>
       (hashDevnetGenesisBlock (env_consensus env) = uint256_null \<or> hd_hashPrevBlock block \<noteq> hashGenesisBlock (env_consensus env) \<or>
        env_GetHash env block = hashDevnetGenesisBlock (env_consensus env)) \<and>
       (\<exists>q. m_block_index (hm_index hm) (hd_hashPrevBlock block) = Some q \<and> header_rules env hm block q \<and> fit_prev hm q \<and>
         \<not> HasConflictingChainLock env (nHeight (hm_store hm q) + 1) (env_GetHash env block))) \<and>
    (accepted a \<longrightarrow> acc_pindex a \<noteq> None \<and> m_block_index (hm_index (acc_hm a)) (env_GetHash env block) = acc_pindex a)"
proof -
  note inv = header_reachable_inv [OF assms(2,1)]
  obtain a where a: "AcceptBlockHeader env block state hm = Some (Ok a)"
    using AcceptBlockHeader_ok [OF inv assms(1,3)] by (auto simp: accept_ok_def)
  have l: "length (hd_hashPrevBlock block) = 32" "length (hd_hashMerkleRoot block) = 32" using assms(3) by (simp_all add: header_typed_def)
  obtain v where v: "CheckProofOfWork (env_boost env) block (env_GetHash env block) (hd_nBits block) (env_consensus env) = Ok v"
    using CheckProofOfWork_iff [of "env_boost env" block "env_GetHash env block"] l assms(1) by (simp add: env_ok_def)
  define dev where "dev \<longleftrightarrow> hashDevnetGenesisBlock (env_consensus env) = uint256_null \<or> hd_hashPrevBlock block \<noteq> hashGenesisBlock (env_consensus env) \<or>
    env_GetHash env block = hashDevnetGenesisBlock (env_consensus env)"
  define pow where "pow = CheckBlockHeader env block True state"
  have pow_cases: "pow = Ok (True, state)" if "v" dev using that v by (auto simp: pow_def CheckBlockHeader_def dev_def)
  have pow_no: "\<exists>s. pow = Ok (False, s)" if "\<not> (v \<and> dev)"
    using that v by (auto simp: pow_def CheckBlockHeader_def dev_def Invalid_def Let_def)
  show ?thesis
  proof (cases "v \<and> dev \<and> m_block_index (hm_index hm) (hd_hashPrevBlock block) \<noteq> None")
    case True
    then obtain q where q: "m_block_index (hm_index hm) (hd_hashPrevBlock block) = Some q" by blast
    then have e: "accept_on_prev env block q state hm = Some (Ok a)"
      using a True pow_cases assms(4,5) by (simp add: AcceptBlockHeader_def pow_def [symmetric] Let_def)
    have "q < bm_fresh (hm_index hm)" using inv q by (auto simp: header_inv_def index_ok_def)
    note acc = accept_on_prev_iff [OF inv assms(1) this e]
    moreover have "acc_pindex a \<noteq> None \<and> m_block_index (hm_index (acc_hm a)) (env_GetHash env block) = acc_pindex a" if "accepted a"
      using accept_on_prev_index [OF e that] .
    ultimately show ?thesis using a q v True by (simp add: dev_def)
  next
    case False
    then have "\<not> accepted a" using a pow_cases pow_no assms(4,5)
      by (cases "v \<and> dev") (auto simp: AcceptBlockHeader_def pow_def [symmetric] Let_def)
    then show ?thesis using a v False by (auto simp: dev_def)
  qed
qed

text \<open>The compact form of the limit of the main network.\<close>

lemma mainnet_limit_limbs:
  "UintToArith256 (powLimit mainnet_params) = replicate 7 0xffffffff @ [0xfff]"
proof -
  have u: "[0..<8] = [0, 1, 2, 3, 4, 5, 6, 7 :: nat]" by code_simp
  have l: "powLimit mainnet_params = [255, 255, 255, 255, 255, 255, 255, 255, 255, 255, 255, 255, 255, 255, 255, 255, 255, 255, 255,
      255, 255, 255, 255, 255, 255, 255, 255, 255, 255, 15, 0, 0]"
    unfolding mainnet_params_def by (simp add: numeral_eq_Suc)
  show ?thesis unfolding l UintToArith256_def u by (simp add: drop_Cons' ReadLE32_def) (simp add: numeral_eq_Suc)
qed

lemma mainnet_limit_compact: "compact_outcome (UintToArith256 (powLimit mainnet_params)) = Ok 0x1e0fffff"
proof -
  have b: "bu_bits (replicate 7 0xffffffff @ [0xfff] :: u256) = 236" by code_simp
  have s: "bu_shr (replicate 7 0xffffffff @ [0xfff] :: u256) 216 = [0xfffff, 0, 0, 0, 0, 0, 0, 0]" by code_simp
  show ?thesis unfolding compact_outcome_def mainnet_limit_limbs GetCompact_def b by (simp add: s GetLow64_def)
qed

theorem AcceptBlockHeader_exact_witness:
  "\<exists>a. AcceptBlockHeader example_env example_block CValidationState_init example_state = Some (Ok a) \<and> accepted a"
proof -
  have n: "GetNextWorkRequired (hm_store example_state) 0 example_block example_consensus = Some (Ok 0x1e0fffff)"
  proof -
    have "powLimit example_consensus = powLimit mainnet_params" by (simp add: example_consensus_def)
    then show ?thesis using example_state_facts mainnet_limit_compact by (simp add: GetNextWorkRequired_def DarkGravityWave_def example_consensus_def mainnet_params_def Let_def)
  qed
  have m: "GetMedianTimePast (hm_store example_state) 0 = 0"
    using example_state_facts by (simp add: GetMedianTimePast_def GetBlockTime_def numeral_eq_Suc)
  have r: "header_rules example_env example_state example_block 0"
    using example_state_facts n m
    by (simp add: header_rules_def example_env_def bits_acceptable_def example_block_def example_header_def GetLastCheckpoint_def)
  have f: "fit_prev example_state 0" using example_state_facts by (simp add: fit_prev_def)
  have "target_in_range mainnet_params 0x1e0fffff"
    by (simp add: target_in_range_def mainnet_limit target_valid_def compact_value_def compact_exponent_def compact_mantissa_def compact_sign_def)
  then have "CheckProofOfWork boost_model example_block uint256_null 0x1e0fffff example_consensus = Ok True"
    using CheckProofOfWork_iff [OF boost_model_ok, of example_block uint256_null "0x1e0fffff" example_consensus]
    by (simp add: example_block_def example_header_def CBlockHeader_null_def uint256_null_def example_consensus_def mainnet_params_def target_in_range_def pow_limit_def)
  moreover have "example_hash example_block = uint256_null"
    by (auto simp: example_hash_def example_block_def uint256_null_def dest: arg_cong [where f = hd])
  moreover have "uint256_null \<noteq> replicate 32 1" by (auto simp: uint256_null_def dest: arg_cong [where f = hd])
  ultimately show ?thesis
    using AcceptBlockHeader_exact [OF example_env_ok example_state_facts(1) example_block_typed, of CValidationState_init] r f example_state_facts(2)
    by (auto simp: example_env_def example_block_def example_consensus_def mainnet_params_def)
qed

text \<open>
  The contextual checks never look at the fields of the Autolykos puzzle: two headers of a version
  of at least 4 that differ only in the version, the nonces and the height \<^verbatim>\<open>aHeight\<close> get the same
  verdict with the same reason on every predecessor. So a header of the old proof of work passes after
  the fork, a header of the new one before it, and the miner is free to state any height, which
  chooses the size of the puzzle.
\<close>

theorem version_and_height_unchecked:
  assumes "4 \<le> sint (hd_nVersion block)" "4 \<le> sint v"
  shows "ContextualCheckBlockHeader env bm (block\<lparr>hd_nVersion := v, hd_nNonce := n, hd_nNewNonce := m, hd_aHeight := a\<rparr>) pindexPrev state =
    ContextualCheckBlockHeader env bm block pindexPrev state"
proof -
  define block' where "block' = block\<lparr>hd_nVersion := v, hd_nNonce := n, hd_nNewNonce := m, hd_aHeight := a\<rparr>"
  have f: "hd_nTime block' = hd_nTime block" "hd_nBits block' = hd_nBits block" "4 \<le> sint (hd_nVersion block')"
    using assms(2) by (simp_all add: block'_def)
  have g: "GetNextWorkRequired h p block' params = GetNextWorkRequired h p block params" for h p params
    unfolding GetNextWorkRequired_def GetNextWorkRequiredBTC_def f ..
  have c: "check_after_bits env bm block' p state = check_after_bits env bm block p state" for p
    using f(3) assms(1) by (simp add: check_after_bits_def f(1) Let_def)
  show ?thesis unfolding block'_def [symmetric] ContextualCheckBlockHeader_def f(2) g c ..
qed

theorem version_and_height_unchecked_witness:
  "ContextualCheckBlockHeader example_env (hm_index example_state) (example_block\<lparr>hd_nVersion := 5, hd_nNonce := 0, hd_nNewNonce := 9, hd_aHeight := 1\<rparr>) (Some 0) CValidationState_init =
   ContextualCheckBlockHeader example_env (hm_index example_state) example_block (Some 0) CValidationState_init"
  using version_and_height_unchecked [of example_block 5] by (simp add: example_block_def example_header_def)

end
