(* ===== verification/Subsidy.thy ===== *)
theory Subsidy
  imports Consensus_Params Doubles
begin

text \<open>
  Block subsidy, masternode payment, developer reward and extra payouts (\<^verbatim>\<open>validation.cpp\<close>), with the
  double arithmetic that the code uses for the shares.
\<close>

section \<open>Block subsidy\<close>

text \<open>A double that is assigned to an amount; all the values below are in range.\<close>

definition amount_of :: "double \<Rightarrow> int" where
  "amount_of x = (case int_of_double x of Some v \<Rightarrow> v | None \<Rightarrow> 0)"

definition subsidy_base :: "int \<Rightarrow> int" where
  "subsidy_base nPrevHeight =
     (if nPrevHeight = 0 then 3000000 * COIN
      else if nPrevHeight \<le> 6000 then 2000 * COIN
      else if nPrevHeight \<le> 14000 then 1000 * COIN
      else if nPrevHeight \<le> 24000 then 800 * COIN
      else if nPrevHeight \<le> 44000 then 600 * COIN
      else if nPrevHeight \<le> 74000 then 400 * COIN
      else if nPrevHeight \<le> 87500 then 300 * COIN
      else if nPrevHeight \<le> 172000 then 150 * COIN
      else if nPrevHeight \<le> 283000 then 120 * COIN
      else if nPrevHeight \<le> 330000 then 80 * COIN
      else if nPrevHeight \<le> 492000 then 64 * COIN
      else if nPrevHeight \<le> 654000 then 52 * COIN
      else if nPrevHeight \<le> 816000 then 42 * COIN
      else if nPrevHeight \<le> 978000 then 34 * COIN
      else if nPrevHeight \<le> 1140000 then 26 * COIN
      else if nPrevHeight \<le> 1302000 then 22 * COIN
      else if nPrevHeight \<le> 1464000 then 20 * COIN
      else if nPrevHeight \<le> 1626000 then 18 * COIN
      else if nPrevHeight \<le> 1788000 then 15 * COIN
      else if nPrevHeight \<le> 1950000 then 14 * COIN
      else if nPrevHeight \<le> 2112000 then 13 * COIN
      else if nPrevHeight \<le> 2274000 then 12 * COIN
      else if nPrevHeight \<le> 2436000 then 11 * COIN
      else if nPrevHeight \<le> 2598000 then 10 * COIN
      else if nPrevHeight \<le> 2760000 then 9 * COIN
      else if nPrevHeight \<le> 2922000 then 8 * COIN
      else if nPrevHeight \<le> 3084000 then 7 * COIN
      else if nPrevHeight \<le> 3246000 then 6 * COIN
      else if nPrevHeight \<le> 3408000 then 5 * COIN
      else if nPrevHeight \<le> 3570000 then 4 * COIN
      else if nPrevHeight \<le> 3732000 then 3 * COIN
      else if nPrevHeight \<le> 3894000 then 2 * COIN
      else if nPrevHeight \<le> 4056000 then 1 * COIN
      else if nPrevHeight \<le> 4218000 then amount_of (double_times (double_lit 9 10) (double_of_int COIN))
      else if nPrevHeight \<le> 4380000 then amount_of (double_times (double_lit 8 10) (double_of_int COIN))
      else if nPrevHeight \<le> 4542000 then amount_of (double_times (double_lit 7 10) (double_of_int COIN))
      else if nPrevHeight \<le> 4704000 then amount_of (double_times (double_lit 6 10) (double_of_int COIN))
      else if nPrevHeight \<le> 4866000 then amount_of (double_times (double_lit 5 10) (double_of_int COIN))
      else if nPrevHeight \<le> 5028000 then amount_of (double_times (double_lit 4 10) (double_of_int COIN))
      else if nPrevHeight \<le> 5190000 then amount_of (double_times (double_lit 3 10) (double_of_int COIN))
      else if nPrevHeight \<le> 5352000 then amount_of (double_times (double_lit 2 10) (double_of_int COIN))
      else if nPrevHeight \<le> 5514000 then amount_of (double_times (double_lit 1 10) (double_of_int COIN))
      else 0)"

definition superblock_part :: "int \<Rightarrow> Params \<Rightarrow> int \<Rightarrow> int" where
  "superblock_part nPrevHeight consensusParams nSubsidy =
     (if nPrevHeight > 2
      then if nPrevHeight < 16700
           then (if nPrevHeight > nBudgetPaymentsStartBlock consensusParams then amount_of (double_times (double_of_int nSubsidy) (double_lit 5 100)) else 0)
           else if nPrevHeight \<le> V3ForkHeight consensusParams
           then (if nPrevHeight > nBudgetPaymentsStartBlock consensusParams then amount_of (double_times (double_of_int nSubsidy) (double_lit 7 100)) else 0)
           else (if nPrevHeight > nBudgetPaymentsStartBlock consensusParams then amount_of (double_times (double_of_int nSubsidy) (double_lit 5 100)) else 0)
      else 0)"

definition GetBlockSubsidy :: "int \<Rightarrow> Params \<Rightarrow> bool \<Rightarrow> int" where
  "GetBlockSubsidy nPrevHeight consensusParams fSuperblockPartOnly =
     (let nSubsidyBase = subsidy_base nPrevHeight;
          nSubsidy = nSubsidyBase;
          nSubsidy = (if nPrevHeight < nHighSubsidyBlocks consensusParams then nSubsidy * nHighSubsidyFactor consensusParams else nSubsidy);
          nSuperblockPart = superblock_part nPrevHeight consensusParams nSubsidy
      in if fSuperblockPartOnly then nSuperblockPart else nSubsidy - nSuperblockPart)"

section \<open>Other payments\<close>

text \<open>The first argument tells whether the network is the main one.\<close>

definition isExtraFundAllocationHeight :: "bool \<Rightarrow> Params \<Rightarrow> int \<Rightarrow> bool" where
  "isExtraFundAllocationHeight is_main params nHeight =
     (if is_main
      then nHeight \<in> set [87500, 130000, 154000, 220000, 285000, 370000, 460000, 545000, 630000, 715000, 885000, 1060000, 1230000]
      else nHeight \<in> set (map (\<lambda>d. V3ForkHeight params + d) [2, 4, 6, 8, 10, 33]))"

definition GetExtraPayOutAmount :: "int \<Rightarrow> int" where
  "GetExtraPayOutAmount nHeight =
     (let ExtraPayOutAmount =
       (if nHeight = 87500 then 1000000
        else if nHeight = 130000 then 2000000
        else if nHeight = 154000 then 300000
        else if nHeight = 220000 then 1000000
        else if nHeight = 285000 then 1500000
        else if nHeight = 370000 then 1500000
        else if nHeight = 460000 then 1500000
        else if nHeight = 545000 then 1000000
        else if nHeight = 630000 then 1000000
        else if nHeight = 715000 then 1000000
        else if nHeight = 885000 then 1000000
        else if nHeight = 1060000 then 1000000
        else if nHeight = 1230000 then 1000000
        else 0)
      in ExtraPayOutAmount * COIN)"

definition GetMasternodePayment :: "Params \<Rightarrow> int \<Rightarrow> int \<Rightarrow> int" where
  "GetMasternodePayment params nHeight blockValue =
     (let nReallocActivationHeight = BRRHeight params
      in if nHeight > 16700
         then if nHeight \<le> 18000 then amount_of (double_times (double_of_int blockValue) (double_lit 30 100))
              else if nHeight \<le> 24000 then amount_of (double_times (double_of_int blockValue) (double_lit 335 1000))
              else if nHeight \<le> 87500 then amount_of (double_times (double_of_int blockValue) (double_lit 485 1000))
              else amount_of (double_times (double_of_int blockValue) (double_div (double_of_int 48) (double_of_int 95)))
         else let ret = amount_of (double_times (double_of_int blockValue) (double_lit 5 10))
         in if nHeight < nReallocActivationHeight then ret
         else let nSuperblockCycle' =
                (if nHeight < nNewSuperBlockStartHeight params then nSuperblockCycle params
                 else if nHeight < nAutolykosSuperBlockStartHeight params then nNewSuperBlockCycle params
                 else nAutolykosSuperBlockCycle params);
              nReallocStart = nReallocActivationHeight - nReallocActivationHeight smod nSuperblockCycle' + nSuperblockCycle'
         in if nHeight < nReallocStart then ret else blockValue * 1)"

text \<open>
  The developer reward that \<^verbatim>\<open>ContextualCheckBlock\<close> requires above the start height.  The last
  two branches are double arithmetic.
\<close>

definition devPayoutValue :: "Params \<Rightarrow> int \<Rightarrow> int" where
  "devPayoutValue consensusParams nHeight =
     (if nHeight > 18000 \<and> nHeight \<le> 24000 then (GetBlockSubsidy nHeight consensusParams False * 18) sdiv 100
      else if nHeight = 24001 then 1674000000
      else if nHeight < V3ForkHeight consensusParams
      then (GetBlockSubsidy (nHeight + 1) consensusParams False * DevelopementFundShare consensusParams) sdiv 100
      else if nHeight = 87500 then 837000000
      else if nHeight < AutolykosForkHeight consensusParams - 1
      then amount_of (double_div (double_times (double_of_int (GetBlockSubsidy (nHeight + 1) consensusParams False))
             (double_div (double_of_int 300) (double_of_int 95))) (double_of_int 100))
      else amount_of (double_div (double_times (double_of_int (GetBlockSubsidy nHeight consensusParams False))
             (double_div (double_of_int 300) (double_of_int 95))) (double_of_int 100)))"

section \<open>Shares\<close>

lemma share_lits:
  "double_lit 5 100 = Fin 7205759403792794 (- 57)" "double_lit 7 100 = Fin 5044031582654956 (- 56)"
  "double_div (double_of_int 48) (double_of_int 95) = Fin 4551005939237554 (- 53)"
  "double_div (double_of_int 300) (double_of_int 95) = Fin 7110946780058678 (- 51)"
  by code_simp+

lemma tenths: "list_all (\<lambda>k. amount_of (double_times (double_lit k 10) (double_of_int COIN)) = k * 10000000) [1, 2, 3, 4, 5, 6, 7, 8, 9]"
  by code_simp

text \<open>Double arithmetic on the shares of a multiple of the unit is exact.\<close>

lemma share_5: "0 \<le> n \<Longrightarrow> n < 2 ^ 45 \<Longrightarrow> amount_of (double_times (double_of_int (20 * n)) (double_lit 5 100)) = n"
proof -
  assume n: "0 \<le> n" "n < 2 ^ 45"
  have "int_of_double (double_round (20 * n * 7205759403792794) (- int 57)) = Some n"
    by (rule int_of_round [where b = 104]) (use n in simp_all)
  then show ?thesis using n by (simp add: share_lits double_of_int_exact amount_of_def)
qed

lemma share_7: "0 \<le> n \<Longrightarrow> n < 2 ^ 45 \<Longrightarrow> amount_of (double_times (double_of_int (100 * n)) (double_lit 7 100)) = 7 * n"
proof -
  assume n: "0 \<le> n" "n < 2 ^ 45"
  have "int_of_double (double_round (100 * n * 5044031582654956) (- int 56)) = Some (7 * n)"
    by (rule int_of_round [where b = 105]) (use n in simp_all)
  then show ?thesis using n by (simp add: share_lits double_of_int_exact amount_of_def)
qed

lemma share_48: "0 \<le> n \<Longrightarrow> n < 2 ^ 45 \<Longrightarrow>
  amount_of (double_times (double_of_int (95 * n)) (double_div (double_of_int 48) (double_of_int 95))) = 48 * n"
proof -
  assume n: "0 \<le> n" "n < 2 ^ 45"
  have "int_of_double (double_round (95 * n * 4551005939237554) (- int 53)) = Some (48 * n)"
    by (rule int_of_round [where b = 104]) (use n in simp_all)
  then show ?thesis using n unfolding share_lits by (simp add: double_of_int_exact amount_of_def)
qed

lemma share_3:
  assumes "0 \<le> n" "n < 2 ^ 41"
  shows "amount_of (double_div (double_times (double_of_int (95 * n)) (double_div (double_of_int 300) (double_of_int 95))) (double_of_int 100)) = 3 * n"
proof -
  define m where "m = 95 * n * 7110946780058678"
  have m: "0 \<le> m" "m < 2 ^ 101" "300 * n * 2 ^ 51 \<le> m" "m \<le> (300 * n + 1) * 2 ^ 51" using assms by (simp_all add: m_def)
  from double_round_bounds [OF m(1,2), of 51]
  obtain m' j where j: "double_round m (- int 51) = Fin m' (- int j)" "3 \<le> j" "j \<le> 51" "0 \<le> m'" and
    b: "i \<le> j \<Longrightarrow> (L * 2 ^ (51 - i) \<le> m \<longrightarrow> L * 2 ^ (j - i) \<le> m') \<and> (m \<le> L * 2 ^ (51 - i) \<longrightarrow> m' \<le> L * 2 ^ (j - i))" for L i
    by auto
  have lo: "300 * n * 2 ^ j \<le> m'" and up: "m' \<le> (300 * n + 1) * 2 ^ j" using b [of 0 "300 * n"] b [of 0 "300 * n + 1"] m(3,4) by simp_all
  have len: "bit_len 100 = 7" by code_simp
  define q where "q = 2 * (m' * 2 ^ 62 div 100) + (if m' * 2 ^ 62 mod 100 = 0 then 0 else 1)"
  have t: "double_times (double_of_int (95 * n)) (double_div (double_of_int 300) (double_of_int 95)) = Fin m' (- int j)"
    using assms j(1) unfolding share_lits m_def by (simp add: double_of_int_exact)
  have "double_div (Fin m' (- int j)) (double_of_int 100) = double_round q (- 63 - int j)"
    by (simp add: double_of_int_exact double_quot_def Let_def len q_def mult.commute)
  also have "- 63 - int j = - int (j + 63)" by simp
  finally have d: "double_div (Fin m' (- int j)) (double_of_int 100) = double_round q (- int (j + 63))" .
  define P where "P = (2 :: int) ^ j"
  have P: "1 \<le> P" "(2 :: int) ^ (j + 63) = P * 2 ^ 63" by (simp_all add: P_def power_add)
  define Q where "Q = n * P"
  have Q: "0 \<le> Q" "Q \<le> 2 ^ 41 * P" "n * 2 ^ (j + 63) = Q * 2 ^ 63" using assms P by (simp_all add: Q_def mult_right_mono)
  have lo': "300 * Q \<le> m'" and up': "m' \<le> 300 * Q + P" using lo up by (simp_all add: Q_def P_def algebra_simps)
  have M: "100 * (M div 100) \<le> M" for M :: int by simp
  have q: "2 * (m' * 2 ^ 62 div 100) \<le> q" "100 * q \<le> 2 * (m' * 2 ^ 62) + 100"
    unfolding q_def using M [of "m' * 2 ^ 62"] by (auto simp only: distrib_left split: if_split)
  have "300 * Q * 2 ^ 62 div 100 \<le> m' * 2 ^ 62 div 100" by (rule zdiv_mono1, rule mult_right_mono [OF lo']) simp_all
  then have "3 * Q * 2 ^ 62 \<le> m' * 2 ^ 62 div 100" by simp
  then have q_lo: "3 * n * 2 ^ (j + 63) \<le> q" using q(1) Q(3) by simp
  have q_up: "2 * q \<le> (2 * (3 * n) + 1) * 2 ^ (j + 63)" using q(2) up' P Q(3) by (simp add: distrib_right)
  have "q < 2 ^ 113 * P" using q(2) up' Q P(1) by simp
  then have "q < 2 ^ (113 + j)" by (simp add: P_def power_add)
  moreover have "113 + j \<le> 1024" "j + 63 \<le> 1074" "113 + j < 53 + (j + 63)" "0 < j + 63" using j(3) by linarith+
  moreover have "0 \<le> 3 * n" "3 * n < 2 ^ 63" using assms by simp_all
  ultimately have "int_of_double (double_round q (- int (j + 63))) = Some (3 * n)"
    by (intro int_of_round [OF _ _ q_lo q_up])
  then show ?thesis unfolding t d amount_of_def by simp
qed

section \<open>The table\<close>

fun step_value :: "(nat \<times> int) list \<Rightarrow> nat \<Rightarrow> int" where
  "step_value [] h = 0"
| "step_value ((b, v) # t) h = (if h \<le> b then v else step_value t h)"

fun step_total :: "nat \<Rightarrow> (nat \<times> int) list \<Rightarrow> int" where
  "step_total a [] = 0"
| "step_total a ((b, v) # t) = int (b + 1 - a) * v + step_total (b + 1) t"

fun steps_ok :: "nat \<Rightarrow> (nat \<times> int) list \<Rightarrow> bool" where
  "steps_ok a [] \<longleftrightarrow> True"
| "steps_ok a ((b, v) # t) \<longleftrightarrow> a \<le> b \<and> 0 \<le> v \<and> (case t of [] \<Rightarrow> True | (c, w) # _ \<Rightarrow> w \<le> v) \<and> steps_ok (b + 1) t"

lemma step_value_nonneg: "steps_ok a t \<Longrightarrow> 0 \<le> step_value t h"
  by (induction t arbitrary: a) auto

lemma step_value_le_hd: "steps_ok a ((b, v) # t) \<Longrightarrow> step_value t h \<le> v"
proof (induction t arbitrary: a b v)
  case (Cons x t)
  obtain c w where x: "x = (c, w)" by (cases x)
  have "w \<le> v" "steps_ok (b + 1) ((c, w) # t)" using Cons.prems by (simp_all add: x)
  then show ?case using Cons.IH [of "b + 1" c w] by (auto simp: x)
qed simp

lemma step_value_mono: "steps_ok a t \<Longrightarrow> h \<le> h' \<Longrightarrow> step_value t h' \<le> step_value t h"
proof (induction t arbitrary: a)
  case (Cons x t)
  obtain b v where x: "x = (b, v)" by (cases x)
  have "step_value t k \<le> v" for k using step_value_le_hd Cons.prems(1) unfolding x by blast
  moreover have "steps_ok (b + 1) t" using Cons.prems(1) by (simp add: x)
  ultimately show ?case using Cons.IH [of "b + 1"] Cons.prems(2) by (auto simp: x)
qed simp

lemma step_total_nonneg: "steps_ok a t \<Longrightarrow> 0 \<le> step_total a t"
  by (induction a t rule: step_total.induct) simp_all

lemma step_sum_split:
  assumes "steps_ok a ((b, v) # t)"
  shows "n \<le> b + 1 \<Longrightarrow> (\<Sum>h = a..<n. step_value ((b, v) # t) h) = int (n - a) * v"
    and "b + 1 \<le> n \<Longrightarrow> (\<Sum>h = a..<n. step_value ((b, v) # t) h) = int (b + 1 - a) * v + (\<Sum>h = b + 1..<n. step_value t h)"
proof -
  have s: "(\<Sum>h = a..<n. step_value ((b, v) # t) h) = int (n - a) * v" if "n \<le> b + 1" for n
  proof -
    have "(\<Sum>h = a..<n. step_value ((b, v) # t) h) = (\<Sum>h = a..<n. v)" by (rule sum.cong) (use that in auto)
    then show ?thesis by simp
  qed
  then show "n \<le> b + 1 \<Longrightarrow> (\<Sum>h = a..<n. step_value ((b, v) # t) h) = int (n - a) * v" .
  assume n: "b + 1 \<le> n"
  have "a \<le> b + 1" using assms by simp
  then have "(\<Sum>h = a..<n. step_value ((b, v) # t) h) = (\<Sum>h = a..<b + 1. step_value ((b, v) # t) h) + (\<Sum>h = b + 1..<n. step_value ((b, v) # t) h)"
    using n by (simp only: sum.atLeastLessThan_concat)
  also have "(\<Sum>h = b + 1..<n. step_value ((b, v) # t) h) = (\<Sum>h = b + 1..<n. step_value t h)" by (rule sum.cong) simp_all
  finally show "(\<Sum>h = a..<n. step_value ((b, v) # t) h) = int (b + 1 - a) * v + (\<Sum>h = b + 1..<n. step_value t h)"
    using s [of "b + 1"] by simp
qed

lemma step_sum_le: "steps_ok a t \<Longrightarrow> (\<Sum>h = a..<n. step_value t h) \<le> step_total a t"
proof (induction a t rule: step_total.induct)
  case (2 a b v t)
  have t: "steps_ok (b + 1) t" "0 \<le> v" "a \<le> b" using "2.prems" by simp_all
  show ?case
  proof (cases "n \<le> b + 1")
    case True
    have "int (n - a) * v \<le> int (b + 1 - a) * v" using True t by (intro mult_right_mono) simp_all
    then show ?thesis using step_sum_split(1) [OF "2.prems" True] step_total_nonneg [OF t(1)] by simp
  next
    case False
    then show ?thesis using step_sum_split(2) [OF "2.prems", of n] "2.IH" [OF t(1)] by simp
  qed
qed simp

lemma step_sum_all: "steps_ok a t \<Longrightarrow> \<forall>(b, v) \<in> set t. b < n \<Longrightarrow> (\<Sum>h = a..<n. step_value t h) = step_total a t"
proof (induction a t rule: step_total.induct)
  case (2 a b v t)
  have "steps_ok (b + 1) t" "b + 1 \<le> n" using "2.prems" by auto
  then show ?case using step_sum_split(2) [OF "2.prems"(1), of n] "2.IH" "2.prems"(2) by simp
qed simp

definition subsidy_table :: "(nat \<times> int) list" where
  "subsidy_table = [
     (6000, 2000 * COIN), (14000, 1000 * COIN), (24000, 800 * COIN), (44000, 600 * COIN), (74000, 400 * COIN),
     (87500, 300 * COIN), (172000, 150 * COIN), (283000, 120 * COIN), (330000, 80 * COIN), (492000, 64 * COIN),
     (654000, 52 * COIN), (816000, 42 * COIN), (978000, 34 * COIN), (1140000, 26 * COIN), (1302000, 22 * COIN),
     (1464000, 20 * COIN), (1626000, 18 * COIN), (1788000, 15 * COIN), (1950000, 14 * COIN), (2112000, 13 * COIN),
     (2274000, 12 * COIN), (2436000, 11 * COIN), (2598000, 10 * COIN), (2760000, 9 * COIN), (2922000, 8 * COIN),
     (3084000, 7 * COIN), (3246000, 6 * COIN), (3408000, 5 * COIN), (3570000, 4 * COIN), (3732000, 3 * COIN),
     (3894000, 2 * COIN), (4056000, 1 * COIN), (4218000, 9 * 10000000), (4380000, 8 * 10000000), (4542000, 7 * 10000000),
     (4704000, 6 * 10000000), (4866000, 5 * 10000000), (5028000, 4 * 10000000), (5190000, 3 * 10000000), (5352000, 2 * 10000000),
     (5514000, 1 * 10000000)]"

lemma subsidy_base_table: "subsidy_base (int h) = (if h = 0 then 3000000 * COIN else step_value subsidy_table h)"
  using tenths by (simp add: subsidy_base_def subsidy_table_def)

lemma subsidy_table_ok: "steps_ok 1 subsidy_table" by (simp add: subsidy_table_def)

lemma subsidy_table_total: "step_total 1 subsidy_table = 151010000 * COIN" by (simp add: subsidy_table_def)

lemma subsidy_base_unit:
  assumes "0 < h"
  shows "\<exists>n. subsidy_base h = 100 * n \<and> 0 \<le> n \<and> n \<le> 20 * COIN"
proof -
  define t where "t = subsidy_table"
  have "\<forall>(b, v) \<in> set t. v mod 100 = 0 \<and> v div 100 \<le> 20 * COIN \<and> 0 \<le> v" by (simp add: t_def subsidy_table_def)
  then have s: "step_value t k mod 100 = 0 \<and> step_value t k div 100 \<le> 20 * COIN \<and> 0 \<le> step_value t k" for k
    by (induction t) auto
  have e: "subsidy_base h = step_value t (nat h)" using subsidy_base_table [of "nat h"] assms by (simp add: t_def)
  have "x = 100 * (x div 100) \<and> 0 \<le> x div 100" if "x mod 100 = 0" "0 \<le> x" for x :: int
    using that by auto
  then show ?thesis using s [of "nat h"] unfolding e by (intro exI [of _ "step_value t (nat h) div 100"]) auto
qed

lemma superblock_5: "subsidy_base h = 100 * n \<Longrightarrow> 0 \<le> n \<Longrightarrow> n \<le> 20 * COIN \<Longrightarrow>
  amount_of (double_times (double_of_int (100 * n)) (double_lit 5 100)) = 5 * n"
  using share_5 [of "5 * n"] by simp

text \<open>Payments on the main network after the last change of the shares.\<close>

lemma mainnet_subsidy:
  assumes "87500 < h"
  shows "\<exists>n. subsidy_base h = 100 * n \<and> 0 \<le> n \<and> n \<le> 20 * COIN \<and>
    GetBlockSubsidy h mainnet_params True = 5 * n \<and> GetBlockSubsidy h mainnet_params False = 95 * n"
proof -
  obtain n where n: "subsidy_base h = 100 * n" "0 \<le> n" "n \<le> 20 * COIN" using subsidy_base_unit [of h] assms by auto
  then have "superblock_part h mainnet_params (subsidy_base h) = 5 * n"
    using assms superblock_5 [OF n] by (simp add: superblock_part_def mainnet_params_def)
  moreover have "nHighSubsidyBlocks mainnet_params = 0" by (simp add: mainnet_params_def)
  ultimately show ?thesis using n assms by (auto simp: GetBlockSubsidy_def Let_def)
qed

section \<open>Properties\<close>

text \<open>
  C40. The split of the block reward on the main network after height 87500 is exact to the
  satoshi, although it is computed in double arithmetic: of the subsidy of every height 5 percent
  are set aside for superblocks and 95 percent go into the block, the masternode payment out of
  them is 48 percent of the subsidy and the developer reward that a block must pay is 3 percent.
\<close>

theorem reward_split_exact:
  assumes "87500 < h" "87500 < nHeight"
  shows "100 * GetBlockSubsidy h mainnet_params True = 5 * subsidy_base h \<and>
    100 * GetBlockSubsidy h mainnet_params False = 95 * subsidy_base h \<and>
    100 * GetMasternodePayment mainnet_params nHeight (GetBlockSubsidy h mainnet_params False) = 48 * subsidy_base h \<and>
    100 * devPayoutValue mainnet_params nHeight = 3 * subsidy_base (if nHeight < 282999 then nHeight + 1 else nHeight)"
proof -
  obtain n where n: "subsidy_base h = 100 * n" "0 \<le> n" "n \<le> 20 * COIN"
    "GetBlockSubsidy h mainnet_params True = 5 * n" "GetBlockSubsidy h mainnet_params False = 95 * n"
    using mainnet_subsidy [OF assms(1)] by blast
  define h' where "h' = (if nHeight < 282999 then nHeight + 1 else nHeight)"
  have "87500 < h'" using assms(2) by (simp add: h'_def)
  from mainnet_subsidy [OF this] obtain n' where n': "subsidy_base h' = 100 * n'" "0 \<le> n'" "n' \<le> 20 * COIN"
    "GetBlockSubsidy h' mainnet_params False = 95 * n'"
    by blast
  have "devPayoutValue mainnet_params nHeight = amount_of (double_div (double_times (double_of_int (GetBlockSubsidy h' mainnet_params False))
      (double_div (double_of_int 300) (double_of_int 95))) (double_of_int 100))"
    using assms(2) by (auto simp: devPayoutValue_def mainnet_params_def h'_def)
  then have "devPayoutValue mainnet_params nHeight = 3 * n'" using n' share_3 [of n'] by simp
  moreover have "GetMasternodePayment mainnet_params nHeight (95 * n) = 48 * n"
    using assms(2) n(2,3) share_48 [of n] by (simp add: GetMasternodePayment_def Let_def)
  ultimately show ?thesis using n n' by (simp add: h'_def)
qed

theorem reward_split_exact_witness:
  "GetBlockSubsidy 300000 mainnet_params False = 76 * COIN \<and> devPayoutValue mainnet_params 300001 = 240000000"
  using reward_split_exact [of 300000 300001] by (simp add: subsidy_base_def)

text \<open>
  Total issue: from the second block on the subsidy never rises, the subsidies of all blocks
  together never exceed 154010000 coins, and reach them at height 5514000.  That is more than
  seven times \<^verbatim>\<open>MAX_MONEY\<close>, which is passed at height 12000.
\<close>

theorem total_issue:
  "(\<Sum>h < n. subsidy_base (int h)) \<le> 154010000 * COIN \<and> (\<Sum>h < 5514001. subsidy_base (int h)) = 154010000 * COIN \<and>
   (\<Sum>h < 12002. subsidy_base (int h)) > MAX_MONEY \<and> subsidy_base (int (k + d + 1)) \<le> subsidy_base (int (k + 1))"
proof (intro conjI)
  have s: "(\<Sum>h < n. subsidy_base (int h)) = 3000000 * COIN + (\<Sum>h = 1..<n. step_value subsidy_table h)" if "0 < n" for n
  proof -
    have "{..<n} = insert 0 {1..<n}" using that by auto
    then show ?thesis by (simp add: subsidy_base_table)
  qed
  show "(\<Sum>h < n. subsidy_base (int h)) \<le> 154010000 * COIN"
    using s [of n] step_sum_le [OF subsidy_table_ok, of n] subsidy_table_total by (cases "n = 0") simp_all
  show "(\<Sum>h < 5514001. subsidy_base (int h)) = 154010000 * COIN"
    using s [of 5514001] step_sum_all [OF subsidy_table_ok, of 5514001] subsidy_table_total by (simp add: subsidy_table_def)
  show "subsidy_base (int (k + d + 1)) \<le> subsidy_base (int (k + 1))"
    unfolding subsidy_base_table using step_value_mono [OF subsidy_table_ok, of "k + 1" "k + d + 1"] by simp
  show "(\<Sum>h < 12002. subsidy_base (int h)) > MAX_MONEY"
  proof -
    define t where "t = tl subsidy_table"
    have t: "subsidy_table = (6000, 2000 * COIN) # (14000, 1000 * COIN) # tl t" by (simp add: t_def subsidy_table_def)
    note ok = subsidy_table_ok [unfolded t]
    have "(\<Sum>h = 1..<12002. step_value subsidy_table h) = 6000 * (2000 * COIN) + (\<Sum>h = 6001..<12002. step_value ((14000, 1000 * COIN) # tl t) h)"
      unfolding t by (subst step_sum_split(2) [OF ok]) simp_all
    also have "(\<Sum>h = 6001..<12002. step_value ((14000, 1000 * COIN) # tl t) h) = 6001 * (1000 * COIN)"
      by (subst step_sum_split(1)) (use ok in simp_all)
    finally show ?thesis using s [of 12002] by simp
  qed
qed

end
