(* ===== verification/Version_Bits.thy ===== *)
theory Version_Bits
  imports Header_Check
begin

unbundle bit_operations_syntax

text \<open>
  Deployments by version bits (\<^verbatim>\<open>versionbits.cpp\<close>, and \<^verbatim>\<open>ComputeBlockVersion\<close> of \<^verbatim>\<open>validation.cpp\<close>): the state of
  a deployment for the block after a given one, computed over the block index with a cache that
  is kept between calls, the height since which it holds, and the statistics of the current
  period.  The specification assigns a state to every period of a chain without any cache;
  the invariant of the cache is that each of its entries is the state of the
  specification and that the entries before a state that is not the first are there as well.
\<close>

section \<open>Recursion through the sequencing of loops\<close>

lemma then_loop_mono [partial_function_mono]:
  assumes "\<And>x. mono_option (\<lambda>f. B f x)"
  shows "mono_option (\<lambda>f. then_loop r (\<lambda>x. B f x))"
  using assms by (cases r) (simp_all add: then_loop_def option.const_mono)

lemma after_loop_mono [partial_function_mono]:
  assumes "\<And>x. mono_option (\<lambda>f. B f x)"
  shows "mono_option (\<lambda>f. after_loop r (\<lambda>x. B f x))"
  using then_loop_mono [of B, OF assms] by (cases r) (simp_all add: after_loop_def option.const_mono)
section \<open>Checkers\<close>

datatype ThresholdState = DEFINED | STARTED | LOCKED_IN | ACTIVE | FAILED

type_synonym ThresholdConditionCache = "ptr option \<Rightarrow> ThresholdState option"

text \<open>
  The virtual functions of the abstract checker, for given consensus parameters.  A threshold that
  is computed with an overflow of \<^verbatim>\<open>int\<close> is \<^verbatim>\<open>Abort\<close>.
\<close>

record AbstractThresholdConditionChecker =
  Condition :: "CBlockIndex \<Rightarrow> bool"
  BeginTime :: int
  EndTime :: int
  Period :: int
  Threshold :: "int \<Rightarrow> int outcome"

abbreviation (input) INT_MAX :: int where "INT_MAX \<equiv> 2147483647"

text \<open>The conversion of an \<^verbatim>\<open>int64_t\<close> or \<^verbatim>\<open>uint32_t\<close> to \<^verbatim>\<open>int\<close>.\<close>

definition to_int :: "int \<Rightarrow> int" where "to_int x = sint (word_of_int x :: u32)"

abbreviation (input) VERSIONBITS_TOP_BITS :: u32 where "VERSIONBITS_TOP_BITS \<equiv> 0x20000000"
abbreviation (input) VERSIONBITS_TOP_MASK :: u32 where "VERSIONBITS_TOP_MASK \<equiv> 0xE0000000"
abbreviation (input) MAX_VERSION_BITS_DEPLOYMENTS :: nat where "MAX_VERSION_BITS_DEPLOYMENTS \<equiv> 9"

definition vb_Period :: "Params \<Rightarrow> BIP9Deployment \<Rightarrow> int" where
  "vb_Period params d = to_int (if nWindowSize d \<noteq> 0 then nWindowSize d else nMinerConfirmationWindow params)"

definition vb_Threshold :: "Params \<Rightarrow> BIP9Deployment \<Rightarrow> int \<Rightarrow> int outcome" where
  "vb_Threshold params d nAttempt =
     (if nThresholdStart d = 0 then Ok (to_int (nRuleChangeActivationThreshold params))
      else if nThresholdMin d = 0 \<or> nFalloffCoeff d = 0 then Ok (to_int (nThresholdStart d))
      else let square = nAttempt * nAttempt; product = square * vb_Period params d
           in if square > INT_MAX \<or> product > INT_MAX then Abort
              else let nThresholdCalc = nThresholdStart d - product sdiv 100 sdiv nFalloffCoeff d
                   in Ok (to_int (max (nThresholdMin d) nThresholdCalc)))"

definition vb_Mask :: "BIP9Deployment \<Rightarrow> u32" where
  "vb_Mask d = push_bit (dep_bit d) 1"

definition vb_Condition :: "BIP9Deployment \<Rightarrow> CBlockIndex \<Rightarrow> bool" where
  "vb_Condition d b \<longleftrightarrow> blk_nVersion b AND VERSIONBITS_TOP_MASK = VERSIONBITS_TOP_BITS \<and> blk_nVersion b AND vb_Mask d \<noteq> 0"

definition VersionBitsConditionChecker :: "Params \<Rightarrow> nat \<Rightarrow> AbstractThresholdConditionChecker" where
  "VersionBitsConditionChecker params pos =
     (let d = vDeployments params ! pos
      in \<lparr>Condition = vb_Condition d, BeginTime = nStartTime d, EndTime = nTimeout d, Period = vb_Period params d,
          Threshold = vb_Threshold params d\<rparr>)"

section \<open>The state of a deployment\<close>

text \<open>Walking back to a known block; the blocks to compute are a stack.\<close>

partial_function (option) find_known ::
  "AbstractThresholdConditionChecker \<Rightarrow> store \<Rightarrow> ptr option \<Rightarrow> ThresholdConditionCache \<Rightarrow> ptr list \<Rightarrow>
    (ptr option \<times> ThresholdConditionCache \<times> ptr list) outcome option" where
  "find_known ck h pindexPrev cache vToCompute =
     (if cache pindexPrev \<noteq> None then Some (Ok (pindexPrev, cache, vToCompute))
      else case pindexPrev of
        None \<Rightarrow> Some (Ok (pindexPrev, cache(pindexPrev \<mapsto> DEFINED), vToCompute))
      | Some p \<Rightarrow>
          if GetMedianTimePast h p < BeginTime ck then Some (Ok (pindexPrev, cache(pindexPrev \<mapsto> DEFINED), vToCompute))
          else then_loop (GetAncestor h p (nHeight (h p) - Period ck)) (\<lambda>q. find_known ck h q cache (p # vToCompute)))"

text \<open>The search for the height of the start; a missing entry of the cache is created with the first state.\<close>

partial_function (option) find_start ::
  "AbstractThresholdConditionChecker \<Rightarrow> store \<Rightarrow> ptr option \<Rightarrow> ThresholdState \<Rightarrow> int \<Rightarrow> ThresholdConditionCache \<Rightarrow>
    (int \<times> ThresholdConditionCache) outcome option" where
  "find_start ck h pindex_search state_search nStartHeight cache =
     (if state_search = STARTED
      then case pindex_search of
             None \<Rightarrow> Some Abort
           | Some p \<Rightarrow>
               let nStartHeight = min nStartHeight (nHeight (h p) + 1)
               in then_loop (GetAncestor h p (nHeight (h p) - Period ck)) (\<lambda>q.
                    case cache q of
                      None \<Rightarrow> find_start ck h q DEFINED nStartHeight (cache(q \<mapsto> DEFINED))
                    | Some s \<Rightarrow> find_start ck h q s nStartHeight cache)
      else Some (Ok (nStartHeight, cache)))"

text \<open>Counting the blocks of a period that signal.\<close>

primrec count_signals :: "AbstractThresholdConditionChecker \<Rightarrow> store \<Rightarrow> nat \<Rightarrow> ptr option \<Rightarrow> int \<Rightarrow> (int \<times> ptr option) outcome" where
  "count_signals ck h 0 pindexCount count = Ok (count, pindexCount)"
| "count_signals ck h (Suc n) pindexCount count =
     (case pindexCount of
        None \<Rightarrow> Abort
      | Some p \<Rightarrow> count_signals ck h n (pprev (h p)) (if Condition ck (h p) then count + 1 else count))"

text \<open>One step forward: the next state and the height of the start.\<close>

definition next_state :: "AbstractThresholdConditionChecker \<Rightarrow> store \<Rightarrow> ThresholdState \<Rightarrow> int \<Rightarrow> ptr \<Rightarrow> (ThresholdState \<times> int) outcome" where
  "next_state ck h state nStartHeight p =
     (case state of
        DEFINED \<Rightarrow>
          Ok (if GetMedianTimePast h p \<ge> EndTime ck then (FAILED, nStartHeight)
              else if GetMedianTimePast h p \<ge> BeginTime ck then (STARTED, nHeight (h p) + 1)
              else (DEFINED, nStartHeight))
      | STARTED \<Rightarrow>
          if GetMedianTimePast h p \<ge> EndTime ck then Ok (FAILED, nStartHeight)
          else obind (count_signals ck h (nat (Period ck)) (Some p) 0) (\<lambda>(count, pindexCount).
                 if \<not> (nStartHeight > 0 \<and> nStartHeight < INT_MAX) then Abort
                 else case pindexCount of
                        None \<Rightarrow> Abort
                      | Some c \<Rightarrow>
                          let nAttempt = (nHeight (h c) + 1 - nStartHeight) sdiv Period ck
                          in obind (Threshold ck nAttempt) (\<lambda>t.
                               Ok (if count \<ge> t then LOCKED_IN else STARTED, nStartHeight)))
      | LOCKED_IN \<Rightarrow> Ok (ACTIVE, nStartHeight)
      | FAILED \<Rightarrow> Ok (FAILED, nStartHeight)
      | ACTIVE \<Rightarrow> Ok (ACTIVE, nStartHeight))"

primrec walk_forward ::
  "AbstractThresholdConditionChecker \<Rightarrow> store \<Rightarrow> ptr list \<Rightarrow> ThresholdState \<Rightarrow> int \<Rightarrow> ThresholdConditionCache \<Rightarrow>
    (ThresholdState \<times> ThresholdConditionCache) outcome" where
  "walk_forward ck h [] state nStartHeight cache = Ok (state, cache)"
| "walk_forward ck h (p # vToCompute) state nStartHeight cache =
     obind (next_state ck h state nStartHeight p) (\<lambda>(stateNext, nStartHeight).
       walk_forward ck h vToCompute stateNext nStartHeight (cache(Some p \<mapsto> stateNext)))"

text \<open>The last block of the period before the one that the next block is in.\<close>

definition period_parent :: "AbstractThresholdConditionChecker \<Rightarrow> store \<Rightarrow> ptr option \<Rightarrow> ptr option outcome" where
  "period_parent ck h pindexPrev =
     (case pindexPrev of
        None \<Rightarrow> Ok None
      | Some p \<Rightarrow> GetAncestor h p (nHeight (h p) - (nHeight (h p) + 1) smod Period ck))"

definition GetStateFor ::
  "AbstractThresholdConditionChecker \<Rightarrow> store \<Rightarrow> ptr option \<Rightarrow> ThresholdConditionCache \<Rightarrow>
    (ThresholdState \<times> ThresholdConditionCache) outcome option" where
  "GetStateFor ck h pindexPrev cache =
     then_loop (period_parent ck h pindexPrev) (\<lambda>pindexPrev.
     after_loop (find_known ck h pindexPrev cache []) (\<lambda>(pindexPrev, cache, vToCompute).
       case cache pindexPrev of
         None \<Rightarrow> Some Abort
       | Some state \<Rightarrow>
           after_loop (find_start ck h pindexPrev state INT_MAX cache) (\<lambda>(nStartHeight, cache).
             Some (walk_forward ck h vToCompute state nStartHeight cache))))"

section \<open>Start of a state and statistics\<close>

partial_function (option) since_loop ::
  "AbstractThresholdConditionChecker \<Rightarrow> store \<Rightarrow> ThresholdState \<Rightarrow> ptr \<Rightarrow> ptr option \<Rightarrow> ThresholdConditionCache \<Rightarrow>
    (int \<times> ThresholdConditionCache) outcome option" where
  "since_loop ck h initialState pindexPrev previousPeriodParent cache =
     (case previousPeriodParent of
        None \<Rightarrow> Some (Ok (nHeight (h pindexPrev) + 1, cache))
      | Some q \<Rightarrow>
          after_loop (GetStateFor ck h (Some q) cache) (\<lambda>(state, cache).
            if state = initialState
            then then_loop (GetAncestor h q (nHeight (h q) - Period ck)) (\<lambda>r. since_loop ck h initialState q r cache)
            else Some (Ok (nHeight (h pindexPrev) + 1, cache))))"

definition GetStateSinceHeightFor ::
  "AbstractThresholdConditionChecker \<Rightarrow> store \<Rightarrow> ptr option \<Rightarrow> ThresholdConditionCache \<Rightarrow>
    (int \<times> ThresholdConditionCache) outcome option" where
  "GetStateSinceHeightFor ck h pindexPrev cache =
     after_loop (GetStateFor ck h pindexPrev cache) (\<lambda>(initialState, cache).
       if initialState = DEFINED then Some (Ok (0, cache))
       else case pindexPrev of
              None \<Rightarrow> Some Abort
            | Some _ \<Rightarrow>
                then_loop (period_parent ck h pindexPrev) (\<lambda>pindexPrev.
                  case pindexPrev of
                    None \<Rightarrow> Some Abort
                  | Some p \<Rightarrow> then_loop (GetAncestor h p (nHeight (h p) - Period ck)) (\<lambda>q. since_loop ck h initialState p q cache)))"

record BIP9Stats =
  st_period :: int
  st_threshold :: int
  st_elapsed :: int
  st_count :: int
  st_possible :: bool

partial_function (option) count_since :: "AbstractThresholdConditionChecker \<Rightarrow> store \<Rightarrow> int \<Rightarrow> ptr \<Rightarrow> int \<Rightarrow> int outcome option" where
  "count_since ck h end_height currentIndex count =
     (if end_height = nHeight (h currentIndex) then Some (Ok count)
      else let count = (if Condition ck (h currentIndex) then count + 1 else count)
           in case pprev (h currentIndex) of None \<Rightarrow> Some Abort | Some q \<Rightarrow> count_since ck h end_height q count)"

definition GetStateStatisticsFor ::
  "AbstractThresholdConditionChecker \<Rightarrow> store \<Rightarrow> ptr option \<Rightarrow> ThresholdConditionCache \<Rightarrow>
    (BIP9Stats \<times> ThresholdConditionCache) outcome option" where
  "GetStateStatisticsFor ck h pindex cache =
     then_loop (Threshold ck 0) (\<lambda>threshold.
       case pindex of
         None \<Rightarrow> Some (Ok (\<lparr>st_period = Period ck, st_threshold = threshold, st_elapsed = 0, st_count = 0, st_possible = False\<rparr>, cache))
       | Some p \<Rightarrow>
           then_loop (period_parent ck h pindex) (\<lambda>pindexEndOfPrevPeriod.
             case pindexEndOfPrevPeriod of
               None \<Rightarrow> Some Abort
             | Some e \<Rightarrow>
                 let elapsed = nHeight (h p) - nHeight (h e)
                 in after_loop (GetStateFor ck h (Some e) cache) (\<lambda>(state, cache).
                    after_loop
                      (if state = STARTED
                       then after_loop (GetStateSinceHeightFor ck h (Some e) cache) (\<lambda>(nStartHeight, cache).
                              Some (Ok ((nHeight (h e) + 1 - nStartHeight) sdiv Period ck, cache)))
                       else Some (Ok (0, cache))) (\<lambda>(nAttempt, cache).
                      then_loop (Threshold ck nAttempt) (\<lambda>threshold.
                        after_loop (count_since ck h (nHeight (h e)) p 0) (\<lambda>count.
                          Some (Ok (\<lparr>st_period = Period ck, st_threshold = threshold, st_elapsed = elapsed, st_count = count,
                            st_possible = (Period ck - threshold \<ge> elapsed - count)\<rparr>, cache))))))))"

section \<open>Deployments of the network\<close>

text \<open>The caches of all deployments.\<close>

type_synonym VersionBitsCache = "nat \<Rightarrow> ThresholdConditionCache"

definition VersionBitsCache_Clear :: "VersionBitsCache \<Rightarrow> VersionBitsCache" where
  "VersionBitsCache_Clear caches = (\<lambda>d. if d < MAX_VERSION_BITS_DEPLOYMENTS then Map.empty else caches d)"

definition with_cache :: "nat \<Rightarrow> VersionBitsCache \<Rightarrow> ('a \<times> ThresholdConditionCache) outcome option \<Rightarrow> ('a \<times> VersionBitsCache) outcome option" where
  "with_cache pos caches r = after_loop r (\<lambda>(x, cache). Some (Ok (x, caches(pos := cache))))"

definition VersionBitsState :: "store \<Rightarrow> ptr option \<Rightarrow> Params \<Rightarrow> nat \<Rightarrow> VersionBitsCache \<Rightarrow> (ThresholdState \<times> VersionBitsCache) outcome option" where
  "VersionBitsState h pindexPrev params pos caches =
     with_cache pos caches (GetStateFor (VersionBitsConditionChecker params pos) h pindexPrev (caches pos))"

definition VersionBitsStatistics :: "store \<Rightarrow> ptr option \<Rightarrow> Params \<Rightarrow> nat \<Rightarrow> VersionBitsCache \<Rightarrow> (BIP9Stats \<times> VersionBitsCache) outcome option" where
  "VersionBitsStatistics h pindexPrev params pos caches =
     with_cache pos caches (GetStateStatisticsFor (VersionBitsConditionChecker params pos) h pindexPrev (caches pos))"

definition VersionBitsStateSinceHeight :: "store \<Rightarrow> ptr option \<Rightarrow> Params \<Rightarrow> nat \<Rightarrow> VersionBitsCache \<Rightarrow> (int \<times> VersionBitsCache) outcome option" where
  "VersionBitsStateSinceHeight h pindexPrev params pos caches =
     with_cache pos caches (GetStateSinceHeightFor (VersionBitsConditionChecker params pos) h pindexPrev (caches pos))"

definition VersionBitsMask :: "Params \<Rightarrow> nat \<Rightarrow> u32" where
  "VersionBitsMask params pos = vb_Mask (vDeployments params ! pos)"

primrec version_bits :: "store \<Rightarrow> ptr option \<Rightarrow> Params \<Rightarrow> nat list \<Rightarrow> u32 \<Rightarrow> VersionBitsCache \<Rightarrow> (u32 \<times> VersionBitsCache) outcome option" where
  "version_bits h pindexPrev params [] ver caches = Some (Ok (ver, caches))"
| "version_bits h pindexPrev params (i # is) ver caches =
     after_loop (VersionBitsState h pindexPrev params i caches) (\<lambda>(state, caches).
       version_bits h pindexPrev params is
         (if state = LOCKED_IN \<or> state = STARTED then ver OR VersionBitsMask params i else ver) caches)"

definition ComputeBlockVersion :: "store \<Rightarrow> ptr option \<Rightarrow> Params \<Rightarrow> VersionBitsCache \<Rightarrow> (u32 \<times> VersionBitsCache) outcome option" where
  "ComputeBlockVersion h pindexPrev params caches =
     (if (case pindexPrev of None \<Rightarrow> True | Some p \<Rightarrow> nHeight (h p) < AutolykosForkHeight params)
      then version_bits h pindexPrev params [0..<MAX_VERSION_BITS_DEPLOYMENTS] VERSIONBITS_TOP_BITS caches
      else Some (Ok (word_of_int (AutolykosForkSwitchVersion params), caches)))"
section \<open>Specification\<close>

text \<open>
  The states of a deployment along the chain of a block, one for each complete period, without a cache:
  the number of the period with which the deployment started is kept along.
\<close>

definition threshold_at :: "AbstractThresholdConditionChecker \<Rightarrow> int \<Rightarrow> int" where
  "threshold_at ck n = (case Threshold ck n of Ok t \<Rightarrow> t | _ \<Rightarrow> 0)"

definition signals :: "AbstractThresholdConditionChecker \<Rightarrow> store \<Rightarrow> ptr \<Rightarrow> int \<Rightarrow> int \<Rightarrow> int" where
  "signals ck h p i k = int (length (filter (\<lambda>n. Condition ck (h (ancestor h p n))) [i..k]))"

definition period_end :: "AbstractThresholdConditionChecker \<Rightarrow> store \<Rightarrow> ptr \<Rightarrow> nat \<Rightarrow> ptr" where
  "period_end ck h p j = ancestor h p (int j * Period ck - 1)"

primrec bip9 :: "AbstractThresholdConditionChecker \<Rightarrow> store \<Rightarrow> ptr \<Rightarrow> nat \<Rightarrow> ThresholdState \<times> nat" where
  "bip9 ck h p 0 = (DEFINED, 0)"
| "bip9 ck h p (Suc j) =
     (let t = GetMedianTimePast h (period_end ck h p (Suc j)); a = snd (bip9 ck h p j)
      in case fst (bip9 ck h p j) of
           DEFINED \<Rightarrow> if t \<ge> EndTime ck then (FAILED, a) else if t \<ge> BeginTime ck then (STARTED, Suc j) else (DEFINED, a)
         | STARTED \<Rightarrow>
             if t \<ge> EndTime ck then (FAILED, a)
             else if signals ck h p (int j * Period ck) (int (Suc j) * Period ck - 1) \<ge> threshold_at ck (int j - int a) then (LOCKED_IN, a)
             else (STARTED, a)
         | LOCKED_IN \<Rightarrow> (ACTIVE, a)
         | ACTIVE \<Rightarrow> (ACTIVE, a)
         | FAILED \<Rightarrow> (FAILED, a))"

definition periods :: "AbstractThresholdConditionChecker \<Rightarrow> store \<Rightarrow> ptr \<Rightarrow> nat" where
  "periods ck h p = nat ((nHeight (h p) + 1) div Period ck)"

definition deployment_state :: "AbstractThresholdConditionChecker \<Rightarrow> store \<Rightarrow> ptr option \<Rightarrow> ThresholdState" where
  "deployment_state ck h pindexPrev = (case pindexPrev of None \<Rightarrow> DEFINED | Some p \<Rightarrow> fst (bip9 ck h p (periods ck h p)))"

text \<open>What the checker and the chain must satisfy: thresholds do not overflow, median
  times never fall, and the blocks are among the entries of the index.\<close>

definition checker_ok :: "AbstractThresholdConditionChecker \<Rightarrow> int \<Rightarrow> bool" where
  "checker_ok ck H \<longleftrightarrow> 0 < Period ck \<and> BeginTime ck \<le> EndTime ck \<and> H < INT_MAX - 1 \<and>
     (\<forall>n. 0 \<le> n \<and> n * Period ck \<le> H \<longrightarrow> (\<exists>t. Threshold ck n = Ok t))"

definition times_rise :: "store \<Rightarrow> ptr \<Rightarrow> bool" where
  "times_rise h p \<longleftrightarrow> (\<forall>i j. 0 \<le> i \<and> i \<le> j \<and> j \<le> nHeight (h p) \<longrightarrow>
     GetMedianTimePast h (ancestor h p i) \<le> GetMedianTimePast h (ancestor h p j))"

definition vb_chain :: "AbstractThresholdConditionChecker \<Rightarrow> store \<Rightarrow> ptr \<Rightarrow> ptr \<Rightarrow> bool" where
  "vb_chain ck h N p \<longleftrightarrow> chain_ok h p \<and> times_rise h p \<and> checker_ok ck (nHeight (h p)) \<and>
     (\<forall>k. 0 \<le> k \<and> k \<le> nHeight (h p) \<longrightarrow> ancestor h p k < N)"

text \<open>The end of a period as an entry of the cache: none before the first one.\<close>

definition key_at :: "AbstractThresholdConditionChecker \<Rightarrow> store \<Rightarrow> ptr \<Rightarrow> nat \<Rightarrow> ptr option" where
  "key_at ck h p j = (if j = 0 then None else Some (period_end ck h p j))"

definition cache_ok :: "AbstractThresholdConditionChecker \<Rightarrow> store \<Rightarrow> ptr \<Rightarrow> ThresholdConditionCache \<Rightarrow> bool" where
  "cache_ok ck h N cache \<longleftrightarrow> (\<forall>s. cache None = Some s \<longrightarrow> s = DEFINED) \<and>
     (\<forall>q s. cache (Some q) = Some s \<longrightarrow> vb_chain ck h N q \<and> (nHeight (h q) + 1) mod Period ck = 0 \<and>
        s = deployment_state ck h (Some q) \<and> (s \<noteq> DEFINED \<longrightarrow> cache (key_at ck h q (periods ck h q - 1)) \<noteq> None))"

section \<open>The chain of a period end\<close>

lemma vb_chainD:
  assumes "vb_chain ck h N p"
  shows "chain_ok h p" "times_rise h p" "0 < Period ck" "BeginTime ck \<le> EndTime ck" "nHeight (h p) < INT_MAX - 1" "0 \<le> nHeight (h p)"
    "\<And>n. 0 \<le> n \<Longrightarrow> n * Period ck \<le> nHeight (h p) \<Longrightarrow> \<exists>t. Threshold ck n = Ok t"
  using assms by (auto simp: vb_chain_def checker_ok_def chain_ok_height)

lemma vb_chain_ancestor:
  assumes "vb_chain ck h N p" "0 \<le> k" "k \<le> nHeight (h p)"
  shows "vb_chain ck h N (ancestor h p k)"
proof -
  note a = ancestor_ok [OF vb_chainD(1) [OF assms(1)] assms(2,3)]
  have e: "ancestor h (ancestor h p k) i = ancestor h p i" if "0 \<le> i" "i \<le> k" for i
    using ancestor_ancestor [OF vb_chainD(1) [OF assms(1)] that assms(3)] .
  have "times_rise h (ancestor h p k)" using vb_chainD(2) [OF assms(1)] assms(3) a e by (simp add: times_rise_def)
  then show ?thesis using assms(1,3) a e by (auto simp: vb_chain_def checker_ok_def)
qed

lemma period_end_ok:
  assumes "vb_chain ck h N p" "0 < j" "int j * Period ck - 1 \<le> nHeight (h p)"
  shows "vb_chain ck h N (period_end ck h p j)" "nHeight (h (period_end ck h p j)) = int j * Period ck - 1"
    "periods ck h (period_end ck h p j) = j" "(nHeight (h (period_end ck h p j)) + 1) mod Period ck = 0"
proof -
  have P: "0 < Period ck" by (rule vb_chainD(3) [OF assms(1)])
  then have "1 \<le> int j * Period ck" using assms(2) by (simp add: int_one_le_iff_zero_less)
  then have k: "0 \<le> int j * Period ck - 1" by simp
  show "vb_chain ck h N (period_end ck h p j)" unfolding period_end_def by (rule vb_chain_ancestor [OF assms(1) k assms(3)])
  show n: "nHeight (h (period_end ck h p j)) = int j * Period ck - 1"
    unfolding period_end_def using ancestor_ok [OF vb_chainD(1) [OF assms(1)] k assms(3)] by simp
  show "periods ck h (period_end ck h p j) = j" "(nHeight (h (period_end ck h p j)) + 1) mod Period ck = 0"
    unfolding periods_def n using P by simp_all
qed

lemma period_end_ancestor:
  assumes "vb_chain ck h N p" "0 < i" "int i * Period ck - 1 \<le> k" "k \<le> nHeight (h p)"
  shows "period_end ck h (ancestor h p k) i = period_end ck h p i"
proof -
  have "1 \<le> int i * Period ck" using assms(2) vb_chainD(3) [OF assms(1)] by (simp add: int_one_le_iff_zero_less)
  then show ?thesis unfolding period_end_def using ancestor_ancestor [OF vb_chainD(1) [OF assms(1)]] assms(3,4) by simp
qed

lemma bip9_ancestor:
  assumes "vb_chain ck h N p" "int j * Period ck - 1 \<le> k" "0 \<le> k" "k \<le> nHeight (h p)"
  shows "bip9 ck h (ancestor h p k) j = bip9 ck h p j"
  using assms(2)
proof (induction j)
  case (Suc j)
  have P: "0 < Period ck" by (rule vb_chainD(3) [OF assms(1)])
  have e: "int (Suc j) * Period ck = int j * Period ck + Period ck" by (simp add: algebra_simps)
  have b: "bip9 ck h (ancestor h p k) j = bip9 ck h p j" using Suc P e by simp
  have pe: "period_end ck h (ancestor h p k) (Suc j) = period_end ck h p (Suc j)"
    using period_end_ancestor [OF assms(1) _ Suc.prems assms(4)] by simp
  have sg: "signals ck h (ancestor h p k) (int j * Period ck) (int (Suc j) * Period ck - 1) =
      signals ck h p (int j * Period ck) (int (Suc j) * Period ck - 1)"
  proof -
    have "ancestor h (ancestor h p k) n = ancestor h p n" if "n \<in> set [int j * Period ck..int (Suc j) * Period ck - 1]" for n
    proof -
      have "0 \<le> int j * Period ck" using P by simp
      then show ?thesis using that Suc.prems assms(4) by (intro ancestor_ancestor [OF vb_chainD(1) [OF assms(1)]]) auto
    qed
    then have "filter (\<lambda>n. Condition ck (h (ancestor h (ancestor h p k) n))) [int j * Period ck..int (Suc j) * Period ck - 1] =
        filter (\<lambda>n. Condition ck (h (ancestor h p n))) [int j * Period ck..int (Suc j) * Period ck - 1]"
      by (intro filter_cong) auto
    then show ?thesis by (simp add: signals_def)
  qed
  show ?case unfolding bip9.simps b pe sg ..
qed simp

lemma bip9_key:
  assumes "vb_chain ck h N p" "int j * Period ck - 1 \<le> nHeight (h p)"
  shows "deployment_state ck h (key_at ck h p j) = fst (bip9 ck h p j)"
proof (cases "j = 0")
  case False
  then have j: "0 < j" by simp
  have "1 \<le> int j * Period ck" using j vb_chainD(3) [OF assms(1)] by (simp add: int_one_le_iff_zero_less)
  then have "bip9 ck h (period_end ck h p j) j = bip9 ck h p j"
    unfolding period_end_def using bip9_ancestor [OF assms(1) _ _ assms(2)] by simp
  then show ?thesis using False period_end_ok(3) [OF assms(1) j assms(2)] by (simp add: key_at_def deployment_state_def)
qed (simp add: key_at_def deployment_state_def)

text \<open>While a deployment is started, it has been so since its first period, and was not before.\<close>

lemma bip9_started:
  assumes "fst (bip9 ck h p j) = STARTED"
  shows "0 < snd (bip9 ck h p j) \<and> snd (bip9 ck h p j) \<le> j \<and>
    (if snd (bip9 ck h p j) = j then fst (bip9 ck h p (j - 1)) = DEFINED
     else bip9 ck h p (j - 1) = (STARTED, snd (bip9 ck h p j)))"
  using assms
proof (induction j)
  case (Suc j)
  show ?case
  proof (cases "fst (bip9 ck h p j)")
    case DEFINED
    then show ?thesis using Suc.prems by (auto simp: Let_def split: if_splits)
  next
    case STARTED
    then have "bip9 ck h p (Suc j) = (STARTED, snd (bip9 ck h p j))" using Suc.prems by (auto simp: Let_def split: if_splits)
    moreover have "bip9 ck h p j = (STARTED, snd (bip9 ck h p j))" using STARTED by (metis prod.collapse)
    ultimately show ?thesis using Suc.IH [OF STARTED] by (metis Suc_n_not_le_n diff_Suc_1 le_SucI snd_conv)
  qed (use Suc.prems in \<open>auto simp: Let_def\<close>)
qed simp

lemma bip9_early:
  assumes "vb_chain ck h N p" "int j * Period ck - 1 \<le> nHeight (h p)" "0 < j" "GetMedianTimePast h (period_end ck h p j) < BeginTime ck"
  shows "fst (bip9 ck h p j) = DEFINED"
  using assms(2-)
proof (induction j)
  case (Suc j)
  have P: "0 < Period ck" by (rule vb_chainD(3) [OF assms(1)])
  have e: "int (Suc j) * Period ck = int j * Period ck + Period ck" by (simp add: algebra_simps)
  have "fst (bip9 ck h p j) = DEFINED"
  proof (cases "j = 0")
    case False
    then have "1 \<le> int j * Period ck" using P by (simp add: int_one_le_iff_zero_less)
    then have "GetMedianTimePast h (period_end ck h p j) \<le> GetMedianTimePast h (period_end ck h p (Suc j))"
      using vb_chainD(2) [OF assms(1)] Suc.prems(1) P e unfolding times_rise_def period_end_def by simp
    then show ?thesis using Suc False P e by simp
  qed simp
  then show ?case using Suc.prems(3) vb_chainD(4) [OF assms(1)] by (simp add: Let_def)
qed simp
section \<open>The loops\<close>

lemma key_before:
  assumes "vb_chain ck h N p" "int (Suc j) * Period ck - 1 \<le> nHeight (h p)"
  shows "GetAncestor h (period_end ck h p (Suc j)) (nHeight (h (period_end ck h p (Suc j))) - Period ck) = Ok (key_at ck h p j)"
proof -
  define q where "q = period_end ck h p (Suc j)"
  have P: "0 < Period ck" by (rule vb_chainD(3) [OF assms(1)])
  have e: "int (Suc j) * Period ck = int j * Period ck + Period ck" by (simp add: algebra_simps)
  have q: "vb_chain ck h N q" "nHeight (h q) = int (Suc j) * Period ck - 1"
    using period_end_ok(1,2) [OF assms(1) _ assms(2)] by (simp_all add: q_def)
  have g: "GetAncestor h q (int j * Period ck - 1) = Ok (if int j * Period ck - 1 < 0 then None else Some (ancestor h q (int j * Period ck - 1)))"
    using GetAncestor_correct [OF vb_chainD(1) [OF q(1)], of "int j * Period ck - 1"] P q(2) e by simp
  have d: "nHeight (h q) - Period ck = int j * Period ck - 1" using q(2) e by simp
  show ?thesis
  proof (cases "j = 0")
    case False
    then have j: "1 \<le> int j * Period ck" using P by (simp add: int_one_le_iff_zero_less)
    have "0 < int (Suc j) * Period ck" using P by simp
    then have "ancestor h q (int j * Period ck - 1) = period_end ck h p j"
      unfolding q_def period_end_def using ancestor_ancestor [OF vb_chainD(1) [OF assms(1)], of "int j * Period ck - 1" "int (Suc j) * Period ck - 1"] assms(2) j P e by simp
    then show ?thesis using g j False unfolding q_def [symmetric] d by (simp add: key_at_def)
  next
    case True
    then show ?thesis using g unfolding q_def [symmetric] d by (simp add: key_at_def)
  qed
qed

lemma key_at_key:
  assumes "vb_chain ck h N p" "0 < j" "int j * Period ck - 1 \<le> nHeight (h p)"
  shows "key_at ck h (period_end ck h p j) (periods ck h (period_end ck h p j) - 1) = key_at ck h p (j - 1)"
proof (cases "j = 1")
  case False
  then have j: "0 < j - 1" using assms(2) by simp
  have P: "0 < Period ck" by (rule vb_chainD(3) [OF assms(1)])
  then have "int (j - 1) * Period ck \<le> int j * Period ck" by (intro mult_right_mono) simp_all
  then have "period_end ck h (period_end ck h p j) (j - 1) = period_end ck h p (j - 1)"
    unfolding period_end_def [of ck h p j] using period_end_ancestor [OF assms(1) j _ assms(3)] by simp
  then show ?thesis using False assms(2) period_end_ok(3) [OF assms] by (simp add: key_at_def)
qed (use period_end_ok(3) [OF assms] in \<open>simp add: key_at_def\<close>)

lemma cache_ok_lookup:
  assumes "cache_ok ck h N cache" "vb_chain ck h N p" "int j * Period ck - 1 \<le> nHeight (h p)" "cache (key_at ck h p j) = Some s"
  shows "s = fst (bip9 ck h p j) \<and> (s \<noteq> DEFINED \<longrightarrow> cache (key_at ck h p (j - 1)) \<noteq> None)"
proof (cases "j = 0")
  case False
  then have j: "0 < j" by simp
  have k: "key_at ck h p j = Some (period_end ck h p j)" using False by (simp add: key_at_def)
  then have "s = deployment_state ck h (key_at ck h p j) \<and>
      (s \<noteq> DEFINED \<longrightarrow> cache (key_at ck h (period_end ck h p j) (periods ck h (period_end ck h p j) - 1)) \<noteq> None)"
    using assms(1,4) unfolding cache_ok_def by metis
  then show ?thesis using bip9_key [OF assms(2,3)] key_at_key [OF assms(2) j assms(3)] by simp
qed (use assms(1,4) in \<open>auto simp: cache_ok_def key_at_def\<close>)

lemma cache_ok_add:
  assumes "cache_ok ck h N cache" "vb_chain ck h N p" "int j * Period ck - 1 \<le> nHeight (h p)"
    "fst (bip9 ck h p j) \<noteq> DEFINED \<Longrightarrow> cache (key_at ck h p (j - 1)) \<noteq> None"
  shows "cache_ok ck h N (cache(key_at ck h p j \<mapsto> fst (bip9 ck h p j)))"
proof (cases "j = 0")
  case True
  then show ?thesis using assms(1) by (auto simp: cache_ok_def key_at_def)
next
  case False
  then have j: "0 < j" by simp
  define q where "q = period_end ck h p j"
  note q = period_end_ok [OF assms(2) j assms(3), folded q_def]
  have s: "fst (bip9 ck h p j) = deployment_state ck h (Some q)"
    using bip9_key [OF assms(2,3)] False by (simp add: key_at_def q_def)
  have k: "key_at ck h q (periods ck h q - 1) = key_at ck h p (j - 1)" unfolding q_def by (rule key_at_key [OF assms(2) j assms(3)])
  have "key_at ck h p j = Some q" using False by (simp add: key_at_def q_def)
  then show ?thesis using assms(1,4) q(1,4) k unfolding cache_ok_def s by auto
qed

lemma find_known_ok:
  assumes "vb_chain ck h N p" "cache_ok ck h N cache" "int j * Period ck - 1 \<le> nHeight (h p)"
  shows "\<exists>i cache'. i \<le> j \<and> find_known ck h (key_at ck h p j) cache vs =
      Some (Ok (key_at ck h p i, cache', map (period_end ck h p) [Suc i..<Suc j] @ vs)) \<and>
    cache_ok ck h N cache' \<and> cache' (key_at ck h p i) = Some (fst (bip9 ck h p i))"
  using assms(3)
proof (induction j arbitrary: vs)
  case 0
  have "cache None = Some DEFINED \<or> cache None = None" using assms(2) by (cases "cache None") (auto simp: cache_ok_def)
  moreover have "cache_ok ck h N (cache(None \<mapsto> DEFINED))" using cache_ok_add [OF assms(2,1) 0] by (simp add: key_at_def)
  ultimately show ?case using assms(2) by (auto simp: key_at_def find_known.simps intro!: exI [of _ 0])
next
  case (Suc j)
  define q where "q = period_end ck h p (Suc j)"
  have k: "key_at ck h p (Suc j) = Some q" by (simp add: key_at_def q_def)
  have P: "0 < Period ck" by (rule vb_chainD(3) [OF assms(1)])
  show ?case
  proof (cases "cache (Some q)")
    case (Some s)
    then have "s = fst (bip9 ck h p (Suc j))" using cache_ok_lookup [OF assms(2,1) Suc.prems] k by simp
    then have "find_known ck h (key_at ck h p (Suc j)) cache vs =
        Some (Ok (key_at ck h p (Suc j), cache, map (period_end ck h p) [Suc (Suc j)..<Suc (Suc j)] @ vs)) \<and>
        cache_ok ck h N cache \<and> cache (key_at ck h p (Suc j)) = Some (fst (bip9 ck h p (Suc j)))"
      using Some k assms(2) by (subst find_known.simps) simp
    then show ?thesis by blast
  next
    case None
    show ?thesis
    proof (cases "GetMedianTimePast h q < BeginTime ck")
      case True
      then have d: "fst (bip9 ck h p (Suc j)) = DEFINED" using bip9_early [OF assms(1) Suc.prems] by (simp add: q_def)
      have "cache_ok ck h N (cache(Some q \<mapsto> DEFINED))" using cache_ok_add [OF assms(2,1) Suc.prems] k d by simp
      then have "find_known ck h (key_at ck h p (Suc j)) cache vs =
          Some (Ok (key_at ck h p (Suc j), cache(Some q \<mapsto> DEFINED), map (period_end ck h p) [Suc (Suc j)..<Suc (Suc j)] @ vs)) \<and>
          cache_ok ck h N (cache(Some q \<mapsto> DEFINED)) \<and> (cache(Some q \<mapsto> DEFINED)) (key_at ck h p (Suc j)) = Some (fst (bip9 ck h p (Suc j)))"
        using None True k d by (subst find_known.simps) simp
      then show ?thesis by blast
    next
      case False
      have "int j * Period ck - 1 \<le> nHeight (h p)" using Suc.prems P by (simp add: algebra_simps)
      from Suc.IH [OF this, of "q # vs"] obtain i cache' where i: "i \<le> j" "find_known ck h (key_at ck h p j) cache (q # vs) =
          Some (Ok (key_at ck h p i, cache', map (period_end ck h p) [Suc i..<Suc j] @ q # vs))"
        "cache_ok ck h N cache'" "cache' (key_at ck h p i) = Some (fst (bip9 ck h p i))" by blast
      have "find_known ck h (key_at ck h p (Suc j)) cache vs = find_known ck h (key_at ck h p j) cache (q # vs)"
        using None False key_before [OF assms(1) Suc.prems] k by (subst find_known.simps) (simp add: q_def)
      then show ?thesis using i by (intro exI [of _ i] exI [of _ cache']) (simp add: q_def)
    qed
  qed
qed

lemma find_start_ok:
  assumes "vb_chain ck h N p" "cache_ok ck h N cache" "int j * Period ck - 1 \<le> nHeight (h p)" "cache (key_at ck h p j) \<noteq> None"
  shows "find_start ck h (key_at ck h p j) (fst (bip9 ck h p j)) n cache =
    Some (Ok (if fst (bip9 ck h p j) = STARTED then min n (int (snd (bip9 ck h p j)) * Period ck) else n, cache))"
  using assms(3,4)
proof (induction j arbitrary: n)
  case 0
  then show ?case by (subst find_start.simps) simp
next
  case (Suc j)
  have P: "0 < Period ck" by (rule vb_chainD(3) [OF assms(1)])
  show ?case
  proof (cases "fst (bip9 ck h p (Suc j)) = STARTED")
    case True
    define a where "a = snd (bip9 ck h p (Suc j))"
    note st = bip9_started [OF True, folded a_def]
    have ht: "nHeight (h (period_end ck h p (Suc j))) = int (Suc j) * Period ck - 1"
      by (rule period_end_ok(2) [OF assms(1) _ Suc.prems(1)]) simp
    obtain s where "cache (key_at ck h p (Suc j)) = Some s" using Suc.prems(2) by blast
    from cache_ok_lookup [OF assms(2,1) Suc.prems(1) this] have c: "cache (key_at ck h p j) \<noteq> None" using True by simp
    have j: "int j * Period ck - 1 \<le> nHeight (h p)" using Suc.prems(1) P by (simp add: algebra_simps)
    obtain t where t: "cache (key_at ck h p j) = Some t" using c by blast
    then have tt: "t = fst (bip9 ck h p j)" using cache_ok_lookup [OF assms(2,1) j] by simp
    have "find_start ck h (key_at ck h p (Suc j)) STARTED n cache =
        find_start ck h (key_at ck h p j) (fst (bip9 ck h p j)) (min n (int (Suc j) * Period ck)) cache"
      using key_before [OF assms(1) Suc.prems(1)] t ht
      by (subst find_start.simps) (simp add: key_at_def [of ck h p "Suc j"] tt del: of_nat_Suc)
    also have "\<dots> = Some (Ok (min n (int a * Period ck), cache))"
    proof (cases "a = Suc j")
      case True
      then show ?thesis using Suc.IH [OF j c] st by simp
    next
      case False
      then have "int a * Period ck \<le> int (Suc j) * Period ck" using st P by (intro mult_right_mono) simp_all
      then show ?thesis using Suc.IH [OF j c, of "min n (int (Suc j) * Period ck)"] st False by simp
    qed
    finally show ?thesis using True by (simp add: a_def)
  next
    case False
    then show ?thesis by (subst find_start.simps) simp
  qed
qed

lemma count_signals_ok:
  assumes "chain_ok h p" "0 \<le> k" "k \<le> nHeight (h p)" "int m \<le> k + 1"
  shows "count_signals ck h m (Some (ancestor h p k)) c =
    Ok (c + signals ck h p (k - int m + 1) k, if int m = k + 1 then None else Some (ancestor h p (k - int m)))"
  using assms(2-)
proof (induction m arbitrary: k c)
  case (Suc m)
  have s: "signals ck h p (k - int m) k = signals ck h p (k - int m) (k - 1) + (if Condition ck (h (ancestor h p k)) then 1 else 0)"
    using Suc.prems(3) by (simp add: signals_def upto_rec2 [of "k - int m" k])
  show ?case
  proof (cases "k = 0")
    case True
    then have "pprev (h (ancestor h p k)) = None" using tree.up_root_anc [OF assms(1)] by simp
    then show ?thesis using True Suc.prems(3) by (simp add: signals_def)
  next
    case False
    then have "pprev (h (ancestor h p k)) = Some (ancestor h p (k - 1))" using tree.up_anc [OF assms(1)] Suc.prems by simp
    then show ?thesis using Suc.IH [of "k - 1"] Suc.prems False s by (simp add: algebra_simps)
  qed
qed (simp add: signals_def)
section \<open>The cached state is the state of the specification\<close>

text \<open>The height of the start that goes with a state: it matters only while the deployment is started.\<close>

definition start_known :: "AbstractThresholdConditionChecker \<Rightarrow> ThresholdState \<times> nat \<Rightarrow> int \<Rightarrow> bool" where
  "start_known ck s n \<longleftrightarrow> (fst s = STARTED \<longrightarrow> n = int (snd s) * Period ck)"

lemma next_state_ok:
  assumes "vb_chain ck h N p" "int (Suc j) * Period ck - 1 \<le> nHeight (h p)" "start_known ck (bip9 ck h p j) n"
  shows "\<exists>n'. next_state ck h (fst (bip9 ck h p j)) n (period_end ck h p (Suc j)) = Ok (fst (bip9 ck h p (Suc j)), n') \<and>
    start_known ck (bip9 ck h p (Suc j)) n'"
proof (cases "fst (bip9 ck h p j)")
  case DEFINED
  have "nHeight (h (period_end ck h p (Suc j))) + 1 = int (Suc j) * Period ck"
    using period_end_ok(2) [OF assms(1) _ assms(2)] by simp
  then show ?thesis using DEFINED by (auto simp: next_state_def start_known_def Let_def)
next
  case STARTED
  define a where "a = snd (bip9 ck h p j)"
  define q where "q = period_end ck h p (Suc j)"
  have P: "0 < Period ck" by (rule vb_chainD(3) [OF assms(1)])
  have e: "int (Suc j) * Period ck = int j * Period ck + Period ck" by (simp add: algebra_simps)
  note st = bip9_started [OF STARTED, folded a_def]
  have n: "n = int a * Period ck" using assms(3) STARTED by (simp add: start_known_def a_def)
  have aj: "int a * Period ck \<le> int j * Period ck" using st P by (intro mult_right_mono) simp_all
  have a1: "1 \<le> int a * Period ck" using st P by (simp add: int_one_le_iff_zero_less)
  have lim: "0 < n" "n < INT_MAX" using a1 aj n assms(2) e P vb_chainD(5) [OF assms(1)] by linarith+
  have j0: "j \<noteq> 0" using st by simp
  have c: "count_signals ck h (nat (Period ck)) (Some q) 0 =
      Ok (signals ck h p (int j * Period ck) (int (Suc j) * Period ck - 1), Some (ancestor h p (int j * Period ck - 1)))"
    using count_signals_ok [OF vb_chainD(1) [OF assms(1)], of "int (Suc j) * Period ck - 1" "nat (Period ck)" ck 0] assms(2) P e aj a1 j0
    by (simp add: q_def period_end_def)
  have ht: "nHeight (h (ancestor h p (int j * Period ck - 1))) = int j * Period ck - 1"
    using ancestor_ok [OF vb_chainD(1) [OF assms(1)], of "int j * Period ck - 1"] assms(2) P e aj a1 by simp
  have at: "(int j * Period ck - 1 + 1 - n) sdiv Period ck = int j - int a"
  proof -
    have "int j * Period ck - 1 + 1 - n = (int j - int a) * Period ck" unfolding n by (simp add: algebra_simps)
    moreover have "0 \<le> (int j - int a) * Period ck" using aj by (simp add: left_diff_distrib)
    ultimately show ?thesis using P by (simp add: int_sdiv_pos(1))
  qed
  have "\<exists>t. Threshold ck (int j - int a) = Ok t"
  proof (rule vb_chainD(7) [OF assms(1)])
    show "(int j - int a) * Period ck \<le> nHeight (h p)" unfolding left_diff_distrib using assms(2) P e a1 by linarith
  qed (use st in simp)
  then obtain t where t: "Threshold ck (int j - int a) = Ok t" by blast
  then have "threshold_at ck (int j - int a) = t" by (simp add: threshold_at_def)
  then show ?thesis
    using STARTED lim c ht at t n unfolding q_def [symmetric]
    by (auto simp: next_state_def start_known_def Let_def a_def [symmetric] q_def [symmetric] simp del: of_nat_Suc)
qed (auto simp: next_state_def start_known_def Let_def)

lemma walk_forward_ok:
  assumes "vb_chain ck h N p" "int j * Period ck - 1 \<le> nHeight (h p)" "i \<le> j" "cache_ok ck h N cache"
    "cache (key_at ck h p i) \<noteq> None" "start_known ck (bip9 ck h p i) n"
  shows "\<exists>cache'. walk_forward ck h (map (period_end ck h p) [Suc i..<Suc j]) (fst (bip9 ck h p i)) n cache = Ok (fst (bip9 ck h p j), cache') \<and>
    cache_ok ck h N cache'"
  using assms(3-)
proof (induction "j - i" arbitrary: i cache n)
  case 0
  then have "i = j" by simp
  then show ?case using 0 by simp
next
  case (Suc d)
  have P: "0 < Period ck" by (rule vb_chainD(3) [OF assms(1)])
  have "int (Suc i) * Period ck \<le> int j * Period ck" using Suc.hyps(2) P by (intro mult_right_mono) simp_all
  then have i: "int (Suc i) * Period ck - 1 \<le> nHeight (h p)" using assms(2) by simp
  from next_state_ok [OF assms(1) i Suc.prems(4)] obtain n' where n':
    "next_state ck h (fst (bip9 ck h p i)) n (period_end ck h p (Suc i)) = Ok (fst (bip9 ck h p (Suc i)), n')" "start_known ck (bip9 ck h p (Suc i)) n'" by blast
  define cache1 where "cache1 = cache(key_at ck h p (Suc i) \<mapsto> fst (bip9 ck h p (Suc i)))"
  have c1: "cache_ok ck h N cache1" unfolding cache1_def by (rule cache_ok_add [OF Suc.prems(2) assms(1) i]) (use Suc.prems(3) in simp)
  have "cache1 (key_at ck h p (Suc i)) \<noteq> None" by (simp add: cache1_def)
  moreover have "d = j - Suc i" "Suc i \<le> j" using Suc.hyps(2) by simp_all
  ultimately obtain cache' where "walk_forward ck h (map (period_end ck h p) [Suc (Suc i)..<Suc j]) (fst (bip9 ck h p (Suc i))) n' cache1 =
      Ok (fst (bip9 ck h p j), cache')" "cache_ok ck h N cache'"
    using Suc.hyps(1) [of "Suc i" cache1 n'] c1 n'(2) by blast
  moreover have "[Suc i..<Suc j] = Suc i # [Suc (Suc i)..<Suc j]" using \<open>Suc i \<le> j\<close> by (intro upt_conv_Cons) simp
  moreover have "key_at ck h p (Suc i) = Some (period_end ck h p (Suc i))" by (simp add: key_at_def)
  ultimately show ?case using n'(1) by (simp add: cache1_def del: bip9.simps upt_Suc)
qed

lemma period_parent_ok:
  assumes "vb_chain ck h N p"
  shows "period_parent ck h (Some p) = Ok (key_at ck h p (periods ck h p))" "int (periods ck h p) * Period ck - 1 \<le> nHeight (h p)"
proof -
  have P: "0 < Period ck" and H: "0 \<le> nHeight (h p)" by (rule vb_chainD [OF assms])+
  define n where "n = (nHeight (h p) + 1) div Period ck"
  have n: "0 \<le> n" "n * Period ck + (nHeight (h p) + 1) mod Period ck = nHeight (h p) + 1"
    using P H unfolding n_def by (simp_all add: pos_imp_zdiv_nonneg_iff)
  have m: "(nHeight (h p) + 1) smod Period ck = (nHeight (h p) + 1) mod Period ck"
    using P H by (simp add: int_sdiv_pos)
  have r: "0 \<le> (nHeight (h p) + 1) mod Period ck" using P by simp
  have pn: "periods ck h p = nat n" by (simp add: periods_def n_def)
  have e: "nHeight (h p) - (nHeight (h p) + 1) smod Period ck = n * Period ck - 1" using n(2) unfolding m by linarith
  show "int (periods ck h p) * Period ck - 1 \<le> nHeight (h p)" unfolding pn using n r by simp
  have "n * Period ck - 1 < 0 \<longleftrightarrow> n = 0" using n(1) P by (smt (verit) mult_pos_pos mult_eq_0_iff)
  then show "period_parent ck h (Some p) = Ok (key_at ck h p (periods ck h p))"
    using GetAncestor_correct [OF vb_chainD(1) [OF assms], of "n * Period ck - 1"] n r
    by (simp add: period_parent_def e pn key_at_def period_end_def nat_eq_iff)
qed

lemma GetStateFor_ok:
  assumes "vb_chain ck h N p" "cache_ok ck h N cache"
  shows "\<exists>cache'. GetStateFor ck h (Some p) cache = Some (Ok (deployment_state ck h (Some p), cache')) \<and> cache_ok ck h N cache'"
proof -
  define j where "j = periods ck h p"
  note pp = period_parent_ok [OF assms(1), folded j_def]
  obtain i cache1 where i: "i \<le> j" "find_known ck h (key_at ck h p j) cache [] =
      Some (Ok (key_at ck h p i, cache1, map (period_end ck h p) [Suc i..<Suc j]))"
    "cache_ok ck h N cache1" "cache1 (key_at ck h p i) = Some (fst (bip9 ck h p i))"
    using find_known_ok [OF assms pp(2), of "[]"] by auto
  have P: "0 < Period ck" by (rule vb_chainD(3) [OF assms(1)])
  have "int i * Period ck \<le> int j * Period ck" using i(1) P by (intro mult_right_mono) simp_all
  then have il: "int i * Period ck - 1 \<le> nHeight (h p)" using pp(2) by simp
  define n where "n = (if fst (bip9 ck h p i) = STARTED then min INT_MAX (int (snd (bip9 ck h p i)) * Period ck) else INT_MAX)"
  have fs: "find_start ck h (key_at ck h p i) (fst (bip9 ck h p i)) INT_MAX cache1 = Some (Ok (n, cache1))"
    unfolding n_def by (rule find_start_ok [OF assms(1) i(3) il]) (simp add: i(4))
  have "start_known ck (bip9 ck h p i) n"
  proof (cases "fst (bip9 ck h p i) = STARTED")
    case True
    then have "int (snd (bip9 ck h p i)) * Period ck \<le> int i * Period ck" using bip9_started [OF True] P by (intro mult_right_mono) simp_all
    then show ?thesis using il vb_chainD(5) [OF assms(1)] True by (simp add: start_known_def n_def)
  qed (simp add: start_known_def)
  then obtain cache' where "walk_forward ck h (map (period_end ck h p) [Suc i..<Suc j]) (fst (bip9 ck h p i)) n cache1 = Ok (fst (bip9 ck h p j), cache')"
    "cache_ok ck h N cache'"
    using walk_forward_ok [OF assms(1) pp(2) i(1,3)] i(4) by auto
  then show ?thesis
    using pp(1) i(2,4) fs by (simp add: GetStateFor_def deployment_state_def j_def [symmetric] del: upt_Suc)
qed

lemma GetStateFor_None:
  assumes "cache_ok ck h N cache"
  shows "\<exists>cache'. GetStateFor ck h None cache = Some (Ok (DEFINED, cache')) \<and> cache_ok ck h N cache'"
proof -
  have "cache None = Some DEFINED \<or> cache None = None" using assms by (cases "cache None") (auto simp: cache_ok_def)
  moreover have "cache_ok ck h N (cache(None \<mapsto> DEFINED))" using assms by (auto simp: cache_ok_def)
  ultimately show ?thesis using assms
    by (auto simp: GetStateFor_def period_parent_def find_known.simps find_start.simps)
qed
section \<open>Start of a state and statistics\<close>

lemma since_loop_ok:
  assumes "vb_chain ck h N p" "int (Suc i) * Period ck - 1 \<le> nHeight (h p)" "s \<noteq> DEFINED" "cache_ok ck h N cache"
  shows "\<exists>m cache'. since_loop ck h s (period_end ck h p (Suc i)) (key_at ck h p i) cache = Some (Ok (int m * Period ck, cache')) \<and>
    cache_ok ck h N cache' \<and> 0 < m \<and> m \<le> Suc i \<and> (\<forall>k. m \<le> k \<and> k \<le> i \<longrightarrow> fst (bip9 ck h p k) = s) \<and> fst (bip9 ck h p (m - 1)) \<noteq> s"
  using assms(2,4)
proof (induction i arbitrary: cache)
  case 0
  have "nHeight (h (period_end ck h p (Suc 0))) + 1 = int 1 * Period ck"
    using period_end_ok(2) [OF assms(1) _ 0(1)] by simp
  then show ?case using 0(2) assms(3) by (subst since_loop.simps) (auto simp: key_at_def intro!: exI [of _ 1])
next
  case (Suc i)
  have P: "0 < Period ck" by (rule vb_chainD(3) [OF assms(1)])
  have i: "int (Suc i) * Period ck - 1 \<le> nHeight (h p)" using Suc.prems(1) P by (simp add: algebra_simps)
  have q: "vb_chain ck h N (period_end ck h p (Suc i))" using period_end_ok(1) [OF assms(1) _ i] by simp
  have ds: "deployment_state ck h (Some (period_end ck h p (Suc i))) = fst (bip9 ck h p (Suc i))"
    using bip9_key [OF assms(1) i] by (simp add: key_at_def del: bip9.simps)
  obtain cache1 where c1: "GetStateFor ck h (Some (period_end ck h p (Suc i))) cache = Some (Ok (fst (bip9 ck h p (Suc i)), cache1))" "cache_ok ck h N cache1"
    using GetStateFor_ok [OF q Suc.prems(2)] unfolding ds by blast
  have k: "key_at ck h p (Suc i) = Some (period_end ck h p (Suc i))" by (simp add: key_at_def)
  show ?case
  proof (cases "fst (bip9 ck h p (Suc i)) = s")
    case True
    from Suc.IH [OF i c1(2)] obtain m cache' where m:
      "since_loop ck h s (period_end ck h p (Suc i)) (key_at ck h p i) cache1 = Some (Ok (int m * Period ck, cache'))"
      "cache_ok ck h N cache'" "0 < m" "m \<le> Suc i" "\<forall>k. m \<le> k \<and> k \<le> i \<longrightarrow> fst (bip9 ck h p k) = s" "fst (bip9 ck h p (m - 1)) \<noteq> s" by blast
    have "since_loop ck h s (period_end ck h p (Suc (Suc i))) (key_at ck h p (Suc i)) cache = Some (Ok (int m * Period ck, cache'))"
      using c1(1) True m(1) key_before [OF assms(1) i] k by (subst since_loop.simps) (simp del: bip9.simps)
    moreover have "\<forall>k. m \<le> k \<and> k \<le> Suc i \<longrightarrow> fst (bip9 ck h p k) = s" using m(5) True by (auto simp: le_Suc_eq simp del: bip9.simps)
    ultimately show ?thesis using m(2-4,6) by (intro exI [of _ m] exI [of _ cache']) simp
  next
    case False
    have "nHeight (h (period_end ck h p (Suc (Suc i)))) + 1 = int (Suc (Suc i)) * Period ck"
      using period_end_ok(2) [OF assms(1) _ Suc.prems(1)] by simp
    then have "since_loop ck h s (period_end ck h p (Suc (Suc i))) (key_at ck h p (Suc i)) cache = Some (Ok (int (Suc (Suc i)) * Period ck, cache1))"
      using c1(1) False k by (subst since_loop.simps) (simp del: bip9.simps of_nat_Suc)
    then show ?thesis using c1(2) False by (intro exI [of _ "Suc (Suc i)"] exI [of _ cache1]) (auto simp del: bip9.simps of_nat_Suc)
  qed
qed

lemma GetStateSinceHeightFor_ok:
  assumes "vb_chain ck h N p" "cache_ok ck h N cache"
  shows "\<exists>m cache'. GetStateSinceHeightFor ck h (Some p) cache = Some (Ok (int m * Period ck, cache')) \<and> cache_ok ck h N cache' \<and>
    m \<le> periods ck h p \<and> (\<forall>k. m \<le> k \<and> k \<le> periods ck h p \<longrightarrow> fst (bip9 ck h p k) = deployment_state ck h (Some p)) \<and>
    (0 < m \<longrightarrow> fst (bip9 ck h p (m - 1)) \<noteq> deployment_state ck h (Some p)) \<and> (m = 0 \<longleftrightarrow> deployment_state ck h (Some p) = DEFINED)"
proof -
  define j where "j = periods ck h p"
  define s where "s = deployment_state ck h (Some p)"
  have sj: "s = fst (bip9 ck h p j)" by (simp add: s_def deployment_state_def j_def)
  obtain cache1 where c1: "GetStateFor ck h (Some p) cache = Some (Ok (s, cache1))" "cache_ok ck h N cache1"
    using GetStateFor_ok [OF assms] by (auto simp: s_def)
  show ?thesis
  proof (cases "s = DEFINED")
    case True
    have d: "fst (bip9 ck h p k) = DEFINED" if "k \<le> j" for k
    proof (rule ccontr)
      assume "fst (bip9 ck h p k) \<noteq> DEFINED"
      then have "fst (bip9 ck h p (k + d)) \<noteq> DEFINED" for d
        by (induction d) (auto simp: Let_def split: ThresholdState.splits if_splits)
      from this [of "j - k"] show False using that True sj by simp
    qed
    then show ?thesis using c1 True unfolding s_def [symmetric] j_def [symmetric]
      by (intro exI [of _ 0] exI [of _ cache1]) (simp add: GetStateSinceHeightFor_def)
  next
    case False
    then have "0 < j" using sj by (cases j) simp_all
    then obtain i where i: "j = Suc i" by (cases j) simp_all
    note pp = period_parent_ok [OF assms(1), folded j_def]
    have k: "key_at ck h p j = Some (period_end ck h p j)" using i by (simp add: key_at_def)
    from since_loop_ok [OF assms(1) pp(2) [unfolded i] False c1(2)] obtain m cache' where m:
      "since_loop ck h s (period_end ck h p (Suc i)) (key_at ck h p i) cache1 = Some (Ok (int m * Period ck, cache'))"
      "cache_ok ck h N cache'" "0 < m" "m \<le> Suc i" "\<forall>k. m \<le> k \<and> k \<le> i \<longrightarrow> fst (bip9 ck h p k) = s" "fst (bip9 ck h p (m - 1)) \<noteq> s" by blast
    have "GetStateSinceHeightFor ck h (Some p) cache = Some (Ok (int m * Period ck, cache'))"
      using c1(1) False pp(1) k m(1) key_before [OF assms(1) pp(2) [unfolded i]] by (simp add: GetStateSinceHeightFor_def i)
    moreover have "\<forall>k. m \<le> k \<and> k \<le> j \<longrightarrow> fst (bip9 ck h p k) = s" using m(5) sj i by (auto simp: le_Suc_eq simp del: bip9.simps)
    ultimately show ?thesis using m(2-4,6) False unfolding s_def [symmetric] j_def [symmetric]
      by (intro exI [of _ m] exI [of _ cache']) (simp add: i)
  qed
qed

lemma started_since:
  assumes "fst (bip9 ck h p j) = STARTED" "0 < m" "m \<le> j" "\<forall>k. m \<le> k \<and> k \<le> j \<longrightarrow> fst (bip9 ck h p k) = STARTED"
    "fst (bip9 ck h p (m - 1)) \<noteq> STARTED"
  shows "m = snd (bip9 ck h p j)"
  using assms(1,3,4)
proof (induction j)
  case (Suc j)
  note st = bip9_started [OF Suc.prems(1)]
  show ?case
  proof (cases "m = Suc j")
    case True
    then show ?thesis using st assms(5) by (auto simp del: bip9.simps split: if_splits)
  next
    case False
    then have j: "m \<le> j" "fst (bip9 ck h p j) = STARTED" using Suc.prems by (auto simp del: bip9.simps)
    then have "snd (bip9 ck h p (Suc j)) \<noteq> Suc j" using st by (auto simp del: bip9.simps)
    then have "snd (bip9 ck h p j) = snd (bip9 ck h p (Suc j))" using st by (simp del: bip9.simps)
    then show ?thesis using Suc.IH j Suc.prems(3) by (simp del: bip9.simps)
  qed
qed (use assms(2) in simp)

lemma count_since_ok:
  assumes "chain_ok h p" "0 \<le> e" "e \<le> k" "k \<le> nHeight (h p)"
  shows "count_since ck h e (ancestor h p k) c = Some (Ok (c + signals ck h p (e + 1) k))"
  using assms(3,4)
proof (induction "nat (k - e)" arbitrary: k c)
  case 0
  then have "k = e" by simp
  then show ?case using ancestor_ok [OF assms(1), of k] 0 assms(2) by (subst count_since.simps) (simp add: signals_def)
next
  case (Suc n)
  have a: "nHeight (h (ancestor h p k)) = k" using ancestor_ok [OF assms(1), of k] Suc.prems assms(2) by simp
  have up: "pprev (h (ancestor h p k)) = Some (ancestor h p (k - 1))" using tree.up_anc [OF assms(1)] Suc.prems Suc.hyps(2) assms(2) by simp
  have s: "signals ck h p (e + 1) k = signals ck h p (e + 1) (k - 1) + (if Condition ck (h (ancestor h p k)) then 1 else 0)"
    using Suc.hyps(2) by (simp add: signals_def upto_rec2 [of "e + 1" k])
  have "e \<noteq> k" using Suc.hyps(2) by auto
  then show ?case using Suc.hyps Suc.prems a up s Suc.hyps(1) [of "k - 1" "if Condition ck (h (ancestor h p k)) then c + 1 else c"]
    by (subst count_since.simps) (simp add: Let_def)
qed

lemma GetStateStatisticsFor_ok:
  assumes "vb_chain ck h N p" "cache_ok ck h N cache"
  defines "j \<equiv> periods ck h p"
  shows "if j = 0 then GetStateStatisticsFor ck h (Some p) cache = Some Abort
    else \<exists>cache' t. GetStateStatisticsFor ck h (Some p) cache =
        Some (Ok (\<lparr>st_period = Period ck, st_threshold = t, st_elapsed = (nHeight (h p) + 1) mod Period ck,
          st_count = signals ck h p (int j * Period ck) (nHeight (h p)),
          st_possible = (Period ck - t \<ge> (nHeight (h p) + 1) mod Period ck - signals ck h p (int j * Period ck) (nHeight (h p)))\<rparr>, cache')) \<and>
      cache_ok ck h N cache' \<and>
      t = threshold_at ck (if deployment_state ck h (Some p) = STARTED then int j - int (snd (bip9 ck h p j)) else 0)"
proof -
  note pp = period_parent_ok [OF assms(1), folded j_def]
  have P: "0 < Period ck" and H: "0 \<le> nHeight (h p)" by (rule vb_chainD [OF assms(1)])+
  have thr: "Threshold ck n = Ok (threshold_at ck n)" if "0 \<le> n" "n * Period ck \<le> nHeight (h p)" for n
    using vb_chainD(7) [OF assms(1) that] by (auto simp: threshold_at_def)
  have t0: "Threshold ck 0 = Ok (threshold_at ck 0)" using thr [of 0] H by simp
  show ?thesis
  proof (cases "j = 0")
    case True
    then show ?thesis using t0 pp(1) by (simp add: GetStateStatisticsFor_def key_at_def)
  next
    case False
    then have j: "0 < j" by simp
    define e where "e = period_end ck h p j"
    have k: "key_at ck h p j = Some e" using False by (simp add: key_at_def e_def)
    note e = period_end_ok [OF assms(1) j pp(2), folded e_def]
    define s where "s = fst (bip9 ck h p j)"
    have ds: "deployment_state ck h (Some e) = s" using bip9_key [OF assms(1) pp(2)] k by (simp add: s_def)
    have dp: "deployment_state ck h (Some p) = s" by (simp add: s_def deployment_state_def j_def)
    have jP: "1 \<le> int j * Period ck" using j P by (simp add: int_one_le_iff_zero_less)
    have be: "bip9 ck h e i = bip9 ck h p i" if "i \<le> j" for i
    proof -
      have "int i * Period ck \<le> int j * Period ck" using that P by (intro mult_right_mono) simp_all
      then show ?thesis unfolding e_def period_end_def using bip9_ancestor [OF assms(1), of i "int j * Period ck - 1"] pp(2) jP by simp
    qed
    obtain cache1 where c1: "GetStateFor ck h (Some e) cache = Some (Ok (s, cache1))" "cache_ok ck h N cache1"
      using GetStateFor_ok [OF e(1) assms(2)] unfolding ds by blast
    obtain m cache2 where m: "GetStateSinceHeightFor ck h (Some e) cache1 = Some (Ok (int m * Period ck, cache2))" "cache_ok ck h N cache2"
      "m \<le> j" "\<forall>k. m \<le> k \<and> k \<le> j \<longrightarrow> fst (bip9 ck h e k) = s" "0 < m \<longrightarrow> fst (bip9 ck h e (m - 1)) \<noteq> s" "m = 0 \<longleftrightarrow> s = DEFINED"
      using GetStateSinceHeightFor_ok [OF e(1) c1(2)] unfolding ds e(3) by blast
    have ma: "m = snd (bip9 ck h p j)" if "s = STARTED"
    proof -
      have "m = snd (bip9 ck h e j)" by (rule started_since) (use m that be s_def in auto)
      then show ?thesis using be by simp
    qed
    define n where "n = (if s = STARTED then int j - int m else 0)"
    have nt: "Threshold ck n = Ok (threshold_at ck n)"
    proof (cases "s = STARTED")
      case True
      then have "int 1 * Period ck \<le> int m * Period ck" using m(6) P by (intro mult_right_mono) auto
      moreover have "int j * Period ck - 1 \<le> nHeight (h p)" by (rule pp(2))
      ultimately have "(int j - int m) * Period ck \<le> nHeight (h p)" unfolding left_diff_distrib using P by linarith
      then show ?thesis using True m(3) thr [of "int j - int m"] by (simp add: n_def)
    qed (simp add: n_def t0)
    have att: "(nHeight (h e) + 1 - int m * Period ck) sdiv Period ck = int j - int m"
    proof -
      have "nHeight (h e) + 1 - int m * Period ck = (int j - int m) * Period ck" by (simp add: e(2) left_diff_distrib)
      then show ?thesis using P m(3) by (simp add: int_sdiv_pos(1))
    qed
    have el: "nHeight (h p) - nHeight (h e) = (nHeight (h p) + 1) mod Period ck"
    proof -
      have "int j = (nHeight (h p) + 1) div Period ck" unfolding j_def periods_def using P H by (simp add: pos_imp_zdiv_nonneg_iff)
      then show ?thesis unfolding e(2) by (simp add: minus_div_mult_eq_mod [symmetric])
    qed
    have cs: "count_since ck h (nHeight (h e)) p 0 = Some (Ok (signals ck h p (int j * Period ck) (nHeight (h p))))"
      using count_since_ok [OF vb_chainD(1) [OF assms(1)], of "nHeight (h e)" "nHeight (h p)" ck 0] pp(2) jP by (simp add: e(2))
    show ?thesis
    proof (cases "s = STARTED")
      case True
      then show ?thesis using False t0 pp(1) k c1 m(1,2) nt cs att ma unfolding GetStateStatisticsFor_def dp
        by (simp add: el Let_def n_def)
    next
      case ns: False
      then show ?thesis using False t0 pp(1) k c1 cs unfolding GetStateStatisticsFor_def dp by (simp add: el Let_def)
    qed
  qed
qed

section \<open>Version bits on the header chain\<close>

lemma times_rise_inv:
  assumes "header_inv env hm" "p < bm_fresh (hm_index hm)"
  shows "times_rise (hm_store hm) p"
  unfolding times_rise_def
proof (intro allI impI)
  define h where "h = hm_store hm"
  have c: "chain_ok h p" using header_inv_chain [OF assms] by (simp add: h_def)
  fix i j :: int assume ij: "0 \<le> i \<and> i \<le> j \<and> j \<le> nHeight (hm_store hm p)"
  then have "GetMedianTimePast h (ancestor h p i) \<le> GetMedianTimePast h (ancestor h p j)"
  proof (induction "nat (j - i)" arbitrary: j)
    case (Suc n)
    then have "0 < j" by auto
    then have up: "pprev (h (ancestor h p j)) = Some (ancestor h p (j - 1))" using tree.up_anc [OF c, of j] Suc.prems by (simp add: h_def)
    have "entry_ok (hm_store hm) r" if "r < bm_fresh (hm_index hm)" for r using assms(1) that by (simp add: header_inv_def index_ok_def)
    then have "ancestor h p j < bm_fresh (hm_index hm)" using ancestor_old [of "bm_fresh (hm_index hm)" h p j] assms(2) Suc.prems by (simp add: h_def)
    then have "GetMedianTimePast h (ancestor h p (j - 1)) < GetBlockTime (h (ancestor h p j))"
      using assms(1) up by (simp add: header_inv_def h_def)
    then have "GetMedianTimePast h (ancestor h p (j - 1)) \<le> GetMedianTimePast h (ancestor h p j)" using up by (intro GetMedianTimePast_mono)
    moreover have "n = nat (j - 1 - i)" "i < j" using Suc.hyps(2) by auto
    ultimately show ?case using Suc.hyps(1) [of "j - 1"] Suc.prems by simp
  qed simp
  then show "GetMedianTimePast (hm_store hm) (ancestor (hm_store hm) p i) \<le> GetMedianTimePast (hm_store hm) (ancestor (hm_store hm) p j)"
    by (simp add: h_def)
qed

lemma header_inv_vb_chain:
  assumes "header_inv env hm" "p < bm_fresh (hm_index hm)" "checker_ok ck (nHeight (hm_store hm p))"
  shows "vb_chain ck (hm_store hm) (bm_fresh (hm_index hm)) p"
proof -
  have "entry_ok (hm_store hm) r" if "r < bm_fresh (hm_index hm)" for r using assms(1) that by (simp add: header_inv_def index_ok_def)
  then show ?thesis
    using header_inv_chain [OF assms(1,2)] times_rise_inv [OF assms(1,2)] assms(3) ancestor_old [of "bm_fresh (hm_index hm)" "hm_store hm" p] assms(2)
    by (auto simp: vb_chain_def)
qed

text \<open>The cache stays valid when the index grows and the status of entries changes.\<close>

lemma status_step_version: "status_step b b' \<Longrightarrow> blk_nVersion b' = blk_nVersion b"
  by (auto simp: status_step_def)

definition same_data :: "AbstractThresholdConditionChecker \<Rightarrow> store \<Rightarrow> store \<Rightarrow> ptr \<Rightarrow> bool" where
  "same_data ck h h' p \<longleftrightarrow> chain_ok h' p \<and> nHeight (h' p) = nHeight (h p) \<and>
     (\<forall>k. 0 \<le> k \<and> k \<le> nHeight (h p) \<longrightarrow> ancestor h' p k = ancestor h p k \<and>
        Condition ck (h' (ancestor h p k)) = Condition ck (h (ancestor h p k)) \<and>
        GetMedianTimePast h' (ancestor h p k) = GetMedianTimePast h (ancestor h p k))"

lemma same_data_bip9:
  assumes "same_data ck h h' p" "0 < Period ck" "int j * Period ck - 1 \<le> nHeight (h p)"
  shows "bip9 ck h' p j = bip9 ck h p j"
  using assms(3)
proof (induction j)
  case (Suc j)
  have e: "int (Suc j) * Period ck = int j * Period ck + Period ck" by (simp add: algebra_simps)
  have "0 \<le> int j * Period ck" using assms(2) by simp
  then have "0 \<le> int (Suc j) * Period ck - 1" using assms(2) e by linarith
  then have pe: "period_end ck h' p (Suc j) = period_end ck h p (Suc j)"
    "GetMedianTimePast h' (period_end ck h p (Suc j)) = GetMedianTimePast h (period_end ck h p (Suc j))"
    using assms(1) Suc.prems unfolding same_data_def period_end_def by blast+
  have "Condition ck (h' (ancestor h' p n)) = Condition ck (h (ancestor h p n))" if "n \<in> set [int j * Period ck..int (Suc j) * Period ck - 1]" for n
    using assms(1) Suc.prems that \<open>0 \<le> int j * Period ck\<close> unfolding same_data_def by simp
  then have "filter (\<lambda>n. Condition ck (h' (ancestor h' p n))) [int j * Period ck..int (Suc j) * Period ck - 1] =
      filter (\<lambda>n. Condition ck (h (ancestor h p n))) [int j * Period ck..int (Suc j) * Period ck - 1]"
    by (intro filter_cong) auto
  then have sg: "signals ck h' p (int j * Period ck) (int (Suc j) * Period ck - 1) = signals ck h p (int j * Period ck) (int (Suc j) * Period ck - 1)"
    by (simp add: signals_def)
  have b: "bip9 ck h' p j = bip9 ck h p j" using Suc assms(2) e by simp
  show ?case unfolding bip9.simps b pe sg ..
qed simp

lemma cache_ok_same_data:
  assumes "cache_ok ck h N cache" "N \<le> N'" "\<And>q. q < N \<Longrightarrow> same_data ck h h' q"
  shows "cache_ok ck h' N' cache"
proof -
  have "vb_chain ck h' N' q \<and> (nHeight (h' q) + 1) mod Period ck = 0 \<and> s = deployment_state ck h' (Some q) \<and>
      (s \<noteq> DEFINED \<longrightarrow> cache (key_at ck h' q (periods ck h' q - 1)) \<noteq> None)" if "cache (Some q) = Some s" for q s
  proof -
    have c: "vb_chain ck h N q" "(nHeight (h q) + 1) mod Period ck = 0" "s = deployment_state ck h (Some q)"
      "s \<noteq> DEFINED \<longrightarrow> cache (key_at ck h q (periods ck h q - 1)) \<noteq> None"
      using assms(1) that unfolding cache_ok_def by blast+
    note d = vb_chainD [OF c(1)]
    have "ancestor h q (nHeight (h q)) < N" using c(1) d(6) unfolding vb_chain_def by blast
    then have sd: "same_data ck h h' q" using assms(3) by simp
    have n: "nHeight (h' q) = nHeight (h q)" and p: "periods ck h' q = periods ck h q" using sd by (simp_all add: same_data_def periods_def)
    have "times_rise h' q" using d(2) sd unfolding times_rise_def same_data_def by simp
    then have v: "vb_chain ck h' N' q" using c(1) assms(2) sd n unfolding vb_chain_def same_data_def by fastforce
    have "deployment_state ck h' (Some q) = deployment_state ck h (Some q)"
      using same_data_bip9 [OF sd d(3) period_parent_ok(2) [OF c(1)]] by (simp add: deployment_state_def p)
    moreover have "key_at ck h' q (periods ck h q - 1) = key_at ck h q (periods ck h q - 1)"
    proof (cases "periods ck h q - 1 = 0")
      case False
      have "int (periods ck h q - 1) * Period ck \<le> int (periods ck h q) * Period ck" using d(3) by (intro mult_right_mono) simp_all
      moreover have "1 \<le> int (periods ck h q - 1) * Period ck" using False d(3) by (simp add: int_one_le_iff_zero_less)
      ultimately show ?thesis using sd period_parent_ok(2) [OF c(1)] False by (simp add: key_at_def period_end_def same_data_def)
    qed (simp add: key_at_def)
    ultimately show ?thesis using v c(2-4) n p by simp
  qed
  then show ?thesis using assms(1) unfolding cache_ok_def by blast
qed

lemma same_data_accept:
  assumes "header_inv env hm" "\<And>r. r < bm_fresh (hm_index hm) \<Longrightarrow> status_step (hm_store hm r) (h' r)"
    "\<And>b b'. status_step b b' \<Longrightarrow> Condition ck b' = Condition ck b" "q < bm_fresh (hm_index hm)"
  shows "same_data ck (hm_store hm) h' q"
proof -
  define h where "h = hm_store hm"
  define N where "N = bm_fresh (hm_index hm)"
  define h2 where "h2 = (\<lambda>r. if r < N then h' r else h r)"
  have su: "status_up h h2" using assms(2) by (simp add: status_up_def h2_def h_def N_def)
  have e: "entry_ok h r" if "r < N" for r using assms(1) that by (simp add: header_inv_def index_ok_def h_def N_def)
  have e2: "entry_ok h2 r" if "r < N" for r using e [OF that] status_up_chain(3) [OF su] by simp
  have q: "q < N" using assms(4) by (simp add: N_def)
  have old: "ancestor h r k < N" if "r < N" "0 \<le> k" "k \<le> nHeight (h r)" for r k using ancestor_old [of N h r k] e that by simp
  have a2: "ancestor h2 = ancestor h" "nHeight (h2 q) = nHeight (h q)" using status_up_chain(1) [OF su] status_up_fields(3) [OF su] by simp_all
  have c2: "chain_ok h2 q" using e2 [OF q] by (simp add: entry_ok_def)
  have "h' (ancestor h2 q k) = h2 (ancestor h2 q k)" if "0 \<le> k" "k \<le> nHeight (h2 q)" for k
    using old [OF q, of k] that a2 by (simp add: h2_def)
  from walk_back_cong [OF c2 this] have c: "chain_ok h' q" "\<And>k. 0 \<le> k \<Longrightarrow> k \<le> nHeight (h q) \<Longrightarrow> ancestor h' q k = ancestor h q k"
    using a2 by auto
  have m: "GetMedianTimePast h' r = GetMedianTimePast h r" if "r < N" for r
  proof -
    have "GetMedianTimePast h' r = GetMedianTimePast h2 r"
      by (rule GetMedianTimePast_cong [where n = N]) (use e2 that in \<open>auto simp: h2_def\<close>)
    then show ?thesis using status_up_chain(4) [OF su] by simp
  qed
  have "nHeight (h' q) = nHeight (h q)" using a2(2) q by (simp add: h2_def)
  then show ?thesis using c m old [OF q] assms(2,3) unfolding same_data_def h_def [symmetric] N_def [symmetric] by (simp add: h_def N_def)
qed

definition caches_ok :: "Params \<Rightarrow> HeaderManager \<Rightarrow> VersionBitsCache \<Rightarrow> bool" where
  "caches_ok params hm caches \<longleftrightarrow> (\<forall>pos < MAX_VERSION_BITS_DEPLOYMENTS.
     cache_ok (VersionBitsConditionChecker params pos) (hm_store hm) (bm_fresh (hm_index hm)) (caches pos))"

lemma caches_ok_Clear: "caches_ok params hm (VersionBitsCache_Clear caches)"
  by (simp add: caches_ok_def VersionBitsCache_Clear_def cache_ok_def)

lemma caches_ok_accept:
  assumes "header_inv env hm" "accept_ok env hm (Some (Ok a))" "caches_ok params hm caches"
  shows "caches_ok params (acc_hm a) caches"
  unfolding caches_ok_def
proof (intro allI impI)
  fix pos assume pos: "pos < MAX_VERSION_BITS_DEPLOYMENTS"
  let ?ck = "VersionBitsConditionChecker params pos"
  have c: "Condition ?ck b' = Condition ?ck b" if "status_step b b'" for b b'
    using status_step_version [OF that] by (simp add: VersionBitsConditionChecker_def vb_Condition_def Let_def)
  have "same_data ?ck (hm_store hm) (hm_store (acc_hm a)) q" if "q < bm_fresh (hm_index hm)" for q
    using same_data_accept [OF assms(1) _ c that, of "hm_store (acc_hm a)"] assms(2) by (simp add: accept_ok_def)
  then show "cache_ok ?ck (hm_store (acc_hm a)) (bm_fresh (hm_index (acc_hm a))) (caches pos)"
    using cache_ok_same_data [of ?ck "hm_store hm" "bm_fresh (hm_index hm)" "caches pos"] assms(2,3) pos by (simp add: accept_ok_def caches_ok_def)
qed

text \<open>
  A deployment whose state can be computed up to a height: the threshold is fixed, or the product of the square of the number of
  periods and their length fits in an \<^verbatim>\<open>int\<close>.
\<close>

definition deployment_safe :: "Params \<Rightarrow> nat \<Rightarrow> int \<Rightarrow> bool" where
  "deployment_safe params pos H \<longleftrightarrow>
     (let d = vDeployments params ! pos; period = vb_Period params d
      in 0 < period \<and> nStartTime d \<le> nTimeout d \<and> H < INT_MAX - 1 \<and>
         (nThresholdStart d = 0 \<or> nThresholdMin d = 0 \<or> nFalloffCoeff d = 0 \<or> (H div period) * (H div period) * period \<le> INT_MAX))"

lemma deployment_safe_checker:
  assumes "deployment_safe params pos H"
  shows "checker_ok (VersionBitsConditionChecker params pos) H"
proof -
  define d where "d = vDeployments params ! pos"
  define P where "P = vb_Period params d"
  have s: "0 < P" "nStartTime d \<le> nTimeout d" "H < INT_MAX - 1"
    "nThresholdStart d = 0 \<or> nThresholdMin d = 0 \<or> nFalloffCoeff d = 0 \<or> (H div P) * (H div P) * P \<le> INT_MAX"
    using assms by (simp_all add: deployment_safe_def Let_def d_def P_def)
  have "\<exists>t. vb_Threshold params d n = Ok t" if "0 \<le> n" "n * P \<le> H" for n
  proof (cases "nThresholdStart d = 0 \<or> nThresholdMin d = 0 \<or> nFalloffCoeff d = 0")
    case False
    have "n \<le> H div P" using that(2) s(1) by (simp add: zdiv_mono1 [of "n * P" H P, simplified])
    then have "n * n * P \<le> (H div P) * (H div P) * P" using that(1) s(1) by (intro mult_mono) simp_all
    then have p: "n * n * P \<le> INT_MAX" using s(4) False by simp
    moreover have "n * n * 1 \<le> n * n * P" using s(1) by (intro mult_left_mono) simp_all
    ultimately show ?thesis using False by (simp add: vb_Threshold_def Let_def P_def)
  qed (auto simp: vb_Threshold_def)
  then show ?thesis using s(1-3) by (simp add: checker_ok_def VersionBitsConditionChecker_def Let_def d_def P_def)
qed

text \<open>The block before the next one: none at the start of the chain, or an entry of the index, up to whose height the deployment is safe.\<close>

definition vb_block :: "Params \<Rightarrow> HeaderManager \<Rightarrow> ptr option \<Rightarrow> nat \<Rightarrow> bool" where
  "vb_block params hm pindexPrev pos \<longleftrightarrow>
     (\<forall>p. pindexPrev = Some p \<longrightarrow> p < bm_fresh (hm_index hm) \<and> deployment_safe params pos (nHeight (hm_store hm p)))"

lemma VersionBitsState_ok:
  assumes "header_inv env hm" "caches_ok params hm caches" "vb_block params hm pindexPrev pos" "pos < MAX_VERSION_BITS_DEPLOYMENTS"
  shows "\<exists>caches'. VersionBitsState (hm_store hm) pindexPrev params pos caches =
      Some (Ok (deployment_state (VersionBitsConditionChecker params pos) (hm_store hm) pindexPrev, caches')) \<and> caches_ok params hm caches'"
proof -
  let ?ck = "VersionBitsConditionChecker params pos" and ?N = "bm_fresh (hm_index hm)"
  have c: "cache_ok ?ck (hm_store hm) ?N (caches pos)" using assms(2,4) by (simp add: caches_ok_def)
  have "\<exists>cache'. GetStateFor ?ck (hm_store hm) pindexPrev (caches pos) = Some (Ok (deployment_state ?ck (hm_store hm) pindexPrev, cache')) \<and>
      cache_ok ?ck (hm_store hm) ?N cache'"
  proof (cases pindexPrev)
    case None
    then show ?thesis using GetStateFor_None [OF c] by (simp add: deployment_state_def)
  next
    case (Some p)
    then have "vb_chain ?ck (hm_store hm) ?N p" using header_inv_vb_chain [OF assms(1)] deployment_safe_checker assms(3) by (simp add: vb_block_def)
    then show ?thesis using GetStateFor_ok [OF _ c] Some by simp
  qed
  then obtain cache' where s: "GetStateFor ?ck (hm_store hm) pindexPrev (caches pos) = Some (Ok (deployment_state ?ck (hm_store hm) pindexPrev, cache'))"
    "cache_ok ?ck (hm_store hm) ?N cache'" by blast
  have "caches_ok params hm (caches(pos := cache'))" using assms(2) s(2) unfolding caches_ok_def by auto
  then show ?thesis using s(1) by (simp add: VersionBitsState_def with_cache_def)
qed

definition signalled :: "Params \<Rightarrow> HeaderManager \<Rightarrow> ptr option \<Rightarrow> nat \<Rightarrow> bool" where
  "signalled params hm pindexPrev pos \<longleftrightarrow>
     deployment_state (VersionBitsConditionChecker params pos) (hm_store hm) pindexPrev \<in> {LOCKED_IN, STARTED}"

lemma version_bits_ok:
  assumes "header_inv env hm" "caches_ok params hm caches" "\<forall>i \<in> set is. i < MAX_VERSION_BITS_DEPLOYMENTS \<and> vb_block params hm pindexPrev i"
  shows "\<exists>v caches'. version_bits (hm_store hm) pindexPrev params is ver caches = Some (Ok (v, caches')) \<and> caches_ok params hm caches' \<and>
    (\<forall>n. bit v n \<longleftrightarrow> bit ver n \<or> (\<exists>i \<in> set is. signalled params hm pindexPrev i \<and> bit (VersionBitsMask params i) n))"
  using assms(2,3)
proof (induction "is" arbitrary: ver caches)
  case (Cons i "is")
  obtain caches1 where c: "VersionBitsState (hm_store hm) pindexPrev params i caches =
      Some (Ok (deployment_state (VersionBitsConditionChecker params i) (hm_store hm) pindexPrev, caches1))" "caches_ok params hm caches1"
    using VersionBitsState_ok [OF assms(1) Cons.prems(1), of pindexPrev i] Cons.prems(2) by auto
  define ver1 where "ver1 = (if signalled params hm pindexPrev i then ver OR VersionBitsMask params i else ver)"
  obtain v caches' where v: "version_bits (hm_store hm) pindexPrev params is ver1 caches1 = Some (Ok (v, caches'))" "caches_ok params hm caches'"
    "\<forall>n. bit v n \<longleftrightarrow> bit ver1 n \<or> (\<exists>i \<in> set is. signalled params hm pindexPrev i \<and> bit (VersionBitsMask params i) n)"
    using Cons.IH [OF c(2), of ver1] Cons.prems(2) by auto
  have "version_bits (hm_store hm) pindexPrev params (i # is) ver caches = Some (Ok (v, caches'))"
    using c(1) v(1) by (simp add: ver1_def signalled_def)
  moreover have "bit ver1 n \<longleftrightarrow> bit ver n \<or> signalled params hm pindexPrev i \<and> bit (VersionBitsMask params i) n" for n
    by (simp add: ver1_def bit_or_iff)
  ultimately show ?case using v(2,3) by auto
qed simp

section \<open>The deployments of the main network\<close>

lemma to_int_small: "0 \<le> x \<Longrightarrow> x \<le> INT_MAX \<Longrightarrow> to_int x = x"
  unfolding to_int_def by (rule sint_u32_small) simp_all

lemma mainnet_deployments:
  "map (\<lambda>d. (nStartTime d, nTimeout d, vb_Period mainnet_params d, nThresholdStart d, nThresholdMin d, nFalloffCoeff d)) (vDeployments mainnet_params) =
    [(1199145601, 1230767999, 3, 0, 0, 0), (0, 999999999999, 3, 0, 0, 0)] @ replicate 4 (0, 999999999999, 4032, 3226, 0, 0) @
    [(0, 999999999999, 4032, 3226, 2420, 5)] @ replicate 2 (999999999999, 999999999999, 4032, 3226, 2420, 5)"
  by (simp add: mainnet_params_def deployment_def vb_Period_def to_int_small numeral_eq_Suc)

lemma falloff_threshold:
  assumes "vb_Period mainnet_params d = 4032" "nThresholdStart d = 3226" "nThresholdMin d = 2420" "nFalloffCoeff d = 5" "0 \<le> n"
  shows "vb_Threshold mainnet_params d n = (if n < 730 then Ok (max 2420 (3226 - n * n * 4032 div 500)) else Abort)"
proof (cases "n < 730")
  case True
  then have "n * n \<le> 729 * 729" using assms(5) by (intro mult_mono) simp_all
  moreover have "0 \<le> n * n" using assms(5) by simp
  moreover have "n * n * 4032 sdiv 100 sdiv 5 = n * n * 4032 div 500"
  proof -
    have z: "0 \<le> n * n * 4032" using \<open>0 \<le> n * n\<close> by simp
    then have "0 \<le> n * n * 4032 div 100" unfolding pos_imp_zdiv_nonneg_iff [of 100, simplified] .
    then have "n * n * 4032 sdiv 100 sdiv 5 = n * n * 4032 div 100 div 5" using z by (simp only: int_sdiv_pos(1) zero_less_numeral)
    then show ?thesis using zdiv_zmult2_eq [of 5 "n * n * 4032" 100] by simp
  qed
  moreover have "0 \<le> n * n * 4032 div 500" by (rule pos_imp_zdiv_nonneg_iff [THEN iffD2]) (use \<open>0 \<le> n * n\<close> in simp_all)
  ultimately show ?thesis using True assms by (simp add: vb_Threshold_def Let_def to_int_small)
next
  case False
  then have "730 * 730 \<le> n * n" by (intro mult_mono) simp_all
  then show ?thesis using False assms by (simp add: vb_Threshold_def Let_def)
qed

text \<open>The first six deployments of the main network are safe at every height, the others below height 2943360.\<close>

lemma mainnet_deployment_safe:
  assumes "0 \<le> H" "H < (if pos < 6 then INT_MAX - 1 else 730 * 4032)" "pos < MAX_VERSION_BITS_DEPLOYMENTS"
  shows "deployment_safe mainnet_params pos H"
proof -
  define d where "d = vDeployments mainnet_params ! pos"
  have l: "length (vDeployments mainnet_params) = 9" by (simp add: mainnet_params_def)
  have p9: "pos \<in> {0, 1, 2, 3, 4, 5, 6, 7, 8}" using assms(3) by auto
  have "(nStartTime d, nTimeout d, vb_Period mainnet_params d, nThresholdStart d, nThresholdMin d, nFalloffCoeff d) =
      ([(1199145601, 1230767999, 3, 0, 0, 0), (0, 999999999999, 3, 0, 0, 0)] @ replicate 4 (0, 999999999999, 4032, 3226, 0, 0) @
      [(0, 999999999999, 4032, 3226, 2420, 5)] @ replicate 2 (999999999999, 999999999999, 4032, 3226, 2420, 5)) ! pos"
    using nth_map [of pos "vDeployments mainnet_params" "\<lambda>d. (nStartTime d, nTimeout d, vb_Period mainnet_params d, nThresholdStart d, nThresholdMin d, nFalloffCoeff d)"]
      assms(3) l unfolding d_def mainnet_deployments by simp
  then have v: "0 < vb_Period mainnet_params d" "nStartTime d \<le> nTimeout d" "nThresholdMin d = 0 \<or> 6 \<le> pos \<and> vb_Period mainnet_params d = 4032"
    using p9 by (auto simp: numeral_eq_Suc)
  have "(H div 4032) * (H div 4032) \<le> 729 * 729" if "H < 730 * 4032"
    using that assms(1) pos_imp_zdiv_nonneg_iff [of 4032 H] by (intro mult_mono) auto
  then show ?thesis
    using v assms(2) unfolding deployment_safe_def Let_def d_def [symmetric] by (cases "pos < 6") auto
qed

section \<open>Properties\<close>

text \<open>
  C22. Version bits with a cache are version bits without one: on every block of a reachable header chain up to whose height
  the deployment's threshold is computed without an overflow of \<^verbatim>\<open>int\<close>, and
  from whatever valid caches earlier calls have left, \<^verbatim>\<open>VersionBitsState\<close> ends without a failed assertion
  with the state that the rules of the deployment assign to the chain of the block, period
  by period from the genesis block; the caches it leaves are valid again, those of a cleared cache
  are, and they stay valid when more headers are accepted.  There is no overflow when the threshold is fixed, as for the
  first six deployments of the main network, or as long as the square of the number of periods times their length is below
  two to the 31st, for the other three of the main network below height 2943360.
\<close>

theorem version_bits_cache_exact:
  assumes "env_ok env" "header_reachable env hm" "caches_ok params hm caches" "vb_block params hm pindexPrev pos" "pos < MAX_VERSION_BITS_DEPLOYMENTS"
  shows "\<exists>caches'. VersionBitsState (hm_store hm) pindexPrev params pos caches =
      Some (Ok (deployment_state (VersionBitsConditionChecker params pos) (hm_store hm) pindexPrev, caches')) \<and>
    caches_ok params hm caches' \<and> caches_ok params hm (VersionBitsCache_Clear caches) \<and>
    (\<forall>block t locks ce state a. header_typed block \<and> AcceptBlockHeader (at_moment env t locks ce) block state hm = Some (Ok a) \<longrightarrow>
      caches_ok params (acc_hm a) caches')"
proof -
  note inv = header_reachable_inv [OF assms(2,1)]
  obtain caches' where c: "VersionBitsState (hm_store hm) pindexPrev params pos caches =
      Some (Ok (deployment_state (VersionBitsConditionChecker params pos) (hm_store hm) pindexPrev, caches'))" "caches_ok params hm caches'"
    using VersionBitsState_ok [OF inv assms(3-5)] by blast
  have "caches_ok params (acc_hm a) caches'" if "header_typed block" "AcceptBlockHeader (at_moment env t locks ce) block state hm = Some (Ok a)"
    for block t locks ce state a
  proof -
    have "accept_ok env hm (Some (Ok a))"
      using AcceptBlockHeader_ok [of "at_moment env t locks ce" hm block state] inv assms(1) that by (simp add: accept_ok_def)
    then show ?thesis by (rule caches_ok_accept [OF inv _ c(2)])
  qed
  then show ?thesis using c caches_ok_Clear by blast
qed

lemma example_vb_block: "pos < MAX_VERSION_BITS_DEPLOYMENTS \<Longrightarrow> vb_block mainnet_params example_state (Some 0) pos"
proof -
  have "0 < bm_fresh (hm_index example_state)"
    using header_reachable_inv [OF example_state_facts(1) example_env_ok] example_state_facts(2) by (auto simp: header_inv_def index_ok_def)
  then show "pos < MAX_VERSION_BITS_DEPLOYMENTS \<Longrightarrow> ?thesis" using example_state_facts(6) mainnet_deployment_safe [of 0] by (simp add: vb_block_def)
qed

theorem version_bits_cache_exact_witness:
  "\<exists>caches'. VersionBitsState (hm_store example_state) (Some 0) mainnet_params 1 (\<lambda>_. Map.empty) = Some (Ok (DEFINED, caches'))"
proof -
  have c: "caches_ok mainnet_params example_state (\<lambda>_. Map.empty)" by (simp add: caches_ok_def cache_ok_def)
  have "deployment_state (VersionBitsConditionChecker mainnet_params 1) (hm_store example_state) (Some 0) = DEFINED"
    using example_state_facts(6) by (simp add: deployment_state_def periods_def VersionBitsConditionChecker_def vb_Period_def to_int_def
        mainnet_params_def deployment_def Let_def)
  then show ?thesis
    using version_bits_cache_exact [OF example_env_ok example_state_facts(1) c example_vb_block [of 1]] by auto
qed

text \<open>
  The version of a new block: before the Autolykos fork \<^verbatim>\<open>ComputeBlockVersion\<close> sets, besides the top
  bit, exactly the bits of the deployments that are started or locked in; from the fork on it is the
  fixed version of the fork, whatever the deployments are.
\<close>

theorem ComputeBlockVersion_exact:
  assumes "env_ok env" "header_reachable env hm" "caches_ok params hm caches" "\<forall>pos < MAX_VERSION_BITS_DEPLOYMENTS. vb_block params hm pindexPrev pos"
  shows "\<exists>v caches'. ComputeBlockVersion (hm_store hm) pindexPrev params caches = Some (Ok (v, caches')) \<and> caches_ok params hm caches' \<and>
    (if (\<exists>p. pindexPrev = Some p \<and> AutolykosForkHeight params \<le> nHeight (hm_store hm p)) then v = word_of_int (AutolykosForkSwitchVersion params)
     else \<forall>n. bit v n \<longleftrightarrow> n = 29 \<or>
       (\<exists>pos < MAX_VERSION_BITS_DEPLOYMENTS. signalled params hm pindexPrev pos \<and> n = dep_bit (vDeployments params ! pos) \<and> n < 32))"
proof (cases "\<exists>p. pindexPrev = Some p \<and> AutolykosForkHeight params \<le> nHeight (hm_store hm p)")
  case True
  then show ?thesis using assms(3) by (auto simp: ComputeBlockVersion_def)
next
  case False
  obtain v caches' where v: "version_bits (hm_store hm) pindexPrev params [0..<MAX_VERSION_BITS_DEPLOYMENTS] VERSIONBITS_TOP_BITS caches = Some (Ok (v, caches'))"
    "caches_ok params hm caches'"
    "\<forall>n. bit v n \<longleftrightarrow> bit VERSIONBITS_TOP_BITS n \<or> (\<exists>i \<in> {0..<MAX_VERSION_BITS_DEPLOYMENTS}. signalled params hm pindexPrev i \<and> bit (VersionBitsMask params i) n)"
    using version_bits_ok [OF header_reachable_inv [OF assms(2,1)] assms(3), of "[0..<MAX_VERSION_BITS_DEPLOYMENTS]" pindexPrev VERSIONBITS_TOP_BITS] assms(4) by auto
  have "(0x20000000 :: u32) = push_bit 29 1" by (simp add: push_bit_eq_mult)
  then have top: "bit (0x20000000 :: u32) n \<longleftrightarrow> n = 29" for n by (simp only: bit_push_bit_iff) (auto simp: bit_1_iff)
  have mask: "bit (VersionBitsMask params i) n \<longleftrightarrow> n = dep_bit (vDeployments params ! i) \<and> n < 32" for i n
    by (auto simp: VersionBitsMask_def vb_Mask_def bit_exp_iff)
  have "ComputeBlockVersion (hm_store hm) pindexPrev params caches = Some (Ok (v, caches'))"
    using v(1) False by (auto simp: ComputeBlockVersion_def not_le split: option.splits)
  then show ?thesis using v(2,3) False unfolding top mask by (auto simp: Bex_def)
qed

theorem ComputeBlockVersion_exact_witness:
  "\<exists>v caches'. ComputeBlockVersion (hm_store example_state) (Some 0) mainnet_params (\<lambda>_. Map.empty) = Some (Ok (v, caches')) \<and> bit v 29"
proof -
  have c: "caches_ok mainnet_params example_state (\<lambda>_. Map.empty)" by (simp add: caches_ok_def cache_ok_def)
  have "\<not> AutolykosForkHeight mainnet_params \<le> nHeight (hm_store example_state 0)" using example_state_facts(6) by (simp add: mainnet_params_def)
  then show ?thesis
    using ComputeBlockVersion_exact [OF example_env_ok example_state_facts(1) c, of "Some 0"] example_vb_block by auto
qed

text \<open>
  The threshold of the reallocation deployment of the main network, which falls with the number of
  attempts, is computed in \<^verbatim>\<open>int\<close>: the product of the square of the attempts and the period
  overflows from attempt 730 on, which is at height 2951423 when the deployment is neither locked in nor expired
  by then.
\<close>

theorem threshold_overflow:
  assumes "0 \<le> n"
  shows "Threshold (VersionBitsConditionChecker mainnet_params 6) n = (if n < 730 then Ok (max 2420 (3226 - n * n * 4032 div 500)) else Abort)"
proof -
  define d where "d = vDeployments mainnet_params ! 6"
  have "(nStartTime d, nTimeout d, vb_Period mainnet_params d, nThresholdStart d, nThresholdMin d, nFalloffCoeff d) =
      (0, 999999999999, 4032, 3226, 2420, 5)"
    using nth_map [of 6 "vDeployments mainnet_params" "\<lambda>d. (nStartTime d, nTimeout d, vb_Period mainnet_params d, nThresholdStart d, nThresholdMin d, nFalloffCoeff d)"]
    unfolding d_def mainnet_deployments by (simp add: mainnet_params_def numeral_eq_Suc)
  then show ?thesis using falloff_threshold [of d n] assms by (simp add: VersionBitsConditionChecker_def Let_def d_def)
qed

end
