(* ===== verification/Merkle.thy ===== *)
theory Merkle
  imports Block Bitsets Script_Safety Tx_Check
begin

unbundle bit_operations_syntax

text \<open>
  Merkle roots and partial Merkle trees (src/src/consensus/merkle.cpp, src/src/merkleblock.cpp and
  src/src/merkleblock.h): the root of a block with the detection of duplicated nodes, the tree that a node sends to prove
  that some transactions are in a block, its traversal on both sides, its bit packing and wire format, and the merkle
  block around it.  The double SHA-256 hash, the id of a transaction and the bloom filter are parameters.
  The lemmas describe the tree by its nodes (\<^verbatim>\<open>node\<close>) and its levels; the properties show that the root binds the
  transactions, that an accepted partial tree proves what it lists, and that what a node sends is read back exactly.
\<close>

section \<open>Merkle roots\<close>

text \<open>
  The double SHA-256 hash is a parameter; \<^verbatim>\<open>SHA256D64\<close> applies it to consecutive blocks of 64 bytes.
\<close>

definition has_twins :: "uint256 list \<Rightarrow> bool" where
  "has_twins hashes = list_ex (\<lambda>i. hashes ! (2 * i) = hashes ! (2 * i + 1)) [0..<length hashes div 2]"

definition merkle_level :: "(bytes \<Rightarrow> uint256) \<Rightarrow> uint256 list \<Rightarrow> uint256 list" where
  "merkle_level Hash hashes =
     (let hashes = (if odd (length hashes) then hashes @ [last hashes] else hashes)
      in map (\<lambda>i. Hash (hashes ! (2 * i) @ hashes ! (2 * i + 1))) [0..<length hashes div 2])"

lemma length_merkle_level [simp]: "length (merkle_level Hash hashes) = (length hashes + 1) div 2"
  by (auto simp: merkle_level_def Let_def)

function merkle_loop :: "(bytes \<Rightarrow> uint256) \<Rightarrow> uint256 list \<Rightarrow> bool \<Rightarrow> uint256 list \<times> bool" where
  "merkle_loop Hash hashes mutation =
     (if length hashes > 1 then merkle_loop Hash (merkle_level Hash hashes) (mutation \<or> has_twins hashes)
      else (hashes, mutation))"
  by pat_completeness auto
termination by (relation "measure (\<lambda>(_, hashes, _). length hashes)") auto

declare merkle_loop.simps [simp del]

definition ComputeMerkleRoot :: "(bytes \<Rightarrow> uint256) \<Rightarrow> uint256 list \<Rightarrow> uint256 \<times> bool" where
  "ComputeMerkleRoot Hash hashes =
     (let (hashes, mutation) = merkle_loop Hash hashes False
      in (if length hashes = 0 then uint256_null else hashes ! 0, mutation))"

definition BlockMerkleRoot :: "(bytes \<Rightarrow> uint256) \<Rightarrow> (CTransaction \<Rightarrow> uint256) \<Rightarrow> CBlock \<Rightarrow> uint256 \<times> bool" where
  "BlockMerkleRoot Hash tx_GetHash block = ComputeMerkleRoot Hash (map tx_GetHash (vtx block))"

section \<open>Partial merkle trees\<close>

record CPartialMerkleTree =
  nTransactions :: nat
  vBits :: "bool list"
  vHash :: "uint256 list"
  fBad :: bool

definition CalcTreeWidth :: "nat \<Rightarrow> nat \<Rightarrow> nat" where
  "CalcTreeWidth n height = (n + 2 ^ height - 1) div 2 ^ height"

primrec CalcHash :: "(bytes \<Rightarrow> uint256) \<Rightarrow> nat \<Rightarrow> nat \<Rightarrow> nat \<Rightarrow> uint256 list \<Rightarrow> uint256 outcome" where
  "CalcHash Hash n 0 pos vTxid = (if length vTxid = 0 \<or> \<not> pos < length vTxid then Abort else Ok (vTxid ! pos))"
| "CalcHash Hash n (Suc height) pos vTxid =
     (if length vTxid = 0 then Abort
      else obind (CalcHash Hash n height (pos * 2) vTxid) (\<lambda>left.
           obind (if pos * 2 + 1 < CalcTreeWidth n height then CalcHash Hash n height (pos * 2 + 1) vTxid else Ok left) (\<lambda>right.
             Ok (Hash (left @ right)))))"

text \<open>The bits and the hashes that a traversal stores, in order.\<close>

definition ParentOfMatch :: "nat \<Rightarrow> nat \<Rightarrow> nat \<Rightarrow> bool list \<Rightarrow> bool outcome" where
  "ParentOfMatch n height pos vMatch =
     (let ps = [pos * 2 ^ height..<min ((pos + 1) * 2 ^ height) n]
      in if list_ex (\<lambda>p. \<not> p < length vMatch) ps then Abort else Ok (list_ex (\<lambda>p. vMatch ! p) ps))"

primrec TraverseAndBuild :: "(bytes \<Rightarrow> uint256) \<Rightarrow> nat \<Rightarrow> nat \<Rightarrow> nat \<Rightarrow> uint256 list \<Rightarrow> bool list \<Rightarrow> (bool list \<times> uint256 list) outcome" where
  "TraverseAndBuild Hash n 0 pos vTxid vMatch =
     obind (ParentOfMatch n 0 pos vMatch) (\<lambda>fParentOfMatch.
     obind (CalcHash Hash n 0 pos vTxid) (\<lambda>hash. Ok ([fParentOfMatch], [hash])))"
| "TraverseAndBuild Hash n (Suc height) pos vTxid vMatch =
     obind (ParentOfMatch n (Suc height) pos vMatch) (\<lambda>fParentOfMatch.
       if \<not> fParentOfMatch
       then obind (CalcHash Hash n (Suc height) pos vTxid) (\<lambda>hash. Ok ([fParentOfMatch], [hash]))
       else obind (TraverseAndBuild Hash n height (pos * 2) vTxid vMatch) (\<lambda>(lb, lh).
            obind (if pos * 2 + 1 < CalcTreeWidth n height then TraverseAndBuild Hash n height (pos * 2 + 1) vTxid vMatch else Ok ([], [])) (\<lambda>(rb, rh).
              Ok ([fParentOfMatch] @ lb @ rb, lh @ rh))))"

lemma CalcTreeWidth_0 [simp]: "CalcTreeWidth n 0 = n"
  by (simp add: CalcTreeWidth_def)

lemma CalcTreeWidth_Suc: "CalcTreeWidth n (Suc h) = (CalcTreeWidth n h + 1) div 2"
proof -
  have "(n + 2 ^ h - 1 + 2 ^ h) div 2 ^ h = CalcTreeWidth n h + 1" unfolding CalcTreeWidth_def by (rule div_add_self2) simp
  moreover have "n + 2 ^ h - 1 + 2 ^ h = n + 2 ^ Suc h - 1" by simp
  ultimately have "(n + 2 ^ Suc h - 1) div 2 ^ h = CalcTreeWidth n h + 1" by simp
  moreover have "(n + 2 ^ Suc h - 1) div 2 ^ Suc h = (n + 2 ^ Suc h - 1) div 2 ^ h div 2" by (simp only: power_Suc2 div_mult2_eq)
  ultimately show ?thesis by (simp only: CalcTreeWidth_def [of n "Suc h"])
qed

function tree_height :: "nat \<Rightarrow> nat \<Rightarrow> nat" where
  "tree_height n height = (if CalcTreeWidth n height > 1 then tree_height n (height + 1) else height)"
  by pat_completeness auto
termination by (relation "measure (\<lambda>(n, h). CalcTreeWidth n h)") (auto simp: CalcTreeWidth_Suc)

declare tree_height.simps [simp del]

definition CPartialMerkleTree_of :: "(bytes \<Rightarrow> uint256) \<Rightarrow> uint256 list \<Rightarrow> bool list \<Rightarrow> CPartialMerkleTree outcome" where
  "CPartialMerkleTree_of Hash vTxid vMatch =
     (let n = length vTxid
      in obind (TraverseAndBuild Hash n (tree_height n 0) 0 vTxid vMatch) (\<lambda>(bits, hashes).
           Ok \<lparr>nTransactions = n, vBits = bits, vHash = hashes, fBad = False\<rparr>))"

text \<open>The variables that an extraction changes.\<close>

record extraction =
  nBitsUsed :: nat
  nHashUsed :: nat
  xMatch :: "uint256 list"
  vnIndex :: "nat list"
  xBad :: bool

definition use_hash :: "CPartialMerkleTree \<Rightarrow> bool \<Rightarrow> nat \<Rightarrow> extraction \<Rightarrow> uint256 \<times> extraction" where
  "use_hash t matched pos st =
     (if nHashUsed st \<ge> length (vHash t) then (uint256_null, st\<lparr>xBad := True\<rparr>)
      else let hash = vHash t ! nHashUsed st; st = st\<lparr>nHashUsed := nHashUsed st + 1\<rparr>
           in (hash, if matched then st\<lparr>xMatch := xMatch st @ [hash], vnIndex := vnIndex st @ [pos]\<rparr> else st))"

primrec TraverseAndExtract :: "(bytes \<Rightarrow> uint256) \<Rightarrow> CPartialMerkleTree \<Rightarrow> nat \<Rightarrow> nat \<Rightarrow> extraction \<Rightarrow> uint256 \<times> extraction" where
  "TraverseAndExtract Hash t 0 pos st =
     (if nBitsUsed st \<ge> length (vBits t) then (uint256_null, st\<lparr>xBad := True\<rparr>)
      else let fParentOfMatch = vBits t ! nBitsUsed st; st = st\<lparr>nBitsUsed := nBitsUsed st + 1\<rparr>
           in use_hash t fParentOfMatch pos st)"
| "TraverseAndExtract Hash t (Suc height) pos st =
     (if nBitsUsed st \<ge> length (vBits t) then (uint256_null, st\<lparr>xBad := True\<rparr>)
      else let fParentOfMatch = vBits t ! nBitsUsed st; st = st\<lparr>nBitsUsed := nBitsUsed st + 1\<rparr>
           in if \<not> fParentOfMatch then use_hash t False pos st
              else let (left, st) = TraverseAndExtract Hash t height (pos * 2) st;
                       (right, st) = (if pos * 2 + 1 < CalcTreeWidth (nTransactions t) height
                         then let (right, st) = TraverseAndExtract Hash t height (pos * 2 + 1) st
                              in (right, if right = left then st\<lparr>xBad := True\<rparr> else st)
                         else (left, st))
                   in (Hash (left @ right), st))"

definition ExtractMatches :: "(bytes \<Rightarrow> uint256) \<Rightarrow> CPartialMerkleTree \<Rightarrow> nat list \<Rightarrow> uint256 \<times> uint256 list \<times> nat list \<times> CPartialMerkleTree" where
  "ExtractMatches Hash t vnIndex0 =
     (if nTransactions t = 0 \<or> nTransactions t > MaxBlockSize True div 60 \<or> length (vHash t) > nTransactions t \<or>
         length (vBits t) < length (vHash t) then (uint256_null, [], vnIndex0, t)
      else let (hashMerkleRoot, st) = TraverseAndExtract Hash t (tree_height (nTransactions t) 0) 0
                 \<lparr>nBitsUsed = 0, nHashUsed = 0, xMatch = [], vnIndex = vnIndex0, xBad = fBad t\<rparr>;
               r = (if xBad st \<or> (nBitsUsed st + 7) div 8 \<noteq> (length (vBits t) + 7) div 8 \<or> nHashUsed st \<noteq> length (vHash t)
                    then uint256_null else hashMerkleRoot)
           in (r, xMatch st, vnIndex st, t\<lparr>fBad := xBad st\<rparr>))"
section \<open>Nodes of the tree\<close>

text \<open>The hash of a node, without the failures that \<^verbatim>\<open>CalcHash\<close> guards against.\<close>

primrec node :: "(bytes \<Rightarrow> uint256) \<Rightarrow> uint256 list \<Rightarrow> nat \<Rightarrow> nat \<Rightarrow> uint256" where
  "node Hash xs 0 pos = xs ! pos"
| "node Hash xs (Suc h) pos =
     Hash (node Hash xs h (pos * 2) @ node Hash xs h (if pos * 2 + 1 < CalcTreeWidth (length xs) h then pos * 2 + 1 else pos * 2))"

definition level :: "(bytes \<Rightarrow> uint256) \<Rightarrow> uint256 list \<Rightarrow> nat \<Rightarrow> uint256 list" where
  "level Hash xs h = map (node Hash xs h) [0..<CalcTreeWidth (length xs) h]"

definition levels :: "uint256 list \<Rightarrow> nat" where "levels xs = tree_height (length xs) 0"

lemma length_level [simp]: "length (level Hash xs h) = CalcTreeWidth (length xs) h"
  by (simp add: level_def)

lemma level_0 [simp]: "level Hash xs 0 = xs"
  by (rule nth_equalityI) (simp_all add: level_def)

lemma width_pos: "0 < n \<Longrightarrow> 0 < CalcTreeWidth n h"
  by (induction h) (simp_all add: CalcTreeWidth_Suc)

lemma child_bound:
  assumes "pos < CalcTreeWidth n (Suc h)"
  shows "pos * 2 < CalcTreeWidth n h"
  using assms by (simp add: CalcTreeWidth_Suc)

lemma CalcHash_node:
  assumes "xs \<noteq> []" "pos < CalcTreeWidth (length xs) h"
  shows "CalcHash Hash (length xs) h pos xs = Ok (node Hash xs h pos)"
  using assms(2)
proof (induction h arbitrary: pos)
  case (Suc h)
  then show ?case using assms(1) child_bound [OF Suc.prems] by simp
qed (use assms(1) in simp)

lemma pad_nth:
  assumes "i < length xs div 2 + (if odd (length xs) then 1 else 0)"
  shows "(if odd (length xs) then xs @ [last xs] else xs) ! (2 * i) = xs ! (2 * i)"
    "(if odd (length xs) then xs @ [last xs] else xs) ! (2 * i + 1) = xs ! (if 2 * i + 1 < length xs then 2 * i + 1 else 2 * i)"
proof -
  have "2 * i < length xs" using assms by (auto split: if_splits elim!: oddE)
  moreover have "xs \<noteq> []" using calculation by auto
  moreover have "2 * i = length xs - 1" if "\<not> 2 * i + 1 < length xs" using that calculation by simp
  moreover have "odd (length xs)" if "\<not> 2 * i + 1 < length xs"
  proof -
    have "length xs = 2 * i + 1" using that calculation(1) by simp
    then show ?thesis by simp
  qed
  ultimately show "(if odd (length xs) then xs @ [last xs] else xs) ! (2 * i) = xs ! (2 * i)"
    "(if odd (length xs) then xs @ [last xs] else xs) ! (2 * i + 1) = xs ! (if 2 * i + 1 < length xs then 2 * i + 1 else 2 * i)"
    by (auto simp: nth_append last_conv_nth)
qed

lemma merkle_level_nth:
  "merkle_level Hash xs = map (\<lambda>i. Hash (xs ! (2 * i) @ xs ! (if 2 * i + 1 < length xs then 2 * i + 1 else 2 * i))) [0..<(length xs + 1) div 2]"
proof (rule nth_equalityI)
  fix i assume i: "i < length (merkle_level Hash xs)"
  define ys where "ys = (if odd (length xs) then xs @ [last xs] else xs)"
  have d: "(length xs + 1) div 2 = length xs div 2 + (if odd (length xs) then 1 else 0)" by auto
  have l: "length ys div 2 = (length xs + 1) div 2" by (simp add: ys_def)
  have "merkle_level Hash xs ! i = Hash (ys ! (2 * i) @ ys ! (2 * i + 1))"
    using i l unfolding merkle_level_def Let_def ys_def [symmetric] by simp
  moreover have "i < length xs div 2 + (if odd (length xs) then 1 else 0)" using i d by simp
  ultimately show "merkle_level Hash xs ! i =
      map (\<lambda>i. Hash (xs ! (2 * i) @ xs ! (if 2 * i + 1 < length xs then 2 * i + 1 else 2 * i))) [0..<(length xs + 1) div 2] ! i"
    using pad_nth [of i xs, folded ys_def] i by simp
qed simp

lemma level_Suc: "level Hash xs (Suc h) = merkle_level Hash (level Hash xs h)"
proof (rule nth_equalityI)
  fix i assume "i < length (level Hash xs (Suc h))"
  then have i: "i < CalcTreeWidth (length xs) (Suc h)" by simp
  note c = child_bound [OF i]
  then show "level Hash xs (Suc h) ! i = merkle_level Hash (level Hash xs h) ! i"
    using i by (simp add: merkle_level_nth level_def CalcTreeWidth_Suc mult.commute)
qed (simp add: CalcTreeWidth_Suc)

lemma tree_height_width:
  assumes "h \<le> tree_height n 0" "0 < n"
  shows "1 < CalcTreeWidth n h \<longleftrightarrow> h < tree_height n 0"
proof -
  have th: "tree_height n (h + d) = tree_height n h" if "\<forall>i. h \<le> i \<and> i < h + d \<longrightarrow> 1 < CalcTreeWidth n i" for h d
    using that
  proof (induction d)
    case (Suc d)
    then have "tree_height n (h + d) = tree_height n (h + d + 1)" by (subst tree_height.simps) simp
    then show ?case using Suc by simp
  qed simp
  have anti: "CalcTreeWidth n j \<le> CalcTreeWidth n i" if "i \<le> j" for i j
    using that by (induction j) (auto simp: CalcTreeWidth_Suc le_Suc_eq)
  have low: "1 < CalcTreeWidth n i" if "i < tree_height n 0" for i
  proof (rule ccontr)
    assume "\<not> 1 < CalcTreeWidth n i"
    then obtain j where j: "\<not> 1 < CalcTreeWidth n j" "\<forall>k < j. 1 < CalcTreeWidth n k" using exists_least_iff [of "\<lambda>i. \<not> 1 < CalcTreeWidth n i"] by blast
    then have "tree_height n 0 = tree_height n j" using th [of 0 j] by simp
    also have "\<dots> = j" using j(1) by (subst tree_height.simps) simp
    finally have "i < j" using that by simp
    then show False using j(2) \<open>\<not> 1 < CalcTreeWidth n i\<close> by simp
  qed
  have "tree_height n (tree_height n 0) = tree_height n 0" using th [of 0 "tree_height n 0"] low by simp
  moreover have "k \<le> tree_height n k" for k
    by (induction n k rule: tree_height.induct) (subst tree_height.simps, auto)
  ultimately have "\<not> 1 < CalcTreeWidth n (tree_height n 0)"
    by (metis Suc_eq_plus1 not_less_eq_eq tree_height.simps)
  then show ?thesis using low assms(1) by (metis le_neq_implies_less nat_less_le)
qed

section \<open>The root binds the transactions\<close>

lemma merkle_loop_level:
  assumes "xs \<noteq> []" "h \<le> levels xs"
  shows "merkle_loop Hash (level Hash xs h) m =
    (level Hash xs (levels xs), m \<or> (\<exists>i. h \<le> i \<and> i < levels xs \<and> has_twins (level Hash xs i)))"
  using assms(2)
proof (induction "levels xs - h" arbitrary: h m)
  case 0
  then have "h = levels xs" by simp
  moreover have "\<not> 1 < CalcTreeWidth (length xs) h" using tree_height_width [of h "length xs"] 0 assms(1) by (simp add: levels_def)
  ultimately show ?case by (subst merkle_loop.simps) auto
next
  case (Suc d)
  then have "1 < CalcTreeWidth (length xs) h" using tree_height_width [of h "length xs"] assms(1) by (simp add: levels_def)
  then have "merkle_loop Hash (level Hash xs h) m = merkle_loop Hash (level Hash xs (Suc h)) (m \<or> has_twins (level Hash xs h))"
    by (subst merkle_loop.simps) (simp add: level_Suc)
  also have "\<dots> = (level Hash xs (levels xs), (m \<or> has_twins (level Hash xs h)) \<or> (\<exists>i. Suc h \<le> i \<and> i < levels xs \<and> has_twins (level Hash xs i)))"
    by (rule Suc.hyps(1)) (use Suc.hyps(2) in simp_all)
  also have "((m \<or> has_twins (level Hash xs h)) \<or> (\<exists>i. Suc h \<le> i \<and> i < levels xs \<and> has_twins (level Hash xs i))) \<longleftrightarrow>
      m \<or> (\<exists>i. h \<le> i \<and> i < levels xs \<and> has_twins (level Hash xs i))"
    using Suc.hyps(2) by (metis Suc_leD Suc_leI diff_is_0_eq le_neq_implies_less nat_le_linear nat.distinct(1) order_refl)
  finally show ?case .
qed

lemma top_level:
  assumes "xs \<noteq> []"
  shows "level Hash xs (levels xs) = [node Hash xs (levels xs) 0]"
proof -
  have "CalcTreeWidth (length xs) (levels xs) = 1"
    using tree_height_width [of "levels xs" "length xs"] width_pos [of "length xs" "levels xs"] assms by (auto simp: levels_def)
  then show ?thesis by (simp add: level_def)
qed

lemma ComputeMerkleRoot_node:
  assumes "xs \<noteq> []"
  shows "ComputeMerkleRoot Hash xs = (node Hash xs (levels xs) 0, \<exists>i < levels xs. has_twins (level Hash xs i))"
  using merkle_loop_level [OF assms, of 0 Hash False] top_level [OF assms] by (simp add: ComputeMerkleRoot_def)

lemma has_twins_iff: "has_twins A \<longleftrightarrow> (\<exists>i. 2 * i + 1 < length A \<and> A ! (2 * i) = A ! (2 * i + 1))"
proof -
  have "i < length A div 2 \<longleftrightarrow> 2 * i + 1 < length A" for i by linarith
  then show ?thesis by (auto simp: has_twins_def list_ex_iff)
qed

text \<open>The strings of 64 bytes that are hashed on the way to the root.\<close>

definition pair_inputs :: "uint256 list \<Rightarrow> bytes set" where
  "pair_inputs A = (\<lambda>i. A ! (2 * i) @ A ! (if 2 * i + 1 < length A then 2 * i + 1 else 2 * i)) ` {..<(length A + 1) div 2}"

definition merkle_inputs :: "(bytes \<Rightarrow> uint256) \<Rightarrow> uint256 list \<Rightarrow> bytes set" where
  "merkle_inputs Hash xs = (\<Union>h < levels xs. pair_inputs (level Hash xs h))"

definition sizes_ok :: "(bytes \<Rightarrow> uint256) \<Rightarrow> uint256 list \<Rightarrow> bool" where
  "sizes_ok Hash xs \<longleftrightarrow> (\<forall>x. length (Hash x) = 32) \<and> (\<forall>x \<in> set xs. length x = 32)"

lemma length_node:
  assumes "sizes_ok Hash xs" "pos < CalcTreeWidth (length xs) h"
  shows "length (node Hash xs h pos) = 32"
  using assms by (cases h) (auto simp: sizes_ok_def)

lemma length_in_level:
  assumes "sizes_ok Hash xs" "x \<in> set (level Hash xs h)"
  shows "length x = 32"
  using assms length_node by (auto simp: level_def)

lemma half_step: "a < b \<Longrightarrow> (a + 1) div 2 = (b + 1) div 2 \<Longrightarrow> a = 2 * (a div 2) + 1 \<and> b = 2 * (a div 2) + 2" for a b :: nat
  by (cases "even a"; cases "even b") (auto elim!: evenE oddE)
lemma half_even: "even k \<Longrightarrow> k < n \<Longrightarrow> k = 2 * (k div 2) \<and> k div 2 < (n + 1) div 2" for k n :: nat
  by (auto elim!: evenE)
lemma half_odd: "odd k \<Longrightarrow> k < n \<Longrightarrow> k = 2 * (k div 2) + 1 \<and> k div 2 < (n + 1) div 2" for k n :: nat
  by (auto elim!: oddE)

lemma merkle_level_inj:
  assumes "\<forall>x \<in> set A \<union> set B. length x = 32" "merkle_level Hash A = merkle_level Hash B" "\<not> has_twins A" "\<not> has_twins B"
    "inj_on Hash (pair_inputs A \<union> pair_inputs B)"
  shows "A = B"
proof -
  define a where "a = (\<lambda>A :: uint256 list. \<lambda>i. A ! (if 2 * i + 1 < length A then 2 * i + 1 else 2 * i))"
  define m where "m = (length A + 1) div 2"
  have mB: "m = (length B + 1) div 2" using arg_cong [OF assms(2), of length] by (simp add: m_def)
  have n: "merkle_level Hash X ! i = Hash (X ! (2 * i) @ a X i)" if "i < (length X + 1) div 2" for X i
  proof -
    have "[0..<(length X + 1) div 2] ! i = i" "i < length [0..<(length X + 1) div 2]" using that by simp_all
    then show ?thesis unfolding merkle_level_nth a_def by (subst nth_map) (simp_all only:)
  qed
  have pair: "A ! (2 * i) = B ! (2 * i) \<and> a A i = a B i" if i: "i < m" for i
  proof -
    have "Hash (A ! (2 * i) @ a A i) = Hash (B ! (2 * i) @ a B i)"
      using n [of i A] n [of i B] i mB assms(2) by (simp add: m_def)
    moreover have "A ! (2 * i) @ a A i \<in> pair_inputs A" "B ! (2 * i) @ a B i \<in> pair_inputs B"
      unfolding pair_inputs_def a_def using i mB m_def by (auto intro!: image_eqI [of _ _ i])
    ultimately have "A ! (2 * i) @ a A i = B ! (2 * i) @ a B i" using assms(5) by (auto dest: inj_onD)
    moreover have "2 * i < length A" "2 * i < length B" using i mB m_def by linarith+
    then have "length (A ! (2 * i)) = 32" "length (B ! (2 * i)) = 32" using assms(1) by simp_all
    ultimately show ?thesis by simp
  qed
  have twins: False if "\<not> has_twins Y" "length X < length Y" "(length X + 1) div 2 = (length Y + 1) div 2"
    "\<And>i. i < (length Y + 1) div 2 \<Longrightarrow> X ! (2 * i) = Y ! (2 * i) \<and> a X i = a Y i" for X Y :: "uint256 list"
  proof -
    define k where "k = length X div 2"
    have k: "length X = 2 * k + 1" "length Y = 2 * k + 2" unfolding k_def using half_step [OF that(2,3)] by simp_all
    then have "a X k = X ! (2 * k)" "a Y k = Y ! (2 * k + 1)" by (simp_all add: a_def)
    then have "Y ! (2 * k) = Y ! (2 * k + 1)" using that(4) [of k] k by simp
    then show False using that(1) k unfolding has_twins_iff by auto
  qed
  have l: "length A = length B"
  proof (rule linorder_cases [of "length A" "length B"])
    assume "length A < length B" then have False by (rule twins [OF assms(4)]) (use pair mB m_def in simp_all)
    then show ?thesis ..
  next
    assume "length B < length A" then have False by (rule twins [OF assms(3)]) (use pair mB m_def in simp_all)
    then show ?thesis ..
  qed
  show ?thesis
  proof (rule nth_equalityI [OF l])
    fix k assume k: "k < length A"
    show "A ! k = B ! k"
    proof (cases "even k")
      case True
      then have "k = 2 * (k div 2)" "k div 2 < m" using half_even [OF True k] unfolding m_def by simp_all
      then show ?thesis using pair [of "k div 2"] by metis
    next
      case False
      then have e: "k = 2 * (k div 2) + 1" and "k div 2 < m" using half_odd [OF False k] unfolding m_def by simp_all
      moreover have "a A (k div 2) = A ! k" "a B (k div 2) = B ! k" using e k l by (simp_all add: a_def)
      ultimately show ?thesis using pair [of "k div 2"] by simp
    qed
  qed
qed

lemma levels_bind:
  assumes "sizes_ok Hash xs" "sizes_ok Hash ys" "levels xs = levels ys" "xs \<noteq> []" "ys \<noteq> []"
    "node Hash xs (levels xs) 0 = node Hash ys (levels ys) 0"
    "\<forall>i < levels xs. \<not> has_twins (level Hash xs i)" "\<forall>i < levels ys. \<not> has_twins (level Hash ys i)"
    "inj_on Hash (merkle_inputs Hash xs \<union> merkle_inputs Hash ys)" "d \<le> levels xs"
  shows "level Hash xs (levels xs - d) = level Hash ys (levels ys - d)"
  using assms(10)
proof (induction d)
  case 0
  then show ?case using top_level [OF assms(4), of Hash] top_level [OF assms(5), of Hash] assms(6) by simp
next
  case (Suc d)
  define h where "h = levels xs - Suc d"
  have h: "h < levels xs" "Suc h = levels xs - d" using Suc.prems by (simp_all add: h_def)
  have m: "merkle_level Hash (level Hash xs h) = merkle_level Hash (level Hash ys h)"
    using Suc.IH Suc.prems h assms(3) by (simp flip: level_Suc)
  have i: "inj_on Hash (pair_inputs (level Hash xs h) \<union> pair_inputs (level Hash ys h))"
    by (rule inj_on_subset [OF assms(9)]) (use h(1) assms(3) in \<open>auto simp: merkle_inputs_def\<close>)
  have l: "\<forall>x \<in> set (level Hash xs h) \<union> set (level Hash ys h). length x = 32"
    using length_in_level [OF assms(1)] length_in_level [OF assms(2)] by blast
  have "level Hash xs h = level Hash ys h"
    by (rule merkle_level_inj [OF l m _ _ i]) (use assms(3,7,8) h(1) in simp_all)
  then show ?case by (simp add: h_def assms(3))
qed

section \<open>Extraction\<close>

text \<open>The strings that an extraction hashes.\<close>

primrec extract_inputs :: "(bytes \<Rightarrow> uint256) \<Rightarrow> CPartialMerkleTree \<Rightarrow> nat \<Rightarrow> nat \<Rightarrow> extraction \<Rightarrow> bytes set" where
  "extract_inputs Hash t 0 pos st = {}"
| "extract_inputs Hash t (Suc h) pos st =
     (if nBitsUsed st \<ge> length (vBits t) \<or> \<not> vBits t ! nBitsUsed st then {}
      else let st = st\<lparr>nBitsUsed := nBitsUsed st + 1\<rparr>; l = TraverseAndExtract Hash t h (pos * 2) st
           in if pos * 2 + 1 < CalcTreeWidth (nTransactions t) h
              then let r = TraverseAndExtract Hash t h (pos * 2 + 1) (snd l)
                   in insert (fst l @ fst r) (extract_inputs Hash t h (pos * 2) st \<union> extract_inputs Hash t h (pos * 2 + 1) (snd l))
              else insert (fst l @ fst l) (extract_inputs Hash t h (pos * 2) st))"

definition leaves :: "nat \<Rightarrow> nat \<Rightarrow> nat \<Rightarrow> nat set" where
  "leaves n h pos = {pos * 2 ^ h..<min ((pos + 1) * 2 ^ h) n}"

lemma leaves_0 [simp]: "pos < n \<Longrightarrow> leaves n 0 pos = {pos}"
  by (auto simp: leaves_def)

lemma width_less_iff: "pos < CalcTreeWidth n h \<longleftrightarrow> pos * 2 ^ h < n"
proof -
  have "pos < CalcTreeWidth n h \<longleftrightarrow> Suc pos * 2 ^ h \<le> n + 2 ^ h - 1"
    unfolding CalcTreeWidth_def using less_eq_div_iff_mult_less_eq [of "2 ^ h" "Suc pos" "n + 2 ^ h - 1"] by (simp add: Suc_le_eq)
  also have "\<dots> \<longleftrightarrow> pos * 2 ^ h < n"
  proof -
    define P where "P = (2 :: nat) ^ h"
    define q where "q = pos * P"
    have "Suc pos * 2 ^ h = P + q" "0 < P" by (simp_all add: P_def q_def)
    then show ?thesis unfolding P_def [symmetric] q_def [symmetric] by auto
  qed
  finally show ?thesis .
qed

lemma leaves_Suc:
  "leaves n (Suc h) pos = leaves n h (pos * 2) \<union> (if pos * 2 + 1 < CalcTreeWidth n h then leaves n h (pos * 2 + 1) else {})"
  "l \<in> leaves n h (pos * 2) \<Longrightarrow> r \<in> leaves n h (pos * 2 + 1) \<Longrightarrow> l < r"
proof -
  define P where "P = (2 :: nat) ^ h"
  define a where "a = pos * 2 * P"
  have e: "pos * 2 ^ Suc h = a" "(pos + 1) * 2 ^ Suc h = a + 2 * P" "pos * 2 * 2 ^ h = a" "(pos * 2 + 1) * 2 ^ h = a + P" "(pos * 2 + 1 + 1) * 2 ^ h = a + 2 * P"
    by (simp_all add: P_def a_def algebra_simps)
  show "leaves n (Suc h) pos = leaves n h (pos * 2) \<union> (if pos * 2 + 1 < CalcTreeWidth n h then leaves n h (pos * 2 + 1) else {})"
    unfolding leaves_def width_less_iff e by auto
  show "l \<in> leaves n h (pos * 2) \<Longrightarrow> r \<in> leaves n h (pos * 2 + 1) \<Longrightarrow> l < r"
    unfolding leaves_def e by auto
qed

lemma length_use_hash: "\<forall>x \<in> set (vHash t). length x = 32 \<Longrightarrow> length (fst (use_hash t m pos st)) = 32"
  by (simp add: use_hash_def Let_def uint256_null_def)

lemma length_extract:
  assumes "\<forall>x. length (Hash x) = 32" "\<forall>x \<in> set (vHash t). length x = 32"
  shows "length (fst (TraverseAndExtract Hash t h pos st)) = 32"
  using assms length_use_hash [OF assms(2)]
  by (cases h) (simp_all add: Let_def uint256_null_def case_prod_beta)

lemma node_input:
  assumes "h < levels xs" "pos < CalcTreeWidth (length xs) (Suc h)"
  shows "node Hash xs h (pos * 2) @ node Hash xs h (if pos * 2 + 1 < CalcTreeWidth (length xs) h then pos * 2 + 1 else pos * 2) \<in> merkle_inputs Hash xs"
proof -
  define k where "k = (if pos * 2 + 1 < CalcTreeWidth (length xs) h then pos * 2 + 1 else pos * 2)"
  have b: "pos * 2 < CalcTreeWidth (length xs) h" by (rule child_bound [OF assms(2)])
  then have k: "k < CalcTreeWidth (length xs) h" by (simp add: k_def)
  have "node Hash xs h (pos * 2) = level Hash xs h ! (2 * pos)" "node Hash xs h k = level Hash xs h ! k"
    using b k by (simp_all add: level_def mult.commute)
  moreover have "k = (if 2 * pos + 1 < length (level Hash xs h) then 2 * pos + 1 else 2 * pos)" by (simp add: k_def mult.commute)
  moreover have "pos < (length (level Hash xs h) + 1) div 2" using assms(2) by (simp add: CalcTreeWidth_Suc)
  ultimately have "node Hash xs h (pos * 2) @ node Hash xs h k \<in> pair_inputs (level Hash xs h)"
    unfolding pair_inputs_def by (intro image_eqI [of _ _ pos]) simp_all
  then show ?thesis using assms(1) unfolding merkle_inputs_def k_def [symmetric] by blast
qed

definition picked :: "uint256 list \<Rightarrow> nat \<Rightarrow> nat \<Rightarrow> extraction \<Rightarrow> extraction \<Rightarrow> bool" where
  "picked xs h pos st st' \<longleftrightarrow> (\<exists>new. xMatch st' = xMatch st @ map (\<lambda>i. xs ! i) new \<and> vnIndex st' = vnIndex st @ new \<and>
     sorted_wrt (<) new \<and> set new \<subseteq> leaves (length xs) h pos)"

lemma picked_none: "xMatch st' = xMatch st \<Longrightarrow> vnIndex st' = vnIndex st \<Longrightarrow> picked xs h pos st st'"
  unfolding picked_def by (rule exI [of _ "[]"]) simp

lemma use_hash_none: "picked xs h pos st (snd (use_hash t False p st))"
  by (rule picked_none) (simp_all add: use_hash_def Let_def)

lemma picked_join:
  assumes "picked xs h (pos * 2) st st1" "picked xs h (pos * 2 + 1) st1 st2" "pos * 2 + 1 < CalcTreeWidth (length xs) h"
  shows "picked xs (Suc h) pos st st2"
proof -
  obtain a b where ab: "xMatch st1 = xMatch st @ map (\<lambda>i. xs ! i) a" "vnIndex st1 = vnIndex st @ a" "sorted_wrt (<) a" "set a \<subseteq> leaves (length xs) h (pos * 2)"
    "xMatch st2 = xMatch st1 @ map (\<lambda>i. xs ! i) b" "vnIndex st2 = vnIndex st1 @ b" "sorted_wrt (<) b" "set b \<subseteq> leaves (length xs) h (pos * 2 + 1)"
    using assms(1,2) unfolding picked_def by blast
  moreover have "x < y" if "x \<in> set a" "y \<in> set b" for x y
    using leaves_Suc(2) [of x "length xs" h pos y] ab(4,8) that by blast
  ultimately show ?thesis using leaves_Suc(1) [of "length xs" h pos] assms(3)
    unfolding picked_def by (intro exI [of _ "a @ b"]) (auto simp: sorted_wrt_append)
qed

lemma extract_sound:
  assumes "sizes_ok Hash xs" "nTransactions t = length xs" "\<forall>x \<in> set (vHash t). length x = 32" "h \<le> levels xs"
    "pos < CalcTreeWidth (length xs) h" "fst (TraverseAndExtract Hash t h pos st) = node Hash xs h pos"
    "inj_on Hash (merkle_inputs Hash xs \<union> extract_inputs Hash t h pos st)"
  shows "picked xs h pos st (snd (TraverseAndExtract Hash t h pos st))"
  using assms(4-)
proof (induction h arbitrary: pos st)
  case 0
  show ?case
  proof (cases "nBitsUsed st \<ge> length (vBits t) \<or> nHashUsed st \<ge> length (vHash t) \<or> \<not> vBits t ! nBitsUsed st")
    case True
    then show ?thesis by (intro picked_none) (auto simp: Let_def use_hash_def)
  next
    case False
    then have "snd (TraverseAndExtract Hash t 0 pos st) = st\<lparr>nBitsUsed := nBitsUsed st + 1, nHashUsed := nHashUsed st + 1,
        xMatch := xMatch st @ [xs ! pos], vnIndex := vnIndex st @ [pos]\<rparr>"
      using 0 by (auto simp: Let_def use_hash_def)
    then show ?thesis using 0(2) unfolding picked_def by (intro exI [of _ "[pos]"]) simp
  qed
next
  case (Suc h)
  show ?case
  proof (cases "nBitsUsed st \<ge> length (vBits t) \<or> \<not> vBits t ! nBitsUsed st")
    case True
    then show ?thesis
      using use_hash_none [of xs "Suc h" pos "st\<lparr>nBitsUsed := Suc (nBitsUsed st)\<rparr>" t pos] by (auto simp: Let_def picked_def)
  next
    case False
    define st1 where "st1 = st\<lparr>nBitsUsed := nBitsUsed st + 1\<rparr>"
    define l where "l = TraverseAndExtract Hash t h (pos * 2) st1"
    define two where "two \<longleftrightarrow> pos * 2 + 1 < CalcTreeWidth (length xs) h"
    define r where "r = TraverseAndExtract Hash t h (pos * 2 + 1) (snd l)"
    define right where "right = (if two then fst r else fst l)"
    have trav: "TraverseAndExtract Hash t (Suc h) pos st =
        (Hash (fst l @ right), if two then (if fst r = fst l then (snd r)\<lparr>xBad := True\<rparr> else snd r) else snd l)"
      using False by (auto simp: st1_def l_def two_def r_def right_def assms(2) Let_def case_prod_beta)
    have ins: "extract_inputs Hash t (Suc h) pos st = insert (fst l @ right) (extract_inputs Hash t h (pos * 2) st1 \<union>
        (if two then extract_inputs Hash t h (pos * 2 + 1) (snd l) else {}))"
      using False by (auto simp: st1_def l_def two_def r_def right_def assms(2) Let_def)
    define k where "k = (if pos * 2 + 1 < CalcTreeWidth (length xs) h then pos * 2 + 1 else pos * 2)"
    have h: "h < levels xs" "h \<le> levels xs" using Suc.prems(1) by simp_all
    have b: "pos * 2 < CalcTreeWidth (length xs) h" by (rule child_bound [OF Suc.prems(2)])
    have "Hash (fst l @ right) = Hash (node Hash xs h (pos * 2) @ node Hash xs h k)" using Suc.prems(3) trav by (simp add: k_def)
    then have e: "fst l @ right = node Hash xs h (pos * 2) @ node Hash xs h k"
      using Suc.prems(4) node_input [OF h(1) Suc.prems(2), of Hash] ins unfolding k_def [symmetric] by (auto dest: inj_onD)
    have "length (fst l) = 32" using length_extract assms(1,3) by (simp add: l_def sizes_ok_def)
    then have el: "fst l = node Hash xs h (pos * 2)" "right = node Hash xs h k" using e length_node [OF assms(1) b] by simp_all
    have pl: "picked xs h (pos * 2) st1 (snd l)"
      unfolding l_def by (rule Suc.IH [OF h(2) b]) (use el(1) Suc.prems(4) ins in \<open>auto simp: l_def intro: inj_on_subset\<close>)
    have sel: "picked xs i p st st' \<longleftrightarrow> picked xs i p st1 st'" for i p st' by (simp add: picked_def st1_def)
    show ?thesis
    proof (cases two)
      case True
      have pr: "picked xs h (pos * 2 + 1) (snd l) (snd r)"
        unfolding r_def by (rule Suc.IH [OF h(2)]) (use True el(2) Suc.prems(4) ins in \<open>auto simp: two_def r_def right_def k_def intro: inj_on_subset\<close>)
      then have "picked xs (Suc h) pos st1 (snd r)" by (rule picked_join [OF pl]) (use True in \<open>simp add: two_def\<close>)
      then show ?thesis unfolding sel trav using True by (simp add: picked_def)
    next
      case two: False
      then show ?thesis using pl leaves_Suc(1) [of "length xs" h pos] unfolding sel trav by (auto simp: picked_def two_def)
    qed
  qed
qed

section \<open>Building and extracting\<close>

definition chosen :: "nat \<Rightarrow> nat \<Rightarrow> nat \<Rightarrow> bool list \<Rightarrow> nat list" where
  "chosen n h pos vMatch = filter (\<lambda>p. vMatch ! p) [pos * 2 ^ h..<min ((pos + 1) * 2 ^ h) n]"

lemma upt_leaves: "set [pos * 2 ^ h..<min ((pos + 1) * 2 ^ h) n] = leaves n h pos"
  by (simp add: leaves_def)

lemma chosen_Suc:
  assumes "pos * 2 < CalcTreeWidth n h"
  shows "chosen n (Suc h) pos vMatch =
    chosen n h (pos * 2) vMatch @ (if pos * 2 + 1 < CalcTreeWidth n h then chosen n h (pos * 2 + 1) vMatch else [])"
proof -
  define P where "P = (2 :: nat) ^ h"
  define a where "a = pos * 2 * P"
  have e: "pos * 2 ^ Suc h = a" "(pos + 1) * 2 ^ Suc h = a + 2 * P" "pos * 2 * 2 ^ h = a" "(pos * 2 + 1) * 2 ^ h = a + P" "(pos * 2 + 1 + 1) * 2 ^ h = a + 2 * P"
    by (simp_all add: P_def a_def algebra_simps)
  have "a < n" using assms unfolding width_less_iff e .
  show ?thesis
  proof (cases "a + P < n")
    case True
    then have "min (a + P) n = a + P" "a \<le> a + P" "a + P \<le> min (a + 2 * P) n" by simp_all
    then have "[a..<min (a + 2 * P) n] = [a..<a + P] @ [a + P..<min (a + 2 * P) n]" by (metis le_add_diff_inverse upt_add_eq_append)
    then show ?thesis using True unfolding chosen_def width_less_iff e by simp
  next
    case False
    then have "min (a + 2 * P) n = n" "min (a + P) n = n" by simp_all
    then show ?thesis using False unfolding chosen_def width_less_iff e by simp
  qed
qed

lemma ParentOfMatch_ok:
  assumes "length vMatch = n"
  shows "ParentOfMatch n h pos vMatch = Ok (chosen n h pos vMatch \<noteq> [])"
proof -
  have "\<not> list_ex (\<lambda>p. \<not> p < length vMatch) [pos * 2 ^ h..<min ((pos + 1) * 2 ^ h) n]" using assms by (auto simp: list_ex_iff)
  then show ?thesis by (simp add: ParentOfMatch_def Let_def chosen_def list_ex_iff filter_empty_conv)
qed

lemma twins_differ:
  assumes "\<not> has_twins (level Hash xs h)" "pos * 2 + 1 < CalcTreeWidth (length xs) h"
  shows "node Hash xs h (pos * 2 + 1) \<noteq> node Hash xs h (pos * 2)"
proof -
  have "level Hash xs h ! (2 * pos) = node Hash xs h (pos * 2)" "level Hash xs h ! (2 * pos + 1) = node Hash xs h (pos * 2 + 1)"
    using assms(2) by (simp_all add: level_def mult.commute)
  then show ?thesis using assms unfolding has_twins_iff by (metis length_level mult.commute)
qed

definition reads_back :: "(bytes \<Rightarrow> uint256) \<Rightarrow> uint256 list \<Rightarrow> bool list \<Rightarrow> nat \<Rightarrow> nat \<Rightarrow> bool list \<Rightarrow> uint256 list \<Rightarrow> bool" where
  "reads_back Hash xs vMatch h pos bits hs \<longleftrightarrow> (\<forall>t st preb sufb preh sufh. nTransactions t = length xs \<longrightarrow>
     vBits t = preb @ bits @ sufb \<longrightarrow> vHash t = preh @ hs @ sufh \<longrightarrow> nBitsUsed st = length preb \<longrightarrow> nHashUsed st = length preh \<longrightarrow>
     TraverseAndExtract Hash t h pos st = (node Hash xs h pos,
       st\<lparr>nBitsUsed := length preb + length bits, nHashUsed := length preh + length hs,
          xMatch := xMatch st @ map (\<lambda>i. xs ! i) (chosen (length xs) h pos vMatch), vnIndex := vnIndex st @ chosen (length xs) h pos vMatch\<rparr>))"

lemma reads_back_hash:
  assumes "h = 0 \<or> chosen (length xs) h pos vMatch = []" "pos < CalcTreeWidth (length xs) h"
  shows "reads_back Hash xs vMatch h pos [chosen (length xs) h pos vMatch \<noteq> []] [node Hash xs h pos]"
  unfolding reads_back_def
proof (intro allI impI)
  fix t :: CPartialMerkleTree and st :: extraction and preb sufb preh sufh
  assume t: "nTransactions t = length xs" "vBits t = preb @ [chosen (length xs) h pos vMatch \<noteq> []] @ sufb" "vHash t = preh @ [node Hash xs h pos] @ sufh"
    "nBitsUsed st = length preb" "nHashUsed st = length preh"
  have c: "chosen (length xs) 0 pos vMatch \<noteq> [] \<Longrightarrow> chosen (length xs) 0 pos vMatch = [pos]" using assms(2) unfolding chosen_def by (cases "pos < length xs") (auto simp: min_def split: if_splits)
  show "TraverseAndExtract Hash t h pos st = (node Hash xs h pos,
       st\<lparr>nBitsUsed := length preb + length [chosen (length xs) h pos vMatch \<noteq> []], nHashUsed := length preh + length [node Hash xs h pos],
          xMatch := xMatch st @ map (\<lambda>i. xs ! i) (chosen (length xs) h pos vMatch), vnIndex := vnIndex st @ chosen (length xs) h pos vMatch\<rparr>)"
  proof (cases h)
    case 0
    then show ?thesis using t c by (cases "chosen (length xs) 0 pos vMatch = []") (auto simp: use_hash_def Let_def)
  next
    case (Suc k)
    then show ?thesis using t assms(1) by (simp add: use_hash_def)
  qed
qed

lemma build_reads_back:
  assumes "xs \<noteq> []" "length vMatch = length xs" "h \<le> levels xs" "\<forall>i < levels xs. \<not> has_twins (level Hash xs i)"
    "pos < CalcTreeWidth (length xs) h"
  shows "\<exists>bits hs. TraverseAndBuild Hash (length xs) h pos xs vMatch = Ok (bits, hs) \<and> length hs \<le> card (leaves (length xs) h pos) \<and>
    length hs \<le> length bits \<and> reads_back Hash xs vMatch h pos bits hs"
  using assms(3,5)
proof (induction h arbitrary: pos)
  case 0
  then show ?case using reads_back_hash [of 0 xs pos vMatch Hash] ParentOfMatch_ok [OF assms(2)] CalcHash_node [OF assms(1), of pos 0] by simp
next
  case (Suc h)
  define n where "n = length xs"
  define two where "two \<longleftrightarrow> pos * 2 + 1 < CalcTreeWidth n h"
  have b: "pos * 2 < CalcTreeWidth n h" using child_bound [OF Suc.prems(2)] by (simp add: n_def)
  have pm: "ParentOfMatch n (Suc h) pos vMatch = Ok (chosen n (Suc h) pos vMatch \<noteq> [])" using ParentOfMatch_ok assms(2) by (simp add: n_def)
  show ?case
  proof (cases "chosen n (Suc h) pos vMatch = []")
    case True
    have "pos * 2 ^ Suc h < n" using Suc.prems(2) by (simp only: width_less_iff n_def)
    then have "leaves n (Suc h) pos \<noteq> {}" by (auto simp: leaves_def)
    then have "1 \<le> card (leaves n (Suc h) pos)" by (simp add: Suc_le_eq card_gt_0_iff leaves_def)
    then show ?thesis using True reads_back_hash [of "Suc h" xs pos vMatch Hash] CalcHash_node [OF assms(1) Suc.prems(2)] pm Suc.prems(2)
      by (simp add: n_def del: CalcHash.simps node.simps)
  next
    case False
    obtain lb lh where l: "TraverseAndBuild Hash n h (pos * 2) xs vMatch = Ok (lb, lh)" "length lh \<le> card (leaves n h (pos * 2))"
      "length lh \<le> length lb" "reads_back Hash xs vMatch h (pos * 2) lb lh"
      using Suc.IH [of "pos * 2"] Suc.prems(1) b by (auto simp: n_def)
    have "\<exists>rb rh. (if two then TraverseAndBuild Hash n h (pos * 2 + 1) xs vMatch else Ok ([], [])) = Ok (rb, rh) \<and>
        length rh \<le> (if two then card (leaves n h (pos * 2 + 1)) else 0) \<and> length rh \<le> length rb \<and>
        (if two then reads_back Hash xs vMatch h (pos * 2 + 1) rb rh else rb = [] \<and> rh = [])"
      using Suc.IH [of "pos * 2 + 1"] Suc.prems(1) by (auto simp: n_def two_def)
    then obtain rb rh where r: "(if two then TraverseAndBuild Hash n h (pos * 2 + 1) xs vMatch else Ok ([], [])) = Ok (rb, rh)"
      "length rh \<le> (if two then card (leaves n h (pos * 2 + 1)) else 0)" "length rh \<le> length rb"
      "if two then reads_back Hash xs vMatch h (pos * 2 + 1) rb rh else rb = [] \<and> rh = []" by blast
    have tb: "TraverseAndBuild Hash n (Suc h) pos xs vMatch = Ok ([True] @ lb @ rb, lh @ rh)"
      using False pm l(1) r(1) by (simp add: two_def)
    have "leaves n h (pos * 2) \<inter> leaves n h (pos * 2 + 1) = {}" using leaves_Suc(2) [of _ n h pos] by (metis disjoint_iff less_irrefl)
    then have "card (leaves n (Suc h) pos) = card (leaves n h (pos * 2)) + (if two then card (leaves n h (pos * 2 + 1)) else 0)"
      unfolding leaves_Suc(1) two_def [symmetric] by (simp add: card_Un_disjoint leaves_def)
    then have len: "length (lh @ rh) \<le> card (leaves n (Suc h) pos)" using l(2) r(2) by simp
    have "reads_back Hash xs vMatch (Suc h) pos ([True] @ lb @ rb) (lh @ rh)"
      unfolding reads_back_def
    proof (intro allI impI)
      fix t :: CPartialMerkleTree and st :: extraction and preb sufb preh sufh
      assume t: "nTransactions t = length xs" "vBits t = preb @ ([True] @ lb @ rb) @ sufb" "vHash t = preh @ (lh @ rh) @ sufh"
        "nBitsUsed st = length preb" "nHashUsed st = length preh"
      define st1 where "st1 = st\<lparr>nBitsUsed := nBitsUsed st + 1\<rparr>"
      have sl: "TraverseAndExtract Hash t h (pos * 2) st1 = (node Hash xs h (pos * 2),
         st1\<lparr>nBitsUsed := length (preb @ [True]) + length lb, nHashUsed := length preh + length lh,
            xMatch := xMatch st1 @ map (\<lambda>i. xs ! i) (chosen n h (pos * 2) vMatch), vnIndex := vnIndex st1 @ chosen n h (pos * 2) vMatch\<rparr>)" (is "_ = (_, ?st2)")
        using l(4) [unfolded reads_back_def, rule_format, of t "preb @ [True]" "rb @ sufb" preh "rh @ sufh" st1] t by (simp add: st1_def n_def)
      show "TraverseAndExtract Hash t (Suc h) pos st = (node Hash xs (Suc h) pos,
         st\<lparr>nBitsUsed := length preb + length ([True] @ lb @ rb), nHashUsed := length preh + length (lh @ rh),
            xMatch := xMatch st @ map (\<lambda>i. xs ! i) (chosen (length xs) (Suc h) pos vMatch), vnIndex := vnIndex st @ chosen (length xs) (Suc h) pos vMatch\<rparr>)"
      proof (cases two)
        case True
        then have rr: "reads_back Hash xs vMatch h (pos * 2 + 1) rb rh" using r(4) by simp
        have sr: "TraverseAndExtract Hash t h (pos * 2 + 1) ?st2 = (node Hash xs h (pos * 2 + 1),
           ?st2\<lparr>nBitsUsed := length (preb @ [True] @ lb) + length rb, nHashUsed := length (preh @ lh) + length rh,
              xMatch := xMatch ?st2 @ map (\<lambda>i. xs ! i) (chosen n h (pos * 2 + 1) vMatch), vnIndex := vnIndex ?st2 @ chosen n h (pos * 2 + 1) vMatch\<rparr>)"
          using rr [unfolded reads_back_def, rule_format, of t "preb @ [True] @ lb" sufb "preh @ lh" sufh ?st2] t by (simp add: st1_def n_def)
        have d: "node Hash xs h (pos * 2 + 1) \<noteq> node Hash xs h (pos * 2)"
          using twins_differ [of Hash xs h pos] assms(4) Suc.prems(1) True by (simp add: two_def n_def)
        show ?thesis
          using True t sl sr d chosen_Suc [OF b, of vMatch] unfolding TraverseAndExtract.simps st1_def two_def n_def
          by (simp add: Let_def nth_append)
      next
        case two: False
        then show ?thesis
          using t sl r(4) chosen_Suc [OF b, of vMatch] unfolding TraverseAndExtract.simps st1_def two_def n_def
          by (simp add: Let_def nth_append)
      qed
    qed
    then show ?thesis using tb len l(3) r(3) unfolding n_def by (intro exI conjI) (assumption | simp)+
  qed
qed

subsection \<open>Properties\<close>

lemma tree_height_levels: "xs \<noteq> [] \<Longrightarrow> tree_height (length xs) 0 = levels xs"
  by (simp add: levels_def)

lemma root_width: "xs \<noteq> [] \<Longrightarrow> 0 < CalcTreeWidth (length xs) h"
  by (simp add: width_less_iff)

text \<open>
  C16. The Merkle root of a block commits to its transactions.  Take two non-empty lists of transaction ids that need
  the same number of levels (lists of the same length do).  If \<^const>\<open>ComputeMerkleRoot\<close> gives both the same root and
  reports neither as mutated, the lists are equal, or the hash function has a collision among the pairs that the two
  computations hash.
\<close>

theorem merkle_root_binds:
  assumes "sizes_ok Hash xs" "sizes_ok Hash ys" "xs \<noteq> []" "ys \<noteq> []" "levels xs = levels ys"
    "ComputeMerkleRoot Hash xs = (root, False)" "ComputeMerkleRoot Hash ys = (root, False)" "xs \<noteq> ys"
  shows "\<exists>a b. a \<in> merkle_inputs Hash xs \<union> merkle_inputs Hash ys \<and> b \<in> merkle_inputs Hash xs \<union> merkle_inputs Hash ys \<and>
    a \<noteq> b \<and> Hash a = Hash b"
proof (rule ccontr)
  assume "\<not> ?thesis"
  then have "inj_on Hash (merkle_inputs Hash xs \<union> merkle_inputs Hash ys)" unfolding inj_on_def by blast
  then have "level Hash xs 0 = level Hash ys 0"
    using levels_bind [OF assms(1,2,5,3,4), of "levels xs"] assms(5-7)
    unfolding ComputeMerkleRoot_node [OF assms(3)] ComputeMerkleRoot_node [OF assms(4)] by simp
  then show False using assms(8) level_0 by simp
qed

text \<open>
  C17. A partial Merkle tree proves what it lists.  Let a peer send any tree that claims the number of transactions of a
  block.  If \<^const>\<open>ExtractMatches\<close> answers the Merkle root of the block, and the hash has no collision among the
  pairs that were hashed, then every matched id is the id of the block's transaction at the reported index, and the
  indices increase and are in range.
\<close>

theorem ExtractMatches_sound:
  assumes "sizes_ok Hash xs" "xs \<noteq> []" "nTransactions t = length xs" "\<forall>x \<in> set (vHash t). length x = 32"
    "ExtractMatches Hash t idx0 = (fst (ComputeMerkleRoot Hash xs), matches, indices, t')" "fst (ComputeMerkleRoot Hash xs) \<noteq> uint256_null"
    "inj_on Hash (merkle_inputs Hash xs \<union> extract_inputs Hash t (levels xs) 0 \<lparr>nBitsUsed = 0, nHashUsed = 0, xMatch = [], vnIndex = idx0, xBad = fBad t\<rparr>)"
  shows "\<exists>new. matches = map (\<lambda>i. xs ! i) new \<and> indices = idx0 @ new \<and> sorted_wrt (<) new \<and> set new \<subseteq> {..<length xs}"
proof -
  define st where "st = \<lparr>nBitsUsed = 0, nHashUsed = 0, xMatch = [], vnIndex = idx0, xBad = fBad t\<rparr>"
  define r where "r = TraverseAndExtract Hash t (levels xs) 0 st"
  have f: "fst r = node Hash xs (levels xs) 0" "matches = xMatch (snd r)" "indices = vnIndex (snd r)"
    using assms(5,6) tree_height_levels [OF assms(2)] ComputeMerkleRoot_node [OF assms(2), of Hash]
    by (auto simp: ExtractMatches_def assms(3) r_def st_def Let_def case_prod_unfold split: if_splits)
  have "picked xs (levels xs) 0 st (snd r)"
    using extract_sound [OF assms(1,3,4) order_refl, of 0 st] root_width [OF assms(2)] f(1) assms(7) by (simp add: r_def st_def)
  moreover have "leaves (length xs) (levels xs) 0 \<subseteq> {..<length xs}" by (auto simp: leaves_def)
  ultimately show ?thesis using f(2,3) unfolding picked_def by (auto simp: st_def)
qed

lemma partial_tree_reads:
  assumes "xs \<noteq> []" "length vMatch = length xs" "length xs \<le> MaxBlockSize True div 60" "ComputeMerkleRoot Hash xs = (root, False)"
  shows "\<exists>bits hs. TraverseAndBuild Hash (length xs) (levels xs) 0 xs vMatch = Ok (bits, hs) \<and>
    CPartialMerkleTree_of Hash xs vMatch = Ok \<lparr>nTransactions = length xs, vBits = bits, vHash = hs, fBad = False\<rparr> \<and> length hs \<le> length xs \<and>
    (\<forall>pad. (length bits + 7) div 8 = (length (bits @ pad) + 7) div 8 \<longrightarrow>
      ExtractMatches Hash \<lparr>nTransactions = length xs, vBits = bits @ pad, vHash = hs, fBad = False\<rparr> [] =
      (root, map (\<lambda>i. xs ! i) (filter (\<lambda>i. vMatch ! i) [0..<length xs]), filter (\<lambda>i. vMatch ! i) [0..<length xs],
       \<lparr>nTransactions = length xs, vBits = bits @ pad, vHash = hs, fBad = False\<rparr>))"
proof -
  have rt: "root = node Hash xs (levels xs) 0" "\<forall>i < levels xs. \<not> has_twins (level Hash xs i)"
    using assms(4) unfolding ComputeMerkleRoot_node [OF assms(1)] by auto
  obtain bits hs where b: "TraverseAndBuild Hash (length xs) (levels xs) 0 xs vMatch = Ok (bits, hs)"
    "length hs \<le> card (leaves (length xs) (levels xs) 0)" "length hs \<le> length bits" "reads_back Hash xs vMatch (levels xs) 0 bits hs"
    using build_reads_back [OF assms(1,2) order_refl rt(2) root_width [OF assms(1)]] by blast
  define t where "t pad = \<lparr>nTransactions = length xs, vBits = bits @ pad, vHash = hs, fBad = False\<rparr>" for pad
  have w: "length xs \<le> 2 ^ levels xs" using width_less_iff [of 1 "length xs" "levels xs"] arg_cong [OF top_level [OF assms(1), of Hash], of length] by simp
  have ch: "chosen (length xs) (levels xs) 0 vMatch = filter (\<lambda>i. vMatch ! i) [0..<length xs]" using w by (simp add: chosen_def)
  have "card (leaves (length xs) (levels xs) 0) = length xs" using w by (simp add: leaves_def)
  then have len: "length hs \<le> length xs" using b(2) by simp
  have "TraverseAndExtract Hash (t pad) (levels xs) 0 \<lparr>nBitsUsed = 0, nHashUsed = 0, xMatch = [], vnIndex = [], xBad = False\<rparr> =
    (root, \<lparr>nBitsUsed = length bits, nHashUsed = length hs, xMatch = map (\<lambda>i. xs ! i) (filter (\<lambda>i. vMatch ! i) [0..<length xs]),
       vnIndex = filter (\<lambda>i. vMatch ! i) [0..<length xs], xBad = False\<rparr>)" for pad
    using b(4) [unfolded reads_back_def, rule_format, of "t pad" "[]" pad "[]" "[]"] by (simp add: t_def rt(1) ch)
  then have "ExtractMatches Hash (t pad) [] =
      (root, map (\<lambda>i. xs ! i) (filter (\<lambda>i. vMatch ! i) [0..<length xs]), filter (\<lambda>i. vMatch ! i) [0..<length xs], t pad)"
    if "(length bits + 7) div 8 = (length (bits @ pad) + 7) div 8" for pad
    using that assms(1,3) b(3) len tree_height_levels [OF assms(1)] unfolding ExtractMatches_def Let_def by (simp add: t_def)
  moreover have "CPartialMerkleTree_of Hash xs vMatch = Ok \<lparr>nTransactions = length xs, vBits = bits, vHash = hs, fBad = False\<rparr>"
    using b(1) tree_height_levels [OF assms(1)] by (simp add: CPartialMerkleTree_of_def Let_def)
  ultimately show ?thesis using b(1) len unfolding t_def by blast
qed

section \<open>Partial merkle trees on the wire\<close>

definition BitsToBytes :: "bool list \<Rightarrow> bytes" where
  "BitsToBytes bits = fold (set_bit_at bits) [0..<length bits] (replicate ((length bits + 7) div 8) 0)"

definition BytesToBits :: "bytes \<Rightarrow> bool list" where
  "BytesToBits bs = map (\<lambda>p. bs ! (p div 8) AND push_bit (p mod 8) 1 \<noteq> 0) [0..<length bs * 8]"

definition CPartialMerkleTree_ser :: "CPartialMerkleTree \<Rightarrow> bytes" where
  "CPartialMerkleTree_ser obj =
     ser_writedata32 (of_nat (nTransactions obj)) @ vector_ser id (vHash obj) @ bytes_ser (BitsToBytes (vBits obj))"

definition CPartialMerkleTree_unser :: "CPartialMerkleTree reader" where
  "CPartialMerkleTree_unser s =
     rbind (ser_readdata32 s) (\<lambda>n s. rbind (vector_unser uint256_unser s) (\<lambda>hashes s. rbind (bytes_unser s) (\<lambda>bs s.
       Inr (\<lparr>nTransactions = unat n, vBits = BytesToBits bs, vHash = hashes, fBad = False\<rparr>, s))))"

record CMerkleBlock =
  mb_header :: CBlockHeader
  mb_txn :: CPartialMerkleTree
  vMatchedTxn :: "(nat \<times> uint256) list"

text \<open>
  The bloom filter is a parameter: a state and the function \<^verbatim>\<open>IsRelevantAndUpdate\<close>, which reads a transaction and may change
  the state.  A null pointer is \<^const>\<open>None\<close>.
\<close>

definition isAllowedType :: "CTransaction \<Rightarrow> bool" where
  "isAllowedType tx \<longleftrightarrow> nVersion tx \<noteq> 3 \<or> nType tx \<in> {TRANSACTION_NORMAL, TRANSACTION_PROVIDER_REGISTER,
     TRANSACTION_PROVIDER_UPDATE_SERVICE, TRANSACTION_PROVIDER_UPDATE_REGISTRAR, TRANSACTION_PROVIDER_UPDATE_REVOKE, TRANSACTION_COINBASE}"

primrec match_txs :: "('f \<Rightarrow> CTransaction \<Rightarrow> bool \<times> 'f) \<Rightarrow> (CTransaction \<Rightarrow> uint256) \<Rightarrow> uint256 set option \<Rightarrow> nat \<Rightarrow>
    CTransaction list \<Rightarrow> 'f option \<Rightarrow> bool list \<times> (nat \<times> uint256) list \<times> 'f option" where
  "match_txs IsRelevantAndUpdate tx_GetHash txids i [] flt = ([], [], flt)"
| "match_txs IsRelevantAndUpdate tx_GetHash txids i (tx # txs) flt =
     (let hash = tx_GetHash tx
      in if (case txids of None \<Rightarrow> False | Some ids \<Rightarrow> hash \<in> ids)
         then let (ms, found, flt) = match_txs IsRelevantAndUpdate tx_GetHash txids (i + 1) txs flt in (True # ms, found, flt)
         else case (if isAllowedType tx then flt else None) of
             None \<Rightarrow> let (ms, found, flt) = match_txs IsRelevantAndUpdate tx_GetHash txids (i + 1) txs flt in (False # ms, found, flt)
           | Some f \<Rightarrow> let (relevant, f) = IsRelevantAndUpdate f tx;
                          (ms, found, flt) = match_txs IsRelevantAndUpdate tx_GetHash txids (i + 1) txs (Some f)
                      in (relevant # ms, if relevant then (i, hash) # found else found, flt))"

definition CMerkleBlock_of :: "(bytes \<Rightarrow> uint256) \<Rightarrow> ('f \<Rightarrow> CTransaction \<Rightarrow> bool \<times> 'f) \<Rightarrow> (CTransaction \<Rightarrow> uint256) \<Rightarrow>
    CBlock \<Rightarrow> 'f option \<Rightarrow> uint256 set option \<Rightarrow> (CMerkleBlock \<times> 'f option) outcome" where
  "CMerkleBlock_of Hash IsRelevantAndUpdate tx_GetHash block flt txids =
     (let (vMatch, found, flt) = match_txs IsRelevantAndUpdate tx_GetHash txids 0 (vtx block) flt
      in obind (CPartialMerkleTree_of Hash (map tx_GetHash (vtx block)) vMatch) (\<lambda>t.
           Ok (\<lparr>mb_header = GetBlockHeader block, mb_txn = t, vMatchedTxn = found\<rparr>, flt)))"

definition CMerkleBlock_ser :: "CMerkleBlock \<Rightarrow> bytes" where
  "CMerkleBlock_ser obj = CBlockHeader_ser (mb_header obj) @ CPartialMerkleTree_ser (mb_txn obj)"

definition CMerkleBlock_unser :: "CMerkleBlock reader" where
  "CMerkleBlock_unser s =
     rbind (CBlockHeader_unser s) (\<lambda>h s. rbind (CPartialMerkleTree_unser s) (\<lambda>t s.
       Inr (\<lparr>mb_header = h, mb_txn = t, vMatchedTxn = []\<rparr>, s)))"

lemma length_BitsToBytes [simp]: "length (BitsToBytes bits) = (length bits + 7) div 8"
  by (simp add: BitsToBytes_def)

lemma BytesToBits_BitsToBytes:
  "BytesToBits (BitsToBytes bits) = bits @ replicate ((length bits + 7) div 8 * 8 - length bits) False"
proof (rule nth_equalityI)
  show "length (BytesToBits (BitsToBytes bits)) = length (bits @ replicate ((length bits + 7) div 8 * 8 - length bits) False)"
    by (simp add: BytesToBits_def)
  fix p assume "p < length (BytesToBits (BitsToBytes bits))"
  then have p: "p < (length bits + 7) div 8 * 8" by (simp add: BytesToBits_def)
  then have j: "p div 8 < length (replicate ((length bits + 7) div 8) (0 :: u8))" by simp
  have m: "length bits \<le> 8 * length (replicate ((length bits + 7) div 8) (0 :: u8))" by simp
  have "bit (BitsToBytes bits ! (p div 8)) (p mod 8) \<longleftrightarrow> p < length bits \<and> bits ! p"
    using fold_set_bit [OF m j, of "p mod 8" bits] j by (simp add: BitsToBytes_def)
  then have "BytesToBits (BitsToBytes bits) ! p \<longleftrightarrow> p < length bits \<and> bits ! p"
    using p unfolding BytesToBits_def and_push_bit by simp
  then show "BytesToBits (BitsToBytes bits) ! p = (bits @ replicate ((length bits + 7) div 8 * 8 - length bits) False) ! p"
    using p by (simp add: nth_append)
qed

interpretation hash_codec: canonical_codec id uint256_unser "\<lambda>x. length x = 32"
  by unfold_locales (simp_all add: uint256_unser_def read_raw_Inr)

lemma CPartialMerkleTree_unser_ser:
  assumes "nTransactions t < 2 ^ 32" "vector_ok (\<lambda>x. length x = 32) (vHash t)" "(length (vBits t) + 7) div 8 \<le> MAX_SIZE"
  shows "CPartialMerkleTree_unser (CPartialMerkleTree_ser t @ s) =
    Inr (t\<lparr>vBits := vBits t @ replicate ((length (vBits t) + 7) div 8 * 8 - length (vBits t)) False, fBad := False\<rparr>, s)"
  using assms codec.unser_ser [OF hash_codec.vector_codec, of "vHash t"] by (cases t)
    (simp add: CPartialMerkleTree_ser_def CPartialMerkleTree_unser_def u32_codec.unser_ser bytes_codec.unser_ser
      BytesToBits_BitsToBytes unat_of_nat take_bit_nat_eq_self)

lemma build_sizes:
  assumes "sizes_ok Hash xs" "xs \<noteq> []" "pos < CalcTreeWidth (length xs) h" "TraverseAndBuild Hash (length xs) h pos xs vMatch = Ok (bits, hs)"
  shows "(\<forall>x \<in> set hs. length x = 32) \<and> length bits < 2 ^ Suc h"
  using assms(3-)
proof (induction h arbitrary: pos bits hs)
  case 0
  then show ?case using CalcHash_node [OF assms(2) 0(1), of Hash] length_node [OF assms(1) 0(1)] by (auto simp: obind_Ok)
next
  case (Suc h)
  note b = child_bound [OF Suc.prems(1)] and nd = CalcHash_node [OF assms(2) Suc.prems(1), of Hash]
  obtain m where m: "ParentOfMatch (length xs) (Suc h) pos vMatch = Ok m" using Suc.prems(2) by (auto simp: obind_Ok)
  show ?case
  proof (cases m)
    case False
    have "1 < (2 :: nat) ^ Suc (Suc h)" by (rule one_less_power) simp_all
    with False show ?thesis using Suc.prems m nd length_node [OF assms(1) Suc.prems(1)]
      by (auto simp: obind_Ok simp del: CalcHash.simps node.simps power_Suc)
  next
    case True
    obtain lb lh rb rh where r: "TraverseAndBuild Hash (length xs) h (pos * 2) xs vMatch = Ok (lb, lh)"
      "(if pos * 2 + 1 < CalcTreeWidth (length xs) h then TraverseAndBuild Hash (length xs) h (pos * 2 + 1) xs vMatch else Ok ([], [])) = Ok (rb, rh)"
      "bits = [True] @ lb @ rb" "hs = lh @ rh"
      using Suc.prems(2) True m by (auto simp: obind_Ok)
    have "(\<forall>x \<in> set rh. length x = 32) \<and> length rb < 2 ^ Suc h"
      using Suc.IH [of "pos * 2 + 1" rb rh] r(2) by (auto split: if_splits)
    then show ?thesis using Suc.IH [OF b r(1)] r(3,4) by auto
  qed
qed

lemma match_ids:
  "match_txs rel tx_GetHash (Some ids) i txs None = (map (\<lambda>tx. tx_GetHash tx \<in> ids) txs, [], None)"
  by (induction txs arbitrary: i) (simp_all add: Let_def)

lemma levels_bound:
  assumes "xs \<noteq> []" "length xs \<le> 2 ^ k"
  shows "levels xs \<le> k"
proof (rule ccontr)
  assume "\<not> levels xs \<le> k"
  then have "1 < CalcTreeWidth (length xs) k" using tree_height_width [of k "length xs"] assms(1) by (simp add: levels_def)
  then show False using assms(2) by (simp add: width_less_iff)
qed

text \<open>
  C18. A merkle block proves the inclusion of exactly the wanted transactions.  Let a block have a Merkle root that is
  not mutated and at most as many transactions as the limit allows.  The merkle block made for a set of transaction ids, not
  for a bloom filter, written to the wire and read back, has the header of the block; and \<^const>\<open>ExtractMatches\<close> on its tree answers the
  Merkle root of the block, the ids of exactly the transactions in the set, and their positions in order, and does not
  mark the tree as bad.
\<close>

theorem merkle_block_roundtrip:
  assumes "header_ok (GetBlockHeader block)" "vtx block \<noteq> []" "length (vtx block) \<le> MaxBlockSize True div 60"
    "sizes_ok Hash (map tx_GetHash (vtx block))" "BlockMerkleRoot Hash tx_GetHash block = (root, False)"
  shows "\<exists>mb t. CMerkleBlock_of Hash rel tx_GetHash block None (Some ids) = Ok (mb, None) \<and>
    CMerkleBlock_unser (CMerkleBlock_ser mb @ s) = Inr (\<lparr>mb_header = GetBlockHeader block, mb_txn = t, vMatchedTxn = []\<rparr>, s) \<and>
    ExtractMatches Hash t [] = (root, filter (\<lambda>x. x \<in> ids) (map tx_GetHash (vtx block)),
      filter (\<lambda>i. tx_GetHash (vtx block ! i) \<in> ids) [0..<length (vtx block)], t)"
proof -
  define xs where "xs = map tx_GetHash (vtx block)"
  define vMatch where "vMatch = map (\<lambda>tx. tx_GetHash tx \<in> ids) (vtx block)"
  have xs: "xs \<noteq> []" "length vMatch = length xs" "length xs \<le> MaxBlockSize True div 60" "ComputeMerkleRoot Hash xs = (root, False)" "sizes_ok Hash xs"
    using assms by (simp_all add: xs_def vMatch_def BlockMerkleRoot_def)
  obtain bits hs where b: "TraverseAndBuild Hash (length xs) (levels xs) 0 xs vMatch = Ok (bits, hs)"
    "CPartialMerkleTree_of Hash xs vMatch = Ok \<lparr>nTransactions = length xs, vBits = bits, vHash = hs, fBad = False\<rparr>" "length hs \<le> length xs"
    "\<And>pad. (length bits + 7) div 8 = (length (bits @ pad) + 7) div 8 \<Longrightarrow>
      ExtractMatches Hash \<lparr>nTransactions = length xs, vBits = bits @ pad, vHash = hs, fBad = False\<rparr> [] =
      (root, map (\<lambda>i. xs ! i) (filter (\<lambda>i. vMatch ! i) [0..<length xs]), filter (\<lambda>i. vMatch ! i) [0..<length xs],
       \<lparr>nTransactions = length xs, vBits = bits @ pad, vHash = hs, fBad = False\<rparr>)"
    using partial_tree_reads [OF xs(1-4)] by blast
  define pad where "pad = replicate ((length bits + 7) div 8 * 8 - length bits) False"
  have n: "length xs \<le> 33333" using xs(3) by (simp add: MaxBlockSize_def)
  then have "levels xs \<le> 16" by (intro levels_bound xs(1)) simp
  then have "(2 :: nat) ^ Suc (levels xs) \<le> 2 ^ 17" by (intro power_increasing) simp_all
  then have sz: "\<forall>x \<in> set hs. length x = 32" "length bits < 2 ^ 17"
    using build_sizes [OF xs(5,1) root_width [OF xs(1)] b(1)] by auto
  have rd: "CPartialMerkleTree_unser (CPartialMerkleTree_ser \<lparr>nTransactions = length xs, vBits = bits, vHash = hs, fBad = False\<rparr> @ s) =
     Inr (\<lparr>nTransactions = length xs, vBits = bits @ pad, vHash = hs, fBad = False\<rparr>, s)"
    using CPartialMerkleTree_unser_ser [of "\<lparr>nTransactions = length xs, vBits = bits, vHash = hs, fBad = False\<rparr>" s] n sz b(3)
    by (simp add: pad_def vector_ok_def list_all_iff)
  have mk: "CMerkleBlock_of Hash rel tx_GetHash block None (Some ids) =
     Ok (\<lparr>mb_header = GetBlockHeader block, mb_txn = \<lparr>nTransactions = length xs, vBits = bits, vHash = hs, fBad = False\<rparr>, vMatchedTxn = []\<rparr>, None)"
    using b(2) by (simp add: CMerkleBlock_of_def match_ids xs_def vMatch_def)
  have f: "map (\<lambda>i. xs ! i) (filter (\<lambda>i. vMatch ! i) [0..<length xs]) = filter (\<lambda>x. x \<in> ids) xs"
    "filter (\<lambda>i. vMatch ! i) [0..<length xs] = filter (\<lambda>i. tx_GetHash (vtx block ! i) \<in> ids) [0..<length (vtx block)]"
  proof -
    have "filter (\<lambda>x. x \<in> ids) xs = filter (\<lambda>x. x \<in> ids) (map (\<lambda>i. xs ! i) [0..<length xs])" by (simp add: map_nth)
    also have "\<dots> = map (\<lambda>i. xs ! i) (filter (\<lambda>i. xs ! i \<in> ids) [0..<length xs])" by (simp add: filter_map o_def)
    also have "filter (\<lambda>i. xs ! i \<in> ids) [0..<length xs] = filter (\<lambda>i. vMatch ! i) [0..<length xs]"
      by (rule filter_cong) (simp_all add: xs_def vMatch_def)
    finally show "map (\<lambda>i. xs ! i) (filter (\<lambda>i. vMatch ! i) [0..<length xs]) = filter (\<lambda>x. x \<in> ids) xs" by simp
    show "filter (\<lambda>i. vMatch ! i) [0..<length xs] = filter (\<lambda>i. tx_GetHash (vtx block ! i) \<in> ids) [0..<length (vtx block)]"
      unfolding xs_def vMatch_def length_map by (rule filter_cong) simp_all
  qed
  have "(length bits + 7) div 8 = (length (bits @ pad) + 7) div 8" by (simp add: pad_def)
  from b(4) [OF this, unfolded f(1), unfolded f(2)] show ?thesis
    unfolding xs_def [symmetric] using rd mk header_codec.unser_ser [OF assms(1)]
    by (simp add: CMerkleBlock_ser_def CMerkleBlock_unser_def)
qed

text \<open>A hash that keeps the sum of the bytes, and three leaves.\<close>

definition sum_hash :: "bytes \<Rightarrow> uint256" where
  "sum_hash bs = sum_list bs # replicate 31 0"

definition leaf :: "8 word \<Rightarrow> uint256" where
  "leaf b = b # replicate 31 0"

lemma leaf_inject [simp]: "leaf a = leaf b \<longleftrightarrow> a = b"
  by (simp add: leaf_def)

lemma sizes_leaves [simp]: "sizes_ok sum_hash (map leaf bs)"
  by (simp add: sizes_ok_def sum_hash_def leaf_def)

lemma widths_3 [simp]: "CalcTreeWidth 3 0 = 3" "CalcTreeWidth 3 (Suc 0) = 2" "CalcTreeWidth 3 2 = 1"
  by (simp_all add: CalcTreeWidth_def)

lemma tree_height_3 [simp]: "tree_height 3 0 = 2"
  by (simp add: tree_height.simps [of 3 0] tree_height.simps [of 3 "Suc 0"] tree_height.simps [of 3 2] flip: numeral_2_eq_2)

lemma length_3 [simp]: "length [a, b, c] = 3"
  by simp

lemma levels_3 [simp]: "levels [a, b, c] = 2"
  unfolding levels_def length_3 tree_height_3 ..

lemma leaf_null [simp]: "leaf b = uint256_null \<longleftrightarrow> b = 0"
  by (simp add: leaf_def uint256_null_def numeral_eq_Suc)

lemma sum_hash_leaves [simp]: "sum_hash (leaf a @ leaf b) = leaf (a + b)"
  by (simp add: sum_hash_def leaf_def sum_list_replicate)

lemma merkle_loop_3: "merkle_loop sum_hash [leaf a, leaf b, leaf c] f = ([leaf (a + b + (c + c))], (f \<or> a = b) \<or> a + b = c + c)"
proof -
  have l: "merkle_level sum_hash [x, y, z] = [sum_hash (x @ y), sum_hash (z @ z)]" "merkle_level sum_hash [x, y] = [sum_hash (x @ y)]"
    "has_twins [x, y, z] \<longleftrightarrow> x = y" "has_twins [x, y] \<longleftrightarrow> x = y" for x y z
    by (simp_all add: merkle_level_def has_twins_def upt_conv_Cons)
  have m: "merkle_loop sum_hash [x, y, z] f = merkle_loop sum_hash [sum_hash (x @ y), sum_hash (z @ z)] (f \<or> x = y)"
    "merkle_loop sum_hash [x, y] f = merkle_loop sum_hash [sum_hash (x @ y)] (f \<or> x = y)" "merkle_loop sum_hash [x] f = ([x], f)" for x y z f
    unfolding merkle_loop.simps [of sum_hash "[x, y, z]"] merkle_loop.simps [of sum_hash "[x, y]"] merkle_loop.simps [of sum_hash "[x]"] l by simp_all
  show ?thesis unfolding m sum_hash_leaves leaf_inject ..
qed

lemma root_3: "ComputeMerkleRoot sum_hash [leaf a, leaf b, leaf c] = (leaf (a + b + (c + c)), a = b \<or> a + b = c + c)"
  unfolding ComputeMerkleRoot_def merkle_loop_3 by simp

theorem merkle_root_binds_witness:
  "\<exists>a b. a \<in> merkle_inputs sum_hash [leaf 1, leaf 2, leaf 3] \<union> merkle_inputs sum_hash [leaf 2, leaf 1, leaf 3] \<and>
     b \<in> merkle_inputs sum_hash [leaf 1, leaf 2, leaf 3] \<union> merkle_inputs sum_hash [leaf 2, leaf 1, leaf 3] \<and> a \<noteq> b \<and> sum_hash a = sum_hash b"
  using merkle_root_binds [of sum_hash "[leaf 1, leaf 2, leaf 3]" "[leaf 2, leaf 1, leaf 3]" "leaf 9"] sizes_leaves [of "[1, 2, 3]"] sizes_leaves [of "[2, 1, 3]"]
  by (simp add: root_3)

definition example_tree :: CPartialMerkleTree where
  "example_tree = \<lparr>nTransactions = 3, vBits = [True, True, False, True, False], vHash = [leaf 1, leaf 2, leaf 6], fBad = False\<rparr>"

definition example_txs :: "CTransaction list" where
  "example_txs = map (\<lambda>n. \<lparr>vin = [], vout = [], nVersion = 2, nType = 0, nLockTime = n, vExtraPayload = []\<rparr>) [1, 2, 3]"

definition example_merkle_block :: CBlock where
  "example_merkle_block = CBlockHeader.extend CBlockHeader_null \<lparr>vtx = example_txs\<rparr>"

theorem merkle_block_roundtrip_witness:
  "\<exists>mb t. CMerkleBlock_of sum_hash (\<lambda>(f :: nat) tx. (True, f)) (\<lambda>tx. leaf (ucast (nLockTime tx))) example_merkle_block None (Some {leaf 2}) =
       Ok (mb, None :: nat option) \<and>
     CMerkleBlock_unser (CMerkleBlock_ser mb @ []) = Inr (\<lparr>mb_header = GetBlockHeader example_merkle_block, mb_txn = t, vMatchedTxn = []\<rparr>, []) \<and>
     ExtractMatches sum_hash t [] = (leaf 9, [leaf 2], [1], t)"
proof -
  define h :: "CTransaction \<Rightarrow> uint256" where "h tx = leaf (ucast (nLockTime tx))" for tx
  have ids: "map h (vtx example_merkle_block) = [leaf 1, leaf 2, leaf 3]"
    by (simp add: h_def example_merkle_block_def example_txs_def CBlockHeader.extend_def)
  have hd: "header_ok (GetBlockHeader example_merkle_block)"
    by (simp add: example_merkle_block_def CBlockHeader.extend_def CBlockHeader_null_def GetBlockHeader_def header_ok_def autolykos_ok_def uint256_null_def)
  have n: "length (vtx example_merkle_block) = 3" using arg_cong [OF ids, of length] by simp
  have f: "filter (\<lambda>i. h (vtx example_merkle_block ! i) \<in> {leaf 2}) [0..<3] = [1]"
    by (simp add: h_def example_merkle_block_def example_txs_def CBlockHeader.extend_def upt_conv_Cons)
  have r: "BlockMerkleRoot sum_hash h example_merkle_block = (leaf 9, False)" unfolding BlockMerkleRoot_def ids by (simp add: root_3)
  have sz: "sizes_ok sum_hash (map h (vtx example_merkle_block))" unfolding ids using sizes_leaves [of "[1, 2, 3]"] by simp
  have nonempty: "vtx example_merkle_block \<noteq> []" "length (vtx example_merkle_block) \<le> MaxBlockSize True div 60"
    using n by (auto simp: MaxBlockSize_def)
  show ?thesis
    using merkle_block_roundtrip [OF hd nonempty sz r, of "\<lambda>(f :: nat) tx. (True, f)" "{leaf 2}" "[]"]
    unfolding n f ids unfolding h_def by simp
qed

lemma inputs_3: "merkle_inputs sum_hash [leaf 1, leaf 2, leaf 3] = {leaf 1 @ leaf 2, leaf 3 @ leaf 3, leaf 3 @ leaf 6}"
proof -
  have l: "level sum_hash [leaf 1, leaf 2, leaf 3] (Suc 0) = [leaf 3, leaf 6]"
    unfolding level_def length_3 by (simp add: upt_conv_Cons)
  have p: "pair_inputs [x, y, z] = {x @ y, z @ z}" "pair_inputs [x, y] = {x @ y}" for x y z
    by (auto simp: pair_inputs_def lessThan_Suc)
  have "{..<2 :: nat} = {0, Suc 0}" by auto
  then show ?thesis unfolding merkle_inputs_def levels_3 by (simp only: UN_insert UN_empty level_0 l p Un_insert_left Un_empty_left Un_empty_right)
qed

lemma example_tree_sel [simp]: "nTransactions example_tree = 3" "vBits example_tree = [True, True, False, True, False]"
    "vHash example_tree = [leaf 1, leaf 2, leaf 6]" "fBad example_tree = False"
  by (simp_all add: example_tree_def)

lemma example_leaves:
  "TraverseAndExtract sum_hash example_tree 0 0 \<lparr>nBitsUsed = 2, nHashUsed = 0, xMatch = [], vnIndex = [], xBad = False\<rparr> =
     (leaf 1, \<lparr>nBitsUsed = 3, nHashUsed = 1, xMatch = [], vnIndex = [], xBad = False\<rparr>)"
  "TraverseAndExtract sum_hash example_tree 0 1 \<lparr>nBitsUsed = 3, nHashUsed = 1, xMatch = [], vnIndex = [], xBad = False\<rparr> =
     (leaf 2, \<lparr>nBitsUsed = 4, nHashUsed = 2, xMatch = [leaf 2], vnIndex = [1], xBad = False\<rparr>)"
  by (simp_all add: use_hash_def Let_def)

lemma example_nodes:
  "TraverseAndExtract sum_hash example_tree (Suc 0) 0 \<lparr>nBitsUsed = 1, nHashUsed = 0, xMatch = [], vnIndex = [], xBad = False\<rparr> =
     (leaf 3, \<lparr>nBitsUsed = 4, nHashUsed = 2, xMatch = [leaf 2], vnIndex = [1], xBad = False\<rparr>)"
  "TraverseAndExtract sum_hash example_tree (Suc 0) 1 \<lparr>nBitsUsed = 4, nHashUsed = 2, xMatch = [leaf 2], vnIndex = [1], xBad = False\<rparr> =
     (leaf 6, \<lparr>nBitsUsed = 5, nHashUsed = 3, xMatch = [leaf 2], vnIndex = [1], xBad = False\<rparr>)"
  using example_leaves by (simp_all add: use_hash_def Let_def numeral_2_eq_2 del: TraverseAndExtract.simps(1))

lemma example_root:
  "TraverseAndExtract sum_hash example_tree 2 0 \<lparr>nBitsUsed = 0, nHashUsed = 0, xMatch = [], vnIndex = [], xBad = False\<rparr> =
     (leaf 9, \<lparr>nBitsUsed = 5, nHashUsed = 3, xMatch = [leaf 2], vnIndex = [1], xBad = False\<rparr>)"
  unfolding numeral_2_eq_2 TraverseAndExtract.simps(2) [of _ _ "Suc 0"] using example_nodes by (simp add: Let_def del: TraverseAndExtract.simps)

lemma example_extract:
  "ExtractMatches sum_hash example_tree [] = (leaf 9, [leaf 2], [1], example_tree)"
  using example_root by (simp add: ExtractMatches_def MaxBlockSize_def del: TraverseAndExtract.simps)

lemma example_inputs:
  "extract_inputs sum_hash example_tree 2 0 \<lparr>nBitsUsed = 0, nHashUsed = 0, xMatch = [], vnIndex = [], xBad = False\<rparr> =
     {leaf 3 @ leaf 6, leaf 1 @ leaf 2}"
  unfolding numeral_2_eq_2 using example_leaves example_nodes by (simp add: Let_def numeral_2_eq_2 del: TraverseAndExtract.simps)

theorem ExtractMatches_sound_witness:
  "ExtractMatches sum_hash example_tree [] = (leaf 9, [leaf 2], [1], example_tree) \<and>
   (\<exists>new. [leaf 2] = map (\<lambda>i. [leaf 1, leaf 2, leaf 3] ! i) new \<and> [1] = [] @ new \<and> sorted_wrt (<) new \<and> set new \<subseteq> {..<length [leaf 1, leaf 2, leaf 3]})"
proof -
  have "inj_on sum_hash {leaf 1 @ leaf 2, leaf 3 @ leaf 3, leaf 3 @ leaf 6}"
    by (rule inj_onI) (elim insertE emptyE, simp_all)
  then have i: "inj_on sum_hash (merkle_inputs sum_hash [leaf 1, leaf 2, leaf 3] \<union>
     extract_inputs sum_hash example_tree (levels [leaf 1, leaf 2, leaf 3]) 0 \<lparr>nBitsUsed = 0, nHashUsed = 0, xMatch = [], vnIndex = [], xBad = fBad example_tree\<rparr>)"
    unfolding inputs_3 levels_3 example_tree_sel example_inputs by (rule inj_on_subset) blast
  show ?thesis
    using ExtractMatches_sound [OF _ _ _ _ _ _ i, of "[leaf 2]" "[1]" example_tree] example_extract sizes_leaves [of "[1, 2, 3]"]
    by (simp add: root_3)
qed

end
