(* ===== verification/Coins.thy ===== *)
theory Coins
  imports Block Script_Safety Tx_Check "HOL-Library.AList"
begin

unbundle bit_operations_syntax

text \<open>
  The set of unspent transaction outputs (src/src/coins.h, src/src/coins.cpp and \<^verbatim>\<open>CCoinsViewDB\<close> of src/src/txdb.cpp):
  coins, the cache entries with their flags, the caches that back each other, the writes of a flush into a cache and into
  the database.  LevelDB is the map of its records, to which a batch is applied as a whole; the estimated size of a batch
  is a parameter.  \<^verbatim>\<open>cachedCoinsUsage\<close>, which counts the memory of the allocator, is left out.
  The properties show that the stack of caches implements nested transactions on a plain map, for every sequence of
  operations, and that a flush which a crash interrupts can be repeated.
\<close>

section \<open>Coins\<close>

record Coin =
  out :: CTxOut
  fCoinBase :: bool
  coin_nHeight :: "31 word"

definition Coin_of :: "CTxOut \<Rightarrow> int \<Rightarrow> bool \<Rightarrow> Coin" where
  "Coin_of txout nHeightIn fCoinBaseIn = \<lparr>out = txout, fCoinBase = fCoinBaseIn, coin_nHeight = word_of_int nHeightIn\<rparr>"

definition Coin_null :: Coin where
  "Coin_null = \<lparr>out = CTxOut_null, fCoinBase = False, coin_nHeight = 0\<rparr>"

definition IsSpent :: "Coin \<Rightarrow> bool" where
  "IsSpent c \<longleftrightarrow> CTxOut_IsNull (out c)"

record CCoinsCacheEntry =
  coin :: Coin
  coin_flags :: u8

abbreviation (input) DIRTY :: u8 where "DIRTY \<equiv> 1"
abbreviation (input) FRESH :: u8 where "FRESH \<equiv> 2"

definition CCoinsCacheEntry_null :: CCoinsCacheEntry where
  "CCoinsCacheEntry_null = \<lparr>coin = Coin_null, coin_flags = 0\<rparr>"

text \<open>
  A map of cached coins is the list of its entries in the order in which an iteration meets them, which the source leaves
  unspecified.  A cache has the map and a best block, null as long as it is the one of the view below.
\<close>

type_synonym CCoinsMap = "(COutPoint \<times> CCoinsCacheEntry) list"

record CCoinsViewCache =
  coins_hashBlock :: uint256
  cacheCoins :: CCoinsMap

text \<open>The coins database: the records that it stores under the keys of coins, of the best block and of the head blocks.\<close>

record coins_db =
  db_coins :: "COutPoint \<Rightarrow> Coin option"
  db_best :: "uint256 option"
  db_heads :: "uint256 list option"

text \<open>The views that back each other: the cache on top, the caches below it, the database.\<close>

record coins_state =
  top_cache :: CCoinsViewCache
  base_caches :: "CCoinsViewCache list"
  coins_disk :: coins_db

section \<open>The cache\<close>

text \<open>\<^verbatim>\<open>base_GetCoin\<close> and \<^verbatim>\<open>b\<close> are the virtual function and the state of the view below.\<close>

definition FetchCoin :: "(COutPoint \<Rightarrow> Coin option \<times> 'b) \<Rightarrow> CCoinsViewCache \<Rightarrow> 'b \<Rightarrow> COutPoint \<Rightarrow> CCoinsCacheEntry option \<times> CCoinsViewCache \<times> 'b" where
  "FetchCoin base_GetCoin c b outpoint =
     (case map_of (cacheCoins c) outpoint of
        Some it \<Rightarrow> (Some it, c, b)
      | None \<Rightarrow>
          (case base_GetCoin outpoint of
             (None, b) \<Rightarrow> (None, c, b)
           | (Some tmp, b) \<Rightarrow>
               let ret = \<lparr>coin = tmp, coin_flags = 0\<rparr>;
                   ret = (if IsSpent (coin ret) then ret\<lparr>coin_flags := FRESH\<rparr> else ret)
               in (Some ret, c\<lparr>cacheCoins := cacheCoins c @ [(outpoint, ret)]\<rparr>, b)))"

definition unspent_coin :: "CCoinsCacheEntry option \<Rightarrow> Coin option" where
  "unspent_coin it = (case it of Some e \<Rightarrow> if IsSpent (coin e) then None else Some (coin e) | None \<Rightarrow> None)"

primrec view_GetCoin :: "coins_db \<Rightarrow> CCoinsViewCache list \<Rightarrow> COutPoint \<Rightarrow> Coin option \<times> CCoinsViewCache list" where
  "view_GetCoin db [] outpoint = (db_coins db outpoint, [])"
| "view_GetCoin db (c # cs) outpoint =
     (let (it, c, cs) = FetchCoin (view_GetCoin db cs) c cs outpoint in (unspent_coin it, c # cs))"

definition coins_fetch :: "COutPoint \<Rightarrow> coins_state \<Rightarrow> CCoinsCacheEntry option \<times> coins_state" where
  "coins_fetch outpoint s =
     (let (it, c, cs) = FetchCoin (view_GetCoin (coins_disk s) (base_caches s)) (top_cache s) (base_caches s) outpoint
      in (it, s\<lparr>top_cache := c, base_caches := cs\<rparr>))"

definition GetCoin :: "COutPoint \<Rightarrow> coins_state \<Rightarrow> Coin option \<times> coins_state" where
  "GetCoin outpoint s = (let (it, s) = coins_fetch outpoint s in (unspent_coin it, s))"

definition AccessCoin :: "COutPoint \<Rightarrow> coins_state \<Rightarrow> Coin \<times> coins_state" where
  "AccessCoin outpoint s = (let (it, s) = coins_fetch outpoint s in (case it of None \<Rightarrow> Coin_null | Some e \<Rightarrow> coin e, s))"

definition HaveCoin :: "COutPoint \<Rightarrow> coins_state \<Rightarrow> bool \<times> coins_state" where
  "HaveCoin outpoint s = (let (it, s) = coins_fetch outpoint s in (case it of None \<Rightarrow> False | Some e \<Rightarrow> \<not> IsSpent (coin e), s))"

definition HaveCoinInCache :: "COutPoint \<Rightarrow> CCoinsViewCache \<Rightarrow> bool" where
  "HaveCoinInCache outpoint c = (case map_of (cacheCoins c) outpoint of None \<Rightarrow> False | Some e \<Rightarrow> \<not> IsSpent (coin e))"

definition AddCoin :: "COutPoint \<Rightarrow> Coin \<Rightarrow> bool \<Rightarrow> coins_state \<Rightarrow> coins_state outcome" where
  "AddCoin outpoint new possible_overwrite s =
     (if IsSpent new then Abort
      else if IsUnspendable (scriptPubKey (out new)) then Ok s
      else let c = top_cache s;
               it = (case map_of (cacheCoins c) outpoint of None \<Rightarrow> CCoinsCacheEntry_null | Some e \<Rightarrow> e)
           in if \<not> possible_overwrite \<and> \<not> IsSpent (coin it) then Throw
              else let fresh = (\<not> possible_overwrite \<and> coin_flags it AND DIRTY = 0);
                       it = it\<lparr>coin := new, coin_flags := coin_flags it OR (DIRTY OR (if fresh then FRESH else 0))\<rparr>
                   in Ok (s\<lparr>top_cache := c\<lparr>cacheCoins := AList.update outpoint it (cacheCoins c)\<rparr>\<rparr>))"

text \<open>The second component is what \<^verbatim>\<open>SpendCoin\<close> moves out.\<close>

definition SpendCoin :: "COutPoint \<Rightarrow> coins_state \<Rightarrow> Coin option \<times> coins_state" where
  "SpendCoin outpoint s =
     (let (it, s) = coins_fetch outpoint s; c = top_cache s
      in case it of
           None \<Rightarrow> (None, s)
         | Some e \<Rightarrow>
             (Some (coin e),
              s\<lparr>top_cache := c\<lparr>cacheCoins :=
                 (if coin_flags e AND FRESH \<noteq> 0 then AList.delete outpoint (cacheCoins c)
                  else AList.update outpoint (e\<lparr>coin_flags := coin_flags e OR DIRTY, coin := Coin_null\<rparr>) (cacheCoins c))\<rparr>\<rparr>))"

definition Uncache :: "COutPoint \<Rightarrow> coins_state \<Rightarrow> coins_state" where
  "Uncache outpoint s =
     (let c = top_cache s
      in case map_of (cacheCoins c) outpoint of
           None \<Rightarrow> s
         | Some e \<Rightarrow> if coin_flags e = 0 then s\<lparr>top_cache := c\<lparr>cacheCoins := AList.delete outpoint (cacheCoins c)\<rparr>\<rparr> else s)"

definition db_GetBestBlock :: "coins_db \<Rightarrow> uint256" where
  "db_GetBestBlock db = (case db_best db of None \<Rightarrow> uint256_null | Some h \<Rightarrow> h)"

definition db_GetHeadBlocks :: "coins_db \<Rightarrow> uint256 list" where
  "db_GetHeadBlocks db = (case db_heads db of None \<Rightarrow> [] | Some hs \<Rightarrow> hs)"

primrec view_GetBestBlock :: "coins_db \<Rightarrow> CCoinsViewCache list \<Rightarrow> uint256 \<times> CCoinsViewCache list" where
  "view_GetBestBlock db [] = (db_GetBestBlock db, [])"
| "view_GetBestBlock db (c # cs) =
     (let (h, cs) = (if coins_hashBlock c = uint256_null then view_GetBestBlock db cs else (coins_hashBlock c, cs))
      in (h, c\<lparr>coins_hashBlock := h\<rparr> # cs))"

definition coins_GetBestBlock :: "coins_state \<Rightarrow> uint256 \<times> coins_state" where
  "coins_GetBestBlock s =
     (let (h, cs) = view_GetBestBlock (coins_disk s) (top_cache s # base_caches s)
      in (h, s\<lparr>top_cache := hd cs, base_caches := tl cs\<rparr>))"

definition SetBestBlock :: "uint256 \<Rightarrow> coins_state \<Rightarrow> coins_state" where
  "SetBestBlock h s = s\<lparr>top_cache := (top_cache s)\<lparr>coins_hashBlock := h\<rparr>\<rparr>"

section \<open>Flushing\<close>

text \<open>One entry of the child cache, written into the map of the parent cache.\<close>

definition write_entry :: "COutPoint \<Rightarrow> CCoinsCacheEntry \<Rightarrow> CCoinsMap \<Rightarrow> CCoinsMap outcome" where
  "write_entry outpoint e m =
     (if coin_flags e AND DIRTY = 0 then Ok m
      else case map_of m outpoint of
          None \<Rightarrow>
            Ok (if coin_flags e AND FRESH \<noteq> 0 \<and> IsSpent (coin e) then m
                else AList.update outpoint \<lparr>coin = coin e, coin_flags = (if coin_flags e AND FRESH \<noteq> 0 then DIRTY OR FRESH else DIRTY)\<rparr> m)
        | Some us \<Rightarrow>
            if coin_flags e AND FRESH \<noteq> 0 \<and> \<not> IsSpent (coin us) then Throw
            else Ok (if coin_flags us AND FRESH \<noteq> 0 \<and> IsSpent (coin e) then AList.delete outpoint m
                     else AList.update outpoint (us\<lparr>coin := coin e, coin_flags := coin_flags us OR DIRTY\<rparr>) m))"

primrec write_entries :: "CCoinsMap \<Rightarrow> CCoinsMap \<Rightarrow> CCoinsMap outcome" where
  "write_entries [] m = Ok m"
| "write_entries (x # xs) m = obind (write_entry (fst x) (snd x) m) (write_entries xs)"

definition cache_BatchWrite :: "CCoinsMap \<Rightarrow> uint256 \<Rightarrow> CCoinsViewCache \<Rightarrow> CCoinsViewCache outcome" where
  "cache_BatchWrite mapCoins hashBlockIn c =
     obind (write_entries mapCoins (cacheCoins c)) (\<lambda>m. Ok (c\<lparr>cacheCoins := m, coins_hashBlock := hashBlockIn\<rparr>))"

datatype db_change = EraseCoin COutPoint | WriteCoin COutPoint Coin | EraseBest | WriteBest uint256 | EraseHeads | WriteHeads "uint256 list"

primrec db_apply :: "db_change \<Rightarrow> coins_db \<Rightarrow> coins_db" where
  "db_apply (EraseCoin k) db = db\<lparr>db_coins := (db_coins db)(k := None)\<rparr>"
| "db_apply (WriteCoin k c) db = db\<lparr>db_coins := (db_coins db)(k := Some c)\<rparr>"
| "db_apply EraseBest db = db\<lparr>db_best := None\<rparr>"
| "db_apply (WriteBest h) db = db\<lparr>db_best := Some h\<rparr>"
| "db_apply EraseHeads db = db\<lparr>db_heads := None\<rparr>"
| "db_apply (WriteHeads hs) db = db\<lparr>db_heads := Some hs\<rparr>"

definition WriteBatch :: "db_change list \<Rightarrow> coins_db \<Rightarrow> coins_db" where
  "WriteBatch batch db = fold db_apply batch db"

text \<open>
  The batches that a flush to the database writes, in order.  \<^verbatim>\<open>full\<close> tells whether the estimated size of a batch exceeds
  the batch size of the settings.
\<close>

primrec db_batches :: "(db_change list \<Rightarrow> bool) \<Rightarrow> uint256 \<Rightarrow> CCoinsMap \<Rightarrow> db_change list \<Rightarrow> db_change list list" where
  "db_batches full h [] batch = [batch @ [EraseHeads, WriteBest h]]"
| "db_batches full h (x # xs) batch =
     (let batch = (if coin_flags (snd x) AND DIRTY \<noteq> 0
                   then batch @ [if IsSpent (coin (snd x)) then EraseCoin (fst x) else WriteCoin (fst x) (coin (snd x))] else batch)
      in if full batch then batch # db_batches full h xs [] else db_batches full h xs batch)"

definition db_BatchWrite :: "(db_change list \<Rightarrow> bool) \<Rightarrow> CCoinsMap \<Rightarrow> uint256 \<Rightarrow> coins_db \<Rightarrow> db_change list list outcome" where
  "db_BatchWrite full mapCoins h db =
     (if h = uint256_null then Abort
      else let old_tip = db_GetBestBlock db; old_heads = db_GetHeadBlocks db
           in if old_tip = uint256_null \<and> length old_heads = 2 \<and> old_heads ! 0 \<noteq> h then Abort
              else let old_tip = (if old_tip = uint256_null \<and> length old_heads = 2 then old_heads ! 1 else old_tip)
                   in Ok (db_batches full h mapCoins [EraseBest, WriteHeads [h, old_tip]]))"

definition Flush :: "(db_change list \<Rightarrow> bool) \<Rightarrow> coins_state \<Rightarrow> coins_state outcome" where
  "Flush full s =
     (let c = top_cache s; s = s\<lparr>top_cache := c\<lparr>cacheCoins := []\<rparr>\<rparr>
      in case base_caches s of
           [] \<Rightarrow> obind (db_BatchWrite full (cacheCoins c) (coins_hashBlock c) (coins_disk s)) (\<lambda>batches.
                  Ok (s\<lparr>coins_disk := fold WriteBatch batches (coins_disk s)\<rparr>))
         | b # bs \<Rightarrow> obind (cache_BatchWrite (cacheCoins c) (coins_hashBlock c) b) (\<lambda>b.
                  Ok (s\<lparr>base_caches := b # bs\<rparr>)))"

section \<open>What a stack of views shows\<close>

text \<open>
  The abstract state: every view shows a partial map of unspent coins and a best block.  The list has the views from the
  top one down to the database.
\<close>

type_synonym utxo = "COutPoint \<Rightarrow> Coin option"

definition visible :: "CCoinsCacheEntry \<Rightarrow> Coin option" where
  "visible e = (if IsSpent (coin e) then None else Some (coin e))"

definition overlay :: "utxo \<Rightarrow> CCoinsMap \<Rightarrow> utxo" where
  "overlay U m k = (case map_of m k of None \<Rightarrow> U k | Some e \<Rightarrow> visible e)"

primrec utxo :: "coins_db \<Rightarrow> CCoinsViewCache list \<Rightarrow> utxo" where
  "utxo db [] = db_coins db"
| "utxo db (c # cs) = overlay (utxo db cs) (cacheCoins c)"

primrec best :: "coins_db \<Rightarrow> CCoinsViewCache list \<Rightarrow> uint256" where
  "best db [] = db_GetBestBlock db"
| "best db (c # cs) = (if coins_hashBlock c = uint256_null then best db cs else coins_hashBlock c)"

primrec views :: "coins_db \<Rightarrow> CCoinsViewCache list \<Rightarrow> (utxo \<times> uint256) list" where
  "views db [] = [(utxo db [], best db [])]"
| "views db (c # cs) = (utxo db (c # cs), best db (c # cs)) # views db cs"

text \<open>
  The invariant of the flags: an entry that is not dirty agrees with the view below, a fresh entry has no unspent coin
  below it, and a spent entry is dirty and not fresh.
\<close>

definition dirty :: "CCoinsCacheEntry \<Rightarrow> bool" where "dirty e \<longleftrightarrow> bit (coin_flags e) 0"
definition fresh :: "CCoinsCacheEntry \<Rightarrow> bool" where "fresh e \<longleftrightarrow> bit (coin_flags e) 1"

definition entry_valid :: "Coin option \<Rightarrow> CCoinsCacheEntry \<Rightarrow> bool" where
  "entry_valid below e \<longleftrightarrow> (\<not> dirty e \<longrightarrow> visible e = below) \<and> (fresh e \<longrightarrow> below = None) \<and>
     (IsSpent (coin e) \<longrightarrow> dirty e \<and> \<not> fresh e)"

definition cache_valid :: "utxo \<Rightarrow> CCoinsMap \<Rightarrow> bool" where
  "cache_valid U m \<longleftrightarrow> distinct (map fst m) \<and> (\<forall>k e. map_of m k = Some e \<longrightarrow> entry_valid (U k) e)"

primrec views_valid :: "coins_db \<Rightarrow> CCoinsViewCache list \<Rightarrow> bool" where
  "views_valid db [] \<longleftrightarrow> (\<forall>k c. db_coins db k = Some c \<longrightarrow> \<not> IsSpent c)"
| "views_valid db (c # cs) \<longleftrightarrow> cache_valid (utxo db cs) (cacheCoins c) \<and> views_valid db cs"

named_theorems coin_simps \<open>flags and coins of cache entries\<close>

lemma and_dirty [coin_simps]: "f AND DIRTY = 0 \<longleftrightarrow> \<not> bit f 0" for f :: u8
  using and_exp_eq_0_iff_not_bit [of f 0] by simp

lemma and_fresh [coin_simps]: "f AND FRESH = 0 \<longleftrightarrow> \<not> bit f 1" for f :: u8
  using and_exp_eq_0_iff_not_bit [of f 1] by simp

lemma flag_bits [simp]: "bit (1 :: u8) 0" "\<not> bit (1 :: u8) (Suc 0)" "\<not> bit (2 :: u8) 0" "bit (2 :: u8) (Suc 0)" "bit (3 :: u8) 0" "bit (3 :: u8) (Suc 0)"
  by (simp_all add: bit_numeral_rec)

lemma flags_or [coin_simps]: "bit (f OR g) n \<longleftrightarrow> bit f n \<or> bit g n" for f g :: u8
  by (simp add: bit_or_iff)

lemma spent_null [simp]: "IsSpent Coin_null"
  by (simp add: IsSpent_def Coin_null_def CTxOut_null_def CTxOut_IsNull_def)

lemma unspent_visible: "unspent_coin (Some e) = visible e" "unspent_coin None = None"
  by (simp_all add: unspent_coin_def visible_def)

lemma visible_unspent: "visible e = Some c \<Longrightarrow> \<not> IsSpent c"
  by (auto simp: visible_def split: if_splits)

lemma utxo_unspent: "views_valid db cs \<Longrightarrow> utxo db cs k = Some c \<Longrightarrow> \<not> IsSpent c"
  by (induction cs) (auto simp: overlay_def visible_unspent split: option.splits)

lemma views_hd: "views db cs = (utxo db cs, best db cs) # tl (views db cs)"
  by (cases cs) simp_all

lemma views_eqD: "views db cs' = views db cs \<Longrightarrow> utxo db cs' = utxo db cs \<and> best db cs' = best db cs"
  using views_hd [of db cs] views_hd [of db cs'] by (metis list.inject prod.inject)

lemma overlay_update: "overlay U (AList.update k e m) = (overlay U m)(k := visible e)"
  by (rule ext) (simp add: overlay_def update_conv')

lemma overlay_delete: "overlay U (AList.delete k m) = (overlay U m)(k := U k)"
  by (rule ext) (simp add: overlay_def delete_conv')

lemma cache_valid_update:
  "cache_valid U m \<Longrightarrow> entry_valid (U k) e \<Longrightarrow> cache_valid U (AList.update k e m)"
  by (auto simp: cache_valid_def update_conv' distinct_update split: if_splits)

lemma cache_valid_delete: "cache_valid U m \<Longrightarrow> cache_valid U (AList.delete k m)"
  by (auto simp: cache_valid_def delete_conv' distinct_delete restrict_map_def split: if_splits)

lemma cache_validD: "cache_valid U m \<Longrightarrow> map_of m k = Some e \<Longrightarrow> entry_valid (U k) e"
  by (simp add: cache_valid_def)

section \<open>Reading\<close>

lemma FetchCoin_valid:
  assumes "cache_valid U (cacheCoins c)" "\<And>x. U k = Some x \<Longrightarrow> \<not> IsSpent x" "base_GetCoin k = (U k, b')"
  shows "\<exists>it c' b''. FetchCoin base_GetCoin c b k = (it, c', b'') \<and> (b'' = b \<or> b'' = b') \<and> it = map_of (cacheCoins c') k \<and>
    coins_hashBlock c' = coins_hashBlock c \<and> cache_valid U (cacheCoins c') \<and> overlay U (cacheCoins c') = overlay U (cacheCoins c) \<and>
    unspent_coin it = overlay U (cacheCoins c) k"
proof (cases "map_of (cacheCoins c) k")
  case (Some e)
  then show ?thesis using assms(1) by (simp add: FetchCoin_def overlay_def unspent_visible)
next
  case None
  note n = this
  show ?thesis
  proof (cases "U k")
    case None
    then show ?thesis using n assms(1,3) by (simp add: FetchCoin_def overlay_def unspent_visible)
  next
    case (Some x)
    define e where "e = \<lparr>coin = x, coin_flags = 0\<rparr>"
    have x: "\<not> IsSpent x" "visible e = Some x" "entry_valid (U k) e"
      using assms(2) Some by (auto simp: e_def visible_def entry_valid_def dirty_def fresh_def)
    have f: "FetchCoin base_GetCoin c b k = (Some e, c\<lparr>cacheCoins := cacheCoins c @ [(k, e)]\<rparr>, b')"
      using n assms(3) Some x(1) by (simp add: FetchCoin_def e_def Let_def)
    have m: "map_of (cacheCoins c @ [(k, e)]) = (map_of (cacheCoins c))(k \<mapsto> e)"
      using n by (auto simp: map_add_def fun_eq_iff split: option.splits)
    have "cache_valid U (cacheCoins c @ [(k, e)])"
      using assms(1) n x(3) unfolding cache_valid_def m by (auto simp: map_of_eq_None_iff)
    moreover have "overlay U (cacheCoins c @ [(k, e)]) = overlay U (cacheCoins c)"
      using n Some x(2) unfolding overlay_def m by auto
    moreover have "unspent_coin (Some e) = overlay U (cacheCoins c) k" using n Some x(2) by (simp add: unspent_visible overlay_def)
    ultimately show ?thesis using f m by simp
  qed
qed

lemma view_GetCoin_valid:
  assumes "views_valid db cs"
  shows "\<exists>cs'. view_GetCoin db cs k = (utxo db cs k, cs') \<and> views_valid db cs' \<and> views db cs' = views db cs"
  using assms
proof (induction cs)
  case (Cons c cs)
  obtain cs1 where b: "view_GetCoin db cs k = (utxo db cs k, cs1)" "views_valid db cs1" "views db cs1 = views db cs"
    using Cons by auto
  obtain it c' cs2 where f: "FetchCoin (view_GetCoin db cs) c cs k = (it, c', cs2)" "cs2 = cs \<or> cs2 = cs1" "it = map_of (cacheCoins c') k"
    "coins_hashBlock c' = coins_hashBlock c" "cache_valid (utxo db cs) (cacheCoins c')"
    "overlay (utxo db cs) (cacheCoins c') = overlay (utxo db cs) (cacheCoins c)" "unspent_coin it = overlay (utxo db cs) (cacheCoins c) k"
    using FetchCoin_valid [of "utxo db cs" c k "view_GetCoin db cs" cs1 cs] Cons.prems utxo_unspent [of db cs k] b(1) by auto
  have v: "views_valid db cs2" "views db cs2 = views db cs" using f(2) b Cons.prems by auto
  show ?case using f v views_eqD [OF v(2)] by simp
qed simp

text \<open>The whole state: every view is valid, and the database is not in the middle of a flush.\<close>

definition coins_valid :: "coins_state \<Rightarrow> bool" where
  "coins_valid s \<longleftrightarrow> views_valid (coins_disk s) (top_cache s # base_caches s) \<and> db_heads (coins_disk s) = None"

definition coins_views :: "coins_state \<Rightarrow> (utxo \<times> uint256) list" where
  "coins_views s = views (coins_disk s) (top_cache s # base_caches s)"

definition coins :: "coins_state \<Rightarrow> utxo" where "coins s = fst (hd (coins_views s))"

lemma coins_utxo: "coins s = overlay (utxo (coins_disk s) (base_caches s)) (cacheCoins (top_cache s))"
  by (simp add: coins_def coins_views_def)

lemma coins_fetch_valid:
  assumes "coins_valid s"
  obtains it s' where "coins_fetch k s = (it, s')" "it = map_of (cacheCoins (top_cache s')) k" "coins_valid s'"
    "coins_views s' = coins_views s" "unspent_coin it = coins s k" "coins_hashBlock (top_cache s') = coins_hashBlock (top_cache s)"
    "length (base_caches s') = length (base_caches s)"
proof -
  let ?db = "coins_disk s" and ?cs = "base_caches s" and ?c = "top_cache s"
  have v: "views_valid ?db ?cs" "cache_valid (utxo ?db ?cs) (cacheCoins ?c)" using assms by (simp_all add: coins_valid_def)
  obtain cs1 where b: "view_GetCoin ?db ?cs k = (utxo ?db ?cs k, cs1)" "views_valid ?db cs1" "views ?db cs1 = views ?db ?cs"
    using view_GetCoin_valid [OF v(1)] by blast
  obtain it c' cs2 where f: "FetchCoin (view_GetCoin ?db ?cs) ?c ?cs k = (it, c', cs2)" "cs2 = ?cs \<or> cs2 = cs1" "it = map_of (cacheCoins c') k"
    "coins_hashBlock c' = coins_hashBlock ?c" "cache_valid (utxo ?db ?cs) (cacheCoins c')"
    "overlay (utxo ?db ?cs) (cacheCoins c') = overlay (utxo ?db ?cs) (cacheCoins ?c)" "unspent_coin it = overlay (utxo ?db ?cs) (cacheCoins ?c) k"
    using FetchCoin_valid [of "utxo ?db ?cs" ?c k "view_GetCoin ?db ?cs" cs1 ?cs] v utxo_unspent [OF v(1)] b(1) by blast
  have v2: "views_valid ?db cs2" "views ?db cs2 = views ?db ?cs" using f(2) b v(1) by auto
  have len: "length (views ?db cs) = Suc (length cs)" for cs by (induction cs) simp_all
  have "length cs2 = length ?cs" using arg_cong [OF v2(2), of length] by (simp add: len)
  then show ?thesis using that [of it "s\<lparr>top_cache := c', base_caches := cs2\<rparr>"] f v2 views_eqD [OF v2(2)] assms
    by (simp add: coins_fetch_def coins_valid_def coins_views_def coins_utxo)
qed

section \<open>Writing\<close>

lemma AddCoin_valid:
  assumes "coins_valid s" "\<not> IsSpent x" "possible_overwrite \<or> coins s k = None"
  shows "\<exists>s'. AddCoin k x possible_overwrite s = Ok s' \<and> coins_valid s' \<and> length (base_caches s') = length (base_caches s) \<and>
    coins_hashBlock (top_cache s') = coins_hashBlock (top_cache s) \<and>
    coins_views s' = ((if IsUnspendable (scriptPubKey (out x)) then coins s else (coins s)(k \<mapsto> x)), snd (hd (coins_views s))) # tl (coins_views s)"
proof (cases "IsUnspendable (scriptPubKey (out x))")
  case True
  then show ?thesis using assms by (simp add: AddCoin_def coins_def) (simp add: coins_views_def)
next
  case False
  let ?U = "utxo (coins_disk s) (base_caches s)" and ?m = "cacheCoins (top_cache s)"
  define it where "it = (case map_of ?m k of None \<Rightarrow> CCoinsCacheEntry_null | Some e \<Rightarrow> e)"
  define nw where "nw = (\<not> possible_overwrite \<and> coin_flags it AND DIRTY = 0)"
  define it' where "it' = it\<lparr>coin := x, coin_flags := coin_flags it OR (DIRTY OR (if nw then FRESH else 0))\<rparr>"
  have v: "cache_valid ?U ?m" using assms(1) by (simp add: coins_valid_def)
  have sp: "IsSpent (coin it)" if "\<not> possible_overwrite"
    using that assms(3) by (auto simp: it_def coins_utxo overlay_def visible_def CCoinsCacheEntry_null_def split: option.splits if_splits)
  have below: "?U k = None" if "fresh it'"
  proof (cases "map_of ?m k")
    case None
    then show ?thesis using that assms(3) by (auto simp: fresh_def it'_def it_def nw_def coin_simps CCoinsCacheEntry_null_def coins_utxo overlay_def split: if_splits)
  next
    case (Some e)
    then have e: "it = e" "entry_valid (?U k) e" using cache_validD [OF v] by (simp_all add: it_def)
    show ?thesis
    proof (cases "fresh e")
      case False
      then have "nw" using that e(1) by (auto simp: fresh_def it'_def coin_simps split: if_splits)
      then have "\<not> dirty e" "visible e = None" using sp e(1) by (auto simp: nw_def coin_simps dirty_def visible_def)
      then show ?thesis using e(2) by (simp add: entry_valid_def)
    qed (use e(2) in \<open>simp add: entry_valid_def\<close>)
  qed
  have "dirty it'" by (simp add: dirty_def it'_def coin_simps)
  then have ok: "entry_valid (?U k) it'" using below assms(2) by (auto simp: entry_valid_def it'_def)
  have vis: "visible it' = Some x" using assms(2) by (simp add: visible_def it'_def)
  have "AddCoin k x possible_overwrite s = Ok (s\<lparr>top_cache := (top_cache s)\<lparr>cacheCoins := AList.update k it' ?m\<rparr>\<rparr>)"
  proof -
    have "\<not> (\<not> possible_overwrite \<and> \<not> IsSpent (coin it))" using sp by blast
    then show ?thesis using False assms(2) unfolding AddCoin_def it'_def nw_def it_def by (simp only: Let_def if_False if_True simp_thms)
  qed
  then show ?thesis using False assms(1) cache_valid_update [OF v ok] vis
    by (simp add: coins_valid_def coins_views_def coins_utxo overlay_update)
qed

lemma SpendCoin_valid:
  assumes "coins_valid s"
  shows "\<exists>r s'. SpendCoin k s = (r, s') \<and> coins_valid s' \<and> length (base_caches s') = length (base_caches s) \<and>
    coins_hashBlock (top_cache s') = coins_hashBlock (top_cache s) \<and>
    coins_views s' = ((coins s)(k := None), snd (hd (coins_views s))) # tl (coins_views s) \<and>
    (case coins s k of Some x \<Rightarrow> r = Some x | None \<Rightarrow> (\<forall>x. r = Some x \<longrightarrow> IsSpent x))"
proof -
  obtain it s1 where f: "coins_fetch k s = (it, s1)" "it = map_of (cacheCoins (top_cache s1)) k" "coins_valid s1"
    "coins_views s1 = coins_views s" "unspent_coin it = coins s k" "coins_hashBlock (top_cache s1) = coins_hashBlock (top_cache s)"
    "length (base_caches s1) = length (base_caches s)"
    using coins_fetch_valid [OF assms] .
  let ?U = "utxo (coins_disk s1) (base_caches s1)" and ?m = "cacheCoins (top_cache s1)"
  have v: "cache_valid ?U ?m" using f(3) by (simp add: coins_valid_def)
  have cs: "coins s = overlay ?U ?m" using f(4) coins_utxo [of s1] by (simp add: coins_def)
  show ?thesis
  proof (cases it)
    case None
    then have n: "coins s k = None" using f(5) by (simp add: unspent_visible)
    then have "(coins s)(k := None) = coins s" by (simp add: fun_upd_idem)
    moreover have "coins_views s = (coins s, snd (hd (coins_views s))) # tl (coins_views s)" by (simp add: coins_def coins_views_def)
    ultimately show ?thesis using None f n by (simp add: SpendCoin_def)
  next
    case (Some e)
    have ev: "entry_valid (?U k) e" using cache_validD [OF v] f(2) Some by simp
    define m' where "m' = (if coin_flags e AND FRESH \<noteq> 0 then AList.delete k ?m
                  else AList.update k (e\<lparr>coin_flags := coin_flags e OR DIRTY, coin := Coin_null\<rparr>) ?m)"
    have "cache_valid ?U m' \<and> overlay ?U m' = (overlay ?U ?m)(k := None)"
    proof (cases "fresh e")
      case True
      then show ?thesis using ev cache_valid_delete [OF v] by (simp add: m'_def coin_simps fresh_def overlay_delete entry_valid_def)
    next
      case False
      then have "entry_valid (?U k) (e\<lparr>coin_flags := coin_flags e OR DIRTY, coin := Coin_null\<rparr>)"
        by (simp add: entry_valid_def dirty_def fresh_def coin_simps)
      then show ?thesis using False cache_valid_update [OF v] by (simp add: m'_def coin_simps fresh_def overlay_update visible_def)
    qed
    moreover have "SpendCoin k s = (Some (coin e), s1\<lparr>top_cache := (top_cache s1)\<lparr>cacheCoins := m'\<rparr>\<rparr>)"
      using f(1) Some by (simp add: SpendCoin_def m'_def Let_def)
    moreover have "case coins s k of Some x \<Rightarrow> coin e = x | None \<Rightarrow> IsSpent (coin e)"
      using f(5) Some by (cases "coins s k") (auto simp: unspent_visible visible_def split: if_splits)
    ultimately show ?thesis using f(3,4,6,7) cs by (auto simp: coins_valid_def coins_views_def split: option.splits)
  qed
qed

lemma Uncache_valid:
  assumes "coins_valid s"
  shows "coins_valid (Uncache k s) \<and> coins_views (Uncache k s) = coins_views s \<and> base_caches (Uncache k s) = base_caches s \<and>
    coins_hashBlock (top_cache (Uncache k s)) = coins_hashBlock (top_cache s)"
proof (cases "map_of (cacheCoins (top_cache s)) k")
  case (Some e)
  let ?U = "utxo (coins_disk s) (base_caches s)" and ?m = "cacheCoins (top_cache s)"
  have v: "cache_valid ?U ?m" using assms by (simp add: coins_valid_def)
  have "overlay ?U (AList.delete k ?m) = overlay ?U ?m" if "coin_flags e = 0"
    using cache_validD [OF v Some] that Some unfolding overlay_delete by (auto simp: entry_valid_def dirty_def overlay_def fun_eq_iff)
  then show ?thesis using Some assms cache_valid_delete [OF v] by (simp add: Uncache_def Let_def coins_valid_def coins_views_def)
qed (use assms in \<open>simp add: Uncache_def\<close>)

section \<open>Best blocks\<close>

lemma view_GetBestBlock_valid:
  "\<exists>cs'. view_GetBestBlock db cs = (best db cs, cs') \<and> views db cs' = views db cs \<and> (views_valid db cs \<longrightarrow> views_valid db cs') \<and> length cs' = length cs"
proof (induction cs)
  case (Cons c cs)
  then obtain cs1 where b: "view_GetBestBlock db cs = (best db cs, cs1)" "views db cs1 = views db cs" "views_valid db cs \<longrightarrow> views_valid db cs1" "length cs1 = length cs"
    by blast
  show ?case using b views_eqD [OF b(2)] by (cases "coins_hashBlock c = uint256_null") auto
qed simp

lemma GetBestBlock_valid:
  assumes "coins_valid s"
  shows "\<exists>s'. coins_GetBestBlock s = (snd (hd (coins_views s)), s') \<and> coins_valid s' \<and> coins_views s' = coins_views s \<and>
    length (base_caches s') = length (base_caches s)"
proof -
  obtain cs' where c: "view_GetBestBlock (coins_disk s) (top_cache s # base_caches s) = (best (coins_disk s) (top_cache s # base_caches s), cs')"
    "views (coins_disk s) cs' = coins_views s" "views_valid (coins_disk s) cs'" "length cs' = Suc (length (base_caches s))"
    using view_GetBestBlock_valid [of "coins_disk s" "top_cache s # base_caches s"] assms unfolding coins_valid_def coins_views_def by auto
  then obtain c1 cs1 where "cs' = c1 # cs1" by (cases cs') auto
  then show ?thesis using c(2-4) assms unfolding coins_GetBestBlock_def c(1)
    by (simp add: coins_valid_def coins_views_def del: views.simps(2)) (simp add: views.simps(2))
qed

section \<open>Flushing is a copy\<close>

lemma write_entry_valid:
  assumes "cache_valid U p" "entry_valid (overlay U p k) e" "dirty e"
  shows "\<exists>p'. write_entry k e p = Ok p' \<and> cache_valid U p' \<and> overlay U p' = (overlay U p)(k := visible e)"
proof (cases "map_of p k")
  case None
  define e' where "e' = \<lparr>coin = coin e, coin_flags = (if fresh e then DIRTY OR FRESH else DIRTY)\<rparr>"
  have "write_entry k e p = Ok (AList.update k e' p)"
    using None assms(2,3) by (auto simp: write_entry_def e'_def coin_simps dirty_def fresh_def entry_valid_def)
  moreover have "entry_valid (U k) e'"
    using None assms(2,3) by (auto simp: entry_valid_def e'_def dirty_def fresh_def overlay_def coin_simps)
  ultimately show ?thesis using cache_valid_update [OF assms(1)] by (simp add: overlay_update e'_def visible_def)
next
  case (Some us)
  have us: "entry_valid (U k) us" by (rule cache_validD [OF assms(1) Some])
  have v: "overlay U p k = visible us" using Some by (simp add: overlay_def)
  have nt: "\<not> (fresh e \<and> \<not> IsSpent (coin us))" using assms(2) by (auto simp: v entry_valid_def visible_def)
  show ?thesis
  proof (cases "fresh us \<and> IsSpent (coin e)")
    case True
    then have "write_entry k e p = Ok (AList.delete k p)"
      using Some assms(3) nt by (auto simp: write_entry_def coin_simps dirty_def fresh_def)
    then show ?thesis using True us cache_valid_delete [OF assms(1)] by (simp add: overlay_delete entry_valid_def visible_def)
  next
    case False
    define us' where "us' = us\<lparr>coin := coin e, coin_flags := coin_flags us OR DIRTY\<rparr>"
    have "write_entry k e p = Ok (AList.update k us' p)"
      using Some assms(3) nt False by (auto simp: write_entry_def us'_def coin_simps dirty_def fresh_def)
    moreover have "entry_valid (U k) us'" using us False by (auto simp: entry_valid_def us'_def dirty_def fresh_def coin_simps)
    ultimately show ?thesis using cache_valid_update [OF assms(1)] by (simp add: overlay_update us'_def visible_def)
  qed
qed

lemma overlay_Cons: "overlay V ((k, e) # m) = (overlay V m)(k := visible e)"
  by (rule ext) (simp add: overlay_def)

lemma overlay_upd: "k \<notin> fst ` set m \<Longrightarrow> overlay (V(k := x)) m = (overlay V m)(k := x)"
  by (rule ext) (auto simp: overlay_def map_of_eq_None_iff [symmetric] split: option.splits)

lemma write_entries_valid:
  assumes "cache_valid U p" "cache_valid (overlay U p) m"
  shows "\<exists>p'. write_entries m p = Ok p' \<and> cache_valid U p' \<and> overlay U p' = overlay (overlay U p) m"
  using assms
proof (induction m arbitrary: p)
  case Nil
  then show ?case by (simp add: overlay_def fun_eq_iff)
next
  case (Cons x m)
  obtain k e where x: "x = (k, e)" by (cases x)
  have k: "k \<notin> fst ` set m" "distinct (map fst m)" "entry_valid (overlay U p k) e"
    using Cons.prems(2) by (auto simp: cache_valid_def x)
  have m: "entry_valid (overlay U p k') e'" "k' \<noteq> k" if "map_of m k' = Some e'" for k' e'
  proof -
    show n: "k' \<noteq> k" using that k(1) by (metis map_of_eq_None_iff option.distinct(1))
    show "entry_valid (overlay U p k') e'" using Cons.prems(2) that n by (auto simp: cache_valid_def x)
  qed
  obtain p1 where p1: "write_entry k e p = Ok p1" "cache_valid U p1" "overlay U p1 = (overlay U p)(k := visible e)"
  proof (cases "dirty e")
    case True
    then show ?thesis using that write_entry_valid [OF Cons.prems(1) k(3)] by blast
  next
    case False
    then have "visible e = overlay U p k" using k(3) by (simp add: entry_valid_def)
    then have "overlay U p = (overlay U p)(k := visible e)" by (simp add: fun_upd_idem)
    then show ?thesis using that [of p] False Cons.prems(1) by (simp add: write_entry_def coin_simps dirty_def)
  qed
  have "cache_valid (overlay U p1) m" using k(2) m unfolding cache_valid_def p1(3) by auto
  then obtain p' where "write_entries m p1 = Ok p'" "cache_valid U p'" "overlay U p' = overlay (overlay U p1) m"
    using Cons.IH [OF p1(2)] by blast
  moreover have "overlay (overlay U p) (x # m) = overlay (overlay U p1) m" unfolding x overlay_Cons p1(3) overlay_upd [OF k(1)] ..
  ultimately show ?case using p1(1) by (simp add: x)
qed

text \<open>The changes of a flush to the database, without their division into batches.\<close>

definition coin_changes :: "CCoinsMap \<Rightarrow> db_change list" where
  "coin_changes m = map (\<lambda>(k, e). if IsSpent (coin e) then EraseCoin k else WriteCoin k (coin e)) (filter (\<lambda>(k, e). dirty e) m)"

lemma coin_changes_simps [simp]:
  "coin_changes [] = []"
  "coin_changes (x # m) = (if dirty (snd x) then (if IsSpent (coin (snd x)) then EraseCoin (fst x) else WriteCoin (fst x) (coin (snd x))) # coin_changes m else coin_changes m)"
  by (simp_all add: coin_changes_def case_prod_unfold)

lemma concat_db_batches: "concat (db_batches full h m batch) = batch @ coin_changes m @ [EraseHeads, WriteBest h]"
  by (induction m arbitrary: batch) (auto simp: Let_def dirty_def coin_simps)

lemma fold_WriteBatch: "fold WriteBatch batches db = fold db_apply (concat batches) db"
  by (induction batches arbitrary: db) (simp_all add: WriteBatch_def)

definition update_coins :: "CCoinsMap \<Rightarrow> utxo \<Rightarrow> utxo" where
  "update_coins m U k = (case map_of m k of Some e \<Rightarrow> if dirty e then visible e else U k | None \<Rightarrow> U k)"

lemma apply_coin_changes:
  assumes "distinct (map fst m)"
  shows "fold db_apply (coin_changes m) db = db\<lparr>db_coins := update_coins m (db_coins db)\<rparr>"
  using assms
proof (induction m arbitrary: db)
  case Nil
  then show ?case by (simp add: update_coins_def fun_eq_iff)
next
  case (Cons x m)
  obtain k e where x: "x = (k, e)" by (cases x)
  have n: "map_of m k = None" using Cons.prems by (auto simp: x map_of_eq_None_iff)
  have "update_coins ((k, e) # m) (db_coins db) = update_coins m (if dirty e then (db_coins db)(k := visible e) else db_coins db)"
    using n by (auto simp: update_coins_def fun_eq_iff split: option.splits)
  then show ?case using Cons by (auto simp: x visible_def)
qed

lemma update_coins_overlay: "cache_valid U m \<Longrightarrow> update_coins m U = overlay U m"
  by (rule ext) (auto simp: update_coins_def overlay_def entry_valid_def dest: cache_validD split: option.splits)

lemma db_BatchWrite_valid:
  assumes "cache_valid (db_coins db) m" "h \<noteq> uint256_null" "db_heads db = None"
  shows "\<exists>batches. db_BatchWrite full m h db = Ok batches \<and>
    fold WriteBatch batches db = \<lparr>db_coins = overlay (db_coins db) m, db_best = Some h, db_heads = None\<rparr>"
  using assms by (simp add: db_BatchWrite_def db_GetHeadBlocks_def fold_WriteBatch concat_db_batches update_coins_overlay
      cache_valid_def [THEN iffD1] apply_coin_changes [of m])

lemma overlay_unspent:
  assumes "\<And>k x. U k = Some x \<Longrightarrow> \<not> IsSpent x" "overlay U m k = Some x"
  shows "\<not> IsSpent x"
  using assms by (auto simp: overlay_def visible_unspent split: option.splits)

lemma Flush_valid:
  assumes "coins_valid s" "coins_hashBlock (top_cache s) \<noteq> uint256_null"
  shows "\<exists>s'. Flush full s = Ok s' \<and> coins_valid s' \<and> length (base_caches s') = length (base_caches s) \<and>
    coins_hashBlock (top_cache s') = coins_hashBlock (top_cache s) \<and>
    coins_views s' = hd (coins_views s) # hd (coins_views s) # tl (tl (coins_views s))"
proof -
  let ?c = "top_cache s" and ?db = "coins_disk s"
  have e: "overlay U [] = U" "cache_valid U []" for U by (simp_all add: overlay_def fun_eq_iff cache_valid_def)
  show ?thesis
  proof (cases "base_caches s")
    case Nil
    then have v: "cache_valid (db_coins ?db) (cacheCoins ?c)" "db_heads ?db = None" "\<And>k x. db_coins ?db k = Some x \<Longrightarrow> \<not> IsSpent x"
      using assms(1) by (auto simp: coins_valid_def)
    obtain batches where "db_BatchWrite full (cacheCoins ?c) (coins_hashBlock ?c) ?db = Ok batches"
      "fold WriteBatch batches ?db = \<lparr>db_coins = overlay (db_coins ?db) (cacheCoins ?c), db_best = Some (coins_hashBlock ?c), db_heads = None\<rparr>"
      using db_BatchWrite_valid [OF v(1) assms(2) v(2)] by blast
    moreover have "\<not> IsSpent x" if "overlay (db_coins ?db) (cacheCoins ?c) k = Some x" for k x
      using overlay_unspent [of "db_coins ?db"] v(3) that by blast
    ultimately show ?thesis using Nil assms(2)
      by (simp add: Flush_def Let_def coins_valid_def coins_views_def e db_GetBestBlock_def)
  next
    case (Cons b bs)
    then have v: "cache_valid (utxo ?db bs) (cacheCoins b)" "cache_valid (overlay (utxo ?db bs) (cacheCoins b)) (cacheCoins ?c)"
      "views_valid ?db bs" "db_heads ?db = None"
      using assms(1) by (auto simp: coins_valid_def)
    obtain p where "write_entries (cacheCoins ?c) (cacheCoins b) = Ok p" "cache_valid (utxo ?db bs) p"
      "overlay (utxo ?db bs) p = overlay (overlay (utxo ?db bs) (cacheCoins b)) (cacheCoins ?c)"
      using write_entries_valid [OF v(1,2)] by blast
    then show ?thesis using Cons assms(2) v
      by (simp add: Flush_def Let_def cache_BatchWrite_def coins_valid_def coins_views_def e)
  qed
qed

section \<open>The contract\<close>

text \<open>
  The operations of a cache, with the creation of a cache on top of the current one and its destruction, and the answers
  they give.
\<close>

datatype coins_op = OpGet COutPoint | OpHave COutPoint | OpAdd COutPoint Coin bool | OpSpend COutPoint | OpUncache COutPoint
  | OpGetBest | OpSetBest uint256 | OpFlush | OpPush | OpDrop

datatype coins_answer = NoAnswer | ACoin "Coin option" | ABool bool | AHash uint256

definition CCoinsViewCache_of :: "CCoinsViewCache" where
  "CCoinsViewCache_of = \<lparr>coins_hashBlock = uint256_null, cacheCoins = []\<rparr>"

definition coins_push :: "coins_state \<Rightarrow> coins_state" where
  "coins_push s = s\<lparr>top_cache := CCoinsViewCache_of, base_caches := top_cache s # base_caches s\<rparr>"

definition coins_drop :: "coins_state \<Rightarrow> coins_state" where
  "coins_drop s = s\<lparr>top_cache := hd (base_caches s), base_caches := tl (base_caches s)\<rparr>"

primrec coins_exec :: "(db_change list \<Rightarrow> bool) \<Rightarrow> coins_op \<Rightarrow> coins_state \<Rightarrow> (coins_answer \<times> coins_state) outcome" where
  "coins_exec full (OpGet k) s = (let (r, s) = GetCoin k s in Ok (ACoin r, s))"
| "coins_exec full (OpHave k) s = (let (r, s) = HaveCoin k s in Ok (ABool r, s))"
| "coins_exec full (OpAdd k x ow) s = obind (AddCoin k x ow s) (\<lambda>s. Ok (NoAnswer, s))"
| "coins_exec full (OpSpend k) s = (let (r, s) = SpendCoin k s in Ok (ACoin r, s))"
| "coins_exec full (OpUncache k) s = Ok (NoAnswer, Uncache k s)"
| "coins_exec full OpGetBest s = (let (r, s) = coins_GetBestBlock s in Ok (AHash r, s))"
| "coins_exec full (OpSetBest h) s = Ok (NoAnswer, SetBestBlock h s)"
| "coins_exec full OpFlush s = obind (Flush full s) (\<lambda>s. Ok (NoAnswer, s))"
| "coins_exec full OpPush s = Ok (NoAnswer, coins_push s)"
| "coins_exec full OpDrop s = Ok (NoAnswer, coins_drop s)"

text \<open>
  What the caller has to respect: a coin is added unspent, and over an existing one only if it says so; best blocks are
  not null, and one is known before a flush; only a cache with another one below is destroyed.
\<close>

primrec op_allowed :: "coins_op \<Rightarrow> coins_state \<Rightarrow> bool" where
  "op_allowed (OpGet k) s \<longleftrightarrow> True"
| "op_allowed (OpHave k) s \<longleftrightarrow> True"
| "op_allowed (OpAdd k x ow) s \<longleftrightarrow> \<not> IsSpent x \<and> (\<not> ow \<longrightarrow> coins s k = None)"
| "op_allowed (OpSpend k) s \<longleftrightarrow> True"
| "op_allowed (OpUncache k) s \<longleftrightarrow> True"
| "op_allowed OpGetBest s \<longleftrightarrow> True"
| "op_allowed (OpSetBest h) s \<longleftrightarrow> h \<noteq> uint256_null"
| "op_allowed OpFlush s \<longleftrightarrow> coins_hashBlock (top_cache s) \<noteq> uint256_null"
| "op_allowed OpPush s \<longleftrightarrow> True"
| "op_allowed OpDrop s \<longleftrightarrow> base_caches s \<noteq> []"

text \<open>The specification: a stack of maps with best blocks, on which a cache is a nested transaction.\<close>

primrec spec_step :: "coins_op \<Rightarrow> (utxo \<times> uint256) list \<Rightarrow> (utxo \<times> uint256) list" where
  "spec_step (OpGet k) v = v"
| "spec_step (OpHave k) v = v"
| "spec_step (OpAdd k x ow) v = (if IsUnspendable (scriptPubKey (out x)) then v else ((fst (hd v))(k \<mapsto> x), snd (hd v)) # tl v)"
| "spec_step (OpSpend k) v = ((fst (hd v))(k := None), snd (hd v)) # tl v"
| "spec_step (OpUncache k) v = v"
| "spec_step OpGetBest v = v"
| "spec_step (OpSetBest h) v = (fst (hd v), h) # tl v"
| "spec_step OpFlush v = hd v # hd v # tl (tl v)"
| "spec_step OpPush v = hd v # v"
| "spec_step OpDrop v = tl v"

primrec spec_answer :: "coins_op \<Rightarrow> (utxo \<times> uint256) list \<Rightarrow> coins_answer \<Rightarrow> bool" where
  "spec_answer (OpGet k) v r \<longleftrightarrow> r = ACoin (fst (hd v) k)"
| "spec_answer (OpHave k) v r \<longleftrightarrow> r = ABool (fst (hd v) k \<noteq> None)"
| "spec_answer (OpAdd k x ow) v r \<longleftrightarrow> r = NoAnswer"
| "spec_answer (OpSpend k) v r \<longleftrightarrow>
     (case fst (hd v) k of Some x \<Rightarrow> r = ACoin (Some x) | None \<Rightarrow> r = ACoin None \<or> (\<exists>x. r = ACoin (Some x) \<and> IsSpent x))"
| "spec_answer (OpUncache k) v r \<longleftrightarrow> r = NoAnswer"
| "spec_answer OpGetBest v r \<longleftrightarrow> r = AHash (snd (hd v))"
| "spec_answer (OpSetBest h) v r \<longleftrightarrow> r = NoAnswer"
| "spec_answer OpFlush v r \<longleftrightarrow> r = NoAnswer"
| "spec_answer OpPush v r \<longleftrightarrow> r = NoAnswer"
| "spec_answer OpDrop v r \<longleftrightarrow> r = NoAnswer"

lemma coins_views_hd: "coins_views s = (coins s, snd (hd (coins_views s))) # tl (coins_views s)"
  by (simp add: coins_def coins_views_def)

lemma GetCoin_valid:
  assumes "coins_valid s"
  shows "\<exists>s'. GetCoin k s = (coins s k, s') \<and> coins_valid s' \<and> coins_views s' = coins_views s \<and> length (base_caches s') = length (base_caches s)"
  by (rule coins_fetch_valid [OF assms, of k]) (simp add: GetCoin_def)

lemma HaveCoin_valid:
  assumes "coins_valid s"
  shows "\<exists>s'. HaveCoin k s = (coins s k \<noteq> None, s') \<and> coins_valid s' \<and> coins_views s' = coins_views s \<and> length (base_caches s') = length (base_caches s)"
proof (rule coins_fetch_valid [OF assms, of k])
  fix it s' assume f: "coins_fetch k s = (it, s')" "coins_valid s'" "coins_views s' = coins_views s" "unspent_coin it = coins s k"
    "length (base_caches s') = length (base_caches s)"
  then show ?thesis using f(4) [symmetric] by (cases it) (auto simp: HaveCoin_def unspent_coin_def)
qed

lemma AccessCoin_valid:
  assumes "coins_valid s"
  shows "\<exists>r s'. AccessCoin k s = (r, s') \<and> coins_valid s' \<and> coins_views s' = coins_views s \<and> length (base_caches s') = length (base_caches s) \<and>
    coins s k = (if IsSpent r then None else Some r)"
proof (rule coins_fetch_valid [OF assms, of k])
  fix it s' assume f: "coins_fetch k s = (it, s')" "coins_valid s'" "coins_views s' = coins_views s" "unspent_coin it = coins s k"
    "length (base_caches s') = length (base_caches s)"
  then show ?thesis by (cases it) (auto simp: AccessCoin_def unspent_coin_def)
qed

lemma coins_exec_valid:
  assumes "coins_valid s" "op_allowed op s"
  shows "\<exists>r s'. coins_exec full op s = Ok (r, s') \<and> coins_valid s' \<and> coins_views s' = spec_step op (coins_views s) \<and> spec_answer op (coins_views s) r"
proof (cases op)
  case (OpGet k)
  then show ?thesis using GetCoin_valid [OF assms(1), of k] by (auto simp: coins_def)
next
  case (OpHave k)
  then show ?thesis using HaveCoin_valid [OF assms(1), of k] by (auto simp: coins_def)
next
  case (OpAdd k x ow)
  then have "\<not> IsSpent x" "ow \<or> coins s k = None" using assms(2) by auto
  from AddCoin_valid [OF assms(1) this] show ?thesis unfolding OpAdd using coins_views_hd [of s] by (auto simp: coins_def [symmetric])
next
  case (OpSpend k)
  obtain r s' where "SpendCoin k s = (r, s')" "coins_valid s'" "coins_views s' = ((coins s)(k := None), snd (hd (coins_views s))) # tl (coins_views s)"
    "case coins s k of Some x \<Rightarrow> r = Some x | None \<Rightarrow> (\<forall>x. r = Some x \<longrightarrow> IsSpent x)"
    using SpendCoin_valid [OF assms(1), of k] by blast
  then show ?thesis using OpSpend by (cases "coins s k"; cases r) (auto simp: coins_def)
next
  case (OpUncache k)
  then show ?thesis using Uncache_valid [OF assms(1), of k] by simp
next
  case OpGetBest
  then show ?thesis using GetBestBlock_valid [OF assms(1)] by auto
next
  case (OpSetBest h)
  then show ?thesis using assms by (auto simp: SetBestBlock_def coins_valid_def coins_views_def)
next
  case OpFlush
  then show ?thesis using Flush_valid [OF assms(1), of full] assms(2) by auto
next
  case OpPush
  then show ?thesis using assms(1)
    by (simp add: coins_push_def CCoinsViewCache_of_def coins_valid_def coins_views_def overlay_def cache_valid_def fun_eq_iff)
next
  case OpDrop
  then obtain b bs where "base_caches s = b # bs" using assms(2) by (cases "base_caches s") auto
  then show ?thesis using OpDrop assms(1) by (auto simp: coins_drop_def coins_valid_def coins_views_def)
qed

text \<open>A sequence of operations, in which every one is allowed when its turn comes.\<close>

primrec ops_allowed :: "(db_change list \<Rightarrow> bool) \<Rightarrow> coins_op list \<Rightarrow> coins_state \<Rightarrow> bool" where
  "ops_allowed full [] s \<longleftrightarrow> True"
| "ops_allowed full (op # ops) s \<longleftrightarrow> op_allowed op s \<and> (\<forall>r s'. coins_exec full op s = Ok (r, s') \<longrightarrow> ops_allowed full ops s')"

primrec coins_run :: "(db_change list \<Rightarrow> bool) \<Rightarrow> coins_op list \<Rightarrow> coins_state \<Rightarrow> (coins_answer list \<times> coins_state) outcome" where
  "coins_run full [] s = Ok ([], s)"
| "coins_run full (op # ops) s = obind (coins_exec full op s) (\<lambda>(r, s). obind (coins_run full ops s) (\<lambda>(rs, s). Ok (r # rs, s)))"

primrec spec_answers :: "coins_op list \<Rightarrow> (utxo \<times> uint256) list \<Rightarrow> coins_answer list \<Rightarrow> bool" where
  "spec_answers [] v rs \<longleftrightarrow> rs = []"
| "spec_answers (op # ops) v rs \<longleftrightarrow> (\<exists>r rs'. rs = r # rs' \<and> spec_answer op v r \<and> spec_answers ops (spec_step op v) rs')"

text \<open>
  C9. The hierarchy of coin caches implements nested transactions on a map of unspent outputs.  Start from any valid
  stack of caches above a database and run any sequence of reads, additions, spends, evictions, flushes, creations and
  destructions of caches, each of which respects its precondition.  Nothing fails or throws; every answer is the one
  that the stack of plain maps gives; the caches end up showing the maps of the specification, whatever was cached,
  flushed in one or in several batches, or evicted; and the flags stay valid.
\<close>

theorem coins_cache_refines:
  assumes "coins_valid s" "ops_allowed full ops s"
  shows "\<exists>rs s'. coins_run full ops s = Ok (rs, s') \<and> coins_valid s' \<and> coins_views s' = fold spec_step ops (coins_views s) \<and>
    spec_answers ops (coins_views s) rs"
  using assms
proof (induction ops arbitrary: s)
  case (Cons op ops)
  then obtain r s1 where e: "coins_exec full op s = Ok (r, s1)" "coins_valid s1" "coins_views s1 = spec_step op (coins_views s)" "spec_answer op (coins_views s) r"
    using coins_exec_valid [of s op full] by auto
  moreover have "ops_allowed full ops s1" using Cons.prems(2) e(1) by simp
  ultimately show ?case using Cons.IH [of s1] by fastforce
qed simp

definition example_hash1 :: uint256 where "example_hash1 = replicate 32 1"
definition example_hash2 :: uint256 where "example_hash2 = replicate 32 2"

definition example_coin :: Coin where
  "example_coin = \<lparr>out = \<lparr>nValue = 5, scriptPubKey = []\<rparr>, fCoinBase = False, coin_nHeight = 7\<rparr>"

definition example_coins :: coins_state where
  "example_coins = \<lparr>top_cache = CCoinsViewCache_of, base_caches = [],
     coins_disk = \<lparr>db_coins = (\<lambda>_. None)(COutPoint example_hash1 0 \<mapsto> example_coin), db_best = Some example_hash1, db_heads = None\<rparr>\<rparr>"

definition example_ops :: "coins_op list" where
  "example_ops = [OpPush, OpSpend (COutPoint example_hash1 0), OpAdd (COutPoint example_hash2 3) example_coin False, OpSetBest example_hash2,
     OpFlush, OpDrop, OpGet (COutPoint example_hash1 0), OpFlush]"

lemma example_facts [simp]: "\<not> IsSpent example_coin" "\<not> IsUnspendable (scriptPubKey (out example_coin))" "example_hash1 \<noteq> uint256_null"
    "example_hash2 \<noteq> uint256_null" "example_hash1 \<noteq> example_hash2" "example_hash2 \<noteq> example_hash1"
  by (simp_all add: IsSpent_def example_coin_def CTxOut_IsNull_def IsUnspendable_def example_hash1_def example_hash2_def uint256_null_def numeral_eq_Suc)

lemma example_valid: "coins_valid example_coins"
  by (auto simp: coins_valid_def example_coins_def CCoinsViewCache_of_def cache_valid_def split: if_splits)

lemma example_views: "coins_views example_coins =
    [((\<lambda>_. None)(COutPoint example_hash1 0 \<mapsto> example_coin), example_hash1), ((\<lambda>_. None)(COutPoint example_hash1 0 \<mapsto> example_coin), example_hash1)]"
  by (simp add: coins_views_def example_coins_def CCoinsViewCache_of_def overlay_def fun_eq_iff db_GetBestBlock_def)

lemma example_allowed: "ops_allowed (\<lambda>b. length b > 3) example_ops example_coins"
  unfolding example_ops_def
  by (simp add: example_coins_def coins_push_def CCoinsViewCache_of_def SpendCoin_def coins_fetch_def FetchCoin_def Let_def unspent_coin_def
      AddCoin_def CCoinsCacheEntry_null_def SetBestBlock_def Flush_def cache_BatchWrite_def write_entry_def coins_drop_def coins_utxo overlay_def visible_def GetCoin_def)

theorem coins_cache_refines_witness:
  "\<exists>rs s'. coins_run (\<lambda>b. length b > 3) example_ops example_coins = Ok (rs, s') \<and> coins_valid s' \<and>
     coins_views s' = fold spec_step example_ops (coins_views example_coins) \<and> spec_answers example_ops (coins_views example_coins) rs"
  by (rule coins_cache_refines [OF example_valid example_allowed])

section \<open>Interrupted flushes\<close>

lemma take_db_batches:
  assumes "k < length (db_batches full h m batch)"
  shows "\<exists>j. concat (take k (db_batches full h m batch)) = (if k = 0 then [] else batch @ coin_changes (take j m))"
  using assms
proof (induction m arbitrary: batch k)
  case (Cons x m)
  define b1 where "b1 = (if coin_flags (snd x) AND DIRTY \<noteq> 0
     then batch @ [if IsSpent (coin (snd x)) then EraseCoin (fst x) else WriteCoin (fst x) (coin (snd x))] else batch)"
  have b1: "b1 @ coin_changes ys = batch @ coin_changes (x # ys)" for ys by (simp add: b1_def dirty_def coin_simps)
  have u: "db_batches full h (x # m) batch = (if full b1 then b1 # db_batches full h m [] else db_batches full h m b1)"
    by (simp add: b1_def Let_def)
  show ?case
  proof (cases k)
    case (Suc k')
    show ?thesis
    proof (cases "full b1")
      case True
      then have "k' < length (db_batches full h m [])" using Cons.prems Suc unfolding u by simp
      from Cons.IH [OF this] obtain j where j: "concat (take k' (db_batches full h m [])) = (if k' = 0 then [] else coin_changes (take j m))"
        unfolding append_Nil by blast
      have "concat (take k (db_batches full h (x # m) batch)) = b1 @ coin_changes (take (if k' = 0 then 0 else j) m)"
        using True Suc j unfolding u by simp
      also have "\<dots> = batch @ coin_changes (take (Suc (if k' = 0 then 0 else j)) (x # m))" unfolding take_Suc_Cons b1 ..
      finally have "concat (take k (db_batches full h (x # m) batch)) = batch @ coin_changes (take (Suc (if k' = 0 then 0 else j)) (x # m))" .
      with Suc show ?thesis by (intro exI) (simp only: nat.distinct if_False)
    next
      case False
      then have "k < length (db_batches full h m b1)" using Cons.prems unfolding u by simp
      from Cons.IH [OF this] obtain j where "concat (take k (db_batches full h (x # m) batch)) = b1 @ coin_changes (take j m)"
        using False Suc unfolding u by auto
      also have "\<dots> = batch @ coin_changes (take (Suc j) (x # m))" unfolding take_Suc_Cons b1 ..
      finally have "concat (take k (db_batches full h (x # m) batch)) = batch @ coin_changes (take (Suc j) (x # m))" .
      with Suc show ?thesis by (intro exI) (simp only: nat.distinct if_False)
    qed
  qed simp
qed simp

lemma update_coins_take:
  assumes "distinct (map fst m)"
  shows "update_coins m (update_coins (take j m) U) = update_coins m U" "update_coins (take j m) U k \<in> {U k, update_coins m U k}"
proof -
  have "map_of m k = Some e" if "map_of (take j m) k = Some e" for k e
    using that map_of_append [of "take j m" "drop j m"] by simp
  then show "update_coins m (update_coins (take j m) U) = update_coins m U" "update_coins (take j m) U k \<in> {U k, update_coins m U k}"
    by (auto simp: update_coins_def fun_eq_iff split: option.splits)
qed

text \<open>
  C10. A flush to the database survives a crash between two of its batches.  Let a flush from a database that is not in the
  middle of one write the batches, and let only the first few, but not all, of them be on disk.  Then the database has no
  best block and names the new and the old tip as its head blocks; every coin is the one before or the one after the
  flush; a flush for any other block is refused; and repeating the flush, in batches of any size, ends in the same
  database as the flush without the crash.
\<close>

theorem interrupted_flush_recovers:
  assumes "db_BatchWrite full m h db = Ok batches" "db_heads db = None" "distinct (map fst m)" "0 < k" "k < length batches"
    "db' = fold WriteBatch (take k batches) db"
  shows "db_best db' = None \<and> db_heads db' = Some [h, db_GetBestBlock db] \<and>
    (\<forall>p. db_coins db' p \<in> {db_coins db p, update_coins m (db_coins db) p}) \<and>
    (\<forall>m' h'. h' \<noteq> h \<longrightarrow> db_BatchWrite full' m' h' db' = Abort) \<and>
    (\<exists>batches'. db_BatchWrite full' m h db' = Ok batches' \<and> fold WriteBatch batches' db' = fold WriteBatch batches db) \<and>
    fold WriteBatch batches db = \<lparr>db_coins = update_coins m (db_coins db), db_best = Some h, db_heads = None\<rparr>"
proof -
  define start where "start = [EraseBest, WriteHeads [h, db_GetBestBlock db]]"
  have b: "batches = db_batches full h m start" "h \<noteq> uint256_null"
    using assms(1,2) by (auto simp: db_BatchWrite_def db_GetHeadBlocks_def start_def Let_def split: if_splits)
  obtain j where j: "concat (take k batches) = start @ coin_changes (take j m)"
    using take_db_batches [of k full h m start] assms(4,5) b(1) by auto
  have d': "distinct (map fst (take j m))" using assms(3) by (simp flip: take_map)
  have db': "db' = \<lparr>db_coins = update_coins (take j m) (db_coins db), db_best = None, db_heads = Some [h, db_GetBestBlock db]\<rparr>"
    by (simp add: assms(6) fold_WriteBatch j start_def apply_coin_changes [OF d'])
  have fin: "fold WriteBatch batches db = \<lparr>db_coins = update_coins m (db_coins db), db_best = Some h, db_heads = None\<rparr>"
    by (simp add: b(1) fold_WriteBatch concat_db_batches start_def apply_coin_changes [OF assms(3)])
  have ab: "db_BatchWrite full' m' h' db' = Abort" if "h' \<noteq> h" for m' h'
    using that by (simp add: db' db_BatchWrite_def db_GetBestBlock_def db_GetHeadBlocks_def)
  have "db_BatchWrite full' m h db' = Ok (db_batches full' h m start)"
    using b(2) by (simp add: db' db_BatchWrite_def db_GetBestBlock_def db_GetHeadBlocks_def start_def)
  moreover have "fold WriteBatch (db_batches full' h m start) db' = fold WriteBatch batches db"
    unfolding fin by (simp add: db' fold_WriteBatch concat_db_batches start_def apply_coin_changes [OF assms(3)] update_coins_take(1) [OF assms(3)])
  ultimately show ?thesis using ab fin update_coins_take(2) [OF assms(3), of j "db_coins db"] by (auto simp: db')
qed

theorem interrupted_flush_recovers_witness:
  "\<exists>batches db'. db_BatchWrite (\<lambda>b. length b > 2) [(COutPoint example_hash2 3, \<lparr>coin = example_coin, coin_flags = 3\<rparr>)] example_hash2 (coins_disk example_coins) = Ok batches \<and>
     db' = fold WriteBatch (take 1 batches) (coins_disk example_coins) \<and> db_best db' = None \<and> db_heads db' = Some [example_hash2, example_hash1]"
proof -
  let ?m = "[(COutPoint example_hash2 3, \<lparr>coin = example_coin, coin_flags = 3\<rparr>)]" and ?full = "\<lambda>b. length b > 2"
  define batches where "batches = [[EraseBest, WriteHeads [example_hash2, example_hash1], WriteCoin (COutPoint example_hash2 3) example_coin],
     [EraseHeads, WriteBest example_hash2]]"
  have w: "db_BatchWrite ?full ?m example_hash2 (coins_disk example_coins) = Ok batches" "db_heads (coins_disk example_coins) = None"
    by (simp_all add: db_BatchWrite_def db_GetBestBlock_def db_GetHeadBlocks_def example_coins_def batches_def coin_simps)
  have "distinct (map fst ?m)" "0 < (1 :: nat)" "1 < length batches" by (simp_all add: batches_def)
  from interrupted_flush_recovers [OF w this refl, of ?full] w(1) show ?thesis
    by (intro exI [of _ batches] exI [of _ "fold WriteBatch (take 1 batches) (coins_disk example_coins)"])
      (simp add: db_GetBestBlock_def example_coins_def)
qed

end
