(* ===== verification/Tx_Verify.thy ===== *)
theory Tx_Verify
  imports Coins Version_Bits Sighash
begin

unbundle bit_operations_syntax

text \<open>
  The checks of a transaction against the chain and the unspent outputs (src/src/consensus/tx_verify.cpp, and the
  queries of src/src/coins.cpp that they use): absolute and relative lock times, signature operations, and the values of the
  inputs.  The properties show that relative lock times and input values are judged exactly, on every valid state.
\<close>

section \<open>Lock times\<close>

definition IsFinalTx :: "CTransaction \<Rightarrow> int \<Rightarrow> int \<Rightarrow> bool" where
  "IsFinalTx tx nBlockHeight nBlockTime =
     (let t = int (unat (nLockTime tx))
      in if t = 0 then True
         else if t < (if t < int LOCKTIME_THRESHOLD then nBlockHeight else nBlockTime) then True
         else list_all (\<lambda>txin. nSequence txin = SEQUENCE_FINAL) (vin tx))"

abbreviation (input) LOCKTIME_VERIFY_SEQUENCE :: u32 where "LOCKTIME_VERIFY_SEQUENCE \<equiv> 1"
abbreviation (input) LOCKTIME_MEDIAN_TIME_PAST :: u32 where "LOCKTIME_MEDIAN_TIME_PAST \<equiv> 2"
abbreviation (input) LOCKTIME_DISABLE_FLAG :: u32 where "LOCKTIME_DISABLE_FLAG \<equiv> 0x80000000"

text \<open>The loop of \<^verbatim>\<open>CalculateSequenceLocks\<close>; the last result is what it leaves in \<^verbatim>\<open>prevHeights\<close>.\<close>

fun sequence_loop :: "store \<Rightarrow> ptr \<Rightarrow> CTxIn list \<Rightarrow> int list \<Rightarrow> int \<Rightarrow> int \<Rightarrow> ((int \<times> int) \<times> int list) outcome" where
  "sequence_loop h block (txin # ins) (nCoinHeight # prevHeights) nMinHeight nMinTime =
     (if nSequence txin AND LOCKTIME_DISABLE_FLAG \<noteq> 0
      then obind (sequence_loop h block ins prevHeights nMinHeight nMinTime) (\<lambda>(locks, hs). Ok (locks, 0 # hs))
      else if nSequence txin AND SEQUENCE_LOCKTIME_TYPE_FLAG \<noteq> 0
      then obind (GetAncestor h block (max (nCoinHeight - 1) 0)) (\<lambda>a.
             case a of
               None \<Rightarrow> Abort
             | Some a \<Rightarrow>
                 let nCoinTime = GetMedianTimePast h a;
                     nMinTime = max nMinTime (nCoinTime + int (unat (push_bit SEQUENCE_LOCKTIME_GRANULARITY (nSequence txin AND SEQUENCE_LOCKTIME_MASK))) - 1)
                 in obind (sequence_loop h block ins prevHeights nMinHeight nMinTime) (\<lambda>(locks, hs). Ok (locks, nCoinHeight # hs)))
      else let nMinHeight = max nMinHeight (nCoinHeight + int (unat (nSequence txin AND SEQUENCE_LOCKTIME_MASK)) - 1)
           in obind (sequence_loop h block ins prevHeights nMinHeight nMinTime) (\<lambda>(locks, hs). Ok (locks, nCoinHeight # hs)))"
| "sequence_loop h block ins prevHeights nMinHeight nMinTime = Ok ((nMinHeight, nMinTime), prevHeights)"

definition CalculateSequenceLocks :: "store \<Rightarrow> CTransaction \<Rightarrow> u32 \<Rightarrow> int list \<Rightarrow> ptr \<Rightarrow> ((int \<times> int) \<times> int list) outcome" where
  "CalculateSequenceLocks h tx flags prevHeights block =
     (if length prevHeights \<noteq> length (vin tx) then Abort
      else let fEnforceBIP68 = ((scast (nVersion tx) :: u32) \<ge> 2 \<and> flags AND LOCKTIME_VERIFY_SEQUENCE \<noteq> 0)
           in if \<not> fEnforceBIP68 then Ok ((- 1, - 1), prevHeights)
              else sequence_loop h block (vin tx) prevHeights (- 1) (- 1))"

definition EvaluateSequenceLocks :: "store \<Rightarrow> ptr \<Rightarrow> int \<times> int \<Rightarrow> bool outcome" where
  "EvaluateSequenceLocks h block lockPair =
     (case pprev (h block) of
        None \<Rightarrow> Abort
      | Some q \<Rightarrow> Ok (\<not> (fst lockPair \<ge> nHeight (h block) \<or> snd lockPair \<ge> GetMedianTimePast h q)))"

definition SequenceLocks :: "store \<Rightarrow> CTransaction \<Rightarrow> u32 \<Rightarrow> int list \<Rightarrow> ptr \<Rightarrow> bool outcome" where
  "SequenceLocks h tx flags prevHeights block =
     obind (CalculateSequenceLocks h tx flags prevHeights block) (\<lambda>(locks, _). EvaluateSequenceLocks h block locks)"

section \<open>Signature operations\<close>

primrec add_sigops :: "nat option list \<Rightarrow> u32 \<Rightarrow> u32 outcome" where
  "add_sigops [] nSigOps = Ok nSigOps"
| "add_sigops (c # cs) nSigOps = obind (or_abort c) (\<lambda>n. add_sigops cs (nSigOps + word_of_nat n))"

definition GetLegacySigOpCount :: "CTransaction \<Rightarrow> u32 outcome" where
  "GetLegacySigOpCount tx =
     add_sigops (map (\<lambda>txin. GetSigOpCount False (scriptSig txin)) (vin tx) @ map (\<lambda>txout. GetSigOpCount False (scriptPubKey txout)) (vout tx)) 0"

primrec p2sh_sigops :: "CTxIn list \<Rightarrow> u32 \<Rightarrow> coins_state \<Rightarrow> (u32 \<times> coins_state) outcome" where
  "p2sh_sigops [] nSigOps s = Ok (nSigOps, s)"
| "p2sh_sigops (txin # ins) nSigOps s =
     (let (c, s) = AccessCoin (prevout txin) s; spk = scriptPubKey (out c)
      in if IsSpent c then Abort
         else if IsPayToScriptHash spk
         then obind (or_abort (GetSigOpCount_p2sh spk (scriptSig txin))) (\<lambda>n. p2sh_sigops ins (nSigOps + word_of_nat n) s)
         else p2sh_sigops ins nSigOps s)"

definition GetP2SHSigOpCount :: "CTransaction \<Rightarrow> coins_state \<Rightarrow> (u32 \<times> coins_state) outcome" where
  "GetP2SHSigOpCount tx s = (if IsCoinBase tx then Ok (0, s) else p2sh_sigops (vin tx) 0 s)"

definition GetTransactionSigOpCount :: "CTransaction \<Rightarrow> u32 \<Rightarrow> coins_state \<Rightarrow> (u32 \<times> coins_state) outcome" where
  "GetTransactionSigOpCount tx flags s =
     obind (GetLegacySigOpCount tx) (\<lambda>nSigOps.
       if IsCoinBase tx then Ok (nSigOps, s)
       else if flags AND SCRIPT_VERIFY_P2SH \<noteq> 0
       then obind (GetP2SHSigOpCount tx s) (\<lambda>(n, s). Ok (nSigOps + n, s))
       else Ok (nSigOps, s))"

section \<open>Inputs\<close>

primrec have_inputs :: "CTxIn list \<Rightarrow> coins_state \<Rightarrow> bool \<times> coins_state" where
  "have_inputs [] s = (True, s)"
| "have_inputs (txin # ins) s = (let (b, s) = HaveCoin (prevout txin) s in if b then have_inputs ins s else (False, s))"

definition HaveInputs :: "CTransaction \<Rightarrow> coins_state \<Rightarrow> bool \<times> coins_state" where
  "HaveInputs tx s = (if IsCoinBase tx then (True, s) else have_inputs (vin tx) s)"

primrec value_in :: "CTxIn list \<Rightarrow> int \<Rightarrow> coins_state \<Rightarrow> int \<times> coins_state" where
  "value_in [] nResult s = (nResult, s)"
| "value_in (txin # ins) nResult s = (let (c, s) = AccessCoin (prevout txin) s in value_in ins (nResult + nValue (out c)) s)"

definition GetValueIn :: "CTransaction \<Rightarrow> coins_state \<Rightarrow> int \<times> coins_state" where
  "GetValueIn tx s = (if IsCoinBase tx then (0, s) else value_in (vin tx) 0 s)"

definition GetCurrentCoinBaseMaturity :: "int \<Rightarrow> int" where
  "GetCurrentCoinBaseMaturity height = (if height \<le> 283000 then 4 else 15)"

definition int64 :: "int \<Rightarrow> bool" where "int64 x \<longleftrightarrow> - (2 ^ 63) \<le> x \<and> x < 2 ^ 63"

text \<open>
  The loop over the inputs answers the value that goes in, or what \<^verbatim>\<open>Invalid\<close> returned.  An addition that overflows
  \<^verbatim>\<open>int64_t\<close> is \<^verbatim>\<open>Abort\<close>.  \<^verbatim>\<open>fmt\<close> formats messages.
\<close>

primrec tx_inputs_loop :: "(string \<Rightarrow> int list \<Rightarrow> string) \<Rightarrow> int \<Rightarrow> CTxIn list \<Rightarrow> int \<Rightarrow> CValidationState \<Rightarrow> coins_state \<Rightarrow>
    ((bool \<times> CValidationState) + int) outcome \<times> coins_state" where
  "tx_inputs_loop fmt nSpendHeight [] nValueIn state s = (Ok (Inr nValueIn), s)"
| "tx_inputs_loop fmt nSpendHeight (txin # ins) nValueIn state s =
     (let (c, s) = AccessCoin (prevout txin) s; depth = nSpendHeight - int (unat (coin_nHeight c)); v = nValue (out c)
      in if IsSpent c then (Abort, s)
         else if fCoinBase c \<and> depth < GetCurrentCoinBaseMaturity (int (unat (coin_nHeight c)))
         then (Ok (Inl (Invalid TX_PREMATURE_SPEND False REJECT_INVALID ''bad-txns-premature-spend-of-coinbase''
                 (fmt ''tried to spend coinbase at depth %d'' [depth]) state)), s)
         else if \<not> int64 (nValueIn + v) then (Abort, s)
         else if \<not> MoneyRange v \<or> \<not> MoneyRange (nValueIn + v)
         then (Ok (Inl (consensus_error ''bad-txns-inputvalues-outofrange'' state)), s)
         else tx_inputs_loop fmt nSpendHeight ins (nValueIn + v) state s)"

definition CheckTxInputs :: "(string \<Rightarrow> int list \<Rightarrow> string) \<Rightarrow> CTransaction \<Rightarrow> int \<Rightarrow> CValidationState \<Rightarrow> coins_state \<Rightarrow>
    ((bool \<times> CValidationState) \<times> int option) outcome \<times> coins_state" where
  "CheckTxInputs fmt tx nSpendHeight state s =
     (let (have, s) = HaveInputs tx s
      in if \<not> have
         then (Ok (Invalid TX_MISSING_INPUTS False REJECT_INVALID ''bad-txns-inputs-missingorspent'' ''CheckTxInputs: inputs missing/spent'' state, None), s)
         else let (r, s) = tx_inputs_loop fmt nSpendHeight (vin tx) 0 state s
              in (obind r (\<lambda>r. case r of
                    Inl e \<Rightarrow> Ok (e, None)
                  | Inr nValueIn \<Rightarrow>
                      obind (GetValueOut tx) (\<lambda>value_out.
                        if nValueIn < value_out
                        then Ok (Invalid CONSENSUS False REJECT_INVALID ''bad-txns-in-belowout''
                                   (fmt ''value in (%s) < value out (%s)'' [nValueIn, value_out]) state, None)
                        else let txfee_aux = nValueIn - value_out
                             in if \<not> MoneyRange txfee_aux then Ok (consensus_error ''bad-txns-fee-outofrange'' state, None)
                                else Ok ((True, state), Some txfee_aux))), s))"

section \<open>Relative lock times\<close>

text \<open>Specification: the relative lock time of one input, for a coin of the given height.\<close>

definition lock_met :: "store \<Rightarrow> ptr \<Rightarrow> ptr \<Rightarrow> CTxIn \<Rightarrow> int \<Rightarrow> bool" where
  "lock_met h block prev txin nCoinHeight \<longleftrightarrow>
     bit (nSequence txin) 31 \<or>
     (if bit (nSequence txin) 22
      then GetMedianTimePast h (ancestor h block (max (nCoinHeight - 1) 0)) + 512 * int (unat (nSequence txin AND SEQUENCE_LOCKTIME_MASK)) \<le> GetMedianTimePast h prev
      else nCoinHeight + int (unat (nSequence txin AND SEQUENCE_LOCKTIME_MASK)) \<le> nHeight (h block))"

lemma GetMedianTimePast_nonneg: "0 \<le> GetMedianTimePast h p"
proof -
  define ts where "ts = past_times h nMedianTimeSpan (Some p)"
  have ne: "ts \<noteq> []" by (simp add: ts_def numeral_eq_Suc)
  have "0 \<le> t" if "t \<in> set (past_times h n q)" for t n q
    using that by (induction n arbitrary: q) (auto simp: GetBlockTime_def split: option.splits)
  moreover have "sort ts ! (length (sort ts) div 2) \<in> set (sort ts)" by (rule nth_mem) (use ne in simp)
  ultimately show ?thesis by (auto simp: GetMedianTimePast_def Let_def ts_def)
qed

lemma flag_bit: "(w AND 0x80000000 \<noteq> 0) = bit w 31" "(w AND 0x400000 \<noteq> 0) = bit w 22" for w :: u32
  using and_exp_eq_0_iff_not_bit [of w 31] and_exp_eq_0_iff_not_bit [of w 22] by simp_all

lemma lock_shift: "unat (push_bit 9 (w AND 0xffff) :: u32) = 512 * unat (w AND 0xffff)"
proof -
  have "unat (w AND 0xffff) \<le> unat (0xffff :: u32)" using word_and_le1 [of w "0xffff"] by (simp add: word_le_nat_alt)
  then have "unat ((w AND 0xffff) * 512) = unat (w AND 0xffff) * unat (512 :: u32)" by (subst unat_mult_lem [symmetric]) simp
  then show ?thesis by (simp add: push_bit_eq_mult mult.commute)
qed

lemma sequence_loop_exact:
  assumes "chain_ok h block" "length ins = length hs" "\<forall>c \<in> set hs. c \<le> nHeight (h block) + 1"
  shows "\<exists>mh mt hs'. sequence_loop h block ins hs mh0 mt0 = Ok ((mh, mt), hs') \<and>
    (mh < nHeight (h block) \<and> mt < GetMedianTimePast h prev \<longleftrightarrow>
     mh0 < nHeight (h block) \<and> mt0 < GetMedianTimePast h prev \<and> list_all2 (lock_met h block prev) ins hs)"
  using assms(2,3)
proof (induction ins hs arbitrary: mh0 mt0 rule: list_induct2)
  case (Cons txin ins c hs)
  define rel where "rel = int (unat (nSequence txin AND SEQUENCE_LOCKTIME_MASK))"
  have nn: "0 \<le> nHeight (h block)" using assms(1) by (rule chain_ok_height)
  have IH: "\<exists>mh mt hs'. sequence_loop h block ins hs mh0 mt0 = Ok ((mh, mt), hs') \<and>
    (mh < nHeight (h block) \<and> mt < GetMedianTimePast h prev \<longleftrightarrow>
     mh0 < nHeight (h block) \<and> mt0 < GetMedianTimePast h prev \<and> list_all2 (lock_met h block prev) ins hs)" for mh0 mt0
    using Cons.IH Cons.prems by simp
  show ?case
  proof (cases "bit (nSequence txin) 31")
    case True
    then have "lock_met h block prev txin c" by (simp add: lock_met_def)
    with True show ?thesis using IH [of mh0 mt0] by (auto simp: flag_bit)
  next
    case False
    note d = this
    show ?thesis
    proof (cases "bit (nSequence txin) 22")
      case True
      define a where "a = ancestor h block (max (c - 1) 0)"
      have sh: "int (unat (push_bit SEQUENCE_LOCKTIME_GRANULARITY (nSequence txin AND SEQUENCE_LOCKTIME_MASK))) = 512 * rel"
        unfolding lock_shift rel_def by simp
      have "GetAncestor h block (max (c - 1) 0) = Ok (Some a)"
        using GetAncestor_correct [OF assms(1), of "max (c - 1) 0"] Cons.prems nn by (auto simp: a_def max_def)
      then have u: "sequence_loop h block (txin # ins) (c # hs) mh0 mt0 =
          obind (sequence_loop h block ins hs mh0 (max mt0 (GetMedianTimePast h a + 512 * rel - 1))) (\<lambda>(locks, hs). Ok (locks, c # hs))"
        using d True unfolding sequence_loop.simps flag_bit sh by simp
      have "lock_met h block prev txin c \<longleftrightarrow> GetMedianTimePast h a + 512 * rel - 1 < GetMedianTimePast h prev"
        using d True by (auto simp: lock_met_def a_def rel_def)
      then show ?thesis unfolding u using IH [of mh0 "max mt0 (GetMedianTimePast h a + 512 * rel - 1)"] by auto
    next
      case False
      have u: "sequence_loop h block (txin # ins) (c # hs) mh0 mt0 =
          obind (sequence_loop h block ins hs (max mh0 (c + rel - 1)) mt0) (\<lambda>(locks, hs). Ok (locks, c # hs))"
        using d False by (simp add: flag_bit rel_def)
      have "lock_met h block prev txin c \<longleftrightarrow> c + rel - 1 < nHeight (h block)" using d False by (auto simp: lock_met_def rel_def)
      then show ?thesis unfolding u using IH [of "max mh0 (c + rel - 1)" mt0] by auto
    qed
  qed
qed simp

lemma SequenceLocks_judged:
  assumes "chain_ok h block" "pprev (h block) = Some prev" "length prevHeights = length (vin tx)" "\<forall>c \<in> set prevHeights. c \<le> nHeight (h block)"
  shows "SequenceLocks h tx flags prevHeights block =
    Ok ((scast (nVersion tx) :: u32) < 2 \<or> \<not> bit flags 0 \<or> list_all2 (lock_met h block prev) (vin tx) prevHeights)"
proof -
  have nn: "0 \<le> nHeight (h block)" using assms(1) by (rule chain_ok_height)
  have fl: "flags AND LOCKTIME_VERIFY_SEQUENCE \<noteq> 0 \<longleftrightarrow> bit flags 0" using and_exp_eq_0_iff_not_bit [of flags 0] by simp
  have c: "\<forall>c \<in> set prevHeights. c \<le> nHeight (h block) + 1" using assms(4) by force
  obtain mh mt hs' where s: "sequence_loop h block (vin tx) prevHeights (- 1) (- 1) = Ok ((mh, mt), hs')"
    "mh < nHeight (h block) \<and> mt < GetMedianTimePast h prev \<longleftrightarrow> list_all2 (lock_met h block prev) (vin tx) prevHeights"
    using sequence_loop_exact [OF assms(1) assms(3) [symmetric] c, of "- 1" "- 1" prev] GetMedianTimePast_nonneg [of h prev] nn by auto
  show ?thesis
    using s assms(2,3) fl GetMedianTimePast_nonneg [of h prev] nn
    by (auto simp: SequenceLocks_def CalculateSequenceLocks_def EvaluateSequenceLocks_def Let_def not_le)
qed

text \<open>
  C12. Relative lock times (BIP 68) are enforced exactly.  On a well-formed chain, for a block after the genesis block and
  coins that are not above it, \<^verbatim>\<open>SequenceLocks\<close> answers, without a failed assertion, whether the version of the
  transaction or the flags switch the rule off, or every input meets its lock: it is disabled by its top bit, or
  the median time before the coin plus the lock in units of 512 seconds has been reached by the median
  time before the block, or the height of the coin plus the lock has been reached by the height of the block.
\<close>

theorem SequenceLocks_exact:
  assumes "chain_ok h block" "pprev (h block) = Some prev" "length prevHeights = length (vin tx)" "\<forall>c \<in> set prevHeights. c \<le> nHeight (h block)"
  shows "SequenceLocks h tx flags prevHeights block =
    Ok ((scast (nVersion tx) :: u32) < 2 \<or> \<not> bit flags 0 \<or> list_all2 (lock_met h block prev) (vin tx) prevHeights)"
  using assms by (rule SequenceLocks_judged)

section \<open>Input values\<close>

definition same_view :: "coins_state \<Rightarrow> coins_state \<Rightarrow> bool" where
  "same_view s s' \<longleftrightarrow> coins_valid s' \<and> coins_views s' = coins_views s"

lemma same_viewD: "same_view s s' \<Longrightarrow> coins_valid s'" "same_view s s' \<Longrightarrow> coins s' = coins s"
  by (simp_all add: same_view_def coins_def)

lemma same_view_trans: "same_view s s' \<Longrightarrow> same_view s' s'' \<Longrightarrow> same_view s s''"
  by (simp add: same_view_def)

lemma same_view_refl: "coins_valid s \<Longrightarrow> same_view s s"
  by (simp add: same_view_def)

lemma AccessCoin_same:
  assumes "coins_valid s"
  obtains c s' where "AccessCoin k s = (c, s')" "same_view s s'" "coins s k = (if IsSpent c then None else Some c)"
  using AccessCoin_valid [OF assms, of k] by (auto simp: same_view_def)

lemma have_inputs_exact:
  assumes "coins_valid s"
  shows "\<exists>s'. have_inputs ins s = (\<forall>txin \<in> set ins. coins s (prevout txin) \<noteq> None, s') \<and> same_view s s'"
  using assms
proof (induction ins arbitrary: s)
  case (Cons txin ins)
  obtain s1 where h: "HaveCoin (prevout txin) s = (coins s (prevout txin) \<noteq> None, s1)" "same_view s s1"
    using HaveCoin_valid [OF Cons.prems, of "prevout txin"] by (auto simp: same_view_def)
  obtain s2 where "have_inputs ins s1 = (\<forall>txin \<in> set ins. coins s1 (prevout txin) \<noteq> None, s2)" "same_view s1 s2"
    using Cons.IH [OF same_viewD(1) [OF h(2)]] by blast
  then show ?case using h same_viewD(2) [OF h(2)] same_view_trans [of s s1 s2] by (auto simp: case_prod_unfold Let_def)
qed (simp add: same_view_refl)

text \<open>Specification: an input may be spent at a height, and what the inputs are worth.\<close>

definition spendable :: "int \<Rightarrow> Coin \<Rightarrow> bool" where
  "spendable nSpendHeight c \<longleftrightarrow>
     (fCoinBase c \<longrightarrow> GetCurrentCoinBaseMaturity (int (unat (coin_nHeight c))) \<le> nSpendHeight - int (unat (coin_nHeight c))) \<and>
     MoneyRange (nValue (out c))"

definition inputs_spendable :: "utxo \<Rightarrow> int \<Rightarrow> CTxIn list \<Rightarrow> bool" where
  "inputs_spendable U nSpendHeight ins \<longleftrightarrow> (\<forall>txin \<in> set ins. \<exists>c. U (prevout txin) = Some c \<and> spendable nSpendHeight c)"

definition inputs_value :: "utxo \<Rightarrow> CTxIn list \<Rightarrow> int" where
  "inputs_value U ins = sum_list (map (\<lambda>txin. case U (prevout txin) of Some c \<Rightarrow> nValue (out c) | None \<Rightarrow> 0) ins)"

definition amounts_ok :: "utxo \<Rightarrow> bool" where
  "amounts_ok U \<longleftrightarrow> (\<forall>k c. U k = Some c \<longrightarrow> \<bar>nValue (out c)\<bar> \<le> 2 ^ 62)"

lemma inputs_value_nonneg: "inputs_spendable U H ins \<Longrightarrow> 0 \<le> inputs_value U ins"
  unfolding inputs_value_def inputs_spendable_def spendable_def MoneyRange_def by (rule sum_list_nonneg) (auto split: option.splits)

lemma tx_inputs_loop_exact:
  assumes "coins_valid s" "\<forall>txin \<in> set ins. coins s (prevout txin) \<noteq> None" "amounts_ok (coins s)" "MoneyRange acc"
  shows "\<exists>r s'. tx_inputs_loop fmt H ins acc state s = (Ok r, s') \<and> same_view s s' \<and>
    (if inputs_spendable (coins s) H ins \<and> MoneyRange (acc + inputs_value (coins s) ins) then r = Inr (acc + inputs_value (coins s) ins)
     else \<exists>reason str msg. r = Inl (Invalid reason False REJECT_INVALID str msg state))"
  using assms
proof (induction ins arbitrary: s acc)
  case Nil
  then show ?case by (simp add: inputs_spendable_def inputs_value_def same_view_refl)
next
  case (Cons txin ins)
  define k where "k = prevout txin"
  obtain c s1 where a: "AccessCoin k s = (c, s1)" "same_view s s1" "coins s k = (if IsSpent c then None else Some c)"
    using AccessCoin_same [OF Cons.prems(1)] .
  have c: "coins s k = Some c" "\<not> IsSpent c" using a(3) Cons.prems(2) by (auto simp: k_def split: if_splits)
  note s1 = same_viewD [OF a(2)]
  have i64: "int64 (acc + nValue (out c))"
    using Cons.prems(3,4) c(1) by (auto simp: amounts_ok_def MoneyRange_def int64_def abs_le_iff dest!: spec [of _ k])
  have val: "inputs_value (coins s) (txin # ins) = nValue (out c) + inputs_value (coins s) ins" using c(1) by (simp add: inputs_value_def k_def)
  have sp: "inputs_spendable (coins s) H (txin # ins) \<longleftrightarrow> spendable H c \<and> inputs_spendable (coins s) H ins" using c(1) by (auto simp: inputs_spendable_def k_def)
  show ?case
  proof (cases "spendable H c \<and> MoneyRange (acc + nValue (out c))")
    case True
    obtain r s2 where r: "tx_inputs_loop fmt H ins (acc + nValue (out c)) state s1 = (Ok r, s2)" "same_view s1 s2"
      "if inputs_spendable (coins s) H ins \<and> MoneyRange (acc + nValue (out c) + inputs_value (coins s) ins) then r = Inr (acc + nValue (out c) + inputs_value (coins s) ins)
       else \<exists>reason str msg. r = Inl (Invalid reason False REJECT_INVALID str msg state)"
      using Cons.IH [of s1 "acc + nValue (out c)"] s1 Cons.prems(2,3) True by auto
    have "tx_inputs_loop fmt H (txin # ins) acc state s = (Ok r, s2)"
      using True a(1) c(2) i64 r(1) by (auto simp: k_def spendable_def Let_def)
    then show ?thesis using r(2,3) same_view_trans [OF a(2)] True unfolding val sp by (auto simp: add.assoc)
  next
    case False
    define u where "u = int (unat (coin_nHeight c))"
    have e: "\<exists>reason str msg. tx_inputs_loop fmt H (txin # ins) acc state s = (Ok (Inl (Invalid reason False REJECT_INVALID str msg state)), s1)"
    proof (cases "fCoinBase c \<and> H - u < GetCurrentCoinBaseMaturity u")
      case True
      then show ?thesis using a(1) c(2) unfolding u_def by (simp only: tx_inputs_loop.simps k_def Let_def prod.case if_True if_False simp_thms) (intro exI, rule refl)
    next
      case nm: False
      then have "\<not> MoneyRange (nValue (out c)) \<or> \<not> MoneyRange (acc + nValue (out c))" using False by (auto simp: spendable_def u_def)
      then show ?thesis using nm a(1) c(2) i64 unfolding u_def by (simp only: tx_inputs_loop.simps k_def Let_def prod.case if_True if_False simp_thms) (intro exI, rule refl)
    qed
    have "\<not> (inputs_spendable (coins s) H (txin # ins) \<and> MoneyRange (acc + inputs_value (coins s) (txin # ins)))"
    proof
      assume t: "inputs_spendable (coins s) H (txin # ins) \<and> MoneyRange (acc + inputs_value (coins s) (txin # ins))"
      then have "spendable H c" "0 \<le> inputs_value (coins s) ins" using sp inputs_value_nonneg by auto
      then show False using t False Cons.prems(4) unfolding val by (auto simp: MoneyRange_def spendable_def)
    qed
    with e a(2) show ?thesis by (simp only: if_False) blast
  qed
qed

lemma GetValueOut_range: "GetValueOut tx = Ok v \<Longrightarrow> MoneyRange v"
proof -
  have "value_out_loop outs acc = Ok v \<Longrightarrow> MoneyRange v" for outs acc
    by (induction outs arbitrary: acc) (auto split: if_splits)
  then show "GetValueOut tx = Ok v \<Longrightarrow> MoneyRange v" by (simp add: GetValueOut_def)
qed

lemma CheckTxInputs_judged:
  assumes "coins_valid s" "amounts_ok (coins s)" "\<not> IsCoinBase tx" "GetValueOut tx = Ok value_out"
  shows "\<exists>r s'. CheckTxInputs fmt tx nSpendHeight state s = (Ok r, s') \<and> coins_valid s' \<and> coins_views s' = coins_views s \<and>
    (if inputs_spendable (coins s) nSpendHeight (vin tx) \<and> MoneyRange (inputs_value (coins s) (vin tx)) \<and> value_out \<le> inputs_value (coins s) (vin tx)
     then r = ((True, state), Some (inputs_value (coins s) (vin tx) - value_out))
     else \<exists>reason str msg. r = (Invalid reason False REJECT_INVALID str msg state, None))"
proof -
  obtain s1 where h: "have_inputs (vin tx) s = (\<forall>txin \<in> set (vin tx). coins s (prevout txin) \<noteq> None, s1)" "same_view s s1"
    using have_inputs_exact [OF assms(1)] by blast
  have hi: "HaveInputs tx s = (\<forall>txin \<in> set (vin tx). coins s (prevout txin) \<noteq> None, s1)" using h(1) assms(3) by (simp add: HaveInputs_def)
  note s1 = same_viewD [OF h(2)]
  have vo: "MoneyRange value_out" using assms(4) by (rule GetValueOut_range)
  show ?thesis
  proof (cases "\<forall>txin \<in> set (vin tx). coins s (prevout txin) \<noteq> None")
    case False
    then have "\<not> inputs_spendable (coins s) nSpendHeight (vin tx)" by (force simp: inputs_spendable_def)
    then show ?thesis using False hi h(2) by (auto simp: CheckTxInputs_def same_view_def)
  next
    case True
    obtain r s2 where r: "tx_inputs_loop fmt nSpendHeight (vin tx) 0 state s1 = (Ok r, s2)" "same_view s1 s2"
      "if inputs_spendable (coins s) nSpendHeight (vin tx) \<and> MoneyRange (0 + inputs_value (coins s) (vin tx)) then r = Inr (0 + inputs_value (coins s) (vin tx))
       else \<exists>reason str msg. r = Inl (Invalid reason False REJECT_INVALID str msg state)"
      using tx_inputs_loop_exact [of s1 "vin tx" 0 fmt nSpendHeight state] s1 True assms(2) by (auto simp: MoneyRange_def)
    have v: "coins_valid s2" "coins_views s2 = coins_views s" using r(2) h(2) by (simp_all add: same_view_def)
    show ?thesis
    proof (cases r)
      case (Inl e)
      then show ?thesis using r hi True v by (auto simp: CheckTxInputs_def split: if_splits)
    next
      case (Inr t)
      then have t: "t = inputs_value (coins s) (vin tx)" "inputs_spendable (coins s) nSpendHeight (vin tx)" "MoneyRange t"
        using r(3) by (auto split: if_splits)
      define res where "res = (if t < value_out then (Invalid CONSENSUS False REJECT_INVALID ''bad-txns-in-belowout''
          (fmt ''value in (%s) < value out (%s)'' [t, value_out]) state, None) else ((True, state), Some (t - value_out)))"
      have "MoneyRange (t - value_out)" if "\<not> t < value_out" using that t(3) vo by (auto simp: MoneyRange_def)
      then have "CheckTxInputs fmt tx nSpendHeight state s = (Ok res, s2)"
        using Inr r(1) hi True assms(4) by (simp add: CheckTxInputs_def res_def)
      moreover have "if value_out \<le> t then res = ((True, state), Some (t - value_out))
          else \<exists>reason str msg. res = (Invalid reason False REJECT_INVALID str msg state, None)"
        by (simp add: res_def) blast
      ultimately show ?thesis using v t by (intro exI conjI) (assumption | simp)+
    qed
  qed
qed

text \<open>
  C11. The inputs of a transaction are judged exactly.  On a valid stack of coin caches \<^verbatim>\<open>CheckTxInputs\<close> of a transaction that
  is not a coinbase ends without a failed assertion, leaves what the caches show unchanged, and accepts exactly
  when every input is unspent, mature and in the range of money, the inputs together are in the range of money, and they
  are worth at least the outputs; then the fee is the difference.  Otherwise it marks the state as invalid.
\<close>

theorem CheckTxInputs_exact:
  assumes "coins_valid s" "amounts_ok (coins s)" "\<not> IsCoinBase tx" "GetValueOut tx = Ok value_out"
  shows "\<exists>r s'. CheckTxInputs fmt tx nSpendHeight state s = (Ok r, s') \<and> coins_valid s' \<and> coins_views s' = coins_views s \<and>
    (if inputs_spendable (coins s) nSpendHeight (vin tx) \<and> MoneyRange (inputs_value (coins s) (vin tx)) \<and> value_out \<le> inputs_value (coins s) (vin tx)
     then r = ((True, state), Some (inputs_value (coins s) (vin tx) - value_out))
     else \<exists>reason str msg. r = (Invalid reason False REJECT_INVALID str msg state, None))"
  using assms by (rule CheckTxInputs_judged)

section \<open>Examples\<close>

definition example_spend :: "u32 \<Rightarrow> CTransaction" where
  "example_spend seq = \<lparr>vin = [\<lparr>prevout = COutPoint Coins.example_hash1 0, scriptSig = [], nSequence = seq\<rparr>],
     vout = [\<lparr>nValue = 3, scriptPubKey = []\<rparr>], nVersion = 2, nType = 0, nLockTime = 0, vExtraPayload = []\<rparr>"

theorem SequenceLocks_exact_witness:
  "SequenceLocks example_store (example_spend 2) 1 [3] 5 = Ok True \<and> SequenceLocks example_store (example_spend 3) 1 [3] 5 = Ok False"
proof -
  have b: "pprev (example_store 5) = Some 4" "nHeight (example_store 5) = 5" by (simp_all add: example_fields)
  have n: "\<not> (scast (2 :: u16) :: u32) < 2" "bit (1 :: u32) 0" by simp_all
  have l: "lock_met example_store 5 4 (vin (example_spend 2) ! 0) 3" "\<not> lock_met example_store 5 4 (vin (example_spend 3) ! 0) 3"
    using b(2) by (simp_all add: lock_met_def example_spend_def bit_numeral_rec)
  show ?thesis
    using SequenceLocks_exact [OF example_chain_ok b(1), of "[3]" "example_spend 2" 1] SequenceLocks_exact [OF example_chain_ok b(1), of "[3]" "example_spend 3" 1]
      b(2) n l by (simp add: example_spend_def)
qed

theorem CheckTxInputs_exact_witness:
  "\<exists>s'. CheckTxInputs (\<lambda>f _. f) (example_spend 0) 8 CValidationState_init example_coins = (Ok ((True, CValidationState_init), Some 2), s') \<and>
     coins_valid s' \<and> coins_views s' = coins_views example_coins"
proof -
  let ?U = "coins example_coins" and ?tx = "example_spend 0"
  have u: "?U = (\<lambda>_. None)(COutPoint Coins.example_hash1 0 \<mapsto> example_coin)" by (simp add: coins_def example_views)
  have a: "amounts_ok ?U" unfolding u by (auto simp: amounts_ok_def example_coin_def split: if_splits)
  have i: "\<not> IsCoinBase ?tx" by (simp add: IsCoinBase_def example_spend_def COutPoint_IsNull_def Coins.example_facts)
  have v: "GetValueOut ?tx = Ok 3" by (simp add: GetValueOut_def example_spend_def MoneyRange_def)
  have s: "inputs_spendable ?U 8 (vin ?tx)" "inputs_value ?U (vin ?tx) = 5"
    unfolding u by (simp_all add: inputs_spendable_def inputs_value_def example_spend_def spendable_def example_coin_def MoneyRange_def)
  show ?thesis using CheckTxInputs_exact [OF example_valid a i v, of "\<lambda>f _. f" 8 CValidationState_init] s by (auto simp: MoneyRange_def)
qed

end
