(* ===== verification/Block_Check.thy ===== *)
theory Block_Check
  imports Tx_Verify Merkle Subsidy
begin

unbundle bit_operations_syntax

text \<open>
  The checks of a whole block before it is connected (\<^verbatim>\<open>CheckBlock\<close>, \<^verbatim>\<open>ContextualCheckTransaction\<close> and \<^verbatim>\<open>ContextualCheckBlock\<close>
  of src/src/validation.cpp): they compose the header check, the Merkle root, the rules of the single transactions, the count of
  signature operations, the lock times with the deployment of BIP 113, and the payments that the coinbase owes.
  The properties say which blocks are accepted, and that one payment is not enforced below a height.
\<close>

section \<open>Context-free checks of a block\<close>

text \<open>
  What the checks take from elsewhere: the cryptographic functions, and the scripts of the addresses that the consensus
  parameters name for the developer fund and for the extra payouts.
\<close>

record block_env =
  block_crypto :: crypto
  devPayoutScript :: script
  additionalPayoutScript :: script

primrec check_transactions :: "header_env \<Rightarrow> crypto \<Rightarrow> CTransaction list \<Rightarrow> CValidationState \<Rightarrow> bool \<times> CValidationState" where
  "check_transactions env C [] state = (True, state)"
| "check_transactions env C (tx # txs) state =
     (let (ok, state') = CheckTransaction tx state
      in if ok then check_transactions env C txs state'
         else Invalid (m_reason state') False (chRejectCode state') (strRejectReason state')
                (strprintf env ''Transaction check failed (tx hash %s) %s'' (map uint (ComputeHash C tx) @ map of_char (strDebugMessage state'))) state')"

primrec count_sigops :: "CTransaction list \<Rightarrow> u32 \<Rightarrow> u32 outcome" where
  "count_sigops [] nSigOps = Ok nSigOps"
| "count_sigops (tx # txs) nSigOps = obind (GetLegacySigOpCount tx) (\<lambda>n. count_sigops txs (nSigOps + n))"

text \<open>
  The flag \<^verbatim>\<open>fChecked\<close>, which the block object remembers, is an argument and the last result.
\<close>

definition CheckBlock :: "header_env \<Rightarrow> crypto \<Rightarrow> CBlock \<Rightarrow> bool \<Rightarrow> bool \<Rightarrow> bool \<Rightarrow> CValidationState \<Rightarrow> ((bool \<times> CValidationState) \<times> bool) outcome" where
  "CheckBlock env C block fChecked fCheckPOW fCheckMerkleRoot state =
     (if fChecked then Ok ((True, state), fChecked)
      else obind (CheckBlockHeader env (CBlockHeader.truncate block) fCheckPOW state) (\<lambda>(ok, state).
        let (hashMerkleRoot2, mutated) = BlockMerkleRoot (Hash256 C) (ComputeHash C) block
        in if \<not> ok then Ok ((False, state), fChecked)
           else if fCheckMerkleRoot \<and> hd_hashMerkleRoot block \<noteq> hashMerkleRoot2
           then Ok (Invalid BLOCK_MUTATED False REJECT_INVALID ''bad-txnmrklroot'' ''hashMerkleRoot mismatch'' state, fChecked)
           else if fCheckMerkleRoot \<and> mutated
           then Ok (Invalid BLOCK_MUTATED False REJECT_INVALID ''bad-txns-duplicate'' ''duplicate transaction'' state, fChecked)
           else if vtx block = [] \<or> length (vtx block) > MaxBlockSize True \<or> length (CBlock_ser block) > MaxBlockSize True
           then Ok (Invalid CONSENSUS False REJECT_INVALID ''bad-blk-length'' ''size limits failed'' state, fChecked)
           else if \<not> IsCoinBase (vtx block ! 0)
           then Ok (Invalid CONSENSUS False REJECT_INVALID ''bad-cb-missing'' ''first tx is not coinbase'' state, fChecked)
           else if list_ex IsCoinBase (tl (vtx block))
           then Ok (Invalid CONSENSUS False REJECT_INVALID ''bad-cb-multiple'' ''more than one coinbase'' state, fChecked)
           else let (ok, state) = check_transactions env C (vtx block) state
           in if \<not> ok then Ok ((False, state), fChecked)
           else obind (count_sigops (vtx block) 0) (\<lambda>nSigOps.
                if unat nSigOps > MaxBlockSigOps True
                then Ok (Invalid CONSENSUS False REJECT_INVALID ''bad-blk-sigops'' ''out-of-bounds SigOpCount'' state, fChecked)
                else Ok ((True, state), fChecked \<or> fCheckPOW \<and> fCheckMerkleRoot))))"

section \<open>Checks that depend on the height\<close>

abbreviation (input) MAX_STANDARD_TX_SIZE :: nat where "MAX_STANDARD_TX_SIZE \<equiv> 100000"
abbreviation (input) DEPLOYMENT_CSV :: nat where "DEPLOYMENT_CSV \<equiv> 1"

definition ContextualCheckTransaction :: "Params \<Rightarrow> int \<Rightarrow> CTransaction \<Rightarrow> CValidationState \<Rightarrow> bool \<times> CValidationState" where
  "ContextualCheckTransaction consensusParams nH tx state =
     (let fDIP0001Active_context = (nH \<ge> DIP0001Height consensusParams);
          fDIP0003Active_context = (nH \<ge> DIP0003Height consensusParams)
      in if fDIP0003Active_context \<and> sint (nVersion tx) \<ge> 3 \<and>
            nType tx \<notin> {TRANSACTION_NORMAL, TRANSACTION_PROVIDER_REGISTER, TRANSACTION_PROVIDER_UPDATE_SERVICE,
              TRANSACTION_PROVIDER_UPDATE_REGISTRAR, TRANSACTION_PROVIDER_UPDATE_REVOKE, TRANSACTION_COINBASE,
              TRANSACTION_QUORUM_COMMITMENT, TRANSACTION_MNHF_SIGNAL}
         then consensus_error ''bad-txns-type'' state
         else if fDIP0003Active_context \<and> sint (nVersion tx) \<ge> 3 \<and> IsCoinBase tx \<and> nType tx \<noteq> TRANSACTION_COINBASE
         then consensus_error ''bad-txns-cb-type'' state
         else if fDIP0003Active_context \<and> \<not> sint (nVersion tx) \<ge> 3 \<and> nType tx \<noteq> TRANSACTION_NORMAL
         then consensus_error ''bad-txns-type'' state
         else if fDIP0001Active_context \<and> length (CTransaction_ser tx) > MAX_STANDARD_TX_SIZE
         then consensus_error ''bad-txns-oversize'' state
         else (True, state))"

text \<open>The loop over the transactions answers what was returned, or the number of signature operations.\<close>

primrec contextual_txs :: "Params \<Rightarrow> int \<Rightarrow> int \<Rightarrow> CTransaction list \<Rightarrow> u32 \<Rightarrow> CValidationState \<Rightarrow> ((bool \<times> CValidationState) + u32) outcome" where
  "contextual_txs consensusParams nH nLockTimeCutoff [] nSigOps state = Ok (Inr nSigOps)"
| "contextual_txs consensusParams nH nLockTimeCutoff (tx # txs) nSigOps state =
     (if \<not> IsFinalTx tx nH nLockTimeCutoff
      then Ok (Inl (Invalid CONSENSUS False REJECT_INVALID ''bad-txns-nonfinal'' ''non-final transaction'' state))
      else let (ok, state') = ContextualCheckTransaction consensusParams nH tx state
           in if \<not> ok then Ok (Inl (False, state'))
              else obind (GetLegacySigOpCount tx) (\<lambda>n. contextual_txs consensusParams nH nLockTimeCutoff txs (nSigOps + n) state'))"

definition pays :: "CTransaction \<Rightarrow> script \<Rightarrow> int \<Rightarrow> bool" where
  "pays tx scr v = list_ex (\<lambda>txout. scriptPubKey txout = scr \<and> nValue txout = v) (vout tx)"

text \<open>
  The checks of the coinbase after the loop.  Below height 153990 the developer reward is checked by a call of
  \<^verbatim>\<open>state.Invalid\<close> whose second argument, the parameter \<^verbatim>\<open>ret\<close> of type \<^verbatim>\<open>bool\<close>, is a string literal; the conversion makes it
  true, and the function returns it.
\<close>

definition coinbase_checks :: "header_env \<Rightarrow> block_env \<Rightarrow> int \<Rightarrow> CBlock \<Rightarrow> u32 \<Rightarrow> CValidationState \<Rightarrow> (bool \<times> CValidationState) outcome" where
  "coinbase_checks env be nH block nSigOps state =
     (let params = env_consensus env; cb = vtx block ! 0;
          fDIP0001Active_context = (nH \<ge> DIP0001Height params);
          fDIP0003Active_context = (nH \<ge> DIP0003Height params)
      in if nH > DevRewardStartHeight params \<and> \<not> pays cb (devPayoutScript be) (devPayoutValue params nH)
         then Ok (if nH < 153990 then Invalid TX_MISSING_INPUTS True 0 [] [] state
                  else Invalid CONSENSUS False REJECT_INVALID ''bad-cb-tx'' ''Developer Reward Check Failed'' state)
         else if isExtraFundAllocationHeight (is_MAIN (env_chainparams env)) params nH \<and>
                 \<not> pays cb (additionalPayoutScript be) (GetExtraPayOutAmount nH)
         then Ok (Invalid CONSENSUS False REJECT_INVALID ''bad-cb-tx'' ''Extra reward allocation check failed'' state)
         else if unat nSigOps > MaxBlockSigOps fDIP0001Active_context
         then Ok (Invalid CONSENSUS False REJECT_INVALID ''bad-blk-sigops'' ''out-of-bounds SigOpCount'' state)
         else if nH \<ge> BIP34Height params \<and> \<not> fDIP0003Active_context \<and> vin cb = [] then Abort
         else if nH \<ge> BIP34Height params \<and> \<not> fDIP0003Active_context \<and>
                 (length (scriptSig (vin cb ! 0)) < length (push_int64 [] nH) \<or>
                  take (length (push_int64 [] nH)) (scriptSig (vin cb ! 0)) \<noteq> push_int64 [] nH)
         then Ok (Invalid CONSENSUS False REJECT_INVALID ''bad-cb-height'' ''block height mismatch in coinbase'' state)
         else if fDIP0003Active_context \<and> nType cb \<noteq> TRANSACTION_COINBASE
         then Ok (Invalid CONSENSUS False REJECT_INVALID ''bad-cb-type'' ''coinbase is not a CbTx'' state)
         else Ok (True, state))"

definition contextual_body :: "header_env \<Rightarrow> block_env \<Rightarrow> int \<Rightarrow> int \<Rightarrow> CBlock \<Rightarrow> CValidationState \<Rightarrow> (bool \<times> CValidationState) outcome" where
  "contextual_body env be nH nLockTimeCutoff block state =
     (let params = env_consensus env; nMaxBlockSize = MaxBlockSize (nH \<ge> DIP0001Height params)
      in if vtx block = [] \<or> length (vtx block) > nMaxBlockSize \<or> length (CBlock_ser block) > nMaxBlockSize
         then Ok (Invalid CONSENSUS False REJECT_INVALID ''bad-blk-length'' ''size limits failed'' state)
         else obind (contextual_txs params nH nLockTimeCutoff (vtx block) 0 state) (\<lambda>r. case r of
                Inl e \<Rightarrow> Ok e
              | Inr nSigOps \<Rightarrow> coinbase_checks env be nH block nSigOps state))"

definition ContextualCheckBlock :: "header_env \<Rightarrow> block_env \<Rightarrow> store \<Rightarrow> CBlock \<Rightarrow> ptr option \<Rightarrow> VersionBitsCache \<Rightarrow> CValidationState \<Rightarrow>
    ((bool \<times> CValidationState) \<times> VersionBitsCache) outcome option" where
  "ContextualCheckBlock env be h block pindexPrev caches state =
     (let nH = (case pindexPrev of None \<Rightarrow> 0 | Some p \<Rightarrow> nHeight (h p) + 1)
      in after_loop (VersionBitsState h pindexPrev (env_consensus env) DEPLOYMENT_CSV caches) (\<lambda>(csv, caches).
           Some (if csv = ACTIVE \<and> pindexPrev = None then Abort
                 else let nLockTimeCutoff = (case pindexPrev of Some p \<Rightarrow> if csv = ACTIVE then GetMedianTimePast h p else int (unat (hd_nTime block))
                                             | None \<Rightarrow> int (unat (hd_nTime block)))
                      in obind (contextual_body env be nH nLockTimeCutoff block state) (\<lambda>r. Ok (r, caches)))))"

section \<open>Counting signature operations\<close>

definition tx_sigops :: "CTransaction \<Rightarrow> nat" where
  "tx_sigops tx = sum_list (map (\<lambda>txin. the (GetSigOpCount False (scriptSig txin))) (vin tx)) +
     sum_list (map (\<lambda>txout. the (GetSigOpCount False (scriptPubKey txout))) (vout tx))"

lemma add_sigops_sum:
  assumes "\<forall>c \<in> set cs. c \<noteq> None"
  shows "add_sigops cs a = Ok (a + of_nat (sum_list (map the cs)))"
  using assms by (induction cs arbitrary: a) (auto simp: or_abort_def add.assoc)

lemma GetLegacySigOpCount_sum: "GetLegacySigOpCount tx = Ok (of_nat (tx_sigops tx))"
proof -
  have "GetSigOpCount False s \<noteq> None" for s using GetSigOpCount_bound [of False s] by auto
  then show ?thesis unfolding GetLegacySigOpCount_def by (subst add_sigops_sum) (auto simp: tx_sigops_def o_def)
qed

lemma count_sigops_sum: "count_sigops txs a = Ok (a + of_nat (sum_list (map tx_sigops txs)))"
  by (induction txs arbitrary: a) (simp_all add: GetLegacySigOpCount_sum add.assoc)

lemma length_vector_ser: "sum_list (map (\<lambda>x. length (ser x)) v) \<le> length (vector_ser ser v)"
  by (simp add: vector_ser_def length_concat o_def)

lemma length_bytes_ser: "length b \<le> length (bytes_ser b)"
  by (simp add: bytes_ser_def)

lemma tx_sigops_bound: "tx_sigops tx \<le> 20 * length (CTransaction_ser tx)"
proof -
  have b: "the (GetSigOpCount False s) \<le> 20 * length s" for s using GetSigOpCount_bound [of False s] by auto
  have i: "the (GetSigOpCount False (scriptSig x)) \<le> 20 * length (CTxIn_ser x)" for x
    using b [of "scriptSig x"] length_bytes_ser [of "scriptSig x"] by (simp add: CTxIn_ser_def)
  have o: "the (GetSigOpCount False (scriptPubKey x)) \<le> 20 * length (CTxOut_ser x)" for x
    using b [of "scriptPubKey x"] length_bytes_ser [of "scriptPubKey x"] by (simp add: CTxOut_ser_def)
  have "tx_sigops tx \<le> sum_list (map (\<lambda>x. 20 * length (CTxIn_ser x)) (vin tx)) + sum_list (map (\<lambda>x. 20 * length (CTxOut_ser x)) (vout tx))"
    unfolding tx_sigops_def by (intro add_mono sum_list_mono i o)
  also have "\<dots> = 20 * (sum_list (map (\<lambda>x. length (CTxIn_ser x)) (vin tx)) + sum_list (map (\<lambda>x. length (CTxOut_ser x)) (vout tx)))"
    by (simp add: sum_list_const_mult)
  also have "\<dots> \<le> 20 * length (CTransaction_ser tx)"
    using length_vector_ser [of CTxIn_ser "vin tx"] length_vector_ser [of CTxOut_ser "vout tx"] by (simp add: CTransaction_ser_def)
  finally show ?thesis .
qed

definition block_sigops :: "CBlock \<Rightarrow> nat" where
  "block_sigops block = sum_list (map tx_sigops (vtx block))"

lemma block_sigops_unat:
  assumes "length (CBlock_ser block) \<le> 2000000"
  shows "unat (of_nat (block_sigops block) :: u32) = block_sigops block"
proof -
  have "block_sigops block \<le> sum_list (map (\<lambda>tx. 20 * length (CTransaction_ser tx)) (vtx block))"
    unfolding block_sigops_def by (intro sum_list_mono tx_sigops_bound)
  also have "\<dots> = 20 * sum_list (map (\<lambda>tx. length (CTransaction_ser tx)) (vtx block))" by (rule sum_list_const_mult)
  also have "\<dots> \<le> 20 * length (CBlock_ser block)" using length_vector_ser [of CTransaction_ser "vtx block"] by (simp add: CBlock_ser_def)
  finally show ?thesis using assms by (simp add: unat_of_nat take_bit_nat_eq_self)
qed

section \<open>Verdicts\<close>

text \<open>
  A check that ends with true and the state as it was exactly when a condition holds, and with what \<^verbatim>\<open>Invalid\<close> makes
  of the state, and false, otherwise.
\<close>

definition verdict :: "CValidationState \<Rightarrow> (bool \<times> CValidationState) \<Rightarrow> bool \<Rightarrow> bool" where
  "verdict state r P \<longleftrightarrow> (if P then r = (True, state) else \<exists>reason code str msg. r = Invalid reason False code str msg state)"

lemma verdict_guard: "verdict state r P \<Longrightarrow> verdict state (if c then Invalid reason False code str msg state else r) (\<not> c \<and> P)"
  by (auto simp: verdict_def)

lemma verdict_True: "verdict state (True, state) True"
  by (simp add: verdict_def)

lemma verdict_cong: "verdict state r P \<Longrightarrow> P = Q \<Longrightarrow> verdict state r Q"
  by simp

lemma verdict_fst: "verdict state r P \<Longrightarrow> fst r = P"
  by (auto simp: verdict_def Invalid_def Let_def split: if_splits)

lemma Invalid_twice [simp]: "Invalid reason ret code str msg (snd (Invalid reason' ret' code' str' msg' state)) = Invalid reason ret code str msg state"
  by (simp add: Invalid_def Let_def)

lemma check_transactions_verdict: "verdict state (check_transactions env C txs state) (\<forall>tx \<in> set txs. tx_rules tx)"
proof (induction txs)
  case (Cons tx txs)
  from CheckTransaction_judged [of state tx] consider
    "CheckTransaction tx state = (True, state)" "tx_rules tx" | str where "CheckTransaction tx state = consensus_error str state" "\<not> tx_rules tx"
    by (auto simp: judged_def)
  then show ?case
  proof cases
    case 1
    then show ?thesis using Cons.IH by simp
  next
    case (2 str)
    define st where "st = snd (consensus_error str state)"
    have c: "CheckTransaction tx state = (False, st)" unfolding 2 st_def by (simp add: Invalid_def Let_def)
    have "check_transactions env C (tx # txs) state = Invalid (m_reason st) False (chRejectCode st) (strRejectReason st)
        (strprintf env ''Transaction check failed (tx hash %s) %s'' (map uint (ComputeHash C tx) @ map of_char (strDebugMessage st))) state"
      unfolding check_transactions.simps c by (simp add: st_def)
    then show ?thesis using 2(2) by (auto simp: verdict_def)
  qed
qed (simp add: verdict_True)

text \<open>Specification: the rules that a block obeys on its own.\<close>

definition block_rules :: "CBlock \<Rightarrow> bool" where
  "block_rules block \<longleftrightarrow> vtx block \<noteq> [] \<and> length (vtx block) \<le> MaxBlockSize True \<and> length (CBlock_ser block) \<le> MaxBlockSize True \<and>
     IsCoinBase (hd (vtx block)) \<and> (\<forall>tx \<in> set (tl (vtx block)). \<not> IsCoinBase tx) \<and>
     (\<forall>tx \<in> set (vtx block). tx_rules tx) \<and> block_sigops block \<le> MaxBlockSigOps True"

lemma CheckBlock_judged:
  assumes "CheckBlockHeader env (CBlockHeader.truncate block) fCheckPOW state = Ok (good_header, state1)"
  shows "\<exists>r fc. CheckBlock env C block False fCheckPOW fCheckMerkleRoot state = Ok (r, fc) \<and>
    (fst r \<longleftrightarrow> good_header \<and> (fCheckMerkleRoot \<longrightarrow> BlockMerkleRoot (Hash256 C) (ComputeHash C) block = (hd_hashMerkleRoot block, False)) \<and> block_rules block) \<and>
    (fst r \<longrightarrow> snd r = state1) \<and> (fc \<longleftrightarrow> fst r \<and> fCheckPOW \<and> fCheckMerkleRoot) \<and>
    (\<not> fst r \<longrightarrow> snd r = state1 \<or> (\<exists>reason code str msg. r = Invalid reason False code str msg state1))"
proof (cases good_header)
  case False
  then show ?thesis using assms by (simp add: CheckBlock_def case_prod_unfold Let_def)
next
  case True
  obtain root mutated where m: "BlockMerkleRoot (Hash256 C) (ComputeHash C) block = (root, mutated)" by fastforce
  define good_size where "good_size \<longleftrightarrow> vtx block \<noteq> [] \<and> length (vtx block) \<le> MaxBlockSize True \<and> length (CBlock_ser block) \<le> MaxBlockSize True"
  define cb where "cb \<longleftrightarrow> IsCoinBase (vtx block ! 0) \<and> \<not> list_ex IsCoinBase (tl (vtx block))"
  define txs where "txs = check_transactions env C (vtx block) state1"
  have tv: "verdict state1 txs (\<forall>tx \<in> set (vtx block). tx_rules tx)" unfolding txs_def by (rule check_transactions_verdict)
  define sig where "sig \<longleftrightarrow> unat (of_nat (block_sigops block) :: u32) \<le> MaxBlockSigOps True"
  define last_part where "last_part = (if \<not> sig then Invalid CONSENSUS False REJECT_INVALID ''bad-blk-sigops'' ''out-of-bounds SigOpCount'' state1 else (True, state1))"
  define r where "r =
     (if fCheckMerkleRoot \<and> hd_hashMerkleRoot block \<noteq> root then Invalid BLOCK_MUTATED False REJECT_INVALID ''bad-txnmrklroot'' ''hashMerkleRoot mismatch'' state1
      else if fCheckMerkleRoot \<and> mutated then Invalid BLOCK_MUTATED False REJECT_INVALID ''bad-txns-duplicate'' ''duplicate transaction'' state1
      else if \<not> good_size then Invalid CONSENSUS False REJECT_INVALID ''bad-blk-length'' ''size limits failed'' state1
      else if \<not> IsCoinBase (vtx block ! 0) then Invalid CONSENSUS False REJECT_INVALID ''bad-cb-missing'' ''first tx is not coinbase'' state1
      else if list_ex IsCoinBase (tl (vtx block)) then Invalid CONSENSUS False REJECT_INVALID ''bad-cb-multiple'' ''more than one coinbase'' state1
      else if \<not> fst txs then txs else last_part)"
  have tx_part: "verdict state1 (if \<not> fst txs then txs else last_part) ((\<forall>tx \<in> set (vtx block). tx_rules tx) \<and> sig)"
    using tv verdict_fst [OF tv] by (auto simp: verdict_def last_part_def)
  have v: "verdict state1 r (\<not> (fCheckMerkleRoot \<and> hd_hashMerkleRoot block \<noteq> root) \<and> \<not> (fCheckMerkleRoot \<and> mutated) \<and> \<not> \<not> good_size \<and>
      \<not> \<not> IsCoinBase (vtx block ! 0) \<and> \<not> list_ex IsCoinBase (tl (vtx block)) \<and> (\<forall>tx \<in> set (vtx block). tx_rules tx) \<and> sig)"
    unfolding r_def by (intro verdict_guard tx_part)
  have e: "CheckBlock env C block False fCheckPOW fCheckMerkleRoot state = Ok (r, fst r \<and> fCheckPOW \<and> fCheckMerkleRoot)"
  proof -
    have fi: "fst (Invalid reason False code str msg st) = False" for reason code str msg st by (simp add: Invalid_def Let_def)
    have oi: "Ok (if c then a else b, fst (if c then a else b) \<and> Q) = (if c then Ok (a, fst a \<and> Q) else Ok (b, fst b \<and> Q))"
      for c Q and a b :: "bool \<times> CValidationState" by simp
    have sz: "(vtx block = [] \<or> MaxBlockSize True < length (vtx block) \<or> MaxBlockSize True < length (CBlock_ser block)) \<longleftrightarrow> \<not> good_size"
      by (auto simp: good_size_def)
    have sg: "MaxBlockSigOps True < unat (of_nat (block_sigops block) :: u32) \<longleftrightarrow> \<not> sig" by (auto simp: sig_def)
    have tt: "txs = (True, state1)" if "fst txs" using that tv verdict_fst [OF tv] by (simp add: verdict_def)
    have tp: "(if \<not> fst txs then Ok ((False, snd txs), False)
          else if \<not> sig then Ok (Invalid CONSENSUS False REJECT_INVALID ''bad-blk-sigops'' ''out-of-bounds SigOpCount'' (snd txs), False)
          else Ok ((True, snd txs), fCheckPOW \<and> fCheckMerkleRoot)) =
        (if \<not> fst txs then Ok (txs, fst txs \<and> fCheckPOW \<and> fCheckMerkleRoot)
          else if \<not> sig then Ok (Invalid CONSENSUS False REJECT_INVALID ''bad-blk-sigops'' ''out-of-bounds SigOpCount'' state1, False)
          else Ok ((True, state1), fCheckPOW \<and> fCheckMerkleRoot))"
      using tt by (cases txs) auto
    show ?thesis
      using assms True m unfolding CheckBlock_def r_def last_part_def
      by (simp only: obind.simps prod.case Let_def if_True if_False simp_thms case_prod_unfold txs_def [symmetric] count_sigops_sum add_0
          block_sigops_def [symmetric] sz sg tp oi fi fst_conv snd_conv)
  qed
  have "sig \<longleftrightarrow> block_sigops block \<le> MaxBlockSigOps True" if g: good_size
  proof -
    have "length (CBlock_ser block) \<le> 2000000" using g by (simp add: good_size_def MaxBlockSize_def)
    from block_sigops_unat [OF this] show ?thesis by (simp add: sig_def)
  qed
  moreover have "IsCoinBase (vtx block ! 0) \<longleftrightarrow> IsCoinBase (hd (vtx block))" if good_size using that by (simp add: good_size_def hd_conv_nth)
  ultimately have "fst r \<longleftrightarrow> (fCheckMerkleRoot \<longrightarrow> (root, mutated) = (hd_hashMerkleRoot block, False)) \<and> block_rules block"
    unfolding verdict_fst [OF v] block_rules_def by (auto simp: good_size_def list_ex_iff)
  moreover have "fst r \<longrightarrow> snd r = state1" "\<not> fst r \<longrightarrow> (\<exists>reason code str msg. r = Invalid reason False code str msg state1)"
    using v verdict_fst [OF v] by (auto simp: verdict_def split: if_splits)
  ultimately show ?thesis using True unfolding e m
    by (intro exI [of _ r] exI [of _ "fst r \<and> fCheckPOW \<and> fCheckMerkleRoot"] conjI refl) simp_all
qed

text \<open>
  C13. A block is judged exactly on its own.  When the header check ends, \<^verbatim>\<open>CheckBlock\<close> accepts a block that was not
  checked before exactly when the header is accepted, the Merkle root is the root of the transactions and the tree has no
  duplicated node (if that is to be checked), the size limits hold, the first transaction and no other is a coinbase, every
  transaction obeys its rules, and the number of signature operations, counted without wrap-around, is within the limit.
  On acceptance the state is unchanged, and the block is remembered as checked exactly if everything was; on
  rejection the state is what the header check or \<^verbatim>\<open>Invalid\<close> made of it.
\<close>

theorem CheckBlock_exact:
  assumes "CheckBlockHeader env (CBlockHeader.truncate block) fCheckPOW state = Ok (good_header, state1)"
  shows "\<exists>r fc. CheckBlock env C block False fCheckPOW fCheckMerkleRoot state = Ok (r, fc) \<and>
    (fst r \<longleftrightarrow> good_header \<and> (fCheckMerkleRoot \<longrightarrow> BlockMerkleRoot (Hash256 C) (ComputeHash C) block = (hd_hashMerkleRoot block, False)) \<and> block_rules block) \<and>
    (fst r \<longrightarrow> snd r = state1) \<and> (fc \<longleftrightarrow> fst r \<and> fCheckPOW \<and> fCheckMerkleRoot) \<and>
    (\<not> fst r \<longrightarrow> snd r = state1 \<or> (\<exists>reason code str msg. r = Invalid reason False code str msg state1))"
  using assms by (rule CheckBlock_judged)

section \<open>Contextual rules\<close>

definition tx_context_rules :: "Params \<Rightarrow> int \<Rightarrow> CTransaction \<Rightarrow> bool" where
  "tx_context_rules params nH tx \<longleftrightarrow>
     (nH \<ge> DIP0003Height params \<longrightarrow>
       (if sint (nVersion tx) \<ge> 3 then nType tx \<le> 7 \<and> (IsCoinBase tx \<longrightarrow> nType tx = TRANSACTION_COINBASE) else nType tx = TRANSACTION_NORMAL)) \<and>
     (nH \<ge> DIP0001Height params \<longrightarrow> GetTotalSize tx \<le> MAX_STANDARD_TX_SIZE)"

lemma types_le_7: "ty \<in> {TRANSACTION_NORMAL, TRANSACTION_PROVIDER_REGISTER, TRANSACTION_PROVIDER_UPDATE_SERVICE,
    TRANSACTION_PROVIDER_UPDATE_REGISTRAR, TRANSACTION_PROVIDER_UPDATE_REVOKE, TRANSACTION_COINBASE,
    TRANSACTION_QUORUM_COMMITMENT, TRANSACTION_MNHF_SIGNAL} \<longleftrightarrow> ty \<le> 7" for ty :: u16
proof
  assume "ty \<le> 7"
  then have "unat ty \<le> 7" by (simp add: word_le_nat_alt)
  then have "unat ty \<in> {0, 1, 2, 3, 4, 5, 6, 7}" by auto
  then have "(word_of_nat (unat ty) :: u16) \<in> word_of_nat ` {0, 1, 2, 3, 4, 5, 6, 7}" by (rule imageI)
  then show "ty \<in> {TRANSACTION_NORMAL, TRANSACTION_PROVIDER_REGISTER, TRANSACTION_PROVIDER_UPDATE_SERVICE,
    TRANSACTION_PROVIDER_UPDATE_REGISTRAR, TRANSACTION_PROVIDER_UPDATE_REVOKE, TRANSACTION_COINBASE,
    TRANSACTION_QUORUM_COMMITMENT, TRANSACTION_MNHF_SIGNAL}" by simp
qed auto

lemma ContextualCheckTransaction_verdict: "verdict state (ContextualCheckTransaction params nH tx state) (tx_context_rules params nH tx)"
proof -
  have "verdict state (ContextualCheckTransaction params nH tx state)
    (\<not> (nH \<ge> DIP0003Height params \<and> sint (nVersion tx) \<ge> 3 \<and> \<not> nType tx \<le> 7) \<and>
     \<not> (nH \<ge> DIP0003Height params \<and> sint (nVersion tx) \<ge> 3 \<and> IsCoinBase tx \<and> nType tx \<noteq> TRANSACTION_COINBASE) \<and>
     \<not> (nH \<ge> DIP0003Height params \<and> \<not> sint (nVersion tx) \<ge> 3 \<and> nType tx \<noteq> TRANSACTION_NORMAL) \<and>
     \<not> (nH \<ge> DIP0001Height params \<and> length (CTransaction_ser tx) > MAX_STANDARD_TX_SIZE) \<and> True)"
    unfolding ContextualCheckTransaction_def Let_def types_le_7 by (intro verdict_guard verdict_True)
  then show ?thesis by (rule verdict_cong) (auto simp: tx_context_rules_def GetTotalSize_def not_less)
qed

lemma contextual_txs_exact:
  "if (\<forall>tx \<in> set txs. IsFinalTx tx nH cutoff \<and> tx_context_rules params nH tx)
   then contextual_txs params nH cutoff txs a state = Ok (Inr (a + of_nat (sum_list (map tx_sigops txs))))
   else \<exists>reason code str msg. contextual_txs params nH cutoff txs a state = Ok (Inl (Invalid reason False code str msg state))"
proof (induction txs arbitrary: a)
  case (Cons tx txs)
  note v = ContextualCheckTransaction_verdict [of state params nH tx]
  consider "\<not> IsFinalTx tx nH cutoff" | "IsFinalTx tx nH cutoff" "\<not> tx_context_rules params nH tx" | "IsFinalTx tx nH cutoff" "tx_context_rules params nH tx" by blast
  then show ?case
  proof cases
    case 1
    then have "contextual_txs params nH cutoff (tx # txs) a state =
        Ok (Inl (Invalid CONSENSUS False REJECT_INVALID ''bad-txns-nonfinal'' ''non-final transaction'' state))" by simp
    with 1 show ?thesis by (auto simp del: contextual_txs.simps)
  next
    case 2
    then obtain reason code str msg where i: "ContextualCheckTransaction params nH tx state = Invalid reason False code str msg state"
      using v by (auto simp: verdict_def)
    have "contextual_txs params nH cutoff (tx # txs) a state = Ok (Inl (Invalid reason False code str msg state))"
      using 2 i by (simp add: Invalid_def Let_def)
    with 2 show ?thesis by (auto simp del: contextual_txs.simps)
  next
    case 3
    then have "contextual_txs params nH cutoff (tx # txs) a state = contextual_txs params nH cutoff txs (a + of_nat (tx_sigops tx)) state"
      using v by (simp add: verdict_def GetLegacySigOpCount_sum)
    then show ?thesis using 3 Cons.IH [of "a + of_nat (tx_sigops tx)"] by (auto simp: add.assoc simp del: contextual_txs.simps)
  qed
qed simp

text \<open>
  Specification: what the loop over the transactions requires, the reward of the developers, and the other rules for
  the coinbase.
\<close>

definition body_rules :: "Params \<Rightarrow> int \<Rightarrow> int \<Rightarrow> CBlock \<Rightarrow> bool" where
  "body_rules params nH cutoff block \<longleftrightarrow>
     vtx block \<noteq> [] \<and> length (vtx block) \<le> MaxBlockSize (nH \<ge> DIP0001Height params) \<and>
     length (CBlock_ser block) \<le> MaxBlockSize (nH \<ge> DIP0001Height params) \<and>
     (\<forall>tx \<in> set (vtx block). IsFinalTx tx nH cutoff \<and> tx_context_rules params nH tx)"

definition dev_paid :: "header_env \<Rightarrow> block_env \<Rightarrow> int \<Rightarrow> CBlock \<Rightarrow> bool" where
  "dev_paid env be nH block \<longleftrightarrow>
     (DevRewardStartHeight (env_consensus env) < nH \<longrightarrow> pays (hd (vtx block)) (devPayoutScript be) (devPayoutValue (env_consensus env) nH))"

definition coinbase_rules :: "header_env \<Rightarrow> block_env \<Rightarrow> int \<Rightarrow> CBlock \<Rightarrow> bool" where
  "coinbase_rules env be nH block \<longleftrightarrow>
     (let params = env_consensus env; cb = hd (vtx block)
      in (isExtraFundAllocationHeight (is_MAIN (env_chainparams env)) params nH \<longrightarrow> pays cb (additionalPayoutScript be) (GetExtraPayOutAmount nH)) \<and>
         block_sigops block \<le> MaxBlockSigOps (nH \<ge> DIP0001Height params) \<and>
         (if nH \<ge> DIP0003Height params then nType cb = TRANSACTION_COINBASE
          else nH \<ge> BIP34Height params \<longrightarrow> (\<exists>rest. scriptSig (hd (vin cb)) = push_int64 [] nH @ rest)))"

lemma prefix_test: "(length s < length p \<or> take (length p) s \<noteq> p) \<longleftrightarrow> \<not> (\<exists>rest. s = p @ rest)" for s p :: bytes
  by (auto simp: append_eq_conv_conj [symmetric]) (metis append_take_drop_id)

lemma coinbase_checks_paid:
  assumes "vtx block \<noteq> []" "IsCoinBase (hd (vtx block))" "length (CBlock_ser block) \<le> 2000000"
    "dev_paid env be nH block \<or> 153990 \<le> nH"
  shows "\<exists>r. coinbase_checks env be nH block (of_nat (block_sigops block)) state = Ok r \<and>
    verdict state r (dev_paid env be nH block \<and> coinbase_rules env be nH block)"
proof -
  define params where "params = env_consensus env"
  have cb: "vtx block ! 0 = hd (vtx block)" "vin (hd (vtx block)) \<noteq> []" "vin (hd (vtx block)) ! 0 = hd (vin (hd (vtx block)))"
    using assms(1,2) by (auto simp: hd_conv_nth IsCoinBase_def length_Suc_conv)
  note u = block_sigops_unat [OF assms(3)]
  define r where "r =
    (if DevRewardStartHeight params < nH \<and> \<not> pays (hd (vtx block)) (devPayoutScript be) (devPayoutValue params nH)
     then Invalid CONSENSUS False REJECT_INVALID ''bad-cb-tx'' ''Developer Reward Check Failed'' state
     else if isExtraFundAllocationHeight (is_MAIN (env_chainparams env)) params nH \<and> \<not> pays (hd (vtx block)) (additionalPayoutScript be) (GetExtraPayOutAmount nH)
     then Invalid CONSENSUS False REJECT_INVALID ''bad-cb-tx'' ''Extra reward allocation check failed'' state
     else if MaxBlockSigOps (DIP0001Height params \<le> nH) < block_sigops block
     then Invalid CONSENSUS False REJECT_INVALID ''bad-blk-sigops'' ''out-of-bounds SigOpCount'' state
     else if BIP34Height params \<le> nH \<and> \<not> DIP0003Height params \<le> nH \<and> \<not> (\<exists>rest. scriptSig (hd (vin (hd (vtx block)))) = push_int64 [] nH @ rest)
     then Invalid CONSENSUS False REJECT_INVALID ''bad-cb-height'' ''block height mismatch in coinbase'' state
     else if DIP0003Height params \<le> nH \<and> nType (hd (vtx block)) \<noteq> TRANSACTION_COINBASE
     then Invalid CONSENSUS False REJECT_INVALID ''bad-cb-type'' ''coinbase is not a CbTx'' state
     else (True, state))"
  have "verdict state r
    (\<not> (DevRewardStartHeight params < nH \<and> \<not> pays (hd (vtx block)) (devPayoutScript be) (devPayoutValue params nH)) \<and>
     \<not> (isExtraFundAllocationHeight (is_MAIN (env_chainparams env)) params nH \<and> \<not> pays (hd (vtx block)) (additionalPayoutScript be) (GetExtraPayOutAmount nH)) \<and>
     \<not> MaxBlockSigOps (DIP0001Height params \<le> nH) < block_sigops block \<and>
     \<not> (BIP34Height params \<le> nH \<and> \<not> DIP0003Height params \<le> nH \<and> \<not> (\<exists>rest. scriptSig (hd (vin (hd (vtx block)))) = push_int64 [] nH @ rest)) \<and>
     \<not> (DIP0003Height params \<le> nH \<and> nType (hd (vtx block)) \<noteq> TRANSACTION_COINBASE) \<and> True)"
    unfolding r_def by (intro verdict_guard verdict_True)
  then have v: "verdict state r (dev_paid env be nH block \<and> coinbase_rules env be nH block)"
    by (rule verdict_cong) (auto simp: dev_paid_def coinbase_rules_def Let_def params_def not_less)
  have "coinbase_checks env be nH block (of_nat (block_sigops block)) state = Ok r"
    unfolding coinbase_checks_def Let_def prefix_test cb u r_def params_def using assms(4) cb(2) by (auto simp: dev_paid_def)
  then show ?thesis using v by blast
qed

lemma contextual_body_exact:
  assumes "vtx block \<noteq> [] \<longrightarrow> IsCoinBase (hd (vtx block))"
  shows "\<exists>r. contextual_body env be nH cutoff block state = Ok r \<and>
    (if body_rules (env_consensus env) nH cutoff block \<and> \<not> dev_paid env be nH block \<and> nH < 153990
     then r = Invalid TX_MISSING_INPUTS True 0 [] [] state
     else verdict state r (body_rules (env_consensus env) nH cutoff block \<and> dev_paid env be nH block \<and> coinbase_rules env be nH block))"
proof -
  define params where "params = env_consensus env"
  define sizes where "sizes \<longleftrightarrow> vtx block \<noteq> [] \<and> length (vtx block) \<le> MaxBlockSize (DIP0001Height params \<le> nH) \<and>
    length (CBlock_ser block) \<le> MaxBlockSize (DIP0001Height params \<le> nH)"
  define all_ok where "all_ok \<longleftrightarrow> (\<forall>tx \<in> set (vtx block). IsFinalTx tx nH cutoff \<and> tx_context_rules params nH tx)"
  have br: "body_rules params nH cutoff block \<longleftrightarrow> sizes \<and> all_ok" by (auto simp: body_rules_def sizes_def all_ok_def)
  have un: "contextual_body env be nH cutoff block state =
     (if \<not> sizes then Ok (Invalid CONSENSUS False REJECT_INVALID ''bad-blk-length'' ''size limits failed'' state)
      else obind (contextual_txs params nH cutoff (vtx block) 0 state) (\<lambda>r. case r of Inl e \<Rightarrow> Ok e | Inr n \<Rightarrow> coinbase_checks env be nH block n state))"
    by (simp only: contextual_body_def Let_def params_def sizes_def not_less [symmetric] de_Morgan_conj not_not)
  note t = contextual_txs_exact [of "vtx block" nH cutoff params 0 state, folded all_ok_def]
  have inv: "verdict state (Invalid reason False code str msg state) False" for reason code str msg by (auto simp: verdict_def)
  consider "\<not> sizes" | "sizes" "\<not> all_ok" | "sizes" "all_ok" by blast
  then show ?thesis
  proof cases
    case 1
    then show ?thesis unfolding un params_def [symmetric] br using inv by simp
  next
    case 2
    then obtain reason code str msg where "contextual_txs params nH cutoff (vtx block) 0 state = Ok (Inl (Invalid reason False code str msg state))"
      using t by auto
    then have "contextual_body env be nH cutoff block state = Ok (Invalid reason False code str msg state)" using 2 unfolding un by simp
    then show ?thesis using 2 inv unfolding params_def [symmetric] br by (intro exI [of _ "Invalid reason False code str msg state"]) simp
  next
    case 3
    then have c: "contextual_body env be nH cutoff block state = coinbase_checks env be nH block (of_nat (block_sigops block)) state"
      unfolding un using t by (simp add: block_sigops_def)
    have b: "vtx block \<noteq> []" "IsCoinBase (hd (vtx block))" "length (CBlock_ser block) \<le> 2000000"
      using 3(1) assms by (auto simp: sizes_def MaxBlockSize_def split: if_splits)
    show ?thesis
    proof (cases "dev_paid env be nH block \<or> 153990 \<le> nH")
      case True
      then show ?thesis using coinbase_checks_paid [OF b True, of state] 3 unfolding c params_def [symmetric] br by auto
    next
      case False
      then have "coinbase_checks env be nH block (of_nat (block_sigops block)) state = Ok (Invalid TX_MISSING_INPUTS True 0 [] [] state)"
        using b(1) by (simp add: coinbase_checks_def dev_paid_def hd_conv_nth)
      then show ?thesis using False 3 unfolding c params_def [symmetric] br by simp
    qed
  qed
qed

text \<open>The time that lock times are compared with.\<close>

definition lock_cutoff :: "Params \<Rightarrow> store \<Rightarrow> ptr option \<Rightarrow> CBlock \<Rightarrow> int" where
  "lock_cutoff params h pindexPrev block =
     (case pindexPrev of
        Some p \<Rightarrow> if deployment_state (VersionBitsConditionChecker params DEPLOYMENT_CSV) h pindexPrev = ACTIVE
                 then GetMedianTimePast h p else int (unat (hd_nTime block))
      | None \<Rightarrow> int (unat (hd_nTime block)))"

definition next_height :: "store \<Rightarrow> ptr option \<Rightarrow> int" where
  "next_height h pindexPrev = (case pindexPrev of None \<Rightarrow> 0 | Some p \<Rightarrow> nHeight (h p) + 1)"

lemma ContextualCheckBlock_body:
  assumes "env_ok env" "header_reachable env hm" "caches_ok (env_consensus env) hm caches" "vb_block (env_consensus env) hm pindexPrev DEPLOYMENT_CSV"
  shows "\<exists>caches'. caches_ok (env_consensus env) hm caches' \<and>
    ContextualCheckBlock env be (hm_store hm) block pindexPrev caches state =
    Some (obind (contextual_body env be (next_height (hm_store hm) pindexPrev) (lock_cutoff (env_consensus env) (hm_store hm) pindexPrev block) block state) (\<lambda>r. Ok (r, caches')))"
proof -
  obtain caches' where c: "VersionBitsState (hm_store hm) pindexPrev (env_consensus env) DEPLOYMENT_CSV caches =
      Some (Ok (deployment_state (VersionBitsConditionChecker (env_consensus env) DEPLOYMENT_CSV) (hm_store hm) pindexPrev, caches'))"
    "caches_ok (env_consensus env) hm caches'"
    using VersionBitsState_ok [OF header_reachable_inv [OF assms(2,1)] assms(3,4)] by auto
  have "\<not> (deployment_state (VersionBitsConditionChecker (env_consensus env) DEPLOYMENT_CSV) (hm_store hm) pindexPrev = ACTIVE \<and> pindexPrev = None)"
    by (cases pindexPrev) (simp_all add: deployment_state_def)
  then have "ContextualCheckBlock env be (hm_store hm) block pindexPrev caches state =
    Some (obind (contextual_body env be (next_height (hm_store hm) pindexPrev) (lock_cutoff (env_consensus env) (hm_store hm) pindexPrev block) block state) (\<lambda>r. Ok (r, caches')))"
    unfolding ContextualCheckBlock_def c(1) lock_cutoff_def next_height_def
    by (simp only: after_loop_def then_loop_def Let_def option.case outcome.case prod.case if_False)
  with c(2) show ?thesis by blast
qed

text \<open>
  C14. A block is judged exactly in its context.  On a reachable header chain, with valid version-bits caches and up to a height to which
  the threshold of the deployment of BIP 113 is computed without overflow (on the main network every height), for a block
  that starts with a coinbase, \<^verbatim>\<open>ContextualCheckBlock\<close> ends without a failed assertion and accepts exactly when the
  size limits of the height hold, every transaction is final at the height and the time that the deployment of
  BIP 113 selects and obeys the rules on its type and size, the developer reward and the extra payout of the height are
  paid, the signature operations are within the limit, and the coinbase starts with the height or, from
  DIP 3 on, is a coinbase transaction of the special type.  There is one exception: below height 153990 a block that keeps the rules
  on sizes and transactions but does not pay the developer reward is accepted too, with a state that is marked invalid, and without
  a look at the other rules on its coinbase.
\<close>

theorem ContextualCheckBlock_exact:
  assumes "env_ok env" "header_reachable env hm" "caches_ok (env_consensus env) hm caches" "vb_block (env_consensus env) hm pindexPrev DEPLOYMENT_CSV"
    "vtx block \<noteq> [] \<longrightarrow> IsCoinBase (hd (vtx block))" "nH = next_height (hm_store hm) pindexPrev"
  shows "\<exists>r caches'. ContextualCheckBlock env be (hm_store hm) block pindexPrev caches state = Some (Ok (r, caches')) \<and>
    caches_ok (env_consensus env) hm caches' \<and>
    (if body_rules (env_consensus env) nH (lock_cutoff (env_consensus env) (hm_store hm) pindexPrev block) block \<and> \<not> dev_paid env be nH block \<and> nH < 153990
     then r = Invalid TX_MISSING_INPUTS True 0 [] [] state
     else verdict state r (body_rules (env_consensus env) nH (lock_cutoff (env_consensus env) (hm_store hm) pindexPrev block) block \<and>
       dev_paid env be nH block \<and> coinbase_rules env be nH block))"
proof -
  obtain caches' where c: "caches_ok (env_consensus env) hm caches'"
    "ContextualCheckBlock env be (hm_store hm) block pindexPrev caches state =
      Some (obind (contextual_body env be nH (lock_cutoff (env_consensus env) (hm_store hm) pindexPrev block) block state) (\<lambda>r. Ok (r, caches')))"
    using ContextualCheckBlock_body [OF assms(1-4)] unfolding assms(6) by blast
  obtain r where r: "contextual_body env be nH (lock_cutoff (env_consensus env) (hm_store hm) pindexPrev block) block state = Ok r"
    "if body_rules (env_consensus env) nH (lock_cutoff (env_consensus env) (hm_store hm) pindexPrev block) block \<and> \<not> dev_paid env be nH block \<and> nH < 153990
     then r = Invalid TX_MISSING_INPUTS True 0 [] [] state
     else verdict state r (body_rules (env_consensus env) nH (lock_cutoff (env_consensus env) (hm_store hm) pindexPrev block) block \<and>
       dev_paid env be nH block \<and> coinbase_rules env be nH block)"
    using contextual_body_exact [OF assms(5), of env be nH "lock_cutoff (env_consensus env) (hm_store hm) pindexPrev block" state] by blast
  have "ContextualCheckBlock env be (hm_store hm) block pindexPrev caches state = Some (Ok (r, caches'))" using c(2) r(1) by simp
  then show ?thesis using c(1) r(2) by blast
qed


section \<open>Examples\<close>

definition example_coinbase :: CTransaction where
  "example_coinbase = \<lparr>vin = [\<lparr>prevout = COutPoint uint256_null 0xffffffff, scriptSig = [0x51, 0], nSequence = SEQUENCE_FINAL\<rparr>],
     vout = [\<lparr>nValue = 7, scriptPubKey = []\<rparr>], nVersion = 2, nType = 0, nLockTime = 0, vExtraPayload = []\<rparr>"

definition example_full_block :: CBlock where
  "example_full_block = CBlockHeader.extend ((example_header 100)\<lparr>hd_hashMerkleRoot := replicate 32 0\<rparr>) \<lparr>vtx = [example_coinbase]\<rparr>"

definition example_payees :: block_env where
  "example_payees = \<lparr>block_crypto = const_crypto, devPayoutScript = [1], additionalPayoutScript = [2]\<rparr>"

lemma example_vtx [simp]: "vtx example_full_block = [example_coinbase]"
  by (simp add: example_full_block_def CBlockHeader.extend_def)

lemma example_is_coinbase [simp]: "IsCoinBase example_coinbase"
  by (simp add: IsCoinBase_def example_coinbase_def COutPoint_IsNull_def uint256_IsNull_def uint256_null_def)

lemma example_sizes: "length (CTransaction_ser example_coinbase) = 62" "length (CBlock_ser example_full_block) \<le> 1000000"
proof -
  show l: "length (CTransaction_ser example_coinbase) = 62"
    by (simp add: CTransaction_ser_def vector_ser_def CTxIn_ser_def CTxOut_ser_def COutPoint_ser_def bytes_ser_def uint256_null_def
        example_coinbase_def length_WriteCompactSize GetSizeOfCompactSize_def ser_writedata32_def ser_writedata64_def has_payload_def)
  show "length (CBlock_ser example_full_block) \<le> 1000000"
    using l by (simp add: CBlock_ser_def vector_ser_def length_WriteCompactSize GetSizeOfCompactSize_def)
      (simp add: example_full_block_def CBlockHeader.extend_def CBlockHeader_ser_def example_header_def CBlockHeader_null_def uint256_null_def
        ser_writedata32_def ser_writedata64_def autolykos_ser_def)
qed

lemma example_sigops: "block_sigops example_full_block \<le> 40"
  using GetSigOpCount_bound [of False "[0x51, 0]"] GetSigOpCount_bound [of False "[]"]
  by (auto simp: block_sigops_def tx_sigops_def example_coinbase_def)

lemma example_tx_rules: "tx_rules example_coinbase"
  using example_sizes(1) unfolding tx_rules_def GetTotalSize_def
  by (simp add: example_coinbase_def GetValueOut_def MoneyRange_def IsCoinBase_def COutPoint_IsNull_def uint256_IsNull_def uint256_null_def)

lemma example_block_rules: "block_rules example_full_block"
  using example_tx_rules example_sizes(2) example_sigops by (simp add: block_rules_def MaxBlockSize_def MaxBlockSigOps_def)

lemma example_header_check: "CheckBlockHeader example_env (CBlockHeader.truncate example_full_block) False CValidationState_init = Ok (True, CValidationState_init)"
  by (simp add: CheckBlockHeader_def example_env_def example_consensus_def mainnet_params_def)

theorem CheckBlock_exact_witness:
  "\<exists>fc. CheckBlock example_env const_crypto example_full_block False False False CValidationState_init = Ok ((True, CValidationState_init), fc)"
proof -
  obtain r fc where r: "CheckBlock example_env const_crypto example_full_block False False False CValidationState_init = Ok (r, fc)"
    "fst r \<longleftrightarrow> True \<and> block_rules example_full_block" "fst r \<longrightarrow> snd r = CValidationState_init"
    using CheckBlock_exact [OF example_header_check, of const_crypto False] by blast
  then show ?thesis using example_block_rules by (cases r) simp
qed

lemma example_body_rules: "nH < 100000 \<Longrightarrow> body_rules (env_consensus example_env) nH cutoff example_full_block"
  using example_sizes by (simp add: body_rules_def MaxBlockSize_def IsFinalTx_def tx_context_rules_def GetTotalSize_def)
    (simp add: example_coinbase_def)

theorem ContextualCheckBlock_exact_witness:
  "\<exists>caches'. ContextualCheckBlock example_env example_payees (hm_store example_state) example_full_block (Some 0) (\<lambda>_. Map.empty) CValidationState_init =
     Some (Ok ((True, CValidationState_init), caches'))"
proof -
  have c: "caches_ok (env_consensus example_env) example_state (\<lambda>_. Map.empty)" by (simp add: caches_ok_def cache_ok_def)
  have e: "env_consensus example_env = example_consensus" by (simp add: example_env_def)
  have "deployment_safe example_consensus DEPLOYMENT_CSV H = deployment_safe mainnet_params DEPLOYMENT_CSV H" for H
    by (simp add: deployment_safe_def vb_Period_def example_consensus_def)
  then have v: "vb_block (env_consensus example_env) example_state (Some 0) DEPLOYMENT_CSV"
    using example_vb_block [of DEPLOYMENT_CSV] unfolding e vb_block_def by simp
  have n: "next_height (hm_store example_state) (Some 0) = 1" using example_state_facts(6) by (simp add: next_height_def)
  have d: "dev_paid example_env example_payees 1 example_full_block" unfolding dev_paid_def e by (simp add: example_consensus_def mainnet_params_def)
  have r: "coinbase_rules example_env example_payees 1 example_full_block" unfolding coinbase_rules_def e Let_def
    using example_sigops by (simp add: example_consensus_def mainnet_params_def isExtraFundAllocationHeight_def MaxBlockSigOps_def MaxBlockSize_def example_env_def
      example_coinbase_def push_int64_def)
  show ?thesis
    using ContextualCheckBlock_exact [OF example_env_ok example_state_facts(1) c v, of example_full_block 1 example_payees CValidationState_init] n d r example_body_rules [of 1]
    by (auto simp: verdict_def split: if_splits)
qed


end
