(* ===== verification/Payments.thy ===== *)
theory Payments
  imports Block Tx_Check Subsidy Script_Safety
begin

text \<open>
  What a block may pay and has to pay (\<^verbatim>\<open>masternode/payments.cpp\<close>, the superblocks of \<^verbatim>\<open>governance/classes.cpp\<close> and the votes of
  \<^verbatim>\<open>governance/object.cpp\<close>): superblock heights and limits, the superblock that the votes select, the limit on the value of
  a coinbase, the payments to the masternodes of both tiers, and the payments that are put in a new block.  The masternode list and the sporks are
  parameters.  The lemmas bound the share of the first tier, which is computed with doubles, show that triggering depends on
  the votes only, and that the search for the payments of a superblock succeeds on a block that carries them.
\<close>

section \<open>Votes\<close>

datatype vote_outcome = VOTE_OUTCOME_NONE | VOTE_OUTCOME_YES | VOTE_OUTCOME_NO | VOTE_OUTCOME_ABSTAIN

datatype vote_signal = VOTE_SIGNAL_NONE | VOTE_SIGNAL_FUNDING | VOTE_SIGNAL_VALID | VOTE_SIGNAL_DELETE | VOTE_SIGNAL_ENDORSED

record CGovernanceObject =
  mapCurrentMNVotes :: "(COutPoint \<times> (vote_signal \<rightharpoonup> vote_outcome)) list"
  fCachedFunding :: bool
  fCachedValid :: bool
  fCachedDelete :: bool
  fCachedEndorsed :: bool
  fDirtyCache :: bool
  nDeletionTime :: int

record CGovernancePayment =
  pay_script :: script
  pay_nAmount :: int

datatype sb_status = SEEN_OBJECT_IS_VALID | SEEN_OBJECT_ERROR_INVALID | SEEN_OBJECT_EXECUTED | SEEN_OBJECT_UNKNOWN

record CSuperblock =
  nGovObjHash :: uint256
  sb_nBlockHeight :: int
  sb_nStatus :: sb_status
  vecPayments :: "CGovernancePayment list"

text \<open>The governance data: the triggers, in the order of the map, and the objects by their hash.\<close>

record governance =
  mapTrigger :: "(uint256 \<times> CSuperblock option) list"
  mapObjects :: "uint256 \<rightharpoonup> CGovernanceObject"

text \<open>
  What comes from the masternode list, the sporks and the state of the node: the voting weight of a masternode by its collateral,
  the sum of the weights of the valid ones, the masternodes to be paid after the block at a height (for the standard type and for the type
  \<^verbatim>\<open>Lite\<close>), whether superblocks are enabled, whether the node is synced, the option that disables governance, and the time.
\<close>

record masternode_payee =
  nOperatorReward :: nat
  scriptPayout :: script
  scriptOperatorPayout :: script

record payment_env =
  pe_params :: Params
  pe_is_main :: bool
  voting_weight :: "COutPoint \<rightharpoonup> int"
  ValidWeightedMNsCount :: int
  GetMNPayee :: "int \<Rightarrow> masternode_payee option"
  GetMNPayee_Lite :: "int \<Rightarrow> masternode_payee option"
  AreSuperblocksEnabled :: bool
  IsSynced :: bool
  fDisableGovernance :: bool
  GetAdjustedTime_now :: int

definition CountMatchingVotes :: "payment_env \<Rightarrow> CGovernanceObject \<Rightarrow> vote_signal \<Rightarrow> vote_outcome \<Rightarrow> int" where
  "CountMatchingVotes env obj eVoteSignalIn eVoteOutcomeIn =
     (\<Sum>(collateral, rec) \<leftarrow> mapCurrentMNVotes obj.
        if rec eVoteSignalIn = Some eVoteOutcomeIn then (case voting_weight env collateral of None \<Rightarrow> 0 | Some w \<Rightarrow> w) else 0)"

definition GetYesCount :: "payment_env \<Rightarrow> CGovernanceObject \<Rightarrow> vote_signal \<Rightarrow> int" where
  "GetYesCount env obj sig = CountMatchingVotes env obj sig VOTE_OUTCOME_YES"

definition GetNoCount :: "payment_env \<Rightarrow> CGovernanceObject \<Rightarrow> vote_signal \<Rightarrow> int" where
  "GetNoCount env obj sig = CountMatchingVotes env obj sig VOTE_OUTCOME_NO"

definition GetAbsoluteYesCount :: "payment_env \<Rightarrow> CGovernanceObject \<Rightarrow> vote_signal \<Rightarrow> int" where
  "GetAbsoluteYesCount env obj sig = GetYesCount env obj sig - GetNoCount env obj sig"

definition GetAbsoluteNoCount :: "payment_env \<Rightarrow> CGovernanceObject \<Rightarrow> vote_signal \<Rightarrow> int" where
  "GetAbsoluteNoCount env obj sig = GetNoCount env obj sig - GetYesCount env obj sig"

definition UpdateSentinelVariables :: "payment_env \<Rightarrow> CGovernanceObject \<Rightarrow> CGovernanceObject" where
  "UpdateSentinelVariables env obj =
     (let nWeightedMnCount = ValidWeightedMNsCount env
      in if nWeightedMnCount = 0 then obj
         else let nAbsVoteReq = max (nGovernanceMinQuorum (pe_params env)) (nWeightedMnCount sdiv 10);
                  nAbsDeleteReq = max (nGovernanceMinQuorum (pe_params env)) ((2 * nWeightedMnCount) sdiv 3);
                  delete = (GetAbsoluteYesCount env obj VOTE_SIGNAL_DELETE \<ge> nAbsDeleteReq \<and> \<not> fCachedDelete obj)
              in obj\<lparr>fCachedFunding := (GetAbsoluteYesCount env obj VOTE_SIGNAL_FUNDING \<ge> nAbsVoteReq),
                   fCachedValid := \<not> GetAbsoluteNoCount env obj VOTE_SIGNAL_VALID \<ge> nAbsVoteReq,
                   fCachedEndorsed := (GetAbsoluteYesCount env obj VOTE_SIGNAL_ENDORSED \<ge> nAbsVoteReq),
                   fDirtyCache := False,
                   fCachedDelete := (fCachedDelete obj \<or> delete),
                   nDeletionTime := (if delete \<and> nDeletionTime obj = 0 then GetAdjustedTime_now env else nDeletionTime obj)\<rparr>)"

section \<open>Superblocks\<close>

definition superblock_cycle :: "Params \<Rightarrow> int \<Rightarrow> int" where
  "superblock_cycle params nBlockHeight =
     (if nBlockHeight < nNewSuperBlockStartHeight params then nSuperblockCycle params
      else if nBlockHeight < nAutolykosSuperBlockStartHeight params then nNewSuperBlockCycle params
      else nAutolykosSuperBlockCycle params)"

definition IsValidBlockHeight :: "Params \<Rightarrow> int \<Rightarrow> bool" where
  "IsValidBlockHeight params nBlockHeight =
     (let cycle = superblock_cycle params nBlockHeight
      in if nBlockHeight < nNewSuperBlockStartHeight params \<or> nBlockHeight < nAutolykosSuperBlockStartHeight params
         then nBlockHeight \<ge> nSuperblockStartBlock params \<and> nBlockHeight smod cycle = 0
         else let offset = nBlockHeight - nAutolykosSuperBlockStartHeight params in (offset smod cycle) sdiv cycle = 0)"

text \<open>The last and the next superblock height.\<close>

definition GetNearestSuperblocksHeights :: "Params \<Rightarrow> int \<Rightarrow> int \<times> int" where
  "GetNearestSuperblocksHeights params nBlockHeight =
     (let cycle = superblock_cycle params nBlockHeight;
          start = (if nBlockHeight < nNewSuperBlockStartHeight params then nSuperblockStartBlock params
                   else if nBlockHeight < nAutolykosSuperBlockStartHeight params then nNewSuperBlockStartHeight params
                   else nAutolykosSuperBlockStartHeight params)
      in if nBlockHeight < start then (0, start)
         else let nLastSuperblockRet = nBlockHeight - (nBlockHeight - start) smod cycle - 1 in (nLastSuperblockRet, nLastSuperblockRet + cycle))"

definition payments_table :: "(int \<times> int) list" where
  "payments_table =
     [(175200, 214200), (292000, 157200), (335200, 168640), (508000, 128640), (680800, 98920), (853600, 75680), (983200, 71360),
      (1156000, 52960), (1328800, 44840), (1501600, 39440), (1631200, 38100), (1804000, 31600), (1976800, 28900), (2149600, 26200),
      (2279200, 25660), (2452000, 22960), (2624800, 20260), (2797600, 17560), (2927200, 17020), (3100000, 14320), (3272800, 11620),
      (3445600, 8920), (3575200, 8380), (3748000, 5680), (3920800, 2980)]"

definition GetPaymentsLimit :: "Params \<Rightarrow> int \<Rightarrow> int" where
  "GetPaymentsLimit params nBlockHeight =
     (if \<not> IsValidBlockHeight params nBlockHeight then 0
      else case map_of payments_table nBlockHeight of
             Some v \<Rightarrow> v * COIN
           | None \<Rightarrow> GetBlockSubsidy (nBlockHeight - 1) params True * superblock_cycle params nBlockHeight)"

definition GetActiveTriggers :: "governance \<Rightarrow> CSuperblock option list" where
  "GetActiveTriggers g = map snd (filter (\<lambda>(h, _). mapObjects g h \<noteq> None) (mapTrigger g))"

primrec find_triggered :: "payment_env \<Rightarrow> int \<Rightarrow> CSuperblock option list \<Rightarrow> governance \<Rightarrow> bool \<times> governance" where
  "find_triggered env nBlockHeight [] g = (False, g)"
| "find_triggered env nBlockHeight (pSuperblock # ts) g =
     (case pSuperblock of
        None \<Rightarrow> find_triggered env nBlockHeight ts g
      | Some sb \<Rightarrow>
          (case mapObjects g (nGovObjHash sb) of
             None \<Rightarrow> find_triggered env nBlockHeight ts g
           | Some obj \<Rightarrow>
               if nBlockHeight \<noteq> sb_nBlockHeight sb then find_triggered env nBlockHeight ts g
               else let obj = UpdateSentinelVariables env obj; g = g\<lparr>mapObjects := (mapObjects g)(nGovObjHash sb \<mapsto> obj)\<rparr>
                    in if fCachedFunding obj then (True, g) else find_triggered env nBlockHeight ts g))"

definition IsSuperblockTriggered :: "payment_env \<Rightarrow> int \<Rightarrow> governance \<Rightarrow> bool \<times> governance" where
  "IsSuperblockTriggered env nBlockHeight g =
     (if \<not> IsValidBlockHeight (pe_params env) nBlockHeight then (False, g)
      else find_triggered env nBlockHeight (GetActiveTriggers g) g)"

primrec best_superblock :: "payment_env \<Rightarrow> governance \<Rightarrow> int \<Rightarrow> CSuperblock option list \<Rightarrow> int \<Rightarrow> CSuperblock option \<Rightarrow> int \<times> CSuperblock option" where
  "best_superblock env g nBlockHeight [] nYesCount ret = (nYesCount, ret)"
| "best_superblock env g nBlockHeight (pSuperblock # ts) nYesCount ret =
     (case pSuperblock of
        None \<Rightarrow> best_superblock env g nBlockHeight ts nYesCount ret
      | Some sb \<Rightarrow>
          if nBlockHeight \<noteq> sb_nBlockHeight sb then best_superblock env g nBlockHeight ts nYesCount ret
          else case mapObjects g (nGovObjHash sb) of
                 None \<Rightarrow> best_superblock env g nBlockHeight ts nYesCount ret
               | Some obj \<Rightarrow>
                   let nTempYesCount = GetAbsoluteYesCount env obj VOTE_SIGNAL_FUNDING
                   in if nTempYesCount > nYesCount then best_superblock env g nBlockHeight ts nTempYesCount (Some sb)
                      else best_superblock env g nBlockHeight ts nYesCount ret)"

definition GetBestSuperblock :: "payment_env \<Rightarrow> int \<Rightarrow> governance \<Rightarrow> CSuperblock option" where
  "GetBestSuperblock env nBlockHeight g =
     (if \<not> IsValidBlockHeight (pe_params env) nBlockHeight then None
      else let (nYesCount, ret) = best_superblock env g nBlockHeight (GetActiveTriggers g) 0 None in if nYesCount > 0 then ret else None)"

definition GetSuperblockPayments :: "payment_env \<Rightarrow> int \<Rightarrow> governance \<Rightarrow> CTxOut list option" where
  "GetSuperblockPayments env nBlockHeight g =
     (case GetBestSuperblock env nBlockHeight g of
        None \<Rightarrow> None
      | Some sb \<Rightarrow> Some (map (\<lambda>payment. \<lparr>nValue = pay_nAmount payment, scriptPubKey = pay_script payment\<rparr>) (vecPayments sb)))"

definition GetPaymentsTotalAmount :: "CSuperblock \<Rightarrow> int" where
  "GetPaymentsTotalAmount sb = sum_list (map pay_nAmount (vecPayments sb))"

text \<open>
  The loop over the payments; the argument is the list of outputs from \<^verbatim>\<open>nVoutIndex\<close> on, and the search for the
  next payment begins with the output that matched the last one.
\<close>

definition payment_matches :: "CGovernancePayment \<Rightarrow> CTxOut \<Rightarrow> bool" where
  "payment_matches payment txout \<longleftrightarrow> pay_script payment = scriptPubKey txout \<and> pay_nAmount payment = nValue txout"

primrec match_payments :: "CGovernancePayment list \<Rightarrow> CTxOut list \<Rightarrow> bool" where
  "match_payments [] outs = True"
| "match_payments (payment # ps) outs =
     (case dropWhile (\<lambda>txout. \<not> payment_matches payment txout) outs of [] \<Rightarrow> False | rest \<Rightarrow> match_payments ps rest)"

definition CSuperblock_IsValid :: "Params \<Rightarrow> CSuperblock \<Rightarrow> CTransaction \<Rightarrow> int \<Rightarrow> int \<Rightarrow> bool outcome" where
  "CSuperblock_IsValid params sb txNew nBlockHeight blockReward =
     (if \<not> IsValidBlockHeight params nBlockHeight then Ok False
      else if length (vout txNew) < length (vecPayments sb) then Ok False
      else if GetPaymentsTotalAmount sb > GetPaymentsLimit params nBlockHeight then Ok False
      else obind (GetValueOut txNew) (\<lambda>nBlockValue.
        if nBlockValue > blockReward + GetPaymentsTotalAmount sb then Ok False
        else Ok (match_payments (vecPayments sb) (vout txNew))))"

definition CSuperblockManager_IsValid :: "payment_env \<Rightarrow> CTransaction \<Rightarrow> int \<Rightarrow> int \<Rightarrow> governance \<Rightarrow> bool outcome" where
  "CSuperblockManager_IsValid env txNew nBlockHeight blockReward g =
     (case GetBestSuperblock env nBlockHeight g of
        None \<Rightarrow> Ok False
      | Some sb \<Rightarrow> CSuperblock_IsValid (pe_params env) sb txNew nBlockHeight blockReward)"

section \<open>The value of a block\<close>

definition IsOldBudgetBlockValueValid :: "payment_env \<Rightarrow> CBlock \<Rightarrow> int \<Rightarrow> int \<Rightarrow> bool outcome" where
  "IsOldBudgetBlockValueValid env block nBlockHeight blockReward =
     obind (GetValueOut (vtx block ! 0)) (\<lambda>value.
       let params = pe_params env; isBlockRewardValueMet = (value \<le> blockReward)
       in if nBlockHeight < nBudgetPaymentsStartBlock params then Ok False
          else if nBlockHeight \<ge> nSuperblockStartBlock params then Ok False
          else let nOffset = nBlockHeight smod nBudgetPaymentsCycleBlocks params
               in if nBlockHeight \<ge> nBudgetPaymentsStartBlock params \<and> nOffset < nBudgetPaymentsWindowBlocks params
                  then Ok (if IsSynced env then isBlockRewardValueMet else True)
                  else Ok isBlockRewardValueMet)"

definition IsBlockValueValid :: "payment_env \<Rightarrow> CBlock \<Rightarrow> int \<Rightarrow> int \<Rightarrow> governance \<Rightarrow> (bool \<times> governance) outcome" where
  "IsBlockValueValid env block nBlockHeight blockReward g =
     obind (GetValueOut (vtx block ! 0)) (\<lambda>value.
       let params = pe_params env; isBlockRewardValueMet = (value \<le> blockReward)
       in if nBlockHeight < nBudgetPaymentsStartBlock params then Ok (isBlockRewardValueMet, g)
          else if nBlockHeight < nSuperblockStartBlock params
          then obind (IsOldBudgetBlockValueValid env block nBlockHeight blockReward) (\<lambda>ok. Ok (ok, g))
          else let nSuperblockMaxValue = blockReward + GetPaymentsLimit params nBlockHeight;
                   isSuperblockMaxValueMet = (value \<le> nSuperblockMaxValue)
               in if \<not> IsValidBlockHeight params nBlockHeight then Ok (isBlockRewardValueMet, g)
                  else if \<not> isSuperblockMaxValueMet then Ok (False, g)
                  else if \<not> IsSynced env \<or> fDisableGovernance env then Ok (True, g)
                  else if \<not> AreSuperblocksEnabled env then Ok (isBlockRewardValueMet, g)
                  else let (triggered, g) = IsSuperblockTriggered env nBlockHeight g
                       in if \<not> triggered then Ok (isBlockRewardValueMet, g)
                          else obind (CSuperblockManager_IsValid env (vtx block ! 0) nBlockHeight blockReward g) (\<lambda>valid. Ok (valid, g)))"

section \<open>Masternode payments\<close>

text \<open>The outputs for one payee.\<close>

definition payee_outs :: "masternode_payee \<Rightarrow> int \<Rightarrow> CTxOut list" where
  "payee_outs payee reward =
     (let operatorReward = (if nOperatorReward payee \<noteq> 0 \<and> scriptOperatorPayout payee \<noteq> [] then (reward * int (nOperatorReward payee)) sdiv 10000 else 0);
          reward = reward - operatorReward
      in (if reward > 0 then [\<lparr>nValue = reward, scriptPubKey = scriptPayout payee\<rparr>] else []) @
         (if operatorReward > 0 then [\<lparr>nValue = operatorReward, scriptPubKey = scriptOperatorPayout payee\<rparr>] else []))"

definition tier_one :: "int \<Rightarrow> int" where
  "tier_one masternodeReward =
     amount_of (double_div (double_times (double_of_int masternodeReward) (double_div (double_of_int 4400) (double_of_int 48))) (double_of_int 100))"

definition GetBlockTxOuts :: "payment_env \<Rightarrow> int \<Rightarrow> int \<Rightarrow> CTxOut list option" where
  "GetBlockTxOuts env nBlockHeight blockReward =
     (case GetMNPayee env (nBlockHeight - 1) of
        None \<Rightarrow> None
      | Some dmnPayee \<Rightarrow>
          let isMnTierForkActivated = (MNTierForkHeight (pe_params env) \<le> nBlockHeight - 1);
              masternodeReward = GetMasternodePayment (pe_params env) nBlockHeight blockReward
          in case (if isMnTierForkActivated then GetMNPayee_Lite env (nBlockHeight - 1) else None) of
               None \<Rightarrow> Some (payee_outs dmnPayee masternodeReward)
             | Some dmnPayee2 \<Rightarrow>
                 let mnTierOneReward = tier_one masternodeReward; mnTierTwoReward = masternodeReward - mnTierOneReward
                 in Some (payee_outs dmnPayee mnTierOneReward @ payee_outs dmnPayee2 mnTierTwoReward))"

text \<open>The assertion that the destination of a missing payee can be extracted is left to the scripts of the masternode list.\<close>

definition IsTransactionValid :: "payment_env \<Rightarrow> CTransaction \<Rightarrow> int \<Rightarrow> int \<Rightarrow> bool" where
  "IsTransactionValid env txNew nBlockHeight blockReward =
     (if \<not> nBlockHeight \<ge> DIP0003EnforcementHeight (pe_params env) then True
      else case GetBlockTxOuts env nBlockHeight (if isExtraFundAllocationHeight (pe_is_main env) (pe_params env) nBlockHeight
                                                 then blockReward - GetExtraPayOutAmount nBlockHeight else blockReward) of
             None \<Rightarrow> True
           | Some outs \<Rightarrow> list_all (\<lambda>txout. List.member (vout txNew) txout) outs)"

definition IsBlockPayeeValid :: "payment_env \<Rightarrow> CTransaction \<Rightarrow> int \<Rightarrow> int \<Rightarrow> governance \<Rightarrow> (bool \<times> governance) outcome" where
  "IsBlockPayeeValid env txNew nBlockHeight blockReward g =
     (if fDisableGovernance env then Ok (True, g)
      else if nBlockHeight < nSuperblockStartBlock (pe_params env) then Ok (True, g)
      else let (triggered, g) = (if AreSuperblocksEnabled env then IsSuperblockTriggered env nBlockHeight g else (False, g))
           in obind (if triggered then CSuperblockManager_IsValid env txNew nBlockHeight blockReward g else Ok True) (\<lambda>valid.
                if \<not> valid then Ok (False, g) else Ok (IsTransactionValid env txNew nBlockHeight blockReward, g)))"

text \<open>The payments of a new block: the coinbase, the masternode payments and the superblock payments.\<close>

definition FillBlockPayments :: "payment_env \<Rightarrow> CTransaction \<Rightarrow> int \<Rightarrow> int \<Rightarrow> governance \<Rightarrow> (CTransaction \<times> CTxOut list \<times> CTxOut list) \<times> governance" where
  "FillBlockPayments env txNew nBlockHeight blockReward g =
     (let (triggered, g) = (if AreSuperblocksEnabled env then IsSuperblockTriggered env nBlockHeight g else (False, g));
          superblock = (if triggered then case GetSuperblockPayments env nBlockHeight g of None \<Rightarrow> [] | Some outs \<Rightarrow> outs else []);
          masternode = (case GetBlockTxOuts env nBlockHeight blockReward of None \<Rightarrow> [] | Some outs \<Rightarrow> outs);
          outs = (case vout txNew @ masternode @ superblock of
                    [] \<Rightarrow> []
                  | first # rest \<Rightarrow> first\<lparr>nValue := nValue first - sum_list (map nValue masternode)\<rparr> # rest)
      in ((txNew\<lparr>vout := outs\<rparr>, masternode, superblock), g))"

section \<open>The two tiers\<close>

lemma tier_lit: "double_div (double_of_int 4400) (double_of_int 48) = Fin 6450468216285867 (- 46)"
  by code_simp

lemma int_of_Fin_le:
  assumes "0 \<le> q" "q \<le> n * 2 ^ j" "n < 2 ^ 63"
  shows "\<exists>v. int_of_double (Fin q (- int j)) = Some v \<and> 0 \<le> v \<and> v \<le> n"
proof -
  have v: "0 \<le> q div 2 ^ j" "q div 2 ^ j \<le> n" using assms(1) zdiv_mono1 [OF assms(2), of "2 ^ j"] by (simp_all add: pos_imp_zdiv_nonneg_iff)
  have "q div 2 ^ j * 2 ^ j \<le> q" "q < (q div 2 ^ j + 1) * 2 ^ j"
    using div_mult_mod_eq [of q "2 ^ j"] pos_mod_bound [of "2 ^ j" q] pos_mod_sign [of "2 ^ j" q] zero_less_power [of "2 :: int" j]
    unfolding distrib_right by linarith+
  from int_of_Fin [OF this v(1)] v assms(3) show ?thesis by auto
qed

lemma tier_one_bounds:
  assumes "0 \<le> n" "n < 2 ^ 46"
  shows "0 \<le> tier_one n \<and> tier_one n \<le> n"
proof -
  define m where "m = n * 6450468216285867"
  have m: "0 \<le> m" "m < 2 ^ 99" "m \<le> (92 * n) * 2 ^ 46" using assms by (simp_all add: m_def)
  from double_round_bounds [OF m(1,2), of 46]
  obtain m' j where j: "double_round m (- int 46) = Fin m' (- int j)" "j \<le> 46" "0 \<le> m'" and
    b: "i \<le> j \<Longrightarrow> (L * 2 ^ (46 - i) \<le> m \<longrightarrow> L * 2 ^ (j - i) \<le> m') \<and> (m \<le> L * 2 ^ (46 - i) \<longrightarrow> m' \<le> L * 2 ^ (j - i))" for L i
    by auto
  have up: "m' \<le> 92 * n * 2 ^ j" using b [of 0 "92 * n"] m(3) by simp
  define q where "q = 2 * (m' * 2 ^ 62 div 100) + (if m' * 2 ^ 62 mod 100 = 0 then 0 else 1)"
  have len: "bit_len 100 = 7" by code_simp
  have t: "double_times (double_of_int n) (double_div (double_of_int 4400) (double_of_int 48)) = Fin m' (- int j)"
    using assms j(1) unfolding tier_lit m_def by (simp add: double_of_int_exact)
  have "double_div (Fin m' (- int j)) (double_of_int 100) = double_round q (- 63 - int j)"
    by (simp add: double_of_int_exact double_quot_def Let_def len q_def mult.commute)
  also have "- 63 - int j = - int (j + 63)" by simp
  finally have d: "double_div (Fin m' (- int j)) (double_of_int 100) = double_round q (- int (j + 63))" .
  define P where "P = (2 :: int) ^ j"
  have P: "1 \<le> P" "(2 :: int) ^ (j + 63) = P * 2 ^ 63" by (simp_all add: P_def power_add)
  define Q where "Q = n * P"
  have Q: "0 \<le> Q" "Q \<le> 2 ^ 46 * P" "n * 2 ^ (j + 63) = Q * 2 ^ 63" "n \<noteq> 0 \<Longrightarrow> 1 \<le> Q"
    using assms P mult_mono [of 1 n 1 P] by (simp_all add: Q_def mult_right_mono)
  have up': "m' \<le> 92 * Q" using up by (simp add: Q_def P_def algebra_simps)
  have M: "100 * (M div 100) \<le> M" for M :: int by simp
  have q: "0 \<le> q" "100 * q \<le> 2 * (m' * 2 ^ 62) + 100" "m' = 0 \<Longrightarrow> q = 0"
    unfolding q_def using M [of "m' * 2 ^ 62"] j(3) by (auto simp only: distrib_left split: if_split) (simp_all add: pos_imp_zdiv_nonneg_iff)
  have qn: "q \<le> n * 2 ^ (j + 63)"
  proof (cases "n = 0")
    case True
    then have "m' = 0" using up j(3) by simp
    then show ?thesis using q(3) True by simp
  next
    case False
    then show ?thesis using q(2) up' Q(3,4) by simp
  qed
  have "q < 2 ^ 110 * P" using qn Q(2,3) P(1) by simp
  then have qb: "q < 2 ^ (110 + j)" by (simp add: P_def power_add)
  from double_round_bounds [OF q(1) qb, of "j + 63"] j(2)
  obtain q' i where i: "double_round q (- int (j + 63)) = Fin q' (- int i)" "0 \<le> q'" and
    c: "l \<le> i \<Longrightarrow> (L * 2 ^ (j + 63 - l) \<le> q \<longrightarrow> L * 2 ^ (i - l) \<le> q') \<and> (q \<le> L * 2 ^ (j + 63 - l) \<longrightarrow> q' \<le> L * 2 ^ (i - l))" for L l
    by auto
  have "q' \<le> n * 2 ^ i" using c [of 0 n] qn by simp
  with i(2) have "\<exists>v. int_of_double (Fin q' (- int i)) = Some v \<and> 0 \<le> v \<and> v \<le> n" using assms(2) by (intro int_of_Fin_le) auto
  then show ?thesis unfolding tier_one_def t d i(1) amount_of_def by auto
qed

definition payee_ok :: "masternode_payee option \<Rightarrow> bool" where
  "payee_ok p \<longleftrightarrow> (\<forall>x. p = Some x \<longrightarrow> nOperatorReward x \<le> 10000)"

lemma payee_outs_total:
  assumes "0 \<le> r" "nOperatorReward p \<le> 10000"
  shows "sum_list (map nValue (payee_outs p r)) = r \<and> (\<forall>txout \<in> set (payee_outs p r). 0 < nValue txout)"
proof -
  define k where "k = (r * int (nOperatorReward p)) sdiv 10000"
  have "r * int (nOperatorReward p) \<le> r * 10000" "0 \<le> r * int (nOperatorReward p)" using assms by (simp_all add: mult_left_mono)
  then have "0 \<le> k" "k \<le> r" using zdiv_mono1 [of "r * int (nOperatorReward p)" "r * 10000" 10000]
    unfolding k_def by (simp_all add: int_sdiv_pos pos_imp_zdiv_nonneg_iff)
  then show ?thesis using assms(1) unfolding payee_outs_def Let_def k_def [symmetric] by auto
qed

lemma GetBlockTxOuts_total:
  assumes "GetBlockTxOuts env h r = Some outs" "0 \<le> GetMasternodePayment (pe_params env) h r" "GetMasternodePayment (pe_params env) h r < 2 ^ 46"
    "payee_ok (GetMNPayee env (h - 1))" "payee_ok (GetMNPayee_Lite env (h - 1))"
  shows "sum_list (map nValue outs) = GetMasternodePayment (pe_params env) h r \<and> (\<forall>txout \<in> set outs. 0 < nValue txout)"
proof -
  let ?m = "GetMasternodePayment (pe_params env) h r"
  obtain p where p: "GetMNPayee env (h - 1) = Some p" using assms(1) by (auto simp: GetBlockTxOuts_def split: option.splits)
  have po: "nOperatorReward p \<le> 10000" using assms(4) p by (simp add: payee_ok_def)
  show ?thesis
  proof (cases "if MNTierForkHeight (pe_params env) \<le> h - 1 then GetMNPayee_Lite env (h - 1) else None")
    case None
    then have "outs = payee_outs p ?m" using assms(1) p by (simp add: GetBlockTxOuts_def Let_def)
    then show ?thesis using payee_outs_total [OF assms(2) po] by simp
  next
    case (Some p2)
    then have p2: "nOperatorReward p2 \<le> 10000" using assms(5) by (auto simp: payee_ok_def split: if_splits)
    have "outs = payee_outs p (tier_one ?m) @ payee_outs p2 (?m - tier_one ?m)" using assms(1) p Some by (simp add: GetBlockTxOuts_def Let_def)
    then show ?thesis using payee_outs_total [OF _ po, of "tier_one ?m"] payee_outs_total [OF _ p2, of "?m - tier_one ?m"] tier_one_bounds [OF assms(2,3)]
      by auto
  qed
qed

section \<open>Triggers\<close>

definition funded :: "payment_env \<Rightarrow> CGovernanceObject \<Rightarrow> bool" where
  "funded env obj = fCachedFunding (UpdateSentinelVariables env obj)"

definition same_votes :: "payment_env \<Rightarrow> governance \<Rightarrow> governance \<Rightarrow> bool" where
  "same_votes env g g' \<longleftrightarrow> mapTrigger g' = mapTrigger g \<and>
     (\<forall>k. rel_option (\<lambda>a b. mapCurrentMNVotes b = mapCurrentMNVotes a \<and> funded env b = funded env a) (mapObjects g k) (mapObjects g' k))"

lemma counts_cong:
  assumes "mapCurrentMNVotes b = mapCurrentMNVotes a"
  shows "GetAbsoluteYesCount env b sig = GetAbsoluteYesCount env a sig" "GetAbsoluteNoCount env b sig = GetAbsoluteNoCount env a sig"
  using assms by (simp_all add: GetAbsoluteYesCount_def GetAbsoluteNoCount_def GetYesCount_def GetNoCount_def CountMatchingVotes_def)

lemma UpdateSentinelVariables_votes [simp]: "mapCurrentMNVotes (UpdateSentinelVariables env obj) = mapCurrentMNVotes obj"
  by (simp add: UpdateSentinelVariables_def Let_def)

lemma funded_update [simp]: "funded env (UpdateSentinelVariables env obj) = funded env obj"
  using counts_cong [OF UpdateSentinelVariables_votes, of env env obj]
  by (auto simp: funded_def) (auto simp: UpdateSentinelVariables_def Let_def split: if_splits)

lemma same_votes_refl [simp]: "same_votes env g g"
  by (auto simp: same_votes_def option.rel_refl)

lemma same_votes_trans:
  assumes "same_votes env g g'" "same_votes env g' g''"
  shows "same_votes env g g''"
proof -
  have "rel_option (\<lambda>a b. mapCurrentMNVotes b = mapCurrentMNVotes a \<and> funded env b = funded env a) (mapObjects g k) (mapObjects g'' k)" for k
    using assms unfolding same_votes_def
    by (cases "mapObjects g k"; cases "mapObjects g' k"; cases "mapObjects g'' k") (auto dest!: spec [where x = k])
  then show ?thesis using assms by (simp add: same_votes_def)
qed

lemma same_votes_update:
  assumes "mapObjects g k = Some obj"
  shows "same_votes env g (g\<lparr>mapObjects := (mapObjects g)(k \<mapsto> UpdateSentinelVariables env obj)\<rparr>)"
  using assms by (auto simp: same_votes_def option.rel_refl)

text \<open>Whether a superblock is triggered, and which one is best, depend on the votes only.\<close>

definition has_trigger :: "payment_env \<Rightarrow> int \<Rightarrow> CSuperblock option list \<Rightarrow> governance \<Rightarrow> bool" where
  "has_trigger env h ts g \<longleftrightarrow> (\<exists>sb obj. Some sb \<in> set ts \<and> mapObjects g (nGovObjHash sb) = Some obj \<and> sb_nBlockHeight sb = h \<and> funded env obj)"

lemma same_votes_object:
  assumes "same_votes env g g'"
  shows "mapObjects g k = None \<Longrightarrow> mapObjects g' k = None"
    "mapObjects g k = Some a \<Longrightarrow> \<exists>b. mapObjects g' k = Some b \<and> mapCurrentMNVotes b = mapCurrentMNVotes a \<and> funded env b = funded env a"
proof -
  have r: "rel_option (\<lambda>a b. mapCurrentMNVotes b = mapCurrentMNVotes a \<and> funded env b = funded env a) (mapObjects g k) (mapObjects g' k)"
    using assms by (simp add: same_votes_def)
  show "mapObjects g k = None \<Longrightarrow> mapObjects g' k = None" using r by (cases "mapObjects g' k") simp_all
  show "mapObjects g k = Some a \<Longrightarrow> \<exists>b. mapObjects g' k = Some b \<and> mapCurrentMNVotes b = mapCurrentMNVotes a \<and> funded env b = funded env a"
    using r by (cases "mapObjects g' k") simp_all
qed

lemma same_votes_sym:
  assumes "same_votes env g g'"
  shows "same_votes env g' g"
proof -
  have "rel_option (\<lambda>a b. mapCurrentMNVotes b = mapCurrentMNVotes a \<and> funded env b = funded env a) (mapObjects g' k) (mapObjects g k)" for k
    using assms unfolding same_votes_def by (cases "mapObjects g k"; cases "mapObjects g' k") (auto dest!: spec [where x = k])
  then show ?thesis using assms by (simp add: same_votes_def)
qed

lemma has_trigger_cong: "same_votes env g g' \<Longrightarrow> has_trigger env h ts g' = has_trigger env h ts g"
  unfolding has_trigger_def by (metis same_votes_object(2) same_votes_sym)

lemma find_triggered_spec: "fst (find_triggered env h ts g) = has_trigger env h ts g \<and> same_votes env g (snd (find_triggered env h ts g))"
proof (induction ts arbitrary: g)
  case (Cons t ts)
  show ?case
  proof (cases "\<exists>sb obj. t = Some sb \<and> mapObjects g (nGovObjHash sb) = Some obj \<and> sb_nBlockHeight sb = h")
    case True
    then obtain sb obj where t: "t = Some sb" "mapObjects g (nGovObjHash sb) = Some obj" "sb_nBlockHeight sb = h" by blast
    let ?g = "g\<lparr>mapObjects := (mapObjects g)(nGovObjHash sb \<mapsto> UpdateSentinelVariables env obj)\<rparr>"
    note sv = same_votes_update [OF t(2), of env]
    show ?thesis
    proof (cases "funded env obj")
      case True
      then show ?thesis using t sv by (auto simp: Let_def funded_def has_trigger_def)
    next
      case False
      have "find_triggered env h (t # ts) g = find_triggered env h ts ?g" using t False by (simp add: Let_def funded_def)
      moreover have "has_trigger env h (t # ts) g = has_trigger env h ts g" using t False by (auto simp: has_trigger_def)
      ultimately show ?thesis using Cons.IH [of ?g] has_trigger_cong [OF sv] same_votes_trans [OF sv] by simp
    qed
  next
    case False
    then have "find_triggered env h (t # ts) g = find_triggered env h ts g" by (auto split: option.splits)
    moreover have "has_trigger env h (t # ts) g = has_trigger env h ts g" using False by (auto simp: has_trigger_def)
    ultimately show ?thesis using Cons.IH by simp
  qed
qed (simp add: has_trigger_def)

lemma GetActiveTriggers_cong: "same_votes env g g' \<Longrightarrow> GetActiveTriggers g' = GetActiveTriggers g"
proof -
  assume sv: "same_votes env g g'"
  have "mapObjects g' k \<noteq> None \<longleftrightarrow> mapObjects g k \<noteq> None" for k
    using same_votes_object [OF sv, of k] by (cases "mapObjects g k") auto
  then show ?thesis using sv by (simp add: GetActiveTriggers_def same_votes_def)
qed

lemma best_superblock_cong: "same_votes env g g' \<Longrightarrow> best_superblock env g' h ts n ret = best_superblock env g h ts n ret"
proof (induction ts arbitrary: n ret)
  case (Cons t ts)
  show ?case
  proof (cases t)
    case (Some sb)
    note o = same_votes_object [OF Cons.prems, of "nGovObjHash sb"]
    show ?thesis
    proof (cases "mapObjects g (nGovObjHash sb)")
      case None
      then show ?thesis using o(1) Cons Some by auto
    next
      case (Some a)
      then obtain b where "mapObjects g' (nGovObjHash sb) = Some b" "mapCurrentMNVotes b = mapCurrentMNVotes a" using o(2) by blast
      then show ?thesis using Cons \<open>t = Some sb\<close> Some counts_cong(1) [of b a env] by (auto simp: Let_def)
    qed
  qed (use Cons in simp)
qed simp

lemma IsSuperblockTriggered_spec:
  "IsSuperblockTriggered env h g = (trig, g') \<Longrightarrow> same_votes env g g' \<and> (trig \<longleftrightarrow> IsValidBlockHeight (pe_params env) h \<and> has_trigger env h (GetActiveTriggers g) g)"
  using find_triggered_spec [of env h "GetActiveTriggers g" g] by (auto simp: IsSuperblockTriggered_def split: if_splits)

lemma IsSuperblockTriggered_cong: "same_votes env g g' \<Longrightarrow> fst (IsSuperblockTriggered env h g') = fst (IsSuperblockTriggered env h g)"
  using find_triggered_spec [of env h] by (simp add: IsSuperblockTriggered_def GetActiveTriggers_cong has_trigger_cong)

lemma GetBestSuperblock_cong: "same_votes env g g' \<Longrightarrow> GetBestSuperblock env h g' = GetBestSuperblock env h g"
  by (simp add: GetBestSuperblock_def GetActiveTriggers_cong best_superblock_cong)

section \<open>Limits on the value of a block\<close>

lemma match_payments_found: "match_payments ps outs \<Longrightarrow> \<forall>p \<in> set ps. \<exists>txout \<in> set outs. payment_matches p txout"
proof (induction ps arbitrary: outs)
  case (Cons p ps)
  let ?r = "dropWhile (\<lambda>txout. \<not> payment_matches p txout) outs"
  have r: "?r \<noteq> []" "match_payments ps ?r" using Cons.prems by (cases ?r; simp del: dropWhile_eq_Nil_conv)+
  have "hd ?r \<in> set outs" using r(1) by (metis hd_in_set set_dropWhileD)
  moreover have "payment_matches p (hd ?r)" using hd_dropWhile [of "\<lambda>txout. \<not> payment_matches p txout" outs] r(1) by simp
  moreover have "set ?r \<subseteq> set outs" by (auto dest: set_dropWhileD)
  ultimately show ?case using Cons.IH [OF r(2)] unfolding list.set by blast
qed simp

lemma match_payments_append: "match_payments ps ys \<Longrightarrow> match_payments ps (xs @ ys)"
proof (induction ps arbitrary: xs ys)
  case (Cons p ps)
  let ?P = "\<lambda>txout. \<not> payment_matches p txout"
  have r: "dropWhile ?P ys \<noteq> []" "match_payments ps (dropWhile ?P ys)" using Cons.prems by (cases "dropWhile ?P ys"; simp del: dropWhile_eq_Nil_conv)+
  show ?case
  proof (cases "dropWhile ?P xs")
    case Nil
    then have "\<forall>x \<in> set xs. ?P x" by (simp add: dropWhile_eq_Nil_conv)
    then have "dropWhile ?P (xs @ ys) = dropWhile ?P ys" by (simp add: dropWhile_append2)
    then show ?thesis using r by (cases "dropWhile ?P ys") (simp_all del: dropWhile_eq_Nil_conv)
  next
    case d0: (Cons a as)
    then obtain x where "x \<in> set xs" "\<not> ?P x" by (metis dropWhile_eq_Nil_conv list.distinct(1))
    then have d: "dropWhile ?P (xs @ ys) = dropWhile ?P xs @ ys" by (simp add: dropWhile_append1)
    have "match_payments ps (takeWhile ?P ys @ dropWhile ?P ys)" using Cons.IH [OF r(2)] by blast
    then have "match_payments ps ((a # as) @ ys)" using Cons.IH [of ys "a # as"] by simp
    then show ?thesis using d d0 by simp
  qed
qed simp

lemma match_payments_own: "match_payments ps (map (\<lambda>payment. \<lparr>nValue = pay_nAmount payment, scriptPubKey = pay_script payment\<rparr>) ps)"
proof (induction ps)
  case (Cons p ps)
  then show ?case using match_payments_append [OF Cons.IH, of "[\<lparr>nValue = pay_nAmount p, scriptPubKey = pay_script p\<rparr>]"]
    by (simp add: payment_matches_def)
qed simp

text \<open>
  C19. What a coinbase may pay from the start of the superblocks on.  A block whose value \<^verbatim>\<open>IsBlockValueValid\<close> accepts pays at most
  the block reward and the superblock limit of its height.  On a synced node with governance it pays at most the reward, unless
  superblocks are enabled and one with enough votes is triggered for the height: then it pays at most the reward and the payments of the
  superblock with the most votes, these are within the limit, and each of them is an output of the coinbase.
\<close>

theorem IsBlockValueValid_limit:
  assumes "GetValueOut (vtx block ! 0) = Ok v" "nBudgetPaymentsStartBlock (pe_params env) \<le> h" "nSuperblockStartBlock (pe_params env) \<le> h"
    "IsBlockValueValid env block h r g = Ok (True, g')"
  shows "v \<le> r + GetPaymentsLimit (pe_params env) h \<and>
    (IsSynced env \<and> \<not> fDisableGovernance env \<longrightarrow>
      (if AreSuperblocksEnabled env \<and> IsValidBlockHeight (pe_params env) h \<and> has_trigger env h (GetActiveTriggers g) g
       then \<exists>sb. GetBestSuperblock env h g = Some sb \<and> v \<le> r + GetPaymentsTotalAmount sb \<and>
              GetPaymentsTotalAmount sb \<le> GetPaymentsLimit (pe_params env) h \<and>
              (\<forall>p \<in> set (vecPayments sb). \<exists>txout \<in> set (vout (vtx block ! 0)). payment_matches p txout)
       else v \<le> r))"
proof (cases "IsValidBlockHeight (pe_params env) h")
  case False
  then show ?thesis using assms by (simp add: IsBlockValueValid_def GetPaymentsLimit_def Let_def)
next
  case True
  obtain trig g1 where t: "IsSuperblockTriggered env h g = (trig, g1)" by fastforce
  note spec = IsSuperblockTriggered_spec [OF t]
  have le: "v \<le> r + GetPaymentsLimit (pe_params env) h"
    using assms True by (auto simp: IsBlockValueValid_def Let_def not_le split: if_splits)
  show ?thesis
  proof (cases "IsSynced env \<and> \<not> fDisableGovernance env \<and> AreSuperblocksEnabled env \<and> trig")
    case trig: True
    obtain sb where sb: "GetBestSuperblock env h g1 = Some sb" "CSuperblock_IsValid (pe_params env) sb (vtx block ! 0) h r = Ok True"
      using assms True t le trig by (cases "GetBestSuperblock env h g1") (auto simp: IsBlockValueValid_def Let_def CSuperblockManager_IsValid_def obind_Ok)
    have "v \<le> r + GetPaymentsTotalAmount sb \<and> GetPaymentsTotalAmount sb \<le> GetPaymentsLimit (pe_params env) h \<and> match_payments (vecPayments sb) (vout (vtx block ! 0))"
      using sb(2) assms(1) True by (auto simp: CSuperblock_IsValid_def Let_def split: if_splits)
    then have "\<exists>sb. GetBestSuperblock env h g = Some sb \<and> v \<le> r + GetPaymentsTotalAmount sb \<and>
              GetPaymentsTotalAmount sb \<le> GetPaymentsLimit (pe_params env) h \<and>
              (\<forall>p \<in> set (vecPayments sb). \<exists>txout \<in> set (vout (vtx block ! 0)). payment_matches p txout)"
      using sb(1) GetBestSuperblock_cong [of env g g1 h] spec match_payments_found by (intro exI [of _ sb]) auto
    then show ?thesis using spec le trig by simp
  next
    case False
    then show ?thesis using assms True t le spec by (auto simp: IsBlockValueValid_def Let_def split: if_splits)
  qed
qed

text \<open>
  C20. Every height is a superblock height.  From the start height of the last schedule on, \<^verbatim>\<open>IsValidBlockHeight\<close> divides a
  remainder by the cycle instead of comparing it with zero, so that it holds at every height and not once per cycle; a node that is not synced, or has governance disabled, then
  accepts at each height every coinbase up to the reward and the limit of a whole cycle of superblock shares.
\<close>

theorem superblock_at_every_height:
  assumes "nNewSuperBlockStartHeight params \<le> h" "nAutolykosSuperBlockStartHeight params \<le> h" "0 < nAutolykosSuperBlockCycle params"
    "nBudgetPaymentsStartBlock params \<le> h" "nSuperblockStartBlock params \<le> h" "pe_params env = params" "GetValueOut (vtx block ! 0) = Ok v"
    "\<not> IsSynced env \<or> fDisableGovernance env"
  shows "IsValidBlockHeight params h \<and> IsBlockValueValid env block h r g = Ok (v \<le> r + GetPaymentsLimit params h, g) \<and>
    (map_of payments_table h = None \<longrightarrow> GetPaymentsLimit params h = GetBlockSubsidy (h - 1) params True * nAutolykosSuperBlockCycle params)"
proof -
  have c: "superblock_cycle params h = nAutolykosSuperBlockCycle params" using assms by (simp add: superblock_cycle_def)
  have "IsValidBlockHeight params h" using assms unfolding IsValidBlockHeight_def c by (simp add: Let_def int_sdiv_pos)
  then show ?thesis using assms c by (simp add: IsBlockValueValid_def GetPaymentsLimit_def Let_def)
qed

section \<open>The payments of a new block\<close>

lemma FillBlockPayments_total:
  assumes "FillBlockPayments env tx h r g = ((tx', mn, sbs), g')" "vout tx \<noteq> []"
  shows "sum_list (map nValue (vout tx')) = sum_list (map nValue (vout tx)) + sum_list (map nValue sbs)"
    "vout tx' = (hd (vout tx))\<lparr>nValue := nValue (hd (vout tx)) - sum_list (map nValue mn)\<rparr> # tl (vout tx) @ mn @ sbs"
    "mn = (case GetBlockTxOuts env h r of None \<Rightarrow> [] | Some outs \<Rightarrow> outs)" "same_votes env g g'"
    "sbs = (if AreSuperblocksEnabled env \<and> fst (IsSuperblockTriggered env h g)
            then case GetSuperblockPayments env h g of None \<Rightarrow> [] | Some outs \<Rightarrow> outs else [])"
proof -
  obtain trig g1 where t: "(if AreSuperblocksEnabled env then IsSuperblockTriggered env h g else (False, g)) = (trig, g1)" by fastforce
  have sv: "same_votes env g g1" using t IsSuperblockTriggered_spec by (auto split: if_splits)
  obtain a as where a: "vout tx = a # as" using assms(2) by (cases "vout tx") auto
  have e: "((tx', mn, sbs), g') =
      ((tx\<lparr>vout := a\<lparr>nValue := nValue a - sum_list (map nValue (case GetBlockTxOuts env h r of None \<Rightarrow> [] | Some outs \<Rightarrow> outs))\<rparr> # as @
        (case GetBlockTxOuts env h r of None \<Rightarrow> [] | Some outs \<Rightarrow> outs) @
        (if trig then case GetSuperblockPayments env h g1 of None \<Rightarrow> [] | Some outs \<Rightarrow> outs else [])\<rparr>,
        (case GetBlockTxOuts env h r of None \<Rightarrow> [] | Some outs \<Rightarrow> outs),
        (if trig then case GetSuperblockPayments env h g1 of None \<Rightarrow> [] | Some outs \<Rightarrow> outs else [])), g1)"
    unfolding assms(1) [symmetric] FillBlockPayments_def t a by (simp only: Let_def prod.case append_Cons list.case)
  have g: "GetSuperblockPayments env h g1 = GetSuperblockPayments env h g" using GetBestSuperblock_cong [OF sv] by (simp add: GetSuperblockPayments_def)
  have tr: "trig = (AreSuperblocksEnabled env \<and> fst (IsSuperblockTriggered env h g))" using t by (auto split: if_splits)
  show "mn = (case GetBlockTxOuts env h r of None \<Rightarrow> [] | Some outs \<Rightarrow> outs)" "same_votes env g g'" using e sv by simp_all
  show "sbs = (if AreSuperblocksEnabled env \<and> fst (IsSuperblockTriggered env h g)
            then case GetSuperblockPayments env h g of None \<Rightarrow> [] | Some outs \<Rightarrow> outs else [])" using e g tr by simp
  show v: "vout tx' = (hd (vout tx))\<lparr>nValue := nValue (hd (vout tx)) - sum_list (map nValue mn)\<rparr> # tl (vout tx) @ mn @ sbs" using e a by simp
  show "sum_list (map nValue (vout tx')) = sum_list (map nValue (vout tx)) + sum_list (map nValue sbs)" unfolding v using a by simp
qed

lemma best_superblock_max:
  assumes "best_superblock env g h ts n ret = (n', ret')" "0 < n \<longrightarrow> ret \<noteq> None"
  shows "n \<le> n' \<and> (0 < n' \<longrightarrow> ret' \<noteq> None) \<and>
    (\<forall>sb obj. Some sb \<in> set ts \<and> sb_nBlockHeight sb = h \<and> mapObjects g (nGovObjHash sb) = Some obj \<longrightarrow> GetAbsoluteYesCount env obj VOTE_SIGNAL_FUNDING \<le> n')"
  using assms
proof (induction ts arbitrary: n ret)
  case (Cons t ts)
  show ?case
  proof (cases "\<exists>sb obj. t = Some sb \<and> sb_nBlockHeight sb = h \<and> mapObjects g (nGovObjHash sb) = Some obj \<and> n < GetAbsoluteYesCount env obj VOTE_SIGNAL_FUNDING")
    case True
    then obtain sb obj where t: "t = Some sb" "sb_nBlockHeight sb = h" "mapObjects g (nGovObjHash sb) = Some obj" "n < GetAbsoluteYesCount env obj VOTE_SIGNAL_FUNDING"
      by blast
    then have "best_superblock env g h ts (GetAbsoluteYesCount env obj VOTE_SIGNAL_FUNDING) (Some sb) = (n', ret')" using Cons.prems(1) by (simp add: Let_def)
    from Cons.IH [OF this] t show ?thesis by auto
  next
    case False
    then have "best_superblock env g h ts n ret = (n', ret')" using Cons.prems(1) by (auto simp: Let_def split: option.splits if_splits)
    from Cons.IH [OF this Cons.prems(2)] False show ?thesis by (fastforce simp: not_less)
  qed
qed simp

lemma triggered_best:
  assumes "0 < nGovernanceMinQuorum (pe_params env)" "ValidWeightedMNsCount env \<noteq> 0" "fst (IsSuperblockTriggered env h g)"
  shows "GetBestSuperblock env h g \<noteq> None"
proof -
  obtain g' where "IsSuperblockTriggered env h g = (True, g')" using assms(3) by (metis prod.collapse)
  from IsSuperblockTriggered_spec [OF this] obtain sb obj where t: "IsValidBlockHeight (pe_params env) h" "Some sb \<in> set (GetActiveTriggers g)"
    "mapObjects g (nGovObjHash sb) = Some obj" "sb_nBlockHeight sb = h" "funded env obj" by (auto simp: has_trigger_def)
  have y: "0 < GetAbsoluteYesCount env obj VOTE_SIGNAL_FUNDING" using t(5) assms(1,2) by (simp add: funded_def UpdateSentinelVariables_def Let_def)
  obtain n' ret' where b: "best_superblock env g h (GetActiveTriggers g) 0 None = (n', ret')" by fastforce
  from best_superblock_max [OF b] t(2-4) y have "0 < n'" "ret' \<noteq> None" by force+
  then show ?thesis using b t(1) by (simp add: GetBestSuperblock_def)
qed

text \<open>
  C21. A new block carries the payments that other nodes ask for.  Let the masternode payment be in range, the operators' shares at
  most the whole, and the count of valid masternodes not zero.  When \<^verbatim>\<open>FillBlockPayments\<close> completes a coinbase that pays at most the block
  reward, the masternode outputs it adds sum up to the masternode payment of the reward and are taken from the first output; the coinbase then pays
  what it paid before and the superblock payments, and nothing else.  If these are within the limit of the height, which
  \<^verbatim>\<open>FillBlockPayments\<close> does not test, \<^verbatim>\<open>IsBlockPayeeValid\<close> accepts the result, with the extra payout added to the
  reward where the height has one.
\<close>

theorem FillBlockPayments_accepted:
  assumes "FillBlockPayments env tx h r g = ((tx', mn, sbs), g')" "vout tx \<noteq> []" "sum_list (map nValue (vout tx)) \<le> r"
    "0 \<le> GetMasternodePayment (pe_params env) h r" "GetMasternodePayment (pe_params env) h r < 2 ^ 46"
    "payee_ok (GetMNPayee env (h - 1))" "payee_ok (GetMNPayee_Lite env (h - 1))"
    "0 < nGovernanceMinQuorum (pe_params env)" "ValidWeightedMNsCount env \<noteq> 0" "sum_list (map nValue sbs) \<le> GetPaymentsLimit (pe_params env) h"
    "GetValueOut tx' = Ok v" "x = (if isExtraFundAllocationHeight (pe_is_main env) (pe_params env) h then GetExtraPayOutAmount h else 0)"
  shows "v = sum_list (map nValue (vout tx)) + sum_list (map nValue sbs) \<and>
    (mn \<noteq> [] \<longrightarrow> sum_list (map nValue mn) = GetMasternodePayment (pe_params env) h r \<and> (\<forall>txout \<in> set mn. 0 < nValue txout)) \<and>
    (\<exists>g''. IsBlockPayeeValid env tx' h (r + x) g' = Ok (True, g''))"
proof (intro conjI)
  note f = FillBlockPayments_total [OF assms(1,2)]
  have v: "v = sum_list (map nValue (vout tx'))" using assms(11) GetValueOut_sum [of tx'] by (auto split: if_splits)
  then show "v = sum_list (map nValue (vout tx)) + sum_list (map nValue sbs)" using f(1) by simp
  show "mn \<noteq> [] \<longrightarrow> sum_list (map nValue mn) = GetMasternodePayment (pe_params env) h r \<and> (\<forall>txout \<in> set mn. 0 < nValue txout)"
    using f(3) GetBlockTxOuts_total [OF _ assms(4-7)] by (cases "GetBlockTxOuts env h r") auto
  have tv: "IsTransactionValid env tx' h (r + x)"
    using f(2,3) assms(12) by (auto simp: IsTransactionValid_def list_all_iff split: option.splits)
  have "0 \<le> x" using assms(12) by (simp add: GetExtraPayOutAmount_def)
  obtain trig g1 where t: "(if AreSuperblocksEnabled env then IsSuperblockTriggered env h g' else (False, g')) = (trig, g1)" by fastforce
  have sv: "same_votes env g g1" using t IsSuperblockTriggered_spec same_votes_trans [OF f(4)] f(4) by (auto split: if_splits)
  have tr: "trig = (AreSuperblocksEnabled env \<and> fst (IsSuperblockTriggered env h g))"
    using t IsSuperblockTriggered_cong [OF f(4), of h] by (auto split: if_splits)
  have ok: "CSuperblockManager_IsValid env tx' h (r + x) g1 = Ok True" if trig
  proof -
    have "fst (IsSuperblockTriggered env h g)" using that tr by blast
    from triggered_best [OF assms(8,9) this] obtain sb where sb: "GetBestSuperblock env h g1 = Some sb"
      unfolding GetBestSuperblock_cong [OF sv] by blast
    have s: "sbs = map (\<lambda>payment. \<lparr>nValue = pay_nAmount payment, scriptPubKey = pay_script payment\<rparr>) (vecPayments sb)"
      using f(5) that tr sb GetBestSuperblock_cong [OF sv] by (simp add: GetSuperblockPayments_def)
    have tot: "GetPaymentsTotalAmount sb = sum_list (map nValue sbs)" unfolding s GetPaymentsTotalAmount_def by (simp add: comp_def)
    have hv: "IsValidBlockHeight (pe_params env) h" using sb by (auto simp: GetBestSuperblock_def split: if_splits)
    have "match_payments (vecPayments sb) (vout tx')"
      using match_payments_append [OF match_payments_own, of "vecPayments sb" "(hd (vout tx))\<lparr>nValue := nValue (hd (vout tx)) - sum_list (map nValue mn)\<rparr> # tl (vout tx) @ mn"]
      unfolding f(2) s by simp
    moreover have "length (vecPayments sb) \<le> length (vout tx')" unfolding f(2) s by simp
    moreover have "v \<le> r + x + GetPaymentsTotalAmount sb" using v f(1) tot assms(3) \<open>0 \<le> x\<close> by simp
    ultimately show ?thesis using sb hv assms(10,11) tot by (simp add: CSuperblockManager_IsValid_def CSuperblock_IsValid_def not_less)
  qed
  have "IsBlockPayeeValid env tx' h (r + x) g' \<in> {Ok (True, g'), Ok (True, g1)}"
    using ok tv unfolding IsBlockPayeeValid_def t by (cases trig) (auto simp: Let_def)
  then show "\<exists>g''. IsBlockPayeeValid env tx' h (r + x) g' = Ok (True, g'')" by blast
qed

text \<open>Two equal payments of a superblock are matched by one output.\<close>

lemma equal_payments_share_output: "payment_matches p txout \<Longrightarrow> match_payments (replicate n p) [txout]"
  by (induction n) simp_all

section \<open>Examples\<close>

definition example_pay_env :: "bool \<Rightarrow> payment_env" where
  "example_pay_env synced = \<lparr>pe_params = mainnet_params, pe_is_main = True, voting_weight = (\<lambda>_. Some 1), ValidWeightedMNsCount = 100,
     GetMNPayee = (\<lambda>_. Some \<lparr>nOperatorReward = 1000, scriptPayout = [0x51], scriptOperatorPayout = [0x52]\<rparr>),
     GetMNPayee_Lite = (\<lambda>_. Some \<lparr>nOperatorReward = 0, scriptPayout = [0x53], scriptOperatorPayout = []\<rparr>),
     AreSuperblocksEnabled = True, IsSynced = synced, fDisableGovernance = False, GetAdjustedTime_now = 0\<rparr>"

definition example_votes :: CGovernanceObject where
  "example_votes = \<lparr>mapCurrentMNVotes = map (\<lambda>n. (COutPoint (replicate 32 1) (word_of_nat n), (\<lambda>_. None)(VOTE_SIGNAL_FUNDING \<mapsto> VOTE_OUTCOME_YES))) [0..<10],
     fCachedFunding = False, fCachedValid = True, fCachedDelete = False, fCachedEndorsed = False, fDirtyCache = True, nDeletionTime = 0\<rparr>"

definition example_superblock :: CSuperblock where
  "example_superblock = \<lparr>nGovObjHash = replicate 32 2, sb_nBlockHeight = 300000, sb_nStatus = SEEN_OBJECT_IS_VALID,
     vecPayments = [\<lparr>pay_script = [0x54], pay_nAmount = 1000 * COIN\<rparr>]\<rparr>"

definition example_gov :: governance where
  "example_gov = \<lparr>mapTrigger = [(replicate 32 2, Some example_superblock)], mapObjects = (\<lambda>_. None)(replicate 32 2 \<mapsto> example_votes)\<rparr>"

definition example_pay_tx :: "int \<Rightarrow> CTransaction" where
  "example_pay_tx n = \<lparr>vin = [], vout = [\<lparr>nValue = n, scriptPubKey = [0x51]\<rparr>], nVersion = 1, nType = 0, nLockTime = 0, vExtraPayload = []\<rparr>"

definition example_pay_block :: "int \<Rightarrow> CBlock" where
  "example_pay_block n = CBlockHeader.extend CBlockHeader_null (CBlock.fields [example_pay_tx n])"

lemma example_pay_vtx [simp]: "vtx (example_pay_block n) = [example_pay_tx n]"
  by (simp add: example_pay_block_def CBlockHeader.extend_def CBlock.fields_def)

lemma example_pay_value: "0 \<le> n \<Longrightarrow> n \<le> MAX_MONEY \<Longrightarrow> GetValueOut (example_pay_tx n) = Ok n"
  by (simp add: GetValueOut_def example_pay_tx_def MoneyRange_def)

lemma example_pay_limit: "GetPaymentsLimit mainnet_params 300000 = 172800 * COIN" "IsValidBlockHeight mainnet_params 300000"
    "map_of payments_table (300000 :: int) = None"
proof -
  show t: "map_of payments_table (300000 :: int) = None" by (simp add: payments_table_def)
  have "superblock_cycle mainnet_params 300000 = 43200" by (simp add: superblock_cycle_def mainnet_params_def)
  moreover have h: "IsValidBlockHeight mainnet_params 300000" using calculation by (simp add: IsValidBlockHeight_def mainnet_params_def Let_def int_sdiv_pos)
  moreover have "GetBlockSubsidy 299999 mainnet_params True = 4 * COIN"
    using mainnet_subsidy [of 299999] by (auto simp: subsidy_base_def)
  ultimately show "GetPaymentsLimit mainnet_params 300000 = 172800 * COIN" "IsValidBlockHeight mainnet_params 300000"
    using t by (simp_all add: GetPaymentsLimit_def)
qed

lemma mainnet_pay_params: "nBudgetPaymentsStartBlock mainnet_params = 1" "nSuperblockStartBlock mainnet_params = 1"
    "nNewSuperBlockStartHeight mainnet_params = 87601" "nAutolykosSuperBlockStartHeight mainnet_params = 292001"
    "nAutolykosSuperBlockCycle mainnet_params = 43200" "nGovernanceMinQuorum mainnet_params = 10"
  by (simp_all add: mainnet_params_def)

lemma example_pay_env_simps [simp]: "pe_params (example_pay_env synced) = mainnet_params" "IsSynced (example_pay_env synced) = synced"
    "fDisableGovernance (example_pay_env synced) = False" "AreSuperblocksEnabled (example_pay_env synced)" "ValidWeightedMNsCount (example_pay_env synced) = 100"
  by (simp_all add: example_pay_env_def)

theorem superblock_at_every_height_witness:
  "IsBlockValueValid (example_pay_env False) (example_pay_block (172876 * COIN)) 300000 (76 * COIN) example_gov = Ok (True, example_gov)"
  using superblock_at_every_height [of mainnet_params 300000 "example_pay_env False" "example_pay_block (172876 * COIN)" "172876 * COIN" "76 * COIN" example_gov]
    example_pay_limit(1) by (simp add: mainnet_pay_params example_pay_value)

lemma example_yes: "GetAbsoluteYesCount (example_pay_env synced) example_votes VOTE_SIGNAL_FUNDING = 10"
  by (simp add: GetAbsoluteYesCount_def GetYesCount_def GetNoCount_def CountMatchingVotes_def example_votes_def example_pay_env_def upt_rec comp_def)

lemma example_triggers: "GetActiveTriggers example_gov = [Some example_superblock]" "mapObjects example_gov (nGovObjHash example_superblock) = Some example_votes"
  by (simp_all add: GetActiveTriggers_def example_gov_def example_superblock_def)

lemma example_best: "GetBestSuperblock (example_pay_env synced) 300000 g = Some example_superblock" if "same_votes (example_pay_env synced) example_gov g"
  unfolding GetBestSuperblock_cong [OF that]
  using example_pay_limit(2) by (simp add: GetBestSuperblock_def example_triggers example_yes Let_def) (simp add: example_superblock_def)

lemma example_triggered: "\<exists>g. IsSuperblockTriggered (example_pay_env synced) 300000 example_gov = (True, g) \<and> same_votes (example_pay_env synced) example_gov g"
proof -
  obtain trig g where t: "IsSuperblockTriggered (example_pay_env synced) 300000 example_gov = (trig, g)" by fastforce
  have "funded (example_pay_env synced) example_votes"
    using example_yes [of synced] by (simp add: funded_def UpdateSentinelVariables_def Let_def mainnet_pay_params int_sdiv_pos)
  then have "has_trigger (example_pay_env synced) 300000 (GetActiveTriggers example_gov) example_gov"
    using example_triggers by (auto simp: has_trigger_def) (simp add: example_superblock_def)
  then show ?thesis using IsSuperblockTriggered_spec [OF t] t example_pay_limit(2) by simp
qed

definition example_super_tx :: CTransaction where
  "example_super_tx = (example_pay_tx (76 * COIN))\<lparr>vout := [\<lparr>nValue = 76 * COIN, scriptPubKey = [0x51]\<rparr>, \<lparr>nValue = 1000 * COIN, scriptPubKey = [0x54]\<rparr>]\<rparr>"

definition example_super_block :: CBlock where
  "example_super_block = (example_pay_block 0)\<lparr>vtx := [example_super_tx]\<rparr>"

lemma example_super_valid:
  "GetValueOut example_super_tx = Ok (1076 * COIN)"
  "CSuperblock_IsValid mainnet_params example_superblock example_super_tx 300000 (76 * COIN) = Ok True"
proof -
  show v: "GetValueOut example_super_tx = Ok (1076 * COIN)" by (simp add: GetValueOut_def example_super_tx_def MoneyRange_def)
  show "CSuperblock_IsValid mainnet_params example_superblock example_super_tx 300000 (76 * COIN) = Ok True"
    using v example_pay_limit unfolding CSuperblock_IsValid_def
    by (simp add: GetPaymentsTotalAmount_def example_superblock_def) (simp add: example_super_tx_def payment_matches_def)
qed

theorem IsBlockValueValid_limit_witness:
  "\<exists>g'. IsBlockValueValid (example_pay_env True) example_super_block 300000 (76 * COIN) example_gov = Ok (True, g') \<and>
     1076 * COIN \<le> 76 * COIN + GetPaymentsLimit mainnet_params 300000"
proof -
  obtain g where g: "IsSuperblockTriggered (example_pay_env True) 300000 example_gov = (True, g)" "same_votes (example_pay_env True) example_gov g"
    using example_triggered by blast
  have a: "IsBlockValueValid (example_pay_env True) example_super_block 300000 (76 * COIN) example_gov = Ok (True, g)"
    using g example_best [OF g(2)] example_super_valid example_pay_limit
    by (simp add: IsBlockValueValid_def example_super_block_def mainnet_pay_params CSuperblockManager_IsValid_def Let_def)
  show ?thesis using a IsBlockValueValid_limit [OF _ _ _ a, of "1076 * COIN"] example_super_valid(1)
    by (auto simp: example_super_block_def mainnet_pay_params)
qed

theorem FillBlockPayments_accepted_witness:
  "\<exists>tx' mn sbs g' g''. FillBlockPayments (example_pay_env True) (example_pay_tx (76 * COIN)) 300000 (76 * COIN) example_gov = ((tx', mn, sbs), g') \<and>
     sum_list (map nValue mn) = 3840000000 \<and> IsBlockPayeeValid (example_pay_env True) tx' 300000 (76 * COIN) g' = Ok (True, g'')"
proof -
  let ?env = "example_pay_env True" and ?tx = "example_pay_tx (76 * COIN)"
  obtain tx' mn sbs g' where f: "FillBlockPayments ?env ?tx 300000 (76 * COIN) example_gov = ((tx', mn, sbs), g')" by (metis prod.collapse)
  have vo: "vout ?tx = [\<lparr>nValue = 76 * COIN, scriptPubKey = [0x51]\<rparr>]" by (simp add: example_pay_tx_def)
  then have ne: "vout ?tx \<noteq> []" by simp
  note t = FillBlockPayments_total [OF f ne]
  have m: "GetMasternodePayment mainnet_params 300000 (76 * COIN) = 3840000000"
    using share_48 [of 80000000] by (simp add: GetMasternodePayment_def Let_def)
  have p: "payee_ok (GetMNPayee ?env 299999)" "payee_ok (GetMNPayee_Lite ?env 299999)" by (simp_all add: payee_ok_def example_pay_env_def)
  obtain outs where o: "GetBlockTxOuts ?env 300000 (76 * COIN) = Some outs" "mn = outs"
    using t(3) by (simp add: GetBlockTxOuts_def example_pay_env_def Let_def split: option.splits)
  have s: "sum_list (map nValue mn) = 3840000000" "\<forall>txout \<in> set mn. 0 < nValue txout"
    using GetBlockTxOuts_total [OF o(1)] m p o(2) by simp_all
  have b: "sbs = [\<lparr>nValue = 1000 * COIN, scriptPubKey = [0x54]\<rparr>]"
    using t(5) example_triggered [of True] example_best [of True example_gov] by (auto simp: GetSuperblockPayments_def example_superblock_def)
  have le: "nValue txout \<le> 3840000000" if "txout \<in> set mn" for txout
  proof -
    have "\<And>x. x \<in> set (map nValue mn) \<Longrightarrow> 0 \<le> x" using s(2) by (auto dest: less_imp_le)
    then show ?thesis using member_le_sum_list [of "nValue txout" "map nValue mn"] s(1) that by (metis image_eqI list.set_map)
  qed
  have v: "GetValueOut tx' = Ok (1076 * COIN)"
    using t(1,2) vo s b le unfolding GetValueOut_sum by (fastforce simp: MoneyRange_def less_imp_le)
  have x: "\<not> isExtraFundAllocationHeight (pe_is_main ?env) mainnet_params 300000" by (simp add: isExtraFundAllocationHeight_def example_pay_env_def)
  have "\<exists>g''. IsBlockPayeeValid ?env tx' 300000 (76 * COIN + 0) g' = Ok (True, g'')"
    by (rule FillBlockPayments_accepted [OF f ne, of "1076 * COIN" 0, THEN conjunct2, THEN conjunct2])
      (use m p b v x vo example_pay_limit(1) in \<open>simp_all add: mainnet_pay_params\<close>)
  then obtain g'' where "IsBlockPayeeValid ?env tx' 300000 (76 * COIN) g' = Ok (True, g'')" by auto
  with f s(1) show ?thesis by blast
qed

end
