(* ===== verification/Connect.thy ===== *)
theory Connect
  imports Block_Check Payments
begin

text \<open>
  Connecting and disconnecting blocks (\<^verbatim>\<open>validation.cpp\<close>: \<^verbatim>\<open>UpdateCoins\<close>, \<^verbatim>\<open>CheckInputs\<close>, \<^verbatim>\<open>ConnectBlock\<close>,
  \<^verbatim>\<open>ApplyTxInUndo\<close>, \<^verbatim>\<open>DisconnectBlock\<close>, and \<^verbatim>\<open>AddCoins\<close> and \<^verbatim>\<open>AccessByTxid\<close> of \<^verbatim>\<open>coins.cpp\<close>) on the layered
  cache of coins.  The special transactions, instant send locks, writing to the disk and the cache of verified scripts
  are parameters; the optional indexes are left out.  The lemmas give the effect of each operation on the set of coins that the
  top cache shows; the theorems say that undoing a block restores the coins, that every spend has been checked,
  and that a block creates no more coins than it may.
\<close>

section \<open>Updating the coins\<close>

primrec add_coins :: "uint256 \<Rightarrow> int \<Rightarrow> bool \<Rightarrow> bool \<Rightarrow> nat \<Rightarrow> CTxOut list \<Rightarrow> coins_state \<Rightarrow> coins_state outcome" where
  "add_coins txid height fCoinbase check_for_overwrite i [] s = Ok s"
| "add_coins txid height fCoinbase check_for_overwrite i (txout # outs) s =
     (let k = COutPoint txid (word_of_nat i);
          (overwrite, s) = (if check_for_overwrite then HaveCoin k s else (fCoinbase, s))
      in obind (AddCoin k (Coin_of txout height fCoinbase) overwrite s) (add_coins txid height fCoinbase check_for_overwrite (i + 1) outs))"

definition AddCoins :: "crypto \<Rightarrow> CTransaction \<Rightarrow> int \<Rightarrow> bool \<Rightarrow> coins_state \<Rightarrow> coins_state outcome" where
  "AddCoins C tx height check_for_overwrite s = add_coins (ComputeHash C tx) height (IsCoinBase tx) check_for_overwrite 0 (vout tx) s"

primrec spend_inputs :: "CTxIn list \<Rightarrow> coins_state \<Rightarrow> (Coin list \<times> coins_state) outcome" where
  "spend_inputs [] s = Ok ([], s)"
| "spend_inputs (txin # ins) s =
     (case SpendCoin (prevout txin) s of
        (None, s) \<Rightarrow> Abort
      | (Some c, s) \<Rightarrow> obind (spend_inputs ins s) (\<lambda>(vprevout, s). Ok (c # vprevout, s)))"

definition UpdateCoins :: "crypto \<Rightarrow> CTransaction \<Rightarrow> int \<Rightarrow> coins_state \<Rightarrow> (Coin list \<times> coins_state) outcome" where
  "UpdateCoins C tx height s =
     obind (if IsCoinBase tx then Ok ([], s) else spend_inputs (vin tx) s) (\<lambda>(vprevout, s).
       obind (AddCoins C tx height False s) (\<lambda>s. Ok (vprevout, s)))"

section \<open>Undoing a block\<close>

text \<open>\<^verbatim>\<open>AccessByTxid\<close> looks for an unspent output of a transaction; \<^verbatim>\<open>n\<close> is the number of outputs left to try.\<close>

abbreviation (input) MAX_OUTPUTS_PER_BLOCK :: nat where "MAX_OUTPUTS_PER_BLOCK \<equiv> 2000000 div 9"

primrec access_by_txid :: "uint256 \<Rightarrow> nat \<Rightarrow> nat \<Rightarrow> coins_state \<Rightarrow> Coin \<times> coins_state" where
  "access_by_txid txid i 0 s = (Coin_null, s)"
| "access_by_txid txid i (Suc n) s =
     (let (alternate, s) = AccessCoin (COutPoint txid (word_of_nat i)) s
      in if \<not> IsSpent alternate then (alternate, s) else access_by_txid txid (i + 1) n s)"

definition AccessByTxid :: "uint256 \<Rightarrow> coins_state \<Rightarrow> Coin \<times> coins_state" where
  "AccessByTxid txid s = access_by_txid txid 0 MAX_OUTPUTS_PER_BLOCK s"

datatype DisconnectResult = DISCONNECT_OK | DISCONNECT_UNCLEAN | DISCONNECT_FAILED

definition ApplyTxInUndo :: "Coin \<Rightarrow> COutPoint \<Rightarrow> coins_state \<Rightarrow> (DisconnectResult \<times> coins_state) outcome" where
  "ApplyTxInUndo undo k s =
     (let (have, s) = HaveCoin k s; fClean = \<not> have;
          (alternate, s) = (if coin_nHeight undo = 0 then AccessByTxid (out_hash k) s else (undo, s))
      in if coin_nHeight undo = 0 \<and> IsSpent alternate then Ok (DISCONNECT_FAILED, s)
         else let undo = undo\<lparr>coin_nHeight := coin_nHeight alternate, fCoinBase := fCoinBase alternate\<rparr>
              in obind (AddCoin k undo (\<not> fClean) s) (\<lambda>s. Ok (if fClean then DISCONNECT_OK else DISCONNECT_UNCLEAN, s)))"

text \<open>The outputs of a transaction are taken out of the view; the flag tells whether they were as expected.\<close>

primrec remove_outputs :: "uint256 \<Rightarrow> int \<Rightarrow> bool \<Rightarrow> nat \<Rightarrow> CTxOut list \<Rightarrow> bool \<Rightarrow> coins_state \<Rightarrow> bool \<times> coins_state" where
  "remove_outputs hash height is_coinbase i [] fClean s = (fClean, s)"
| "remove_outputs hash height is_coinbase i (txout # outs) fClean s =
     (if IsUnspendable (scriptPubKey txout) then remove_outputs hash height is_coinbase (i + 1) outs fClean s
      else let (r, s) = SpendCoin (COutPoint hash (word_of_nat i)) s;
               mismatch = (case r of None \<Rightarrow> True
                 | Some c \<Rightarrow> txout \<noteq> out c \<or> height \<noteq> int (unat (coin_nHeight c)) \<or> is_coinbase \<noteq> fCoinBase c)
           in remove_outputs hash height is_coinbase (i + 1) outs (if mismatch then False else fClean) s)"

text \<open>The inputs are restored from the last one to the first; the lists are given in that order.\<close>

fun restore_inputs :: "(CTxIn \<times> Coin) list \<Rightarrow> bool \<Rightarrow> coins_state \<Rightarrow> (DisconnectResult \<times> bool \<times> coins_state) outcome" where
  "restore_inputs [] fClean s = Ok (DISCONNECT_OK, fClean, s)"
| "restore_inputs ((txin, undo) # rest) fClean s =
     obind (ApplyTxInUndo undo (prevout txin) s) (\<lambda>(res, s).
       if res = DISCONNECT_FAILED then Ok (DISCONNECT_FAILED, fClean, s)
       else restore_inputs rest (fClean \<and> res \<noteq> DISCONNECT_UNCLEAN) s)"

text \<open>
  The loop over the transactions, from the last one to the first; \<^verbatim>\<open>n\<close> transactions are left, and the last of them is undone first.
\<close>

primrec undo_txs :: "crypto \<Rightarrow> CTransaction list \<Rightarrow> Coin list list \<Rightarrow> int \<Rightarrow> nat \<Rightarrow> bool \<Rightarrow> coins_state \<Rightarrow> (DisconnectResult \<times> bool \<times> coins_state) outcome" where
  "undo_txs C txs vtxundo height 0 fClean s = Ok (DISCONNECT_OK, fClean, s)"
| "undo_txs C txs vtxundo height (Suc i) fClean s =
     (let tx = txs ! i; (fClean, s) = remove_outputs (ComputeHash C tx) height (IsCoinBase tx) 0 (vout tx) fClean s
      in if i > 0
         then let vprevout = vtxundo ! (i - 1)
              in if length vprevout \<noteq> length (vin tx) then Ok (DISCONNECT_FAILED, fClean, s)
                 else obind (restore_inputs (rev (zip (vin tx) vprevout)) fClean s) (\<lambda>(res, fClean, s).
                        if res = DISCONNECT_FAILED then Ok (DISCONNECT_FAILED, fClean, s)
                        else undo_txs C txs vtxundo height i fClean s)
         else undo_txs C txs vtxundo height i fClean s)"

text \<open>
  \<^verbatim>\<open>DisconnectBlock\<close> on the coins.  The arguments tell whether the database of the masternodes is at the block, what reading the
  undo data gave, whether the special transactions could be undone, and the block hashes; the optional address and spent
  indexes are left out.
\<close>

definition DisconnectBlock :: "crypto \<Rightarrow> bool \<Rightarrow> Coin list list option \<Rightarrow> bool \<Rightarrow> CBlock \<Rightarrow> int \<Rightarrow> uint256 \<Rightarrow> coins_state \<Rightarrow> (DisconnectResult \<times> coins_state) outcome" where
  "DisconnectBlock C evo_consistent blockUndo specials_undone block height hashPrev s =
     (if \<not> evo_consistent then Ok (DISCONNECT_FAILED, s)
      else case blockUndo of
        None \<Rightarrow> Ok (DISCONNECT_FAILED, s)
      | Some vtxundo \<Rightarrow>
          if length vtxundo + 1 \<noteq> length (vtx block) then Ok (DISCONNECT_FAILED, s)
          else if \<not> specials_undone then Ok (DISCONNECT_FAILED, s)
          else obind (undo_txs C (vtx block) vtxundo height (length (vtx block)) True s) (\<lambda>(res, fClean, s).
                 if res = DISCONNECT_FAILED then Ok (DISCONNECT_FAILED, s)
                 else Ok (if fClean then DISCONNECT_OK else DISCONNECT_UNCLEAN, SetBestBlock hashPrev s)))"

section \<open>Connecting the transactions of a block\<close>

definition sbind :: "('e + 'a) outcome \<Rightarrow> ('a \<Rightarrow> ('e + 'b) outcome) \<Rightarrow> ('e + 'b) outcome" where
  "sbind r f = obind r (\<lambda>x. case x of Inl e \<Rightarrow> Ok (Inl e) | Inr y \<Rightarrow> f y)"

abbreviation (input) SCRIPT_DIP0020 :: u32 where "SCRIPT_DIP0020 \<equiv> SCRIPT_ENABLE_DIP0020_OPCODES"
abbreviation (input) REJECT_NONSTANDARD :: nat where "REJECT_NONSTANDARD \<equiv> 0x40"

definition MANDATORY_SCRIPT_VERIFY_FLAGS :: u32 where "MANDATORY_SCRIPT_VERIFY_FLAGS = SCRIPT_VERIFY_P2SH"

definition STANDARD_SCRIPT_VERIFY_FLAGS :: u32 where
  "STANDARD_SCRIPT_VERIFY_FLAGS = MANDATORY_SCRIPT_VERIFY_FLAGS OR SCRIPT_VERIFY_DERSIG OR SCRIPT_VERIFY_STRICTENC OR SCRIPT_VERIFY_MINIMALDATA OR
     SCRIPT_VERIFY_NULLDUMMY OR SCRIPT_VERIFY_DISCOURAGE_UPGRADABLE_NOPS OR SCRIPT_VERIFY_CLEANSTACK OR SCRIPT_VERIFY_NULLFAIL OR
     SCRIPT_VERIFY_CHECKLOCKTIMEVERIFY OR SCRIPT_VERIFY_CHECKSEQUENCEVERIFY OR SCRIPT_VERIFY_LOW_S OR SCRIPT_ENABLE_DIP0020_OPCODES OR
     SCRIPT_VERIFY_CONST_SCRIPTCODE"

definition STANDARD_NOT_MANDATORY_VERIFY_FLAGS :: u32 where
  "STANDARD_NOT_MANDATORY_VERIFY_FLAGS = STANDARD_SCRIPT_VERIFY_FLAGS AND NOT MANDATORY_SCRIPT_VERIFY_FLAGS"

text \<open>
  The surroundings: the cryptographic functions, the formatting of messages and script errors, the
  script execution cache as the pairs of transaction id and flags that it contains (which transactions were entered, by the
  memory pool and by earlier trials, is not modelled), whether scripts are checked by other threads,
  the hash of the block that is assumed to be valid and the least work of a chain, the state of the masternode database, the checks
  of special transactions and of instant send locks (a conflicting lock that no chain lock overrides), and writing the undo data
  (the position, or the state on failure) and the optional indexes (the message of a failure).
\<close>

record connect_env =
  cn_crypto :: crypto
  cn_fmt :: "string \<Rightarrow> int list \<Rightarrow> string"
  cn_error_string :: "script_error \<Rightarrow> string"
  cn_cached :: "uint256 \<Rightarrow> u32 \<Rightarrow> bool"
  cn_parallel :: bool
  hashAssumeValid :: uint256
  cn_nMinimumChainWork :: u256
  evo_VerifyBestBlock :: "uint256 \<Rightarrow> bool"
  ProcessSpecialTxsInBlock :: "CBlock \<Rightarrow> bool \<Rightarrow> bool \<Rightarrow> CValidationState \<Rightarrow> bool \<times> CValidationState"
  conflicting_lock :: "CTransaction \<Rightarrow> bool"
  cn_write_undo :: "Coin list list \<Rightarrow> CValidationState \<Rightarrow> CValidationState + u32"
  cn_write_indexes :: "string option"

definition script_check :: "crypto \<Rightarrow> CTransaction \<Rightarrow> nat \<Rightarrow> u32 \<Rightarrow> script \<Rightarrow> unit outcome" where
  "script_check C tx i flags scriptPubKey' = VerifyScript C (TransactionSignatureChecker C tx i) flags (scriptSig (vin tx ! i)) scriptPubKey'"

text \<open>The checks that are not run at once are the last result.\<close>

primrec check_scripts :: "connect_env \<Rightarrow> CTransaction \<Rightarrow> u32 \<Rightarrow> nat \<Rightarrow> CTxIn list \<Rightarrow> CValidationState \<Rightarrow> coins_state \<Rightarrow>
    (CValidationState + unit outcome list \<times> coins_state) outcome" where
  "check_scripts env tx flags i [] state s = Ok (Inr ([], s))"
| "check_scripts env tx flags i (txin # ins) state s =
     (let (c, s) = AccessCoin (prevout txin) s; check = script_check (cn_crypto env) tx i flags (scriptPubKey (out c))
      in if IsSpent c then Abort
         else if cn_parallel env
         then sbind (check_scripts env tx flags (i + 1) ins state s) (\<lambda>(queue, s). Ok (Inr (check # queue, s)))
         else case check of
                Ok _ \<Rightarrow> check_scripts env tx flags (i + 1) ins state s
              | Throw \<Rightarrow> Throw
              | Abort \<Rightarrow> Abort
              | Fail e \<Rightarrow>
                  let failed = Ok (Inl (snd (Invalid CONSENSUS False REJECT_INVALID (''mandatory-script-verify-flag-failed ('' @ cn_error_string env e @ '')'') [] state)))
                  in if flags AND STANDARD_NOT_MANDATORY_VERIFY_FLAGS \<noteq> 0 \<or> flags AND SCRIPT_DIP0020 = 0
                     then case script_check (cn_crypto env) tx i ((flags AND NOT STANDARD_NOT_MANDATORY_VERIFY_FLAGS) OR SCRIPT_DIP0020) (scriptPubKey (out c)) of
                            Ok _ \<Rightarrow> Ok (Inl (snd (Invalid TX_NOT_STANDARD False REJECT_NONSTANDARD
                                     (''non-mandatory-script-verify-flag ('' @ cn_error_string env e @ '')'') [] state)))
                          | Throw \<Rightarrow> Throw
                          | Abort \<Rightarrow> Abort
                          | Fail _ \<Rightarrow> failed
                     else failed)"

definition CheckInputs :: "connect_env \<Rightarrow> CTransaction \<Rightarrow> bool \<Rightarrow> u32 \<Rightarrow> CValidationState \<Rightarrow> coins_state \<Rightarrow>
    (CValidationState + unit outcome list \<times> coins_state) outcome" where
  "CheckInputs env tx fScriptChecks flags state s =
     (if IsCoinBase tx \<or> \<not> fScriptChecks \<or> cn_cached env (ComputeHash (cn_crypto env) tx) flags then Ok (Inr ([], s))
      else check_scripts env tx flags 0 (vin tx) state s)"

primrec prev_heights :: "CTxIn list \<Rightarrow> coins_state \<Rightarrow> int list \<times> coins_state" where
  "prev_heights [] s = ([], s)"
| "prev_heights (txin # ins) s =
     (let (c, s) = AccessCoin (prevout txin) s; (hs, s) = prev_heights ins s in (int (unat (coin_nHeight c)) # hs, s))"

text \<open>
  What the loop over the transactions changes: the view, the undo data, the fees, the count of signature operations and
  the queued script checks.  A result on the left is the state with which the function returns false.
\<close>

record connect_state =
  cs_view :: coins_state
  cs_undo :: "Coin list list"
  cs_fees :: int
  cs_sigops :: u32
  cs_queue :: "unit outcome list"

definition connect_inputs :: "connect_env \<Rightarrow> store \<Rightarrow> ptr \<Rightarrow> u32 \<Rightarrow> CTransaction \<Rightarrow> CValidationState \<Rightarrow> connect_state \<Rightarrow> (CValidationState + connect_state) outcome" where
  "connect_inputs env h pindex nLockTimeFlags tx state st =
     (let (r, view) = CheckTxInputs (cn_fmt env) tx (nHeight (h pindex)) state (cs_view st)
      in obind r (\<lambda>((ok, state), fee).
        if \<not> ok then Ok (Inl (if IsBlockReason (m_reason state) then state
                              else snd (Invalid CONSENSUS False (chRejectCode state) (strRejectReason state) (strDebugMessage state) state)))
        else let nFees = cs_fees st + the fee
        in if \<not> MoneyRange nFees then Ok (Inl (snd (Invalid CONSENSUS False REJECT_INVALID ''bad-txns-accumulated-fee-outofrange'' [] state)))
        else let (prevheights, view) = prev_heights (vin tx) view
        in obind (SequenceLocks h tx nLockTimeFlags prevheights pindex) (\<lambda>final.
             if \<not> final then Ok (Inl (snd (Invalid CONSENSUS False REJECT_INVALID ''bad-txns-nonfinal'' [] state)))
             else Ok (Inr (st\<lparr>cs_view := view, cs_fees := nFees\<rparr>)))))"

definition connect_tx :: "connect_env \<Rightarrow> store \<Rightarrow> ptr \<Rightarrow> u32 \<Rightarrow> u32 \<Rightarrow> bool \<Rightarrow> nat \<Rightarrow> CTransaction \<Rightarrow> nat \<Rightarrow> CValidationState \<Rightarrow> connect_state \<Rightarrow>
    (CValidationState + connect_state) outcome" where
  "connect_tx env h pindex nLockTimeFlags flags fScriptChecks max_sigops tx i state st =
     sbind (if IsCoinBase tx then Ok (Inr st) else connect_inputs env h pindex nLockTimeFlags tx state st) (\<lambda>st.
     obind (GetTransactionSigOpCount tx flags (cs_view st)) (\<lambda>(n, view).
       let nSigOps = cs_sigops st + n
       in if unat nSigOps > max_sigops then Ok (Inl (snd (Invalid CONSENSUS False REJECT_INVALID ''bad-blk-sigops'' [] state)))
          else sbind (case (if IsCoinBase tx then Ok (Inr ([], view)) else CheckInputs env tx fScriptChecks flags state view) of
                 Ok (Inl state) \<Rightarrow> Ok (Inl (if m_reason state = TX_NOT_STANDARD
                    then snd (Invalid CONSENSUS False (chRejectCode state) (strRejectReason state) (strDebugMessage state) state) else state))
               | r \<Rightarrow> r) (\<lambda>(queue, view).
          obind (UpdateCoins (cn_crypto env) tx (nHeight (h pindex)) view) (\<lambda>(undo, view).
            Ok (Inr (st\<lparr>cs_view := view, cs_sigops := nSigOps, cs_queue := cs_queue st @ queue,
              cs_undo := (if i > 0 then cs_undo st @ [undo] else cs_undo st)\<rparr>))))))"

primrec connect_txs :: "connect_env \<Rightarrow> store \<Rightarrow> ptr \<Rightarrow> u32 \<Rightarrow> u32 \<Rightarrow> bool \<Rightarrow> nat \<Rightarrow> CTransaction list \<Rightarrow> nat \<Rightarrow> CValidationState \<Rightarrow> connect_state \<Rightarrow>
    (CValidationState + connect_state) outcome" where
  "connect_txs env h pindex nLockTimeFlags flags fScriptChecks max_sigops [] i state st = Ok (Inr st)"
| "connect_txs env h pindex nLockTimeFlags flags fScriptChecks max_sigops (tx # txs) i state st =
     sbind (connect_tx env h pindex nLockTimeFlags flags fScriptChecks max_sigops tx i state st)
       (connect_txs env h pindex nLockTimeFlags flags fScriptChecks max_sigops txs (i + 1) state)"

text \<open>The test of BIP 30 before the loop: true if an output would be overwritten.\<close>

primrec overwrites :: "COutPoint list \<Rightarrow> coins_state \<Rightarrow> bool \<times> coins_state" where
  "overwrites [] s = (False, s)"
| "overwrites (k # ks) s = (let (have, s) = HaveCoin k s in if have then (True, s) else overwrites ks s)"

definition out_points :: "crypto \<Rightarrow> CTransaction \<Rightarrow> COutPoint list" where
  "out_points C tx = map (\<lambda>o'. COutPoint (ComputeHash C tx) (word_of_nat o')) [0..<length (vout tx)]"

section \<open>Connecting a block\<close>

abbreviation (input) BLOCK_HAVE_UNDO :: u32 where "BLOCK_HAVE_UNDO \<equiv> 16"
abbreviation (input) DEPLOYMENT_BIP147 :: nat where "DEPLOYMENT_BIP147 \<equiv> 3"

definition GetBlockScriptFlags :: "store \<Rightarrow> ptr \<Rightarrow> Params \<Rightarrow> VersionBitsCache \<Rightarrow> (u32 \<times> VersionBitsCache) outcome option" where
  "GetBlockScriptFlags h pindex params caches =
     (let flags = (if GetBlockTime (h pindex) \<ge> 1333238400 then SCRIPT_VERIFY_P2SH else 0);
          flags = (if nHeight (h pindex) \<ge> BIP66Height params then flags OR SCRIPT_VERIFY_DERSIG else flags);
          flags = (if nHeight (h pindex) \<ge> BIP65Height params then flags OR SCRIPT_VERIFY_CHECKLOCKTIMEVERIFY else flags)
      in after_loop (VersionBitsState h (pprev (h pindex)) params DEPLOYMENT_CSV caches) (\<lambda>(csv, caches).
         let flags = (if csv = ACTIVE then flags OR SCRIPT_VERIFY_CHECKSEQUENCEVERIFY else flags)
         in after_loop (VersionBitsState h (pprev (h pindex)) params DEPLOYMENT_BIP147 caches) (\<lambda>(bip147, caches).
            let flags = (if bip147 = ACTIVE then flags OR SCRIPT_VERIFY_NULLDUMMY else flags)
            in case pprev (h pindex) of
                 None \<Rightarrow> Some Abort
               | Some q \<Rightarrow> Some (Ok (if nHeight (h q) \<ge> BRRHeight params then flags OR SCRIPT_ENABLE_DIP0020_OPCODES else flags, caches)))))"

text \<open>Whether the scripts of a block are checked: not below the block that is assumed to be valid.\<close>

definition script_checks_needed :: "connect_env \<Rightarrow> Params \<Rightarrow> HeaderManager \<Rightarrow> ptr \<Rightarrow> bool outcome" where
  "script_checks_needed env params hm pindex =
     (let h = hm_store hm
      in if uint256_IsNull (hashAssumeValid env) then Ok True
         else case m_block_index (hm_index hm) (hashAssumeValid env) of
           None \<Rightarrow> Ok True
         | Some it \<Rightarrow>
             obind (GetAncestor h it (nHeight (h pindex))) (\<lambda>a.
               if a \<noteq> Some pindex then Ok True
               else case pindexBestHeader (hm_index hm) of
                 None \<Rightarrow> Abort
               | Some tip \<Rightarrow>
                   obind (GetAncestor h tip (nHeight (h pindex))) (\<lambda>b.
                     if b \<noteq> Some pindex \<or> bu_less (nChainWork (h tip)) (cn_nMinimumChainWork env) then Ok True
                     else obind (GetBlockProofEquivalentTime (h tip) (h pindex) (h tip) params) (\<lambda>t. Ok (t \<le> 60 * 60 * 24 * 7 * 2)))))"

definition enforce_BIP30 :: "Params \<Rightarrow> store \<Rightarrow> ptr \<Rightarrow> ptr \<Rightarrow> bool outcome" where
  "enforce_BIP30 params h pindex prev =
     (let b = h pindex;
          fEnforceBIP30 = \<not> (nHeight b = 91842 \<and> phashBlock b = uint256S ''0x00000000000a4d0a398161ffc163c503763b1f4360639393e0e4c8e300e0caec'' \<or>
                             nHeight b = 91880 \<and> phashBlock b = uint256S ''0x00000000000743f190a18c5577a3c2d2a1f610ae9601ac046a38084ccb7cd721'')
      in obind (GetAncestor h prev (BIP34Height params)) (\<lambda>a.
           Ok (fEnforceBIP30 \<and> (case a of None \<Rightarrow> True | Some q \<Rightarrow> phashBlock (h q) \<noteq> BIP34Hash params))))"

text \<open>
  The transactions: the test of BIP 30, the special transactions, the loop, and waiting for the queued checks.  A check that throws or
  aborts in another thread ends the program.
\<close>

definition connect_transactions :: "connect_env \<Rightarrow> store \<Rightarrow> ptr \<Rightarrow> u32 \<Rightarrow> u32 \<Rightarrow> bool \<Rightarrow> bool \<Rightarrow> nat \<Rightarrow> CBlock \<Rightarrow> CValidationState \<Rightarrow> coins_state \<Rightarrow>
    (CValidationState + CValidationState \<times> connect_state) outcome" where
  "connect_transactions env h pindex nLockTimeFlags flags fScriptChecks fJustCheck max_sigops block state s =
     (let (ok, state) = ProcessSpecialTxsInBlock env block fJustCheck fScriptChecks state
      in if \<not> ok then Ok (Inl state)
         else sbind (connect_txs env h pindex nLockTimeFlags flags fScriptChecks max_sigops (vtx block) 0 state
                \<lparr>cs_view = s, cs_undo = [], cs_fees = 0, cs_sigops = 0, cs_queue = []\<rparr>) (\<lambda>st.
              if list_ex (\<lambda>r. r = Throw \<or> r = Abort) (cs_queue st) then Abort
              else if \<not> list_all (\<lambda>r. r = Ok ()) (cs_queue st)
              then Ok (Inl (snd (Invalid CONSENSUS False REJECT_INVALID ''block-validation-failed'' [] state)))
              else Ok (Inr (state, st))))"

text \<open>What is checked after the transactions: instant send, the value of the block and its payees.\<close>

definition block_reward :: "payment_env \<Rightarrow> int \<Rightarrow> int \<Rightarrow> int \<Rightarrow> int" where
  "block_reward penv prev_height height nFees =
     (let blockReward = nFees + GetBlockSubsidy prev_height (pe_params penv) False
      in if isExtraFundAllocationHeight (pe_is_main penv) (pe_params penv) height then blockReward + GetExtraPayOutAmount height else blockReward)"

definition check_payments :: "connect_env \<Rightarrow> payment_env \<Rightarrow> CBlock \<Rightarrow> int \<Rightarrow> int \<Rightarrow> governance \<Rightarrow> CValidationState \<Rightarrow> (CValidationState + governance) outcome" where
  "check_payments env penv block height blockReward g state =
     (if list_ex (\<lambda>tx. vin tx \<noteq> [] \<and> conflicting_lock env tx) (vtx block)
      then Ok (Inl (snd (Invalid TX_CONFLICT_LOCK False REJECT_INVALID ''conflict-tx-lock'' [] state)))
      else obind (IsBlockValueValid penv block height blockReward g) (\<lambda>(ok, g).
        if \<not> ok then Ok (Inl (snd (Invalid REASON_NONE False REJECT_INVALID ''bad-cb-amount'' [] state)))
        else obind (IsBlockPayeeValid penv (vtx block ! 0) height blockReward g) (\<lambda>(ok, g).
          if \<not> ok then Ok (Inl (snd (Invalid REASON_NONE False REJECT_INVALID ''bad-cb-payee'' [] state)))
          else Ok (Inr g))))"

text \<open>What a successful call leaves: the state, the view, the undo data if it was written, the index entry of the block, the caches and the governance data.\<close>

record connected =
  cd_state :: CValidationState
  cd_view :: coins_state
  cd_undo :: "Coin list list option"
  cd_index :: CBlockIndex
  cd_caches :: VersionBitsCache
  cd_gov :: governance

definition write_block :: "connect_env \<Rightarrow> CBlockIndex \<Rightarrow> uint256 \<Rightarrow> connect_state \<Rightarrow> VersionBitsCache \<Rightarrow> governance \<Rightarrow> CValidationState \<Rightarrow> (CValidationState + connected) outcome" where
  "write_block env b block_hash st caches g state =
     (let has_undo = (nStatus b AND BLOCK_HAVE_UNDO \<noteq> 0)
      in sbind (if has_undo then Ok (Inr b)
                else case cn_write_undo env (cs_undo st) state of
                       Inl state \<Rightarrow> Ok (Inl state)
                     | Inr pos \<Rightarrow> Ok (Inr (b\<lparr>nUndoPos := pos, nStatus := nStatus b OR BLOCK_HAVE_UNDO\<rparr>))) (\<lambda>b.
         obind (IsValid BLOCK_VALID_SCRIPTS b) (\<lambda>valid.
         obind (if valid then Ok (False, b) else RaiseValidity BLOCK_VALID_SCRIPTS b) (\<lambda>(_, b).
           case cn_write_indexes env of
             Some msg \<Rightarrow> Ok (Inl (snd (ValidationError msg state)))
           | None \<Rightarrow> Ok (Inr \<lparr>cd_state = state, cd_view = SetBestBlock block_hash (cs_view st), cd_undo = (if has_undo then None else Some (cs_undo st)),
               cd_index = b, cd_caches = caches, cd_gov = g\<rparr>)))))"

text \<open>After the checks that come first: everything from the test of BIP 30 on, for a block that has a predecessor.\<close>

definition connect_checked :: "connect_env \<Rightarrow> header_env \<Rightarrow> payment_env \<Rightarrow> HeaderManager \<Rightarrow> CBlock \<Rightarrow> ptr \<Rightarrow> ptr \<Rightarrow> bool \<Rightarrow> bool \<Rightarrow> VersionBitsCache \<Rightarrow> governance \<Rightarrow>
    CValidationState \<Rightarrow> coins_state \<Rightarrow> (CValidationState + connected) outcome option" where
  "connect_checked env henv penv hm block pindex prev fScriptChecks fJustCheck caches g state s =
     (let h = hm_store hm; params = env_consensus henv; b = h pindex; block_hash = env_GetHash henv (CBlockHeader.truncate block)
      in case enforce_BIP30 params h pindex prev of
           Ok fEnforceBIP30 \<Rightarrow>
             let (over, s) = (if fEnforceBIP30 then overwrites (concat (map (out_points (cn_crypto env)) (vtx block))) s else (False, s))
             in if over then Some (Ok (Inl (snd (Invalid CONSENSUS False REJECT_INVALID ''bad-txns-BIP30'' [] state))))
                else if nHeight b = nSuperblockStartBlock params \<and> nSuperblockStartHash params \<noteq> uint256_null \<and> block_hash \<noteq> nSuperblockStartHash params
                then Some (Ok (Inl (snd (Invalid CONSENSUS False REJECT_INVALID ''bad-sb-start'' [] state))))
                else after_loop (VersionBitsState h (Some prev) params DEPLOYMENT_CSV caches) (\<lambda>(csv, caches).
                  let nLockTimeFlags = (if csv = ACTIVE then LOCKTIME_VERIFY_SEQUENCE else 0)
                  in after_loop (GetBlockScriptFlags h pindex params caches) (\<lambda>(flags, caches). Some (
                    sbind (connect_transactions env h pindex nLockTimeFlags flags fScriptChecks fJustCheck
                             (MaxBlockSigOps (nHeight b \<ge> DIP0001Height params)) block state s) (\<lambda>(state, st).
                    sbind (check_payments env penv block (nHeight b) (block_reward penv (nHeight (h prev)) (nHeight b) (cs_fees st)) g state) (\<lambda>g.
                      if fJustCheck
                      then Ok (Inr \<lparr>cd_state = state, cd_view = cs_view st, cd_undo = None, cd_index = b, cd_caches = caches, cd_gov = g\<rparr>)
                      else write_block env b block_hash st caches g state)))))
         | Fail e \<Rightarrow> Some (Fail e) | Throw \<Rightarrow> Some Throw | Abort \<Rightarrow> Some Abort)"

definition ConnectBlock :: "connect_env \<Rightarrow> header_env \<Rightarrow> payment_env \<Rightarrow> HeaderManager \<Rightarrow> CBlock \<Rightarrow> bool \<Rightarrow> ptr \<Rightarrow> bool \<Rightarrow> VersionBitsCache \<Rightarrow> governance \<Rightarrow>
    CValidationState \<Rightarrow> coins_state \<Rightarrow> (CValidationState + connected) outcome option" where
  "ConnectBlock env henv penv hm block fChecked pindex fJustCheck caches g state s =
     (let h = hm_store hm; params = env_consensus henv; b = h pindex; block_hash = env_GetHash henv (CBlockHeader.truncate block)
      in if phashBlock b \<noteq> block_hash then Some Abort
         else after_loop (Some (CheckBlock henv (cn_crypto env) block fChecked (\<not> fJustCheck) (\<not> fJustCheck) state)) (\<lambda>((ok, state), _).
           if \<not> ok
           then Some (Ok (Inl (if m_reason state = BLOCK_MUTATED
                               then snd (ValidationError ''Corrupt block found indicating potential hardware failure; shutting down'' state) else state)))
           else if pprev b \<noteq> None \<and> HasConflictingChainLock henv (nHeight b) (phashBlock b)
           then Some (Ok (Inl (snd (Invalid BLOCK_CHAINLOCK False REJECT_INVALID ''bad-chainlock'' [] state))))
           else let hashPrevBlock = (case pprev b of None \<Rightarrow> uint256_null | Some q \<Rightarrow> phashBlock (h q)); (best_block, s) = coins_GetBestBlock s
                in if hashPrevBlock \<noteq> best_block then Some Abort
                   else if pprev b \<noteq> None \<and> nHeight b \<ge> DIP0003Height params \<and> \<not> evo_VerifyBestBlock env hashPrevBlock
                   then Some (Ok (Inl (snd (ValidationError ''Found EvoDB inconsistency, you must reindex to continue'' state))))
                   else if block_hash = hashGenesisBlock params
                   then Some (Ok (Inr \<lparr>cd_state = state, cd_view = (if fJustCheck then s else SetBestBlock (phashBlock b) s), cd_undo = None, cd_index = b,
                          cd_caches = caches, cd_gov = g\<rparr>))
                   else after_loop (Some (script_checks_needed env params hm pindex)) (\<lambda>fScriptChecks.
                     case pprev b of
                       None \<Rightarrow> Some Abort
                     | Some prev \<Rightarrow> connect_checked env henv penv hm block pindex prev fScriptChecks fJustCheck caches g state s)))"

section \<open>What the operations do to the coins\<close>

text \<open>The state shows other coins in its top view, and is otherwise the same.\<close>

definition shows_coins :: "utxo \<Rightarrow> coins_state \<Rightarrow> coins_state \<Rightarrow> bool" where
  "shows_coins U s s' \<longleftrightarrow> coins_valid s' \<and> coins_views s' = (U, snd (hd (coins_views s))) # tl (coins_views s)"

lemma shows_coinsD: "shows_coins U s s' \<Longrightarrow> coins_valid s'" "shows_coins U s s' \<Longrightarrow> coins s' = U"
  by (simp_all add: shows_coins_def coins_def)

lemma shows_coins_trans: "shows_coins U s s' \<Longrightarrow> shows_coins V s' s'' \<Longrightarrow> shows_coins V s s''"
  by (simp add: shows_coins_def)

lemma shows_coins_same: "same_view s s' \<Longrightarrow> shows_coins (coins s) s s'"
  using coins_views_hd [of s] by (simp add: shows_coins_def same_view_def)

lemma shows_coins_views: "shows_coins (coins s) s s' \<Longrightarrow> coins_views s' = coins_views s"
  using coins_views_hd [of s] by (simp add: shows_coins_def)

lemma AddCoin_top:
  assumes "coins_valid s" "\<not> IsSpent x" "possible_overwrite \<or> coins s k = None"
  obtains s' where "AddCoin k x possible_overwrite s = Ok s'"
    "shows_coins (if IsUnspendable (scriptPubKey (out x)) then coins s else (coins s)(k \<mapsto> x)) s s'"
  using AddCoin_valid [OF assms] by (auto simp: shows_coins_def)

lemma SpendCoin_top:
  assumes "coins_valid s" "coins s k = Some x"
  obtains s' where "SpendCoin k s = (Some x, s')" "shows_coins ((coins s)(k := None)) s s'"
  using SpendCoin_valid [OF assms(1), of k] assms(2) by (auto simp: shows_coins_def)

text \<open>The effect of a transaction on a set of coins.\<close>

primrec add_outs :: "uint256 \<Rightarrow> int \<Rightarrow> bool \<Rightarrow> nat \<Rightarrow> CTxOut list \<Rightarrow> utxo \<Rightarrow> utxo" where
  "add_outs txid height cb i [] U = U"
| "add_outs txid height cb i (txout # outs) U =
     add_outs txid height cb (i + 1) outs (if IsUnspendable (scriptPubKey txout) then U else U(COutPoint txid (word_of_nat i) \<mapsto> Coin_of txout height cb))"

definition spend_ins :: "CTxIn list \<Rightarrow> utxo \<Rightarrow> utxo" where
  "spend_ins ins U = U |` (- set (map prevout ins))"

definition apply_tx :: "crypto \<Rightarrow> int \<Rightarrow> CTransaction \<Rightarrow> utxo \<Rightarrow> utxo" where
  "apply_tx C height tx U = add_outs (ComputeHash C tx) height (IsCoinBase tx) 0 (vout tx) (if IsCoinBase tx then U else spend_ins (vin tx) U)"

definition undo_of :: "utxo \<Rightarrow> CTransaction \<Rightarrow> Coin list" where
  "undo_of U tx = map (\<lambda>txin. the (U (prevout txin))) (vin tx)"

text \<open>A transaction that can be connected to a set of coins.\<close>

definition connectable :: "crypto \<Rightarrow> CTransaction \<Rightarrow> utxo \<Rightarrow> bool" where
  "connectable C tx U \<longleftrightarrow> (\<not> IsCoinBase tx \<longrightarrow> distinct (map prevout (vin tx)) \<and> (\<forall>txin \<in> set (vin tx). U (prevout txin) \<noteq> None)) \<and>
     (\<forall>j < length (vout tx). U (COutPoint (ComputeHash C tx) (word_of_nat j)) = None) \<and> (\<forall>txout \<in> set (vout tx). MoneyRange (nValue txout)) \<and> length (vout tx) \<le> 2 ^ 32"

lemma index_inj: "i < 2 ^ 32 \<Longrightarrow> j < 2 ^ 32 \<Longrightarrow> (word_of_nat i :: u32) = word_of_nat j \<longleftrightarrow> i = j"
  by (simp add: word_unat_eq_iff unat_of_nat take_bit_nat_eq_self)

lemma unspent_Coin_of: "MoneyRange (nValue txout) \<Longrightarrow> \<not> IsSpent (Coin_of txout height cb)"
  by (auto simp: MoneyRange_def IsSpent_def Coin_of_def CTxOut_IsNull_def)

lemma out_Coin_of [simp]: "out (Coin_of txout height cb) = txout" "fCoinBase (Coin_of txout height cb) = cb"
  by (simp_all add: Coin_of_def)

lemma add_coins_top:
  assumes "coins_valid s" "\<forall>txout \<in> set outs. MoneyRange (nValue txout)" "i + length outs \<le> 2 ^ 32"
    "\<forall>j. i \<le> j \<and> j < i + length outs \<longrightarrow> coins s (COutPoint txid (word_of_nat j)) = None"
  shows "\<exists>s'. add_coins txid height cb False i outs s = Ok s' \<and> shows_coins (add_outs txid height cb i outs (coins s)) s s'"
  using assms
proof (induction outs arbitrary: i s)
  case Nil
  then show ?case using shows_coins_same [of s s] by (auto simp: same_view_def)
next
  case (Cons txout outs)
  let ?k = "COutPoint txid (word_of_nat i)" and ?x = "Coin_of txout height cb"
  have free: "coins s ?k = None" using Cons.prems(4) by auto
  obtain s1 where s1: "AddCoin ?k ?x cb s = Ok s1" "shows_coins (if IsUnspendable (scriptPubKey txout) then coins s else (coins s)(?k \<mapsto> ?x)) s s1"
    using AddCoin_top [OF Cons.prems(1) unspent_Coin_of, of txout cb ?k height cb] free Cons.prems(2) by auto
  have "coins s1 (COutPoint txid (word_of_nat j)) = None" if "i + 1 \<le> j" "j < i + 1 + length outs" for j
    using that Cons.prems(3,4) shows_coinsD(2) [OF s1(2)] index_inj [of i j] by auto
  then obtain s2 where "add_coins txid height cb False (i + 1) outs s1 = Ok s2" "shows_coins (add_outs txid height cb (i + 1) outs (coins s1)) s1 s2"
    using Cons.IH [of s1 "i + 1"] shows_coinsD(1) [OF s1(2)] Cons.prems(2,3) by auto
  then show ?case using s1 shows_coinsD(2) [OF s1(2)] shows_coins_trans [OF s1(2)] by (simp add: Let_def)
qed

lemma spend_inputs_top:
  assumes "coins_valid s" "distinct (map prevout ins)" "\<forall>txin \<in> set ins. coins s (prevout txin) \<noteq> None"
  shows "\<exists>s'. spend_inputs ins s = Ok (map (\<lambda>txin. the (coins s (prevout txin))) ins, s') \<and> shows_coins (spend_ins ins (coins s)) s s'"
  using assms
proof (induction ins arbitrary: s)
  case Nil
  then show ?case using shows_coins_same [of s s] by (auto simp: same_view_def spend_ins_def)
next
  case (Cons txin ins)
  obtain x where x: "coins s (prevout txin) = Some x" using Cons.prems(3) by auto
  obtain s1 where s1: "SpendCoin (prevout txin) s = (Some x, s1)" "shows_coins ((coins s)(prevout txin := None)) s s1"
    using SpendCoin_top [OF Cons.prems(1) x] .
  have k: "coins s1 (prevout t) = coins s (prevout t)" if "t \<in> set ins" for t using that Cons.prems(2) unfolding shows_coinsD(2) [OF s1(2)] by (auto simp: rev_image_eqI)
  then obtain s2 where s2: "spend_inputs ins s1 = Ok (map (\<lambda>txin. the (coins s1 (prevout txin))) ins, s2)" "shows_coins (spend_ins ins (coins s1)) s1 s2"
    using Cons.IH [of s1] shows_coinsD(1) [OF s1(2)] Cons.prems(2,3) by auto
  have "map (\<lambda>txin. the (coins s1 (prevout txin))) ins = map (\<lambda>txin. the (coins s (prevout txin))) ins" using k by simp
  moreover have "spend_ins ins (coins s1) = spend_ins (txin # ins) (coins s)"
    using shows_coinsD(2) [OF s1(2)] by (auto simp: spend_ins_def restrict_map_def fun_eq_iff)
  ultimately show ?case using s1 s2 x shows_coins_trans [OF s1(2)] by simp
qed

lemma UpdateCoins_top:
  assumes "coins_valid s" "connectable C tx (coins s)"
  shows "\<exists>s'. UpdateCoins C tx height s = Ok (if IsCoinBase tx then [] else undo_of (coins s) tx, s') \<and> shows_coins (apply_tx C height tx (coins s)) s s'"
proof -
  obtain s1 where s1: "(if IsCoinBase tx then Ok ([], s) else spend_inputs (vin tx) s) = Ok (if IsCoinBase tx then [] else undo_of (coins s) tx, s1)"
    "shows_coins (if IsCoinBase tx then coins s else spend_ins (vin tx) (coins s)) s s1"
    using spend_inputs_top [OF assms(1), of "vin tx"] shows_coins_same [of s s] assms
    by (cases "IsCoinBase tx") (auto simp: connectable_def same_view_def undo_of_def)
  have "coins s1 (COutPoint (ComputeHash C tx) (word_of_nat j)) = None" if "j < length (vout tx)" for j
    using that assms(2) shows_coinsD(2) [OF s1(2)] by (auto simp: connectable_def spend_ins_def restrict_map_def)
  then obtain s2 where "AddCoins C tx height False s1 = Ok s2" "shows_coins (add_outs (ComputeHash C tx) height (IsCoinBase tx) 0 (vout tx) (coins s1)) s1 s2"
    using add_coins_top [OF shows_coinsD(1) [OF s1(2)], of "vout tx" 0 "ComputeHash C tx" height "IsCoinBase tx"] assms(2) by (auto simp: AddCoins_def connectable_def)
  then show ?thesis using s1 shows_coinsD(2) [OF s1(2)] shows_coins_trans [OF s1(2)] by (simp add: UpdateCoins_def apply_tx_def)
qed

section \<open>Undoing is the inverse of connecting\<close>

text \<open>Coins of a chain: their amounts are in range, they can be spent, and they are not in the genesis block.\<close>

definition utxo_ok :: "utxo \<Rightarrow> bool" where
  "utxo_ok U \<longleftrightarrow> (\<forall>k c. U k = Some c \<longrightarrow> MoneyRange (nValue (out c)) \<and> \<not> IsUnspendable (scriptPubKey (out c)) \<and> coin_nHeight c \<noteq> 0)"

lemma MoneyRange_unspent: "MoneyRange (nValue (out c)) \<Longrightarrow> \<not> IsSpent c"
  by (auto simp: MoneyRange_def IsSpent_def CTxOut_IsNull_def)

lemma utxo_ok_amounts: "utxo_ok U \<Longrightarrow> amounts_ok U"
  unfolding utxo_ok_def amounts_ok_def MoneyRange_def by fastforce

definition height_ok :: "int \<Rightarrow> bool" where "height_ok height \<longleftrightarrow> 0 < height \<and> height < 2 ^ 31"

lemma Coin_of_height: "height_ok height \<Longrightarrow> int (unat (coin_nHeight (Coin_of txout height cb))) = height"
  by (simp add: height_ok_def Coin_of_def uint_word_of_int)

lemma Coin_of_height0: "height_ok height \<Longrightarrow> coin_nHeight (Coin_of txout height cb) \<noteq> 0"
  using Coin_of_height [of height txout cb] by (auto simp: height_ok_def)

lemma add_outs_other: "out_hash k \<noteq> txid \<Longrightarrow> add_outs txid height cb i outs U k = U k"
  by (induction outs arbitrary: i U) auto

lemma add_outs_index: "\<forall>j. i \<le> j \<and> j < i + length outs \<longrightarrow> n \<noteq> word_of_nat j \<Longrightarrow> add_outs txid height cb i outs U (COutPoint txid n) = U (COutPoint txid n)"
proof (induction outs arbitrary: i U)
  case (Cons txout outs)
  then have "add_outs txid height cb (i + 1) outs V (COutPoint txid n) = V (COutPoint txid n)" for V by simp
  moreover have "n \<noteq> word_of_nat i" using Cons.prems by auto
  ultimately show ?case by simp
qed simp

text \<open>Without the outputs that were added, the coins are as before.\<close>

primrec drop_outs :: "uint256 \<Rightarrow> nat \<Rightarrow> CTxOut list \<Rightarrow> utxo \<Rightarrow> utxo" where
  "drop_outs txid i [] U = U"
| "drop_outs txid i (txout # outs) U =
     drop_outs txid (i + 1) outs (if IsUnspendable (scriptPubKey txout) then U else U(COutPoint txid (word_of_nat i) := None))"

lemma remove_outputs_top:
  assumes "coins_valid s" "height_ok height" "i + length outs \<le> 2 ^ 32"
    "\<forall>j < length outs. \<not> IsUnspendable (scriptPubKey (outs ! j)) \<longrightarrow> coins s (COutPoint txid (word_of_nat (i + j))) = Some (Coin_of (outs ! j) height cb)"
  shows "\<exists>s'. remove_outputs txid height cb i outs fClean s = (fClean, s') \<and> shows_coins (drop_outs txid i outs (coins s)) s s'"
  using assms
proof (induction outs arbitrary: i s)
  case Nil
  then show ?case using shows_coins_same [of s s] by (auto simp: same_view_def)
next
  case (Cons txout outs)
  let ?k = "COutPoint txid (word_of_nat i)"
  have nxt: "coins s (COutPoint txid (word_of_nat (i + 1 + j))) = Some (Coin_of (outs ! j) height cb)"
    if "j < length outs" "\<not> IsUnspendable (scriptPubKey (outs ! j))" for j
    using Cons.prems(4) [rule_format, of "Suc j"] that by simp
  show ?case
  proof (cases "IsUnspendable (scriptPubKey txout)")
    case True
    then show ?thesis using Cons.IH [of s "i + 1"] Cons.prems(1-3) nxt by auto
  next
    case False
    then have k: "coins s ?k = Some (Coin_of txout height cb)" using Cons.prems(4) [rule_format, of 0] by simp
    obtain s1 where s1: "SpendCoin ?k s = (Some (Coin_of txout height cb), s1)" "shows_coins ((coins s)(?k := None)) s s1"
      using SpendCoin_top [OF Cons.prems(1) k] .
    have "coins s1 (COutPoint txid (word_of_nat (i + 1 + j))) = Some (Coin_of (outs ! j) height cb)"
      if "j < length outs" "\<not> IsUnspendable (scriptPubKey (outs ! j))" for j
    proof -
      have "i < 2 ^ 32" "i + 1 + j < 2 ^ 32" using that(1) Cons.prems(3) by simp_all
      then have "word_of_nat (i + 1 + j) \<noteq> (word_of_nat i :: u32)" using index_inj [of i "i + 1 + j"] by auto
      then show ?thesis using nxt [OF that] shows_coinsD(2) [OF s1(2)] by simp
    qed
    then obtain s2 where s2: "remove_outputs txid height cb (i + 1) outs fClean s1 = (fClean, s2)"
      "shows_coins (drop_outs txid (i + 1) outs (coins s1)) s1 s2"
      using Cons.IH [of s1 "i + 1"] Cons.prems(2,3) shows_coinsD(1) [OF s1(2)] by auto
    have "remove_outputs txid height cb i (txout # outs) fClean s = remove_outputs txid height cb (i + 1) outs fClean s1"
      using s1(1) False Coin_of_height [OF Cons.prems(2)] by (simp add: Let_def)
    then show ?thesis using s2 False shows_coinsD(2) [OF s1(2)] shows_coins_trans [OF s1(2)] by simp
  qed
qed

lemma add_outs_nth:
  assumes "i + length outs \<le> 2 ^ 32" "j < length outs" "\<not> IsUnspendable (scriptPubKey (outs ! j))"
  shows "add_outs txid height cb i outs U (COutPoint txid (word_of_nat (i + j))) = Some (Coin_of (outs ! j) height cb)"
  using assms
proof (induction outs arbitrary: i j U)
  case (Cons txout outs)
  show ?case
  proof (cases j)
    case 0
    have "word_of_nat i \<noteq> (word_of_nat l :: u32)" if "i + 1 \<le> l" "l < i + 1 + length outs" for l
      using that Cons.prems(1) index_inj [of i l] by auto
    then have "add_outs txid height cb (i + 1) outs V (COutPoint txid (word_of_nat i)) = V (COutPoint txid (word_of_nat i))" for V
      by (intro add_outs_index) auto
    then show ?thesis using 0 Cons.prems(3) by simp
  next
    case (Suc l)
    then show ?thesis using Cons.IH [of "i + 1" l] Cons.prems by simp
  qed
qed simp

lemma drop_outs_other: "out_hash k \<noteq> txid \<Longrightarrow> drop_outs txid i outs U k = U k"
  by (induction outs arbitrary: i U) auto

lemma drop_outs_None: "U k = None \<Longrightarrow> drop_outs txid i outs U k = None"
  by (induction outs arbitrary: i U) auto

lemma drop_outs_member:
  "j < length outs \<Longrightarrow> \<not> IsUnspendable (scriptPubKey (outs ! j)) \<Longrightarrow> drop_outs txid i outs U (COutPoint txid (word_of_nat (i + j))) = None"
proof (induction outs arbitrary: i j U)
  case (Cons txout outs)
  then show ?case
  proof (cases j)
    case 0
    then show ?thesis using Cons.prems by (auto intro: drop_outs_None)
  next
    case (Suc l)
    then show ?thesis using Cons.IH [of l "i + 1"] Cons.prems by simp
  qed
qed simp

lemma add_outs_cases:
  "add_outs txid height cb i outs U k = U k \<or> (\<exists>j < length outs. \<not> IsUnspendable (scriptPubKey (outs ! j)) \<and> k = COutPoint txid (word_of_nat (i + j)) \<and>
     add_outs txid height cb i outs U k = Some (Coin_of (outs ! j) height cb))"
proof (induction outs arbitrary: i U)
  case (Cons txout outs)
  let ?V = "if IsUnspendable (scriptPubKey txout) then U else U(COutPoint txid (word_of_nat i) \<mapsto> Coin_of txout height cb)"
  show ?case
  proof (cases "add_outs txid height cb (i + 1) outs ?V k = ?V k")
    case True
    show ?thesis
    proof (cases "?V k = U k")
      case False
      then have "k = COutPoint txid (word_of_nat i)" "\<not> IsUnspendable (scriptPubKey txout)" by (auto split: if_splits)
      then show ?thesis using True by (intro disjI2 exI [of _ 0]) simp
    qed (use True in simp)
  next
    case False
    then obtain j where j: "j < length outs" "\<not> IsUnspendable (scriptPubKey (outs ! j))" "k = COutPoint txid (word_of_nat (i + 1 + j))"
      "add_outs txid height cb (i + 1) outs ?V k = Some (Coin_of (outs ! j) height cb)" using Cons.IH [of "i + 1" ?V] by blast
    show ?thesis by (rule disjI2, rule exI [of _ "Suc j"]) (use j in \<open>simp del: of_nat_add of_nat_Suc\<close>)
  qed
qed simp

lemma drop_outs_fresh: "\<forall>j < length outs. k \<noteq> COutPoint txid (word_of_nat (i + j)) \<Longrightarrow> drop_outs txid i outs U k = U k"
proof (induction outs arbitrary: i U)
  case (Cons txout outs)
  have "k \<noteq> COutPoint txid (word_of_nat (i + 1 + j))" if "j < length outs" for j using Cons.prems that by (auto dest: spec [of _ "Suc j"])
  then have "drop_outs txid (i + 1) outs V k = V k" for V using Cons.IH [of "i + 1" V] by blast
  moreover have "k \<noteq> COutPoint txid (word_of_nat i)" using Cons.prems by (auto dest: spec [of _ 0])
  ultimately show ?case by simp
qed simp

lemma drop_add_outs:
  assumes "\<forall>j < length outs. U (COutPoint txid (word_of_nat (i + j))) = None"
  shows "drop_outs txid i outs (add_outs txid height cb i outs U) = U"
proof
  fix k
  show "drop_outs txid i outs (add_outs txid height cb i outs U) k = U k"
  proof (cases "\<exists>j < length outs. k = COutPoint txid (word_of_nat (i + j))")
    case True
    then have "U k = None" using assms by auto
    then show ?thesis using add_outs_cases [of txid height cb i outs U k] drop_outs_None drop_outs_member by metis
  next
    case False
    then show ?thesis using drop_outs_fresh add_outs_cases [of txid height cb i outs U k] by metis
  qed
qed

lemma ApplyTxInUndo_top:
  assumes "coins_valid s" "coins s k = None" "\<not> IsSpent x" "\<not> IsUnspendable (scriptPubKey (out x))" "coin_nHeight x \<noteq> 0"
  shows "\<exists>s'. ApplyTxInUndo x k s = Ok (DISCONNECT_OK, s') \<and> shows_coins ((coins s)(k \<mapsto> x)) s s'"
proof -
  obtain s1 where s1: "HaveCoin k s = (False, s1)" "same_view s s1"
    using HaveCoin_valid [OF assms(1), of k] assms(2) by (auto simp: same_view_def)
  note v = same_viewD [OF s1(2)]
  obtain s2 where s2: "AddCoin k x False s1 = Ok s2" "shows_coins ((coins s)(k \<mapsto> x)) s1 s2"
    using AddCoin_top [OF v(1) assms(3), of False k] v(2) assms(2,4) by auto
  have "ApplyTxInUndo x k s = Ok (DISCONNECT_OK, s2)" using s1(1) s2(1) assms(5) by (simp add: ApplyTxInUndo_def Let_def)
  then show ?thesis using s2(2) shows_coins_trans [OF shows_coins_same [OF s1(2)]] by blast
qed

lemma restore_inputs_top:
  assumes "coins_valid s" "distinct (map (prevout \<circ> fst) ps)" "\<forall>(txin, x) \<in> set ps. coins s (prevout txin) = None \<and> \<not> IsSpent x \<and>
      \<not> IsUnspendable (scriptPubKey (out x)) \<and> coin_nHeight x \<noteq> 0"
  shows "\<exists>s'. restore_inputs ps fClean s = Ok (DISCONNECT_OK, fClean, s') \<and> shows_coins (coins s ++ map_of (map (\<lambda>(txin, x). (prevout txin, x)) ps)) s s'"
  using assms
proof (induction ps arbitrary: s)
  case Nil
  then show ?case using shows_coins_same [of s s] by (auto simp: same_view_def)
next
  case (Cons p ps)
  obtain txin x where p: "p = (txin, x)" by (cases p)
  obtain s1 where s1: "ApplyTxInUndo x (prevout txin) s = Ok (DISCONNECT_OK, s1)" "shows_coins ((coins s)(prevout txin \<mapsto> x)) s s1"
    using ApplyTxInUndo_top [OF Cons.prems(1), of "prevout txin" x] Cons.prems(3) p by auto
  have "coins s1 (prevout t) = None" if "(t, y) \<in> set ps" for t y
  proof -
    have "prevout t \<noteq> prevout txin" using Cons.prems(2) p that by force
    then show ?thesis using Cons.prems(3) that shows_coinsD(2) [OF s1(2)] by auto
  qed
  then have "\<forall>(txin, x) \<in> set ps. coins s1 (prevout txin) = None \<and> \<not> IsSpent x \<and> \<not> IsUnspendable (scriptPubKey (out x)) \<and> coin_nHeight x \<noteq> 0"
    using Cons.prems(3) by auto
  then obtain s2 where s2: "restore_inputs ps fClean s1 = Ok (DISCONNECT_OK, fClean, s2)"
    "shows_coins (coins s1 ++ map_of (map (\<lambda>(txin, x). (prevout txin, x)) ps)) s1 s2"
    using Cons.IH [of s1] shows_coinsD(1) [OF s1(2)] Cons.prems(2) by auto
  have "map_of (map (\<lambda>(txin, x). (prevout txin, x)) ps) (prevout txin) = None"
    using Cons.prems(2) p by (force simp: map_of_eq_None_iff)
  then have "coins s1 ++ map_of (map (\<lambda>(txin, x). (prevout txin, x)) ps) = coins s ++ map_of (map (\<lambda>(txin, x). (prevout txin, x)) (p # ps))"
    unfolding shows_coinsD(2) [OF s1(2)] p by (auto simp: map_add_def fun_eq_iff split: option.splits)
  then have "shows_coins (coins s ++ map_of (map (\<lambda>(txin, x). (prevout txin, x)) (p # ps))) s s2"
    using shows_coins_trans [OF s1(2)] s2(2) by simp
  moreover have "restore_inputs (p # ps) fClean s = Ok (DISCONNECT_OK, fClean, s2)" using s1(1) s2(1) p by simp
  ultimately show ?case by blast
qed

lemma restored:
  assumes "distinct (map prevout ins)" "\<forall>txin \<in> set ins. U (prevout txin) \<noteq> None"
  shows "spend_ins ins U ++ map_of (map (\<lambda>(txin, x). (prevout txin, x)) (rev (zip ins (map (\<lambda>txin. the (U (prevout txin))) ins)))) = U"
proof
  fix k
  let ?ps = "map (\<lambda>(txin, x). (prevout txin, x)) (rev (zip ins (map (\<lambda>txin. the (U (prevout txin))) ins)))"
  have ps: "?ps = rev (map (\<lambda>txin. (prevout txin, the (U (prevout txin)))) ins)"
    by (simp add: zip_map2 rev_map zip_same_conv_map comp_def)
  have "map fst ?ps = rev (map prevout ins)" unfolding ps by (simp add: rev_map comp_def)
  then have d: "distinct (map fst ?ps)" using assms(1) by simp
  show "(spend_ins ins U ++ map_of ?ps) k = U k"
  proof (cases "k \<in> set (map prevout ins)")
    case True
    then obtain txin where t: "txin \<in> set ins" "k = prevout txin" by auto
    then have "(k, the (U k)) \<in> set ?ps" unfolding ps by auto
    then have "map_of ?ps k = Some (the (U k))" using d by (rule map_of_is_SomeI [rotated])
    moreover obtain x where "U k = Some x" using assms(2) t by auto
    ultimately show ?thesis by (simp add: map_add_def)
  next
    case False
    then have "map_of ?ps k = None" unfolding ps by (auto simp: map_of_eq_None_iff)
    then show ?thesis using False by (simp add: map_add_def spend_ins_def restrict_map_def)
  qed
qed

lemma apply_tx_utxo_ok:
  assumes "utxo_ok U" "height_ok height" "\<forall>txout \<in> set (vout tx). MoneyRange (nValue txout)"
  shows "utxo_ok (apply_tx C height tx U)"
  unfolding utxo_ok_def
proof (intro allI impI)
  fix k c assume c: "apply_tx C height tx U k = Some c"
  let ?V = "if IsCoinBase tx then U else spend_ins (vin tx) U"
  have V: "?V k = Some c \<Longrightarrow> U k = Some c" by (auto simp: spend_ins_def restrict_map_def split: if_splits)
  from add_outs_cases [of "ComputeHash C tx" height "IsCoinBase tx" 0 "vout tx" ?V k] consider
    "?V k = Some c" | j where "j < length (vout tx)" "\<not> IsUnspendable (scriptPubKey (vout tx ! j))" "c = Coin_of (vout tx ! j) height (IsCoinBase tx)"
    using c unfolding apply_tx_def by (metis option.inject)
  then show "MoneyRange (nValue (out c)) \<and> \<not> IsUnspendable (scriptPubKey (out c)) \<and> coin_nHeight c \<noteq> 0"
  proof cases
    case 1
    then show ?thesis using V assms(1) by (simp add: utxo_ok_def)
  next
    case (2 j)
    then show ?thesis using assms(3) Coin_of_height0 [OF assms(2)] by simp
  qed
qed

text \<open>The transactions before index \<open>n\<close> have been connected.\<close>

definition after_txs :: "crypto \<Rightarrow> int \<Rightarrow> CTransaction list \<Rightarrow> nat \<Rightarrow> utxo \<Rightarrow> utxo" where
  "after_txs C height txs n U = fold (apply_tx C height) (take n txs) U"

definition all_connectable :: "crypto \<Rightarrow> int \<Rightarrow> CTransaction list \<Rightarrow> utxo \<Rightarrow> bool" where
  "all_connectable C height txs U \<longleftrightarrow> (\<forall>i < length txs. connectable C (txs ! i) (after_txs C height txs i U) \<and> (IsCoinBase (txs ! i) \<longleftrightarrow> i = 0))"

definition all_undo :: "crypto \<Rightarrow> int \<Rightarrow> CTransaction list \<Rightarrow> utxo \<Rightarrow> Coin list list" where
  "all_undo C height txs U = map (\<lambda>i. undo_of (after_txs C height txs i U) (txs ! i)) [1..<length txs]"

lemma after_txs_Suc: "i < length txs \<Longrightarrow> after_txs C height txs (Suc i) U = apply_tx C height (txs ! i) (after_txs C height txs i U)"
  by (simp add: after_txs_def take_Suc_conv_app_nth)

lemma after_txs_utxo_ok:
  assumes "all_connectable C height txs U" "utxo_ok U" "height_ok height" "n \<le> length txs"
  shows "utxo_ok (after_txs C height txs n U)"
  using assms(4)
proof (induction n)
  case 0
  then show ?case using assms(2) by (simp add: after_txs_def)
next
  case (Suc n)
  then have "connectable C (txs ! n) (after_txs C height txs n U)" using assms(1) by (simp add: all_connectable_def)
  then show ?case using Suc assms(3) apply_tx_utxo_ok [of "after_txs C height txs n U" height "txs ! n" C]
    by (simp add: after_txs_Suc connectable_def)
qed

lemma undo_tx_top:
  assumes "coins_valid s" "height_ok height" "connectable C tx U" "coins s = apply_tx C height tx U"
  obtains s' where "remove_outputs (ComputeHash C tx) height (IsCoinBase tx) 0 (vout tx) fClean s = (fClean, s')"
    "shows_coins (if IsCoinBase tx then U else spend_ins (vin tx) U) s s'"
proof -
  let ?V = "if IsCoinBase tx then U else spend_ins (vin tx) U"
  have V: "\<forall>j < length (vout tx). ?V (COutPoint (ComputeHash C tx) (word_of_nat (0 + j))) = None" using assms(3) by (auto simp: connectable_def spend_ins_def restrict_map_def)
  have l: "0 + length (vout tx) \<le> 2 ^ 32" using assms(3) by (simp add: connectable_def)
  from remove_outputs_top [OF assms(1,2) l, of "ComputeHash C tx" "IsCoinBase tx" fClean] add_outs_nth [OF l] drop_add_outs [OF V]
  show ?thesis using that assms(4) unfolding apply_tx_def by auto
qed

lemma undo_txs_top:
  assumes "all_connectable C height txs U" "utxo_ok U" "height_ok height" "n \<le> length txs" "coins_valid s" "coins s = after_txs C height txs n U"
  shows "\<exists>s'. undo_txs C txs (all_undo C height txs U) height n fClean s = Ok (DISCONNECT_OK, fClean, s') \<and> shows_coins U s s'"
  using assms(4-6)
proof (induction n arbitrary: s)
  case 0
  then show ?case using shows_coins_same [of s s] by (auto simp: same_view_def after_txs_def)
next
  case (Suc i)
  let ?tx = "txs ! i" and ?V = "after_txs C height txs i U"
  have c: "connectable C ?tx ?V" "IsCoinBase ?tx \<longleftrightarrow> i = 0" using assms(1) Suc.prems(1) by (simp_all add: all_connectable_def)
  obtain s1 where s1: "remove_outputs (ComputeHash C ?tx) height (IsCoinBase ?tx) 0 (vout ?tx) fClean s = (fClean, s1)"
    "shows_coins (if IsCoinBase ?tx then ?V else spend_ins (vin ?tx) ?V) s s1"
    using undo_tx_top [OF Suc.prems(2) assms(3) c(1), where fClean = fClean] Suc.prems(1,3) after_txs_Suc by auto
  show ?case
  proof (cases "i = 0")
    case True
    then have "shows_coins U s s1" using s1(2) c(2) by (simp add: after_txs_def)
    then show ?thesis using s1(1) True by (simp add: Let_def)
  next
    case False
    have u: "all_undo C height txs U ! (i - 1) = undo_of ?V ?tx" using False Suc.prems(1) nth_upt [of 1 "i - 1" "length txs"] by (simp add: all_undo_def)
    have in_ok: "distinct (map prevout (vin ?tx))" "\<forall>txin \<in> set (vin ?tx). ?V (prevout txin) \<noteq> None" using c False by (simp_all add: connectable_def)
    have ok: "utxo_ok ?V" by (rule after_txs_utxo_ok [OF assms(1-3)]) (use Suc.prems(1) in simp)
    let ?ps = "rev (zip (vin ?tx) (undo_of ?V ?tx))"
    have cs: "coins s1 = spend_ins (vin ?tx) ?V" using shows_coinsD(2) [OF s1(2)] c(2) False by simp
    have "map (prevout \<circ> fst) ?ps = rev (map prevout (vin ?tx))" by (simp add: rev_map [symmetric] map_map [symmetric] undo_of_def del: map_map)
    then have d: "distinct (map (prevout \<circ> fst) ?ps)" using in_ok(1) by simp
    have "coins s1 (prevout txin) = None \<and> \<not> IsSpent x \<and> \<not> IsUnspendable (scriptPubKey (out x)) \<and> coin_nHeight x \<noteq> 0" if "(txin, x) \<in> set ?ps" for txin x
    proof -
      have t: "txin \<in> set (vin ?tx)" "x = the (?V (prevout txin))" using that by (auto simp: undo_of_def set_zip)
      then have "?V (prevout txin) = Some x" using in_ok(2) by auto
      then show ?thesis using ok t(1) MoneyRange_unspent [of x] unfolding cs utxo_ok_def by (simp add: spend_ins_def restrict_map_def)
    qed
    then obtain s2 where s2: "restore_inputs ?ps fClean s1 = Ok (DISCONNECT_OK, fClean, s2)" "shows_coins ?V s1 s2"
      using restore_inputs_top [OF shows_coinsD(1) [OF s1(2)] d, of fClean] restored [OF in_ok] unfolding cs undo_of_def by auto
    have "length (undo_of ?V ?tx) = length (vin ?tx)" by (simp add: undo_of_def)
    then have "undo_txs C txs (all_undo C height txs U) height (Suc i) fClean s = undo_txs C txs (all_undo C height txs U) height i fClean s2"
      using s1(1) s2(1) u False by (simp add: Let_def)
    then show ?thesis using Suc.IH [of s2] Suc.prems(1) shows_coinsD [OF s2(2)] shows_coins_trans [OF shows_coins_trans [OF s1(2) s2(2)]] by auto
  qed
qed

section \<open>What a connected transaction has passed\<close>

lemma sbind_Inr: "sbind r f = Ok (Inr y) \<longleftrightarrow> (\<exists>x. r = Ok (Inr x) \<and> f x = Ok (Inr y))"
proof (cases r)
  case (Ok x)
  then show ?thesis by (cases x) (simp_all add: sbind_def)
qed (simp_all add: sbind_def)

definition coin_of :: "utxo \<Rightarrow> CTxIn \<Rightarrow> Coin" where "coin_of U txin = the (U (prevout txin))"

text \<open>The checks on a transaction that is not a coinbase, against the coins before it.\<close>

definition spends_ok :: "connect_env \<Rightarrow> store \<Rightarrow> ptr \<Rightarrow> u32 \<Rightarrow> u32 \<Rightarrow> bool \<Rightarrow> utxo \<Rightarrow> CTransaction \<Rightarrow> bool" where
  "spends_ok env h pindex nLockTimeFlags flags fScriptChecks U tx \<longleftrightarrow>
     inputs_spendable U (nHeight (h pindex)) (vin tx) \<and> sum_list (map nValue (vout tx)) \<le> inputs_value U (vin tx) \<and>
     SequenceLocks h tx nLockTimeFlags (map (\<lambda>txin. int (unat (coin_nHeight (coin_of U txin)))) (vin tx)) pindex = Ok True \<and>
     (fScriptChecks \<and> \<not> cn_cached env (ComputeHash (cn_crypto env) tx) flags \<longrightarrow>
       (\<forall>i < length (vin tx). script_check (cn_crypto env) tx i flags (scriptPubKey (out (coin_of U (vin tx ! i)))) = Ok ()))"

definition tx_fee :: "utxo \<Rightarrow> CTransaction \<Rightarrow> int" where
  "tx_fee U tx = (if IsCoinBase tx then 0 else inputs_value U (vin tx) - sum_list (map nValue (vout tx)))"

lemma prev_heights_same:
  assumes "coins_valid s" "\<forall>txin \<in> set ins. coins s (prevout txin) \<noteq> None"
  shows "\<exists>s'. prev_heights ins s = (map (\<lambda>txin. int (unat (coin_nHeight (coin_of (coins s) txin)))) ins, s') \<and> same_view s s'"
  using assms
proof (induction ins arbitrary: s)
  case Nil
  then show ?case by (simp add: same_view_refl)
next
  case (Cons txin ins)
  obtain c s1 where a: "AccessCoin (prevout txin) s = (c, s1)" "same_view s s1" "coins s (prevout txin) = (if IsSpent c then None else Some c)"
    using AccessCoin_same [OF Cons.prems(1)] .
  then have c: "coin_of (coins s) txin = c" using Cons.prems(2) by (auto simp: coin_of_def split: if_splits)
  obtain s2 where "prev_heights ins s1 = (map (\<lambda>txin. int (unat (coin_nHeight (coin_of (coins s) txin)))) ins, s2)" "same_view s1 s2"
    using Cons.IH [of s1] same_viewD [OF a(2)] Cons.prems(2) by auto
  then show ?case using a(1) c same_view_trans [OF a(2)] by simp
qed

lemma connect_inputs_sound:
  assumes "connect_inputs env h pindex nLockTimeFlags tx state st = Ok (Inr st')" "coins_valid (cs_view st)" "utxo_ok (coins (cs_view st))"
    "\<not> IsCoinBase tx" "GetValueOut tx = Ok (sum_list (map nValue (vout tx)))"
  shows "inputs_spendable (coins (cs_view st)) (nHeight (h pindex)) (vin tx) \<and> sum_list (map nValue (vout tx)) \<le> inputs_value (coins (cs_view st)) (vin tx) \<and>
    SequenceLocks h tx nLockTimeFlags (map (\<lambda>txin. int (unat (coin_nHeight (coin_of (coins (cs_view st)) txin)))) (vin tx)) pindex = Ok True \<and>
    same_view (cs_view st) (cs_view st') \<and> cs_fees st' = cs_fees st + tx_fee (coins (cs_view st)) tx \<and> cs_undo st' = cs_undo st \<and> cs_queue st' = cs_queue st"
proof -
  let ?U = "coins (cs_view st)"
  obtain r s1 where r: "CheckTxInputs (cn_fmt env) tx (nHeight (h pindex)) state (cs_view st) = (Ok r, s1)" "same_view (cs_view st) s1"
    "if inputs_spendable ?U (nHeight (h pindex)) (vin tx) \<and> MoneyRange (inputs_value ?U (vin tx)) \<and> sum_list (map nValue (vout tx)) \<le> inputs_value ?U (vin tx)
     then r = ((True, state), Some (inputs_value ?U (vin tx) - sum_list (map nValue (vout tx))))
     else \<exists>reason str msg. r = (Invalid reason False REJECT_INVALID str msg state, None)"
    using CheckTxInputs_judged [OF assms(2) utxo_ok_amounts [OF assms(3)] assms(4,5), of "cn_fmt env" "nHeight (h pindex)" state] by (auto simp: same_view_def)
  have ok: "fst (fst r)" using assms(1) r(1) by (cases r) (auto simp: connect_inputs_def Let_def split: if_splits)
  have sp: "inputs_spendable ?U (nHeight (h pindex)) (vin tx)" "sum_list (map nValue (vout tx)) \<le> inputs_value ?U (vin tx)"
    "r = ((True, state), Some (inputs_value ?U (vin tx) - sum_list (map nValue (vout tx))))"
    using r(3) ok by (auto simp: Invalid_def Let_def split: if_splits)
  have "\<forall>txin \<in> set (vin tx). coins s1 (prevout txin) \<noteq> None" using sp(1) same_viewD [OF r(2)] by (auto simp: inputs_spendable_def)
  then obtain s2 where p: "prev_heights (vin tx) s1 = (map (\<lambda>txin. int (unat (coin_nHeight (coin_of ?U txin)))) (vin tx), s2)" "same_view s1 s2"
    using prev_heights_same [of s1 "vin tx"] same_viewD [OF r(2)] by auto
  have "SequenceLocks h tx nLockTimeFlags (map (\<lambda>txin. int (unat (coin_nHeight (coin_of ?U txin)))) (vin tx)) pindex = Ok True \<and>
      st' = st\<lparr>cs_view := s2, cs_fees := cs_fees st + (inputs_value ?U (vin tx) - sum_list (map nValue (vout tx)))\<rparr>"
    using assms(1) r(1) p(1) unfolding sp(3) by (auto simp: connect_inputs_def Let_def obind_Ok split: if_splits)
  then show ?thesis using sp(1,2) same_view_trans [OF r(2) p(2)] assms(4) by (simp add: tx_fee_def)
qed

lemma p2sh_sigops_same: "coins_valid s \<Longrightarrow> p2sh_sigops ins n s = Ok (m, s') \<Longrightarrow> same_view s s'"
proof (induction ins arbitrary: n s)
  case Nil
  then show ?case by (simp add: same_view_refl)
next
  case (Cons txin ins)
  obtain c s1 where a: "AccessCoin (prevout txin) s = (c, s1)" "same_view s s1" using AccessCoin_same [OF Cons.prems(1)] .
  then have "\<exists>k. p2sh_sigops ins k s1 = Ok (m, s')" using Cons.prems(2) by (auto simp: Let_def obind_Ok split: if_splits)
  then show ?case using Cons.IH same_viewD(1) [OF a(2)] same_view_trans [OF a(2)] by blast
qed

lemma sigops_same: "coins_valid s \<Longrightarrow> GetTransactionSigOpCount tx flags s = Ok (n, s') \<Longrightarrow> same_view s s'"
  by (auto simp: GetTransactionSigOpCount_def GetP2SHSigOpCount_def obind_Ok same_view_refl dest: p2sh_sigops_same split: if_splits)

lemma check_scripts_sound:
  assumes "check_scripts env tx flags i ins state s = Ok (Inr (queue, s'))" "coins_valid s"
  shows "same_view s s' \<and> (list_all (\<lambda>r. r = Ok ()) queue \<longrightarrow>
    (\<forall>j < length ins. script_check (cn_crypto env) tx (i + j) flags (scriptPubKey (out (coin_of (coins s) (ins ! j)))) = Ok ()))"
  using assms
proof (induction ins arbitrary: i s queue)
  case Nil
  then show ?case by (simp add: same_view_refl)
next
  case (Cons txin ins)
  obtain c s1 where a: "AccessCoin (prevout txin) s = (c, s1)" "same_view s s1" "coins s (prevout txin) = (if IsSpent c then None else Some c)"
    using AccessCoin_same [OF Cons.prems(2)] .
  define check where "check = script_check (cn_crypto env) tx i flags (scriptPubKey (out c))"
  have c: "\<not> IsSpent c" using Cons.prems(1) a(1) by (auto simp: Let_def split: if_splits)
  then have co: "coin_of (coins s) txin = c" using a(3) by (simp add: coin_of_def)
  have cases: "\<exists>q. check_scripts env tx flags (i + 1) ins state s1 = Ok (Inr (q, s')) \<and> (list_all (\<lambda>r. r = Ok ()) queue \<longrightarrow> check = Ok () \<and> list_all (\<lambda>r. r = Ok ()) q)"
  proof (cases "cn_parallel env")
    case True
    then show ?thesis using Cons.prems(1) a(1) c by (auto simp: Let_def sbind_Inr check_def)
  next
    case False
    then have e: "check_scripts env tx flags i (txin # ins) state s = (case check of
                Ok _ \<Rightarrow> check_scripts env tx flags (i + 1) ins state s1
              | Throw \<Rightarrow> Throw
              | Abort \<Rightarrow> Abort
              | Fail e \<Rightarrow>
                  let failed = Ok (Inl (snd (Invalid CONSENSUS False REJECT_INVALID (''mandatory-script-verify-flag-failed ('' @ cn_error_string env e @ '')'') [] state)))
                  in if flags AND STANDARD_NOT_MANDATORY_VERIFY_FLAGS \<noteq> 0 \<or> flags AND SCRIPT_DIP0020 = 0
                     then case script_check (cn_crypto env) tx i ((flags AND NOT STANDARD_NOT_MANDATORY_VERIFY_FLAGS) OR SCRIPT_DIP0020) (scriptPubKey (out c)) of
                            Ok _ \<Rightarrow> Ok (Inl (snd (Invalid TX_NOT_STANDARD False REJECT_NONSTANDARD
                                     (''non-mandatory-script-verify-flag ('' @ cn_error_string env e @ '')'') [] state)))
                          | Throw \<Rightarrow> Throw
                          | Abort \<Rightarrow> Abort
                          | Fail _ \<Rightarrow> failed
                     else failed)"
      using a(1) c unfolding check_def by (simp only: check_scripts.simps Let_def prod.case if_False)
    have "check = Ok ()" using Cons.prems(1) unfolding e by (cases check) (auto simp: Let_def split: if_splits outcome.splits)
    moreover from this have "check_scripts env tx flags (i + 1) ins state s1 = Ok (Inr (queue, s'))"
      using trans [OF e [symmetric] Cons.prems(1)] by (simp only: outcome.case)
    ultimately show ?thesis by blast
  qed
  then obtain q where q: "check_scripts env tx flags (i + 1) ins state s1 = Ok (Inr (q, s'))"
    "list_all (\<lambda>r. r = Ok ()) queue \<Longrightarrow> check = Ok () \<and> list_all (\<lambda>r. r = Ok ()) q" by blast
  note IH = Cons.IH [OF q(1) same_viewD(1) [OF a(2)]]
  have "script_check (cn_crypto env) tx (i + j) flags (scriptPubKey (out (coin_of (coins s) ((txin # ins) ! j)))) = Ok ()"
    if "list_all (\<lambda>r. r = Ok ()) queue" "j < length (txin # ins)" for j
    using q(2) [OF that(1)] that IH co same_viewD(2) [OF a(2)] by (cases j) (auto simp: check_def)
  then show ?case using IH same_view_trans [OF a(2)] by blast
qed

lemma check_outputs_range: "check_outputs outs acc = None \<Longrightarrow> \<forall>txout \<in> set outs. MoneyRange (nValue txout)"
  by (induction outs arbitrary: acc) (auto simp: MoneyRange_def Let_def split: if_splits)

lemma tx_rules_outputs:
  assumes "tx_rules tx"
  shows "(\<forall>txout \<in> set (vout tx). MoneyRange (nValue txout)) \<and> length (vout tx) \<le> 2 ^ 32"
proof
  show "\<forall>txout \<in> set (vout tx). MoneyRange (nValue txout)"
    using assms check_outputs_range [of "vout tx" 0] by (simp add: tx_rules_def check_outputs_GetValueOut)
  have "length outs \<le> sum_list (map (\<lambda>x. length (CTxOut_ser x)) outs)" for outs
  proof (induction outs)
    case (Cons x outs)
    have "1 \<le> length (CTxOut_ser x)" by (simp add: CTxOut_ser_def ser_writedata64_def)
    then show ?case using Cons by simp
  qed simp
  then have "length (vout tx) \<le> sum_list (map (\<lambda>x. length (CTxOut_ser x)) (vout tx))" .
  also have "\<dots> \<le> length (CTransaction_ser tx)"
    using length_vector_ser [of CTxOut_ser "vout tx"] by (simp add: CTransaction_ser_def)
  also have "\<dots> \<le> MAX_LEGACY_BLOCK_SIZE" using assms by (simp add: tx_rules_def GetTotalSize_def)
  finally show "length (vout tx) \<le> 2 ^ 32" by simp
qed

text \<open>One transaction: what it has passed, and what it does to the coins, the fees and the undo data.\<close>

definition connected_tx :: "connect_env \<Rightarrow> int \<Rightarrow> CTransaction \<Rightarrow> nat \<Rightarrow> connect_state \<Rightarrow> connect_state \<Rightarrow> bool" where
  "connected_tx env height tx i st st' \<longleftrightarrow>
     connectable (cn_crypto env) tx (coins (cs_view st)) \<and>
     shows_coins (apply_tx (cn_crypto env) height tx (coins (cs_view st))) (cs_view st) (cs_view st') \<and>
     cs_fees st' = cs_fees st + tx_fee (coins (cs_view st)) tx \<and>
     cs_undo st' = (if i > 0 then cs_undo st @ [if IsCoinBase tx then [] else undo_of (coins (cs_view st)) tx] else cs_undo st) \<and>
     (\<exists>queue. cs_queue st' = cs_queue st @ queue)"

lemma connect_tx_scripts:
  assumes "(case (if IsCoinBase tx then Ok (Inr ([], view)) else CheckInputs env tx fScriptChecks flags state view) of
                 Ok (Inl state) \<Rightarrow> Ok (Inl (f state)) | r \<Rightarrow> r) = Ok (Inr (queue, view'))" "coins_valid view"
  shows "same_view view view' \<and> (list_all (\<lambda>r. r = Ok ()) queue \<and> \<not> IsCoinBase tx \<and> fScriptChecks \<and> \<not> cn_cached env (ComputeHash (cn_crypto env) tx) flags \<longrightarrow>
    (\<forall>j < length (vin tx). script_check (cn_crypto env) tx j flags (scriptPubKey (out (coin_of (coins view) (vin tx ! j)))) = Ok ()))"
proof (cases "IsCoinBase tx \<or> \<not> fScriptChecks \<or> cn_cached env (ComputeHash (cn_crypto env) tx) flags")
  case True
  then show ?thesis using assms by (auto simp: CheckInputs_def same_view_refl split: if_splits)
next
  case False
  then have "check_scripts env tx flags 0 (vin tx) state view = Ok (Inr (queue, view'))"
    using assms(1) by (auto simp: CheckInputs_def split: outcome.splits sum.splits)
  from check_scripts_sound [OF this assms(2)] show ?thesis by auto
qed

lemma connect_tx_sound:
  assumes c: "connect_tx env h pindex nLockTimeFlags flags fScriptChecks max_sigops tx i state st = Ok (Inr st')"
    and v: "coins_valid (cs_view st)" "utxo_ok (coins (cs_view st))" and r: "tx_rules tx"
    and fresh: "\<forall>j < length (vout tx). coins (cs_view st) (COutPoint (ComputeHash (cn_crypto env) tx) (word_of_nat j)) = None"
  shows "connected_tx env (nHeight (h pindex)) tx i st st' \<and>
    (list_all (\<lambda>r. r = Ok ()) (cs_queue st') \<and> \<not> IsCoinBase tx \<longrightarrow> spends_ok env h pindex nLockTimeFlags flags fScriptChecks (coins (cs_view st)) tx)"
proof -
  let ?U = "coins (cs_view st)"
  obtain st1 where a: "(if IsCoinBase tx then Ok (Inr st) else connect_inputs env h pindex nLockTimeFlags tx state st) = Ok (Inr st1)"
    and c1: "obind (GetTransactionSigOpCount tx flags (cs_view st1)) (\<lambda>(n, view).
       let nSigOps = cs_sigops st1 + n
       in if unat nSigOps > max_sigops then Ok (Inl (snd (Invalid CONSENSUS False REJECT_INVALID ''bad-blk-sigops'' [] state)))
          else sbind (case (if IsCoinBase tx then Ok (Inr ([], view)) else CheckInputs env tx fScriptChecks flags state view) of
                 Ok (Inl state) \<Rightarrow> Ok (Inl (if m_reason state = TX_NOT_STANDARD
                    then snd (Invalid CONSENSUS False (chRejectCode state) (strRejectReason state) (strDebugMessage state) state) else state))
               | r \<Rightarrow> r) (\<lambda>(queue, view).
          obind (UpdateCoins (cn_crypto env) tx (nHeight (h pindex)) view) (\<lambda>(undo, view).
            Ok (Inr (st1\<lparr>cs_view := view, cs_sigops := nSigOps, cs_queue := cs_queue st1 @ queue,
              cs_undo := (if i > 0 then cs_undo st1 @ [undo] else cs_undo st1)\<rparr>))))) = Ok (Inr st')"
    using c unfolding connect_tx_def sbind_Inr by blast
  have gv: "GetValueOut tx = Ok (sum_list (map nValue (vout tx)))" using r by (simp add: tx_rules_def)
  have i1: "\<not> IsCoinBase tx \<Longrightarrow> inputs_spendable ?U (nHeight (h pindex)) (vin tx) \<and> sum_list (map nValue (vout tx)) \<le> inputs_value ?U (vin tx) \<and>
    SequenceLocks h tx nLockTimeFlags (map (\<lambda>txin. int (unat (coin_nHeight (coin_of ?U txin)))) (vin tx)) pindex = Ok True"
    and i2: "same_view (cs_view st) (cs_view st1) \<and> cs_fees st1 = cs_fees st + tx_fee ?U tx \<and> cs_undo st1 = cs_undo st \<and> cs_queue st1 = cs_queue st"
    using a connect_inputs_sound [OF _ v _ gv, of env h pindex nLockTimeFlags state st1] v(1) by (auto simp: tx_fee_def same_view_def split: if_splits)
  obtain n view where g: "GetTransactionSigOpCount tx flags (cs_view st1) = Ok (n, view)" using c1 by (auto simp: obind_Ok)
  have sv: "same_view (cs_view st) view" using same_view_trans [OF conjunct1 [OF i2] sigops_same [OF _ g]] same_viewD [OF conjunct1 [OF i2]] by simp
  obtain queue view2 undo view3 where q: "(case (if IsCoinBase tx then Ok (Inr ([], view)) else CheckInputs env tx fScriptChecks flags state view) of
                 Ok (Inl state) \<Rightarrow> Ok (Inl (if m_reason state = TX_NOT_STANDARD
                    then snd (Invalid CONSENSUS False (chRejectCode state) (strRejectReason state) (strDebugMessage state) state) else state))
               | r \<Rightarrow> r) = Ok (Inr (queue, view2))"
    and u: "UpdateCoins (cn_crypto env) tx (nHeight (h pindex)) view2 = Ok (undo, view3)"
    and st': "st' = st1\<lparr>cs_view := view3, cs_sigops := cs_sigops st1 + n, cs_queue := cs_queue st1 @ queue,
              cs_undo := (if i > 0 then cs_undo st1 @ [undo] else cs_undo st1)\<rparr>"
    using c1 unfolding g by (auto simp: Let_def obind_Ok sbind_Inr split: if_splits)
  note vv = same_viewD [OF sv]
  note s = connect_tx_scripts [OF q vv(1)]
  have sv2: "same_view (cs_view st) view2" using same_view_trans [OF sv] s by blast
  note v2 = same_viewD [OF sv2]
  have con: "connectable (cn_crypto env) tx ?U"
    using i1 fresh tx_rules_outputs [OF r] r by (auto simp: connectable_def inputs_spendable_def tx_rules_def)
  obtain view4 where "UpdateCoins (cn_crypto env) tx (nHeight (h pindex)) view2 = Ok (if IsCoinBase tx then [] else undo_of ?U tx, view4)"
    "shows_coins (apply_tx (cn_crypto env) (nHeight (h pindex)) tx ?U) view2 view4"
    using UpdateCoins_top [OF v2(1), of "cn_crypto env" tx "nHeight (h pindex)"] con unfolding v2(2) by auto
  then have u2: "undo = (if IsCoinBase tx then [] else undo_of ?U tx)" "shows_coins (apply_tx (cn_crypto env) (nHeight (h pindex)) tx ?U) view2 view3"
    using u by auto
  have "shows_coins (apply_tx (cn_crypto env) (nHeight (h pindex)) tx ?U) (cs_view st) view3" using shows_coins_trans [OF shows_coins_same [OF sv2] u2(2)] .
  then have "connected_tx env (nHeight (h pindex)) tx i st st'" using con i2 u2(1) unfolding connected_tx_def st' by simp
  moreover have "spends_ok env h pindex nLockTimeFlags flags fScriptChecks ?U tx" if "list_all (\<lambda>r. r = Ok ()) (cs_queue st')" "\<not> IsCoinBase tx"
    using that i1 s vv(2) unfolding st' by (auto simp: spends_ok_def)
  ultimately show ?thesis by blast
qed

lemma after_txs_Cons: "after_txs C height (tx # txs) (Suc i) U = after_txs C height txs i (apply_tx C height tx U)"
  by (simp add: after_txs_def)

lemma after_txs_0 [simp]: "after_txs C height txs 0 U = U"
  by (simp add: after_txs_def)

definition total_fees :: "crypto \<Rightarrow> int \<Rightarrow> CTransaction list \<Rightarrow> utxo \<Rightarrow> int" where
  "total_fees C height txs U = (\<Sum>i \<leftarrow> [0..<length txs]. tx_fee (after_txs C height txs i U) (txs ! i))"

lemma upt_Cons_Suc: "[0..<length (x # xs)] = 0 # map Suc [0..<length xs]"
  by (simp add: map_Suc_upt upt_conv_Cons del: upt_Suc)

lemma total_fees_Cons: "total_fees C height (tx # txs) U = tx_fee U tx + total_fees C height txs (apply_tx C height tx U)"
  unfolding total_fees_def upt_Cons_Suc by (simp add: after_txs_Cons comp_def)

definition fresh_outputs :: "crypto \<Rightarrow> CTransaction list \<Rightarrow> utxo \<Rightarrow> bool" where
  "fresh_outputs C txs U \<longleftrightarrow> distinct (map (ComputeHash C) txs) \<and>
     (\<forall>tx \<in> set txs. \<forall>j < length (vout tx). U (COutPoint (ComputeHash C tx) (word_of_nat j)) = None)"

lemma apply_tx_other: "out_hash k \<noteq> ComputeHash C tx \<Longrightarrow> U k = None \<Longrightarrow> apply_tx C height tx U k = None"
  by (simp add: apply_tx_def add_outs_other spend_ins_def restrict_map_def)

lemma fresh_outputs_Cons:
  assumes "fresh_outputs C (tx # txs) U"
  shows "fresh_outputs C txs (apply_tx C height tx U)"
  unfolding fresh_outputs_def
proof (intro conjI ballI allI impI)
  show "distinct (map (ComputeHash C) txs)" using assms by (simp add: fresh_outputs_def)
  fix t j assume t: "t \<in> set txs" "j < length (vout t)"
  then have "ComputeHash C t \<noteq> ComputeHash C tx" using assms t(1) by (simp add: fresh_outputs_def) (metis imageI)
  moreover have "U (COutPoint (ComputeHash C t) (word_of_nat j)) = None" using assms t by (simp add: fresh_outputs_def)
  ultimately show "apply_tx C height tx U (COutPoint (ComputeHash C t) (word_of_nat j)) = None" using apply_tx_other by simp
qed

text \<open>The loop: what every transaction has passed, on the coins that it saw.\<close>

lemma connect_txs_sound:
  assumes "connect_txs env h pindex nLockTimeFlags flags fScriptChecks max_sigops txs i state st = Ok (Inr st')"
    "coins_valid (cs_view st)" "utxo_ok (coins (cs_view st))" "\<forall>tx \<in> set txs. tx_rules tx" "fresh_outputs (cn_crypto env) txs (coins (cs_view st))"
    "height_ok (nHeight (h pindex))"
  defines "V \<equiv> \<lambda>j. after_txs (cn_crypto env) (nHeight (h pindex)) txs j (coins (cs_view st))"
  shows "shows_coins (V (length txs)) (cs_view st) (cs_view st') \<and>
    (\<forall>j < length txs. connectable (cn_crypto env) (txs ! j) (V j)) \<and>
    cs_fees st' = cs_fees st + total_fees (cn_crypto env) (nHeight (h pindex)) txs (coins (cs_view st)) \<and>
    cs_undo st' = cs_undo st @ map (\<lambda>j. if IsCoinBase (txs ! j) then [] else undo_of (V j) (txs ! j)) [(if i = 0 then 1 else 0)..<length txs] \<and>
    (\<exists>queue. cs_queue st' = cs_queue st @ queue) \<and>
    (list_all (\<lambda>r. r = Ok ()) (cs_queue st') \<longrightarrow>
      (\<forall>j < length txs. \<not> IsCoinBase (txs ! j) \<longrightarrow> spends_ok env h pindex nLockTimeFlags flags fScriptChecks (V j) (txs ! j)))"
  using assms(1-5) unfolding V_def
proof (induction txs arbitrary: i st)
  case Nil
  then show ?case using shows_coins_same [of "cs_view st" "cs_view st"] by (simp add: same_view_def total_fees_def)
next
  case (Cons tx txs)
  let ?C = "cn_crypto env" and ?H = "nHeight (h pindex)" and ?U = "coins (cs_view st)"
  obtain st1 where c: "connect_tx env h pindex nLockTimeFlags flags fScriptChecks max_sigops tx i state st = Ok (Inr st1)"
    "connect_txs env h pindex nLockTimeFlags flags fScriptChecks max_sigops txs (i + 1) state st1 = Ok (Inr st')"
    using Cons.prems(1) by (auto simp: sbind_Inr)
  have one: "connected_tx env ?H tx i st st1"
    "list_all (\<lambda>r. r = Ok ()) (cs_queue st1) \<and> \<not> IsCoinBase tx \<Longrightarrow> spends_ok env h pindex nLockTimeFlags flags fScriptChecks ?U tx"
    using connect_tx_sound [OF c(1) Cons.prems(2,3)] Cons.prems(4,5) by (simp_all add: fresh_outputs_def)
  then have s: "connectable ?C tx ?U" "shows_coins (apply_tx ?C ?H tx ?U) (cs_view st) (cs_view st1)" "cs_fees st1 = cs_fees st + tx_fee ?U tx"
    "cs_undo st1 = (if i > 0 then cs_undo st @ [if IsCoinBase tx then [] else undo_of ?U tx] else cs_undo st)"
    by (simp_all add: connected_tx_def)
  obtain q1 where q1: "cs_queue st1 = cs_queue st @ q1" using one(1) by (auto simp: connected_tx_def)
  note v1 = shows_coinsD [OF s(2)]
  have ok: "utxo_ok (coins (cs_view st1))"
    using apply_tx_utxo_ok [OF Cons.prems(3) assms(6), of tx ?C] tx_rules_outputs [of tx] Cons.prems(4) unfolding v1(2) by simp
  have fr: "fresh_outputs ?C txs (coins (cs_view st1))" unfolding v1(2) by (rule fresh_outputs_Cons [OF Cons.prems(5)])
  note IH = Cons.IH [OF c(2) v1(1) ok _ fr, unfolded v1(2)]
  have tr: "\<forall>tx \<in> set txs. tx_rules tx" using Cons.prems(4) by simp
  obtain q2 where q2: "cs_queue st' = cs_queue st1 @ q2" using IH [OF tr] by blast
  have sc: "shows_coins (after_txs ?C ?H (tx # txs) (length (tx # txs)) ?U) (cs_view st) (cs_view st')"
    using IH [OF tr] shows_coins_trans [OF s(2)] by (simp add: after_txs_Cons)
  have cn: "connectable ?C ((tx # txs) ! j) (after_txs ?C ?H (tx # txs) j ?U)" if "j < length (tx # txs)" for j
    using that IH [OF tr] s(1) by (cases j) (simp_all add: after_txs_Cons)
  have fe: "cs_fees st' = cs_fees st + total_fees ?C ?H (tx # txs) ?U" using IH [OF tr] s(3) by (simp add: total_fees_Cons)
  let ?u = "\<lambda>j. if IsCoinBase ((tx # txs) ! j) then [] else undo_of (after_txs ?C ?H (tx # txs) j ?U) ((tx # txs) ! j)"
  have m: "map ?u [1..<length (tx # txs)] = map (\<lambda>j. if IsCoinBase (txs ! j) then [] else undo_of (after_txs ?C ?H txs j (apply_tx ?C ?H tx ?U)) (txs ! j)) [0..<length txs]"
    unfolding length_Cons One_nat_def map_Suc_upt [symmetric] by (simp add: after_txs_Cons)
  have u': "cs_undo st' = cs_undo st1 @ map ?u [1..<length (tx # txs)]" using IH [OF tr] unfolding m by simp
  have un: "cs_undo st' = cs_undo st @ map ?u [(if i = 0 then 1 else 0)..<length (tx # txs)]"
  proof (cases "i = 0")
    case True
    then show ?thesis using u' s(4) by (simp del: upt_Suc)
  next
    case False
    have "[0..<length (tx # txs)] = 0 # [1..<length (tx # txs)]" by (simp add: upt_conv_Cons del: upt_Suc)
    then show ?thesis using u' s(4) False by (simp del: upt_Suc)
  qed
  have sp: "spends_ok env h pindex nLockTimeFlags flags fScriptChecks (after_txs ?C ?H (tx # txs) j ?U) ((tx # txs) ! j)"
    if "list_all (\<lambda>r. r = Ok ()) (cs_queue st')" "j < length (tx # txs)" "\<not> IsCoinBase ((tx # txs) ! j)" for j
    using that IH [OF tr] one(2) q2 by (cases j) (simp_all add: after_txs_Cons)
  have "\<exists>queue. cs_queue st' = cs_queue st @ queue" using q1 q2 by simp
  then show ?case using sc cn fe un sp by blast
qed

section \<open>Connecting a block and undoing it\<close>

lemma SetBestBlock_top:
  assumes "coins_valid s"
  shows "coins_valid (SetBestBlock h s)" "coins (SetBestBlock h s) = coins s" "tl (coins_views (SetBestBlock h s)) = tl (coins_views s)"
    "h \<noteq> uint256_null \<Longrightarrow> snd (hd (coins_views (SetBestBlock h s))) = h"
  using assms by (simp_all add: SetBestBlock_def coins_valid_def coins_views_def coins_def)

lemma overwrites_same:
  assumes "coins_valid s" "overwrites ks s = (over, s')"
  shows "same_view s s' \<and> (over \<longleftrightarrow> (\<exists>k \<in> set ks. coins s k \<noteq> None))"
  using assms
proof (induction ks arbitrary: s)
  case Nil
  then show ?case by (simp add: same_view_refl)
next
  case (Cons k ks)
  obtain s1 where h: "HaveCoin k s = (coins s k \<noteq> None, s1)" "same_view s s1"
    using HaveCoin_valid [OF Cons.prems(1), of k] by (auto simp: same_view_def)
  show ?case
  proof (cases "coins s k")
    case None
    then have "overwrites ks s1 = (over, s')" using Cons.prems(2) h(1) by simp
    from Cons.IH [OF same_viewD(1) [OF h(2)] this] show ?thesis using None same_viewD(2) [OF h(2)] same_view_trans [OF h(2)] by auto
  next
    case (Some c)
    then have "over" "s' = s1" using Cons.prems(2) h(1) by auto
    then show ?thesis using h(2) Some by simp
  qed
qed

lemma fresh_out_points:
  assumes "\<forall>k \<in> set (concat (map (out_points C) txs)). U k = None" "distinct (map (ComputeHash C) txs)"
  shows "fresh_outputs C txs U"
  unfolding fresh_outputs_def
proof (intro conjI ballI allI impI)
  fix tx j assume "tx \<in> set txs" "j < length (vout tx)"
  then have "COutPoint (ComputeHash C tx) (word_of_nat j) \<in> set (out_points C tx)" "set (out_points C tx) \<subseteq> set (concat (map (out_points C) txs))"
    by (auto simp: out_points_def)
  then show "U (COutPoint (ComputeHash C tx) (word_of_nat j)) = None" using assms(1) by blast
qed (rule assms(2))

lemma block_coinbase: "block_rules block \<Longrightarrow> i < length (vtx block) \<Longrightarrow> IsCoinBase (vtx block ! i) \<longleftrightarrow> i = 0"
  by (cases "vtx block"; cases i) (auto simp: block_rules_def)

lemma CheckBlock_rules:
  assumes "CheckBlock henv C block fChecked pow root state = Ok ((True, state'), fc)" "fChecked \<longrightarrow> block_rules block"
  shows "block_rules block"
proof (cases fChecked)
  case False
  obtain good state1 where "CheckBlockHeader henv (CBlockHeader.truncate block) pow state = Ok (good, state1)"
    using assms(1) False by (auto simp: CheckBlock_def obind_Ok)
  from CheckBlock_judged [OF this, of C root] show ?thesis using assms(1) False by auto
qed (use assms in simp)

text \<open>The lock time flags and the script flags that are in force for a block.\<close>

definition flags_in_force :: "Params \<Rightarrow> store \<Rightarrow> ptr \<Rightarrow> VersionBitsCache \<Rightarrow> u32 \<Rightarrow> u32 \<Rightarrow> bool" where
  "flags_in_force params h pindex caches locks flags \<longleftrightarrow>
     (\<exists>csv caches1 caches2. VersionBitsState h (pprev (h pindex)) params DEPLOYMENT_CSV caches = Some (Ok (csv, caches1)) \<and>
        locks = (if csv = ACTIVE then LOCKTIME_VERIFY_SEQUENCE else 0) \<and> GetBlockScriptFlags h pindex params caches1 = Some (Ok (flags, caches2)))"

text \<open>What has been checked when a block that is not the first one has been connected.\<close>

record connection =
  cx_prev :: ptr
  cx_scripts :: bool
  cx_locks :: u32
  cx_flags :: u32
  cx_st :: connect_state

definition block_connected :: "connect_env \<Rightarrow> header_env \<Rightarrow> HeaderManager \<Rightarrow> CBlock \<Rightarrow> ptr \<Rightarrow> VersionBitsCache \<Rightarrow> coins_state \<Rightarrow> connection \<Rightarrow> bool" where
  "block_connected env henv hm block pindex caches s x \<longleftrightarrow>
     (let h = hm_store hm; C = cn_crypto env; height = nHeight (h pindex); V = (\<lambda>j. after_txs C height (vtx block) j (coins s)); st = cx_st x
      in pprev (h pindex) = Some (cx_prev x) \<and> snd (hd (coins_views s)) = phashBlock (h (cx_prev x)) \<and>
         script_checks_needed env (env_consensus henv) hm pindex = Ok (cx_scripts x) \<and>
         flags_in_force (env_consensus henv) h pindex caches (cx_locks x) (cx_flags x) \<and>
         block_rules block \<and> all_connectable C height (vtx block) (coins s) \<and>
         shows_coins (V (length (vtx block))) s (cs_view st) \<and>
         cs_undo st = all_undo C height (vtx block) (coins s) \<and>
         cs_fees st = total_fees C height (vtx block) (coins s) \<and>
         (\<forall>j < length (vtx block). j > 0 \<longrightarrow> spends_ok env h pindex (cx_locks x) (cx_flags x) (cx_scripts x) (V j) (vtx block ! j)))"

lemma connect_transactions_sound:
  assumes "connect_transactions env h pindex locks flags scripts just max_sigops block state s = Ok (Inr (state', st))"
    "coins_valid s" "utxo_ok (coins s)" "block_rules block" "fresh_outputs (cn_crypto env) (vtx block) (coins s)" "height_ok (nHeight (h pindex))"
  defines "V \<equiv> \<lambda>j. after_txs (cn_crypto env) (nHeight (h pindex)) (vtx block) j (coins s)"
  shows "all_connectable (cn_crypto env) (nHeight (h pindex)) (vtx block) (coins s) \<and> shows_coins (V (length (vtx block))) s (cs_view st) \<and>
         cs_undo st = all_undo (cn_crypto env) (nHeight (h pindex)) (vtx block) (coins s) \<and>
         cs_fees st = total_fees (cn_crypto env) (nHeight (h pindex)) (vtx block) (coins s) \<and>
         (\<forall>j < length (vtx block). j > 0 \<longrightarrow> spends_ok env h pindex locks flags scripts (V j) (vtx block ! j))"
proof -
  obtain st0 where c: "connect_txs env h pindex locks flags scripts max_sigops (vtx block) 0 st0
                \<lparr>cs_view = s, cs_undo = [], cs_fees = 0, cs_sigops = 0, cs_queue = []\<rparr> = Ok (Inr st)" and q: "list_all (\<lambda>r. r = Ok ()) (cs_queue st)"
    using assms(1) by (auto simp: connect_transactions_def Let_def sbind_Inr split: if_splits prod.splits)
  have tr: "\<forall>tx \<in> set (vtx block). tx_rules tx" using assms(4) by (simp add: block_rules_def)
  note cb = block_coinbase [OF assms(4)]
  note S = connect_txs_sound [OF c, simplified connect_state.simps, OF assms(2,3) tr assms(5,6)]
  have "all_connectable (cn_crypto env) (nHeight (h pindex)) (vtx block) (coins s)" using S cb by (simp add: all_connectable_def)
  moreover have "cs_undo st = all_undo (cn_crypto env) (nHeight (h pindex)) (vtx block) (coins s)" using S cb by (simp add: all_undo_def)
  ultimately show ?thesis using S q cb unfolding V_def by simp
qed

lemma after_loop_eq_Ok: "after_loop r f = Some (Ok y) \<longleftrightarrow> (\<exists>x. r = Some (Ok x) \<and> f x = Some (Ok y))"
  by (cases r; cases "the r") (simp_all add: after_loop_def then_loop_def)

lemma connect_checked_sound:
  assumes c: "connect_checked env henv penv hm block pindex prev scripts just caches g state s = Some (Ok (Inr r))"
    and v: "coins_valid s" "utxo_ok (coins s)" and b: "block_rules block" "height_ok (nHeight (hm_store hm pindex))"
    and d: "distinct (map (ComputeHash (cn_crypto env)) (vtx block))" "enforce_BIP30 (env_consensus henv) (hm_store hm) pindex prev = Ok True"
      "pprev (hm_store hm pindex) = Some prev"
  shows "\<exists>s0 st locks flags max_sigops state' caches' g'. same_view s s0 \<and> fresh_outputs (cn_crypto env) (vtx block) (coins s) \<and>
    flags_in_force (env_consensus henv) (hm_store hm) pindex caches locks flags \<and>
    connect_transactions env (hm_store hm) pindex locks flags scripts just max_sigops block state s0 = Ok (Inr (state', st)) \<and>
    check_payments env penv block (nHeight (hm_store hm pindex))
      (block_reward penv (nHeight (hm_store hm prev)) (nHeight (hm_store hm pindex)) (cs_fees st)) g state' = Ok (Inr g') \<and>
    (if just then cd_view r = cs_view st \<and> cd_undo r = None
     else write_block env (hm_store hm pindex) (env_GetHash henv (CBlockHeader.truncate block)) st caches' g' state' = Ok (Inr r))"
proof -
  obtain over s0 where o: "overwrites (concat (map (out_points (cn_crypto env)) (vtx block))) s = (over, s0)" by fastforce
  note ow = overwrites_same [OF v(1) o]
  have no: "\<not> over" using c o by (auto simp: connect_checked_def d(2) Let_def)
  then have fr: "fresh_outputs (cn_crypto env) (vtx block) (coins s)" using ow by (intro fresh_out_points d(1)) blast
  let ?run = "\<lambda>locks flags caches2. sbind (connect_transactions env (hm_store hm) pindex locks flags scripts just
                             (MaxBlockSigOps (nHeight (hm_store hm pindex) \<ge> DIP0001Height (env_consensus henv))) block state s0) (\<lambda>(state, st).
                    sbind (check_payments env penv block (nHeight (hm_store hm pindex)) (block_reward penv (nHeight (hm_store hm prev)) (nHeight (hm_store hm pindex)) (cs_fees st)) g state) (\<lambda>g.
                      if just
                      then Ok (Inr \<lparr>cd_state = state, cd_view = cs_view st, cd_undo = None, cd_index = hm_store hm pindex, cd_caches = caches2, cd_gov = g\<rparr>)
                      else write_block env (hm_store hm pindex) (env_GetHash henv (CBlockHeader.truncate block)) st caches2 g state))"
  have "after_loop (VersionBitsState (hm_store hm) (Some prev) (env_consensus henv) DEPLOYMENT_CSV caches) (\<lambda>(csv, caches1).
      after_loop (GetBlockScriptFlags (hm_store hm) pindex (env_consensus henv) caches1) (\<lambda>(flags, caches2).
        Some (?run (if csv = ACTIVE then LOCKTIME_VERIFY_SEQUENCE else 0) flags caches2))) = Some (Ok (Inr r))"
  proof (cases "nHeight (hm_store hm pindex) = nSuperblockStartBlock (env_consensus henv) \<and> nSuperblockStartHash (env_consensus henv) \<noteq> uint256_null \<and>
      env_GetHash henv (CBlockHeader.truncate block) \<noteq> nSuperblockStartHash (env_consensus henv)")
    case True
    then show ?thesis using c no o unfolding connect_checked_def Let_def d(2) by simp
  next
    case False
    show ?thesis using c unfolding connect_checked_def Let_def d(2) outcome.case o if_True prod.case if_not_P [OF no] if_not_P [OF False] .
  qed
  then obtain csv caches1 flags caches2 where f: "VersionBitsState (hm_store hm) (Some prev) (env_consensus henv) DEPLOYMENT_CSV caches = Some (Ok (csv, caches1))"
    "GetBlockScriptFlags (hm_store hm) pindex (env_consensus henv) caches1 = Some (Ok (flags, caches2))"
    "?run (if csv = ACTIVE then LOCKTIME_VERIFY_SEQUENCE else 0) flags caches2 = Ok (Inr r)"
    unfolding after_loop_eq_Ok split_paired_Ex prod.case option.inject by blast
  define locks :: u32 where "locks = (if csv = ACTIVE then LOCKTIME_VERIFY_SEQUENCE else 0)"
  have fl: "flags_in_force (env_consensus henv) (hm_store hm) pindex caches locks flags" using f(1,2) d(3) unfolding flags_in_force_def locks_def by auto
  have k: "?run locks flags caches2 = Ok (Inr r)" using f(3) unfolding locks_def .
  from k obtain state' st g' where "connect_transactions env (hm_store hm) pindex locks flags scripts just
                             (MaxBlockSigOps (nHeight (hm_store hm pindex) \<ge> DIP0001Height (env_consensus henv))) block state s0 = Ok (Inr (state', st))"
    "check_payments env penv block (nHeight (hm_store hm pindex)) (block_reward penv (nHeight (hm_store hm prev)) (nHeight (hm_store hm pindex)) (cs_fees st)) g state' = Ok (Inr g')"
    "(if just then Ok (Inr \<lparr>cd_state = state', cd_view = cs_view st, cd_undo = None, cd_index = hm_store hm pindex, cd_caches = caches2, cd_gov = g'\<rparr>)
      else write_block env (hm_store hm pindex) (env_GetHash henv (CBlockHeader.truncate block)) st caches2 g' state') = Ok (Inr r)"
    unfolding sbind_Inr split_paired_Ex prod.case by blast
  moreover have "if just then cd_view r = cs_view st \<and> cd_undo r = None
     else write_block env (hm_store hm pindex) (env_GetHash henv (CBlockHeader.truncate block)) st caches2 g' state' = Ok (Inr r)"
    using calculation(3) by (cases just) auto
  ultimately show ?thesis using ow fr fl by blast
qed

lemma ConnectBlock_sound:
  assumes c: "ConnectBlock env henv penv hm block fChecked pindex just caches g state s = Some (Ok (Inr r))"
    and v: "coins_valid s" "utxo_ok (coins s)" and b: "fChecked \<longrightarrow> block_rules block" "height_ok (nHeight (hm_store hm pindex))"
    and n: "env_GetHash henv (CBlockHeader.truncate block) \<noteq> hashGenesisBlock (env_consensus henv)"
    and d: "distinct (map (ComputeHash (cn_crypto env)) (vtx block))"
      "pprev (hm_store hm pindex) = Some prev" "enforce_BIP30 (env_consensus henv) (hm_store hm) pindex prev = Ok True"
  obtains x g' state' caches' where "block_connected env henv hm block pindex caches s x" "cx_prev x = prev"
    "check_payments env penv block (nHeight (hm_store hm pindex))
      (block_reward penv (nHeight (hm_store hm prev)) (nHeight (hm_store hm pindex)) (cs_fees (cx_st x))) g state' = Ok (Inr g')"
    "if just then cd_view r = cs_view (cx_st x) \<and> cd_undo r = None
     else write_block env (hm_store hm pindex) (env_GetHash henv (CBlockHeader.truncate block)) (cx_st x) caches' g' state' = Ok (Inr r)"
proof -
  obtain s1 where g: "coins_GetBestBlock s = (snd (hd (coins_views s)), s1)" "same_view s s1"
    using GetBestBlock_valid [OF v(1)] by (auto simp: same_view_def)
  note s1 = same_viewD [OF g(2)]
  obtain state1 fc scripts where k: "CheckBlock henv (cn_crypto env) block fChecked (\<not> just) (\<not> just) state = Ok ((True, state1), fc)"
    "snd (hd (coins_views s)) = phashBlock (hm_store hm prev)" "script_checks_needed env (env_consensus henv) hm pindex = Ok scripts"
    "connect_checked env henv penv hm block pindex prev scripts just caches g state1 s1 = Some (Ok (Inr r))"
    using c g(1) n d(2) by (auto simp: ConnectBlock_def Let_def after_loop_eq_Ok split: if_splits)
  have br: "block_rules block" by (rule CheckBlock_rules [OF k(1) b(1)])
  obtain s0 st locks flags max_sigops state' caches' g' where x: "same_view s1 s0" "fresh_outputs (cn_crypto env) (vtx block) (coins s1)" "flags_in_force (env_consensus henv) (hm_store hm) pindex caches locks flags"
    "connect_transactions env (hm_store hm) pindex locks flags scripts just max_sigops block state1 s0 = Ok (Inr (state', st))"
    "check_payments env penv block (nHeight (hm_store hm pindex))
      (block_reward penv (nHeight (hm_store hm prev)) (nHeight (hm_store hm pindex)) (cs_fees st)) g state' = Ok (Inr g')"
    "if just then cd_view r = cs_view st \<and> cd_undo r = None
     else write_block env (hm_store hm pindex) (env_GetHash henv (CBlockHeader.truncate block)) st caches' g' state' = Ok (Inr r)"
    using connect_checked_sound [OF k(4) s1(1) _ br b(2) d(1,3,2)] v(2) s1(2) by auto
  have sv: "same_view s s0" using same_view_trans [OF g(2) x(1)] .
  note s0 = same_viewD [OF sv]
  have fr: "fresh_outputs (cn_crypto env) (vtx block) (coins s0)" using x(2) s1(2) s0(2) by simp
  have uo: "utxo_ok (coins s0)" using v(2) s0(2) by simp
  note T = connect_transactions_sound [OF x(4) s0(1) uo br fr b(2), unfolded s0(2)]
  define X where "X = \<lparr>cx_prev = prev, cx_scripts = scripts, cx_locks = locks, cx_flags = flags, cx_st = st\<rparr>"
  have "block_connected env henv hm block pindex caches s X"
    using T br k(2,3) d(2) x(3) shows_coins_trans [OF shows_coins_same [OF sv]] unfolding block_connected_def X_def Let_def connection.simps by blast
  then show ?thesis using that [of X state' g' caches'] x(5,6) by (simp add: X_def)
qed

lemma write_block_view:
  assumes "write_block env b block_hash st caches g state = Ok (Inr r)"
  shows "cd_view r = SetBestBlock block_hash (cs_view st)" "cd_undo r = (if nStatus b AND BLOCK_HAVE_UNDO \<noteq> 0 then None else Some (cs_undo st))"
  using assms by (auto simp: write_block_def Let_def sbind_Inr obind_Ok split: option.splits)

section \<open>Undoing a block restores the coins\<close>

text \<open>
  C7. A connected block can be undone.  If \<^verbatim>\<open>ConnectBlock\<close> accepts a block that is not the first one, on valid caches over coins whose
  amounts are in range, and writes the undo data, then \<^verbatim>\<open>DisconnectBlock\<close> with this undo data ends cleanly, and all layers
  of the caches show the same coins and the same best block as before the block was connected.  The transactions of the block have
  different hashes, and the test of BIP 30 is made for it.
\<close>

theorem disconnect_undoes_connect:
  assumes "ConnectBlock env henv penv hm block fChecked pindex False caches g state s = Some (Ok (Inr r))"
    "coins_valid s" "utxo_ok (coins s)" "fChecked \<longrightarrow> block_rules block" "height_ok (nHeight (hm_store hm pindex))"
    "env_GetHash henv (CBlockHeader.truncate block) \<noteq> hashGenesisBlock (env_consensus henv)"
    "distinct (map (ComputeHash (cn_crypto env)) (vtx block))"
    "pprev (hm_store hm pindex) = Some prev" "enforce_BIP30 (env_consensus henv) (hm_store hm) pindex prev = Ok True"
    "phashBlock (hm_store hm prev) \<noteq> uint256_null" "cd_undo r = Some vtxundo"
  shows "\<exists>s'. DisconnectBlock (cn_crypto env) True (Some vtxundo) True block (nHeight (hm_store hm pindex)) (phashBlock (hm_store hm prev)) (cd_view r) =
      Ok (DISCONNECT_OK, s') \<and> coins_valid s' \<and> coins_views s' = coins_views s"
proof (rule ConnectBlock_sound [OF assms(1-9)])
  let ?C = "cn_crypto env" and ?H = "nHeight (hm_store hm pindex)" and ?hash = "env_GetHash henv (CBlockHeader.truncate block)"
  fix x g' state' caches' assume x: "block_connected env henv hm block pindex caches s x" "cx_prev x = prev"
    and w: "if False then cd_view r = cs_view (cx_st x) \<and> cd_undo r = None
     else write_block env (hm_store hm pindex) ?hash (cx_st x) caches' g' state' = Ok (Inr r)"
  have a: "all_connectable ?C ?H (vtx block) (coins s)" "shows_coins (after_txs ?C ?H (vtx block) (length (vtx block)) (coins s)) s (cs_view (cx_st x))"
    "cs_undo (cx_st x) = all_undo ?C ?H (vtx block) (coins s)" "snd (hd (coins_views s)) = phashBlock (hm_store hm prev)" "block_rules block"
    using x by (simp_all add: block_connected_def Let_def)
  have u: "vtxundo = all_undo ?C ?H (vtx block) (coins s)" using write_block_view(2) w assms(11) a(3) by (auto split: if_splits)
  note c = shows_coinsD [OF a(2)] and b = SetBestBlock_top [OF shows_coinsD(1) [OF a(2)], of ?hash]
  have r: "cd_view r = SetBestBlock ?hash (cs_view (cx_st x))" using write_block_view(1) w by simp
  obtain s1 where s1: "undo_txs ?C (vtx block) vtxundo ?H (length (vtx block)) True (cd_view r) = Ok (DISCONNECT_OK, True, s1)" "shows_coins (coins s) (cd_view r) s1"
    using undo_txs_top [OF a(1) assms(3,5) order_refl, of "cd_view r" True] b c unfolding r u by auto
  note c1 = shows_coinsD [OF s1(2)] and e = SetBestBlock_top [OF shows_coinsD(1) [OF s1(2)], of "phashBlock (hm_store hm prev)"]
  let ?s' = "SetBestBlock (phashBlock (hm_store hm prev)) s1"
  have tl: "tl (coins_views ?s') = tl (coins_views s)" using e(3) s1(2) b(3) a(2) unfolding r shows_coins_def by simp
  have "coins_views ?s' = (coins s, phashBlock (hm_store hm prev)) # tl (coins_views s)"
    using coins_views_hd [of ?s'] e(2) e(4) [OF assms(10)] c1(2) tl by simp
  then have "coins_views ?s' = coins_views s" using coins_views_hd [of s] a(4) by simp
  moreover have "length vtxundo + 1 = length (vtx block)" using a(5) unfolding u by (cases "vtx block") (simp_all add: all_undo_def block_rules_def del: upt_Suc)
  ultimately show ?thesis using s1(1) e(1) by (simp add: DisconnectBlock_def)
qed

section \<open>Every spend has been checked\<close>

text \<open>
  C6. What \<^verbatim>\<open>ConnectBlock\<close> has checked when it accepts a block that is not the genesis block, has distinct transaction
  ids and falls under the check of BIP 30.  The block obeys the rules on its own structure, and the new coins are
  those that its transactions leave, applied in order.  Each transaction after the coinbase spends distinct coins that
  exist at its place and are mature, pays out no more than they hold, and is final with regard to the
  sequence locks of its inputs if they are in force; and unless the block is buried below the block that is assumed to be valid, or the script
  execution cache, which is a parameter, contains the transaction with these flags, each input has satisfied the script of the coin that it spends,
  under the script flags that are in force for the block.
\<close>

theorem ConnectBlock_checks_spends:
  assumes "ConnectBlock env henv penv hm block fChecked pindex just caches g state s = Some (Ok (Inr r))"
    "coins_valid s" "utxo_ok (coins s)" "fChecked \<longrightarrow> block_rules block" "height_ok (nHeight (hm_store hm pindex))"
    "env_GetHash henv (CBlockHeader.truncate block) \<noteq> hashGenesisBlock (env_consensus henv)"
    "distinct (map (ComputeHash (cn_crypto env)) (vtx block))"
    "pprev (hm_store hm pindex) = Some prev" "enforce_BIP30 (env_consensus henv) (hm_store hm) pindex prev = Ok True"
  defines "V \<equiv> \<lambda>j. after_txs (cn_crypto env) (nHeight (hm_store hm pindex)) (vtx block) j (coins s)"
  shows "block_rules block \<and> coins_valid (cd_view r) \<and> coins (cd_view r) = V (length (vtx block)) \<and>
    (\<exists>scripts locks flags. script_checks_needed env (env_consensus henv) hm pindex = Ok scripts \<and> flags_in_force (env_consensus henv) (hm_store hm) pindex caches locks flags \<and>
      (\<forall>j. 0 < j \<and> j < length (vtx block) \<longrightarrow>
        distinct (map prevout (vin (vtx block ! j))) \<and> spends_ok env (hm_store hm) pindex locks flags scripts (V j) (vtx block ! j)))"
proof (rule ConnectBlock_sound [OF assms(1-9)])
  fix x g' state' caches' assume x: "block_connected env henv hm block pindex caches s x"
    and w: "if just then cd_view r = cs_view (cx_st x) \<and> cd_undo r = None
     else write_block env (hm_store hm pindex) (env_GetHash henv (CBlockHeader.truncate block)) (cx_st x) caches' g' state' = Ok (Inr r)"
  have a: "block_rules block" "shows_coins (V (length (vtx block))) s (cs_view (cx_st x))" "script_checks_needed env (env_consensus henv) hm pindex = Ok (cx_scripts x)"
    "flags_in_force (env_consensus henv) (hm_store hm) pindex caches (cx_locks x) (cx_flags x)"
    "\<forall>j < length (vtx block). j > 0 \<longrightarrow> spends_ok env (hm_store hm) pindex (cx_locks x) (cx_flags x) (cx_scripts x) (V j) (vtx block ! j)"
    using x by (simp_all add: block_connected_def Let_def V_def)
  have d: "distinct (map prevout (vin (vtx block ! j)))" if "j < length (vtx block)" for j using a(1) that by (simp add: block_rules_def tx_rules_def)
  have "coins_valid (cd_view r) \<and> coins (cd_view r) = V (length (vtx block))"
    using w shows_coinsD [OF a(2)] SetBestBlock_top [OF shows_coinsD(1) [OF a(2)]] write_block_view(1) by (cases just) auto
  then show ?thesis using a(1,3-5) d by blast
qed

section \<open>No inflation\<close>

definition utxo_total :: "utxo \<Rightarrow> int" where
  "utxo_total U = (\<Sum>k \<in> dom U. nValue (out (the (U k))))"

lemma utxo_total_update:
  assumes "finite (dom U)" "\<forall>c. U k = Some c \<longrightarrow> 0 \<le> nValue (out c)"
  shows "utxo_total (U(k \<mapsto> c)) \<le> utxo_total U + nValue (out c)"
proof -
  let ?f = "\<lambda>i. nValue (out (the (U i)))"
  have d: "dom (U(k \<mapsto> c)) = insert k (dom U - {k})" by auto
  have eq: "(\<Sum>i \<in> dom U - {k}. nValue (out (the ((U(k \<mapsto> c)) i)))) = (\<Sum>i \<in> dom U - {k}. ?f i)" by (rule sum.cong) auto
  have "utxo_total (U(k \<mapsto> c)) = nValue (out c) + (\<Sum>i \<in> dom U - {k}. ?f i)"
    unfolding utxo_total_def d using assms(1) eq by (subst sum.insert) auto
  moreover have "(\<Sum>i \<in> dom U - {k}. ?f i) \<le> utxo_total U"
    unfolding utxo_total_def using assms by (cases "k \<in> dom U") (auto simp: sum_diff1)
  ultimately show ?thesis by simp
qed

lemma add_outs_total:
  assumes "finite (dom U)" "utxo_ok U" "height_ok height" "\<forall>txout \<in> set outs. MoneyRange (nValue txout)"
  shows "finite (dom (add_outs txid height cb i outs U)) \<and> utxo_total (add_outs txid height cb i outs U) \<le> utxo_total U + sum_list (map nValue outs)"
  using assms
proof (induction outs arbitrary: i U)
  case (Cons txout outs)
  let ?k = "COutPoint txid (word_of_nat i)"
  define U1 where "U1 = (if IsUnspendable (scriptPubKey txout) then U else U(?k \<mapsto> Coin_of txout height cb))"
  have ok: "utxo_ok U1" using Cons.prems(2-4) Coin_of_height0 [OF Cons.prems(3)] by (auto simp: U1_def utxo_ok_def)
  have "\<forall>c. U ?k = Some c \<longrightarrow> 0 \<le> nValue (out c)" using Cons.prems(2) by (auto simp: utxo_ok_def MoneyRange_def)
  then have t: "utxo_total U1 \<le> utxo_total U + nValue txout"
    using utxo_total_update [OF Cons.prems(1), of ?k "Coin_of txout height cb"] Cons.prems(4) by (simp add: U1_def MoneyRange_def)
  have f: "finite (dom U1)" using Cons.prems(1) by (simp add: U1_def)
  then show ?case using Cons.IH [OF f ok Cons.prems(3), of "i + 1"] Cons.prems(4) t unfolding add_outs.simps(2) U1_def [symmetric] by auto
qed simp

lemma spend_ins_total:
  assumes "finite (dom U)" "distinct (map prevout ins)" "\<forall>txin \<in> set ins. U (prevout txin) \<noteq> None"
  shows "finite (dom (spend_ins ins U))" "utxo_total (spend_ins ins U) = utxo_total U - inputs_value U ins"
proof -
  let ?f = "\<lambda>k. nValue (out (the (U k)))" and ?K = "set (map prevout ins)"
  have d: "dom (spend_ins ins U) = dom U - ?K" by (auto simp: spend_ins_def)
  show "finite (dom (spend_ins ins U))" unfolding d using assms(1) by simp
  have "inputs_value U ins = sum_list (map ?f (map prevout ins))"
    using assms(3) by (auto simp: inputs_value_def comp_def intro!: arg_cong [where f = sum_list] map_cong)
  also have "\<dots> = sum ?f ?K" using assms(2) by (rule sum_list_distinct_conv_sum_set)
  finally have v: "inputs_value U ins = sum ?f ?K" .
  have "utxo_total (spend_ins ins U) = sum ?f (dom U - ?K)" unfolding utxo_total_def d by (rule sum.cong) (auto simp: spend_ins_def)
  also have "\<dots> = sum ?f (dom U) - sum ?f ?K" using assms(1,3) by (intro sum_diff) auto
  finally show "utxo_total (spend_ins ins U) = utxo_total U - inputs_value U ins" by (simp add: v utxo_total_def)
qed

lemma apply_tx_total:
  assumes "finite (dom U)" "utxo_ok U" "height_ok height" "connectable C tx U"
  shows "finite (dom (apply_tx C height tx U)) \<and>
    utxo_total (apply_tx C height tx U) \<le> utxo_total U - tx_fee U tx + (if IsCoinBase tx then sum_list (map nValue (vout tx)) else 0)"
proof (cases "IsCoinBase tx")
  case True
  then show ?thesis using add_outs_total [OF assms(1-3), of "vout tx"] assms(4) by (simp add: apply_tx_def connectable_def tx_fee_def)
next
  case False
  have c: "distinct (map prevout (vin tx))" "\<forall>txin \<in> set (vin tx). U (prevout txin) \<noteq> None" using assms(4) False by (simp_all add: connectable_def)
  have "utxo_ok (spend_ins (vin tx) U)" using assms(2) by (auto simp: utxo_ok_def spend_ins_def restrict_map_def)
  from add_outs_total [OF spend_ins_total(1) [OF assms(1) c] this assms(3), of "vout tx" "ComputeHash C tx" False 0] show ?thesis
    using False assms(4) spend_ins_total(2) [OF assms(1) c] by (simp add: apply_tx_def connectable_def tx_fee_def)
qed

lemma after_txs_total:
  assumes "all_connectable C height txs U" "finite (dom U)" "utxo_ok U" "height_ok height" "n \<le> length txs"
  shows "finite (dom (after_txs C height txs n U)) \<and> utxo_total (after_txs C height txs n U) \<le>
    utxo_total U - (\<Sum>i \<leftarrow> [0..<n]. tx_fee (after_txs C height txs i U) (txs ! i)) + (if n = 0 then 0 else sum_list (map nValue (vout (txs ! 0))))"
  using assms(5)
proof (induction n)
  case (Suc n)
  let ?V = "after_txs C height txs n U" and ?tx = "txs ! n"
  have c: "connectable C ?tx ?V" "IsCoinBase ?tx \<longleftrightarrow> n = 0" using assms(1) Suc.prems by (simp_all add: all_connectable_def)
  have IH: "finite (dom ?V)" "utxo_total ?V \<le> utxo_total U - (\<Sum>i \<leftarrow> [0..<n]. tx_fee (after_txs C height txs i U) (txs ! i)) +
      (if n = 0 then 0 else sum_list (map nValue (vout (txs ! 0))))" using Suc by simp_all
  have "utxo_ok ?V" by (rule after_txs_utxo_ok [OF assms(1,3,4)]) (use Suc.prems in simp)
  note T = apply_tx_total [OF IH(1) this assms(4) c(1)]
  have S: "after_txs C height txs (Suc n) U = apply_tx C height ?tx ?V" using Suc.prems by (intro after_txs_Suc) simp
  show ?case unfolding S using T IH(2) c(2) by (cases "n = 0") auto
qed (use assms(2) in simp)

lemma IsBlockValueValid_value:
  assumes "GetValueOut (vtx block ! 0) = Ok v" "nBudgetPaymentsStartBlock (pe_params env) \<le> h" "nSuperblockStartBlock (pe_params env) \<le> h"
    "IsBlockValueValid env block h r g = Ok (True, g')"
  shows "v \<le> r + GetPaymentsLimit (pe_params env) h"
  using assms by (cases "IsValidBlockHeight (pe_params env) h") (auto simp: IsBlockValueValid_def GetPaymentsLimit_def Let_def split: if_splits)

text \<open>
  C8. A block creates no more coins than it may.  From the start of the budget payments and superblocks on, and where the
  transaction ids of the block are distinct and BIP 30 is checked, if \<^verbatim>\<open>ConnectBlock\<close> accepts a block, the total of all
  coins grows by at most the subsidy of the block, the extra payout where its height has one, and the limit on the payments
  of a superblock at this height; the fees do not add to it.
\<close>

theorem ConnectBlock_no_inflation:
  assumes "ConnectBlock env henv penv hm block fChecked pindex just caches g state s = Some (Ok (Inr r))"
    "coins_valid s" "utxo_ok (coins s)" "fChecked \<longrightarrow> block_rules block" "height_ok (nHeight (hm_store hm pindex))"
    "env_GetHash henv (CBlockHeader.truncate block) \<noteq> hashGenesisBlock (env_consensus henv)"
    "distinct (map (ComputeHash (cn_crypto env)) (vtx block))"
    "pprev (hm_store hm pindex) = Some prev" "enforce_BIP30 (env_consensus henv) (hm_store hm) pindex prev = Ok True"
    "finite (dom (coins s))" "nBudgetPaymentsStartBlock (pe_params penv) \<le> nHeight (hm_store hm pindex)"
    "nSuperblockStartBlock (pe_params penv) \<le> nHeight (hm_store hm pindex)"
  shows "finite (dom (coins (cd_view r))) \<and> utxo_total (coins (cd_view r)) \<le>
    utxo_total (coins s) + GetBlockSubsidy (nHeight (hm_store hm prev)) (pe_params penv) False +
    (if isExtraFundAllocationHeight (pe_is_main penv) (pe_params penv) (nHeight (hm_store hm pindex)) then GetExtraPayOutAmount (nHeight (hm_store hm pindex)) else 0) +
    GetPaymentsLimit (pe_params penv) (nHeight (hm_store hm pindex))"
proof (rule ConnectBlock_sound [OF assms(1-9)])
  let ?C = "cn_crypto env" and ?H = "nHeight (hm_store hm pindex)"
  fix x g' state' caches' assume x: "block_connected env henv hm block pindex caches s x"
    and p: "check_payments env penv block ?H (block_reward penv (nHeight (hm_store hm prev)) ?H (cs_fees (cx_st x))) g state' = Ok (Inr g')"
    and w: "if just then cd_view r = cs_view (cx_st x) \<and> cd_undo r = None
     else write_block env (hm_store hm pindex) (env_GetHash henv (CBlockHeader.truncate block)) (cx_st x) caches' g' state' = Ok (Inr r)"
  let ?V = "after_txs ?C ?H (vtx block) (length (vtx block)) (coins s)"
  have a: "block_rules block" "shows_coins ?V s (cs_view (cx_st x))" "all_connectable ?C ?H (vtx block) (coins s)" "cs_fees (cx_st x) = total_fees ?C ?H (vtx block) (coins s)"
    using x by (simp_all add: block_connected_def Let_def)
  have r: "coins (cd_view r) = ?V"
    using w shows_coinsD [OF a(2)] SetBestBlock_top [OF shows_coinsD(1) [OF a(2)]] write_block_view(1) by (cases just) auto
  have ne: "vtx block \<noteq> []" and v: "GetValueOut (vtx block ! 0) = Ok (sum_list (map nValue (vout (vtx block ! 0))))" using a(1) by (auto simp: block_rules_def tx_rules_def)
  obtain g1 where "IsBlockValueValid penv block ?H (block_reward penv (nHeight (hm_store hm prev)) ?H (cs_fees (cx_st x))) g = Ok (True, g1)"
    using p by (auto simp: check_payments_def obind_Ok split: if_splits)
  from IsBlockValueValid_value [OF v assms(11,12) this] after_txs_total [OF a(3) assms(10,3,5) order_refl] show ?thesis
    using ne unfolding r a(4) total_fees_def [symmetric] block_reward_def Let_def by (auto split: if_splits)
qed

section \<open>Transactions that are connected\<close>

text \<open>Conversely, a transaction that passes the checks is connected.\<close>

lemma connect_inputs_complete:
  assumes "coins_valid (cs_view st)" "utxo_ok (coins (cs_view st))" "\<not> IsCoinBase tx" "GetValueOut tx = Ok (sum_list (map nValue (vout tx)))"
    "inputs_spendable (coins (cs_view st)) (nHeight (h pindex)) (vin tx)" "sum_list (map nValue (vout tx)) \<le> inputs_value (coins (cs_view st)) (vin tx)"
    "MoneyRange (inputs_value (coins (cs_view st)) (vin tx))" "MoneyRange (cs_fees st + tx_fee (coins (cs_view st)) tx)"
    "SequenceLocks h tx nLockTimeFlags (map (\<lambda>txin. int (unat (coin_nHeight (coin_of (coins (cs_view st)) txin)))) (vin tx)) pindex = Ok True"
  shows "\<exists>view. connect_inputs env h pindex nLockTimeFlags tx state st = Ok (Inr (st\<lparr>cs_view := view, cs_fees := cs_fees st + tx_fee (coins (cs_view st)) tx\<rparr>)) \<and>
    same_view (cs_view st) view"
proof -
  let ?U = "coins (cs_view st)"
  obtain s1 where r: "CheckTxInputs (cn_fmt env) tx (nHeight (h pindex)) state (cs_view st) = (Ok ((True, state), Some (tx_fee ?U tx)), s1)" "same_view (cs_view st) s1"
    using CheckTxInputs_judged [OF assms(1) utxo_ok_amounts [OF assms(2)] assms(3,4), of "cn_fmt env" "nHeight (h pindex)" state] assms(3,5-7)
    by (auto simp: same_view_def tx_fee_def)
  have "\<forall>txin \<in> set (vin tx). coins s1 (prevout txin) \<noteq> None" using assms(5) same_viewD [OF r(2)] by (auto simp: inputs_spendable_def)
  then obtain s2 where "prev_heights (vin tx) s1 = (map (\<lambda>txin. int (unat (coin_nHeight (coin_of ?U txin)))) (vin tx), s2)" "same_view s1 s2"
    using prev_heights_same [of s1 "vin tx"] same_viewD [OF r(2)] by auto
  then show ?thesis using r(1) assms(8,9) same_view_trans [OF r(2)] by (auto simp: connect_inputs_def Let_def)
qed

lemma check_scripts_complete:
  assumes "coins_valid s" "\<forall>txin \<in> set ins. coins s (prevout txin) \<noteq> None"
    "\<forall>j < length ins. script_check (cn_crypto env) tx (i + j) flags (scriptPubKey (out (coin_of (coins s) (ins ! j)))) = Ok ()"
  shows "\<exists>queue s'. check_scripts env tx flags i ins state s = Ok (Inr (queue, s')) \<and> same_view s s' \<and> list_all (\<lambda>r. r = Ok ()) queue"
  using assms
proof (induction ins arbitrary: i s)
  case (Cons txin ins)
  obtain c s1 where a: "AccessCoin (prevout txin) s = (c, s1)" "same_view s s1" "coins s (prevout txin) = (if IsSpent c then None else Some c)"
    using AccessCoin_same [OF Cons.prems(1)] .
  then have c: "\<not> IsSpent c" "coin_of (coins s) txin = c" using Cons.prems(2) by (auto simp: coin_of_def split: if_splits)
  have ok: "script_check (cn_crypto env) tx i flags (scriptPubKey (out c)) = Ok ()" using spec [OF Cons.prems(3), of 0] c(2) by simp
  have "script_check (cn_crypto env) tx (i + 1 + j) flags (scriptPubKey (out (coin_of (coins s1) (ins ! j)))) = Ok ()" if "j < length ins" for j
    using spec [OF Cons.prems(3), of "Suc j"] that same_viewD(2) [OF a(2)] by simp
  then obtain queue s2 where "check_scripts env tx flags (i + 1) ins state s1 = Ok (Inr (queue, s2))" "same_view s1 s2" "list_all (\<lambda>r. r = Ok ()) queue"
    using Cons.IH [of s1 "i + 1"] Cons.prems(2) same_viewD [OF a(2)] by auto
  then show ?case using a(1) c(1) ok same_view_trans [OF a(2)] by (auto simp: Let_def sbind_def)
qed (simp add: same_view_refl)

lemma connect_tx_complete:
  assumes v: "coins_valid (cs_view st)" "utxo_ok (coins (cs_view st))" and c: "connectable (cn_crypto env) tx (coins (cs_view st))"
    and s: "\<not> IsCoinBase tx \<Longrightarrow> spends_ok env h pindex nLockTimeFlags flags True (coins (cs_view st)) tx \<and> \<not> cn_cached env (ComputeHash (cn_crypto env) tx) flags \<and>
      GetValueOut tx = Ok (sum_list (map nValue (vout tx))) \<and> MoneyRange (inputs_value (coins (cs_view st)) (vin tx)) \<and>
      MoneyRange (cs_fees st + tx_fee (coins (cs_view st)) tx)"
    and g: "flags AND SCRIPT_VERIFY_P2SH = 0" "unat (cs_sigops st + word_of_nat (tx_sigops tx)) \<le> max_sigops"
  shows "\<exists>st'. connect_tx env h pindex nLockTimeFlags flags True max_sigops tx i state st = Ok (Inr st') \<and>
    (list_all (\<lambda>r. r = Ok ()) (cs_queue st) \<longrightarrow> list_all (\<lambda>r. r = Ok ()) (cs_queue st')) \<and> cs_sigops st' = cs_sigops st + word_of_nat (tx_sigops tx)"
proof -
  let ?U = "coins (cs_view st)"
  obtain st1 where a: "(if IsCoinBase tx then Ok (Inr st) else connect_inputs env h pindex nLockTimeFlags tx state st) = Ok (Inr st1)"
    "same_view (cs_view st) (cs_view st1)" "cs_queue st1 = cs_queue st" "cs_sigops st1 = cs_sigops st"
  proof (cases "IsCoinBase tx")
    case True
    then show ?thesis using that [of st] v(1) by (simp add: same_view_refl)
  next
    case False
    then show ?thesis using that connect_inputs_complete [OF v False, of h pindex nLockTimeFlags env state] s by (auto simp: spends_ok_def)
  qed
  note v1 = same_viewD [OF a(2)]
  have gs: "GetTransactionSigOpCount tx flags (cs_view st1) = Ok (word_of_nat (tx_sigops tx), cs_view st1)"
    using g(1) by (simp add: GetTransactionSigOpCount_def GetLegacySigOpCount_sum)
  obtain queue view2 where q: "(if IsCoinBase tx then Ok (Inr ([], cs_view st1)) else CheckInputs env tx True flags state (cs_view st1)) = Ok (Inr (queue, view2))"
    "same_view (cs_view st1) view2" "list_all (\<lambda>r. r = Ok ()) queue"
  proof (cases "IsCoinBase tx")
    case True
    then show ?thesis using that [of "[]" "cs_view st1"] v1(1) by (simp add: same_view_refl)
  next
    case False
    have "\<forall>txin \<in> set (vin tx). coins (cs_view st1) (prevout txin) \<noteq> None" using c False v1(2) by (simp add: connectable_def)
    then show ?thesis using that check_scripts_complete [OF v1(1), of "vin tx" env tx 0 flags state] s [OF False] False v1(2)
      by (auto simp: CheckInputs_def spends_ok_def)
  qed
  note v2 = same_viewD [OF q(2)]
  obtain undo view3 where u: "UpdateCoins (cn_crypto env) tx (nHeight (h pindex)) view2 = Ok (undo, view3)"
    using UpdateCoins_top [OF v2(1), of "cn_crypto env" tx "nHeight (h pindex)"] c v1(2) v2(2) by auto
  show ?thesis unfolding connect_tx_def a(1) sbind_def obind.simps sum.case gs prod.case Let_def q(1)
    using g(2) u q(3) a(3,4) by simp
qed

section \<open>Examples\<close>

definition example_crypto :: crypto where
  "example_crypto = const_crypto\<lparr>SHA256 := (\<lambda>x. if length x = 32 then x else word_of_nat (length x) # replicate 31 0)\<rparr>"

definition paying_spend :: CTransaction where
  "paying_spend = \<lparr>vin = [\<lparr>prevout = COutPoint Coins.example_hash1 0, scriptSig = [], nSequence = SEQUENCE_FINAL\<rparr>],
     vout = [\<lparr>nValue = 3, scriptPubKey = [0x51]\<rparr>], nVersion = 2, nType = 0, nLockTime = 0, vExtraPayload = []\<rparr>"

definition open_coin :: Coin where
  "open_coin = \<lparr>out = \<lparr>nValue = 5, scriptPubKey = [0x51]\<rparr>, fCoinBase = False, coin_nHeight = 1\<rparr>"

definition open_coins :: coins_state where
  "open_coins = \<lparr>top_cache = CCoinsViewCache_of, base_caches = [],
     coins_disk = \<lparr>db_coins = (\<lambda>_. None)(COutPoint Coins.example_hash1 0 \<mapsto> open_coin), db_best = Some [0], db_heads = None\<rparr>\<rparr>"

definition two_tx_block :: CBlock where
  "two_tx_block = CBlockHeader.extend (example_header 1) \<lparr>vtx = [example_coinbase, paying_spend]\<rparr>"

definition two_block_chain :: HeaderManager where
  "two_block_chain = \<lparr>hm_index = (BlockManager_init (CBlockIndex_of (example_header 0)))\<lparr>bm_store := example_store\<rparr>, m_failed_blocks = []\<rparr>"

definition connect_henv :: header_env where
  "connect_henv = example_env\<lparr>env_GetHash := (\<lambda>_. [1])\<rparr>"

definition example_connect_env :: connect_env where
  "example_connect_env = \<lparr>cn_crypto = example_crypto, cn_fmt = (\<lambda>f _. f), cn_error_string = (\<lambda>_. []), cn_cached = (\<lambda>_ _. False), cn_parallel = False,
     hashAssumeValid = uint256_null, cn_nMinimumChainWork = replicate 8 0, evo_VerifyBestBlock = (\<lambda>_. True), ProcessSpecialTxsInBlock = (\<lambda>_ _ _ state. (True, state)),
     conflicting_lock = (\<lambda>_. False), cn_write_undo = (\<lambda>_ _. Inr 0), cn_write_indexes = None\<rparr>"


lemma example_deployments:
  assumes "pos = 1 \<or> pos = 3" "caches pos None \<in> {None, Some DEFINED}"
  shows "VersionBitsState example_store (Some 0) example_consensus pos caches = Some (Ok (DEFINED, caches(pos := (caches pos)(None \<mapsto> DEFINED))))"
proof -
  let ?ck = "VersionBitsConditionChecker example_consensus pos"
  have "1 smod vb_Period example_consensus (vDeployments example_consensus ! 1) = 1" "1 smod vb_Period example_consensus (vDeployments example_consensus ! 3) = 1"
    by code_simp+
  then have "1 smod Period ?ck = 1" using assms(1) by (auto simp: VersionBitsConditionChecker_def Let_def)
  then have "period_parent ?ck example_store (Some 0) = Ok None"
    using GetAncestor_correct [OF example_chain_ok, of 0 "- 1"] by (simp add: period_parent_def example_fields)
  moreover have "find_known ?ck example_store None (caches pos) [] = Some (Ok (None, (caches pos)(None \<mapsto> DEFINED), []))"
    using assms(2) by (auto simp: find_known.simps fun_upd_idem)
  ultimately show ?thesis by (simp add: VersionBitsState_def with_cache_def GetStateFor_def find_start.simps)
qed

lemma example_block_flags:
  assumes "caches 1 None = None" "caches 3 None = None"
  shows "\<exists>caches1 caches2. VersionBitsState example_store (Some 0) example_consensus DEPLOYMENT_CSV caches = Some (Ok (DEFINED, caches1)) \<and>
    GetBlockScriptFlags example_store 1 example_consensus caches1 = Some (Ok (516, caches2))"
proof -
  define caches1 where "caches1 = caches(1 := (caches 1)(None \<mapsto> DEFINED))"
  have a: "VersionBitsState example_store (Some 0) example_consensus 1 caches = Some (Ok (DEFINED, caches1))"
    using example_deployments [of 1 caches] assms by (simp add: caches1_def)
  define caches2 where "caches2 = caches1(1 := (caches1 1)(None \<mapsto> DEFINED))"
  have b: "VersionBitsState example_store (Some 0) example_consensus 1 caches1 = Some (Ok (DEFINED, caches2))"
    using example_deployments [of 1 caches1] by (simp add: caches1_def caches2_def)
  have c: "\<exists>caches3. VersionBitsState example_store (Some 0) example_consensus 3 caches2 = Some (Ok (DEFINED, caches3))"
    using example_deployments [of 3 caches2] assms(2) by (simp add: caches1_def caches2_def)
  have "BIP65Height example_consensus = 1" "BIP66Height example_consensus = 1" "BRRHeight example_consensus = 12096" by (simp_all add: example_consensus_def mainnet_params_def)
  then show ?thesis using a b c by (auto simp: GetBlockScriptFlags_def example_fields Let_def)
qed

lemma example_script: "VerifyScript example_crypto (TransactionSignatureChecker example_crypto paying_spend 0) 516 [] [0x51] = Ok ()"
  by code_simp

lemma open_coins_valid: "coins_valid open_coins"
  by (auto simp: coins_valid_def open_coins_def CCoinsViewCache_of_def cache_valid_def open_coin_def IsSpent_def CTxOut_IsNull_def split: if_splits)

lemma open_coins_views: "coins_views open_coins =
    [((\<lambda>_. None)(COutPoint Coins.example_hash1 0 \<mapsto> open_coin), [0]), ((\<lambda>_. None)(COutPoint Coins.example_hash1 0 \<mapsto> open_coin), [0])]"
  by (simp add: coins_views_def open_coins_def CCoinsViewCache_of_def overlay_def fun_eq_iff db_GetBestBlock_def uint256_null_def open_coin_def IsSpent_def CTxOut_IsNull_def)

lemma open_coins_utxo: "coins open_coins = (\<lambda>_. None)(COutPoint Coins.example_hash1 0 \<mapsto> open_coin)"
  by (simp add: coins_def open_coins_views)

lemma open_coins_ok: "utxo_ok (coins open_coins)" "finite (dom (coins open_coins))"
  by (auto simp: open_coins_utxo utxo_ok_def open_coin_def MoneyRange_def IsUnspendable_def split: if_splits)

lemma paying_spend_length: "length (CTransaction_ser paying_spend) = 61"
  by (simp add: CTransaction_ser_def vector_ser_def CTxIn_ser_def CTxOut_ser_def COutPoint_ser_def bytes_ser_def Coins.example_hash1_def
      paying_spend_def length_WriteCompactSize GetSizeOfCompactSize_def ser_writedata32_def ser_writedata64_def has_payload_def)

lemma two_tx_hashes: "ComputeHash example_crypto example_coinbase = 62 # replicate 31 0" "ComputeHash example_crypto paying_spend = 61 # replicate 31 0"
  by (simp_all add: ComputeHash_def Hash256_def example_crypto_def example_sizes(1) paying_spend_length)

lemma two_tx_vtx [simp]: "vtx two_tx_block = [example_coinbase, paying_spend]"
  by (simp add: two_tx_block_def CBlockHeader.extend_def)

lemma paying_spend_facts: "\<not> IsCoinBase paying_spend" "GetValueOut paying_spend = Ok 3" "vin paying_spend = [\<lparr>prevout = COutPoint Coins.example_hash1 0, scriptSig = [], nSequence = SEQUENCE_FINAL\<rparr>]"
    "vout paying_spend = [\<lparr>nValue = 3, scriptPubKey = [0x51]\<rparr>]"
  by (simp_all add: IsCoinBase_def paying_spend_def COutPoint_IsNull_def GetValueOut_def MoneyRange_def)

lemma two_tx_sigops: "tx_sigops example_coinbase = 0" "tx_sigops paying_spend = 0"
proof -
  have "GetSigOpCount False [] = Some 0" "GetSigOpCount False [0x51] = Some 0" "GetSigOpCount False [0x51, 0] = Some 0" by code_simp+
  then show "tx_sigops example_coinbase = 0" "tx_sigops paying_spend = 0" by (simp_all add: tx_sigops_def example_coinbase_def paying_spend_def)
qed

lemma two_tx_rules: "block_rules two_tx_block"
proof -
  have t: "tx_rules paying_spend"
    using paying_spend_length paying_spend_facts unfolding tx_rules_def GetTotalSize_def
    by (simp add: COutPoint_IsNull_def uint256_IsNull_def paying_spend_def)
  have "length (CBlock_ser two_tx_block) \<le> 1000000"
    using example_sizes(1) paying_spend_length by (simp add: CBlock_ser_def vector_ser_def length_WriteCompactSize GetSizeOfCompactSize_def)
      (simp add: two_tx_block_def CBlockHeader.extend_def CBlockHeader_ser_def example_header_def CBlockHeader_null_def uint256_null_def
        ser_writedata32_def ser_writedata64_def autolykos_ser_def)
  then show ?thesis using t example_tx_rules paying_spend_facts(1) two_tx_sigops by (simp add: block_rules_def MaxBlockSize_def MaxBlockSigOps_def block_sigops_def)
qed

lemma two_tx_fresh: "fresh_outputs example_crypto [example_coinbase, paying_spend] (coins open_coins)"
  unfolding fresh_outputs_def by (simp add: two_tx_hashes open_coins_utxo Coins.example_hash1_def numeral_eq_Suc)

lemma example_connect_sel [simp]: "cn_crypto example_connect_env = example_crypto" "\<not> cn_cached example_connect_env k f" "\<not> cn_parallel example_connect_env"
    "hashAssumeValid example_connect_env = uint256_null" "evo_VerifyBestBlock example_connect_env k" "conflicting_lock example_connect_env tx = False"
    "ProcessSpecialTxsInBlock example_connect_env block b c state = (True, state)" "cn_write_undo example_connect_env u state = Inr 0" "cn_write_indexes example_connect_env = None"
  by (simp_all add: example_connect_env_def)

lemma example_after_coinbase: "apply_tx example_crypto 1 example_coinbase (coins open_coins) =
    (coins open_coins)(COutPoint (62 # replicate 31 0) 0 \<mapsto> Coin_of \<lparr>nValue = 7, scriptPubKey = []\<rparr> 1 True)"
  by (simp add: apply_tx_def two_tx_hashes) (simp add: example_coinbase_def IsUnspendable_def)

lemma example_spends:
  defines "U \<equiv> apply_tx example_crypto 1 example_coinbase (coins open_coins)"
  shows "U (COutPoint Coins.example_hash1 0) = Some open_coin" "spends_ok example_connect_env example_store 1 0 516 True U paying_spend"
    "inputs_value U (vin paying_spend) = 5" "tx_fee U paying_spend = 2" "connectable example_crypto paying_spend U"
proof -
  show a: "U (COutPoint Coins.example_hash1 0) = Some open_coin"
    unfolding U_def example_after_coinbase by (simp add: open_coins_utxo Coins.example_hash1_def numeral_eq_Suc)
  show b: "inputs_value U (vin paying_spend) = 5" using a by (simp add: inputs_value_def paying_spend_facts open_coin_def)
  show "tx_fee U paying_spend = 2" using b by (simp add: tx_fee_def paying_spend_facts)
  have "U (COutPoint (61 # replicate 31 0) 0) = None"
    unfolding U_def example_after_coinbase by (simp add: open_coins_utxo Coins.example_hash1_def numeral_eq_Suc)
  then show "connectable example_crypto paying_spend U" using a by (simp add: connectable_def two_tx_hashes paying_spend_facts MoneyRange_def)
  have c: "coin_of U (vin paying_spend ! 0) = open_coin" "inputs_spendable U 1 (vin paying_spend)"
    using a by (simp_all add: coin_of_def paying_spend_facts inputs_spendable_def spendable_def open_coin_def MoneyRange_def)
  have "SequenceLocks example_store paying_spend 0 (map (\<lambda>txin. int (unat (coin_nHeight (coin_of U txin)))) (vin paying_spend)) 1 = Ok True"
    using SequenceLocks_judged [OF example_chain_ok, of 1 0 "[1]" paying_spend 0] c(1) by (simp add: example_fields paying_spend_facts open_coin_def)
  then show "spends_ok example_connect_env example_store 1 0 516 True U paying_spend"
    using b c example_script by (simp add: spends_ok_def example_fields script_check_def) (simp add: paying_spend_facts open_coin_def)
qed

lemma example_connect_txs:
  assumes "same_view open_coins s"
  shows "\<exists>st. connect_txs example_connect_env example_store 1 0 516 True 20000 [example_coinbase, paying_spend] 0 state
      \<lparr>cs_view = s, cs_undo = [], cs_fees = 0, cs_sigops = 0, cs_queue = []\<rparr> = Ok (Inr st) \<and> list_all (\<lambda>r. r = Ok ()) (cs_queue st)"
proof -
  let ?st = "\<lparr>cs_view = s, cs_undo = [], cs_fees = 0, cs_sigops = 0, cs_queue = []\<rparr>" and ?env = example_connect_env
  note v = same_viewD [OF assms]
  have s: "coins_valid (cs_view ?st)" "utxo_ok (coins (cs_view ?st))" using v open_coins_ok(1) by simp_all
  have fresh: "\<forall>j < length (vout example_coinbase). coins (cs_view ?st) (COutPoint (ComputeHash (cn_crypto ?env) example_coinbase) (word_of_nat j)) = None"
    using two_tx_fresh v(2) by (simp add: fresh_outputs_def)
  have con: "connectable (cn_crypto ?env) example_coinbase (coins (cs_view ?st))" using fresh tx_rules_outputs [OF example_tx_rules] by (simp add: connectable_def)
  obtain st1 where st1: "connect_tx ?env example_store 1 0 516 True 20000 example_coinbase 0 state ?st = Ok (Inr st1)"
    "list_all (\<lambda>r. r = Ok ()) (cs_queue st1)" "cs_sigops st1 = 0"
    using connect_tx_complete [OF s con, of example_store 1 0 516 20000 0 state] two_tx_sigops by auto
  have c1: "shows_coins (apply_tx example_crypto 1 example_coinbase (coins open_coins)) s (cs_view st1)" "cs_fees st1 = 0"
    using connect_tx_sound [OF st1(1) s example_tx_rules fresh] v(2) by (simp_all add: connected_tx_def example_fields tx_fee_def)
  note v1 = shows_coinsD [OF c1(1)]
  have h: "height_ok 1" by (simp add: height_ok_def)
  have "utxo_ok (coins (cs_view st1))"
    unfolding v1(2) by (rule apply_tx_utxo_ok [OF open_coins_ok(1) h]) (use tx_rules_outputs [OF example_tx_rules] in blast)
  then obtain st2 where "connect_tx ?env example_store 1 0 516 True 20000 paying_spend 1 state st1 = Ok (Inr st2)" "list_all (\<lambda>r. r = Ok ()) (cs_queue st2)"
    using connect_tx_complete [OF v1(1), of ?env paying_spend example_store 1 0 516 20000 1 state] example_spends st1(2,3) two_tx_sigops c1(2)
    unfolding v1(2) by (auto simp: paying_spend_facts MoneyRange_def)
  then show ?thesis using st1(1) by (simp add: sbind_def)
qed

lemma example_reward: "7 \<le> GetBlockSubsidy 0 mainnet_params False" "\<not> isExtraFundAllocationHeight True mainnet_params 1" "\<not> IsValidBlockHeight mainnet_params 1"
  by code_simp+

lemma example_payments: "0 \<le> nFees \<Longrightarrow> check_payments example_connect_env (example_pay_env False) two_tx_block 1 (block_reward (example_pay_env False) 0 1 nFees) g state = Ok (Inr g)"
proof -
  assume f: "0 \<le> nFees"
  have v: "GetValueOut example_coinbase = Ok 7" by (simp add: example_coinbase_def GetValueOut_def MoneyRange_def)
  have m: "pe_is_main (example_pay_env False)" "DIP0003EnforcementHeight mainnet_params = 2" by (simp_all add: example_pay_env_def mainnet_params_def)
  have r: "7 \<le> block_reward (example_pay_env False) 0 1 nFees" using f example_reward(1,2) m(1) by (simp add: block_reward_def Let_def)
  have "IsBlockValueValid (example_pay_env False) two_tx_block 1 (block_reward (example_pay_env False) 0 1 nFees) g = Ok (True, g)"
    using r v example_reward(3) by (simp add: IsBlockValueValid_def mainnet_pay_params Let_def)
  moreover have "IsBlockPayeeValid (example_pay_env False) example_coinbase 1 (block_reward (example_pay_env False) 0 1 nFees) g = Ok (True, g)"
    using example_reward(3) m(2) by (simp add: IsBlockPayeeValid_def mainnet_pay_params IsSuperblockTriggered_def IsTransactionValid_def)
  ultimately show ?thesis by (simp add: check_payments_def)
qed

lemma two_block_chain_sel [simp]: "hm_store two_block_chain = example_store" by (simp add: two_block_chain_def)

lemma replicate_32: "[x] \<noteq> replicate 32 y"
  by (auto dest: arg_cong [where f = length])

lemma example_connect_facts:
  "height_ok (nHeight (hm_store two_block_chain 1))" "pprev (hm_store two_block_chain 1) = Some 0"
  "env_GetHash connect_henv (CBlockHeader.truncate two_tx_block) \<noteq> hashGenesisBlock (env_consensus connect_henv)"
  "distinct (map (ComputeHash (cn_crypto example_connect_env)) (vtx two_tx_block))"
  "enforce_BIP30 (env_consensus connect_henv) (hm_store two_block_chain) 1 0 = Ok True"
  "phashBlock (hm_store two_block_chain 0) \<noteq> uint256_null"
proof -
  show "enforce_BIP30 (env_consensus connect_henv) (hm_store two_block_chain) 1 0 = Ok True"
    using GetAncestor_correct [OF example_chain_ok, of 0 1]
    by (simp add: enforce_BIP30_def connect_henv_def example_env_def example_consensus_def mainnet_params_def example_fields)
qed (simp_all add: height_ok_def example_fields two_tx_hashes connect_henv_def example_env_def example_consensus_def example_store_def uint256_null_def replicate_32)

lemma example_connected:
  "\<exists>r. ConnectBlock example_connect_env connect_henv (example_pay_env False) two_block_chain two_tx_block True 1 False (\<lambda>_. Map.empty) g
     CValidationState_init open_coins = Some (Ok (Inr r)) \<and> cd_undo r \<noteq> None"
proof -
  let ?env = example_connect_env and ?s0 = CValidationState_init
  obtain s1 where s1: "coins_GetBestBlock open_coins = ([0], s1)" "same_view open_coins s1"
    using GetBestBlock_valid [OF open_coins_valid] by (auto simp: same_view_def open_coins_views)
  note v1 = same_viewD [OF s1(2)]
  obtain over s2 where o: "overwrites (concat (map (out_points example_crypto) [example_coinbase, paying_spend])) s1 = (over, s2)" by fastforce
  have out: "set (concat (map (out_points example_crypto) [example_coinbase, paying_spend])) = {COutPoint (62 # replicate 31 0) 0, COutPoint (61 # replicate 31 0) 0}"
    by (simp add: out_points_def two_tx_hashes) (auto simp: example_coinbase_def paying_spend_facts)
  have ow: "\<not> over" "same_view s1 s2"
    using overwrites_same [OF v1(1) o] unfolding out v1(2) by (simp_all add: open_coins_utxo Coins.example_hash1_def numeral_eq_Suc)
  have sv: "same_view open_coins s2" using same_view_trans [OF s1(2) ow(2)] .
  obtain st where st: "connect_txs ?env example_store 1 0 516 True 20000 [example_coinbase, paying_spend] 0 ?s0
      \<lparr>cs_view = s2, cs_undo = [], cs_fees = 0, cs_sigops = 0, cs_queue = []\<rparr> = Ok (Inr st)" "list_all (\<lambda>r. r = Ok ()) (cs_queue st)"
    using example_connect_txs [OF sv] by blast
  have "\<not> list_ex (\<lambda>r. r = Throw \<or> r = Abort) (cs_queue st)" using st(2) by (auto simp: list_all_iff list_ex_iff)
  then have t: "connect_transactions ?env example_store 1 0 516 True False 20000 two_tx_block ?s0 s2 = Ok (Inr (?s0, st))"
    using st by (simp add: connect_transactions_def sbind_def)
  have h: "height_ok (nHeight (example_store 1))" and tr: "\<forall>tx \<in> set [example_coinbase, paying_spend]. tx_rules tx"
    using two_tx_rules by (simp_all add: height_ok_def example_fields block_rules_def)
  have "cs_fees st = total_fees example_crypto 1 [example_coinbase, paying_spend] (coins open_coins)"
    using connect_txs_sound [OF st(1) _ _ tr _ h] same_viewD [OF sv] open_coins_ok(1) two_tx_fresh by (simp add: example_fields)
  moreover have "total_fees example_crypto 1 [] U = 0" "tx_fee U example_coinbase = 0" for U by (simp_all add: total_fees_def tx_fee_def)
  ultimately have fees: "0 \<le> cs_fees st" using example_spends(4) by (simp add: total_fees_Cons)
  obtain caches1 caches2 where f: "VersionBitsState example_store (Some 0) example_consensus DEPLOYMENT_CSV (\<lambda>_. Map.empty) = Some (Ok (DEFINED, caches1))"
    "GetBlockScriptFlags example_store 1 example_consensus caches1 = Some (Ok (516, caches2))"
    using example_block_flags [of "\<lambda>_. Map.empty"] by auto
  obtain r where w: "write_block ?env (example_store 1) [1] st caches2 g ?s0 = Ok (Inr r)" "cd_undo r \<noteq> None"
    using that by (simp add: write_block_def sbind_def IsValid_def RaiseValidity_def example_store_def CBlockIndex_of_def Let_def)
  have "connect_checked ?env connect_henv (example_pay_env False) two_block_chain two_tx_block 1 0 True False (\<lambda>_. Map.empty) g ?s0 s1 = Some (Ok (Inr r))"
  proof -
    have p: "nSuperblockStartHash example_consensus = uint256_null" "DIP0001Height example_consensus = 2" by (simp_all add: example_consensus_def mainnet_params_def)
    have c: "env_consensus connect_henv = example_consensus" "env_GetHash connect_henv x = [1]" for x by (simp_all add: connect_henv_def example_env_def)
    show ?thesis using o ow(1) f t w(1) example_connect_facts(5) example_payments [OF fees] p
      by (simp add: connect_checked_def c sbind_def MaxBlockSigOps_def MaxBlockSize_def example_fields)
  qed
  moreover have "script_checks_needed ?env x two_block_chain 1 = Ok True" for x by (simp add: script_checks_needed_def uint256_IsNull_def uint256_null_def)
  ultimately show ?thesis using s1(1) example_connect_facts(2,3) w(2)
    by (simp add: ConnectBlock_def CheckBlock_def connect_henv_def example_env_def example_store_def Let_def)
qed

theorem disconnect_undoes_connect_witness:
  "\<exists>r vtxundo s'. ConnectBlock example_connect_env connect_henv (example_pay_env False) two_block_chain two_tx_block True 1 False (\<lambda>_. Map.empty) example_gov
     CValidationState_init open_coins = Some (Ok (Inr r)) \<and> cd_undo r = Some vtxundo \<and>
   DisconnectBlock example_crypto True (Some vtxundo) True two_tx_block 1 [0] (cd_view r) = Ok (DISCONNECT_OK, s') \<and> coins_views s' = coins_views open_coins"
proof -
  obtain r vtxundo where r: "ConnectBlock example_connect_env connect_henv (example_pay_env False) two_block_chain two_tx_block True 1 False (\<lambda>_. Map.empty) example_gov
     CValidationState_init open_coins = Some (Ok (Inr r))" "cd_undo r = Some vtxundo" using example_connected [of example_gov] by auto
  have b: "True \<longrightarrow> block_rules two_tx_block" using two_tx_rules by simp
  have h: "phashBlock (example_store 0) = [0]" "nHeight (example_store 1) = 1" by (simp_all add: example_store_def)
  show ?thesis
    using r disconnect_undoes_connect [OF r(1) open_coins_valid open_coins_ok(1) b example_connect_facts(1,3,4,2,5,6) r(2)] h by auto
qed

theorem ConnectBlock_checks_spends_witness:
  "\<exists>r. ConnectBlock example_connect_env connect_henv (example_pay_env False) two_block_chain two_tx_block True 1 False (\<lambda>_. Map.empty) example_gov
     CValidationState_init open_coins = Some (Ok (Inr r)) \<and>
   coins (cd_view r) = after_txs example_crypto 1 [example_coinbase, paying_spend] 2 (coins open_coins)"
proof -
  obtain r where r: "ConnectBlock example_connect_env connect_henv (example_pay_env False) two_block_chain two_tx_block True 1 False (\<lambda>_. Map.empty) example_gov
     CValidationState_init open_coins = Some (Ok (Inr r))" using example_connected [of example_gov] by auto
  have b: "True \<longrightarrow> block_rules two_tx_block" using two_tx_rules by simp
  from ConnectBlock_checks_spends [OF r open_coins_valid open_coins_ok(1) b example_connect_facts(1,3,4,2,5)]
  have "coins (cd_view r) = after_txs example_crypto 1 [example_coinbase, paying_spend] 2 (coins open_coins)" by (simp add: example_fields numeral_2_eq_2)
  then show ?thesis using r by blast
qed

theorem ConnectBlock_no_inflation_witness:
  "\<exists>r. ConnectBlock example_connect_env connect_henv (example_pay_env False) two_block_chain two_tx_block True 1 False (\<lambda>_. Map.empty) example_gov
     CValidationState_init open_coins = Some (Ok (Inr r)) \<and>
   utxo_total (coins (cd_view r)) \<le> utxo_total (coins open_coins) + GetBlockSubsidy 0 mainnet_params False"
proof -
  obtain r where r: "ConnectBlock example_connect_env connect_henv (example_pay_env False) two_block_chain two_tx_block True 1 False (\<lambda>_. Map.empty) example_gov
     CValidationState_init open_coins = Some (Ok (Inr r))" using example_connected [of example_gov] by auto
  have b: "True \<longrightarrow> block_rules two_tx_block" using two_tx_rules by simp
  have m: "pe_is_main (example_pay_env False)" "GetPaymentsLimit mainnet_params 1 = 0" using example_reward(3) by (simp_all add: example_pay_env_def GetPaymentsLimit_def)
  have "nBudgetPaymentsStartBlock (pe_params (example_pay_env False)) \<le> nHeight (hm_store two_block_chain 1)"
    "nSuperblockStartBlock (pe_params (example_pay_env False)) \<le> nHeight (hm_store two_block_chain 1)" by (simp_all add: mainnet_pay_params example_fields)
  from ConnectBlock_no_inflation [OF r open_coins_valid open_coins_ok(1) b example_connect_facts(1,3,4,2,5) open_coins_ok(2) this]
  show ?thesis using r m example_reward(2) by (auto simp: example_fields)
qed

end
