(* ===== verification/Spec2Isabelle.thy ===== *)
theory Spec2Isabelle
  imports Compact_Bits Op_Names Script_Verify Bitsets Sighash Header_Check Subsidy Version_Bits Merkle Coins Tx_Verify Block_Check Payments Connect
begin

text \<open>
  \<^bold>\<open>BLOCX core: consensus rules.\<close>  BLOCX is a node of a Bitcoin-like network that descends from Dash.  This
  development models the part of it that decides which scripts, transactions, headers and blocks
  are valid, and the data formats that the decision rests on.  File names below are relative to
  \<^verbatim>\<open>src/src\<close>.

  \<^bold>\<open>Conventions.\<close>  Machine integers are words of their width (\<^verbatim>\<open>u8\<close>, \<^verbatim>\<open>u32\<close>, \<^verbatim>\<open>u64\<close>), signed ones are
  read with \<^verbatim>\<open>sint\<close> where the sign matters; heights, times and amounts are integers, since every
  value that occurs is shown or assumed far below the bounds of their types.  Byte vectors, scripts and streams are byte
  lists, and an iterator is the suffix that is left.  A function that may fail has the result type
  \<^verbatim>\<open>outcome\<close>: \<^verbatim>\<open>Ok\<close>, a reported error \<^verbatim>\<open>Fail\<close>, an exception \<^verbatim>\<open>Throw\<close>, or \<^verbatim>\<open>Abort\<close> for a failed assertion or
  undefined behaviour such as a null pointer.  Loops that follow pointers are partial functions into options,
  where \<^verbatim>\<open>None\<close> stands for a run that does not end; the theorems about them prove that they do return.
  No definition uses fuel.  The block index is a store from addresses to entries, as entries
  share predecessors and are changed in place.

  \<^bold>\<open>Numbers and formats.\<close>
  \<^item> Blocx_Prelude, Byte_Order: shared lemmas on lists, limbs and words; the little-endian access of
    \<^verbatim>\<open>crypto/common.h\<close>.
  \<^item> Arith_U256 (\<^verbatim>\<open>arith_uint256.h\<close>, \<^verbatim>\<open>arith_uint256.cpp\<close>): the limb-wise operators compute modulo
    \<open>2\<^sup>2\<^sup>5\<^sup>6\<close>.  Wide_Int states the laws as a locale, from which users of the numbers reason.
    Compact_Bits: the compact form of targets.
  \<^item> Serialize and Bitsets (\<^verbatim>\<open>serialize.h\<close>): integers, sizes, vectors and bit sets.  A locale of codecs
    carries the round trips; it is interpreted for every format and composed for the larger ones.
  \<^item> Hex_Text (\<^verbatim>\<open>util/strencodings.cpp\<close>, \<^verbatim>\<open>uint256.cpp\<close>): hexadecimal text.
  \<^item> Blake2b (\<^verbatim>\<open>crypto/blake2b.cpp\<close>): the streaming hash, shown to be typed and to compute the
    block-wise definition.
  \<^item> Doubles: IEEE double arithmetic as the code uses it, with rounding written out over the integers.

  \<^bold>\<open>Scripts.\<close>
  \<^item> Script_Num, Script, Op_Names (\<^verbatim>\<open>script/script.h\<close>, \<^verbatim>\<open>script/script.cpp\<close>): script numbers, opcodes,
    building, decoding and classifying scripts.
  \<^item> Sig_Encoding, Script_Ops, Script_Interp (\<^verbatim>\<open>script/interpreter.cpp\<close>): encodings, one definition for each
    case of the interpreter's switch, and the loop \<^verbatim>\<open>EvalScript\<close>.  Script_Safety shows that it returns
    on every script within its limits; Script_Flags that flags only restrict; Find_And_Delete what
    \<^verbatim>\<open>FindAndDelete\<close> removes.
  \<^item> Script_Verify: \<^verbatim>\<open>VerifyScript\<close>, and exactly which spends of the two common forms it accepts.
    Signature checking and hash functions are parameters.

  \<^bold>\<open>Transactions and blocks.\<close>
  \<^item> Transaction, Tx_Check (\<^verbatim>\<open>primitives/transaction.h\<close>, \<^verbatim>\<open>consensus/tx_check.cpp\<close>): data, serialization
    and the context-free checks, which report the first violated rule.  Sighash (\<^verbatim>\<open>script/interpreter.cpp\<close>): signature hashes, as a refinement of
    the transaction that the hash type describes, and the checker that the interpreter is run with.
  \<^item> Block (\<^verbatim>\<open>primitives/block.h\<close>, \<^verbatim>\<open>net_processing.cpp\<close>): headers, blocks, and the compressed headers of
    the \<^verbatim>\<open>HEADERS2\<close> messages between their senders and their receiver.

  \<^bold>\<open>Header chain.\<close>
  \<^item> Block_Index, Chain (\<^verbatim>\<open>chain.h\<close>, \<^verbatim>\<open>chain.cpp\<close>, \<^verbatim>\<open>validation.cpp\<close>): entries with skip list, chain work and
    median time; the active chain, forks and locators.  The locale of block trees holds what the
    chain algorithms use of the links and is interpreted on the store.
  \<^item> Autolykos (\<^verbatim>\<open>autolykos/src\<close>, \<^verbatim>\<open>primitives/block.cpp\<close>): the puzzle and the block hash.  The integers of Boost are
    a record of functions; its documented behaviour is the hypothesis \<^verbatim>\<open>boost_ok\<close>, which an instance
    satisfies.
  \<^item> Consensus_Params, Pow (\<^verbatim>\<open>consensus/params.h\<close>, \<^verbatim>\<open>chainparams.cpp\<close>, \<^verbatim>\<open>pow.cpp\<close>): parameters of the main network,
    retargeting and the test of the proof of work.  Retargeting is total whatever the earlier targets are.
  \<^item> Header_Check (\<^verbatim>\<open>validation.cpp\<close>): acceptance of headers on top of all of these, with the invariant of
    every reachable state.  Of the block hash it assumes only that it has 32 bytes and that the genesis block does not name
    its own hash as its predecessor.  Targets are in range but for early headers of the Autolykos version on the main network.
  \<^item> Version_Bits (\<^verbatim>\<open>versionbits.cpp\<close>): deployments.  The states of a chain are specified period by period
    without a cache; the cached computation over the index is shown to agree with them as long as the thresholds do not
    overflow.
  \<^item> Subsidy (\<^verbatim>\<open>validation.cpp\<close>): block rewards and their shares.

  \<^bold>\<open>Blocks and unspent outputs.\<close>
  \<^item> Merkle (\<^verbatim>\<open>consensus/merkle.cpp\<close>, \<^verbatim>\<open>merkleblock.cpp\<close>): Merkle roots bind the list of transactions up to hash
    collisions, which are exhibited; partial trees prove only transactions of the block.
  \<^item> Coins (\<^verbatim>\<open>coins.cpp\<close>, \<^verbatim>\<open>txdb.cpp\<close>): a stack of caches over the database.  The abstraction is the list of
    maps that the views show, with their best blocks; every sequence of operations refines it, and a flush
    that is interrupted between batches can be repeated.
  \<^item> Tx_Verify (\<^verbatim>\<open>consensus/tx_verify.cpp\<close>): lock times, signature operations and the inputs of a transaction
    against the unspent outputs.
  \<^item> Block_Check (\<^verbatim>\<open>validation.cpp\<close>): \<^verbatim>\<open>CheckBlock\<close> and \<^verbatim>\<open>ContextualCheckBlock\<close>, exactly.
  \<^item> Payments (\<^verbatim>\<open>masternode/payments.cpp\<close>, \<^verbatim>\<open>governance/classes.cpp\<close>): superblocks, the limit on the value of a
    coinbase, and the masternode payments of a new block.
  \<^item> Connect (\<^verbatim>\<open>validation.cpp\<close>): \<^verbatim>\<open>ConnectBlock\<close> and \<^verbatim>\<open>DisconnectBlock\<close> on the stack of caches.  The effect of a block is
    specified on plain maps, transaction by transaction; an accepted block has this effect, each of its spends has been
    checked, the total of the coins grows by no more than the block may pay, and undoing the block gives the maps back.

  \<^bold>\<open>Not modelled.\<close>  Sockets, threads, databases, wallet, user interface and remote calls are input and output
  around these rules.  Elliptic curves, pairings and the hash functions other than BLAKE2b are parameters
  wherever the modelled code calls them.  The masternode list, sporks, chain locks, instant send, special transactions and the bloom filter
  are parameters, and so is what the script execution cache contains.  The choice of the best chain, block files, the memory pool, quorums, and governance messages are not modelled.
\<close>

end
